(* ===== verification/Prelude.thy ===== *)
theory Prelude imports Main "HOL-Library.Word" "HOL-Library.Signed_Division" begin

text \<open>
  Shared vocabulary of the development: the machine integer types of the kernel, the ways a piece
  of kernel code can fail (\<open>kerror\<close>) and the result type that carries them, the arithmetic of the
  C type \<open>int\<close>, and the byte-addressed store with its little-endian 64-bit accesses. The general
  lemmas on words, lists and stores that several components use are collected here.
\<close>

unbundle bit_operations_syntax

type_synonym u8 = "8 word"
type_synonym u16 = "16 word"
type_synonym u32 = "32 word"
type_synonym u64 = "64 word"
type_synonym addr = "64 word"

named_theorems res_simps \<open>evaluation of results that carry kernel errors\<close>
named_theorems mem_simps \<open>reading back what was stored\<close>
named_theorems cint_simps \<open>C int arithmetic inside its range\<close>

section \<open>Results of kernel code\<close>

text \<open>
  A failed \<open>assert\<close> prints a message and halts the machine for ever (\<open>core/assert.c\<close>); an access
  to an unmapped address raises a page fault; a behaviour C leaves undefined (a shift by a negative
  amount or by the width of the type or more, an \<open>int\<close> overflow, a null dereference) and an access
  outside an array have no meaning at all. Each is a value of \<open>kerror\<close>; \<open>Diverges\<close> is a loop
  that never ends.
\<close>

datatype kerror =
    Assert_Failed
  | Page_Fault addr
  | Undefined_Behaviour
  | Out_Of_Bounds
  | Diverges

type_synonym 'a res = "kerror + 'a"

definition bindE :: "'a res \<Rightarrow> ('a \<Rightarrow> 'b res) \<Rightarrow> 'b res" where
  "bindE m f = (case m of Inl e \<Rightarrow> Inl e | Inr x \<Rightarrow> f x)"

definition mapE :: "('a \<Rightarrow> 'b) \<Rightarrow> 'a res \<Rightarrow> 'b res" where
  "mapE f m = bindE m (\<lambda>x. Inr (f x))"

text \<open>The \<open>assert\<close> macro of \<open>include/assert.h\<close>, with assertions enabled as the Makefile builds it.\<close>

definition assertE :: "bool \<Rightarrow> unit res" where
  "assertE b = (if b then Inr () else Inl Assert_Failed)"

lemma bindE_Inl [simp, res_simps]: "bindE (Inl e) f = Inl e"
  by (simp add: bindE_def)

lemma bindE_Inr [simp, res_simps]: "bindE (Inr x) f = f x"
  by (simp add: bindE_def)

lemma mapE_Inl [simp, res_simps]: "mapE f (Inl e) = Inl e"
  by (simp add: mapE_def)

lemma mapE_Inr [simp, res_simps]: "mapE f (Inr x) = Inr (f x)"
  by (simp add: mapE_def)

lemma bindE_eq_Inr [res_simps]: "bindE m f = Inr y \<longleftrightarrow> (\<exists>x. m = Inr x \<and> f x = Inr y)"
  by (cases m) auto

lemma mapE_eq_Inr [res_simps]: "mapE f m = Inr y \<longleftrightarrow> (\<exists>x. m = Inr x \<and> y = f x)"
  by (cases m) auto

lemma bindE_eq_Inl: "bindE m f = Inl e \<longleftrightarrow> m = Inl e \<or> (\<exists>x. m = Inr x \<and> f x = Inl e)"
  by (cases m) auto

lemma bindE_assoc: "bindE (bindE m f) g = bindE m (\<lambda>x. bindE (f x) g)"
  by (cases m) auto

lemma assertE_True [simp, res_simps]: "assertE True = Inr ()"
  by (simp add: assertE_def)

lemma assertE_False [simp, res_simps]: "assertE False = Inl Assert_Failed"
  by (simp add: assertE_def)

lemma assertE_Inr [res_simps]: "assertE b = Inr u \<longleftrightarrow> b"
  by (simp add: assertE_def)

section \<open>Procedures on a state\<close>

text \<open>
  A procedure takes the state and gives a result and the new state, or fails. \<open>bindS\<close> runs one
  procedure after another.
\<close>

type_synonym ('s, 'a) kproc = "'s \<Rightarrow> ('a \<times> 's) res"

definition returnS :: "'a \<Rightarrow> ('s, 'a) kproc" where
  "returnS x = (\<lambda>s. Inr (x, s))"

definition bindS :: "('s, 'a) kproc \<Rightarrow> ('a \<Rightarrow> ('s, 'b) kproc) \<Rightarrow> ('s, 'b) kproc" where
  "bindS m f = (\<lambda>s. bindE (m s) (\<lambda>(x, s'). f x s'))"

definition thenS :: "('s, 'a) kproc \<Rightarrow> ('s, 'b) kproc \<Rightarrow> ('s, 'b) kproc" where
  "thenS m n = bindS m (\<lambda>_. n)"

definition getsS :: "('s \<Rightarrow> 'a) \<Rightarrow> ('s, 'a) kproc" where
  "getsS f = (\<lambda>s. Inr (f s, s))"

definition modifyS :: "('s \<Rightarrow> 's) \<Rightarrow> ('s, unit) kproc" where
  "modifyS f = (\<lambda>s. Inr ((), f s))"

definition failS :: "kerror \<Rightarrow> ('s, 'a) kproc" where
  "failS e = (\<lambda>s. Inl e)"

definition assertS :: "bool \<Rightarrow> ('s, unit) kproc" where
  "assertS b = (if b then returnS () else failS Assert_Failed)"

lemma returnS_apply [simp, res_simps]: "returnS x s = Inr (x, s)"
  by (simp add: returnS_def)

lemma bindS_apply [res_simps]: "bindS m f s = bindE (m s) (\<lambda>(x, s'). f x s')"
  by (simp add: bindS_def)

lemma thenS_apply [res_simps]: "thenS m n s = bindE (m s) (\<lambda>(x, s'). n s')"
  by (simp add: thenS_def bindS_def)

lemma getsS_apply [simp, res_simps]: "getsS f s = Inr (f s, s)"
  by (simp add: getsS_def)

lemma modifyS_apply [simp, res_simps]: "modifyS f s = Inr ((), f s)"
  by (simp add: modifyS_def)

lemma failS_apply [simp, res_simps]: "failS e s = Inl e"
  by (simp add: failS_def)

lemma assertS_apply [simp, res_simps]: "assertS b s = (if b then Inr ((), s) else Inl Assert_Failed)"
  by (simp add: assertS_def)

section \<open>The C type int\<close>

text \<open>
  A C \<open>int\<close> has 32 bits and its overflow is undefined. The model keeps an \<open>int\<close> variable as an
  integer and checks each result that can leave the range.
\<close>

definition INT_MAX :: int where "INT_MAX = 2147483647"
definition INT_MIN :: int where "INT_MIN = - 2147483648"

definition c_int :: "int \<Rightarrow> int res" where
  "c_int x = (if INT_MIN \<le> x \<and> x \<le> INT_MAX then Inr x else Inl Undefined_Behaviour)"

text \<open>The expression \<open>1 << k\<close> of type \<open>int\<close>: defined while the result fits.\<close>

definition c_shl1 :: "int \<Rightarrow> int res" where
  "c_shl1 k = (if 0 \<le> k \<and> k < 31 then Inr (2 ^ nat k) else Inl Undefined_Behaviour)"

text \<open>Conversion of a 64-bit value to \<open>int\<close> keeps the low 32 bits (gcc), read as signed.\<close>

definition int_of_u64 :: "u64 \<Rightarrow> int" where
  "int_of_u64 x = sint (ucast x :: 32 word)"

lemma c_int_ok [cint_simps]: "INT_MIN \<le> x \<Longrightarrow> x \<le> INT_MAX \<Longrightarrow> c_int x = Inr x"
  by (simp add: c_int_def)

lemma c_shl1_ok [cint_simps]: "0 \<le> k \<Longrightarrow> k < 31 \<Longrightarrow> c_shl1 k = Inr (2 ^ nat k)"
  by (simp add: c_shl1_def)

lemma int_of_u64_small [cint_simps]:
  assumes "unat x < 2 ^ 31"
  shows "int_of_u64 x = int (unat x)"
proof -
  have "int (unat x) < int (2 ^ 31)"
    using assms by (simp only: of_nat_less_iff)
  then have x: "uint x < 2 ^ 31" by simp
  have u: "uint (ucast x :: 32 word) = uint x"
    using x by (simp add: unsigned_ucast_eq take_bit_int_eq_self)
  have "sint (ucast x :: 32 word) = uint x"
    unfolding sint_uint u using x order_trans [of "- (2 ^ 31)" 0 "uint x"]
    by (simp add: signed_take_bit_int_eq_self)
  then show ?thesis by (simp add: int_of_u64_def)
qed

section \<open>64-bit words as numbers\<close>

lemma unat_less_u64: "unat (a :: u64) < 18446744073709551616"
proof -
  have "unat a < 2 ^ LENGTH(64)" by (rule unsigned_less)
  then show ?thesis by simp
qed

lemma unat_add_u64: "unat a + unat b < 18446744073709551616 \<Longrightarrow> unat (a + b :: u64) = unat a + unat b"
  by (rule unat_add_lem [THEN iffD1]) simp

lemma unat_sub_u64: "b \<le> a \<Longrightarrow> unat (a - b :: u64) = unat a - unat b"
  by (simp add: unat_sub)

lemma unat_mult_u64: "unat a * unat b < 18446744073709551616 \<Longrightarrow> unat (a * b :: u64) = unat a * unat b"
  by (rule unat_mult_lem [THEN iffD1]) simp

lemma unat_of_nat_u64: "n < 18446744073709551616 \<Longrightarrow> unat (of_nat n :: u64) = n"
  by (simp add: unat_of_nat)

lemma unat_pred: "w \<noteq> 0 \<Longrightarrow> unat w = Suc (unat (w - 1 :: u64))"
  by (metis Suc_pred' unat_gt_0 unat_minus_one)

lemma unat_minus_1_u64: "unat (- 1 :: u64) = 18446744073709551615"
  by (simp add: unsigned_minus_1_eq_mask mask_eq_exp_minus_1)

lemma unat_power_u64: "k < 64 \<Longrightarrow> unat (2 ^ k :: u64) = 2 ^ k"
proof -
  assume "k < 64"
  then have "(2::nat) ^ k < 2 ^ 64" by (rule power_strict_increasing) simp
  then show ?thesis using unat_of_nat_u64 [of "2 ^ k"] by simp
qed

section \<open>Lists as arrays\<close>

lemma set_take_nth: "k \<le> length xs \<Longrightarrow> set (take k xs) = (\<lambda>j. xs ! j) ` {..<k}"
  using nth_image [of k xs] by (simp add: atLeast0LessThan)

end
