(* ===== verification/Memory.thy ===== *)
theory Memory imports Prelude begin

text \<open>
  The byte-addressed store that kernel code works on through pointers: a total function from 64-bit
  addresses to bytes, with the little-endian accesses of an amd64 machine, and the memory routines of
  \<open>libc/\<close>. A pointer is an address; pointer arithmetic wraps modulo \<open>2 ^ 64\<close>.
\<close>

type_synonym mem = "addr \<Rightarrow> u8"

text \<open>A store with given bytes from address 0 on, for examples.\<close>

definition mem_of :: "u8 list \<Rightarrow> mem" where
  "mem_of bs a = (if unat a < length bs then bs ! unat a else 0)"

section \<open>Little-endian accesses\<close>

definition load_u16 :: "mem \<Rightarrow> addr \<Rightarrow> u16" where
  "load_u16 m a = ucast (m a) OR push_bit 8 (ucast (m (a + 1)))"

definition load_u32 :: "mem \<Rightarrow> addr \<Rightarrow> u32" where
  "load_u32 m a = ucast (m a) OR push_bit 8 (ucast (m (a + 1)))
     OR push_bit 16 (ucast (m (a + 2))) OR push_bit 24 (ucast (m (a + 3)))"

definition load_u64 :: "mem \<Rightarrow> addr \<Rightarrow> u64" where
  "load_u64 m a = ucast (m a) OR push_bit 8 (ucast (m (a + 1)))
     OR push_bit 16 (ucast (m (a + 2))) OR push_bit 24 (ucast (m (a + 3)))
     OR push_bit 32 (ucast (m (a + 4))) OR push_bit 40 (ucast (m (a + 5)))
     OR push_bit 48 (ucast (m (a + 6))) OR push_bit 56 (ucast (m (a + 7)))"

definition store_u64 :: "mem \<Rightarrow> addr \<Rightarrow> u64 \<Rightarrow> mem" where
  "store_u64 m a v = m(a := ucast v, a + 1 := ucast (drop_bit 8 v),
     a + 2 := ucast (drop_bit 16 v), a + 3 := ucast (drop_bit 24 v),
     a + 4 := ucast (drop_bit 32 v), a + 5 := ucast (drop_bit 40 v),
     a + 6 := ucast (drop_bit 48 v), a + 7 := ucast (drop_bit 56 v))"

text \<open>The addresses of an 8-byte cell, and alignment to 8.\<close>

definition cell :: "addr \<Rightarrow> addr set" where
  "cell a = {a, a + 1, a + 2, a + 3, a + 4, a + 5, a + 6, a + 7}"

definition aligned8 :: "addr \<Rightarrow> bool" where
  "aligned8 a \<longleftrightarrow> unat a mod 8 = 0"

lemma store_u64_outside [mem_simps]: "x \<notin> cell a \<Longrightarrow> store_u64 m a v x = m x"
  by (simp add: store_u64_def cell_def)

lemma load_u64_cong: "(\<And>x. x \<in> cell a \<Longrightarrow> m x = m' x) \<Longrightarrow> load_u64 m a = load_u64 m' a"
  by (simp add: load_u64_def cell_def)

lemma load_u64_store_disjoint:
  "cell a \<inter> cell b = {} \<Longrightarrow> load_u64 (store_u64 m b v) a = load_u64 m a"
  by (rule load_u64_cong) (auto intro: store_u64_outside)

lemma load_u64_upd_outside [mem_simps]: "x \<notin> cell a \<Longrightarrow> load_u64 (m(x := b)) a = load_u64 m a"
  by (rule load_u64_cong) auto

lemma take_bit_or_byte:
  fixes v :: "'a::len word"
  shows "take_bit n v OR push_bit n (take_bit 8 (drop_bit n v)) = take_bit (n + 8) v"
  by (rule bit_word_eqI) (auto simp: bit_simps)

lemma byte_0_of_word: "(ucast (ucast v :: u8) :: 'a::len word) = take_bit 8 v"
  by (rule bit_word_eqI) (auto simp: bit_simps)

lemma bytes_of_u64:
  fixes v :: u64
  shows "ucast (ucast v :: u8) OR push_bit 8 (ucast (ucast (drop_bit 8 v) :: u8))
     OR push_bit 16 (ucast (ucast (drop_bit 16 v) :: u8)) OR push_bit 24 (ucast (ucast (drop_bit 24 v) :: u8))
     OR push_bit 32 (ucast (ucast (drop_bit 32 v) :: u8)) OR push_bit 40 (ucast (ucast (drop_bit 40 v) :: u8))
     OR push_bit 48 (ucast (ucast (drop_bit 48 v) :: u8)) OR push_bit 56 (ucast (ucast (drop_bit 56 v) :: u8)) = v"
  by (simp only: or.assoc [symmetric] byte_0_of_word take_bit_or_byte numeral_plus_numeral add_num_simps)
    (simp add: take_bit_word_eq_self)

lemma load_u64_store_same [simp, mem_simps]: "load_u64 (store_u64 m a v) a = v"
  by (simp add: load_u64_def store_u64_def bytes_of_u64)

lemma cell_iff: "x \<in> cell a \<longleftrightarrow> x - a < 8"
proof
  assume "x \<in> cell a"
  then show "x - a < 8" by (auto simp: cell_def)
next
  assume "x - a < 8"
  then have "unat (x - a) < 8" by (simp add: word_less_nat_alt)
  then have "unat (x - a) \<in> {0, 1, 2, 3, 4, 5, 6, 7}" by auto
  then have "x - a \<in> {0, 1, 2, 3, 4, 5, 6, 7}"
    by (auto simp: word_unat_eq_iff)
  then show "x \<in> cell a" by (auto simp: cell_def diff_eq_eq add.commute)
qed

lemma aligned8_cell:
  assumes "aligned8 a" and "x \<in> cell a"
  shows "unat x div 8 * 8 = unat a"
proof -
  let ?k = "x - a"
  have k: "unat ?k < 8"
    using assms(2) by (simp add: cell_iff word_less_nat_alt)
  have a: "unat a mod 8 = 0" using assms(1) by (simp add: aligned8_def)
  obtain q where q: "unat a = 8 * q" using a by (metis mod_eq_0_iff_dvd dvd_def)
  have "8 * q < 18446744073709551616"
    using unat_less_u64 [of a] by (simp add: q)
  then have "unat a + unat ?k < 18446744073709551616" using k q by presburger
  then have "unat (a + ?k) = unat a + unat ?k"
    by (rule unat_add_u64)
  then have "unat x = 8 * q + unat ?k" by (simp add: q)
  then have "unat x div 8 = q" using k by simp
  then show ?thesis by (simp add: q)
qed

lemma aligned8_disjoint:
  "aligned8 a \<Longrightarrow> aligned8 b \<Longrightarrow> a \<noteq> b \<Longrightarrow> cell a \<inter> cell b = {}"
  by (metis (no_types, opaque_lifting) aligned8_cell disjoint_iff word_unat_eq_iff)

lemma load_u64_store_aligned [mem_simps]:
  "aligned8 a \<Longrightarrow> aligned8 b \<Longrightarrow>
    load_u64 (store_u64 m b v) a = (if a = b then v else load_u64 m a)"
  by (simp add: load_u64_store_disjoint aligned8_disjoint)

end
