(* ===== verification/Libc.thy ===== *)
theory Libc imports Memory begin

text \<open>
  The memory routines of \<open>libc/\<close>: \<open>memcmp\<close> (C) and \<open>memset\<close>, \<open>memcpy\<close>, \<open>memmove\<close> (assembly).
  The string instructions \<open>rep stosb\<close> and \<open>rep movsb\<close> are loops over the count in \<open>rcx\<close>, upwards with
  the direction flag clear and downwards with it set. The lemmas show that \<open>memset\<close> and \<open>memcpy\<close> write
  exactly their range, that \<open>memmove\<close> copies correctly however the two areas overlap, and that
  \<open>memcmp\<close> decides equality.
\<close>

section \<open>The routines\<close>

fun rep_stosb :: "mem \<Rightarrow> addr \<Rightarrow> u8 \<Rightarrow> nat \<Rightarrow> mem" where
  "rep_stosb m rdi al 0 = m"
| "rep_stosb m rdi al (Suc rcx) = rep_stosb (m(rdi := al)) (rdi + 1) al rcx"

fun rep_movsb :: "mem \<Rightarrow> addr \<Rightarrow> addr \<Rightarrow> nat \<Rightarrow> mem" where
  "rep_movsb m rdi rsi 0 = m"
| "rep_movsb m rdi rsi (Suc rcx) = rep_movsb (m(rdi := m rsi)) (rdi + 1) (rsi + 1) rcx"

fun rep_movsb_std :: "mem \<Rightarrow> addr \<Rightarrow> addr \<Rightarrow> nat \<Rightarrow> mem" where
  "rep_movsb_std m rdi rsi 0 = m"
| "rep_movsb_std m rdi rsi (Suc rcx) = rep_movsb_std (m(rdi := m rsi)) (rdi - 1) (rsi - 1) rcx"

text \<open>Each routine returns the destination pointer along with the store.\<close>

definition memset :: "mem \<Rightarrow> addr \<Rightarrow> u32 \<Rightarrow> u64 \<Rightarrow> mem \<times> addr" where
  "memset m buffer c num = (rep_stosb m buffer (ucast c) (unat num), buffer)"

definition memcpy :: "mem \<Rightarrow> addr \<Rightarrow> addr \<Rightarrow> u64 \<Rightarrow> mem \<times> addr" where
  "memcpy m dest src num = (rep_movsb m dest src (unat num), dest)"

definition memmove :: "mem \<Rightarrow> addr \<Rightarrow> addr \<Rightarrow> u64 \<Rightarrow> mem \<times> addr" where
  "memmove m dest src num =
     (if dest < src then memcpy m dest src num
      else if dest = src then (m, dest)
      else if num \<le> dest - src then memcpy m dest src num
      else (rep_movsb_std m (dest + num - 1) (src + num - 1) (unat num), dest))"

text \<open>
  \<open>memcmp\<close> compares byte by byte from index \<open>i\<close>; the difference of two bytes is an \<open>int\<close>.
\<close>

function memcmp_from :: "mem \<Rightarrow> addr \<Rightarrow> addr \<Rightarrow> nat \<Rightarrow> nat \<Rightarrow> int" where
  "memcmp_from m p1 p2 num i =
     (if i < num
      then if m (p1 + of_nat i) \<noteq> m (p2 + of_nat i)
           then uint (m (p1 + of_nat i)) - uint (m (p2 + of_nat i))
           else memcmp_from m p1 p2 num (Suc i)
      else 0)"
  by pat_completeness auto
termination
  by (relation "measure (\<lambda>(m, p1, p2, num, i). num - i)") auto

declare memcmp_from.simps [simp del]

definition memcmp :: "mem \<Rightarrow> addr \<Rightarrow> addr \<Rightarrow> u64 \<Rightarrow> int" where
  "memcmp m p1 p2 num = memcmp_from m p1 p2 (unat num) 0"

section \<open>What they do\<close>

text \<open>The \<open>n\<close> addresses from \<open>a\<close> on.\<close>

definition area_of :: "addr \<Rightarrow> nat \<Rightarrow> addr set" where
  "area_of a n = {x. unat (x - a) < n}"

lemma area_of_0 [simp]: "area_of a 0 = {}"
  by (simp add: area_of_def)

lemma area_of_Suc:
  assumes "n < 2 ^ 64"
  shows "area_of a (Suc n) = insert a (area_of (a + 1) n)"
proof -
  have "unat (x - a) < Suc n \<longleftrightarrow> x = a \<or> unat (x - (a + 1)) < n" for x :: addr
  proof (cases "x = a")
    case False
    then have "x - a \<noteq> 0" by simp
    then have "unat (x - a) = Suc (unat (x - a - 1))"
      by (rule unat_pred)
    then show ?thesis using False by (simp add: diff_diff_eq)
  qed simp
  then show ?thesis by (auto simp: area_of_def)
qed

lemma area_of_first: "0 < n \<Longrightarrow> a \<in> area_of a n"
  by (simp add: area_of_def)

lemma rep_stosb_apply:
  "n < 2 ^ 64 \<Longrightarrow> rep_stosb m a c n x = (if x \<in> area_of a n then c else m x)"
proof (induction n arbitrary: m a)
  case (Suc n)
  then show ?case by (simp add: area_of_Suc)
qed simp

lemma next_not_in_area:
  assumes "n < 2 ^ 64"
  shows "a \<notin> area_of (a + 1) (n - 1)"
proof -
  have "unat (a - (a + 1)) = 2 ^ 64 - 1"
    by (simp add: unat_minus_1_u64)
  then show ?thesis using assms by (simp add: area_of_def)
qed

text \<open>
  A forward copy is right when no byte is overwritten before it is read: the destination does not
  lie strictly inside the source area.
\<close>

lemma rep_movsb_apply:
  assumes "n < 2 ^ 64" and "d - s = 0 \<or> n \<le> unat (d - s)"
  shows "rep_movsb m d s n x = (if x \<in> area_of d n then m (s + (x - d)) else m x)"
  using assms
proof (induction n arbitrary: m d s)
  case (Suc n)
  let ?m = "m(d := m s)"
  have IH: "rep_movsb ?m (d + 1) (s + 1) n x
      = (if x \<in> area_of (d + 1) n then ?m (s + 1 + (x - (d + 1))) else ?m x)"
    using Suc.prems by (intro Suc.IH) auto
  have rest: "?m (s + 1 + (x - (d + 1))) = m (s + (x - d))" if "x \<in> area_of (d + 1) n"
  proof (cases "d - s = 0")
    case True
    then have "d = s" by simp
    then show ?thesis by simp
  next
    case False
    have "s + (x - d) \<noteq> d"
    proof
      assume eq: "s + (x - d) = d"
      then have xd: "x - d = d - s" by (simp add: algebra_simps)
      have "unat (x - d - 1) < n" using that by (simp add: area_of_def diff_diff_eq)
      moreover have "unat (d - s) = Suc (unat (d - s - 1))" using False by (rule unat_pred)
      ultimately show False using Suc.prems(2) False unfolding xd by simp
    qed
    then show ?thesis by (simp add: algebra_simps)
  qed
  have "d \<notin> area_of (d + 1) n"
    using next_not_in_area [of "Suc n" d] Suc.prems(1) by simp
  then show ?case
    using IH rest Suc.prems(1) by (auto simp: area_of_Suc)
qed simp

lemma rep_movsb_std_apply:
  assumes "n < 2 ^ 64" and "unat d + n \<le> 2 ^ 64" and "s \<le> d"
  shows "rep_movsb_std m (d + of_nat n - 1) (s + of_nat n - 1) n x
    = (if x \<in> area_of d n then m (s + (x - d)) else m x)"
  using assms
proof (induction n arbitrary: m)
  case (Suc n)
  let ?e = "d + of_nat n" and ?m = "m(d + of_nat n := m (s + of_nat n))"
  have n: "unat (of_nat n :: addr) = n" using Suc.prems(1) by (simp add: unat_of_nat_u64)
  have e: "x = ?e \<longleftrightarrow> unat (x - d) = n"
    using n by (metis add_diff_cancel_left' diff_add_cancel add.commute word_unat_eq_iff)
  have IH: "rep_movsb_std ?m (?e - 1) (s + of_nat n - 1) n x
      = (if x \<in> area_of d n then ?m (s + (x - d)) else ?m x)"
    using Suc.prems by (intro Suc.IH) auto
  have "s + (x - d) \<noteq> ?e" if "x \<in> area_of d n"
  proof
    assume "s + (x - d) = ?e"
    then have eq: "x - d = (d - s) + of_nat n" by (simp add: algebra_simps)
    have "unat (d - s) = unat d - unat s" using Suc.prems(3) by (rule unat_sub_u64)
    then have "unat (d - s) + unat (of_nat n :: addr) < 18446744073709551616"
      using Suc.prems(2) n by simp
    then have "unat (x - d) = unat (d - s) + n" unfolding eq using n by (simp add: unat_add_u64)
    then show False using that by (simp add: area_of_def)
  qed
  then show ?case
    using IH e by (auto simp: area_of_def add.assoc add.left_commute [of 1])
qed simp

lemma memcmp_from_0: 
  "memcmp_from m p1 p2 num i = 0 \<longleftrightarrow> (\<forall>j. i \<le> j \<and> j < num \<longrightarrow> m (p1 + of_nat j) = m (p2 + of_nat j))"
proof (induction m p1 p2 num i rule: memcmp_from.induct)
  case (1 m p1 p2 num i)
  show ?case
  proof (cases "i < num \<and> m (p1 + of_nat i) = m (p2 + of_nat i)")
    case True
    then have "memcmp_from m p1 p2 num i = memcmp_from m p1 p2 num (Suc i)"
      by (subst memcmp_from.simps) simp
    with True 1 show ?thesis by (metis Suc_leD le_antisym not_less_eq_eq)
  next
    case False
    then show ?thesis
      by (subst memcmp_from.simps) (auto simp: word_uint_eq_iff)
  qed
qed

text \<open>
  \<open>memset\<close> and \<open>memcpy\<close> on areas that fit the address space.
\<close>

lemma memset_apply: "fst (memset m b c n) x = (if x \<in> area_of b (unat n) then ucast c else m x)"
  using unat_less_u64 [of n] by (simp add: memset_def rep_stosb_apply)

lemma memcpy_apply:
  "d = s \<or> unat n \<le> unat (d - s) \<Longrightarrow>
    fst (memcpy m d s n) x = (if x \<in> area_of d (unat n) then m (s + (x - d)) else m x)"
  using unat_less_u64 [of n] by (auto simp: memcpy_def rep_movsb_apply)

text \<open>\<open>memcmp\<close> returns 0 exactly when the two areas hold the same bytes.\<close>

lemma memcmp_0:
  "memcmp m p1 p2 num = 0 \<longleftrightarrow> (\<forall>j < unat num. m (p1 + of_nat j) = m (p2 + of_nat j))"
  by (simp add: memcmp_def memcmp_from_0)

text \<open>
  Property C25: \<open>memmove\<close> copies the source area as it was before the call, however the two areas
  overlap, changes nothing outside the destination area and returns the destination pointer. The only
  condition is that neither area wraps around the end of the address space.
\<close>

theorem memmove_correct:
  assumes "unat src + unat num \<le> 2 ^ 64" and "unat dest + unat num \<le> 2 ^ 64"
  shows "snd (memmove m dest src num) = dest \<and>
    (\<forall>x. fst (memmove m dest src num) x
      = (if x \<in> area_of dest (unat num) then m (src + (x - dest)) else m x))"
proof (intro conjI allI)
  fix x
  have n: "unat num < 2 ^ 64" using unat_less_u64 [of num] by simp
  consider (below) "dest < src" | (same) "dest = src" | (apart) "src < dest" "num \<le> dest - src"
    | (over) "src < dest" "dest - src < num" by fastforce
  then show "fst (memmove m dest src num) x
      = (if x \<in> area_of dest (unat num) then m (src + (x - dest)) else m x)"
  proof cases
    case below
    have "unat (dest - src) = 2 ^ 64 - (unat src - unat dest)"
      using below by (simp add: unat_sub_if_size word_size word_less_nat_alt)
    then have "unat num \<le> unat (dest - src)" using assms by simp
    then show ?thesis using below n by (simp add: memmove_def memcpy_def rep_movsb_apply)
  next
    case same
    then show ?thesis by (simp add: memmove_def)
  next
    case apart
    then show ?thesis using n by (auto simp: memmove_def memcpy_def rep_movsb_apply word_le_nat_alt)
  next
    case over
    then show ?thesis 
      using n assms rep_movsb_std_apply [of "unat num" dest src m x]
      by (auto simp: memmove_def)
  qed
qed (simp add: memmove_def memcpy_def)

theorem memmove_correct_witness:
  "fst (memmove (\<lambda>a. ucast a) 3 1 4) 5 = 3 \<and> fst (memmove (\<lambda>a. ucast a) 3 1 4) 7 = 7"
proof -
  have h: "unat (1 :: u64) + unat (4 :: u64) \<le> 2 ^ 64" "unat (3 :: u64) + unat (4 :: u64) \<le> 2 ^ 64"
    by simp_all
  show ?thesis
    using memmove_correct [OF h, of "\<lambda>a. ucast a"] by (simp add: area_of_def)
qed

end
