(* ===== verification/Bits.thy ===== *)
theory Bits imports Memory begin

text \<open>
  The two inline headers of \<open>include/util/\<close>. \<open>bitmap.h\<close>: single bits of a byte buffer, here with the
  laws of an array of bits (locale \<open>bit_array\<close>), which the byte store provides. \<open>math.h\<close>: rounding up
  to a power of two and the logarithm, with the compiler's builtins for counting zeros.
\<close>

section \<open>util/bitmap.h\<close>

text \<open>
  \<open>bit / 8\<close> and \<open>bit % 8\<close> truncate towards zero, so a negative \<open>bit\<close> that is no multiple of 8 gives a
  negative shift, which is undefined.
\<close>

definition flip_bit :: "mem \<Rightarrow> addr \<Rightarrow> int \<Rightarrow> mem res" where
  "flip_bit m buffer b =
     (let index = b sdiv 8; offset = b smod 8; a = buffer + word_of_int index in
      bindE (c_shl1 offset) (\<lambda>mask. Inr (m(a := m a XOR word_of_int mask))))"

definition get_bit :: "mem \<Rightarrow> addr \<Rightarrow> int \<Rightarrow> u8 res" where
  "get_bit m buffer b =
     (let index = b sdiv 8; offset = b smod 8; a = buffer + word_of_int index in
      if offset < 0 then Inl Undefined_Behaviour else Inr (drop_bit (nat offset) (m a) AND 1))"

definition set_bit :: "mem \<Rightarrow> addr \<Rightarrow> int \<Rightarrow> mem res" where
  "set_bit m buffer b =
     (let index = b sdiv 8; offset = b smod 8; a = buffer + word_of_int index in
      bindE (c_shl1 offset) (\<lambda>mask. Inr (m(a := m a OR word_of_int mask))))"

definition reset_bit :: "mem \<Rightarrow> addr \<Rightarrow> int \<Rightarrow> mem res" where
  "reset_bit m buffer b =
     (let index = b sdiv 8; offset = b smod 8; a = buffer + word_of_int index in
      bindE (c_shl1 offset) (\<lambda>mask. Inr (m(a := m a AND NOT (word_of_int mask)))))"

subsection \<open>The interface: an array of bits\<close>

text \<open>
  What the users of a bitmap rely on: on the valid indices, reading gives 0 or 1, each update succeeds
  and changes the one bit it names. \<open>view\<close> is the array itself.
\<close>

locale bit_array =
  fixes get :: "'s \<Rightarrow> int \<Rightarrow> u8 res"
    and set1 :: "'s \<Rightarrow> int \<Rightarrow> 's res"
    and reset1 :: "'s \<Rightarrow> int \<Rightarrow> 's res"
    and flip1 :: "'s \<Rightarrow> int \<Rightarrow> 's res"
    and view :: "'s \<Rightarrow> int \<Rightarrow> bool"
    and valid :: "int \<Rightarrow> bool"
  assumes get_view: "valid i \<Longrightarrow> get s i = Inr (of_bool (view s i))"
    and set_view: "valid i \<Longrightarrow> \<exists>s'. set1 s i = Inr s' \<and> (\<forall>j. valid j \<longrightarrow> view s' j = (j = i \<or> view s j))"
    and reset_view: "valid i \<Longrightarrow> \<exists>s'. reset1 s i = Inr s' \<and> (\<forall>j. valid j \<longrightarrow> view s' j = (j \<noteq> i \<and> view s j))"
    and flip_view: "valid i \<Longrightarrow> \<exists>s'. flip1 s i = Inr s' \<and> (\<forall>j. valid j \<longrightarrow> view s' j = (view s j \<noteq> (j = i)))"
begin

lemma get_after_set: "valid i \<Longrightarrow> valid j \<Longrightarrow> set1 s i = Inr s' \<Longrightarrow>
    get s' j = (if j = i then Inr 1 else get s j)"
  using set_view [of i s] get_view by auto

lemma get_after_reset: "valid i \<Longrightarrow> valid j \<Longrightarrow> reset1 s i = Inr s' \<Longrightarrow>
    get s' j = (if j = i then Inr 0 else get s j)"
  using reset_view [of i s] get_view by auto

lemma get_after_flip: "valid i \<Longrightarrow> valid j \<Longrightarrow> flip1 s i = Inr s' \<Longrightarrow>
    get s' j = (if j = i then Inr (of_bool (\<not> view s i)) else get s j)"
  using flip_view [of i s] get_view by auto

lemma flip_twice:
  assumes "valid i" "valid j" "flip1 s i = Inr s'" "flip1 s' i = Inr s''"
  shows "get s'' j = get s j"
  using assms flip_view [of i s] flip_view [of i s'] get_view by auto

end

subsection \<open>The byte store provides it\<close>

definition bit_view :: "addr \<Rightarrow> mem \<Rightarrow> int \<Rightarrow> bool" where
  "bit_view buffer m i \<longleftrightarrow> bit (m (buffer + word_of_int (i div 8))) (nat (i mod 8))"

definition bit_index_ok :: "int \<Rightarrow> bool" where
  "bit_index_ok i \<longleftrightarrow> 0 \<le> i \<and> i \<le> INT_MAX"

lemma sdiv_smod_8: "0 \<le> i \<Longrightarrow> i sdiv 8 = i div 8 \<and> i smod 8 = i mod 8" for i :: int
  by (cases "i = 0") (simp_all add: signed_divide_int_def signed_modulo_int_def)

lemma word_of_int_inj:
  assumes "0 \<le> a" "a < 2 ^ 64" "0 \<le> b" "b < 2 ^ 64"
  shows "(word_of_int a :: u64) = word_of_int b \<longleftrightarrow> a = b"
  using assms by (simp add: word_of_int_eq_iff take_bit_int_eq_self)

lemma byte_index_inj:
  assumes "bit_index_ok i" "bit_index_ok j"
  shows "buffer + word_of_int (i div 8) = buffer + (word_of_int (j div 8) :: u64) \<longleftrightarrow> i div 8 = j div 8"
proof -
  have "0 \<le> i div 8 \<and> i div 8 < 2 ^ 64" "0 \<le> j div 8 \<and> j div 8 < 2 ^ 64"
    using assms by (auto simp: bit_index_ok_def INT_MAX_def)
  then show ?thesis by (simp add: word_of_int_inj)
qed

lemma same_bit_iff: "0 \<le> i \<Longrightarrow> 0 \<le> j \<Longrightarrow> i = j \<longleftrightarrow> i div 8 = j div 8 \<and> nat (i mod 8) = nat (j mod 8)" for i j :: int
  by (metis Euclidean_Rings.pos_mod_sign div_mult_mod_eq eq_nat_nat_iff zero_less_numeral)

lemma flip_bit_ok:
  assumes "bit_index_ok i"
  shows "flip_bit m buffer i = Inr (m(buffer + word_of_int (i div 8) :=
      m (buffer + word_of_int (i div 8)) XOR 2 ^ nat (i mod 8)))"
  using assms sdiv_smod_8 [of i]
  by (simp add: flip_bit_def bit_index_ok_def Let_def c_shl1_ok)

lemma set_bit_ok:
  assumes "bit_index_ok i"
  shows "set_bit m buffer i = Inr (m(buffer + word_of_int (i div 8) :=
      m (buffer + word_of_int (i div 8)) OR 2 ^ nat (i mod 8)))"
  using assms sdiv_smod_8 [of i]
  by (simp add: set_bit_def bit_index_ok_def Let_def c_shl1_ok)

lemma reset_bit_ok:
  assumes "bit_index_ok i"
  shows "reset_bit m buffer i = Inr (m(buffer + word_of_int (i div 8) :=
      m (buffer + word_of_int (i div 8)) AND NOT (2 ^ nat (i mod 8))))"
  using assms sdiv_smod_8 [of i]
  by (simp add: reset_bit_def bit_index_ok_def Let_def c_shl1_ok)

lemma get_bit_ok:
  assumes "bit_index_ok i"
  shows "get_bit m buffer i = Inr (of_bool (bit_view buffer m i))"
  using assms sdiv_smod_8 [of i] pos_mod_sign [of 8 i]
  by (auto simp: get_bit_def bit_index_ok_def Let_def bit_view_def and_one_eq bit_iff_odd_drop_bit
      odd_iff_mod_2_eq_one)

lemma bit_view_upd:
  assumes "bit_index_ok i" "bit_index_ok j"
  shows "bit_view buffer (m(buffer + word_of_int (i div 8) := v)) j =
    (if i div 8 = j div 8 then bit v (nat (j mod 8)) else bit_view buffer m j)"
  using byte_index_inj [OF assms, of buffer] by (auto simp: bit_view_def)

interpretation bitmap: bit_array "\<lambda>m. get_bit m buffer" "\<lambda>m. set_bit m buffer" "\<lambda>m. reset_bit m buffer"
    "\<lambda>m. flip_bit m buffer" "bit_view buffer" bit_index_ok
  for buffer
proof unfold_locales
  fix i :: int and s :: mem
  assume i: "bit_index_ok i"
  let ?k = "nat (i mod 8)"
  have bits: "bit (2 ^ ?k :: u8) (nat (j mod 8)) \<longleftrightarrow> ?k = nat (j mod 8)" for j
    by (auto simp: bit_simps nat_less_iff)
  have same: "bit_index_ok j \<Longrightarrow> j = i \<longleftrightarrow> i div 8 = j div 8 \<and> ?k = nat (j mod 8)" for j
    using i same_bit_iff [of i j] by (auto simp: bit_index_ok_def)
  have old: "bit (s (buffer + word_of_int (j div 8))) (nat (j mod 8)) = bit_view buffer s j" for j
    by (simp add: bit_view_def)
  show "get_bit s buffer i = Inr (of_bool (bit_view buffer s i))"
    using i by (rule get_bit_ok)
  show "\<exists>s'. set_bit s buffer i = Inr s' \<and>
      (\<forall>j. bit_index_ok j \<longrightarrow> bit_view buffer s' j = (j = i \<or> bit_view buffer s j))"
    using i by (auto simp: set_bit_ok bit_view_upd bit_or_iff bits same old)
  show "\<exists>s'. reset_bit s buffer i = Inr s' \<and>
      (\<forall>j. bit_index_ok j \<longrightarrow> bit_view buffer s' j = (j \<noteq> i \<and> bit_view buffer s j))"
    using i by (auto simp: reset_bit_ok bit_view_upd bit_and_iff bit_not_iff bits same old nat_less_iff)
  show "\<exists>s'. flip_bit s buffer i = Inr s' \<and>
      (\<forall>j. bit_index_ok j \<longrightarrow> bit_view buffer s' j = (bit_view buffer s j \<noteq> (j = i)))"
    using i by (auto simp: flip_bit_ok bit_view_upd bit_xor_iff bits same old)
qed

section \<open>util/math.h\<close>

text \<open>
  The builtins \<open>__builtin_ctzl\<close> and \<open>__builtin_clzl\<close> count the zero bits below the lowest and above the
  highest set bit of a 64-bit value; their result for 0 is undefined. \<open>1 << b\<close> has type \<open>int\<close>.
\<close>

definition ctzl :: "u64 \<Rightarrow> int res" where
  "ctzl x = (if x = 0 then Inl Undefined_Behaviour
     else Inr (int (length (takeWhile (\<lambda>k. \<not> bit x k) [0..<64]))))"

definition clzl :: "u64 \<Rightarrow> int res" where
  "clzl x = (if x = 0 then Inl Undefined_Behaviour
     else Inr (int (length (takeWhile (\<lambda>k. \<not> bit x (63 - k)) [0..<64]))))"

definition ceil_to_power_of_two :: "u64 \<Rightarrow> u64 res" where
  "ceil_to_power_of_two number =
     bindE (ctzl number) (\<lambda>a. bindE (clzl number) (\<lambda>z.
       let b = 63 - z; b = (if a \<noteq> b then b + 1 else b) in
       mapE word_of_int (c_shl1 b)))"

definition log2 :: "u64 \<Rightarrow> int res" where
  "log2 number = ctzl number"

lemma length_takeWhile_upt:
  fixes P :: "nat \<Rightarrow> bool" and n :: nat
  defines "k \<equiv> length (takeWhile P [0..<n])"
  shows "k \<le> n \<and> (\<forall>i<k. P i) \<and> (k < n \<longrightarrow> \<not> P k)"
proof (intro conjI allI impI)
  show "k \<le> n" using length_takeWhile_le [of P "[0..<n]"] by (simp add: k_def)
next
  fix i assume "i < k"
  then have "P (takeWhile P [0..<n] ! i)"
    unfolding k_def using nth_mem set_takeWhileD by fastforce
  moreover have "i < n" using \<open>i < k\<close> length_takeWhile_le [of P "[0..<n]"] by (simp add: k_def)
  ultimately show "P i" using \<open>i < k\<close> by (simp add: k_def takeWhile_nth)
next
  assume "k < n"
  then show "\<not> P k" using nth_length_takeWhile [of P "[0..<n]"] by (simp add: k_def)
qed

text \<open>The position of the lowest and of the highest set bit.\<close>

lemma ctzl_lowest:
  assumes "x \<noteq> 0"
  obtains k where "ctzl x = Inr (int k)" "k < 64" "bit x k" "\<forall>i<k. \<not> bit x i"
proof -
  let ?k = "length (takeWhile (\<lambda>k. \<not> bit x k) [0..<64])"
  have k: "?k \<le> 64" "\<forall>i<?k. \<not> bit x i" "?k < 64 \<longrightarrow> bit x ?k"
    using length_takeWhile_upt [of "\<lambda>k. \<not> bit x k" 64] by auto
  have "?k \<noteq> 64"
  proof
    assume "?k = 64"
    with k(2) have "x = 0" by (intro bit_word_eqI) simp
    with assms show False ..
  qed
  with k show thesis using that [of ?k] assms by (simp add: ctzl_def)
qed

lemma clzl_highest:
  assumes "x \<noteq> 0"
  obtains b where "clzl x = Inr (63 - int b)" "b < 64" "bit x b" "\<forall>i>b. \<not> bit x i"
proof -
  let ?k = "length (takeWhile (\<lambda>k. \<not> bit x (63 - k)) [0..<64])"
  have k: "?k \<le> 64" "\<forall>i<?k. \<not> bit x (63 - i)" "?k < 64 \<longrightarrow> bit x (63 - ?k)"
    using length_takeWhile_upt [of "\<lambda>k. \<not> bit x (63 - k)" 64] by auto
  have above: "\<not> bit x i" if "63 - ?k < i \<or> ?k = 64" for i
  proof (cases "i < 64")
    case True
    then have "63 - i < ?k" using that by linarith
    with k(2) have "\<not> bit x (63 - (63 - i))" by blast
    then show ?thesis using True by simp
  next
    case False
    then show ?thesis using bit_imp_le_length [of x i] by auto
  qed
  have "?k \<noteq> 64"
  proof
    assume "?k = 64"
    then have "\<not> bit x i" for i using above by blast
    then have "x = 0" by (intro bit_word_eqI) simp
    with assms show False ..
  qed
  then have "?k < 64" using k(1) by simp
  show thesis
  proof (rule that [of "63 - ?k"])
    show "clzl x = Inr (63 - int (63 - ?k))" using \<open>?k < 64\<close> assms by (simp add: clzl_def of_nat_diff)
    show "63 - ?k < 64" by simp
    show "bit x (63 - ?k)" using k(3) \<open>?k < 64\<close> by blast
    show "\<forall>i>63 - ?k. \<not> bit x i" using above by blast
  qed
qed

lemma highest_bit_bounds:
  fixes x :: u64
  assumes "bit x b" and "\<forall>i>b. \<not> bit x i"
  shows "2 ^ b \<le> unat x \<and> unat x < 2 ^ Suc b"
proof
  have b: "b < 64" using assms(1) bit_imp_le_length by fastforce
  show "unat x < 2 ^ Suc b"
  proof -
    have "x = take_bit (Suc b) x"
      using assms(2) by (intro bit_word_eqI) (auto simp: bit_take_bit_iff less_Suc_eq_le intro: leI)
    then have "unat x = take_bit (Suc b) (unat x)" by (metis unsigned_take_bit_eq)
    then show ?thesis by (metis take_bit_nat_less_exp)
  qed
  show "2 ^ b \<le> unat x"
  proof (rule ccontr)
    assume "\<not> 2 ^ b \<le> unat x"
    then have "take_bit b (unat x) = unat x" by (simp add: take_bit_nat_eq_self)
    then have "\<not> bit (unat x) b" by (metis bit_take_bit_iff less_irrefl)
    with assms(1) show False by (simp add: bit_unsigned_iff)
  qed
qed

lemma single_bit_word:
  fixes x :: u64
  assumes "bit x b" "\<forall>i>b. \<not> bit x i" "\<forall>i<b. \<not> bit x i"
  shows "x = 2 ^ b"
proof (rule bit_word_eqI)
  fix n assume "n < LENGTH(64)"
  moreover have "bit x n \<longleftrightarrow> n = b" using assms by (metis linorder_neqE_nat)
  ultimately show "bit x n \<longleftrightarrow> bit (2 ^ b :: u64) n" by (auto simp: bit_exp_iff)
qed

lemma ctzl_power: "k < 64 \<Longrightarrow> ctzl (2 ^ k) = Inr (int k)"
proof -
  assume k: "k < 64"
  have bits: "bit (2 ^ k :: u64) i \<longleftrightarrow> i = k" for i using k by (auto simp: bit_exp_iff)
  then have "(2 ^ k :: u64) \<noteq> 0" by (metis bit_0_eq bot_apply bot_bool_def)
  then show ?thesis by (metis bits ctzl_lowest)
qed

lemma log2_power [cint_simps]: "k < 64 \<Longrightarrow> log2 (2 ^ k) = Inr (int k)"
  by (simp add: log2_def ctzl_power)

lemma Least_power_of_two:
  fixes n :: nat
  assumes "2 ^ b \<le> n" "n < 2 ^ Suc b"
  shows "(LEAST k. n \<le> 2 ^ k) = (if n = 2 ^ b then b else Suc b)"
proof (rule Least_equality)
  show "n \<le> 2 ^ (if n = 2 ^ b then b else Suc b)" using assms by simp
next
  fix k assume k: "n \<le> (2::nat) ^ k"
  then have "(2::nat) ^ b \<le> 2 ^ k" using assms by linarith
  then have "b \<le> k" by simp
  moreover have "b \<noteq> k" if "n \<noteq> 2 ^ b" using k assms(1) that by auto
  ultimately show "(if n = 2 ^ b then b else Suc b) \<le> k" by auto
qed

lemma ctzl_eq_highest_iff:
  fixes x :: u64
  assumes "bit x b" "\<forall>i>b. \<not> bit x i" "ctzl x = Inr a"
  shows "a = int b \<longleftrightarrow> unat x = 2 ^ b"
proof -
  have "b < 64" using assms(1) bit_imp_le_length by fastforce
  have "x \<noteq> 0" using assms(1) by auto
  then obtain k where k: "ctzl x = Inr (int k)" "bit x k" "\<forall>i<k. \<not> bit x i" 
    by (rule ctzl_lowest)
  have "k = b \<longleftrightarrow> x = 2 ^ b"
  proof
    assume "k = b" then show "x = 2 ^ b" using single_bit_word assms(1,2) k(3) by blast
  next
    assume "x = 2 ^ b" then show "k = b" using k(1) ctzl_power [OF \<open>b < 64\<close>] by simp
  qed
  also have "\<dots> \<longleftrightarrow> unat x = 2 ^ b"
    using \<open>b < 64\<close> by (metis unat_power_u64 word_unat_eq_iff)
  finally show ?thesis using k(1) assms(3) by auto
qed

lemma ceil_to_power_of_two_eq:
  "ceil_to_power_of_two n =
    (if n = 0 \<or> 2 ^ 30 < unat n then Inl Undefined_Behaviour
     else Inr (2 ^ (LEAST k. unat n \<le> 2 ^ k)))"
proof (cases "n = 0")
  case True
  then show ?thesis by (simp add: ceil_to_power_of_two_def ctzl_def)
next
  case False
  obtain a where a: "ctzl n = Inr a" using False by (rule ctzl_lowest) 
  obtain b where b: "clzl n = Inr (63 - int b)" "b < 64" "bit n b" "\<forall>i>b. \<not> bit n i"
    using False by (rule clzl_highest)
  have bounds: "2 ^ b \<le> unat n" "unat n < 2 ^ Suc b" using highest_bit_bounds [OF b(3,4)] by auto
  define c where "c = (if unat n = 2 ^ b then b else Suc b)"
  have "ceil_to_power_of_two n = mapE word_of_int (c_shl1 (int c))"
    using a b(1) ctzl_eq_highest_iff [OF b(3,4) a]
    by (auto simp: ceil_to_power_of_two_def c_def add.commute)
  moreover have "c = (LEAST k. unat n \<le> 2 ^ k)"
    unfolding c_def by (rule Least_power_of_two [symmetric, OF bounds])
  moreover have "c < 31 \<longleftrightarrow> unat n \<le> 2 ^ 30"
  proof
    assume "c < 31"
    then have "(2::nat) ^ c \<le> 2 ^ 30" by (intro power_increasing) simp_all
    moreover have "unat n \<le> 2 ^ c" using bounds by (auto simp: c_def)
    ultimately show "unat n \<le> 2 ^ 30" by linarith
  next
    assume "unat n \<le> 2 ^ 30"
    then have "c \<le> 30" using calculation(2) by (simp add: Least_le)
    then show "c < 31" by simp
  qed
  ultimately show ?thesis using False by (auto simp: c_shl1_def)
qed
text \<open>
  Property C26: \<open>ceil_to_power_of_two\<close> returns the least power of two that is not below its argument, for
  every argument from 1 to \<open>2 ^ 30\<close>; for 0 and above \<open>2 ^ 30\<close> its behaviour is undefined (the builtins do
  not accept 0, and \<open>1 << b\<close> is an \<open>int\<close>).
\<close>

theorem ceil_to_power_of_two_spec:
  "ceil_to_power_of_two n =
    (if n = 0 \<or> 2 ^ 30 < unat n then Inl Undefined_Behaviour
     else Inr (2 ^ (LEAST k. unat n \<le> 2 ^ k)))"
  by (rule ceil_to_power_of_two_eq)

lemma ceil_to_power_of_two_ok:
  assumes "0 < unat n" "unat n \<le> 2 ^ 30"
  obtains k where "ceil_to_power_of_two n = Inr (2 ^ k)" "k \<le> 30" "unat n \<le> 2 ^ k" "\<And>j. unat n \<le> 2 ^ j \<Longrightarrow> k \<le> j"
proof -
  let ?k = "LEAST k. unat n \<le> 2 ^ k"
  have "ceil_to_power_of_two n = Inr (2 ^ ?k)" using assms by (auto simp: ceil_to_power_of_two_eq)
  moreover have "?k \<le> 30" using assms(2) by (rule Least_le)
  moreover have "unat n \<le> 2 ^ ?k" using assms(2) by (rule LeastI)
  ultimately show thesis using that by (blast intro: Least_le)
qed

text \<open>
  A bitmap in memory is an array of bits. On every valid index each update succeeds, the bit it
  names then reads 1 (\<open>set_bit\<close>), 0 (\<open>reset_bit\<close>) or its complement (\<open>flip_bit\<close>), and every other bit
  reads as before.
\<close>

theorem bitmap_read_back:
  assumes "bit_index_ok i" and "bit_index_ok j"
  shows "mapE (\<lambda>m'. get_bit m' buffer j) (set_bit m buffer i)
       = Inr (if j = i then Inr 1 else get_bit m buffer j) \<and>
    mapE (\<lambda>m'. get_bit m' buffer j) (reset_bit m buffer i)
       = Inr (if j = i then Inr 0 else get_bit m buffer j) \<and>
    mapE (\<lambda>m'. get_bit m' buffer j) (flip_bit m buffer i)
       = Inr (if j = i then mapE (\<lambda>b. 1 - b) (get_bit m buffer i) else get_bit m buffer j)"
proof -
  obtain m1 m2 m3 where m: "set_bit m buffer i = Inr m1" "reset_bit m buffer i = Inr m2"
      "flip_bit m buffer i = Inr m3"
    using bitmap.set_view bitmap.reset_view bitmap.flip_view assms(1) by metis
  show ?thesis
    using bitmap.get_after_set [OF assms m(1)] bitmap.get_after_reset [OF assms m(2)]
      bitmap.get_after_flip [OF assms m(3)] bitmap.get_view [OF assms(1), of m buffer]
    by (simp add: m)
qed

theorem bitmap_read_back_witness:
  "mapE (\<lambda>m'. get_bit m' 100 9) (flip_bit (\<lambda>_. 0) 100 9) = Inr (Inr 1)"
proof -
  have h: "bit_index_ok 9" by (simp add: bit_index_ok_def INT_MAX_def)
  show ?thesis using bitmap_read_back [OF h h, where m = "\<lambda>_. 0" and buffer = 100]
    by (simp add: get_bit_ok [OF h] bit_view_def)
qed

end
