(* ===== verification/Memory_Map.thy ===== *)
theory Memory_Map imports Prelude "HOL-Library.Multiset" begin

text \<open>
  \<open>mm/memory_map.c\<close>: the table of usable physical memory. \<open>mem_map_add_area\<close> collects areas and merges
  those that overlap or touch; \<open>mem_map_sanitize\<close> sorts the table, shrinks each area to whole pages and
  records the end of physical memory. The lemmas show that the table stays a set of separated areas,
  that it covers exactly the addresses that were added, and what the frame allocator gets after
  \<open>mem_map_sanitize\<close>.
\<close>

section \<open>State and operations\<close>

definition MAP_MAX :: nat where "MAP_MAX = 32"

record area =
  area_begin :: u64
  area_end :: u64

record memory_map =
  mm_count :: nat
  mm_area :: "area list"
  mm_physical_end :: u64

text \<open>The static \<open>mem_map\<close> is zero when the kernel starts.\<close>

definition mem_map_zero :: memory_map where
  "mem_map_zero = \<lparr>mm_count = 0, mm_area = replicate MAP_MAX \<lparr>area_begin = 0, area_end = 0\<rparr>, mm_physical_end = 0\<rparr>"

subsection \<open>mem_map_add_area\<close>

text \<open>The loop's test: the intervals overlap or border.\<close>

definition touches :: "u64 \<Rightarrow> u64 \<Rightarrow> area \<Rightarrow> bool" where
  "touches begin1 end1 a \<longleftrightarrow> begin1 \<le> area_end a \<and> area_begin a \<le> end1"

definition first_touching :: "u64 \<Rightarrow> u64 \<Rightarrow> memory_map \<Rightarrow> nat option" where
  "first_touching begin1 end1 m = find (\<lambda>i. touches begin1 end1 (mm_area m ! i)) [0..<mm_count m]"

text \<open>Removing entry \<open>i\<close> moves the last entry, if any, into its place.\<close>

definition remove_area :: "nat \<Rightarrow> memory_map \<Rightarrow> memory_map" where
  "remove_area i m =
     (let m = m\<lparr>mm_count := mm_count m - 1\<rparr> in
      if mm_count m \<noteq> 0 then m\<lparr>mm_area := (mm_area m)[i := mm_area m ! mm_count m]\<rparr> else m)"

lemma first_touching_Some:
  "first_touching b e m = Some i \<Longrightarrow> i < mm_count m \<and> touches b e (mm_area m ! i)"
  by (auto simp: first_touching_def find_Some_iff)

lemma first_touching_None:
  "first_touching b e m = None \<longleftrightarrow> (\<forall>i < mm_count m. \<not> touches b e (mm_area m ! i))"
  by (auto simp: first_touching_def find_None_iff)

lemma remove_area_count [simp]: "mm_count (remove_area i m) = mm_count m - 1"
  by (simp add: remove_area_def Let_def)

text \<open>The search, the merge and the jump back; without an overlap the area is appended.\<close>

function add_area_loop :: "u64 \<Rightarrow> u64 \<Rightarrow> memory_map \<Rightarrow> memory_map res" where
  "add_area_loop begin1 end1 m =
     (case first_touching begin1 end1 m of
        Some i \<Rightarrow>
          (let a = mm_area m ! i;
               begin2 = (if begin1 < area_begin a then begin1 else area_begin a);
               end2 = (if end1 > area_end a then end1 else area_end a)
           in add_area_loop begin2 end2 (remove_area i m))
      | None \<Rightarrow>
          if mm_count m < MAP_MAX
          then Inr (m\<lparr>mm_area := (mm_area m)[mm_count m := \<lparr>area_begin = begin1, area_end = end1\<rparr>],
                      mm_count := mm_count m + 1\<rparr>)
          else Inl Out_Of_Bounds)"
  by pat_completeness auto
termination
  by (relation "measure (\<lambda>(b, e, m). mm_count m)") (auto dest: first_touching_Some)

declare add_area_loop.simps [simp del]

definition mem_map_add_area :: "u64 \<Rightarrow> u64 \<Rightarrow> memory_map \<Rightarrow> memory_map res" where
  "mem_map_add_area begin1 end1 m =
     bindE (assertE (begin1 < end1)) (\<lambda>_.
       if mm_count m = MAP_MAX then Inr m else add_area_loop begin1 end1 m)"

subsection \<open>mem_map_sanitize\<close>

definition select_min :: "area list \<Rightarrow> nat \<Rightarrow> nat \<Rightarrow> nat" where
  "select_min as i n =
     foldl (\<lambda>mi j. if area_begin (as ! j) < area_begin (as ! mi) then j else mi) i [i + 1..<n]"

definition sort_step :: "nat \<Rightarrow> area list \<Rightarrow> nat \<Rightarrow> area list" where
  "sort_step n as i = (let mi = select_min as i n; tmp = as ! mi in as[mi := as ! i, i := tmp])"

definition sort_areas :: "nat \<Rightarrow> area list \<Rightarrow> area list" where
  "sort_areas n as = foldl (sort_step n) as [0..<n]"

text \<open>Shrinking one area to 4 KiB boundaries; the additions wrap modulo \<open>2 ^ 64\<close>.\<close>

definition align_area :: "area \<Rightarrow> area" where
  "align_area a =
     (let a = (if area_begin a mod 4096 \<noteq> 0
               then a\<lparr>area_begin := area_begin a + (4096 - area_begin a mod 4096)\<rparr> else a)
      in if area_end a mod 4096 \<noteq> 0
         then a\<lparr>area_end := area_end a - area_end a mod 4096\<rparr> else a)"

fun align_areas :: "nat list \<Rightarrow> area list \<Rightarrow> area list res" where
  "align_areas [] as = Inr as"
| "align_areas (i # is) as =
     (let a = align_area (as ! i) in
      bindE (assertE (area_begin a < area_end a)) (\<lambda>_. align_areas is (as[i := a])))"

definition mem_map_sanitize :: "memory_map \<Rightarrow> memory_map res" where
  "mem_map_sanitize m =
     bindE (align_areas [0..<mm_count m] (sort_areas (mm_count m) (mm_area m))) (\<lambda>as.
       if mm_count m = 0 then Inl Out_Of_Bounds
       else Inr (m\<lparr>mm_area := as, mm_physical_end := area_end (as ! (mm_count m - 1))\<rparr>))"

section \<open>The invariant of the table\<close>

text \<open>The entries in use, and the addresses they cover.\<close>

definition areas :: "memory_map \<Rightarrow> area list" where
  "areas m = take (mm_count m) (mm_area m)"

definition area_set :: "area \<Rightarrow> u64 set" where
  "area_set a = {area_begin a..<area_end a}"

definition covered :: "memory_map \<Rightarrow> u64 set" where
  "covered m = (\<Union>a \<in> set (areas m). area_set a)"

text \<open>Two areas neither overlap nor touch.\<close>

definition apart :: "area \<Rightarrow> area \<Rightarrow> bool" where
  "apart a b \<longleftrightarrow> area_end a < area_begin b \<or> area_end b < area_begin a"

definition mem_map_ok :: "memory_map \<Rightarrow> bool" where
  "mem_map_ok m \<longleftrightarrow> mm_count m \<le> MAP_MAX \<and> length (mm_area m) = MAP_MAX \<and>
     (\<forall>i < mm_count m. area_begin (mm_area m ! i) < area_end (mm_area m ! i)) \<and>
     (\<forall>i < mm_count m. \<forall>j < mm_count m. i \<noteq> j \<longrightarrow> apart (mm_area m ! i) (mm_area m ! j))"

lemma mem_map_ok_zero: "mem_map_ok mem_map_zero"
  by (simp add: mem_map_ok_def mem_map_zero_def)

lemma not_touches: "b \<le> e \<Longrightarrow> \<not> touches b e a \<longleftrightarrow> apart \<lparr>area_begin = b, area_end = e\<rparr> a"
  by (auto simp: touches_def apart_def)

text \<open>
  After \<open>remove_area i\<close> entry \<open>j\<close> is the old entry \<open>moved_from i j\<close>.
\<close>

lemma remove_area_nth:
  assumes "mem_map_ok m" and "i < mm_count m" and "j < mm_count m - 1"
  shows "mm_area (remove_area i m) ! j = mm_area m ! (if j = i then mm_count m - 1 else j)"
proof -
  have "mm_count m \<le> length (mm_area m)" using assms(1) by (simp add: mem_map_ok_def)
  then show ?thesis using assms(2,3) by (auto simp: remove_area_def Let_def nth_list_update)
qed

lemma length_remove_area [simp]: "length (mm_area (remove_area i m)) = length (mm_area m)"
  by (simp add: remove_area_def Let_def)

lemma remove_area_ok:
  assumes "mem_map_ok m" and "i < mm_count m"
  shows "mem_map_ok (remove_area i m)"
  unfolding mem_map_ok_def
proof (intro conjI allI impI)
  let ?f = "\<lambda>j. if j = i then mm_count m - 1 else j"
  show "mm_count (remove_area i m) \<le> MAP_MAX" "length (mm_area (remove_area i m)) = MAP_MAX"
    using assms(1) by (auto simp: mem_map_ok_def)
  fix j assume j: "j < mm_count (remove_area i m)"
  then show "area_begin (mm_area (remove_area i m) ! j) < area_end (mm_area (remove_area i m) ! j)"
    using assms by (auto simp: remove_area_nth mem_map_ok_def)
  fix k assume k: "k < mm_count (remove_area i m)" and "j \<noteq> k"
  then have "?f j \<noteq> ?f k" "?f j < mm_count m" "?f k < mm_count m" using j by auto
  then have "apart (mm_area m ! ?f j) (mm_area m ! ?f k)"
    using assms(1) unfolding mem_map_ok_def by blast
  then show "apart (mm_area (remove_area i m) ! j) (mm_area (remove_area i m) ! k)"
    using j k by (simp only: remove_area_nth [OF assms] remove_area_count)
qed

lemma set_areas: "mem_map_ok m \<Longrightarrow> set (areas m) = (\<lambda>j. mm_area m ! j) ` {..<mm_count m}"
  unfolding areas_def by (rule set_take_nth) (simp add: mem_map_ok_def)

lemma set_areas_remove:
  assumes "mem_map_ok m" and "i < mm_count m"
  shows "set (areas m) = insert (mm_area m ! i) (set (areas (remove_area i m)))"
proof -
  let ?n = "mm_count m" and ?f = "\<lambda>j. if j = i then mm_count m - 1 else j"
  have f: "?f ` {..<?n - 1} = {..<?n} - {i}"
  proof (intro set_eqI iffI)
    fix k assume "k \<in> {..<?n} - {i}"
    then have "k = ?f (if k = ?n - 1 then i else k)" "(if k = ?n - 1 then i else k) \<in> {..<?n - 1}"
      using assms(2) by auto
    then show "k \<in> ?f ` {..<?n - 1}" by blast
  qed (use assms(2) in auto)
  have "set (areas (remove_area i m)) = (\<lambda>j. mm_area m ! ?f j) ` {..<?n - 1}"
    using remove_area_nth [OF assms] unfolding set_areas [OF remove_area_ok [OF assms]]
    by (intro image_cong) simp_all
  also have "\<dots> = (\<lambda>j. mm_area m ! j) ` ({..<?n} - {i})"
    unfolding f [symmetric] by (simp only: image_image)
  finally have "set (areas (remove_area i m)) = (\<lambda>j. mm_area m ! j) ` ({..<?n} - {i})" .
  then show ?thesis using assms(2) by (auto simp: set_areas assms(1))
qed

text \<open>Merging two intervals that touch covers exactly the addresses of both.\<close>

lemma merge_covers:
  assumes "touches b e a" "b < e" "area_begin a < area_end a"
  shows "{(if b < area_begin a then b else area_begin a)..<(if e > area_end a then e else area_end a)}
      = {b..<e} \<union> area_set a"
  using assms by (auto simp: touches_def area_set_def)

lemma add_area_loop_correct:
  assumes "mem_map_ok m" "b < e" "mm_count m < MAP_MAX"
  shows "\<exists>m'. add_area_loop b e m = Inr m' \<and> mem_map_ok m' \<and> covered m' = covered m \<union> {b..<e}
    \<and> mm_physical_end m' = mm_physical_end m"
  using assms
proof (induction b e m rule: add_area_loop.induct)
  case (1 b e m)
  show ?case
  proof (cases "first_touching b e m")
    case None
    let ?a = "\<lparr>area_begin = b, area_end = e\<rparr>"
    let ?m = "m\<lparr>mm_area := (mm_area m)[mm_count m := ?a], mm_count := mm_count m + 1\<rparr>"
    have sep: "\<forall>i < mm_count m. apart ?a (mm_area m ! i)"
      using None "1.prems"(2) by (auto simp: first_touching_None not_touches [of b e, symmetric])
    have len: "mm_count m < length (mm_area m)" using "1.prems" by (simp add: mem_map_ok_def)
    have ok: "mem_map_ok ?m"
      using "1.prems" sep len unfolding mem_map_ok_def
      by (auto simp: nth_list_update less_Suc_eq apart_def)
    have "areas ?m = areas m @ [?a]"
      using len by (simp add: areas_def take_Suc_conv_app_nth)
    then have "covered ?m = covered m \<union> {b..<e}" by (auto simp: covered_def area_set_def)
    then show ?thesis using None ok "1.prems"(3) by (simp add: add_area_loop.simps)
  next
    case (Some i)
    let ?a = "mm_area m ! i" and ?m = "remove_area i m"
    let ?b = "if b < area_begin ?a then b else area_begin ?a"
    let ?e = "if e > area_end ?a then e else area_end ?a"
    have i: "i < mm_count m" "touches b e ?a" using first_touching_Some [OF Some] by auto
    have a: "area_begin ?a < area_end ?a" using i(1) "1.prems"(1) by (simp add: mem_map_ok_def)
    have "\<exists>m'. add_area_loop ?b ?e ?m = Inr m' \<and> mem_map_ok m' \<and> covered m' = covered ?m \<union> {?b..<?e}
        \<and> mm_physical_end m' = mm_physical_end ?m"
      using "1.prems" i a by (intro "1.IH" [OF Some refl refl refl] remove_area_ok) auto
    moreover have "covered ?m \<union> {?b..<?e} = covered m \<union> {b..<e}"
      using merge_covers [OF i(2) "1.prems"(2) a] set_areas_remove [OF "1.prems"(1) i(1)]
      by (auto simp: covered_def)
    moreover have "mm_physical_end ?m = mm_physical_end m" by (simp add: remove_area_def Let_def)
    ultimately show ?thesis using Some by (subst add_area_loop.simps) (simp add: Let_def)
  qed
qed

section \<open>Sorting and aligning\<close>

lemma select_min_least:
  assumes "i < n"
  shows "i \<le> select_min as i n \<and> select_min as i n < n \<and>
    (\<forall>j. i \<le> j \<and> j < n \<longrightarrow> area_begin (as ! select_min as i n) \<le> area_begin (as ! j))"
  using assms
proof (induction n)
  case (Suc n)
  show ?case
  proof (cases "i < n")
    case True
    then have "[i + 1..<Suc n] = [i + 1..<n] @ [n]" by simp
    then have "select_min as i (Suc n) =
        (if area_begin (as ! n) < area_begin (as ! select_min as i n) then n else select_min as i n)"
      by (simp add: select_min_def)
    then show ?thesis
      using Suc.IH [OF True] True by (auto simp: less_Suc_eq dest: order_less_imp_le order_trans)
  next
    case False
    then have "i = n" using Suc.prems by simp
    then show ?thesis by (auto simp: select_min_def less_Suc_eq_le)
  qed
qed simp

lemma length_sort_step [simp]: "length (sort_step n as i) = length as"
  by (simp add: sort_step_def Let_def)

lemma sort_step_nth:
  assumes "i < n" "n \<le> length as" "j < length as"
  shows "sort_step n as i ! j =
    as ! (if j = i then select_min as i n else if j = select_min as i n then i else j)"
  using assms select_min_least [OF assms(1), of as] by (auto simp: sort_step_def Let_def nth_list_update)

lemma mset_sort_step:
  assumes "i < n" "n \<le> length as"
  shows "mset (take n (sort_step n as i)) = mset (take n as)"
proof -
  let ?m = "select_min as i n"
  have m: "?m < n" using select_min_least [OF assms(1)] by blast
  then have "take n (sort_step n as i) = (take n as)[?m := take n as ! i, i := take n as ! ?m]"
    using assms by (simp add: sort_step_def Let_def take_update_swap)
  also have "mset \<dots> = mset (take n as)"
    using m assms by (intro mset_swap) simp_all
  finally show ?thesis .
qed

text \<open>
  What holds after the first \<open>k\<close> rounds: those entries are in order and none is above a later one.
\<close>

definition sorted_prefix :: "nat \<Rightarrow> nat \<Rightarrow> area list \<Rightarrow> bool" where
  "sorted_prefix k n as \<longleftrightarrow> (\<forall>a b. a < k \<and> a < b \<and> b < n \<longrightarrow> area_begin (as ! a) \<le> area_begin (as ! b))"

lemma sort_step_sorted_prefix:
  assumes "sorted_prefix i n as" "i < n" "n \<le> length as"
  shows "sorted_prefix (Suc i) n (sort_step n as i)"
  unfolding sorted_prefix_def
proof (intro allI impI)
  let ?m = "select_min as i n"
  have m: "i \<le> ?m" "?m < n" "\<And>j. i \<le> j \<Longrightarrow> j < n \<Longrightarrow> area_begin (as ! ?m) \<le> area_begin (as ! j)"
    using select_min_least [OF assms(2), of as] by auto
  fix a b assume ab: "a < Suc i \<and> a < b \<and> b < n"
  let ?f = "\<lambda>j. if j = i then ?m else if j = ?m then i else j"
  have nth: "sort_step n as i ! a = as ! ?f a" "sort_step n as i ! b = as ! ?f b"
    using sort_step_nth assms ab by simp_all
  show "area_begin (sort_step n as i ! a) \<le> area_begin (sort_step n as i ! b)"
  proof (cases "a = i")
    case True
    then have "i \<le> ?f b" "?f b < n" using ab m(1,2) assms(2) True by auto
    then show ?thesis unfolding nth using True m(3) by simp
  next
    case False
    then have f: "?f a = a" "a < i" "a < ?f b" "?f b < n" using ab m(1,2) assms(2) by auto
    then have "area_begin (as ! a) \<le> area_begin (as ! ?f b)"
      using assms(1) unfolding sorted_prefix_def by blast
    then show ?thesis unfolding nth f(1) .
  qed
qed

lemma sort_step_ok:
  assumes "mem_map_ok m" "i < mm_count m"
  shows "mem_map_ok (m\<lparr>mm_area := sort_step (mm_count m) (mm_area m) i\<rparr>)"
proof -
  let ?m = "select_min (mm_area m) i (mm_count m)" and ?as = "sort_step (mm_count m) (mm_area m) i"
  let ?f = "\<lambda>j. if j = i then ?m else if j = ?m then i else j"
  have len: "mm_count m \<le> length (mm_area m)" using assms(1) by (simp add: mem_map_ok_def)
  have m: "?m < mm_count m" using select_min_least [OF assms(2)] by blast
  have nth: "?as ! j = mm_area m ! ?f j" if "j < mm_count m" for j
    using that len by (intro sort_step_nth assms(2)) simp_all
  have f: "?f j < mm_count m" if "j < mm_count m" for j using that m assms(2) by simp
  have inj: "?f j \<noteq> ?f k" if "j \<noteq> k" for j k using that by auto
  show ?thesis
    using assms(1) f inj unfolding mem_map_ok_def by (simp add: nth)
qed

lemma sort_rounds:
  assumes "mem_map_ok m" "k \<le> mm_count m"
  defines "as \<equiv> foldl (sort_step (mm_count m)) (mm_area m) [0..<k]"
  shows "mem_map_ok (m\<lparr>mm_area := as\<rparr>) \<and> sorted_prefix k (mm_count m) as \<and>
    mset (take (mm_count m) as) = mset (areas m)"
  using assms(2) unfolding as_def
proof (induction k)
  case 0
  then show ?case using assms(1) by (simp add: sorted_prefix_def areas_def)
next
  case (Suc k)
  let ?as = "foldl (sort_step (mm_count m)) (mm_area m) [0..<k]"
  have IH: "mem_map_ok (m\<lparr>mm_area := ?as\<rparr>)" "sorted_prefix k (mm_count m) ?as"
      "mset (take (mm_count m) ?as) = mset (areas m)"
    using Suc by simp_all
  have len: "mm_count m \<le> length ?as" using IH(1) by (simp add: mem_map_ok_def)
  show ?case
    using sort_step_ok [OF IH(1), of k] sort_step_sorted_prefix [OF IH(2) _ len]
      mset_sort_step [OF _ len, of k] IH(3) Suc.prems by simp
qed

lemma sort_areas_correct:
  assumes "mem_map_ok m"
  defines "as \<equiv> sort_areas (mm_count m) (mm_area m)"
  shows "mem_map_ok (m\<lparr>mm_area := as\<rparr>)"
    and "sorted_prefix (mm_count m) (mm_count m) as"
    and "mset (take (mm_count m) as) = mset (areas m)"
  using sort_rounds [OF assms(1) order_refl] unfolding as_def sort_areas_def by blast+

text \<open>The whole 4 KiB page frames inside an area, by physical address.\<close>

definition area_pages :: "area \<Rightarrow> nat set" where
  "area_pages a = {p. 4096 dvd p \<and> unat (area_begin a) \<le> p \<and> p + 4096 \<le> unat (area_end a)}"

definition usable_pages :: "memory_map \<Rightarrow> nat set" where
  "usable_pages m = (\<Union>a \<in> set (areas m). area_pages a)"

text \<open>Physical addresses have at most 52 bits on amd64, so the additions of the alignment do not wrap.\<close>

definition phys_bounded :: "memory_map \<Rightarrow> bool" where
  "phys_bounded m \<longleftrightarrow> (\<forall>a \<in> set (areas m). unat (area_end a) \<le> 2 ^ 52)"

lemma align_down_nat: "e - e mod 4096 = e div 4096 * 4096" for e :: nat
  by (simp add: minus_mod_eq_div_mult)

lemma align_up_nat:
  "(if b mod 4096 \<noteq> 0 then b + (4096 - b mod 4096) else b) = (b + 4095) div 4096 * 4096" for b :: nat
proof -
  obtain q r where b: "b = 4096 * q + r" and r: "r < 4096"
    by (metis mult_div_mod_eq pos_mod_bound mod_less_divisor zero_less_numeral)
  have "(r + 4095) div 4096 = (if r = 0 then 0 else 1)"
    using r by (auto intro!: div_nat_eqI)
  then have "(b + 4095) div 4096 = q + (if r = 0 then 0 else 1)" by (simp add: b add.assoc)
  moreover have "b mod 4096 = r" using r by (simp add: b)
  ultimately show ?thesis using r by (simp add: b)
qed

lemma round_up_le: "4096 dvd p \<Longrightarrow> (b + 4095) div 4096 * 4096 \<le> p \<longleftrightarrow> b \<le> p" for p b :: nat
proof -
  assume "4096 dvd p"
  then obtain k where p: "p = k * 4096" by (metis dvdE mult.commute)
  have "(b + 4095) div 4096 < Suc k \<longleftrightarrow> b + 4095 < Suc k * 4096" by (rule div_less_iff_less_mult) simp
  then show ?thesis unfolding p by (simp add: less_Suc_eq_le)
qed

lemma round_down_ge: "4096 dvd p \<Longrightarrow> p + 4096 \<le> e div 4096 * 4096 \<longleftrightarrow> p + 4096 \<le> e" for p e :: nat
proof -
  assume "4096 dvd p"
  then obtain k where "p = k * 4096" by (metis dvdE mult.commute)
  then have p: "p + 4096 = Suc k * 4096" by simp
  have "Suc k \<le> e div 4096 \<longleftrightarrow> Suc k * 4096 \<le> e" by (rule less_eq_div_iff_mult_less_eq) simp
  then show ?thesis unfolding p by (simp only: mult_le_cancel2) simp
qed

lemma align_area_begin:
  assumes "unat (area_begin a) \<le> 2 ^ 52"
  shows "unat (area_begin (align_area a)) = (unat (area_begin a) + 4095) div 4096 * 4096"
proof -
  let ?b = "area_begin a"
  have m: "unat (?b mod 4096) = unat ?b mod 4096" by (simp add: unat_mod)
  then have z: "?b mod 4096 = 0 \<longleftrightarrow> unat ?b mod 4096 = 0" by (metis unat_eq_zero)
  have le: "?b mod 4096 \<le> 4096" using m by (simp add: word_le_nat_alt)
  have "unat (4096 - ?b mod 4096) = 4096 - unat ?b mod 4096" using unat_sub_u64 [OF le] m by simp
  then have "unat (?b + (4096 - ?b mod 4096)) = unat ?b + (4096 - unat ?b mod 4096)"
    using assms by (subst unat_add_u64) simp_all
  then have "unat (area_begin (align_area a))
      = (if unat ?b mod 4096 \<noteq> 0 then unat ?b + (4096 - unat ?b mod 4096) else unat ?b)"
    by (simp add: align_area_def Let_def z)
  then show ?thesis by (simp only: align_up_nat)
qed

lemma align_area_end: "unat (area_end (align_area a)) = unat (area_end a) div 4096 * 4096"
proof -
  let ?e = "area_end a"
  have m: "unat (?e mod 4096) = unat ?e mod 4096" by (simp add: unat_mod)
  then have z: "?e mod 4096 = 0 \<longleftrightarrow> unat ?e mod 4096 = 0" by (metis unat_eq_zero)
  have "?e mod 4096 \<le> ?e" using m by (simp add: word_le_nat_alt)
  then have "unat (?e - ?e mod 4096) = unat ?e - unat ?e mod 4096" using unat_sub_u64 m by simp
  then have "unat (area_end (align_area a)) = unat ?e - unat ?e mod 4096"
    by (simp add: align_area_def Let_def z)
  then show ?thesis by (simp only: align_down_nat)
qed

lemma align_area_pages:
  assumes "unat (area_begin a) \<le> 2 ^ 52"
  shows "area_pages (align_area a) = area_pages a"
    and "area_begin (align_area a) < area_end (align_area a) \<longleftrightarrow> area_pages a \<noteq> {}"
proof -
  let ?b = "unat (area_begin a)" and ?e = "unat (area_end a)"
  let ?b' = "(?b + 4095) div 4096 * 4096" and ?e' = "?e div 4096 * 4096"
  note up = round_up_le [of _ ?b] and down = round_down_ge [of _ ?e]
  show "area_pages (align_area a) = area_pages a"
    using up down by (auto simp: area_pages_def align_area_begin [OF assms] align_area_end)
  have "area_begin (align_area a) < area_end (align_area a) \<longleftrightarrow> ?b' < ?e'"
    by (simp add: word_less_nat_alt align_area_begin [OF assms] align_area_end)
  also have "\<dots> \<longleftrightarrow> area_pages a \<noteq> {}"
  proof
    assume "?b' < ?e'"
    then have "?b' + 4096 \<le> ?e'" by simp
    then have "?b' \<in> area_pages a" using up [of ?b'] down [of ?b'] by (simp add: area_pages_def)
    then show "area_pages a \<noteq> {}" by blast
  next
    assume "area_pages a \<noteq> {}"
    then obtain p where "4096 dvd p" "?b \<le> p" "p + 4096 \<le> ?e" by (auto simp: area_pages_def)
    then show "?b' < ?e'" using up [of p] down [of p] by linarith
  qed
  finally show "area_begin (align_area a) < area_end (align_area a) \<longleftrightarrow> area_pages a \<noteq> {}" .
qed

lemma align_areas_result:
  assumes "distinct is" "\<forall>i \<in> set is. i < length as"
  shows "align_areas is as =
    (if \<forall>i \<in> set is. area_begin (align_area (as ! i)) < area_end (align_area (as ! i))
     then Inr (map (\<lambda>j. if j \<in> set is then align_area (as ! j) else as ! j) [0..<length as])
     else Inl Assert_Failed)"
  using assms
proof (induction "is" arbitrary: as)
  case Nil
  then show ?case by (simp add: map_nth)
next
  case (Cons i "is")
  let ?a = "align_area (as ! i)"
  have other: "as[i := ?a] ! j = as ! j" if "j \<in> set is" for j
  proof -
    have "i \<noteq> j" using that Cons.prems(1) by auto
    then show ?thesis by simp
  qed
  have "map (\<lambda>j. if j \<in> set is then align_area (as[i := ?a] ! j) else as[i := ?a] ! j) [0..<length as]
      = map (\<lambda>j. if j \<in> set (i # is) then align_area (as ! j) else as ! j) [0..<length as]"
    using Cons.prems by (intro map_cong refl) (auto simp: nth_list_update)
  then show ?case
    using Cons.prems Cons.IH [of "as[i := ?a]"] other by (simp add: Let_def assertE_def)
qed

text \<open>
  What \<open>mem_map_sanitize\<close> leaves for the frame allocator: page-aligned, non-empty areas in ascending
  order that do not overlap, and the end of the last one as the end of physical memory.
\<close>

definition mem_map_clean :: "memory_map \<Rightarrow> bool" where
  "mem_map_clean m \<longleftrightarrow> 0 < mm_count m \<and> mm_count m \<le> length (mm_area m) \<and>
     (\<forall>i < mm_count m. area_begin (mm_area m ! i) < area_end (mm_area m ! i) \<and>
        4096 dvd unat (area_begin (mm_area m ! i)) \<and> 4096 dvd unat (area_end (mm_area m ! i))) \<and>
     (\<forall>i j. i < j \<and> j < mm_count m \<longrightarrow> area_end (mm_area m ! i) \<le> area_begin (mm_area m ! j)) \<and>
     mm_physical_end m = area_end (mm_area m ! (mm_count m - 1))"

lemma sorted_apart:
  assumes ok: "mem_map_ok m" and sorted: "sorted_prefix (mm_count m) (mm_count m) (mm_area m)"
    and ij: "i < j" "j < mm_count m"
  shows "area_end (mm_area m ! i) < area_begin (mm_area m ! j)"
proof -
  let ?a = "mm_area m ! i" and ?b = "mm_area m ! j"
  have "area_begin ?a \<le> area_begin ?b"
    using sorted ij unfolding sorted_prefix_def by (meson less_trans)
  moreover have "apart ?a ?b" "area_begin ?b < area_end ?b"
    using ok ij unfolding mem_map_ok_def by (auto simp: less_trans)
  ultimately show ?thesis unfolding apart_def by (auto dest: less_trans less_le_trans)
qed

lemma sanitize_ok_aux:
  assumes ok: "mem_map_ok m" and bounded: "phys_bounded m" and pos: "0 < mm_count m"
  defines "as \<equiv> sort_areas (mm_count m) (mm_area m)"
  defines "bs \<equiv> map (\<lambda>j. if j < mm_count m then align_area (as ! j) else as ! j) [0..<length as]"
  shows "mem_map_sanitize m =
      (if \<forall>a \<in> set (areas m). area_pages a \<noteq> {}
       then Inr (m\<lparr>mm_area := bs, mm_physical_end := area_end (bs ! (mm_count m - 1))\<rparr>) else Inl Assert_Failed)"
    and "\<forall>j < mm_count m. as ! j \<in> set (areas m) \<and> bs ! j = align_area (as ! j)"
    and "set (areas m) = (\<lambda>j. as ! j) ` {..<mm_count m}"
    and "length bs = MAP_MAX"
proof -
  note sort = sort_areas_correct [OF ok, folded as_def]
  have len: "length as = MAP_MAX" "mm_count m \<le> MAP_MAX" using sort(1) by (simp_all add: mem_map_ok_def)
  have "set (areas m) = set (take (mm_count m) as)" using sort(3) by (metis set_mset_mset)
  then show set: "set (areas m) = (\<lambda>j. as ! j) ` {..<mm_count m}"
    using len by (simp add: set_take_nth)
  show "\<forall>j < mm_count m. as ! j \<in> set (areas m) \<and> bs ! j = align_area (as ! j)"
    using len by (simp add: set bs_def)
  show "length bs = MAP_MAX" using len by (simp add: bs_def)
  have small: "unat (area_begin a) \<le> 2 ^ 52" if "a \<in> set (areas m)" for a
  proof -
    have "a \<in> (\<lambda>j. mm_area m ! j) ` {..<mm_count m}" using that set_areas [OF ok] by simp
    then obtain j where "j < mm_count m" "a = mm_area m ! j" by blast
    then have "area_begin a < area_end a" using ok by (simp add: mem_map_ok_def)
    then show ?thesis using that bounded by (fastforce simp: phys_bounded_def word_less_nat_alt)
  qed
  have "align_areas [0..<mm_count m] as
      = (if \<forall>i < mm_count m. area_begin (align_area (as ! i)) < area_end (align_area (as ! i))
         then Inr bs else Inl Assert_Failed)"
    using len by (subst align_areas_result) (auto simp: bs_def)
  moreover have "(\<forall>i < mm_count m. area_begin (align_area (as ! i)) < area_end (align_area (as ! i)))
      \<longleftrightarrow> (\<forall>a \<in> set (areas m). area_pages a \<noteq> {})"
    using small by (auto simp: set align_area_pages(2))
  ultimately show "mem_map_sanitize m =
      (if \<forall>a \<in> set (areas m). area_pages a \<noteq> {}
       then Inr (m\<lparr>mm_area := bs, mm_physical_end := area_end (bs ! (mm_count m - 1))\<rparr>) else Inl Assert_Failed)"
    using pos by (simp add: mem_map_sanitize_def as_def)
qed

text \<open>
  Property C22: adding an area to a well-formed table. An empty or inverted area stops the kernel at the
  assertion; a full table ignores the area; otherwise the table stays well formed (no two areas overlap
  or touch) and covers exactly the old addresses and the new ones, however many areas had to be merged.
\<close>

theorem mem_map_add_area_correct:
  assumes "mem_map_ok m"
  shows "if b < e
    then \<exists>m'. mem_map_add_area b e m = Inr m' \<and> mem_map_ok m' \<and>
        covered m' = (if mm_count m = MAP_MAX then covered m else covered m \<union> {b..<e})
    else mem_map_add_area b e m = Inl Assert_Failed"
proof (cases "b < e \<and> mm_count m \<noteq> MAP_MAX")
  case True
  moreover have "mm_count m < MAP_MAX" using True assms by (simp add: mem_map_ok_def)
  ultimately show ?thesis
    using add_area_loop_correct [OF assms, of b e] by (auto simp: mem_map_add_area_def)
qed (use assms in \<open>auto simp: mem_map_add_area_def\<close>)

theorem mem_map_add_area_correct_witness:
  "mem_map_add_area 5 5 mem_map_zero = Inl Assert_Failed \<and>
   (\<exists>m'. mem_map_add_area 4096 8192 mem_map_zero = Inr m' \<and> 5000 \<in> covered m')"
  using mem_map_add_area_correct [OF mem_map_ok_zero, of 5 5]
    mem_map_add_area_correct [OF mem_map_ok_zero, of 4096 8192]
  by (auto simp: mem_map_zero_def MAP_MAX_def)

text \<open>
  Property C21: \<open>mem_map_sanitize\<close> on a well-formed, non-empty table of 52-bit physical addresses. If every
  area holds at least one whole page it succeeds and the result is sorted, page-aligned, without overlaps
  and has exactly the whole pages of the original table; otherwise the assertion fails.
\<close>

theorem mem_map_sanitize_correct:
  assumes "mem_map_ok m" and "phys_bounded m" and "0 < mm_count m"
  shows "if \<forall>a \<in> set (areas m). area_pages a \<noteq> {}
    then \<exists>m'. mem_map_sanitize m = Inr m' \<and> mem_map_clean m' \<and> usable_pages m' = usable_pages m
    else mem_map_sanitize m = Inl Assert_Failed"
proof (cases "\<forall>a \<in> set (areas m). area_pages a \<noteq> {}")
  case False
  then show ?thesis using sanitize_ok_aux(1) [OF assms] by auto
next
  case True
  let ?n = "mm_count m" and ?as = "sort_areas (mm_count m) (mm_area m)"
  define bs where "bs = map (\<lambda>j. if j < ?n then align_area (?as ! j) else ?as ! j) [0..<length ?as]"
  note aux = sanitize_ok_aux [OF assms, folded bs_def]
  let ?m' = "m\<lparr>mm_area := bs, mm_physical_end := area_end (bs ! (?n - 1))\<rparr>"
  have len: "?n \<le> length bs" using aux(4) assms(1) by (simp add: mem_map_ok_def)
  have ok: "mem_map_ok (m\<lparr>mm_area := ?as\<rparr>)" and sorted: "sorted_prefix ?n ?n ?as"
    using sort_areas_correct [OF assms(1)] by auto
  have small: "unat (area_begin (?as ! j)) \<le> 2 ^ 52" "unat (area_end (?as ! j)) \<le> 2 ^ 52" if "j < ?n" for j
  proof -
    show e: "unat (area_end (?as ! j)) \<le> 2 ^ 52" using aux(2) that assms(2) by (auto simp: phys_bounded_def)
    have "area_begin (?as ! j) < area_end (?as ! j)" using ok that by (simp add: mem_map_ok_def)
    then show "unat (area_begin (?as ! j)) \<le> 2 ^ 52" using e by (simp add: word_less_nat_alt)
  qed
  have clean: "area_begin (bs ! j) < area_end (bs ! j)" "4096 dvd unat (area_begin (bs ! j))"
      "4096 dvd unat (area_end (bs ! j))" "area_pages (bs ! j) = area_pages (?as ! j)" if "j < ?n" for j
    using aux(2) that True align_area_pages [OF small(1) [OF that]] align_area_begin [OF small(1) [OF that]]
      align_area_end [of "?as ! j"] by auto
  have sep: "area_end (bs ! i) \<le> area_begin (bs ! j)" if "i < j" "j < ?n" for i j
  proof -
    have "area_end (?as ! i) < area_begin (?as ! j)"
      using sorted_apart [OF ok, of i j] sorted that by simp
    then have "unat (area_end (?as ! i)) \<le> unat (area_begin (?as ! j))" by (simp add: word_less_nat_alt)
    then have "unat (area_end (?as ! i)) div 4096 * 4096 \<le> (unat (area_begin (?as ! j)) + 4095) div 4096 * 4096"
      by (intro mult_le_mono1 div_le_mono) simp
    then show ?thesis
      using aux(2) that align_area_begin [OF small(1) [OF that(2)]] align_area_end [of "?as ! i"]
      by (simp add: word_le_nat_alt)
  qed
  have "mem_map_clean ?m'"
    unfolding mem_map_clean_def using assms(3) len clean sep by simp
  moreover have "usable_pages ?m' = usable_pages m"
  proof -
    have "set (areas ?m') = (\<lambda>j. bs ! j) ` {..<?n}"
      using len by (simp add: areas_def set_take_nth)
    then show ?thesis by (simp add: usable_pages_def aux(3) clean(4))
  qed
  ultimately show ?thesis using aux(1) True by auto
qed

text \<open>A table with one area, used as an example.\<close>

definition one_area_map :: "u64 \<Rightarrow> u64 \<Rightarrow> memory_map" where
  "one_area_map b e = mem_map_zero\<lparr>mm_count := 1,
     mm_area := (mm_area mem_map_zero)[0 := \<lparr>area_begin = b, area_end = e\<rparr>]\<rparr>"

lemma areas_one_area_map: "areas (one_area_map b e) = [\<lparr>area_begin = b, area_end = e\<rparr>]"
  by (simp add: areas_def one_area_map_def mem_map_zero_def MAP_MAX_def numeral_eq_Suc)

lemma one_area_map_ok: "b < e \<Longrightarrow> mem_map_ok (one_area_map b e)"
  by (simp add: mem_map_ok_def one_area_map_def mem_map_zero_def MAP_MAX_def)

theorem mem_map_sanitize_correct_witness:
  "mem_map_sanitize (one_area_map 5000 9000) = Inl Assert_Failed \<and>
   (\<exists>m'. mem_map_sanitize (one_area_map 5000 20000) = Inr m' \<and> mem_map_clean m' \<and> 8192 \<in> usable_pages m')"
proof -
  have c: "0 < mm_count (one_area_map b e)" for b e by (simp add: one_area_map_def)
  have p: "phys_bounded (one_area_map 5000 9000)" "phys_bounded (one_area_map 5000 20000)"
    by (simp_all add: phys_bounded_def areas_one_area_map)
  have none: "area_pages \<lparr>area_begin = 5000, area_end = 9000\<rparr> = {}"
    by (auto simp: area_pages_def)
  have some: "8192 \<in> area_pages \<lparr>area_begin = 5000, area_end = 20000\<rparr>"
    by (simp add: area_pages_def)
  show ?thesis
    using mem_map_sanitize_correct [OF one_area_map_ok p(1) c] mem_map_sanitize_correct [OF one_area_map_ok p(2) c]
      none some by (auto simp: areas_one_area_map usable_pages_def split: if_splits)
qed

end
