(* ===== verification/Multiboot.thy ===== *)
theory Multiboot imports Memory Memory_Map begin

text \<open>
  \<open>arch/x64/multiboot.c\<close>: the walk over the boot loader's information structure. The structure is read
  byte by byte from memory at the offsets of the packed structs of \<open>include/multiboot.h\<close>; each memory
  map tag is entered into the table of \<open>mm/memory_map.c\<close>, which is then sanitized. The walk trusts the
  sizes in the structure and need not end, so it is a partial function; the lemmas show that it ends on
  a well-formed list of tags and what the table then covers.
\<close>

section \<open>The packed structs\<close>

definition MB_MEMORY_MAP :: u32 where "MB_MEMORY_MAP = 6"
definition MB_RAM_AVAILABLE :: u32 where "MB_RAM_AVAILABLE = 1"
definition MB_RAM_ACPI :: u32 where "MB_RAM_ACPI = 3"

text \<open>\<open>struct mb_header\<close> and \<open>struct mb_tag\<close>\<close>

definition mb_total_size :: "mem \<Rightarrow> addr \<Rightarrow> u32" where "mb_total_size m mb = load_u32 m mb"
definition mb_tag_type :: "mem \<Rightarrow> addr \<Rightarrow> u32" where "mb_tag_type m t = load_u32 m t"
definition mb_tag_size :: "mem \<Rightarrow> addr \<Rightarrow> u32" where "mb_tag_size m t = load_u32 m (t + 4)"

text \<open>\<open>struct mb_memmap\<close> (16 bytes) and \<open>struct mb_memmap_entry\<close> (24 bytes)\<close>

definition mb_memmap_entry_size :: "mem \<Rightarrow> addr \<Rightarrow> u32" where "mb_memmap_entry_size m t = load_u32 m (t + 8)"
definition entry_base_addr :: "mem \<Rightarrow> addr \<Rightarrow> u64" where "entry_base_addr m e = load_u64 m e"
definition entry_length :: "mem \<Rightarrow> addr \<Rightarrow> u64" where "entry_length m e = load_u64 m (e + 8)"
definition entry_type :: "mem \<Rightarrow> addr \<Rightarrow> u32" where "entry_type m e = load_u32 m (e + 16)"

section \<open>The functions\<close>

fun fill_entries :: "mem \<Rightarrow> nat \<Rightarrow> addr \<Rightarrow> memory_map \<Rightarrow> memory_map res" where
  "fill_entries m 0 entry mm = Inr mm"
| "fill_entries m (Suc n) entry mm =
     bindE (if entry_type m entry = MB_RAM_AVAILABLE \<or> entry_type m entry = MB_RAM_ACPI
            then mem_map_add_area (entry_base_addr m entry) (entry_base_addr m entry + entry_length m entry) mm
            else Inr mm)
       (\<lambda>mm. fill_entries m n (entry + 24) mm)"

text \<open>
  The entry count is computed in \<open>size_t\<close>, where \<open>size - 16\<close> may wrap, and converted to \<open>int\<close>; the
  loop does not run for a negative count. A division by zero traps.
\<close>

definition fill_memory_map :: "mem \<Rightarrow> addr \<Rightarrow> memory_map \<Rightarrow> memory_map res" where
  "fill_memory_map m mb mm =
     (if mb_memmap_entry_size m mb = 0 then Inl Undefined_Behaviour
      else let entries = int_of_u64 ((ucast (mb_tag_size m mb) - 16) div ucast (mb_memmap_entry_size m mb))
           in fill_entries m (nat entries) (mb + 16) mm)"

definition parse_memory_map :: "mem \<Rightarrow> addr \<Rightarrow> memory_map \<Rightarrow> memory_map res" where
  "parse_memory_map m mb mm = bindE (fill_memory_map m mb mm) mem_map_sanitize"

text \<open>The size of a tag, rounded up to a multiple of 8 in 32-bit arithmetic.\<close>

definition padded_size :: "mem \<Rightarrow> addr \<Rightarrow> u32" where
  "padded_size m t = (let tag_size = mb_tag_size m t in
     if tag_size mod 8 \<noteq> 0 then tag_size + (8 - tag_size mod 8) else tag_size)"

definition handle_tag :: "mem \<Rightarrow> addr \<Rightarrow> memory_map \<Rightarrow> memory_map res" where
  "handle_tag m t mm = (if mb_tag_type m t = MB_MEMORY_MAP then parse_memory_map m t mm else Inr mm)"

partial_function (option) parse_tags :: "mem \<Rightarrow> addr \<Rightarrow> u32 \<Rightarrow> memory_map \<Rightarrow> memory_map res option" where
  "parse_tags m mb size1 mm =
     (if size1 > 0
      then case handle_tag m mb mm of
             Inl e \<Rightarrow> Some (Inl e)
           | Inr mm \<Rightarrow> parse_tags m (mb + ucast (padded_size m mb)) (size1 - padded_size m mb) mm
      else Some (Inr mm))"

definition parse_multiboot :: "mem \<Rightarrow> addr \<Rightarrow> memory_map \<Rightarrow> memory_map res option" where
  "parse_multiboot m mb mm = parse_tags m (mb + 8) (mb_total_size m mb - 8) mm"

section \<open>Well-formed information\<close>

text \<open>
  The layout of the information as the standard describes it: tags follow each other, each at the next multiple of 8
  behind the end of the one before, and fill \<open>left\<close> bytes from \<open>mb\<close> on. A tag has a header of 8 bytes, which its size
  includes.
\<close>

definition tag_room :: "mem \<Rightarrow> addr \<Rightarrow> nat" where
  "tag_room m t = 8 * ((unat (load_u32 m (t + 4)) + 7) div 8)"

fun tags_at :: "mem \<Rightarrow> addr \<Rightarrow> nat \<Rightarrow> addr list \<Rightarrow> bool" where
  "tags_at m mb left [] \<longleftrightarrow> left = 0"
| "tags_at m mb left (t # ts) \<longleftrightarrow> t = mb \<and> 8 \<le> unat (load_u32 m (t + 4)) \<and> tag_room m t \<le> left \<and>
     tags_at m (mb + of_nat (tag_room m t)) (left - tag_room m t) ts"

text \<open>The memory maps at the given addresses are entered one after another; the table is sanitized after each.\<close>

fun enter_maps :: "mem \<Rightarrow> addr list \<Rightarrow> memory_map \<Rightarrow> memory_map res" where
  "enter_maps m [] mm = Inr mm"
| "enter_maps m (t # ts) mm =
     (case fill_memory_map m t mm of Inl e \<Rightarrow> Inl e
      | Inr mm1 \<Rightarrow> (case mem_map_sanitize mm1 of Inl e \<Rightarrow> Inl e | Inr mm2 \<Rightarrow> enter_maps m ts mm2))"

lemma padded_size_room:
  assumes "tag_room m t < 2 ^ 32"
  shows "unat (padded_size m t) = tag_room m t"
proof -
  let ?s = "mb_tag_size m t"
  have s: "unat ?s = unat (load_u32 m (t + 4))" by (simp add: mb_tag_size_def)
  have md: "unat (?s mod 8) = unat ?s mod 8" by (simp add: unat_mod)
  have ceil: "8 * ((n + 7) div 8) = (if n mod 8 = 0 then n else n + (8 - n mod 8))" for n :: nat
  proof -
    define q j where "q = n div 8" and "j = n mod 8"
    have n: "n = 8 * q + j" "j < 8" by (simp_all add: q_def j_def)
    have "(n + 7) div 8 = q + (if j = 0 then 0 else 1)" unfolding n(1) using n(2) by (auto simp: div_nat_eqI)
    moreover have "n mod 8 = j" by (simp add: j_def)
    ultimately show ?thesis using n by auto
  qed
  show ?thesis
  proof (cases "unat ?s mod 8 = 0")
    case True
    then have "?s mod 8 = 0" using md by (simp add: word_unat_eq_iff)
    then show ?thesis using True by (simp add: padded_size_def tag_room_def ceil s)
  next
    case False
    have room: "tag_room m t = unat ?s + (8 - unat ?s mod 8)" using False by (simp add: tag_room_def ceil s)
    have "unat (8 - ?s mod 8) = 8 - unat ?s mod 8"
      by (subst unat_sub) (simp_all add: word_le_nat_alt md)
    then have "unat (?s + (8 - ?s mod 8)) = unat ?s + (8 - unat ?s mod 8)"
      using assms unfolding room by (subst unat_plus_simple [THEN iffD1]) (simp_all add: no_olen_add_nat)
    moreover have "?s mod 8 \<noteq> 0" using False md by (metis unat_0)
    ultimately show ?thesis unfolding room padded_size_def Let_def by (simp only: simp_thms if_True)
  qed
qed

lemma parse_tags_wf:
  "tags_at m mb (unat size1) ts \<Longrightarrow>
    parse_tags m mb size1 mm = Some (enter_maps m (filter (\<lambda>t. load_u32 m t = 6) ts) mm)"
proof (induction ts arbitrary: mb size1 mm)
  case Nil
  then have "size1 = 0" by (simp add: word_unat_eq_iff)
  then show ?case by (simp add: parse_tags.simps)
next
  case (Cons t ts)
  let ?p = "padded_size m mb"
  have t: "t = mb" "8 \<le> unat (load_u32 m (mb + 4))" "tag_room m mb \<le> unat size1"
      "tags_at m (mb + of_nat (tag_room m mb)) (unat size1 - tag_room m mb) ts"
    using Cons.prems by auto
  have "unat size1 < 2 ^ 32" using unsigned_less [of size1] by simp
  then have p: "unat ?p = tag_room m mb" using t(3) by (intro padded_size_room) simp
  have pos: "0 < size1" using t(2,3) by (auto simp: word_gt_0 tag_room_def)
  have "?p \<le> size1" using p t(3) by (simp add: word_le_nat_alt)
  then have left: "unat (size1 - ?p) = unat size1 - tag_room m mb" by (simp add: unat_sub p)
  have "(ucast ?p :: u64) = of_nat (unat ?p)" by simp
  then have "tags_at m (mb + ucast ?p) (unat (size1 - ?p)) ts" using t(4) left p by (simp only:)
  note rest = Cons.IH [OF this]
  show ?case using pos t(1)
    by (subst parse_tags.simps) (auto simp: handle_tag_def parse_memory_map_def bindE_def rest mb_tag_type_def MB_MEMORY_MAP_def
      split: sum.split)
qed

text \<open>
  Property C23: the walk over the boot information. When the structure is laid out as the standard asks, with the tags
  \<open>ts\<close> one behind the other on multiples of 8 up to the total size, \<open>parse_multiboot\<close> ends; it has entered
  the memory maps, the tags of type 6, in their order, sanitizing the table after each, and ignored the others.
\<close>

theorem parse_multiboot_terminates:
  assumes "8 \<le> unat (load_u32 m mb)" "tags_at m (mb + 8) (unat (load_u32 m mb) - 8) ts"
  shows "parse_multiboot m mb mm = Some (enter_maps m (filter (\<lambda>t. load_u32 m t = 6) ts) mm)"
proof -
  have "(8 :: u32) \<le> load_u32 m mb" using assms(1) by (simp add: word_le_nat_alt)
  then have "unat (load_u32 m mb - 8) = unat (load_u32 m mb) - 8" by (simp add: unat_sub)
  then show ?thesis using parse_tags_wf [of m "mb + 8" "load_u32 m mb - 8" ts mm] assms(2)
    by (simp add: parse_multiboot_def mb_total_size_def)
qed

text \<open>A tag of size 0 keeps the walk where it is: it never ends.\<close>

lemma parse_tags_stuck:
  assumes "padded_size m mb = 0" "mb_tag_type m mb \<noteq> MB_MEMORY_MAP" "0 < size1"
  shows "parse_tags m mb size1 mm = None"
proof (rule ccontr)
  assume "parse_tags m mb size1 mm \<noteq> None"
  then obtain r where r: "parse_tags m mb size1 mm = Some r" by auto
  have "\<not> (m' = m \<and> mb' = mb \<and> size' = size1)" if "parse_tags m' mb' size' mm' = Some r'" for m' mb' size' mm' r'
    using that
  proof (rule parse_tags.raw_induct [where P = "\<lambda>m' mb' size' mm' r'. \<not> (m' = m \<and> mb' = mb \<and> size' = size1)", rotated])
    fix f m' mb' size' mm' r'
    assume IH: "\<And>m' mb' size' mm' r'. f m' mb' size' mm' = Some r' \<Longrightarrow> \<not> (m' = m \<and> mb' = mb \<and> size' = size1)"
      and eq: "(if size' > 0 then case handle_tag m' mb' mm' of Inl e \<Rightarrow> Some (Inl e)
             | Inr mm \<Rightarrow> f m' (mb' + ucast (padded_size m' mb')) (size' - padded_size m' mb') mm
           else Some (Inr mm')) = Some r'"
    show "\<not> (m' = m \<and> mb' = mb \<and> size' = size1)"
    proof
      assume "m' = m \<and> mb' = mb \<and> size' = size1"
      then have "f m mb size1 mm' = Some r'" using eq assms by (simp add: handle_tag_def)
      then show False using IH by blast
    qed
  qed
  then show False using r by blast
qed

section \<open>What the table covers\<close>

text \<open>The usable entries among \<open>n\<close> entries, as address ranges.\<close>

definition entry_usable :: "mem \<Rightarrow> addr \<Rightarrow> bool" where
  "entry_usable m e \<longleftrightarrow> entry_type m e = MB_RAM_AVAILABLE \<or> entry_type m e = MB_RAM_ACPI"

definition entry_range :: "mem \<Rightarrow> addr \<Rightarrow> u64 set" where
  "entry_range m e = {entry_base_addr m e..<entry_base_addr m e + entry_length m e}"

definition entry_addr :: "addr \<Rightarrow> nat \<Rightarrow> addr" where
  "entry_addr e i = e + 24 * of_nat i"

lemma entry_addr_0 [simp]: "entry_addr e 0 = e"
  by (simp add: entry_addr_def)

lemma entry_addr_Suc: "entry_addr e (Suc i) = entry_addr (e + 24) i"
  by (simp add: entry_addr_def algebra_simps)

lemma add_area_count:
  assumes "mem_map_ok m" "b < e" "mm_count m < MAP_MAX" "mem_map_add_area b e m = Inr m'"
  shows "mm_count m' \<le> Suc (mm_count m)"
proof -
  have "add_area_loop b e m = Inr m' \<Longrightarrow> mm_count m' \<le> Suc (mm_count m)" for b e
  proof (induction b e m rule: add_area_loop.induct)
    case (1 b e m)
    show ?case
    proof (cases "first_touching b e m")
      case None
      then show ?thesis using "1.prems" by (subst (asm) add_area_loop.simps) (auto split: if_splits)
    next
      case (Some i)
      then have "mm_count m' \<le> Suc (mm_count (remove_area i m))"
        using "1.prems" by (intro "1.IH" [OF Some refl refl refl]) (subst (asm) add_area_loop.simps, simp add: Let_def)
      then show ?thesis by simp
    qed
  qed
  then show ?thesis using assms(2-4) by (simp add: mem_map_add_area_def)
qed

lemma fill_entries_covers:
  assumes "mem_map_ok mm" "mm_count mm + n \<le> MAP_MAX"
    and "\<forall>i < n. entry_usable m (entry_addr e i) \<longrightarrow>
      entry_base_addr m (entry_addr e i) < entry_base_addr m (entry_addr e i) + entry_length m (entry_addr e i)"
  shows "\<exists>mm'. fill_entries m n e mm = Inr mm' \<and> mem_map_ok mm' \<and>
    covered mm' = covered mm \<union> (\<Union>i \<in> {i. i < n \<and> entry_usable m (entry_addr e i)}. entry_range m (entry_addr e i))"
  using assms
proof (induction n arbitrary: e mm)
  case 0
  then show ?case by simp
next
  case (Suc n)
  have rest: "\<forall>i < n. entry_usable m (entry_addr (e + 24) i) \<longrightarrow>
      entry_base_addr m (entry_addr (e + 24) i)
        < entry_base_addr m (entry_addr (e + 24) i) + entry_length m (entry_addr (e + 24) i)"
    using Suc.prems(3) by (auto simp flip: entry_addr_Suc)
  let ?I = "\<lambda>n e. {i. i < n \<and> entry_usable m (entry_addr e i)}"
  have "?I (Suc n) e = (if entry_usable m e then {0} else {}) \<union> Suc ` ?I n (e + 24)"
    by (auto simp: less_Suc_eq_0_disj entry_addr_Suc)
  then have union: "(\<Union>i \<in> ?I (Suc n) e. entry_range m (entry_addr e i))
      = (if entry_usable m e then entry_range m e else {}) \<union> (\<Union>i \<in> ?I n (e + 24). entry_range m (entry_addr (e + 24) i))"
    by (simp add: entry_addr_Suc)
  show ?case
  proof (cases "entry_usable m e")
    case False
    then show ?thesis
      using Suc.IH [OF Suc.prems(1) _ rest] Suc.prems(2) unfolding union by (auto simp: entry_usable_def)
  next
    case True
    let ?b = "entry_base_addr m e" and ?e = "entry_base_addr m e + entry_length m e"
    have lt: "?b < ?e" using Suc.prems(3) True by (auto dest: spec [of _ 0])
    have room: "mm_count mm < MAP_MAX" using Suc.prems(2) by simp
    obtain mm1 where mm1: "mem_map_add_area ?b ?e mm = Inr mm1" "mem_map_ok mm1" "covered mm1 = covered mm \<union> {?b..<?e}"
      using add_area_loop_correct [OF Suc.prems(1) lt room] room lt by (auto simp: mem_map_add_area_def)
    have "mm_count mm1 + n \<le> MAP_MAX"
      using add_area_count [OF Suc.prems(1) lt room mm1(1)] Suc.prems(2) by simp
    from Suc.IH [OF mm1(2) this rest] True mm1 show ?thesis
      unfolding union by (auto simp: entry_usable_def entry_range_def Un_assoc)
  qed
qed

text \<open>
  Property C24: a memory map tag with \<open>n\<close> entries of 24 bytes, each usable one non-empty, and room for
  them in the table. All are entered, and the table then covers exactly what it covered before and the
  ranges of the available and ACPI entries.
\<close>

theorem fill_memory_map_covers:
  assumes "mem_map_ok mm" "mm_count mm + n \<le> MAP_MAX"
    and "mb_memmap_entry_size m mb = 24" "unat (mb_tag_size m mb) = 16 + 24 * n"
    and "\<forall>i < n. entry_usable m (entry_addr (mb + 16) i) \<longrightarrow> entry_range m (entry_addr (mb + 16) i) \<noteq> {}"
  shows "\<exists>mm'. fill_memory_map m mb mm = Inr mm' \<and> mem_map_ok mm' \<and>
    covered mm' = covered mm \<union>
      (\<Union>i \<in> {i. i < n \<and> entry_usable m (entry_addr (mb + 16) i)}. entry_range m (entry_addr (mb + 16) i))"
proof -
  have n: "n \<le> 32" using assms(2) by (simp add: MAP_MAX_def)
  let ?s = "ucast (mb_tag_size m mb) :: u64"
  have s: "unat ?s = 16 + 24 * n" using assms(4) n by (simp add: unsigned_ucast_eq take_bit_nat_eq_self)
  then have "unat (?s - 16) = 24 * n" using unat_sub_u64 [of 16 ?s] by (simp add: word_le_nat_alt)
  then have "unat ((?s - 16) div ucast (mb_memmap_entry_size m mb)) = n"
    by (simp add: unat_div assms(3))
  then have "int_of_u64 ((?s - 16) div ucast (mb_memmap_entry_size m mb)) = int n"
    using n by (simp add: int_of_u64_small)
  then have "fill_memory_map m mb mm = fill_entries m n (mb + 16) mm"
    by (simp add: fill_memory_map_def assms(3) Let_def)
  then show ?thesis
    using fill_entries_covers [OF assms(1,2), of m "mb + 16"] assms(5) by (simp add: entry_range_def)
qed

text \<open>One available entry of 2 MiB at 1 MiB.\<close>

definition example_map_tag :: mem where
  "example_map_tag = mem_of [6, 0, 0, 0, 40, 0, 0, 0, 24, 0, 0, 0, 0, 0, 0, 0,
     0, 0, 16, 0, 0, 0, 0, 0, 0, 0, 32, 0, 0, 0, 0, 0, 1, 0, 0, 0, 0, 0, 0, 0]"

lemma example_map_tag_fields:
  "mb_tag_size example_map_tag 0 = 40" "mb_memmap_entry_size example_map_tag 0 = 24"
  "entry_base_addr example_map_tag 16 = 1048576" "entry_length example_map_tag 16 = 2097152"
  "entry_type example_map_tag 16 = 1"
  by (simp_all add: mb_tag_size_def mb_memmap_entry_size_def entry_base_addr_def entry_length_def
      entry_type_def load_u32_def load_u64_def example_map_tag_def mem_of_def)

theorem fill_memory_map_covers_witness:
  "\<exists>mm'. fill_memory_map example_map_tag 0 mem_map_zero = Inr mm' \<and> covered mm' = {1048576..<3145728}"
proof -
  have u: "entry_usable example_map_tag 16"
    by (simp add: entry_usable_def example_map_tag_fields MB_RAM_AVAILABLE_def)
  have r: "entry_range example_map_tag 16 = {1048576..<3145728}"
    by (simp add: entry_range_def example_map_tag_fields)
  have "(1048576 :: u64) \<in> {1048576..<3145728}" by simp
  then have ne: "entry_range example_map_tag 16 \<noteq> {}" unfolding r by blast
  have z: "covered mem_map_zero = {}" by (simp add: covered_def areas_def mem_map_zero_def)
  have i: "{i. i < Suc 0 \<and> entry_usable example_map_tag (entry_addr (0 + 16) i)} = {0}"
    using u by (auto simp: less_Suc_eq)
  show ?thesis
    using fill_memory_map_covers [OF mem_map_ok_zero, where n = 1 and m = example_map_tag and mb = 0] u r ne z i
    by (auto simp: example_map_tag_fields mem_map_zero_def MAP_MAX_def less_Suc_eq)
qed

text \<open>A command line of 4 characters, whose tag is padded, the memory map from above and the end tag.\<close>

definition example_info :: mem where
  "example_info = mem_of ([72, 0, 0, 0, 0, 0, 0, 0, 1, 0, 0, 0, 12, 0, 0, 0, 97, 98, 99, 0, 0, 0, 0, 0] @
     [6, 0, 0, 0, 40, 0, 0, 0, 24, 0, 0, 0, 0, 0, 0, 0,
     0, 0, 16, 0, 0, 0, 0, 0, 0, 0, 32, 0, 0, 0, 0, 0, 1, 0, 0, 0, 0, 0, 0, 0] @ [0, 0, 0, 0, 8, 0, 0, 0])"

lemma example_info_fields:
  "load_u32 example_info 0 = 72" "load_u32 example_info 8 = 1" "load_u32 example_info 12 = 12" "load_u32 example_info 24 = 6"
  "load_u32 example_info 28 = 40" "load_u32 example_info 64 = 0" "load_u32 example_info 68 = 8" "load_u32 example_info 32 = 24"
  "load_u64 example_info 40 = 1048576" "load_u64 example_info 48 = 2097152" "load_u32 example_info 56 = 1"
  by (simp_all add: load_u32_def load_u64_def example_info_def mem_of_def)

theorem parse_multiboot_terminates_witness:
  "\<exists>mm. parse_multiboot example_info 0 mem_map_zero = Some (Inr mm) \<and>
    areas mm = [\<lparr>area_begin = 1048576, area_end = 3145728\<rparr>]"
proof -
  have "tags_at example_info (0 + 8) (unat (load_u32 example_info 0) - 8) [8, 24, 64]"
    by (simp add: example_info_fields tag_room_def)
  then have "parse_multiboot example_info 0 mem_map_zero = Some (enter_maps example_info [24] mem_map_zero)"
    using parse_multiboot_terminates [of example_info 0 "[8, 24, 64]" mem_map_zero]
    by (simp add: example_info_fields del: tags_at.simps enter_maps.simps)
  moreover have "case enter_maps example_info [24] mem_map_zero of Inl e \<Rightarrow> False
      | Inr mm \<Rightarrow> areas mm = [\<lparr>area_begin = 1048576, area_end = 3145728\<rparr>]"
    by code_simp
  ultimately show ?thesis by (auto split: sum.splits)
qed

end
