(* ===== verification/Tty.thy ===== *)
theory Tty imports Prelude begin

text \<open>
  The text terminal, \<open>arch/x64/io/tty.c\<close>: a screen of 25 rows in video memory and a ring of the last 30
  rows in ordinary memory, from which the screen is redrawn when it scrolls. The specification at the end is
  a terminal without a ring: the list of all rows ever written, whose last 25 are shown.
\<close>

section \<open>State\<close>

datatype tty_color = TTY_COLOR_BLACK | TTY_COLOR_BLUE | TTY_COLOR_GREEN | TTY_COLOR_CYAN | TTY_COLOR_RED
  | TTY_COLOR_MAGENTA | TTY_COLOR_BROWN | TTY_COLOR_LIGHT_GREY | TTY_COLOR_DARK_GREY | TTY_COLOR_LIGHT_BLUE
  | TTY_COLOR_LIGHT_GREEN | TTY_COLOR_LIGHT_CYAN | TTY_COLOR_LIGHT_RED | TTY_COLOR_LIGHT_MAGENTA
  | TTY_COLOR_LIGHT_BROWN | TTY_COLOR_WHITE

fun color_value :: "tty_color \<Rightarrow> u32" where
  "color_value TTY_COLOR_BLACK = 0" | "color_value TTY_COLOR_BLUE = 1" | "color_value TTY_COLOR_GREEN = 2"
| "color_value TTY_COLOR_CYAN = 3" | "color_value TTY_COLOR_RED = 4" | "color_value TTY_COLOR_MAGENTA = 5"
| "color_value TTY_COLOR_BROWN = 6" | "color_value TTY_COLOR_LIGHT_GREY = 7" | "color_value TTY_COLOR_DARK_GREY = 8"
| "color_value TTY_COLOR_LIGHT_BLUE = 9" | "color_value TTY_COLOR_LIGHT_GREEN = 10"
| "color_value TTY_COLOR_LIGHT_CYAN = 11" | "color_value TTY_COLOR_LIGHT_RED = 12"
| "color_value TTY_COLOR_LIGHT_MAGENTA = 13" | "color_value TTY_COLOR_LIGHT_BROWN = 14" | "color_value TTY_COLOR_WHITE = 15"

record tty_style =
  style_fg :: tty_color
  style_bg :: tty_color
  style_flags :: u8

text \<open>
  The static variable \<open>tty\<close>, and in the last field the video memory behind the pointer \<open>tty_buffer\<close>, by
  the index of its 16-bit cells. The \<open>int\<close> fields are integers; the invariant below keeps them within
  0 to 159, so that no \<open>int\<close> overflows.
\<close>

record tty =
  tty_row :: int
  tty_col :: int
  tty_width :: int
  tty_height :: int
  tty_buffer_row :: int
  tty_buffer_height :: int
  tty_tab :: int
  tty_style :: tty_style
  tty_ring :: "u16 list list"
  video :: "int \<Rightarrow> u16"

type_synonym 'a tty_proc = "(tty, 'a) kproc"

section \<open>Operations\<close>

text \<open>\<open>a % b\<close> on \<open>int\<close>, and \<open>memset\<close> and \<open>memcpy\<close> on whole cells of video memory.\<close>

definition c_rem :: "int \<Rightarrow> int \<Rightarrow> int tty_proc" where
  "c_rem a b = (if b = 0 then failS Undefined_Behaviour else returnS (a smod b))"

definition put_cells :: "int \<Rightarrow> u16 list \<Rightarrow> (int \<Rightarrow> u16) \<Rightarrow> int \<Rightarrow> u16" where
  "put_cells base cells v = (\<lambda>k. if base \<le> k \<and> k < base + int (length cells) then cells ! nat (k - base) else v k)"

definition write_video :: "int \<Rightarrow> u16 list \<Rightarrow> unit tty_proc" where
  "write_video base cells = modifyS (\<lambda>t. t\<lparr>video := put_cells base cells (video t)\<rparr>)"

text \<open>The rows of \<open>tty.buffer[30][80]\<close>; an index outside the array is undefined.\<close>

definition ring_row :: "int \<Rightarrow> (u16 list) tty_proc" where
  "ring_row i = (\<lambda>t. if 0 \<le> i \<and> i < int (length (tty_ring t)) then Inr (tty_ring t ! nat i, t) else Inl Out_Of_Bounds)"

definition set_ring_row :: "int \<Rightarrow> u16 list \<Rightarrow> unit tty_proc" where
  "set_ring_row i r = (\<lambda>t. if 0 \<le> i \<and> i < int (length (tty_ring t))
     then Inr ((), t\<lparr>tty_ring := (tty_ring t)[nat i := r]\<rparr>) else Inl Out_Of_Bounds)"

definition buffer_row_up :: "unit tty_proc" where
  "buffer_row_up =
     bindS (getsS (\<lambda>t. t)) (\<lambda>t.
     bindS (c_rem (tty_buffer_row t + 1) (tty_buffer_height t)) (\<lambda>r.
     thenS (modifyS (\<lambda>t. t\<lparr>tty_buffer_row := r\<rparr>))
           (set_ring_row r (replicate 80 0))))"

text \<open>
  The loop of \<open>line_up\<close> that copies the rows from \<open>i\<close> up to the current one. Its fuel, the number of rows
  of the ring, is enough, see \<open>copy_rows_ok\<close>.
\<close>

fun copy_rows :: "nat \<Rightarrow> int \<Rightarrow> int \<Rightarrow> int tty_proc" where
  "copy_rows fuel i row =
     bindS (getsS (\<lambda>t. t)) (\<lambda>t.
     if i = tty_buffer_row t then returnS row
     else case fuel of
       0 \<Rightarrow> failS Diverges
     | Suc fuel \<Rightarrow>
         bindS (ring_row i) (\<lambda>cells.
         thenS (write_video (tty_width t * row) cells)
        (bindS (c_rem (i + 1) (tty_buffer_height t)) (\<lambda>i.
         copy_rows fuel i (row + 1)))))"

declare copy_rows.simps [simp del]

definition line_up :: "unit tty_proc" where
  "line_up =
     thenS buffer_row_up
    (bindS (getsS (\<lambda>t. t)) (\<lambda>t.
     if tty_row t < tty_height t - 1 then modifyS (\<lambda>t. t\<lparr>tty_row := tty_row t + 1\<rparr>)
     else
       bindS (c_rem (tty_buffer_row t - tty_height t + 1) (tty_buffer_height t)) (\<lambda>start_line.
       let start_line = if start_line < 0 then start_line + tty_buffer_height t else start_line in
       bindS (copy_rows (nat (tty_buffer_height t)) start_line 0) (\<lambda>row.
       write_video (tty_width t * row) (replicate (nat (tty_width t)) 0)))))"

definition special_char :: "u32 \<Rightarrow> unit tty_proc" where
  "special_char c =
     (if c = 10 then thenS line_up (modifyS (\<lambda>t. t\<lparr>tty_col := 0\<rparr>))
      else if c = 13 then modifyS (\<lambda>t. t\<lparr>tty_col := 0\<rparr>)
      else if c = 9 then
        bindS (getsS (\<lambda>t. t)) (\<lambda>t.
        bindS (c_rem (tty_col t) (tty_tab t)) (\<lambda>m.
        thenS (modifyS (\<lambda>t. t\<lparr>tty_col := tty_col t + (tty_tab t - m)\<rparr>))
       (bindS (getsS (\<lambda>t. t)) (\<lambda>t.
        if tty_col t + 1 > tty_width t then
          bindS (c_rem (tty_col t) (tty_width t)) (\<lambda>m.
          thenS (modifyS (\<lambda>t. t\<lparr>tty_col := m\<rparr>)) line_up)
        else returnS ()))))
      else returnS ())"

definition styled :: "tty_style \<Rightarrow> u32 \<Rightarrow> u16" where
  "styled st c = ucast (push_bit 8 (color_value (style_fg st)) OR push_bit 12 (color_value (style_bg st)) OR c)"

definition put_char :: "u32 \<Rightarrow> unit tty_proc" where
  "put_char c =
     thenS (bindS (getsS (\<lambda>t. t)) (\<lambda>t.
       if tty_col t = tty_width t then thenS line_up (modifyS (\<lambda>t. t\<lparr>tty_col := 0\<rparr>)) else returnS ()))
    (bindS (getsS (\<lambda>t. t)) (\<lambda>t.
     let ch = styled (tty_style t) c in
     thenS (modifyS (\<lambda>t. t\<lparr>video := (video t)(tty_row t * tty_width t + tty_col t := ch)\<rparr>))
    (bindS (ring_row (tty_buffer_row t)) (\<lambda>cells.
     thenS (if 0 \<le> tty_col t \<and> tty_col t < int (length cells)
            then set_ring_row (tty_buffer_row t) (cells[nat (tty_col t) := ch]) else failS Out_Of_Bounds)
           (modifyS (\<lambda>t. t\<lparr>tty_col := tty_col t + 1\<rparr>))))))"

definition tty_putchar :: "u32 \<Rightarrow> unit tty_proc" where
  "tty_putchar c =
     (if c > 0xFF then returnS ()
      else if c < 0x20 then special_char c
      else put_char c)"

text \<open>The characters of a string, each an eight-bit \<open>char\<close> that is sign-extended on the way to \<open>uint32_t\<close>.\<close>

fun tty_putstring :: "u8 list \<Rightarrow> unit tty_proc" where
  "tty_putstring [] = returnS ()"
| "tty_putstring (c # s) = (if c = 0 then returnS () else thenS (tty_putchar (scast c)) (tty_putstring s))"

definition tty_set_color :: "tty_color \<Rightarrow> tty_color \<Rightarrow> unit tty_proc" where
  "tty_set_color foreground background =
     modifyS (\<lambda>t. t\<lparr>tty_style := (tty_style t)\<lparr>style_fg := foreground, style_bg := background\<rparr>\<rparr>)"

definition tty_set_tab_size :: "int \<Rightarrow> unit tty_proc" where
  "tty_set_tab_size sz =
     modifyS (\<lambda>t. if sz > 0 \<and> sz < tty_width t then t\<lparr>tty_tab := sz\<rparr> else t)"

definition tty_clear :: "unit tty_proc" where
  "tty_clear =
     thenS buffer_row_up
    (bindS (getsS (\<lambda>t. t)) (\<lambda>t.
     let sz = tty_width t * tty_height t in
     thenS (write_video 0 (replicate (nat sz) 0))
           (modifyS (\<lambda>t. t\<lparr>tty_col := 0, tty_row := 0\<rparr>))))"

definition tty_initialize :: "unit tty_proc" where
  "tty_initialize =
     thenS (modifyS (\<lambda>t. t\<lparr>tty_row := 0, tty_col := 0, tty_buffer_row := 0, tty_buffer_height := 30, tty_width := 80,
         tty_height := 25, tty_tab := 8,
         tty_style := \<lparr>style_fg = TTY_COLOR_WHITE, style_bg = TTY_COLOR_BLACK, style_flags = 0\<rparr>,
         tty_ring := replicate 30 (replicate 80 0)\<rparr>))
     tty_clear"

section \<open>Rows of the screen\<close>

definition blank :: "u16 list" where "blank = replicate 80 0"

definition screen_row :: "(int \<Rightarrow> u16) \<Rightarrow> nat \<Rightarrow> u16 list" where
  "screen_row v r = map (\<lambda>c. v (80 * int r + int c)) [0..<80]"

lemma screen_row_length [simp]: "length (screen_row v r) = 80"
  by (simp add: screen_row_def)

lemma blank_length [simp]: "length blank = 80"
  by (simp add: blank_def)

lemma screen_row_put_row:
  assumes "length cells = 80"
  shows "screen_row (put_cells (80 * int r) cells v) r' = (if r' = r then cells else screen_row v r')"
proof (rule nth_equalityI)
  fix c assume "c < length (screen_row (put_cells (80 * int r) cells v) r')"
  then show "screen_row (put_cells (80 * int r) cells v) r' ! c = (if r' = r then cells else screen_row v r') ! c"
    using assms by (auto simp: screen_row_def put_cells_def)
qed (simp add: assms)

lemma screen_row_cell:
  assumes "c < 80"
  shows "screen_row (v(80 * int r + int c := x)) r' = (if r' = r then (screen_row v r)[c := x] else screen_row v r')"
proof (rule nth_equalityI)
  fix k assume "k < length (screen_row (v(80 * int r + int c := x)) r')"
  then have "k < 80" by simp
  then show "screen_row (v(80 * int r + int c := x)) r' ! k
      = (if r' = r then (screen_row v r)[c := x] else screen_row v r') ! k"
    using assms by (auto simp: screen_row_def nth_list_update)
qed simp

lemma screen_row_clear: "r < 25 \<Longrightarrow> screen_row (put_cells 0 (replicate 2000 0) v) r = blank"
  by (rule nth_equalityI) (auto simp: screen_row_def put_cells_def blank_def)

section \<open>Scrolling\<close>

lemma c_rem_nonneg: "0 \<le> a \<Longrightarrow> 0 < b \<Longrightarrow> c_rem a b t = Inr (a mod b, t)"
  by (cases "a = 0") (simp_all add: c_rem_def signed_modulo_int_def signed_divide_int_def minus_mult_div_eq_mod)

lemma c_rem_add:
  assumes "- b < a" "a < b" "c_rem a b t = Inr (m, t)"
  shows "(if m < 0 then m + b else m) = a mod b"
proof (cases "0 \<le> a")
  case True
  then show ?thesis using assms by (simp add: c_rem_nonneg)
next
  case False
  then have "m = a" using assms by (simp add: c_rem_def signed_modulo_int_def signed_divide_int_def split: if_splits)
  moreover have "(a + b) mod b = a + b" using False assms by (intro mod_pos_pos_trivial) auto
  ultimately show ?thesis using False by simp
qed

definition ring_ok :: "tty \<Rightarrow> bool" where
  "ring_ok t \<longleftrightarrow> tty_width t = 80 \<and> tty_height t = 25 \<and> tty_buffer_height t = 30 \<and>
     length (tty_ring t) = 30 \<and> (\<forall>r \<in> set (tty_ring t). length r = 80) \<and> 0 \<le> tty_buffer_row t \<and> tty_buffer_row t < 30"

text \<open>Row \<open>k\<close> of the ring, counted back from the current one.\<close>

definition recent :: "tty \<Rightarrow> nat \<Rightarrow> u16 list" where
  "recent t k = tty_ring t ! nat ((tty_buffer_row t - int k) mod 30)"

lemma buffer_row_up_ok:
  assumes "ring_ok t"
  shows "\<exists>b ring. buffer_row_up t = Inr ((), t\<lparr>tty_buffer_row := b, tty_ring := ring\<rparr>) \<and>
    ring_ok (t\<lparr>tty_buffer_row := b, tty_ring := ring\<rparr>) \<and>
    (\<forall>k < 30. recent (t\<lparr>tty_buffer_row := b, tty_ring := ring\<rparr>) k = (if k = 0 then blank else recent t (k - 1)))"
proof -
  define b where "b = (tty_buffer_row t + 1) mod 30"
  define ring where "ring = (tty_ring t)[nat b := blank]"
  have t: "tty_buffer_height t = 30" "length (tty_ring t) = 30" "0 \<le> tty_buffer_row t" "tty_buffer_row t < 30"
    using assms by (simp_all add: ring_ok_def)
  have b: "0 \<le> b" "b < 30" by (simp_all add: b_def)
  have run: "buffer_row_up t = Inr ((), t\<lparr>tty_buffer_row := b, tty_ring := ring\<rparr>)"
    using t b by (simp add: buffer_row_up_def bindS_apply thenS_apply c_rem_nonneg set_ring_row_def ring_def
      blank_def b_def [symmetric])
  have "\<forall>r \<in> set ring. length r = 80"
    using assms set_update_subset_insert [of "tty_ring t" "nat b" blank] by (auto simp: ring_def ring_ok_def)
  then have ok: "ring_ok (t\<lparr>tty_buffer_row := b, tty_ring := ring\<rparr>)"
    using assms b by (simp add: ring_ok_def ring_def)
  have "ring ! nat ((b - int k) mod 30) = (if k = 0 then blank else recent t (k - 1))" if "k < 30" for k
  proof (cases "k = 0")
    case True
    then show ?thesis using b t(2) by (simp add: ring_def)
  next
    case False
    have "(b - int k) mod 30 = (tty_buffer_row t - int (k - 1)) mod 30"
      using False by (simp add: b_def mod_diff_left_eq of_nat_diff algebra_simps)
    moreover have "(b - int k) mod 30 \<noteq> b"
    proof
      assume "(b - int k) mod 30 = b"
      then have "(b - int k) mod 30 = b mod 30" using b by simp
      then have "30 dvd int k" by (metis mod_eq_dvd_iff add_diff_cancel_left' diff_add_cancel dvd_diff_commute)
      then show False using False that by (simp add: zdvd_not_zless)
    qed
    ultimately show ?thesis using False b by (simp add: ring_def recent_def nat_eq_iff)
  qed
  then show ?thesis using run ok by (intro exI [of _ b] exI [of _ ring]) (simp add: recent_def)
qed

lemma copy_rows_ok:
  assumes "ring_ok t" "n \<le> fuel" "n < 30"
  shows "\<exists>v. copy_rows fuel ((tty_buffer_row t - int n) mod 30) (int r) t = Inr (int (r + n), t\<lparr>video := v\<rparr>) \<and>
    (\<forall>j. screen_row v j = (if r \<le> j \<and> j < r + n then recent t (n - (j - r)) else screen_row (video t) j)) \<and>
    (\<forall>k. k < 80 * int r \<or> 80 * int (r + n) \<le> k \<longrightarrow> v k = video t k)"
  using assms
proof (induction n arbitrary: fuel r t)
  case 0
  then have "(tty_buffer_row t - int 0) mod 30 = tty_buffer_row t" by (simp add: ring_ok_def)
  then show ?case by (intro exI [of _ "video t"]) (auto simp: copy_rows.simps bindS_apply)
next
  case (Suc n)
  let ?b = "tty_buffer_row t" and ?i = "(tty_buffer_row t - int (Suc n)) mod 30"
  obtain f where f: "fuel = Suc f" "n \<le> f" using Suc.prems(2) by (cases fuel) auto
  have b: "0 \<le> ?b" "?b < 30" "tty_width t = 80" "tty_buffer_height t = 30" "length (tty_ring t) = 30"
    using Suc.prems(1) by (simp_all add: ring_ok_def)
  have i: "0 \<le> ?i" "?i < 30" by simp_all
  have "?i \<noteq> ?b"
  proof
    assume "?i = ?b"
    then have "30 dvd int (Suc n)"
      using b(1,2) by (metis mod_eq_dvd_iff add_diff_cancel_left' diff_add_cancel dvd_diff_commute mod_pos_pos_trivial)
    then show False using Suc.prems(3) by (simp add: zdvd_not_zless)
  qed
  have next_i: "(?i + 1) mod 30 = (?b - int n) mod 30" unfolding mod_add_left_eq by simp
  let ?t = "t\<lparr>video := put_cells (80 * int r) (recent t (Suc n)) (video t)\<rparr>"
  have cells: "length (recent t (Suc n)) = 80"
    using Suc.prems(1) i b(5) unfolding ring_ok_def recent_def by (metis nat_less_iff nth_mem of_nat_numeral)
  have "ring_ok ?t" using Suc.prems(1) by (simp add: ring_ok_def)
  from Suc.IH [OF this f(2), of "Suc r"] obtain v where v:
      "copy_rows f ((?b - int n) mod 30) (int (Suc r)) ?t = Inr (int (Suc r + n), ?t\<lparr>video := v\<rparr>)"
      "\<And>j. screen_row v j = (if Suc r \<le> j \<and> j < Suc r + n then recent ?t (n - (j - Suc r)) else screen_row (video ?t) j)"
      "\<And>k. k < 80 * int (Suc r) \<or> 80 * int (Suc r + n) \<le> k \<Longrightarrow> v k = video ?t k"
    using Suc.prems(3) by auto
  have "copy_rows fuel ?i (int r) t = copy_rows f ((?b - int n) mod 30) (int (Suc r)) ?t"
    unfolding f(1) using \<open>?i \<noteq> ?b\<close> i b next_i
    by (subst copy_rows.simps)
      (simp add: bindS_apply thenS_apply ring_row_def write_video_def c_rem_nonneg recent_def add.commute)
  moreover have "recent ?t k = recent t k" for k by (simp add: recent_def)
  moreover have "v k = video t k" if "k < 80 * int r \<or> 80 * int (r + Suc n) \<le> k" for k
    using v(3) [of k] that cells by (auto simp: put_cells_def)
  ultimately show ?case
    using v(1,2) by (intro exI [of _ v]) (auto simp: screen_row_put_row [OF cells] not_less_eq_eq Suc_diff_Suc)
qed

section \<open>A terminal that keeps all rows\<close>

record terminal =
  term_rows :: "u16 list list"
  term_col :: nat
  term_tab :: nat
  term_style :: tty_style

definition new_row :: "terminal \<Rightarrow> terminal" where
  "new_row m = m\<lparr>term_rows := term_rows m @ [blank]\<rparr>"

definition write_cell :: "u16 \<Rightarrow> terminal \<Rightarrow> terminal" where
  "write_cell x m = m\<lparr>term_rows := butlast (term_rows m) @ [(last (term_rows m))[term_col m := x]],
     term_col := term_col m + 1\<rparr>"

definition term_char :: "u32 \<Rightarrow> terminal \<Rightarrow> terminal" where
  "term_char c m =
     (if c > 0xFF then m
      else if c = 10 then new_row m\<lparr>term_col := 0\<rparr>
      else if c = 13 then m\<lparr>term_col := 0\<rparr>
      else if c = 9 then
        (let col = term_col m + (term_tab m - term_col m mod term_tab m) in
         if col < 80 then m\<lparr>term_col := col\<rparr> else new_row m\<lparr>term_col := col mod 80\<rparr>)
      else if c < 0x20 then m
      else write_cell (styled (term_style m) c) (if term_col m = 80 then new_row m\<lparr>term_col := 0\<rparr> else m))"

text \<open>Row \<open>r\<close> of its screen: the last 25 rows, or all of them at the top of an unfilled screen.\<close>

definition shown :: "terminal \<Rightarrow> nat \<Rightarrow> u16 list" where
  "shown m r = (let n = length (term_rows m) in if n - 25 + r < n then term_rows m ! (n - 25 + r) else blank)"

definition tty_rel :: "tty \<Rightarrow> terminal \<Rightarrow> bool" where
  "tty_rel t m \<longleftrightarrow> ring_ok t \<and> term_rows m \<noteq> [] \<and> (\<forall>r \<in> set (term_rows m). length r = 80) \<and>
     tty_row t = int (min (length (term_rows m) - 1) 24) \<and> tty_col t = int (term_col m) \<and> term_col m \<le> 80 \<and>
     tty_tab t = int (term_tab m) \<and> 0 < term_tab m \<and> term_tab m < 80 \<and> tty_style t = term_style m \<and>
     (\<forall>k < min (length (term_rows m)) 25. recent t k = term_rows m ! (length (term_rows m) - 1 - k)) \<and>
     (\<forall>r < 25. screen_row (video t) r = shown m r)"

text \<open>Everything but the screen's 2000 cells of video memory is left alone.\<close>

definition only_screen :: "tty \<Rightarrow> tty \<Rightarrow> bool" where
  "only_screen t t' \<longleftrightarrow> (\<forall>k. k < 0 \<or> 2000 \<le> k \<longrightarrow> video t' k = video t k)"

lemma only_screen_refl [simp]: "only_screen t t"
  by (simp add: only_screen_def)

lemma only_screen_trans: "only_screen t t' \<Longrightarrow> only_screen t' t'' \<Longrightarrow> only_screen t t''"
  by (simp add: only_screen_def)

lemma line_up_ok:
  assumes rel: "tty_rel t m"
  shows "\<exists>t'. line_up t = Inr ((), t') \<and> tty_rel t' (new_row m) \<and> only_screen t t'"
proof -
  let ?L = "term_rows m" and ?n = "length (term_rows m)"
  have t: "ring_ok t" "?L \<noteq> []" "tty_row t = int (min (?n - 1) 24)" "\<forall>r \<in> set ?L. length r = 80"
      "\<And>k. k < min ?n 25 \<Longrightarrow> recent t k = ?L ! (?n - 1 - k)" "\<And>r. r < 25 \<Longrightarrow> screen_row (video t) r = shown m r"
    using rel by (auto simp: tty_rel_def)
  obtain b ring where up: "buffer_row_up t = Inr ((), t\<lparr>tty_buffer_row := b, tty_ring := ring\<rparr>)"
      "ring_ok (t\<lparr>tty_buffer_row := b, tty_ring := ring\<rparr>)"
      "\<And>k. k < 30 \<Longrightarrow> recent (t\<lparr>tty_buffer_row := b, tty_ring := ring\<rparr>) k = (if k = 0 then blank else recent t (k - 1))"
    using buffer_row_up_ok [OF t(1)] by blast
  define t1 where "t1 = t\<lparr>tty_buffer_row := b, tty_ring := ring\<rparr>"
  note up = up [folded t1_def]
  have t1: "tty_row t1 = tty_row t" "tty_width t1 = 80" "tty_height t1 = 25" "tty_buffer_height t1 = 30" "video t1 = video t"
      "0 \<le> tty_buffer_row t1" "tty_buffer_row t1 < 30"
    using up(2) by (simp_all add: t1_def ring_ok_def)
  have ring: "recent t1 k = (?L @ [blank]) ! (?n - k)" if "k < min (Suc ?n) 25" for k
    using up(3) [of k] t(5) [of "k - 1"] that by (cases k) (auto simp: nth_append less_Suc_eq_le)
  have rest: "ring_ok t1" "tty_col t1 = int (term_col m)" "term_col m \<le> 80" "tty_tab t1 = int (term_tab m)" "0 < term_tab m"
      "term_tab m < 80" "tty_style t1 = term_style m"
    using rel up(2) by (simp_all add: tty_rel_def t1_def)
  have rows: "\<forall>r \<in> set (?L @ [blank]). length r = 80" using t(4) by auto
  show ?thesis
  proof (cases "?n < 25")
    case True
    let ?t = "t1\<lparr>tty_row := tty_row t1 + 1\<rparr>"
    obtain p where "?n = Suc p" using t(2) by (cases ?n) auto
    then have "tty_row t < 24" "tty_row t + 1 = int ?n" using True t(3) by auto
    then have "line_up t = Inr ((), ?t)" using up(1) t1 by (simp add: line_up_def bindS_apply thenS_apply)
    moreover have "shown (new_row m) r = shown m r" for r
      using True by (auto simp: shown_def new_row_def Let_def nth_append)
    moreover have "recent ?t k = recent t1 k" for k by (simp add: recent_def)
    ultimately show ?thesis
      using rest ring rows t(6) \<open>tty_row t + 1 = int ?n\<close> True t1
      by (intro exI [of _ ?t]) (simp add: tty_rel_def new_row_def only_screen_def ring_ok_def)
  next
    case False
    then have "tty_row t = 24" using t(3) by simp
    have start: "(tty_buffer_row t1 - int 24) mod 30 = (tty_buffer_row t1 - 24) mod 30" by simp
    obtain m0 where m0: "c_rem (tty_buffer_row t1 - 25 + 1) 30 t1 = Inr (m0, t1)" by (simp add: c_rem_def)
    then have m0': "(if m0 < 0 then m0 + 30 else m0) = (tty_buffer_row t1 - int 24) mod 30"
      using c_rem_add [of 30 "tty_buffer_row t1 - 25 + 1" t1 m0] t1 by simp
    obtain v where v: "copy_rows 30 ((tty_buffer_row t1 - int 24) mod 30) (int 0) t1 = Inr (int (0 + 24), t1\<lparr>video := v\<rparr>)"
        "\<And>j. screen_row v j = (if 0 \<le> j \<and> j < 0 + 24 then recent t1 (24 - (j - 0)) else screen_row (video t1) j)"
        "\<And>k. k < 80 * int 0 \<or> 80 * int (0 + 24) \<le> k \<Longrightarrow> v k = video t1 k"
      using copy_rows_ok [OF up(2), of 24 30 0] by auto
    let ?v = "put_cells (80 * int 24) blank v"
    let ?t = "t1\<lparr>video := ?v\<rparr>"
    have "line_up t = Inr ((), ?t)"
      using up(1) t1 m0 m0' v(1) \<open>tty_row t = 24\<close>
      by (cases "m0 < 0") (simp_all add: line_up_def bindS_apply thenS_apply Let_def write_video_def blank_def)
    moreover have "screen_row ?v r = shown (new_row m) r" if "r < 25" for r
    proof (cases "r = 24")
      case True
      then show ?thesis using False screen_row_put_row [of blank 24 v 24] by (simp add: shown_def new_row_def Let_def nth_append)
    next
      case neq: False
      then have "screen_row ?v r = recent t1 (24 - r)" using v(2) [of r] that screen_row_put_row [of blank 24 v r] by simp
      also have "\<dots> = (?L @ [blank]) ! (?n - (24 - r))" using ring [of "24 - r"] False by simp
      also have "?n - (24 - r) = Suc ?n - 25 + r" using False that neq by simp
      finally have "screen_row ?v r = (?L @ [blank]) ! (Suc ?n - 25 + r)" .
      moreover have "Suc ?n - 25 + r < Suc ?n" using False that by simp
      ultimately show ?thesis by (simp only: shown_def new_row_def Let_def terminal.select_convs terminal.update_convs
            length_append list.size if_True add_0_right add_Suc_right) simp
    qed
    moreover have "?v k = video t k" if "k < 0 \<or> 2000 \<le> k" for k
      using v(3) [of k] that t1(5) by (auto simp: put_cells_def)
    moreover have "recent ?t k = recent t1 k" for k by (simp add: recent_def)
    ultimately show ?thesis
      using rest ring rows False \<open>tty_row t = 24\<close> t1
      by (intro exI [of _ ?t]) (simp add: tty_rel_def new_row_def only_screen_def ring_ok_def)
  qed
qed

section \<open>Characters\<close>

lemma write_cell_ok:
  assumes rel: "tty_rel t m" and col: "term_col m < 80"
  defines "cells \<equiv> tty_ring t ! nat (tty_buffer_row t)"
  shows "\<exists>t'. t' = t\<lparr>video := (video t)(tty_row t * tty_width t + tty_col t := x),
      tty_ring := (tty_ring t)[nat (tty_buffer_row t) := cells[term_col m := x]], tty_col := tty_col t + 1\<rparr> \<and>
    tty_rel t' (write_cell x m) \<and> only_screen t t'"
proof -
  let ?L = "term_rows m" and ?n = "length (term_rows m)" and ?c = "term_col m" and ?b = "tty_buffer_row t"
  define rows where "rows = butlast ?L @ [(last ?L)[?c := x]]"
  define ring where "ring = (tty_ring t)[nat ?b := cells[?c := x]]"
  define t' where "t' = t\<lparr>video := (video t)(tty_row t * tty_width t + tty_col t := x), tty_ring := ring, tty_col := tty_col t + 1\<rparr>"
  have t: "ring_ok t" "?L \<noteq> []" "tty_row t = int (min (?n - 1) 24)" "\<forall>r \<in> set ?L. length r = 80"
      "tty_col t = int ?c" "\<And>k. k < min ?n 25 \<Longrightarrow> recent t k = ?L ! (?n - 1 - k)"
      "\<And>r. r < 25 \<Longrightarrow> screen_row (video t) r = shown m r"
    using rel by (auto simp: tty_rel_def)
  have b: "tty_width t = 80" "length (tty_ring t) = 30" "0 \<le> ?b" "?b < 30" using t(1) by (simp_all add: ring_ok_def)
  have len: "length rows = ?n" using t(2) by (simp add: rows_def)
  have nth: "rows ! k = (if k = ?n - 1 then (?L ! k)[?c := x] else ?L ! k)" if "k < ?n" for k
    using that t(2) by (auto simp: rows_def nth_append nth_butlast last_conv_nth)
  have "length r = 80" if r: "r \<in> set rows" for r
  proof -
    obtain k where "k < ?n" "r = rows ! k" using r len unfolding in_set_conv_nth by auto
    then show ?thesis using nth [of k] t(4) nth_mem [of k ?L] by auto
  qed
  moreover have cells: "cells = recent t 0" using b by (simp add: cells_def recent_def)
  have "length cells = 80" using b t(1) by (auto simp: cells_def ring_ok_def)
  then have "ring_ok t'"
    using t(1) set_update_subset_insert [of "tty_ring t" "nat ?b" "cells[?c := x]"]
    by (auto simp: t'_def ring_def ring_ok_def)
  moreover have "recent t' k = rows ! (length rows - 1 - k)" if k: "k < min (length rows) 25" for k
  proof (cases "k = 0")
    case True
    then show ?thesis using b t(6) [of 0] k len nth [of "?n - 1"] by (simp add: recent_def t'_def ring_def cells)
  next
    case False
    have "(?b - int k) mod 30 \<noteq> ?b"
    proof
      assume "(?b - int k) mod 30 = ?b"
      then have "30 dvd int k"
        using b by (metis mod_eq_dvd_iff add_diff_cancel_left' diff_add_cancel dvd_diff_commute mod_pos_pos_trivial)
      then show False using False k by (simp add: zdvd_not_zless)
    qed
    then have "recent t' k = recent t k" using b by (simp add: recent_def t'_def ring_def nat_eq_iff)
    moreover have "rows ! (?n - 1 - k) = ?L ! (?n - 1 - k)"
    proof -
      have "?n - 1 - k < ?n" "?n - 1 - k \<noteq> ?n - 1" using False k len by auto
      then show ?thesis using nth [of "?n - 1 - k"] by (simp only: if_False)
    qed
    ultimately show ?thesis using t(6) [of k] k len by simp
  qed
  moreover have "screen_row (video t') r = shown (write_cell x m) r" if r: "r < 25" for r
  proof -
    define q where "q = min (?n - 1) 24"
    have "video t' = (video t)(80 * int q + int ?c := x)"
      using t(3,5) b(1) by (simp add: t'_def q_def mult.commute)
    then have "screen_row (video t') r = (if r = q then (shown m r)[?c := x] else shown m r)"
      using screen_row_cell [OF col] t(7) r by simp
    also have "\<dots> = shown (write_cell x m) r"
    proof -
      obtain p where p: "?n = Suc p" using t(2) by (cases ?n) auto
      have "term_rows (write_cell x m) = rows" by (simp add: write_cell_def rows_def)
      then show ?thesis using nth [of "?n - 25 + r"] len r p unfolding q_def shown_def Let_def by auto
    qed
    finally show ?thesis .
  qed
  moreover have "only_screen t t'" using t(3,5) b(1) col by (auto simp: only_screen_def t'_def)
  ultimately show ?thesis
    using rel col len t(2) unfolding t'_def [symmetric] ring_def [symmetric]
    by (intro exI [of _ t']) (simp add: tty_rel_def write_cell_def rows_def [symmetric], auto simp: t'_def ring_def rows_def)
qed

lemma shown_col [simp]: "shown (m\<lparr>term_col := c\<rparr>) r = shown m r"
  by (cases m) (simp only: shown_def terminal.select_convs terminal.update_convs)

lemma tty_rel_col:
  "tty_rel t m \<Longrightarrow> c \<le> 80 \<Longrightarrow> tty_rel (t\<lparr>tty_col := int c\<rparr>) (m\<lparr>term_col := c\<rparr>)"
  by (simp add: tty_rel_def ring_ok_def recent_def)

lemma only_screen_col [simp]: "only_screen t (t'\<lparr>tty_col := c\<rparr>) = only_screen t t'"
  by (simp add: only_screen_def)

lemma new_row_col: "new_row (m\<lparr>term_col := c\<rparr>) = new_row m\<lparr>term_col := c\<rparr>"
  by (simp add: new_row_def)

lemma put_char_ok:
  fixes c :: u32
  assumes "tty_rel t m"
  defines "m' \<equiv> write_cell (styled (term_style m) c) (if term_col m = 80 then new_row m\<lparr>term_col := 0\<rparr> else m)"
  shows "\<exists>t'. put_char c t = Inr ((), t') \<and> tty_rel t' m' \<and> only_screen t t'"
proof -
  let ?m = "if term_col m = 80 then new_row m\<lparr>term_col := 0\<rparr> else m"
  have "\<exists>t1. (bindS (getsS (\<lambda>t. t)) (\<lambda>t.
       if tty_col t = tty_width t then thenS line_up (modifyS (\<lambda>t. t\<lparr>tty_col := 0\<rparr>)) else returnS ())) t = Inr ((), t1) \<and>
      tty_rel t1 ?m \<and> only_screen t t1"
  proof (cases "term_col m = 80")
    case True
    obtain t1 where "line_up t = Inr ((), t1)" "tty_rel t1 (new_row m)" "only_screen t t1" using line_up_ok [OF assms(1)] by blast
    then show ?thesis
      using True assms(1) tty_rel_col [of t1 "new_row m" 0]
      by (intro exI [of _ "t1\<lparr>tty_col := 0\<rparr>"]) (simp add: bindS_apply thenS_apply tty_rel_def [of t m] ring_ok_def)
  next
    case False
    then show ?thesis
      using assms(1) by (intro exI [of _ t]) (auto simp: bindS_apply tty_rel_def [of t m] ring_ok_def)
  qed
  then obtain t1 where t1: "(bindS (getsS (\<lambda>t. t)) (\<lambda>t.
       if tty_col t = tty_width t then thenS line_up (modifyS (\<lambda>t. t\<lparr>tty_col := 0\<rparr>)) else returnS ())) t = Inr ((), t1)"
      "tty_rel t1 ?m" "only_screen t t1" by blast
  have col: "term_col ?m < 80" "term_style ?m = term_style m" using assms(1) by (auto simp: tty_rel_def new_row_def)
  let ?x = "styled (term_style m) c"
  obtain t2 where t2: "t2 = t1\<lparr>video := (video t1)(tty_row t1 * tty_width t1 + tty_col t1 := ?x),
      tty_ring := (tty_ring t1)[nat (tty_buffer_row t1) := (tty_ring t1 ! nat (tty_buffer_row t1))[term_col ?m := ?x]],
      tty_col := tty_col t1 + 1\<rparr>" "tty_rel t2 (write_cell ?x ?m)" "only_screen t1 t2"
    using write_cell_ok [OF t1(2) col(1), of ?x] by blast
  have b: "0 \<le> tty_buffer_row t1" "tty_buffer_row t1 < 30" "length (tty_ring t1) = 30" "tty_style t1 = term_style m"
      "tty_col t1 = int (term_col ?m)" "\<forall>r \<in> set (tty_ring t1). length r = 80"
    using t1(2) col(2) by (auto simp: tty_rel_def ring_ok_def simp del: if_split)
  have "length (tty_ring t1 ! nat (tty_buffer_row t1)) = 80" using b by simp
  then have "put_char c t = Inr ((), t2)"
    using t1(1) b col(1) unfolding put_char_def thenS_apply t2(1)
    by (simp add: bindS_apply thenS_apply Let_def ring_row_def set_ring_row_def del: if_split)
  then show ?thesis using t2(2,3) only_screen_trans [OF t1(3)] unfolding m'_def by blast
qed

lemma tty_putchar_ok:
  assumes "tty_rel t m"
  shows "\<exists>t'. tty_putchar c t = Inr ((), t') \<and> tty_rel t' (term_char c m) \<and> only_screen t t'"
proof -
  have col: "tty_width t = 80" "tty_col t = int (term_col m)" "tty_tab t = int (term_tab m)" "0 < term_tab m"
      "term_tab m < 80" "term_col m \<le> 80"
    using assms by (simp_all add: tty_rel_def ring_ok_def)
  obtain t1 where t1: "line_up t = Inr ((), t1)" "tty_rel t1 (new_row m)" "only_screen t t1"
    using line_up_ok [OF assms] by blast
  consider "c > 0xFF" | "c = 10" | "c = 13" | "c = 9" | "c < 0x20" "c \<noteq> 10" "c \<noteq> 13" "c \<noteq> 9" | "0x20 \<le> c" "c \<le> 0xFF"
    by (meson linorder_not_le)
  then show ?thesis
  proof cases
    case 2
    then show ?thesis
      using t1 tty_rel_col [OF t1(2), of 0]
      by (intro exI [of _ "t1\<lparr>tty_col := 0\<rparr>"]) (simp add: tty_putchar_def special_char_def term_char_def thenS_apply)
  next
    case 3
    then show ?thesis
      using tty_rel_col [OF assms, of 0]
      by (intro exI [of _ "t\<lparr>tty_col := 0\<rparr>"]) (simp add: tty_putchar_def special_char_def term_char_def)
  next
    case 4
    define col' where "col' = term_col m + (term_tab m - term_col m mod term_tab m)"
    have "term_col m mod term_tab m \<le> term_tab m" using col(4) by (simp add: less_imp_le)
    then have "int (term_tab m - term_col m mod term_tab m) = tty_tab t - tty_col t mod tty_tab t"
      using col by (simp add: of_nat_diff zmod_int)
    then have col': "tty_col t + (tty_tab t - tty_col t mod tty_tab t) = int col'"
      using col by (simp only: col'_def of_nat_add)
    have "c_rem (tty_col t) (tty_tab t) t = Inr (tty_col t mod tty_tab t, t)" using col by (intro c_rem_nonneg) auto
    then have run: "tty_putchar c t = (if int col' + 1 > 80
        then bindE (c_rem (int col') 80 (t\<lparr>tty_col := int col'\<rparr>)) (\<lambda>(r, t). line_up (t\<lparr>tty_col := r\<rparr>))
        else Inr ((), t\<lparr>tty_col := int col'\<rparr>))"
      using 4 col(1) col' by (simp add: tty_putchar_def special_char_def bindS_apply thenS_apply del: if_split)
    have m': "term_char c m = (if col' < 80 then m\<lparr>term_col := col'\<rparr> else new_row m\<lparr>term_col := col' mod 80\<rparr>)"
      using 4 by (simp add: term_char_def col'_def Let_def)
    show ?thesis
    proof (cases "col' < 80")
      case True
      then show ?thesis
        using run m' tty_rel_col [OF assms, of col'] by (intro exI [of _ "t\<lparr>tty_col := int col'\<rparr>"]) simp
    next
      case False
      let ?t = "t\<lparr>tty_col := int (col' mod 80)\<rparr>"
      have "tty_rel ?t (m\<lparr>term_col := col' mod 80\<rparr>)" by (rule tty_rel_col [OF assms]) simp
      then obtain t2 where "line_up ?t = Inr ((), t2)" "tty_rel t2 (new_row m\<lparr>term_col := col' mod 80\<rparr>)" "only_screen ?t t2"
        using line_up_ok new_row_col by metis
      then show ?thesis
        using False run m' c_rem_nonneg [of "int col'" 80] by (intro exI [of _ t2]) (simp add: of_nat_mod only_screen_def)
    qed
  next
    case 6
    then have "term_char c m = write_cell (styled (term_style m) c) (if term_col m = 80 then new_row m\<lparr>term_col := 0\<rparr> else m)"
      by (auto simp: term_char_def not_less)
    moreover have "\<not> 0xFF < c" "\<not> c < 0x20" using 6 by auto
    then have "tty_putchar c t = put_char c t" by (simp add: tty_putchar_def)
    ultimately show ?thesis using put_char_ok [OF assms, of c] by simp
  qed (use assms in \<open>auto simp: tty_putchar_def special_char_def term_char_def\<close>)
qed

section \<open>The interface of the terminal\<close>

text \<open>The calls that the rest of the kernel makes, on the code and on the terminal that keeps all rows.\<close>

datatype tty_request = Put u32 | Put_String "u8 list" | Set_Color tty_color tty_color | Set_Tab int | Clear

fun tty_serve :: "tty_request \<Rightarrow> unit tty_proc" where
  "tty_serve (Put c) = tty_putchar c"
| "tty_serve (Put_String s) = tty_putstring s"
| "tty_serve (Set_Color f b) = tty_set_color f b"
| "tty_serve (Set_Tab n) = tty_set_tab_size n"
| "tty_serve Clear = tty_clear"

fun tty_serve_all :: "tty_request list \<Rightarrow> unit tty_proc" where
  "tty_serve_all [] = returnS ()"
| "tty_serve_all (r # rs) = thenS (tty_serve r) (tty_serve_all rs)"

definition term_string :: "u8 list \<Rightarrow> terminal \<Rightarrow> terminal" where
  "term_string s m = fold (\<lambda>c. term_char (scast c)) (takeWhile (\<lambda>c. c \<noteq> 0) s) m"

fun term_serve :: "tty_request \<Rightarrow> terminal \<Rightarrow> terminal" where
  "term_serve (Put c) m = term_char c m"
| "term_serve (Put_String s) m = term_string s m"
| "term_serve (Set_Color f b) m = m\<lparr>term_style := (term_style m)\<lparr>style_fg := f, style_bg := b\<rparr>\<rparr>"
| "term_serve (Set_Tab n) m = (if 0 < n \<and> n < 80 then m\<lparr>term_tab := nat n\<rparr> else m)"
| "term_serve Clear m = m\<lparr>term_rows := [blank], term_col := 0\<rparr>"

definition term_init :: terminal where
  "term_init = \<lparr>term_rows = [blank], term_col = 0, term_tab = 8,
     term_style = \<lparr>style_fg = TTY_COLOR_WHITE, style_bg = TTY_COLOR_BLACK, style_flags = 0\<rparr>\<rparr>"

lemma tty_putstring_ok:
  "tty_rel t m \<Longrightarrow> \<exists>t'. tty_putstring s t = Inr ((), t') \<and> tty_rel t' (term_string s m) \<and> only_screen t t'"
proof (induction s arbitrary: t m)
  case Nil
  then show ?case by (simp add: term_string_def)
next
  case (Cons c s)
  show ?case
  proof (cases "c = 0")
    case True
    then show ?thesis using Cons.prems by (simp add: term_string_def)
  next
    case False
    obtain t1 where t1: "tty_putchar (scast c) t = Inr ((), t1)" "tty_rel t1 (term_char (scast c) m)" "only_screen t t1"
      using tty_putchar_ok [OF Cons.prems, of "scast c"] by blast
    then show ?thesis
      using Cons.IH [OF t1(2)] False only_screen_trans [OF t1(3)] by (auto simp: thenS_apply term_string_def)
  qed
qed

lemma tty_clear_ok:
  assumes "ring_ok t" "term_tab m < 80" "0 < term_tab m" "tty_tab t = int (term_tab m)" "tty_style t = term_style m"
  shows "\<exists>t'. tty_clear t = Inr ((), t') \<and> tty_rel t' (m\<lparr>term_rows := [blank], term_col := 0\<rparr>) \<and> only_screen t t'"
proof -
  obtain b ring where up: "buffer_row_up t = Inr ((), t\<lparr>tty_buffer_row := b, tty_ring := ring\<rparr>)"
      "ring_ok (t\<lparr>tty_buffer_row := b, tty_ring := ring\<rparr>)"
      "recent (t\<lparr>tty_buffer_row := b, tty_ring := ring\<rparr>) 0 = blank"
    using buffer_row_up_ok [OF assms(1)] by force
  define t' where "t' = t\<lparr>tty_buffer_row := b, tty_ring := ring, video := put_cells 0 (replicate 2000 0) (video t),
      tty_col := 0, tty_row := 0\<rparr>"
  have "tty_clear t = Inr ((), t')"
    using up(1) assms(1) by (simp add: tty_clear_def bindS_apply thenS_apply Let_def write_video_def t'_def ring_ok_def)
  moreover have "recent t' 0 = blank" using up(3) by (simp add: recent_def t'_def)
  moreover have "only_screen t t'" by (auto simp: only_screen_def t'_def put_cells_def)
  moreover have "shown (m\<lparr>term_rows := [blank], term_col := 0\<rparr>) r = blank" for r by (simp add: shown_def)
  moreover have "ring_ok t'" using up(2) by (simp add: ring_ok_def t'_def)
  ultimately show ?thesis
    using assms by (intro exI [of _ t']) (simp add: tty_rel_def t'_def screen_row_clear)
qed

lemma tty_serve_ok:
  assumes rel: "tty_rel t m"
  shows "\<exists>t'. tty_serve r t = Inr ((), t') \<and> tty_rel t' (term_serve r m) \<and> only_screen t t'"
proof (cases r)
  case (Put c)
  then show ?thesis using tty_putchar_ok [OF rel] by simp
next
  case (Put_String s)
  then show ?thesis using tty_putstring_ok [OF rel] by simp
next
  case (Set_Color f b)
  have "shown (m\<lparr>term_style := st\<rparr>) k = shown m k" for st k
    by (cases m) (simp only: shown_def terminal.select_convs terminal.update_convs)
  then show ?thesis
    using rel Set_Color by (simp add: tty_set_color_def tty_rel_def ring_ok_def recent_def only_screen_def)
next
  case (Set_Tab n)
  have "shown (m\<lparr>term_tab := st\<rparr>) k = shown m k" for st k
    by (cases m) (simp only: shown_def terminal.select_convs terminal.update_convs)
  then show ?thesis
    using rel Set_Tab by (simp add: tty_set_tab_size_def tty_rel_def ring_ok_def recent_def only_screen_def nat_less_iff)
next
  case Clear
  then show ?thesis using tty_clear_ok [of t m] rel by (simp add: tty_rel_def)
qed

lemma tty_serve_all_ok:
  "tty_rel t m \<Longrightarrow> \<exists>t'. tty_serve_all rs t = Inr ((), t') \<and> tty_rel t' (fold term_serve rs m) \<and> only_screen t t'"
proof (induction rs arbitrary: t m)
  case (Cons r rs)
  obtain t1 where t1: "tty_serve r t = Inr ((), t1)" "tty_rel t1 (term_serve r m)" "only_screen t t1"
    using tty_serve_ok [OF Cons.prems, of r] by blast
  then show ?case
    using Cons.IH [OF t1(2)] only_screen_trans [OF t1(3)] by (auto simp: thenS_apply)
qed simp

lemma tty_initialize_ok: "\<exists>t'. tty_initialize t = Inr ((), t') \<and> tty_rel t' term_init \<and> only_screen t t'"
proof -
  let ?t = "t\<lparr>tty_row := 0, tty_col := 0, tty_buffer_row := 0, tty_buffer_height := 30, tty_width := 80,
         tty_height := 25, tty_tab := 8,
         tty_style := \<lparr>style_fg = TTY_COLOR_WHITE, style_bg = TTY_COLOR_BLACK, style_flags = 0\<rparr>,
         tty_ring := replicate 30 (replicate 80 0)\<rparr>"
  have "ring_ok ?t" by (simp add: ring_ok_def)
  then obtain t' where "tty_clear ?t = Inr ((), t')" "tty_rel t' (term_init\<lparr>term_rows := [blank], term_col := 0\<rparr>)" "only_screen ?t t'"
    using tty_clear_ok [of ?t term_init] by (auto simp: term_init_def)
  then show ?thesis by (intro exI [of _ t']) (simp add: tty_initialize_def thenS_apply term_init_def only_screen_def)
qed

text \<open>
  Property C30: the terminal is a window on the list of all rows written. From any state, initialisation
  followed by any sequence of calls (characters, strings, colours, tab widths, clearing) succeeds without
  leaving an array; the screen then shows the last 25 rows of a terminal that keeps every row, the cursor
  column agrees, and no cell of video memory outside the screen has changed. The ring of 30 rows is
  therefore enough to scroll from.
\<close>

theorem tty_refines:
  "\<exists>t'. thenS tty_initialize (tty_serve_all rs) t = Inr ((), t') \<and>
    map (screen_row (video t')) [0..<25] = map (shown (fold term_serve rs term_init)) [0..<25] \<and>
    tty_col t' = int (term_col (fold term_serve rs term_init)) \<and> only_screen t t'"
proof -
  obtain t1 where t1: "tty_initialize t = Inr ((), t1)" "tty_rel t1 term_init" "only_screen t t1"
    using tty_initialize_ok by blast
  obtain t2 where t2: "tty_serve_all rs t1 = Inr ((), t2)" "tty_rel t2 (fold term_serve rs term_init)" "only_screen t1 t2"
    using tty_serve_all_ok [OF t1(2)] by blast
  have "only_screen t t2" by (rule only_screen_trans [OF t1(3) t2(3)])
  then show ?thesis using t1(1) t2(1,2) by (intro exI [of _ t2]) (simp add: thenS_apply tty_rel_def)
qed

end
