(* ===== verification/Printk.thy ===== *)
theory Printk imports Tty Memory begin

text \<open>
  Formatted output, \<open>core/printk.c\<close>. Each character goes to the debug port \<open>0xE9\<close> and to the terminal of
  \<open>arch/x64/io/tty.c\<close>. The specification side says which characters a format and its arguments stand for,
  and that numbers can be read back from them.
\<close>

section \<open>Output\<close>

record console =
  con_tty :: tty
  con_port :: "(u16 \<times> u8) list"

type_synonym 'a con_proc = "(console, 'a) kproc"

definition on_tty :: "'a tty_proc \<Rightarrow> 'a con_proc" where
  "on_tty p = (\<lambda>s. mapE (\<lambda>(x, t). (x, s\<lparr>con_tty := t\<rparr>)) (p (con_tty s)))"

text \<open>A \<open>char\<close> has eight bits and is sign-extended to the \<open>uint32_t\<close> of \<open>tty_putchar\<close>.\<close>

definition outb :: "u16 \<Rightarrow> u8 \<Rightarrow> unit con_proc" where
  "outb port data = modifyS (\<lambda>s. s\<lparr>con_port := con_port s @ [(port, data)]\<rparr>)"

definition backend :: "u8 \<Rightarrow> unit con_proc" where
  "backend c = thenS (outb 0xE9 c) (on_tty (tty_putchar (scast c)))"

fun emit :: "u8 list \<Rightarrow> unit con_proc" where
  "emit [] = returnS ()"
| "emit (c # cs) = thenS (backend c) (emit cs)"

abbreviation ch :: "char \<Rightarrow> u8" where "ch c \<equiv> of_char c"

section \<open>Numbers\<close>

text \<open>The loop that fills \<open>str\<close> with the digits, least significant first.\<close>

function dec_digits :: "u64 \<Rightarrow> u8 list" where
  "dec_digits n = (if n = 0 then [] else (ucast (n mod 10) + ch CHR ''0'') # dec_digits (n div 10))"
  by auto
termination
proof (relation "measure unat")
  fix n :: u64 assume "n \<noteq> 0"
  then have "0 < unat n" by (simp add: unat_gt_0)
  then show "(n div 10, n) \<in> measure unat" by (simp add: unat_div)
qed simp

declare dec_digits.simps [simp del]

text \<open>The loop that prints \<open>str\<close> from the end; \<open>len\<close> is the number of characters in it.\<close>

definition print_ulong :: "u64 \<Rightarrow> unit con_proc" where
  "print_ulong n =
     thenS (if n = 0 then backend (ch CHR ''0'') else returnS ())
    (let str = dec_digits n in
     if length str \<le> 25 then emit (rev str) else failS Out_Of_Bounds)"

text \<open>The negation of the least \<open>long\<close> overflows.\<close>

definition print_long :: "u64 \<Rightarrow> unit con_proc" where
  "print_long n =
     (if n <s 0 then
        (if n = 0x8000000000000000 then failS Undefined_Behaviour
         else thenS (backend (ch CHR ''-'')) (print_ulong (- n)))
      else print_ulong n)"

text \<open>The bytes of the string at an address; a memory without a zero byte is never left.\<close>

fun c_string :: "nat \<Rightarrow> mem \<Rightarrow> addr \<Rightarrow> u8 list res" where
  "c_string 0 m s = Inl Diverges"
| "c_string (Suc fuel) m s = (if m s = 0 then Inr [] else mapE (\<lambda>cs. m s # cs) (c_string fuel m (s + 1)))"

definition print_string :: "mem \<Rightarrow> addr \<Rightarrow> unit con_proc" where
  "print_string m s = (case c_string (2 ^ 64) m s of Inl e \<Rightarrow> failS e | Inr cs \<Rightarrow> emit cs)"

fun hex_digits :: "nat \<Rightarrow> u64 \<Rightarrow> u8 list" where
  "hex_digits 0 n = []"
| "hex_digits (Suc len) n = ucast (n mod 16) # hex_digits len (n div 16)"

definition hex_char :: "u8 \<Rightarrow> u8" where
  "hex_char c = (if 0 \<le>s c \<and> c \<le>s 9 then c + ch CHR ''0'' else c - 10 + ch CHR ''A'')"

definition print_hex :: "u64 \<Rightarrow> nat \<Rightarrow> unit con_proc" where
  "print_hex n len =
     thenS (emit [ch CHR ''0'', ch CHR ''x''])
    (if len \<le> 16 then emit (map hex_char (rev (hex_digits len n))) else failS Out_Of_Bounds)"

section \<open>printk\<close>

text \<open>
  The loop over the format. The variable arguments are 64-bit words; taking one more than was passed is
  undefined. An \<open>int\<close> argument is the low half of its word. Further flags: \<open>sp\<close> after a percent sign, \<open>l\<close>
  after its modifier. A conversion that the \<open>switch\<close> does not know is dropped.
\<close>

definition va_arg :: "u64 list \<Rightarrow> (u64 \<Rightarrow> unit con_proc) \<Rightarrow> (u64 list \<Rightarrow> unit con_proc) \<Rightarrow> unit con_proc" where
  "va_arg args f cont = (case args of [] \<Rightarrow> failS Undefined_Behaviour | a # args \<Rightarrow> thenS (f a) (cont args))"

definition int_arg :: "u64 \<Rightarrow> u64" where "int_arg a = scast (ucast a :: u32)"
definition uint_arg :: "u64 \<Rightarrow> u64" where "uint_arg a = ucast (ucast a :: u32)"

fun printk_from :: "mem \<Rightarrow> u8 list \<Rightarrow> bool \<Rightarrow> bool \<Rightarrow> u64 list \<Rightarrow> unit con_proc" where
  "printk_from m [] sp l args = returnS ()"
| "printk_from m (c # fmt) sp l args =
     (if c = 0 then returnS ()
      else if sp then
        (if c = ch CHR ''d'' then
           va_arg args (\<lambda>a. print_long (if l then a else int_arg a)) (printk_from m fmt False l)
         else if c = ch CHR ''u'' then
           va_arg args (\<lambda>a. print_ulong (if l then a else uint_arg a)) (printk_from m fmt False l)
         else if c = ch CHR ''x'' then
           va_arg args (\<lambda>a. if l then print_hex a 16 else print_hex (uint_arg a) 8) (printk_from m fmt False l)
         else if c = ch CHR ''s'' then va_arg args (print_string m) (printk_from m fmt False l)
         else if c = ch CHR ''%'' then thenS (backend (ch CHR ''%'')) (printk_from m fmt False l args)
         else if c = ch CHR ''l'' then printk_from m fmt True True args
         else printk_from m fmt False l args)
      else if c = ch CHR ''%'' then printk_from m fmt True False args
      else thenS (backend c) (printk_from m fmt False l args))"

definition printk :: "mem \<Rightarrow> u8 list \<Rightarrow> u64 list \<Rightarrow> unit con_proc" where
  "printk m fmt args = printk_from m fmt False False args"

section \<open>Reading numbers back\<close>

lemma thenS_return [simp]: "thenS (returnS ()) p = p" "thenS (\<lambda>s. Inr ((), s)) p = p"
  by (rule ext, simp add: thenS_apply)+

lemma thenS_assoc: "thenS (thenS p q) r = thenS p (thenS q r)"
  by (rule ext) (simp add: thenS_apply bindE_assoc case_prod_unfold)

lemma emit_append: "emit (xs @ ys) = thenS (emit xs) (emit ys)"
  by (induction xs) (simp_all add: thenS_assoc)

lemma emit_single: "emit [c] = backend c"
  by (rule ext) (simp add: thenS_apply bindE_def split: sum.splits)

text \<open>The value of a list of digit characters, the most significant first.\<close>

definition digit_value :: "u8 \<Rightarrow> nat option" where
  "digit_value c = (if c \<ge> 48 \<and> c \<le> 57 then Some (unat (c - 48))
     else if c \<ge> 65 \<and> c \<le> 70 then Some (unat (c - 55)) else None)"

fun read_digits :: "nat \<Rightarrow> nat \<Rightarrow> u8 list \<Rightarrow> nat option" where
  "read_digits base acc [] = Some acc"
| "read_digits base acc (c # cs) =
     (case digit_value c of None \<Rightarrow> None
      | Some d \<Rightarrow> if d < base then read_digits base (acc * base + d) cs else None)"

definition read_number :: "nat \<Rightarrow> u8 list \<Rightarrow> nat option" where
  "read_number base cs = (if cs = [] then None else read_digits base 0 cs)"

lemma read_digits_append:
  "read_digits b acc (xs @ ys) = Option.bind (read_digits b acc xs) (\<lambda>a. read_digits b a ys)"
  by (induction xs arbitrary: acc) (simp_all split: option.splits)

lemma small_word:
  assumes "unat (n :: u64) < 16"
  shows "n \<in> {0, 1, 2, 3, 4, 5, 6, 7, 8, 9, 10, 11, 12, 13, 14, 15}"
proof -
  have "unat n \<in> {0, 1, 2, 3, 4, 5, 6, 7, 8, 9, 10, 11, 12, 13, 14, 15}" using assms by simp presburger
  then show ?thesis by (auto simp: word_unat_eq_iff)
qed

lemma unat_mod_10: "unat (n mod 10 :: u64) = unat n mod 10" "unat (n div 10 :: u64) = unat n div 10"
  by (simp_all add: unat_mod_distrib unat_div_distrib)

lemma unat_mod_16: "unat (n mod 16 :: u64) = unat n mod 16" "unat (n div 16 :: u64) = unat n div 16"
  by (simp_all add: unat_mod_distrib unat_div_distrib)

lemma char_codes:
  "ch CHR ''0'' = 48" "ch CHR ''A'' = 65" "ch CHR ''x'' = 120" "ch CHR ''-'' = 45" "ch CHR ''%'' = 37" "ch CHR ''d'' = 100"
  "ch CHR ''u'' = 117" "ch CHR ''s'' = 115" "ch CHR ''l'' = 108"
  by simp_all

lemma digit_value_dec: "unat (n :: u64) < 10 \<Longrightarrow> digit_value (ucast n + ch CHR ''0'') = Some (unat n)"
  using small_word [of n] unfolding char_codes by (auto simp: digit_value_def)

lemma digit_value_hex:
  assumes "unat (n :: u64) < 16"
  shows "digit_value (hex_char (ucast n)) = Some (unat n)"
  using small_word [OF assms] unfolding hex_char_def char_codes insert_iff empty_iff
  by (elim disjE FalseE) (simp_all add: digit_value_def word_sle_eq)

lemma read_dec_digits: "read_digits 10 0 (rev (dec_digits n)) = Some (unat n)"
proof (induction n rule: dec_digits.induct)
  case (1 n)
  show ?case
  proof (cases "n = 0")
    case True
    then show ?thesis by (simp add: dec_digits.simps [of 0])
  next
    case False
    have "digit_value (ucast (n mod 10) + ch CHR ''0'') = Some (unat n mod 10)"
      using digit_value_dec [of "n mod 10"] by (simp add: unat_mod_10)
    then show ?thesis
      using 1 [OF False] False unfolding char_codes by (subst dec_digits.simps) (simp add: read_digits_append unat_mod_10)
  qed
qed

lemma length_dec_digits: "unat n < 10 ^ k \<Longrightarrow> length (dec_digits n) \<le> k"
proof (induction k arbitrary: n)
  case 0
  then have "n = 0" by (simp add: word_unat_eq_iff)
  then show ?case by (simp add: dec_digits.simps)
next
  case (Suc k)
  then have "length (dec_digits (n div 10)) \<le> k" by (intro Suc.IH) (simp add: unat_mod_10 less_mult_imp_div_less mult.commute)
  then show ?case by (subst dec_digits.simps) simp
qed

lemma length_dec_digits_20: "length (dec_digits n) \<le> 20"
  using unat_less_u64 [of n] by (intro length_dec_digits) simp

lemma last_dec_digits: "n \<noteq> 0 \<Longrightarrow> dec_digits n \<noteq> [] \<and> last (dec_digits n) \<noteq> 48"
proof (induction n rule: dec_digits.induct)
  case (1 n)
  show ?case
  proof (cases "n div 10 = 0")
    case True
    then have "unat n div 10 = 0" using unat_mod_10(2) [of n] by simp
    then have "unat n < 10" "n mod 10 = n" using unat_mod_10(1) [of n] by (auto simp: word_unat_eq_iff)
    then show ?thesis
      using small_word [of n] 1(2) True by (auto simp: dec_digits.simps [of n] dec_digits.simps [of 0])
  next
    case False
    then show ?thesis using 1 by (simp add: dec_digits.simps [of n])
  qed
qed

definition decimal :: "u64 \<Rightarrow> u8 list" where
  "decimal n = (if n = 0 then [48] else rev (dec_digits n))"

lemma print_ulong_emit: "print_ulong n = emit (decimal n)"
  using length_dec_digits_20 [of n] emit_single
  by (cases "n = 0") (simp_all add: print_ulong_def decimal_def Let_def dec_digits.simps [of 0] del: emit.simps,
      simp add: fun_eq_iff thenS_apply bindE_def split: sum.splits)

lemma read_decimal: "read_number 10 (decimal n) = Some (unat n)"
  using read_dec_digits [of n] last_dec_digits [of n] by (auto simp: read_number_def decimal_def digit_value_def)

text \<open>
  \<open>print_ulong\<close> prints the number. Its output is at most 20 digits, so the buffer of 25
  characters is enough; they read back as the number, and the first is a zero only for the number 0.
\<close>

theorem print_ulong_roundtrip:
  "\<exists>cs. print_ulong n = emit cs \<and> read_number 10 cs = Some (unat n) \<and> length cs \<le> 20 \<and> (hd cs = 48) = (n = 0)"
proof (intro exI conjI)
  show "print_ulong n = emit (decimal n)" by (rule print_ulong_emit)
  show "read_number 10 (decimal n) = Some (unat n)" by (rule read_decimal)
  show "length (decimal n) \<le> 20" using length_dec_digits_20 [of n] by (simp add: decimal_def)
  show "(hd (decimal n) = 48) = (n = 0)" using last_dec_digits [of n] by (auto simp: decimal_def hd_rev)
qed

definition signed_decimal :: "u64 \<Rightarrow> u8 list" where
  "signed_decimal n = (if n <s 0 then 45 # decimal (- n) else decimal n)"

definition read_signed :: "u8 list \<Rightarrow> int option" where
  "read_signed cs = (case cs of c # cs' \<Rightarrow> if c = 45 then map_option (\<lambda>k. - int k) (read_number 10 cs')
     else map_option int (read_number 10 cs) | [] \<Rightarrow> None)"

lemma uint_of_sint: "0 \<le> sint n \<Longrightarrow> uint n = sint n" "sint n < 0 \<Longrightarrow> uint (- n) = - sint n" for n :: u64
proof -
  have b: "- (2 ^ 63) \<le> sint n" "sint n < 2 ^ 63" using sint_ge [of n] sint_lt [of n] by simp_all
  have n: "n = word_of_int (sint n)" by simp
  show "uint n = sint n" if "0 \<le> sint n"
    using that b by (subst n) (simp add: unsigned_of_int take_bit_int_eq_self del: of_int_sint)
  show "uint (- n) = - sint n" if "sint n < 0"
  proof -
    have "- n = word_of_int (- sint n)" by simp
    then have "uint (- n) = take_bit 64 (- sint n)" by (simp add: unsigned_of_int del: of_int_minus of_int_sint)
    then show ?thesis using that b by (simp add: take_bit_int_eq_self)
  qed
qed

lemma long_min_negative: "(0x8000000000000000 :: u64) <s 0"
  by (simp add: word_sless_alt)

lemma read_decimal_signed: "read_signed (signed_decimal n) = Some (sint n)"
proof (cases "n <s 0")
  case True
  then have "sint n < 0" by (simp add: word_sless_alt)
  then have "int (unat (- n)) = - sint n" using uint_of_sint(2) [of n] by simp
  then show ?thesis
    using True read_decimal [of "- n"] by (simp add: read_signed_def signed_decimal_def)
next
  case False
  then have "int (unat n) = sint n" using uint_of_sint(1) [of n] by (simp add: word_sless_alt)
  moreover obtain c cs where cs: "decimal n = c # cs" using read_decimal [of n] by (cases "decimal n") (auto simp: read_number_def)
  moreover have "c \<noteq> 45" using read_decimal [of n] cs by (auto simp: read_number_def digit_value_def)
  ultimately show ?thesis
    using False read_decimal [of n] by (simp add: read_signed_def signed_decimal_def)
qed

text \<open>
  \<open>print_long\<close> prints every \<open>long\<close> as a sign and digits that read back as its value, except
  for the least one, whose negation overflows before anything is printed.
\<close>

theorem print_long_roundtrip:
  "print_long n = (if n = 0x8000000000000000 then failS Undefined_Behaviour else emit (signed_decimal n)) \<and>
   read_signed (signed_decimal n) = Some (sint n)"
  using read_decimal_signed [of n] long_min_negative
  by (simp add: print_long_def signed_decimal_def print_ulong_emit)

lemma read_hex_digits:
  "read_digits 16 0 (map hex_char (rev (hex_digits len n))) = Some (unat n mod 16 ^ len)"
proof (induction len arbitrary: n)
  case (Suc len)
  have "digit_value (hex_char (ucast (n mod 16))) = Some (unat n mod 16)"
    using digit_value_hex [of "n mod 16"] by (simp add: unat_mod_16)
  then show ?case
    using Suc [of "n div 16"] by (simp add: read_digits_append unat_mod_16 mod_mult2_eq mult.commute)
qed simp

lemma length_hex_digits [simp]: "length (hex_digits len n) = len"
  by (induction len arbitrary: n) simp_all

lemma print_hex_ok:
  assumes "len \<le> 16" "0 < len"
  shows "\<exists>cs. print_hex n len = emit (48 # 120 # cs) \<and> length cs = len \<and> read_number 16 cs = Some (unat n mod 16 ^ len)"
proof (intro exI conjI)
  let ?cs = "map hex_char (rev (hex_digits len n))"
  have "print_hex n len = thenS (emit [48, 120]) (emit ?cs)" using assms by (simp add: print_hex_def)
  then show "print_hex n len = emit (48 # 120 # ?cs)" using emit_append [of "[48, 120]" ?cs] by simp
  show "length ?cs = len" by simp
  have "?cs \<noteq> []" using assms(2) length_hex_digits [of len n] by (metis Nil_is_map_conv Nil_is_rev_conv less_not_refl list.size(3))
  then show "read_number 16 ?cs = Some (unat n mod 16 ^ len)" using read_hex_digits by (simp add: read_number_def)
qed

text \<open>
  \<open>print_hex\<close> prints \<open>0x\<close> and a fixed number of hexadecimal digits, 16 for a \<open>long\<close> and 8
  for an \<open>int\<close>, that read back as the argument.
\<close>

theorem print_hex_roundtrip:
  "(\<exists>cs. print_hex n 16 = emit (48 # 120 # cs) \<and> length cs = 16 \<and> read_number 16 cs = Some (unat n)) \<and>
   (\<exists>cs. print_hex (uint_arg n) 8 = emit (48 # 120 # cs) \<and> length cs = 8 \<and> read_number 16 cs = Some (unat (ucast n :: u32)))"
proof
  have "unat n mod 16 ^ 16 = unat n" using unat_less_u64 [of n] by simp
  then show "\<exists>cs. print_hex n 16 = emit (48 # 120 # cs) \<and> length cs = 16 \<and> read_number 16 cs = Some (unat n)"
    using print_hex_ok [of 16 n] by simp
  have "unat (ucast n :: u32) < 2 ^ LENGTH(32)" by (rule unsigned_less)
  then have "unat (ucast n :: u32) mod 16 ^ 8 = unat (ucast n :: u32)" by simp
  moreover have "unat (uint_arg n) = unat (ucast n :: u32)" by (simp add: uint_arg_def unsigned_ucast_eq unsigned_take_bit_eq)
  ultimately show "\<exists>cs. print_hex (uint_arg n) 8 = emit (48 # 120 # cs) \<and> length cs = 8 \<and>
      read_number 16 cs = Some (unat (ucast n :: u32))"
    using print_hex_ok [of 8 "uint_arg n"] by simp
qed

section \<open>Formats\<close>

text \<open>The parts of a format, how they are written, and what they stand for.\<close>

datatype directive = Literal u8 | Percent | Int_Dec | Uint_Dec | Uint_Hex | Long_Dec | Ulong_Dec | Ulong_Hex | String

fun spelling :: "directive \<Rightarrow> u8 list" where
  "spelling (Literal c) = [c]" | "spelling Percent = [37, 37]" | "spelling Int_Dec = [37, 100]"
| "spelling Uint_Dec = [37, 117]" | "spelling Uint_Hex = [37, 120]" | "spelling Long_Dec = [37, 108, 100]"
| "spelling Ulong_Dec = [37, 108, 117]" | "spelling Ulong_Hex = [37, 108, 120]" | "spelling String = [37, 115]"

definition directive_ok :: "directive \<Rightarrow> bool" where
  "directive_ok d = (case d of Literal c \<Rightarrow> c \<noteq> 0 \<and> c \<noteq> 37 | _ \<Rightarrow> True)"

text \<open>The text of a number in positional notation, from the number itself and the sixteen digit characters.\<close>

definition digit_code :: "nat \<Rightarrow> u8" where
  "digit_code d = of_char (''0123456789ABCDEF'' ! d)"

fun decimal_text :: "nat \<Rightarrow> u8 list" where
  "decimal_text n = (if n < 10 then [digit_code n] else decimal_text (n div 10) @ [digit_code (n mod 10)])"

declare decimal_text.simps [simp del]

definition int_text :: "int \<Rightarrow> u8 list" where
  "int_text i = (if i < 0 then of_char CHR ''-'' # decimal_text (nat (- i)) else decimal_text (nat i))"

definition hex_text :: "nat \<Rightarrow> nat \<Rightarrow> u8 list" where
  "hex_text len n = map of_char ''0x'' @ map (\<lambda>i. digit_code (n div 16 ^ i mod 16)) (rev [0..<len])"

text \<open>
  The text of an argument: an \<open>int\<close> is the low half of its word. \<open>None\<close> where its printing is undefined.
\<close>

definition long_text :: "u64 \<Rightarrow> u8 list option" where
  "long_text a = (if sint a = - (2 ^ 63) then None else Some (int_text (sint a)))"

fun arg_text :: "mem \<Rightarrow> directive \<Rightarrow> u64 \<Rightarrow> u8 list option" where
  "arg_text m Int_Dec a = Some (int_text (sint (ucast a :: u32)))"
| "arg_text m Uint_Dec a = Some (decimal_text (unat (ucast a :: u32)))"
| "arg_text m Uint_Hex a = Some (hex_text 8 (unat (ucast a :: u32)))"
| "arg_text m Long_Dec a = long_text a"
| "arg_text m Ulong_Dec a = Some (decimal_text (unat a))"
| "arg_text m Ulong_Hex a = Some (hex_text 16 (unat a))"
| "arg_text m String a = (case c_string (2 ^ 64) m a of Inl e \<Rightarrow> None | Inr cs \<Rightarrow> Some cs)"
| "arg_text m d a = None"

fun rendering :: "mem \<Rightarrow> directive list \<Rightarrow> u64 list \<Rightarrow> u8 list option" where
  "rendering m [] args = Some []"
| "rendering m (Literal c # ds) args = map_option (\<lambda>t. c # t) (rendering m ds args)"
| "rendering m (Percent # ds) args = map_option (\<lambda>t. 37 # t) (rendering m ds args)"
| "rendering m (d # ds) [] = None"
| "rendering m (d # ds) (a # args) = Option.bind (arg_text m d a) (\<lambda>t. map_option (\<lambda>u. t @ u) (rendering m ds args))"

text \<open>The loops of the code produce these texts.\<close>

lemma digit_code_dec: "unat (n :: u64) < 10 \<Longrightarrow> ucast n + ch CHR ''0'' = digit_code (unat n)"
  using small_word [of n] by (auto simp: digit_code_def)

lemma digit_code_hex:
  assumes "unat (n :: u64) < 16"
  shows "hex_char (ucast n) = digit_code (unat n)"
  using small_word [OF assms] unfolding hex_char_def insert_iff empty_iff
  by (elim disjE FalseE) (simp_all add: digit_code_def word_sle_eq)

lemma dec_digits_text: "n \<noteq> 0 \<Longrightarrow> rev (dec_digits n) = decimal_text (unat n)"
proof (induction n rule: dec_digits.induct)
  case (1 n)
  have d: "ucast (n mod 10) + ch CHR ''0'' = digit_code (unat n mod 10)"
    using digit_code_dec [of "n mod 10"] by (simp add: unat_mod_10)
  have s: "rev (dec_digits n) = rev (dec_digits (n div 10)) @ [digit_code (unat n mod 10)]"
    by (subst dec_digits.simps) (simp only: 1(2) if_False rev.simps d)
  show ?case
  proof (cases "n div 10 = 0")
    case True
    then have "unat n < 10" using unat_mod_10(2) [of n] by simp
    then show ?thesis unfolding s True by (simp add: dec_digits.simps [of 0] decimal_text.simps)
  next
    case False
    then have "\<not> unat n < 10" using unat_mod_10(2) [of n] by (auto simp: word_unat_eq_iff)
    then show ?thesis unfolding s 1(1) [OF 1(2) False] by (subst (2) decimal_text.simps) (simp add: unat_mod_10)
  qed
qed

lemma decimal_text_eq: "decimal n = decimal_text (unat n)"
  using dec_digits_text [of n] by (simp add: decimal_def decimal_text.simps [of 0] digit_code_def)

lemma hex_digits_text:
  "map hex_char (hex_digits len n) = map (\<lambda>i. digit_code (unat n div 16 ^ i mod 16)) [0..<len]"
proof (induction len arbitrary: n)
  case (Suc len)
  have "hex_char (ucast (n mod 16)) = digit_code (unat n mod 16)"
    using digit_code_hex [of "n mod 16"] by (simp add: unat_mod_16)
  moreover have "unat (n div 16) div 16 ^ i = unat n div 16 ^ Suc i" for i by (simp add: unat_mod_16 div_mult2_eq)
  ultimately show ?case
    using Suc [of "n div 16"] by (simp add: upt_conv_Cons map_Suc_upt [symmetric] comp_def del: upt_Suc power_Suc)
qed simp

lemma print_hex_emit:
  assumes "len \<le> 16"
  shows "print_hex n len = emit (hex_text len (unat n))"
proof -
  have "map hex_char (rev (hex_digits len n)) = map (\<lambda>i. digit_code (unat n div 16 ^ i mod 16)) (rev [0..<len])"
    by (simp only: rev_map [symmetric] hex_digits_text)
  then show ?thesis using assms emit_append [of "[48, 120]"] by (simp add: print_hex_def hex_text_def)
qed

lemma signed_decimal_text: "signed_decimal n = int_text (sint n)"
proof (cases "n <s 0")
  case True
  then have "sint n < 0" by (simp add: word_sless_alt)
  moreover from this have "unat (- n) = nat (- sint n)" using uint_of_sint(2) [of n] by (simp add: unat_eq_nat_uint del: uint_nat)
  ultimately show ?thesis using True by (simp add: signed_decimal_def int_text_def decimal_text_eq)
next
  case False
  then have "0 \<le> sint n" by (simp add: word_sless_alt)
  moreover from this have "unat n = nat (sint n)" using uint_of_sint(1) [of n] by (simp add: unat_eq_nat_uint del: uint_nat)
  ultimately show ?thesis using False by (simp add: signed_decimal_def int_text_def decimal_text_eq)
qed

lemma least_long: "sint (a :: u64) = - (2 ^ 63) \<longleftrightarrow> a = 0x8000000000000000"
proof
  assume "sint a = - (2 ^ 63)"
  then have "word_of_int (sint a) = (word_of_int (- (2 ^ 63)) :: u64)" by (rule arg_cong)
  then show "a = 0x8000000000000000" by simp
qed simp

lemma print_long_emit: "long_text a = Some t \<Longrightarrow> print_long a = emit t"
  using print_long_roundtrip [of a] by (auto simp: long_text_def least_long signed_decimal_text split: if_splits)

lemma int_arg_not_least: "int_arg a \<noteq> 0x8000000000000000"
proof
  assume "int_arg a = 0x8000000000000000"
  then have "bit (int_arg a) 62 = bit (0x8000000000000000 :: u64) 62" "bit (int_arg a) 63 = bit (0x8000000000000000 :: u64) 63"
    by simp_all
  then show False by (simp add: int_arg_def bit_simps)
qed

lemma arg_text_args:
  "print_long (int_arg a) = emit (int_text (sint (ucast a :: u32)))" "unat (uint_arg a) = unat (ucast a :: u32)"
proof -
  have "sint (int_arg a) = sint (ucast a :: u32)" unfolding int_arg_def by (rule sint_up_scast) (simp add: is_up)
  then have "long_text (int_arg a) = Some (int_text (sint (ucast a :: u32)))"
    using int_arg_not_least [of a] unfolding long_text_def least_long by simp
  then show "print_long (int_arg a) = emit (int_text (sint (ucast a :: u32)))" by (rule print_long_emit)
  show "unat (uint_arg a) = unat (ucast a :: u32)" by (simp add: uint_arg_def unsigned_ucast_eq unsigned_take_bit_eq)
qed

lemma print_string_emit: "arg_text m String a = Some t \<Longrightarrow> print_string m a = emit t"
  by (auto simp: print_string_def split: sum.splits simp del: c_string.simps)

lemma va_arg_Cons: "f a = emit t \<Longrightarrow> cont args = emit u \<Longrightarrow> va_arg (a # args) f cont = emit (t @ u)"
  by (simp add: va_arg_def emit_append)

lemma printk_from_render:
  "\<forall>d \<in> set ds. directive_ok d \<Longrightarrow> rendering m ds args = Some t \<Longrightarrow>
    printk_from m (concat (map spelling ds)) False l args = emit t"
proof (induction m ds args arbitrary: t l rule: rendering.induct)
qed (auto simp: directive_ok_def bind_eq_Some_conv print_ulong_emit decimal_text_eq print_hex_emit print_long_emit print_string_emit
       arg_text_args intro!: va_arg_Cons)

text \<open>
  Property C31: \<open>printk\<close> prints what its format stands for. For a format made of literal characters and
  conversions, with arguments for all of them, each string argument terminated and no least \<open>long\<close> among the
  signed ones, \<open>printk\<close> emits exactly the rendering: the literals, the numbers in decimal or
  hexadecimal in the width of their type, and the strings.
\<close>

theorem printk_renders:
  assumes "\<forall>d \<in> set ds. directive_ok d" "rendering m ds args = Some t"
  shows "printk m (concat (map spelling ds)) args = emit t"
  unfolding printk_def by (rule printk_from_render [OF assms])

theorem printk_renders_witness:
  "printk (\<lambda>_. 0) [65, 32, 37, 100, 37, 37, 10] [0xFFFFFFFF] = emit [65, 32, 45, 49, 37, 10]"
proof -
  have "int_text (- 1) = [45, 49]" by (simp add: int_text_def decimal_text.simps digit_code_def)
  then have "rendering (\<lambda>_. 0) [Literal 65, Literal 32, Int_Dec, Percent, Literal 10] [0xFFFFFFFF] = Some [65, 32, 45, 49, 37, 10]"
    by simp
  from printk_renders [OF _ this] show ?thesis by (simp add: directive_ok_def)
qed

end
