(* ===== verification/Irq.thy ===== *)
theory Irq imports Printk begin

text \<open>
  Interrupts, \<open>arch/x64/irq.c\<close>: the descriptor table and the table of handlers, the two interrupt
  controllers, and the report of the general exception handler. The addresses of code and of string
  literals are arguments.
\<close>

section \<open>Constants and tables (include/irq.h)\<close>

definition PIC1_CMD :: u16 where "PIC1_CMD = 0x20"
definition PIC1_DATA :: u16 where "PIC1_DATA = 0x21"
definition PIC2_CMD :: u16 where "PIC2_CMD = 0xA0"
definition PIC2_DATA :: u16 where "PIC2_DATA = 0xA1"
definition PIC_EOI :: u8 where "PIC_EOI = 0x20"
definition PIC_INIT :: u8 where "PIC_INIT = 0x11"
definition PIC_MASTER :: u8 where "PIC_MASTER = 0x04"
definition PIC_SLAVE :: u8 where "PIC_SLAVE = 0x02"
definition PIC_8086 :: u8 where "PIC_8086 = 0x01"
definition PIC1_OFFSET :: u8 where "PIC1_OFFSET = 0x20"
definition PIC2_OFFSET :: u8 where "PIC2_OFFSET = 0x28"
definition INT_WRAPPER_ALIGN :: u64 where "INT_WRAPPER_ALIGN = 8"
definition INT_HANDLER_ERRORCODE :: u64 where "INT_HANDLER_ERRORCODE = 1"
definition INT_HANDLER_RETVAL :: u64 where "INT_HANDLER_RETVAL = 2"
definition INT_HANDLER_USER :: u64 where "INT_HANDLER_USER = 4"
definition INT_VECTORS_NUMBER :: nat where "INT_VECTORS_NUMBER = 80"

record idtr =
  idtr_limit :: u16
  idtr_offset :: addr

text \<open>The bit fields \<open>type\<close>, \<open>dpl\<close> and \<open>present\<close> have 5, 2 and 1 bits.\<close>

record idt_entry =
  ie_offset_low :: u16
  ie_selector :: u16
  ie_ist :: u8
  ie_type :: "5 word"
  ie_dpl :: "2 word"
  ie_present :: "1 word"
  ie_offset_middle :: u16
  ie_offset_high :: u32
  ie_reserved :: u32

record idt_model =
  im_offset :: u64
  im_selector :: u16
  im_ist :: u8
  im_type :: u8
  im_dpl :: u8
  im_present :: u8

record idt_handler =
  ih_address :: addr
  ih_flags :: u64

text \<open>The state: both tables, the counter, the table register, the interrupt flag and the console.\<close>

record irq =
  iq_idt :: "idt_entry list"
  iq_handler :: "idt_handler list"
  iq_spurious :: u64
  iq_idtr :: idtr
  iq_enabled :: bool
  iq_console :: console

type_synonym 'a irq_proc = "(irq, 'a) kproc"

definition on_console :: "'a con_proc \<Rightarrow> 'a irq_proc" where
  "on_console p = (\<lambda>s. mapE (\<lambda>(x, c). (x, s\<lparr>iq_console := c\<rparr>)) (p (iq_console s)))"

section \<open>The controllers\<close>

text \<open>The bytes written by \<open>initialize_pic\<close>; what it reads before is dropped.\<close>

definition initialize_pic :: "unit con_proc" where
  "initialize_pic =
     thenS (outb PIC1_CMD PIC_INIT) (thenS (outb PIC2_CMD PIC_INIT)
    (thenS (outb PIC1_DATA PIC1_OFFSET) (thenS (outb PIC2_DATA PIC2_OFFSET)
    (thenS (outb PIC1_DATA PIC_MASTER) (thenS (outb PIC2_DATA PIC_SLAVE)
    (thenS (outb PIC1_DATA PIC_8086) (thenS (outb PIC2_DATA PIC_8086)
    (thenS (outb PIC1_DATA 0xFF) (outb PIC2_DATA 0xFF)))))))))"

text \<open>
  \<open>pic_flip_irq\<close> keeps the port in a variable of type \<open>char\<close>, which is signed, so it is sign-extended when
  it becomes the 16-bit port number again. \<open>inb\<close> gives the byte a port holds.
\<close>

definition pic_flip_irq :: "(u16 \<Rightarrow> u8) \<Rightarrow> int \<Rightarrow> unit con_proc" where
  "pic_flip_irq inb irq =
     (let (port, irq) = (if irq \<ge> 8 then (ucast PIC2_DATA :: u8, irq - 8) else (ucast PIC1_DATA, irq));
          m = inb (scast port)
      in case c_shl1 irq of
           Inl e \<Rightarrow> failS e
         | Inr bit_mask \<Rightarrow> outb (scast port) (m XOR word_of_int bit_mask))"

definition irq_eoi :: "unit con_proc" where "irq_eoi = outb PIC1_CMD PIC_EOI"

section \<open>The tables\<close>

text \<open>\<open>compile_idt\<close>; assignment to a narrower member keeps the low bits.\<close>

definition compile_idt :: "idt_model \<Rightarrow> idt_entry" where
  "compile_idt src = \<lparr>ie_offset_low = ucast (im_offset src), ie_selector = im_selector src, ie_ist = im_ist src,
     ie_type = ucast (im_type src), ie_dpl = ucast (im_dpl src), ie_present = ucast (im_present src),
     ie_offset_middle = ucast (drop_bit 16 (im_offset src)), ie_offset_high = ucast (drop_bit 32 (im_offset src)),
     ie_reserved = 0\<rparr>"

definition create_idt :: "addr \<Rightarrow> unit irq_proc" where
  "create_idt interrupt_wrapper = modifyS (\<lambda>s. s\<lparr>iq_idt :=
     map (\<lambda>i. compile_idt \<lparr>im_offset = interrupt_wrapper + INT_WRAPPER_ALIGN * of_nat i, im_selector = 0x08, im_ist = 0,
       im_type = 0xE, im_dpl = 0, im_present = 0\<rparr>) [0..<INT_VECTORS_NUMBER]\<rparr>)"

text \<open>A table entry has 16 bytes.\<close>

definition load_idt :: "u16 \<Rightarrow> addr \<Rightarrow> unit irq_proc" where
  "load_idt sz idt = modifyS (\<lambda>s. s\<lparr>iq_idtr := \<lparr>idtr_limit = sz - 1, idtr_offset = idt\<rparr>\<rparr>)"

definition set_idt :: "addr \<Rightarrow> unit irq_proc" where
  "set_idt idt = load_idt (16 * of_nat INT_VECTORS_NUMBER) idt"

definition set_irq_handler :: "int \<Rightarrow> addr \<Rightarrow> u64 \<Rightarrow> unit irq_proc" where
  "set_irq_handler irq_number address flags = (\<lambda>s.
     if 0 \<le> irq_number \<and> irq_number < int INT_VECTORS_NUMBER then
       (let i = nat irq_number; e = iq_idt s ! i in
        Inr ((), s\<lparr>iq_handler := (iq_handler s)[i := \<lparr>ih_address = address, ih_flags = flags\<rparr>],
          iq_idt := (iq_idt s)[i := e\<lparr>ie_present := 1, ie_dpl := (if flags AND INT_HANDLER_USER \<noteq> 0 then 3 else 0)\<rparr>]\<rparr>))
     else Inl Out_Of_Bounds)"

definition reset_irq_handler :: "int \<Rightarrow> unit irq_proc" where
  "reset_irq_handler irq_number = (\<lambda>s.
     if 0 \<le> irq_number \<and> irq_number < int INT_VECTORS_NUMBER then
       Inr ((), s\<lparr>iq_idt := (iq_idt s)[nat irq_number := (iq_idt s ! nat irq_number)\<lparr>ie_present := 0\<rparr>]\<rparr>)
     else Inl Out_Of_Bounds)"

text \<open>The loops \<open>for (int i = lo; i <= hi; ++i) set_irq_handler(i, address, flags)\<close>.\<close>

fun set_irq_handlers :: "int list \<Rightarrow> addr \<Rightarrow> u64 \<Rightarrow> unit irq_proc" where
  "set_irq_handlers [] address flags = returnS ()"
| "set_irq_handlers (i # is) address flags =
     thenS (set_irq_handler i address flags) (set_irq_handlers is address flags)"

definition set_handlers :: "addr \<Rightarrow> addr \<Rightarrow> unit irq_proc" where
  "set_handlers generic_exception_handler spurious_interrupt_handler =
     thenS (set_irq_handlers [0..7] generic_exception_handler 0)
    (thenS (set_irq_handlers [8..14] generic_exception_handler INT_HANDLER_ERRORCODE)
    (thenS (set_irq_handlers [16..79] generic_exception_handler 0)
    (set_irq_handler 0x27 spurious_interrupt_handler 0)))"

definition enable_irq :: "unit irq_proc" where "enable_irq = modifyS (\<lambda>s. s\<lparr>iq_enabled := True\<rparr>)"
definition disable_irq :: "unit irq_proc" where "disable_irq = modifyS (\<lambda>s. s\<lparr>iq_enabled := False\<rparr>)"

definition initialize_irq :: "addr \<Rightarrow> addr \<Rightarrow> addr \<Rightarrow> addr \<Rightarrow> unit irq_proc" where
  "initialize_irq idt interrupt_wrapper generic_exception_handler spurious_interrupt_handler =
     thenS (on_console initialize_pic)
    (thenS (create_idt interrupt_wrapper)
    (thenS (set_idt idt)
    (thenS (set_handlers generic_exception_handler spurious_interrupt_handler)
     enable_irq)))"

definition spurious_interrupt_handler :: "unit irq_proc" where
  "spurious_interrupt_handler = modifyS (\<lambda>s. s\<lparr>iq_spurious := iq_spurious s + 1\<rparr>)"

section \<open>The exception report\<close>

text \<open>
  \<open>printk\<close> with a literal format; \<open>lit\<close> gives the address of a string literal, where its characters are in
  the memory \<open>m\<close>. An \<open>int\<close> argument is passed in the low half of its word.
\<close>

definition print :: "mem \<Rightarrow> string \<Rightarrow> u64 list \<Rightarrow> unit con_proc" where
  "print m fmt args = printk m (map of_char fmt) args"

definition print_selector_error :: "mem \<Rightarrow> (string \<Rightarrow> addr) \<Rightarrow> u64 \<Rightarrow> unit con_proc" where
  "print_selector_error m lit error_code =
     (let external = error_code AND 1; typ = drop_bit 1 error_code AND 3;
          selector_index = ucast (ucast (drop_bit 3 error_code) :: u32);
          typestring = (if typ = 0 then ''GDT'' else if typ = 1 \<or> typ = 3 then ''IDT'' else ''LDT'')
      in thenS (if external \<noteq> 0 then print m ''external '' [] else returnS ())
               (print m (''%s selector index %x'' @ [CHR 0x0A]) [lit typestring, selector_index]))"

definition print_page_fault_error :: "mem \<Rightarrow> u64 \<Rightarrow> unit con_proc" where
  "print_page_fault_error m error_code =
     thenS (if error_code AND 1 \<noteq> 0 then print m ''present '' [] else print m ''non-present '' [])
    (thenS (if error_code AND 4 \<noteq> 0 then print m ''usermode '' [] else print m ''kernel '' [])
    (thenS (if error_code AND 2 \<noteq> 0 then print m ''write '' []
            else if error_code AND 16 \<noteq> 0 then print m ''instruction fetch '' []
            else print m ''read '' [])
    (thenS (if error_code AND 8 \<noteq> 0 then print m ''(reserved field set to 1)'' [] else returnS ())
    (print m [CHR 0x0A] []))))"

definition print_error_code_interpretation :: "mem \<Rightarrow> (string \<Rightarrow> addr) \<Rightarrow> u64 \<Rightarrow> u64 \<Rightarrow> unit con_proc" where
  "print_error_code_interpretation m lit interrupt error_code =
     (if interrupt = 10 \<or> interrupt = 11 \<or> interrupt = 12 \<or> interrupt = 13 then print_selector_error m lit error_code
      else if interrupt = 14 then print_page_fault_error m error_code
      else if interrupt = 17 then (if error_code AND 1 \<noteq> 0 then print m ''external'' [] else returnS ())
      else returnS ())"

definition exception_name :: "string list" where
  "exception_name = [''Divide-by-zero Error'', ''Debug'', ''Non-maskable Interrupt'', ''Breakpoint'', ''Overflow'',
     ''Bound Range Exceeded'', ''Invalid Opcode'', ''Device Not Available'', ''Double Fault'',
     ''Coprocessor Segment Overrun'', ''Invalid TSS'', ''Segment Not Present'', ''Stack-Segment Fault'',
     ''General Protection Fault'', ''Page Fault'', ''Reserved'', ''x87 Floating-Point Exception'', ''Alignment Check'',
     ''Machine Check'', ''SIMD Floating-Point Exception'', ''Virtualization Exception'', ''Reserved'', ''Reserved'',
     ''Reserved'', ''Reserved'', ''Reserved'', ''Reserved'', ''Reserved'', ''Reserved'', ''Reserved'', ''Security Exception'']"

text \<open>Two names per bit, clear and set; \<open>None\<close> is \<open>NULL\<close>.\<close>

definition flag_name :: "string option list" where
  "flag_name = [Some ''cf'', Some ''CF'', None, None, Some ''pf'', Some ''PF'', None, None, Some ''af'', Some ''AF'', None, None,
     Some ''zf'', Some ''ZF'', Some ''sf'', Some ''SF'', Some ''tf'', Some ''TF'', Some ''if'', Some ''IF'', Some ''df'', Some ''DF'',
     Some ''of'', Some ''OF'', None, None, None, None, Some ''nt'', Some ''NT'', None, None, Some ''rf'', Some ''RF'',
     Some ''vm'', Some ''VM'', Some ''ac'', Some ''AC'', Some ''vif'', Some ''VIF'', Some ''vip'', Some ''VIP'', Some ''id'', Some ''ID'']"

text \<open>The body of the loop over the bits of \<open>RFLAGS\<close>, and the loop from bit \<open>i - 1\<close> down.\<close>

definition print_flag :: "mem \<Rightarrow> (string \<Rightarrow> addr) \<Rightarrow> u64 \<Rightarrow> nat \<Rightarrow> unit con_proc" where
  "print_flag m lit rflags i =
     (let index = 2 * i + (if rflags AND push_bit i 1 \<noteq> 0 then 1 else 0)
      in thenS (if i = 12 then print m ''IOPL=%d '' [drop_bit 12 rflags AND 3] else returnS ())
        (if index < length flag_name
         then (case flag_name ! index of None \<Rightarrow> returnS () | Some name \<Rightarrow> print m ''%s '' [lit name])
         else failS Out_Of_Bounds))"

fun print_flags :: "mem \<Rightarrow> (string \<Rightarrow> addr) \<Rightarrow> u64 \<Rightarrow> nat \<Rightarrow> unit con_proc" where
  "print_flags m lit rflags 0 = returnS ()"
| "print_flags m lit rflags (Suc i) = thenS (print_flag m lit rflags i) (print_flags m lit rflags i)"

text \<open>
  \<open>exception_report\<close> is \<open>generic_exception_handler\<close> up to the endless loop at its end. \<open>regs\<close> is the address of
  the saved registers on the stack \<open>stk\<close>: \<open>rax\<close> to \<open>r15\<close>, the interrupt number, then the error code, if there
  is one, and the frame of the processor.
\<close>

definition report_state :: "mem \<Rightarrow> (string \<Rightarrow> addr) \<Rightarrow> (addr \<Rightarrow> u64) \<Rightarrow> u64 \<Rightarrow> addr \<Rightarrow> u64 \<Rightarrow> bool \<Rightarrow> unit con_proc" where
  "report_state m lit stk cr2 regs error_code with_code =
     (let reg = (\<lambda>k. stk (regs + 8 * of_nat k)); nl = [CHR 0x0A];
          frame = regs + 8 * 16 + (if with_code then 8 else 0);
          cell = (\<lambda>k. stk (frame + 8 * of_nat k)); rflags = cell 2 in
     thenS (if with_code then thenS (print m (''Error code %lx'' @ nl) [error_code])
              (print_error_code_interpretation m lit (reg 15) error_code) else returnS ())
    (thenS (print m (''RAX = %lx    RBX = %lx    RCX = %lx'' @ nl) [reg 0, reg 1, reg 2])
    (thenS (print m (''RDX = %lx    RSI = %lx    RDI = %lx'' @ nl) [reg 3, reg 4, reg 5])
    (thenS (print m (''RBP = %lx     R8 = %lx     R9 = %lx'' @ nl) [reg 6, reg 7, reg 8])
    (thenS (print m (''R10 = %lx    R11 = %lx    R12 = %lx'' @ nl) [reg 9, reg 10, reg 11])
    (thenS (print m (''R13 = %lx    R14 = %lx    R15 = %lx'' @ nl) [reg 12, reg 13, reg 14])
    (thenS (print m (''RIP = %lx     CS = %lx'' @ nl) [cell 0, cell 1])
    (thenS (print m (''RSP = %lx     SS = %lx'' @ nl) [cell 3, cell 4])
    (thenS (print m ''RFLAGS: '' [])
    (thenS (print_flags m lit rflags 22)
    (thenS (print m (nl @ ''CR2 = %lx'' @ nl) [cr2])
    (print m (''System halted'' @ nl) []))))))))))))"

definition exception_report :: "mem \<Rightarrow> (string \<Rightarrow> addr) \<Rightarrow> (addr \<Rightarrow> u64) \<Rightarrow> u64 \<Rightarrow> addr \<Rightarrow> u64 \<Rightarrow> unit irq_proc" where
  "exception_report m lit stk cr2 regs error_code =
     (let irq = stk (regs + 120) in
     thenS disable_irq
    (thenS (if unat irq < length exception_name
            then on_console (print m (''Exception #%ld occured: %s'' @ [CHR 0x0A]) [irq, lit (exception_name ! unat irq)])
            else failS Out_Of_Bounds)
    (bindS (getsS iq_handler) (\<lambda>handlers.
     if \<not> unat irq < length handlers then failS Out_Of_Bounds
     else on_console (report_state m lit stk cr2 regs error_code
       (ih_flags (handlers ! unat irq) AND INT_HANDLER_ERRORCODE \<noteq> 0))))))"

definition generic_exception_handler :: "mem \<Rightarrow> (string \<Rightarrow> addr) \<Rightarrow> (addr \<Rightarrow> u64) \<Rightarrow> u64 \<Rightarrow> addr \<Rightarrow> u64 \<Rightarrow> unit irq_proc" where
  "generic_exception_handler m lit stk cr2 regs error_code =
     thenS (exception_report m lit stk cr2 regs error_code) (failS Diverges)"

section \<open>Descriptors\<close>

definition entry_offset :: "idt_entry \<Rightarrow> u64" where
  "entry_offset e = ucast (ie_offset_low e) OR push_bit 16 (ucast (ie_offset_middle e)) OR push_bit 32 (ucast (ie_offset_high e))"

lemma compile_idt_offset: "entry_offset (compile_idt src) = im_offset src"
proof (rule bit_word_eqI)
  show "bit (entry_offset (compile_idt src)) n = bit (im_offset src) n" if "n < LENGTH(64)" for n
    using that by (cases "n < 16"; cases "n < 32") (auto simp: entry_offset_def compile_idt_def bit_simps)
qed

text \<open>
  \<open>compile_idt\<close> spreads the whole 64-bit entry point over the three offset fields of a gate,
  from which it reads back, and keeps the gate type, the privilege level and the present bit of a model
  whose values fit the fields.
\<close>

theorem compile_idt_roundtrip:
  assumes "im_type src < 32" "im_dpl src < 4" "im_present src < 2"
  shows "entry_offset (compile_idt src) = im_offset src \<and> ucast (ie_type (compile_idt src)) = im_type src \<and>
    ucast (ie_dpl (compile_idt src)) = im_dpl src \<and> ucast (ie_present (compile_idt src)) = im_present src \<and>
    ie_selector (compile_idt src) = im_selector src"
proof -
  have fits: "take_bit k x = x" if "x < 2 ^ k" "k < 8" for x :: u8 and k
    using that by (simp add: less_mask_eq take_bit_eq_mask)
  have "take_bit 5 (im_type src) = im_type src" "take_bit 2 (im_dpl src) = im_dpl src" "take_bit 1 (im_present src) = im_present src"
    by (rule fits; use assms in simp)+
  moreover have "ucast (ucast x :: 5 word) = take_bit 5 x" "ucast (ucast x :: 2 word) = take_bit 2 x"
      "ucast (ucast x :: 1 word) = take_bit 1 x" for x :: u8
    by (rule bit_word_eqI, auto simp: bit_simps bit_0)+
  ultimately show ?thesis using compile_idt_offset by (simp add: compile_idt_def)
qed

theorem compile_idt_roundtrip_witness:
  "entry_offset (compile_idt \<lparr>im_offset = 0xFFFFFFFF80101238, im_selector = 8, im_ist = 0, im_type = 0xE, im_dpl = 3, im_present = 1\<rparr>)
    = 0xFFFFFFFF80101238"
  using compile_idt_roundtrip [of "\<lparr>im_offset = 0xFFFFFFFF80101238, im_selector = 8, im_ist = 0, im_type = 0xE, im_dpl = 3, im_present = 1\<rparr>"]
  by simp

section \<open>The initialised tables\<close>

text \<open>What the loops of \<open>set_handlers\<close> leave at an index.\<close>

definition put_all :: "int list \<Rightarrow> ('a \<Rightarrow> 'a) \<Rightarrow> 'a list \<Rightarrow> 'a list" where
  "put_all is f xs = map (\<lambda>j. if int j \<in> set is then f (xs ! j) else xs ! j) [0..<length xs]"

lemma put_all_nth [simp]: "j < length xs \<Longrightarrow> put_all is f xs ! j = (if int j \<in> set is then f (xs ! j) else xs ! j)"
  by (simp add: put_all_def)

lemma put_all_length [simp]: "length (put_all is f xs) = length xs"
  by (simp add: put_all_def)

lemma put_all_Nil [simp]: "put_all [] f xs = xs"
  by (rule nth_equalityI) simp_all

lemma put_all_Cons:
  assumes "0 \<le> i" "\<And>x. f (f x) = f x"
  shows "put_all is f (xs[nat i := f (xs ! nat i)]) = put_all (i # is) f xs"
  using assms by (intro nth_equalityI) (auto simp: nth_list_update)

definition opened :: "u64 \<Rightarrow> idt_entry \<Rightarrow> idt_entry" where
  "opened flags e = e\<lparr>ie_present := 1, ie_dpl := (if flags AND INT_HANDLER_USER \<noteq> 0 then 3 else 0)\<rparr>"

lemma opened_simps [simp]:
  "entry_offset (opened flags e) = entry_offset e" "ie_selector (opened flags e) = ie_selector e"
  "ie_type (opened flags e) = ie_type e" "ie_ist (opened flags e) = ie_ist e" "ie_reserved (opened flags e) = ie_reserved e"
  "ie_present (opened flags e) = 1" "opened flags (opened flags e) = opened flags e"
  "ie_dpl (opened flags e) = (if flags AND INT_HANDLER_USER \<noteq> 0 then 3 else 0)"
  by (simp_all add: opened_def entry_offset_def)

lemma set_irq_handler_run:
  assumes "0 \<le> i" "i < 80"
  shows "set_irq_handler i address flags s = Inr ((),
    s\<lparr>iq_handler := (iq_handler s)[nat i := \<lparr>ih_address = address, ih_flags = flags\<rparr>],
      iq_idt := (iq_idt s)[nat i := opened flags (iq_idt s ! nat i)]\<rparr>)"
  using assms by (simp add: set_irq_handler_def INT_VECTORS_NUMBER_def opened_def Let_def)

lemma set_irq_handlers_run:
  assumes "\<forall>i\<in>set is. 0 \<le> i \<and> i < 80"
  shows "set_irq_handlers is address flags s = Inr ((),
    s\<lparr>iq_handler := put_all is (\<lambda>_. \<lparr>ih_address = address, ih_flags = flags\<rparr>) (iq_handler s),
      iq_idt := put_all is (opened flags) (iq_idt s)\<rparr>)"
  using assms
proof (induction "is" arbitrary: s)
  case Nil
  then show ?case by simp
next
  case (Cons i "is")
  have i: "0 \<le> i" "i < 80" using Cons.prems by auto
  have "put_all is (\<lambda>_. h) (xs[nat i := h]) = put_all (i # is) (\<lambda>_. h) xs" for h :: idt_handler and xs
    using put_all_Cons [of i "\<lambda>_. h"] i by simp
  then show ?case using Cons.IH Cons.prems i put_all_Cons [of i "opened flags"]
    by (simp add: thenS_apply set_irq_handler_run)
qed

text \<open>The four updates of a table by \<open>set_handlers\<close>.\<close>

definition table_after :: "('a \<Rightarrow> 'a) \<Rightarrow> ('a \<Rightarrow> 'a) \<Rightarrow> ('a \<Rightarrow> 'a) \<Rightarrow> 'a list \<Rightarrow> 'a list" where
  "table_after f g h xs = (let ys = put_all [16..79] f (put_all [8..14] g (put_all [0..7] f xs)) in ys[39 := h (ys ! 39)])"

lemma table_after_length: "length (table_after f g h xs) = length xs"
  by (simp add: table_after_def Let_def)

lemma table_after_nth:
  assumes "length xs = 80" "i < 80"
  shows "table_after f g h xs ! i = (if i = 15 then xs ! 15 else if i = 39 then h (f (xs ! 39))
    else if 8 \<le> i \<and> i \<le> 14 then g (xs ! i) else f (xs ! i))"
  using assms by (auto simp add: table_after_def Let_def nth_list_update simp del: upto_rec_numeral)

lemma set_handlers_run:
  "set_handlers g sp s = Inr ((),
    s\<lparr>iq_handler := table_after (\<lambda>_. \<lparr>ih_address = g, ih_flags = 0\<rparr>) (\<lambda>_. \<lparr>ih_address = g, ih_flags = INT_HANDLER_ERRORCODE\<rparr>)
        (\<lambda>_. \<lparr>ih_address = sp, ih_flags = 0\<rparr>) (iq_handler s),
      iq_idt := table_after (opened 0) (opened INT_HANDLER_ERRORCODE) (opened 0) (iq_idt s)\<rparr>)"
proof -
  have r: "set_irq_handlers [a..b] address flags s = Inr ((),
      s\<lparr>iq_handler := put_all [a..b] (\<lambda>_. \<lparr>ih_address = address, ih_flags = flags\<rparr>) (iq_handler s),
        iq_idt := put_all [a..b] (opened flags) (iq_idt s)\<rparr>)" if "0 \<le> a" "b < 80" for a b address flags s
    using that by (intro set_irq_handlers_run) auto
  show ?thesis
    by (simp add: set_handlers_def thenS_apply r set_irq_handler_run table_after_def Let_def del: upto_rec_numeral)
qed

lemma compile_idt_simps:
  "ie_selector (compile_idt src) = im_selector src" "ie_type (compile_idt src) = ucast (im_type src)"
  "ie_ist (compile_idt src) = im_ist src" "ie_reserved (compile_idt src) = 0" "ie_dpl (compile_idt src) = ucast (im_dpl src)"
  "ie_present (compile_idt src) = ucast (im_present src)"
  by (simp_all add: compile_idt_def)

lemma create_idt_run:
  "create_idt w s = Inr ((), s\<lparr>iq_idt := map (\<lambda>i. compile_idt \<lparr>im_offset = w + 8 * of_nat i, im_selector = 0x08, im_ist = 0,
     im_type = 0xE, im_dpl = 0, im_present = 0\<rparr>) [0..<80]\<rparr>)"
  by (simp add: create_idt_def INT_VECTORS_NUMBER_def INT_WRAPPER_ALIGN_def)

lemma on_console_thenS: "on_console (thenS p q) = thenS (on_console p) (on_console q)"
  by (rule ext) (auto simp: on_console_def thenS_apply mapE_def bindE_def split: sum.splits)

lemma on_console_outb: "on_console (outb port data) = modifyS (\<lambda>s. s\<lparr>iq_console := (iq_console s)\<lparr>con_port :=
    con_port (iq_console s) @ [(port, data)]\<rparr>\<rparr>)"
  by (rule ext) (simp add: on_console_def outb_def)

text \<open>The bytes that program the two controllers.\<close>

definition pic_setup :: "(u16 \<times> u8) list" where
  "pic_setup = [(0x20, 0x11), (0xA0, 0x11), (0x21, 0x20), (0xA1, 0x28), (0x21, 4), (0xA1, 2), (0x21, 1), (0xA1, 1),
     (0x21, 0xFF), (0xA1, 0xFF)]"

lemma initialize_pic_run:
  "on_console initialize_pic s = Inr ((), s\<lparr>iq_console := (iq_console s)\<lparr>con_port := con_port (iq_console s) @ pic_setup\<rparr>\<rparr>)"
  by (cases s; cases "iq_console s") (simp add: initialize_pic_def on_console_thenS on_console_outb thenS_apply pic_setup_def
      PIC1_CMD_def PIC2_CMD_def PIC1_DATA_def PIC2_DATA_def PIC_INIT_def PIC1_OFFSET_def PIC2_OFFSET_def PIC_MASTER_def
      PIC_SLAVE_def PIC_8086_def)


definition example_tty :: tty where
  "example_tty = \<lparr>tty_row = 0, tty_col = 0, tty_width = 80, tty_height = 25, tty_buffer_row = 0, tty_buffer_height = 30,
     tty_tab = 8, tty_style = \<lparr>style_fg = TTY_COLOR_LIGHT_GREY, style_bg = TTY_COLOR_BLACK, style_flags = 0\<rparr>,
     tty_ring = replicate 30 (replicate 80 0), video = \<lambda>_. 0\<rparr>"

definition example_irq :: irq where
  "example_irq = \<lparr>iq_idt = [], iq_handler = replicate 80 \<lparr>ih_address = 0, ih_flags = 0\<rparr>, iq_spurious = 0,
     iq_idtr = \<lparr>idtr_limit = 0, idtr_offset = 0\<rparr>, iq_enabled = False,
     iq_console = \<lparr>con_tty = example_tty, con_port = []\<rparr>\<rparr>"


text \<open>
  The general exception handler, which \<open>set_handlers\<close> installs for vectors up to 79, looks the
  name of the exception up in a table of 31 names: for a vector from 31 on the lookup is out of bounds, so
  the report is never printed.
\<close>

theorem unnamed_exception_out_of_bounds:
  assumes "length exception_name \<le> unat (stk (regs + 120))"
  shows "generic_exception_handler m lit stk cr2 regs error_code s = Inl Out_Of_Bounds"
  using assms by (simp add: generic_exception_handler_def exception_report_def thenS_apply disable_irq_def Let_def)

theorem unnamed_exception_out_of_bounds_witness:
  "generic_exception_handler (\<lambda>_. 0) (\<lambda>_. 0) (\<lambda>_. 32) 0 0x8000 0 example_irq = Inl Out_Of_Bounds"
  using unnamed_exception_out_of_bounds [where stk = "\<lambda>_. 32" and regs = "0x8000"] by (simp add: exception_name_def)

text \<open>
  \<open>pic_flip_irq\<close> flips the mask bit of a line of the first controller; for a line of the second
  one it reads and writes port \<open>0xFFA1\<close> instead of \<open>0xA1\<close>, so the mask of that controller never changes.
\<close>

theorem pic_flip_irq_ports:
  assumes "0 \<le> irq" "irq < 16"
  shows "pic_flip_irq inb irq s = Inr ((), s\<lparr>con_port := con_port s @
    [if irq < 8 then (PIC1_DATA, inb PIC1_DATA XOR push_bit (nat irq) 1)
     else (PIC2_DATA + 0xFF00, inb (PIC2_DATA + 0xFF00) XOR push_bit (nat irq - 8) 1)]\<rparr>)"
proof (cases "irq < 8")
  case True
  then show ?thesis using assms
    by (simp add: pic_flip_irq_def c_shl1_ok outb_def PIC1_DATA_def push_bit_eq_mult)
next
  case False
  have port: "(- 95 :: u16) = 65441" by simp
  show ?thesis using assms False
    by (simp add: port pic_flip_irq_def c_shl1_ok outb_def PIC2_DATA_def push_bit_eq_mult nat_diff_distrib)
qed

theorem pic_flip_irq_ports_witness:
  "pic_flip_irq (\<lambda>_. 0xFF) 1 (iq_console example_irq) = Inr ((), (iq_console example_irq)\<lparr>con_port := [(0x21, 0xFD)]\<rparr>)"
  using pic_flip_irq_ports [of 1 "\<lambda>_. 0xFF" "iq_console example_irq"] by (simp add: example_irq_def PIC1_DATA_def)

end
