(* ===== verification/Console.thy ===== *)
theory Console imports Printk begin

text \<open>
  The console as a whole: what \<open>core/printk.c\<close> and \<open>arch/x64/io/tty.c\<close> do together. Text that is printed
  reaches the debug port byte by byte and the terminal of the specification of \<open>Tty\<close>; and a call of
  \<open>printk\<close> whose arguments fit its format returns.
\<close>

section \<open>Printing a text\<close>

definition shows_text :: "unit con_proc \<Rightarrow> u8 list \<Rightarrow> bool" where
  "shows_text p t \<longleftrightarrow> (\<forall>c a. tty_rel (con_tty c) a \<longrightarrow> (\<exists>t'. p c = Inr ((), c\<lparr>con_tty := t',
     con_port := con_port c @ map (Pair 0xE9) t\<rparr>) \<and> tty_rel t' (fold (\<lambda>x. term_char (scast x)) t a)))"

lemma shows_text_backend: "shows_text (backend x) [x]"
  unfolding shows_text_def
proof (intro allI impI)
  fix c :: console and a assume "tty_rel (con_tty c) a"
  then obtain t' where "tty_putchar (scast x) (con_tty c) = Inr ((), t')" "tty_rel t' (term_char (scast x) a)"
    using tty_putchar_ok by blast
  then show "\<exists>t'. backend x c = Inr ((), c\<lparr>con_tty := t', con_port := con_port c @ map (Pair 0xE9) [x]\<rparr>) \<and>
      tty_rel t' (fold (\<lambda>x. term_char (scast x)) [x] a)"
    by (intro exI [of _ t']) (simp add: backend_def outb_def on_tty_def thenS_apply)
qed

lemma shows_text_thenS:
  assumes p: "shows_text p t" and q: "shows_text q u"
  shows "shows_text (thenS p q) (t @ u)"
  unfolding shows_text_def
proof (intro allI impI)
  fix c :: console and a assume "tty_rel (con_tty c) a"
  then obtain t1 where 1: "p c = Inr ((), c\<lparr>con_tty := t1, con_port := con_port c @ map (Pair 0xE9) t\<rparr>)"
      "tty_rel t1 (fold (\<lambda>x. term_char (scast x)) t a)"
    using p unfolding shows_text_def by blast
  define c1 where "c1 = c\<lparr>con_tty := t1, con_port := con_port c @ map (Pair 0xE9) t\<rparr>"
  have "tty_rel (con_tty c1) (fold (\<lambda>x. term_char (scast x)) t a)" using 1(2) by (simp add: c1_def)
  then obtain t2 where 2: "q c1 = Inr ((), c1\<lparr>con_tty := t2, con_port := con_port c1 @ map (Pair 0xE9) u\<rparr>)"
      "tty_rel t2 (fold (\<lambda>x. term_char (scast x)) u (fold (\<lambda>x. term_char (scast x)) t a))"
    using q unfolding shows_text_def by blast
  then show "\<exists>t'. thenS p q c = Inr ((), c\<lparr>con_tty := t', con_port := con_port c @ map (Pair 0xE9) (t @ u)\<rparr>) \<and>
      tty_rel t' (fold (\<lambda>x. term_char (scast x)) (t @ u) a)"
    using 1(1) 2 by (intro exI [of _ t2]) (simp add: thenS_apply c1_def)
qed

lemma shows_text_Nil: "shows_text (returnS ()) []"
  unfolding shows_text_def
proof (intro allI impI)
  fix c :: console and a assume "tty_rel (con_tty c) a"
  then show "\<exists>t'. returnS () c = Inr ((), c\<lparr>con_tty := t', con_port := con_port c @ map (Pair 0xE9) []\<rparr>) \<and>
      tty_rel t' (fold (\<lambda>x. term_char (scast x)) [] a)"
    by (intro exI [of _ "con_tty c"]) simp
qed

lemma shows_text_emit: "shows_text (emit t) t"
proof (induction t)
  case (Cons x t)
  then show ?case using shows_text_thenS [OF shows_text_backend [of x] Cons.IH] by simp
qed (use shows_text_Nil in \<open>simp add: returnS_def\<close>)

text \<open>
  Property C32: formatted output arrives. On a working terminal a call of \<open>printk\<close> whose format and arguments
  have a rendering returns; the bytes of the rendering have gone to the debug port in order, and the terminal
  is the one that was given these characters.
\<close>

theorem printk_on_console:
  assumes "\<forall>d \<in> set ds. directive_ok d" "rendering m ds args = Some t" "tty_rel (con_tty c) a"
  shows "\<exists>c'. printk m (concat (map spelling ds)) args c = Inr ((), c') \<and>
    con_port c' = con_port c @ map (Pair 0xE9) t \<and> tty_rel (con_tty c') (fold (\<lambda>x. term_char (scast x)) t a)"
proof -
  have "printk m (concat (map spelling ds)) args = emit t"
    unfolding printk_def by (rule printk_from_render [OF assms(1,2)])
  then show ?thesis using shows_text_emit [of t] assms(3) unfolding shows_text_def by fastforce
qed

theorem printk_on_console_witness:
  "\<exists>c c'. printk (\<lambda>_. 0) [65, 37, 117] [7] c = Inr ((), c') \<and> con_port c' = [(0xE9, 65), (0xE9, 55)]"
proof -
  obtain t where t: "tty_rel t term_init" using tty_initialize_ok by blast
  have "rendering (\<lambda>_. 0) [Literal 65, Uint_Dec] [7] = Some [65, 55]"
    by (simp add: decimal_text.simps digit_code_def)
  from printk_on_console [OF _ this, of "\<lparr>con_tty = t, con_port = []\<rparr>" term_init] t show ?thesis
    by (fastforce simp: directive_ok_def)
qed

section \<open>The text of a call\<close>

text \<open>The text of a format given as characters; \<open>None\<close> where an argument is missing or has no text.\<close>

fun format_text :: "mem \<Rightarrow> u8 list \<Rightarrow> bool \<Rightarrow> bool \<Rightarrow> u64 list \<Rightarrow> u8 list option" where
  "format_text m [] sp l args = Some []"
| "format_text m (c # fmt) sp l args =
     (if c = 0 then Some []
      else if sp then
        (let arg = (\<lambda>d. case args of [] \<Rightarrow> None
             | a # args \<Rightarrow> Option.bind (arg_text m d a) (\<lambda>t. map_option (\<lambda>u. t @ u) (format_text m fmt False l args))) in
         if c = ch CHR ''d'' then arg (if l then Long_Dec else Int_Dec)
         else if c = ch CHR ''u'' then arg (if l then Ulong_Dec else Uint_Dec)
         else if c = ch CHR ''x'' then arg (if l then Ulong_Hex else Uint_Hex)
         else if c = ch CHR ''s'' then arg String
         else if c = ch CHR ''%'' then map_option (\<lambda>u. 37 # u) (format_text m fmt False l args)
         else if c = ch CHR ''l'' then format_text m fmt True True args
         else format_text m fmt False l args)
      else if c = ch CHR ''%'' then format_text m fmt True False args
      else map_option (\<lambda>u. c # u) (format_text m fmt False l args))"

lemma va_arg_text:
  assumes "(case args of [] \<Rightarrow> None | a # args \<Rightarrow> Option.bind (arg_text m d a) (\<lambda>t. map_option (\<lambda>u. t @ u) (rest args))) = Some t"
    and "\<And>a t. arg_text m d a = Some t \<Longrightarrow> f a = emit t" and "\<And>args t. rest args = Some t \<Longrightarrow> cont args = emit t"
  shows "va_arg args f cont = emit t"
proof (cases args)
  case (Cons a as)
  then obtain x y where "arg_text m d a = Some x" "rest as = Some y" "t = x @ y" using assms(1) by (auto simp: bind_eq_Some_conv)
  then show ?thesis using Cons va_arg_Cons [OF assms(2) assms(3)] by simp
qed (use assms(1) in simp)

lemma printk_from_text: "format_text m fmt sp l args = Some t \<Longrightarrow> printk_from m fmt sp l args = emit t"
proof (induction fmt arbitrary: sp l args t)
  case (Cons c fmt)
  note IH = Cons.IH
  have num: "\<And>a t. arg_text m (if l then Long_Dec else Int_Dec) a = Some t \<Longrightarrow> print_long (if l then a else int_arg a) = emit t"
      "\<And>a t. arg_text m (if l then Ulong_Dec else Uint_Dec) a = Some t \<Longrightarrow> print_ulong (if l then a else uint_arg a) = emit t"
      "\<And>a t. arg_text m (if l then Ulong_Hex else Uint_Hex) a = Some t \<Longrightarrow>
        (if l then print_hex a 16 else print_hex (uint_arg a) 8) = emit t"
    by (cases l; auto simp: print_ulong_emit decimal_text_eq print_hex_emit print_long_emit arg_text_args)+
  consider "c = 0 \<or> \<not> sp" | "c \<noteq> 0" "sp" "c = ch CHR ''d''" | "c \<noteq> 0" "sp" "c = ch CHR ''u''" | "c \<noteq> 0" "sp" "c = ch CHR ''x''"
    | "c \<noteq> 0" "sp" "c = ch CHR ''s''"
    | "c \<noteq> 0" "sp" "c \<noteq> ch CHR ''d''" "c \<noteq> ch CHR ''u''" "c \<noteq> ch CHR ''x''" "c \<noteq> ch CHR ''s''"
    by blast
  then show ?case
  proof cases
    case 1
    then show ?thesis using Cons by (auto split: if_splits)
  next
    case 2
    show ?thesis using Cons.prems 2 by (simp del: arg_text.simps) (erule va_arg_text; (rule num IH; assumption))
  next
    case 3
    show ?thesis using Cons.prems 3 by (simp del: arg_text.simps) (erule va_arg_text; (rule num IH; assumption))
  next
    case 4
    show ?thesis using Cons.prems 4 by (simp del: arg_text.simps) (erule va_arg_text; (rule num IH; assumption))
  next
    case 5
    show ?thesis using Cons.prems 5 by (simp del: arg_text.simps) (erule va_arg_text; (rule print_string_emit IH; assumption))
  next
    case 6
    show ?thesis using Cons.prems 6 IH by (auto simp del: arg_text.simps split: if_splits)
  qed
qed simp

lemma shows_format: "format_text m fmt False False args = Some t \<Longrightarrow> shows_text (printk m fmt args) t"
  unfolding printk_def using printk_from_text [of m fmt False False args t] shows_text_emit [of t] by simp

end
