(* ===== verification/Exceptions.thy ===== *)
theory Exceptions imports Irq Console begin

text \<open>
  The report of the general exception handler of \<open>arch/x64/irq.c\<close>: what it prints, written down from the saved state
  and the manual of the processor, and that the handler prints exactly that on a working console.
\<close>

section \<open>The report\<close>

abbreviation bytes :: "string \<Rightarrow> u8 list" where "bytes s \<equiv> map of_char s"

definition hex64 :: "u64 \<Rightarrow> u8 list" where "hex64 a = hex_text 16 (unat a)"

text \<open>A line of values with their names.\<close>

fun labelled :: "(string \<times> u64) list \<Rightarrow> u8 list" where
  "labelled [] = [10]"
| "labelled ((s, v) # xs) = bytes s @ hex64 v @ labelled xs"

text \<open>The bits of the flags register, with their names when clear and when set.\<close>

definition rflags_bits :: "(nat \<times> string \<times> string) list" where
  "rflags_bits = [(21, ''id'', ''ID''), (20, ''vip'', ''VIP''), (19, ''vif'', ''VIF''), (18, ''ac'', ''AC''), (17, ''vm'', ''VM''),
     (16, ''rf'', ''RF''), (14, ''nt'', ''NT''), (11, ''of'', ''OF''), (10, ''df'', ''DF''), (9, ''if'', ''IF''), (8, ''tf'', ''TF''),
     (7, ''sf'', ''SF''), (6, ''zf'', ''ZF''), (4, ''af'', ''AF''), (2, ''pf'', ''PF''), (0, ''cf'', ''CF'')]"

definition flag_text :: "u64 \<Rightarrow> nat \<Rightarrow> u8 list" where
  "flag_text r i =
     (if i = 12 then bytes ''IOPL='' @ decimal_text (unat (take_bit 2 (drop_bit 12 r))) @ bytes '' '' else []) @
     (case map_of rflags_bits i of None \<Rightarrow> [] | Some (clear, on) \<Rightarrow> bytes (if bit r i then on else clear) @ bytes '' '')"

definition selector_text :: "u64 \<Rightarrow> u8 list" where
  "selector_text e =
     (if bit e 0 then bytes ''external '' else []) @
     bytes (if \<not> bit e 1 \<and> \<not> bit e 2 then ''GDT'' else if bit e 1 then ''IDT'' else ''LDT'') @ bytes '' selector index '' @
     hex_text 8 (unat e div 8 mod 2 ^ 32) @ [10]"

definition page_fault_text :: "u64 \<Rightarrow> u8 list" where
  "page_fault_text e =
     bytes (if bit e 0 then ''present '' else ''non-present '') @ bytes (if bit e 2 then ''usermode '' else ''kernel '') @
     bytes (if bit e 1 then ''write '' else if bit e 4 then ''instruction fetch '' else ''read '') @
     (if bit e 3 then bytes ''(reserved field set to 1)'' else []) @ [10]"

definition code_text :: "nat \<Rightarrow> u64 \<Rightarrow> u8 list" where
  "code_text irq e =
     (if 10 \<le> irq \<and> irq \<le> 13 then selector_text e else if irq = 14 then page_fault_text e
      else if irq = 17 \<and> bit e 0 then bytes ''external'' else [])"

text \<open>
  The report on vector \<open>irq\<close> for the saved registers \<open>reg\<close>, in the order of \<open>struct irq_state\<close>, and the frame of the
  processor, \<open>rip\<close>, \<open>cs\<close>, \<open>rflags\<close>, \<open>rsp\<close> and \<open>ss\<close>.
\<close>

definition state_text :: "nat \<Rightarrow> bool \<Rightarrow> u64 \<Rightarrow> (nat \<Rightarrow> u64) \<Rightarrow> (nat \<Rightarrow> u64) \<Rightarrow> u64 \<Rightarrow> u8 list" where
  "state_text irq with_code e reg frame cr2 =
     (if with_code then labelled [(''Error code '', e)] @ code_text irq e else []) @
     labelled [(''RAX = '', reg 0), (''    RBX = '', reg 1), (''    RCX = '', reg 2)] @
     labelled [(''RDX = '', reg 3), (''    RSI = '', reg 4), (''    RDI = '', reg 5)] @
     labelled [(''RBP = '', reg 6), (''     R8 = '', reg 7), (''     R9 = '', reg 8)] @
     labelled [(''R10 = '', reg 9), (''    R11 = '', reg 10), (''    R12 = '', reg 11)] @
     labelled [(''R13 = '', reg 12), (''    R14 = '', reg 13), (''    R15 = '', reg 14)] @
     labelled [(''RIP = '', frame 0), (''     CS = '', frame 1)] @
     labelled [(''RSP = '', frame 3), (''     SS = '', frame 4)] @
     bytes ''RFLAGS: '' @ concat (map (flag_text (frame 2)) (rev [0..<22])) @
     (10 # labelled [(''CR2 = '', cr2)]) @ bytes ''System halted'' @ [10]"

definition report_text :: "string \<Rightarrow> nat \<Rightarrow> bool \<Rightarrow> u64 \<Rightarrow> (nat \<Rightarrow> u64) \<Rightarrow> (nat \<Rightarrow> u64) \<Rightarrow> u64 \<Rightarrow> u8 list" where
  "report_text name irq with_code e reg frame cr2 =
     (bytes ''Exception #'' @ decimal_text irq @ bytes '' occured: '' @ bytes name @ [10]) @
     state_text irq with_code e reg frame cr2"

section \<open>What the handler prints\<close>

text \<open>The strings the report prints by reference are in memory at their addresses.\<close>

definition report_strings :: "string list" where
  "report_strings = exception_name @ [''GDT'', ''IDT'', ''LDT''] @ map the (filter (\<lambda>x. x \<noteq> None) flag_name)"

definition names_ok :: "mem \<Rightarrow> (string \<Rightarrow> addr) \<Rightarrow> bool" where
  "names_ok m lit \<longleftrightarrow> (\<forall>s \<in> set report_strings. c_string (2 ^ 64) m (lit s) = Inr (bytes s))"

lemma names_ok_exception: "names_ok m lit \<Longrightarrow> i < length exception_name \<Longrightarrow>
    arg_text m String (lit (exception_name ! i)) = Some (bytes (exception_name ! i))"
  unfolding names_ok_def report_strings_def by (simp del: power_numeral)

lemma names_ok_flag:
  assumes "names_ok m lit" "i < length flag_name" "flag_name ! i = Some s"
  shows "arg_text m String (lit s) = Some (bytes s)"
proof -
  have "Some s \<in> set flag_name" using assms(2,3) nth_mem by metis
  then have "s \<in> set report_strings" unfolding report_strings_def by force
  then show ?thesis using assms(1) unfolding names_ok_def by (simp del: power_numeral)
qed

lemma names_ok_table: "names_ok m lit \<Longrightarrow> s \<in> {''GDT'', ''IDT'', ''LDT''} \<Longrightarrow> arg_text m String (lit s) = Some (bytes s)"
  unfolding names_ok_def report_strings_def by (auto simp del: power_numeral)

lemma shows_print: "format_text m (bytes fmt) False False args = Some t \<Longrightarrow> shows_text (print m fmt args) t"
  unfolding print_def by (rule shows_format)

lemma shows_if: "(b \<Longrightarrow> shows_text p t) \<Longrightarrow> (\<not> b \<Longrightarrow> shows_text q u) \<Longrightarrow> shows_text (if b then p else q) (if b then t else u)"
  by simp

lemma and_bit: "e AND push_bit i 1 \<noteq> 0 \<longleftrightarrow> bit e i" for e :: u64
  by (metis and_exp_eq_0_iff_not_bit push_bit_eq_mult mult_1)

lemma code_bits: "e AND 1 \<noteq> 0 \<longleftrightarrow> bit e 0" "e AND 2 \<noteq> 0 \<longleftrightarrow> bit e 1" "e AND 4 \<noteq> 0 \<longleftrightarrow> bit e 2" "e AND 8 \<noteq> 0 \<longleftrightarrow> bit e 3"
    "e AND 16 \<noteq> 0 \<longleftrightarrow> bit e 4" for e :: u64
  using and_bit [of e 0] and_bit [of e 1] and_bit [of e 2] and_bit [of e 3] and_bit [of e 4] by simp_all

lemma int_text_small:
  fixes x :: u64
  assumes "unat x < 2 ^ 31"
  shows "int_text (sint (ucast x :: u32)) = decimal_text (unat x)" "long_text x = Some (decimal_text (unat x))"
proof -
  have l: "int (unat x) < 2 ^ 31" using assms by (metis of_nat_less_iff of_nat_numeral of_nat_power)
  have i: "uint x = int (unat x)" by (rule uint_nat)
  have c: "uint (ucast x :: u32) = int (unat x)"
    unfolding unsigned_ucast_eq i using l by (intro take_bit_int_eq_self) simp_all
  have fits: "signed_take_bit n (int (unat x)) = int (unat x)" if "31 \<le> n" for n
  proof (rule signed_take_bit_int_eq_self)
    show "- (2 ^ n) \<le> int (unat x)" by (rule order_trans [OF _ of_nat_0_le_iff]) simp
    have "(2 :: int) ^ 31 \<le> 2 ^ n" using that by (intro power_increasing) simp_all
    then show "int (unat x) < 2 ^ n" using l by linarith
  qed
  have "sint (ucast x :: u32) = int (unat x)" "sint x = int (unat x)"
    unfolding sint_uint c i by (rule fits; simp)+
  moreover have "\<not> int (unat x) < 0" by simp
  moreover from this have "int (unat x) \<noteq> - (2 ^ 63)" by (cases "int (unat x) = - (2 ^ 63)") (simp_all only: not_less neg_less_0_iff_less zero_less_power zero_less_numeral simp_thms)
  ultimately show "int_text (sint (ucast x :: u32)) = decimal_text (unat x)" "long_text x = Some (decimal_text (unat x))"
    by (simp_all only: long_text_def int_text_def if_False nat_int)
qed

lemma shows_selector_line:
  "arg_text m String a = Some t \<Longrightarrow> shows_text (print m (''%s selector index %x'' @ [CHR 0x0A]) [a, i])
    (t @ bytes '' selector index '' @ hex_text 8 (unat (ucast i :: u32)) @ [10])"
  by (rule shows_print) (simp del: arg_text.simps(7))

lemma shows_name: "arg_text m String a = Some t \<Longrightarrow> shows_text (print m ''%s '' [a]) (t @ bytes '' '')"
  by (rule shows_print) (simp del: arg_text.simps(7))

lemma shows_selector:
  assumes "names_ok m lit"
  shows "shows_text (print_selector_error m lit e) (selector_text e)"
proof -
  let ?which = "drop_bit 1 e AND 3" and ?name = "if \<not> bit e 1 \<and> \<not> bit e 2 then ''GDT'' else if bit e 1 then ''IDT'' else ''LDT''"
  have m3: "(3 :: u64) = mask 2" by (simp add: mask_eq_exp_minus_1)
  have b: "bit ?which n \<longleftrightarrow> n < 2 \<and> bit e (Suc n)" for n unfolding m3 by (auto simp: bit_simps)
  have val: "?which = (if bit e 2 then 2 else 0) + (if bit e 1 then 1 else 0)"
  proof (rule bit_word_eqI)
    fix n :: nat
    have "bit (3 :: u64) n = (n < 2)" "bit (2 :: u64) n = (n = 1)" "bit (1 :: u64) n = (n = 0)"
      unfolding m3 by (auto simp: bit_simps bit_1_iff bit_2_iff)
    then show "bit ?which n = bit ((if bit e 2 then 2 else 0) + (if bit e 1 then 1 else 0) :: u64) n"
      unfolding b by (cases "n = 0"; cases "n = 1") (auto simp: numeral_2_eq_2)
  qed
  have kind: "(if ?which = 0 then ''GDT'' else if ?which = 1 \<or> ?which = 3 then ''IDT'' else ''LDT'') = ?name" unfolding val by auto
  have idx: "unat (ucast (ucast (ucast (drop_bit 3 e) :: u32) :: u64) :: u32) = unat e div 8 mod 2 ^ 32"
    by (simp add: unsigned_ucast_eq take_bit_eq_mod drop_bit_eq_div unat_mod_distrib unat_div_distrib)
  have n: "arg_text m String (lit ?name) = Some (bytes ?name)" by (rule names_ok_table [OF assms]) auto
  have "shows_text (print m (''%s selector index %x'' @ [CHR 0x0A]) [lit ?name, ucast (ucast (drop_bit 3 e) :: u32)])
      (bytes ?name @ bytes '' selector index '' @ hex_text 8 (unat e div 8 mod 2 ^ 32) @ [10])"
    using shows_selector_line [OF n, of "ucast (ucast (drop_bit 3 e) :: u32)"] unfolding idx .
  moreover have "shows_text (if e AND 1 \<noteq> 0 then print m ''external '' [] else returnS ()) (if bit e 0 then bytes ''external '' else [])"
    unfolding code_bits by (rule shows_if) (auto intro!: shows_print shows_text_Nil)
  ultimately show ?thesis unfolding print_selector_error_def Let_def kind selector_text_def by (rule shows_text_thenS [rotated])
qed

lemma shows_page_fault: "shows_text (print_page_fault_error m e) (page_fault_text e)"
  unfolding print_page_fault_error_def page_fault_text_def code_bits if_distrib [of bytes]
  by (intro shows_text_thenS shows_if shows_print shows_text_Nil) simp_all

lemma shows_code:
  assumes "names_ok m lit" "unat i < 2 ^ 31"
  shows "shows_text (print_error_code_interpretation m lit i e) (code_text (unat i) e)"
proof -
  have n: "unat i = 10 \<longleftrightarrow> i = 10" "unat i = 11 \<longleftrightarrow> i = 11" "unat i = 12 \<longleftrightarrow> i = 12" "unat i = 13 \<longleftrightarrow> i = 13" "unat i = 14 \<longleftrightarrow> i = 14"
      "unat i = 17 \<longleftrightarrow> i = 17" by (simp_all add: word_unat_eq_iff)
  have r: "10 \<le> unat i \<and> unat i \<le> 13 \<longleftrightarrow> i = 10 \<or> i = 11 \<or> i = 12 \<or> i = 13" unfolding n [symmetric] by linarith
  have "shows_text (if i = 17 then if bit e 0 then print m ''external'' [] else returnS () else returnS ())
      (if i = 17 \<and> bit e 0 then bytes ''external'' else [])"
    by (auto intro!: shows_print shows_text_Nil)
  then show ?thesis
    unfolding print_error_code_interpretation_def code_text_def code_bits r n
    by (intro shows_if shows_selector shows_page_fault assms(1))
qed

lemma flag_name_bits:
  assumes "i < 22"
  shows "flag_name ! (2 * i + (if b then 1 else 0)) = map_option (\<lambda>(clear, on). if b then on else clear) (map_of rflags_bits i)"
proof -
  have "i \<in> set [0..<22]" using assms by simp
  then show ?thesis by (cases b) (auto simp: flag_name_def rflags_bits_def upt_rec)
qed

lemma shows_flag:
  assumes "names_ok m lit" "i < 22"
  shows "shows_text (print_flag m lit r i) (flag_text r i)"
proof -
  let ?i = "2 * i + (if bit r i then 1 else 0)"
  have i: "?i < length flag_name" using assms(2) by (simp add: flag_name_def)
  have iopl: "shows_text (print m ''IOPL=%d '' [drop_bit 12 r AND 3]) (bytes ''IOPL='' @ decimal_text (unat (take_bit 2 (drop_bit 12 r))) @ bytes '' '')"
  proof (rule shows_print)
    have m3: "drop_bit 12 r AND 3 = take_bit 2 (drop_bit 12 r)" by (simp add: take_bit_eq_mask mask_eq_exp_minus_1)
    have "unat (take_bit 2 (drop_bit 12 r)) < 2 ^ 2" unfolding unsigned_take_bit_eq by (rule take_bit_nat_less_exp)
    then have "unat (take_bit 2 (drop_bit 12 r)) < 2 ^ 31" by simp
    note t = int_text_small(1) [OF this]
    show "format_text m (bytes ''IOPL=%d '') False False [drop_bit 12 r AND 3] =
        Some (bytes ''IOPL='' @ decimal_text (unat (take_bit 2 (drop_bit 12 r))) @ bytes '' '')"
      unfolding m3 by (simp add: t del: drop_bit_take_bit take_bit_drop_bit)
  qed
  have name: "shows_text (case flag_name ! ?i of None \<Rightarrow> returnS () | Some name \<Rightarrow> print m ''%s '' [lit name])
      (case map_of rflags_bits i of None \<Rightarrow> [] | Some (clear, on) \<Rightarrow> bytes (if bit r i then on else clear) @ bytes '' '')"
  proof (cases "map_of rflags_bits i")
    case None
    then show ?thesis unfolding flag_name_bits [OF assms(2)] by (simp add: shows_text_Nil [unfolded returnS_def] returnS_def)
  next
    case (Some p)
    obtain clear on where p: "p = (clear, on)" by (cases p)
    let ?n = "if bit r i then on else clear"
    have f: "flag_name ! ?i = Some ?n" unfolding flag_name_bits [OF assms(2)] Some p by simp
    have "arg_text m String (lit ?n) = Some (bytes ?n)" by (rule names_ok_flag [OF assms(1) i f])
    then have "shows_text (print m ''%s '' [lit ?n]) (bytes ?n @ bytes '' '')"
      by (rule shows_name)
    then show ?thesis unfolding f Some p by (simp only: option.case prod.case)
  qed
  show ?thesis
    unfolding print_flag_def Let_def and_bit if_P [OF i] flag_text_def
    by (intro shows_text_thenS shows_if iopl shows_text_Nil name)
qed

lemma shows_flags: "names_ok m lit \<Longrightarrow> i \<le> 22 \<Longrightarrow> shows_text (print_flags m lit r i) (concat (map (flag_text r) (rev [0..<i])))"
proof (induction i)
  case (Suc i)
  then show ?case using shows_text_thenS [OF shows_flag [of m lit i r] Suc.IH] by simp
qed (simp add: shows_text_Nil [unfolded returnS_def] returnS_def)

lemma shows_registers:
  "shows_text (print m (''Error code %lx'' @ [CHR 0x0A]) [a]) (labelled [(''Error code '', a)])"
  "shows_text (print m (''RAX = %lx    RBX = %lx    RCX = %lx'' @ [CHR 0x0A]) [a, b, c])
    (labelled [(''RAX = '', a), (''    RBX = '', b), (''    RCX = '', c)])"
  "shows_text (print m (''RDX = %lx    RSI = %lx    RDI = %lx'' @ [CHR 0x0A]) [a, b, c])
    (labelled [(''RDX = '', a), (''    RSI = '', b), (''    RDI = '', c)])"
  "shows_text (print m (''RBP = %lx     R8 = %lx     R9 = %lx'' @ [CHR 0x0A]) [a, b, c])
    (labelled [(''RBP = '', a), (''     R8 = '', b), (''     R9 = '', c)])"
  "shows_text (print m (''R10 = %lx    R11 = %lx    R12 = %lx'' @ [CHR 0x0A]) [a, b, c])
    (labelled [(''R10 = '', a), (''    R11 = '', b), (''    R12 = '', c)])"
  "shows_text (print m (''R13 = %lx    R14 = %lx    R15 = %lx'' @ [CHR 0x0A]) [a, b, c])
    (labelled [(''R13 = '', a), (''    R14 = '', b), (''    R15 = '', c)])"
  "shows_text (print m (''RIP = %lx     CS = %lx'' @ [CHR 0x0A]) [a, b]) (labelled [(''RIP = '', a), (''     CS = '', b)])"
  "shows_text (print m (''RSP = %lx     SS = %lx'' @ [CHR 0x0A]) [a, b]) (labelled [(''RSP = '', a), (''     SS = '', b)])"
  "shows_text (print m ([CHR 0x0A] @ ''CR2 = %lx'' @ [CHR 0x0A]) [a]) (10 # labelled [(''CR2 = '', a)])"
  "shows_text (print m ''RFLAGS: '' []) (bytes ''RFLAGS: '')"
  "shows_text (print m (''System halted'' @ [CHR 0x0A]) []) (bytes ''System halted'' @ [10])"
  by (rule shows_print, simp add: hex64_def)+

lemma shows_state:
  assumes "names_ok m lit" "unat (stk (regs + 120)) < 2 ^ 31"
  shows "shows_text (report_state m lit stk cr2 regs e with_code) (state_text (unat (stk (regs + 120))) with_code e
    (\<lambda>k. stk (regs + 8 * of_nat k)) (\<lambda>k. stk (regs + (if with_code then 136 else 128) + 8 * of_nat k)) cr2)"
proof -
  have frame: "regs + 8 * 16 + (if with_code then 8 else 0) = regs + (if with_code then 136 else 128)"
    "regs + 8 * of_nat 15 = regs + 120" by simp_all
  show ?thesis
    unfolding report_state_def state_text_def Let_def frame
    by (intro shows_text_thenS shows_if shows_text_Nil shows_registers shows_code shows_flags assms order_refl)
qed

lemma shows_heading:
  assumes "arg_text m String a = Some t" "unat irq < 2 ^ 31"
  shows "shows_text (print m (''Exception #%ld occured: %s'' @ [CHR 0x0A]) [irq, a])
    (bytes ''Exception #'' @ decimal_text (unat irq) @ bytes '' occured: '' @ t @ [10])"
  by (rule shows_print) (simp add: assms(1) int_text_small(2) [OF assms(2)] del: arg_text.simps(7))

text \<open>
  Property C40: the exception report. For a vector below 31, on a working terminal and with the strings it refers to in
  memory, the report is printed to its end: the number and the name of the exception, the error code with its meaning
  where the vector is marked as having one, the 15 saved registers, the frame of the processor, which lies behind the
  error code if there is one, the names of the flags, in capitals where they are set, and the faulting address. These
  bytes, and no others, go to the debug port and to the terminal. Interrupts are disabled and the tables are as they were;
  then the handler halts for ever.
\<close>

theorem exception_report_completes:
  fixes cr2 error_code :: u64
  assumes "unat (stk (regs + 120)) < length exception_name" "length (iq_handler s) = 80"
    and "names_ok m lit" "tty_rel (con_tty (iq_console s)) a"
  defines "irq \<equiv> unat (stk (regs + 120))"
  defines "with_code \<equiv> ih_flags (iq_handler s ! irq) AND INT_HANDLER_ERRORCODE \<noteq> 0"
  defines "t \<equiv> report_text (exception_name ! irq) irq with_code error_code (\<lambda>k. stk (regs + 8 * of_nat k))
    (\<lambda>k. stk (regs + (if with_code then 136 else 128) + 8 * of_nat k)) cr2"
  shows "\<exists>c'. exception_report m lit stk cr2 regs error_code s = Inr ((), s\<lparr>iq_enabled := False, iq_console := c'\<rparr>) \<and>
    con_port c' = con_port (iq_console s) @ map (Pair 0xE9) t \<and>
    tty_rel (con_tty c') (fold (\<lambda>x. term_char (scast x)) t a) \<and>
    generic_exception_handler m lit stk cr2 regs error_code s = Inl Diverges"
proof -
  have irq: "unat (stk (regs + 120)) < 80" "unat (stk (regs + 120)) < 2 ^ 31" using assms(1) by (simp_all add: exception_name_def)
  have "shows_text (thenS (print m (''Exception #%ld occured: %s'' @ [CHR 0x0A]) [stk (regs + 120), lit (exception_name ! irq)])
      (report_state m lit stk cr2 regs error_code with_code)) t"
    unfolding t_def report_text_def irq_def
    by (intro shows_text_thenS shows_heading shows_state names_ok_exception assms(1,3) irq(2))
  then obtain c' where c': "thenS (print m (''Exception #%ld occured: %s'' @ [CHR 0x0A]) [stk (regs + 120), lit (exception_name ! irq)])
      (report_state m lit stk cr2 regs error_code with_code) (iq_console s) = Inr ((), c')"
      "con_port c' = con_port (iq_console s) @ map (Pair 0xE9) t" "tty_rel (con_tty c') (fold (\<lambda>x. term_char (scast x)) t a)"
    using assms(4) unfolding shows_text_def by fastforce
  then have "exception_report m lit stk cr2 regs error_code s = Inr ((), s\<lparr>iq_enabled := False, iq_console := c'\<rparr>)"
    using assms(1,2) irq unfolding with_code_def irq_def
    by (auto simp: exception_report_def disable_irq_def thenS_apply bindS_apply on_console_def mapE_def bindE_def Let_def split: sum.splits prod.splits)
  then show ?thesis using c'(2,3) by (intro exI [of _ c']) (simp add: generic_exception_handler_def thenS_apply)
qed

section \<open>An example\<close>

text \<open>A memory with the strings, one every 256 bytes.\<close>

fun position :: "'a \<Rightarrow> 'a list \<Rightarrow> nat" where
  "position x [] = 0"
| "position x (y # ys) = (if x = y then 0 else Suc (position x ys))"

definition string_at :: "string \<Rightarrow> addr" where "string_at s = of_nat (256 * position s report_strings)"

definition string_memory :: mem where
  "string_memory a = (let i = unat a div 256; j = unat a mod 256 in
     if i < length report_strings \<and> j < length (report_strings ! i) then of_char (report_strings ! i ! j) else 0)"

lemma c_string_bytes:
  "\<forall>j < length cs. m (a + of_nat j) = cs ! j \<and> cs ! j \<noteq> 0 \<Longrightarrow> m (a + of_nat (length cs)) = 0 \<Longrightarrow> length cs < fuel \<Longrightarrow>
    c_string fuel m a = Inr cs"
proof (induction cs arbitrary: a fuel)
  case Nil
  then show ?case by (cases fuel) simp_all
next
  case (Cons c cs)
  then obtain n where n: "fuel = Suc n" by (cases fuel) simp_all
  have "m (a + 1 + of_nat j) = cs ! j \<and> cs ! j \<noteq> 0" if "j < length cs" for j
    using Cons.prems(1) [rule_format, of "Suc j"] that by (simp add: add.assoc)
  moreover have "m (a + 1 + of_nat (length cs)) = 0" using Cons.prems(2) by (simp add: add.assoc)
  ultimately have "c_string n m (a + 1) = Inr cs" using Cons.prems(3) n by (intro Cons.IH) auto
  moreover have "m a = c" "c \<noteq> 0" using Cons.prems(1) [rule_format, of 0] by simp_all
  ultimately show ?case by (simp add: n)
qed

lemma c_string_zero: "0 < fuel \<Longrightarrow> m a = 0 \<Longrightarrow> c_string fuel m a = Inr []"
  by (cases fuel) simp_all

lemma position_nth: "x \<in> set xs \<Longrightarrow> position x xs < length xs \<and> xs ! position x xs = x"
  by (induction xs) auto

lemma report_strings_short: "\<forall>s \<in> set report_strings. length s < 256 \<and> (\<forall>c \<in> set s. of_char c \<noteq> (0 :: u8))" "length report_strings < 256"
  by (simp_all add: report_strings_def exception_name_def flag_name_def)

lemma names_ok_example: "names_ok string_memory string_at"
  unfolding names_ok_def
proof
  fix s assume s: "s \<in> set report_strings"
  let ?i = "position s report_strings"
  have i: "?i < length report_strings" "report_strings ! ?i = s" using position_nth [OF s] by simp_all
  have short: "length s < 256" "\<forall>c \<in> set s. of_char c \<noteq> (0 :: u8)" using report_strings_short(1) s by blast+
  have at: "string_memory (string_at s + of_nat j) = (if j < length s then of_char (s ! j) else 0)" if "j \<le> length s" for j
  proof -
    have "unat (of_nat (256 * ?i + j) :: u64) = 256 * ?i + j"
      by (rule unat_of_nat_u64) (use i(1) report_strings_short(2) that short(1) in simp)
    then have "unat (string_at s + of_nat j) = 256 * ?i + j" by (simp only: string_at_def of_nat_add)
    then have "unat (string_at s + of_nat j) div 256 = ?i" "unat (string_at s + of_nat j) mod 256 = j"
      using that short(1) by simp_all
    then show ?thesis by (simp only: string_memory_def Let_def i simp_thms)
  qed
  show "c_string (2 ^ 64) string_memory (string_at s) = Inr (bytes s)"
  proof (rule c_string_bytes)
    have "length (bytes s) < 256" using short(1) by simp
    then show "length (bytes s) < 2 ^ 64" by (rule less_le_trans) simp
  qed (use at short(2) in \<open>simp_all add: nth_mem\<close>)
qed

theorem exception_report_completes_witness:
  "\<exists>t c' rest. exception_report string_memory string_at (\<lambda>_. 14) 0xCAFE 0x8000 2 (example_irq\<lparr>iq_console := \<lparr>con_tty = t, con_port = []\<rparr>\<rparr>)
    = Inr ((), example_irq\<lparr>iq_console := c', iq_enabled := False\<rparr>) \<and>
    con_port c' = map (Pair 0xE9) (bytes ''Exception #14 occured: Page Fault'' @ 10 # bytes ''RAX = 0x000000000000000E'' @ rest)"
proof -
  obtain t where t: "tty_rel t term_init" using tty_initialize_ok by blast
  define s where "s = example_irq\<lparr>iq_console := \<lparr>con_tty = t, con_port = []\<rparr>\<rparr>"
  have u: "unat (14 :: u64) = 14" by simp
  moreover have "14 < length exception_name" by (simp add: exception_name_def)
  moreover have "length (iq_handler s) = 80" by (simp add: s_def example_irq_def)
  moreover have "tty_rel (con_tty (iq_console s)) term_init" using t by (simp add: s_def)
  ultimately obtain c' where c': "exception_report string_memory string_at (\<lambda>_. 14) 0xCAFE 0x8000 2 s =
      Inr ((), s\<lparr>iq_enabled := False, iq_console := c'\<rparr>)"
      "con_port c' = con_port (iq_console s) @ map (Pair 0xE9) (report_text (exception_name ! 14) 14
        (ih_flags (iq_handler s ! 14) AND INT_HANDLER_ERRORCODE \<noteq> 0) 2 (\<lambda>_. 14) (\<lambda>_. 14) 0xCAFE)"
    using exception_report_completes [where stk = "\<lambda>_. 14" and regs = "0x8000" and m = string_memory and lit = string_at and s = s
        and a = term_init and ?cr2.0 = "0xCAFE" and error_code = 2] names_ok_example
    by (simp only: u if_cancel simp_thms) blast
  have h: "hex64 14 = bytes ''0x000000000000000E''" by (simp add: hex64_def hex_text_def digit_code_def upt_rec)
  have d: "decimal_text 14 = bytes ''14''" by (simp add: decimal_text.simps digit_code_def)
  have "\<exists>rest. report_text (exception_name ! 14) 14 (ih_flags (iq_handler s ! 14) AND INT_HANDLER_ERRORCODE \<noteq> 0) 2 (\<lambda>_. 14) (\<lambda>_. 14) 0xCAFE =
      bytes ''Exception #14 occured: Page Fault'' @ 10 # bytes ''RAX = 0x000000000000000E'' @ rest"
    by (simp add: report_text_def state_text_def h d exception_name_def s_def example_irq_def)
  then obtain rest where r: "report_text (exception_name ! 14) 14 (ih_flags (iq_handler s ! 14) AND INT_HANDLER_ERRORCODE \<noteq> 0) 2 (\<lambda>_. 14) (\<lambda>_. 14) 0xCAFE =
      bytes ''Exception #14 occured: Page Fault'' @ 10 # bytes ''RAX = 0x000000000000000E'' @ rest" ..
  have "con_port c' = map (Pair 0xE9) (bytes ''Exception #14 occured: Page Fault'' @ 10 # bytes ''RAX = 0x000000000000000E'' @ rest)"
    unfolding c'(2) r by (simp add: s_def)
  moreover have "s\<lparr>iq_enabled := False, iq_console := c'\<rparr> = example_irq\<lparr>iq_console := c', iq_enabled := False\<rparr>"
    by (simp add: s_def)
  then have "exception_report string_memory string_at (\<lambda>_. 14) 0xCAFE 0x8000 2 s =
      Inr ((), example_irq\<lparr>iq_console := c', iq_enabled := False\<rparr>)"
    using c'(1) by (simp only:)
  ultimately show ?thesis unfolding s_def by blast
qed

end
