(* ===== verification/Ds.thy ===== *)
theory Ds imports Prelude begin

text \<open>
  The list macros of \<open>include/ds.h\<close>. The \<open>next\<close> and \<open>prev\<close> members of all structs of one type are two maps
  from the addresses of the structs; the macros are operations on them and on the list pointer they are
  given. The client theory \<open>Task\<close> uses cyclic lists through the locale \<open>ring_list\<close>.
\<close>

section \<open>The macros\<close>

record links =
  lk_next :: "addr \<Rightarrow> addr"
  lk_prev :: "addr \<Rightarrow> addr"

definition LIST_FREE_ELEMENT :: addr where "LIST_FREE_ELEMENT = 0"

definition set_next :: "addr \<Rightarrow> addr \<Rightarrow> links \<Rightarrow> links" where
  "set_next a v l = l\<lparr>lk_next := (lk_next l)(a := v)\<rparr>"

definition set_prev :: "addr \<Rightarrow> addr \<Rightarrow> links \<Rightarrow> links" where
  "set_prev a v l = l\<lparr>lk_prev := (lk_prev l)(a := v)\<rparr>"

text \<open>The new links and the new value of the list pointer.\<close>

definition list_add :: "addr \<Rightarrow> addr \<Rightarrow> links \<Rightarrow> links \<times> addr" where
  "list_add lst value l =
     (let l = (if lst = LIST_FREE_ELEMENT then set_prev value LIST_FREE_ELEMENT l
               else (let l = set_prev value (lk_prev l lst) l;
                         l = (if lk_prev l lst \<noteq> LIST_FREE_ELEMENT then set_next (lk_prev l lst) value l else l)
                     in set_prev lst value l));
          l = set_next value lst l
      in (l, value))"

definition clist_add :: "addr \<Rightarrow> addr \<Rightarrow> links \<Rightarrow> links \<times> addr" where
  "clist_add lst value l =
     (let (l, lst) = list_add lst value l in
      if lk_next l value = LIST_FREE_ELEMENT \<and> lk_prev l value = LIST_FREE_ELEMENT
      then (set_prev value value (set_next value value l), lst) else (l, lst))"

definition list_remove :: "addr \<Rightarrow> links \<Rightarrow> links" where
  "list_remove value l =
     (let l = (if lk_next l value \<noteq> LIST_FREE_ELEMENT then set_prev (lk_next l value) (lk_prev l value) l else l)
      in if lk_prev l value \<noteq> LIST_FREE_ELEMENT then set_next (lk_prev l value) (lk_next l value) l else l)"

lemma set_links_simps [simp]:
  "lk_next (set_next a v l) = (lk_next l)(a := v)" "lk_prev (set_next a v l) = lk_prev l"
  "lk_prev (set_prev a v l) = (lk_prev l)(a := v)" "lk_next (set_prev a v l) = lk_next l"
  by (simp_all add: set_next_def set_prev_def)

section \<open>Cyclic lists\<close>

text \<open>The nodes of a cycle in the order of \<open>next\<close>; the one-element cycle points to itself.\<close>

definition cycle :: "links \<Rightarrow> addr list \<Rightarrow> bool" where
  "cycle l xs \<longleftrightarrow> xs \<noteq> [] \<and> distinct xs \<and> 0 \<notin> set xs \<and>
     map (lk_next l) xs = rotate1 xs \<and> map (lk_prev l) (rotate1 xs) = xs"

lemma cycle_rotate1: "cycle l xs \<Longrightarrow> cycle l (rotate1 xs)"
  by (simp add: cycle_def rotate1_map [symmetric])

lemma cycle_rotate: "cycle l xs \<Longrightarrow> cycle l (rotate k xs)"
  by (induction k) (simp_all add: cycle_rotate1)

lemma cycle_next: "cycle l (x # xs) \<Longrightarrow> lk_next l x = hd (xs @ [x])"
  by (cases xs) (auto simp: cycle_def)

lemma cycle_prev: "cycle l (x # xs) \<Longrightarrow> lk_prev l x = last (x # xs)"
proof (cases xs rule: rev_cases)
  case (snoc ys y)
  assume "cycle l (x # xs)"
  then have "map (lk_prev l) (xs @ [x]) = x # xs" by (simp add: cycle_def)
  then have "last (map (lk_prev l) (xs @ [x])) = last (x # xs)" by simp
  then show ?thesis by simp
qed (auto simp: cycle_def)

lemma cycle_cong:
  assumes "\<And>x. x \<in> set xs \<Longrightarrow> lk_next l' x = lk_next l x \<and> lk_prev l' x = lk_prev l x"
  shows "cycle l' xs = cycle l xs"
proof -
  have "map (lk_next l') xs = map (lk_next l) xs" "map (lk_prev l') (rotate1 xs) = map (lk_prev l) (rotate1 xs)"
    using assms by auto
  then show ?thesis by (simp only: cycle_def)
qed

text \<open>\<open>CLIST_ADD\<close> puts the new node before the one the list pointer names, that is, at the end of the round.\<close>

lemma clist_add_empty:
  assumes "v \<noteq> 0"
  shows "cycle (fst (clist_add 0 v l)) [v]" "snd (clist_add 0 v l) = v"
  using assms by (simp_all add: clist_add_def list_add_def Let_def LIST_FREE_ELEMENT_def cycle_def)

lemma clist_add_cycle:
  assumes cyc: "cycle l (x # xs)" and v: "v \<notin> set (x # xs)" "v \<noteq> 0"
  shows "cycle (fst (clist_add x v l)) (x # xs @ [v])" "snd (clist_add x v l) = v"
    "\<And>y. y \<notin> set (x # xs @ [v]) \<Longrightarrow> lk_next (fst (clist_add x v l)) y = lk_next l y \<and> lk_prev (fst (clist_add x v l)) y = lk_prev l y"
proof -
  let ?p = "last (x # xs)"
  define l' where "l' = set_next v x (set_prev x v (set_next ?p v (set_prev v ?p l)))"
  have p: "lk_prev l x = ?p" by (rule cycle_prev [OF cyc])
  have nz: "x \<noteq> 0" "?p \<noteq> 0" "?p \<in> set (x # xs)"
    using cyc last_in_set [of "x # xs"] by (auto simp: cycle_def)
  have ne: "x \<noteq> v" "?p \<noteq> v" using v nz(3) by auto
  have add: "clist_add x v l = (l', v)"
    using nz(1,2) v(2) ne p by (simp add: clist_add_def list_add_def Let_def LIST_FREE_ELEMENT_def l'_def)
  then show "snd (clist_add x v l) = v" by simp
  have d: "distinct (x # xs)" "map (lk_next l) (x # xs) = xs @ [x]" "map (lk_prev l) (xs @ [x]) = x # xs"
    using cyc by (simp_all add: cycle_def)
  have "map (lk_next l') (x # xs) = xs @ [v]"
  proof (cases xs rule: rev_cases)
    case Nil
    then show ?thesis using ne by (simp add: l'_def)
  next
    case (snoc ys y)
    have "map (lk_next l) (x # ys) = xs" using d(2) by (simp add: snoc)
    moreover have "map (lk_next l') (x # ys) = map (lk_next l) (x # ys)"
      using d(1) v by (auto simp: l'_def snoc)
    moreover have "lk_next l' y = v" using ne by (simp add: l'_def snoc)
    ultimately show ?thesis by (simp add: snoc)
  qed
  moreover have "lk_next l' v = x" by (simp add: l'_def)
  moreover have "map (lk_prev l') (xs @ [v, x]) = x # xs @ [v]"
  proof -
    have "map (lk_prev l) xs = butlast (x # xs)" using d(3) by (metis butlast_snoc map_butlast)
    moreover have "map (lk_prev l') xs = map (lk_prev l) xs" using d(1) v by (auto simp: l'_def)
    moreover have "lk_prev l' v = ?p" "lk_prev l' x = v" using ne by (simp_all add: l'_def)
    moreover have "butlast (x # xs) @ [?p] = x # xs" by (rule append_butlast_last_id) simp
    ultimately show ?thesis by simp
  qed
  moreover have "0 \<notin> set (x # xs)" using cyc by (simp add: cycle_def)
  ultimately show "cycle (fst (clist_add x v l)) (x # xs @ [v])"
    using d(1) v by (auto simp: add cycle_def)
  show "lk_next (fst (clist_add x v l)) y = lk_next l y \<and> lk_prev (fst (clist_add x v l)) y = lk_prev l y"
    if "y \<notin> set (x # xs @ [v])" for y
    using that nz(3) by (auto simp: add l'_def)
qed

text \<open>\<open>LIST_REMOVE\<close> closes the round behind the removed node.\<close>

lemma list_remove_cycle:
  assumes cyc: "cycle l (x # xs)" and ne: "xs \<noteq> []"
  shows "cycle (list_remove x l) xs"
proof -
  obtain y ys where xs: "xs = y # ys" using ne by (cases xs) auto
  let ?p = "last xs"
  have nx: "lk_next l x = y" and pv: "lk_prev l x = ?p"
    using cycle_next [OF cyc] cycle_prev [OF cyc] by (simp_all add: xs)
  have d: "distinct (x # xs)" "0 \<notin> set (x # xs)" "map (lk_next l) xs = ys @ [x]" "map (lk_prev l) (ys @ [x]) = xs"
    using cyc by (simp_all add: cycle_def xs)
  have nz: "y \<noteq> 0" "?p \<noteq> 0" "x \<noteq> y" "?p \<noteq> x" using d(1,2) last_in_set [OF ne] by (auto simp: xs)
  have rem: "list_remove x l = set_next ?p y (set_prev y ?p l)"
    using nx pv nz by (simp add: list_remove_def LIST_FREE_ELEMENT_def Let_def)
  have "map (lk_next (list_remove x l)) xs = ys @ [y]"
  proof -
    have "map (lk_next l) (butlast xs) = ys" using d(3) by (metis butlast_snoc map_butlast)
    moreover have "distinct (butlast xs @ [?p])" using d(1) by (simp add: ne)
    then have "?p \<notin> set (butlast xs)" by simp
    then have "map (lk_next (list_remove x l)) (butlast xs) = map (lk_next l) (butlast xs)" by (auto simp: rem)
    moreover have "butlast xs @ [?p] = xs" by (rule append_butlast_last_id [OF ne])
    then have "map (lk_next (list_remove x l)) xs = map (lk_next (list_remove x l)) (butlast xs) @ [lk_next (list_remove x l) ?p]"
      by (metis list.simps(8,9) map_append)
    ultimately show ?thesis by (simp add: rem)
  qed
  moreover have "map (lk_prev (list_remove x l)) (ys @ [y]) = xs"
  proof -
    have "map (lk_prev l) ys = butlast xs" using d(4) by (metis butlast_snoc map_butlast)
    moreover have "map (lk_prev (list_remove x l)) ys = map (lk_prev l) ys" using d(1) by (auto simp: rem xs)
    moreover have "butlast xs @ [?p] = xs" by (rule append_butlast_last_id [OF ne])
    ultimately show ?thesis by (simp add: rem)
  qed
  ultimately show ?thesis using d(1,2) by (simp add: cycle_def xs)
qed

subsection \<open>The interface of cyclic lists\<close>

text \<open>
  What the users of a ring of nodes rely on: where a new node goes, that the nodes outside the ring keep
  their links, and how to step.
\<close>

locale ring_list =
  fixes add :: "'n \<Rightarrow> 'n \<Rightarrow> 'l \<Rightarrow> 'l \<times> 'n"
    and remove :: "'n \<Rightarrow> 'l \<Rightarrow> 'l"
    and nxt :: "'l \<Rightarrow> 'n \<Rightarrow> 'n"
    and ring :: "'l \<Rightarrow> 'n list \<Rightarrow> bool"
    and null :: 'n
  assumes ring_nodes: "ring l xs \<Longrightarrow> xs \<noteq> [] \<and> distinct xs \<and> null \<notin> set xs"
    and ring_next: "ring l (x # xs) \<Longrightarrow> nxt l x = hd (xs @ [x])"
    and ring_rotate: "ring l xs \<Longrightarrow> ring l (rotate1 xs)"
    and add_first: "v \<noteq> null \<Longrightarrow> ring (fst (add null v l)) [v]"
    and add_last: "ring l (x # xs) \<Longrightarrow> v \<notin> set (x # xs) \<Longrightarrow> v \<noteq> null \<Longrightarrow> ring (fst (add x v l)) (x # xs @ [v])"
    and add_pointer: "ring l (x # xs) \<Longrightarrow> v \<notin> set (x # xs) \<Longrightarrow> v \<noteq> null \<Longrightarrow> snd (add x v l) = v"
    and remove_head: "ring l (x # xs) \<Longrightarrow> xs \<noteq> [] \<Longrightarrow> ring (remove x l) xs"
begin

lemma ring_rotate_n: "ring l xs \<Longrightarrow> ring l (rotate k xs)"
  by (induction k) (simp_all add: ring_rotate)

text \<open>The pointer walks round the ring.\<close>

lemma walk_ring: "ring l xs \<Longrightarrow> (nxt l ^^ k) (hd xs) = hd (rotate k xs)"
proof (induction k)
  case (Suc k)
  have "ring l (rotate k xs)" using Suc.prems by (rule ring_rotate_n)
  then obtain y ys where "rotate k xs = y # ys" "ring l (y # ys)" using ring_nodes by (metis list.exhaust)
  then show ?case using Suc ring_next [of l y ys] by (simp add: hd_append)
qed simp

lemma walk_returns: "ring l xs \<Longrightarrow> (nxt l ^^ length xs) (hd xs) = hd xs"
  using walk_ring [of l xs "length xs"] by simp

lemma add_remove: "ring l (x # xs) \<Longrightarrow> v \<notin> set (x # xs) \<Longrightarrow> v \<noteq> null \<Longrightarrow> ring (remove v (fst (add x v l))) (x # xs)"
proof -
  assume a: "ring l (x # xs)" "v \<notin> set (x # xs)" "v \<noteq> null"
  have "ring (fst (add x v l)) (rotate (length (x # xs)) (x # xs @ [v]))"
    by (rule ring_rotate_n [OF add_last [OF a]])
  moreover have "rotate (length (x # xs)) (x # xs @ [v]) = v # x # xs"
    using rotate_append [of "x # xs" "[v]"] by simp
  ultimately show ?thesis using remove_head [of "fst (add x v l)" v "x # xs"] by simp
qed

end

interpretation clist: ring_list clist_add list_remove lk_next cycle 0
proof unfold_locales
  show "cycle l xs \<Longrightarrow> xs \<noteq> [] \<and> distinct xs \<and> 0 \<notin> set xs" for l xs by (simp add: cycle_def)
  show "cycle l (x # xs) \<Longrightarrow> lk_next l x = hd (xs @ [x])" for l x xs by (rule cycle_next)
  show "cycle l xs \<Longrightarrow> cycle l (rotate1 xs)" for l xs by (rule cycle_rotate1)
  show "v \<noteq> 0 \<Longrightarrow> cycle (fst (clist_add 0 v l)) [v]" for v l by (rule clist_add_empty)
  show "cycle l (x # xs) \<Longrightarrow> v \<notin> set (x # xs) \<Longrightarrow> v \<noteq> 0 \<Longrightarrow> cycle (fst (clist_add x v l)) (x # xs @ [v])" for l x xs v
    by (rule clist_add_cycle)
  show "cycle l (x # xs) \<Longrightarrow> v \<notin> set (x # xs) \<Longrightarrow> v \<noteq> 0 \<Longrightarrow> snd (clist_add x v l) = v" for l x xs v
    by (rule clist_add_cycle)
  show "cycle l (x # xs) \<Longrightarrow> xs \<noteq> [] \<Longrightarrow> cycle (list_remove x l) xs" for l x xs
    by (rule list_remove_cycle)
qed

text \<open>
  \<open>CLIST_ADD\<close> on a cyclic list inserts the new node between the last and the first, so it is
  the last one reached from the list pointer and not the next one; \<open>LIST_REMOVE\<close> of that node gives the
  old cycle back.
\<close>

theorem clist_add_remove:
  assumes "cycle l (x # xs)" "v \<notin> set (x # xs)" "v \<noteq> 0"
  shows "cycle (fst (clist_add x v l)) (x # xs @ [v]) \<and> cycle (list_remove v (fst (clist_add x v l))) (x # xs)"
  using clist.add_last [OF assms] clist.add_remove [OF assms] by blast

theorem clist_add_remove_witness:
  "\<exists>l. cycle l [8, 16, 24] \<and> lk_next l 8 = 16 \<and> cycle (list_remove 24 l) [8, 16]"
proof -
  define l where "l = fst (clist_add 8 16 (fst (clist_add 0 8 \<lparr>lk_next = \<lambda>_. 0, lk_prev = \<lambda>_. 0\<rparr>)))"
  have one: "cycle (fst (clist_add 0 8 \<lparr>lk_next = \<lambda>_. 0, lk_prev = \<lambda>_. 0\<rparr>)) [8]" by (rule clist.add_first) simp
  have "cycle l [8, 16]" using clist.add_last [OF one, of 16] by (simp add: l_def)
  from clist_add_remove [OF this, of 24]
  have "cycle (fst (clist_add 8 24 l)) [8, 16, 24]" "cycle (list_remove 24 (fst (clist_add 8 24 l))) [8, 16]" by simp_all
  moreover from this(1) have "lk_next (fst (clist_add 8 24 l)) 8 = 16" using clist.ring_next by force
  ultimately show ?thesis by blast
qed

end
