(* ===== verification/Buddy.thy ===== *)
theory Buddy imports Bits begin

text \<open>
  The buddy allocator, \<open>mm/buddy.c\<close>, on the byte store: the free blocks of each level form a doubly linked
  list whose nodes are in the blocks themselves, and two bitmaps record which pairs have one free
  block (\<open>allocation_bitmap\<close>) and which blocks are split. The bitmaps and the nodes are in one memory.
\<close>

section \<open>State (include/mm/buddy.h)\<close>

definition ALLOCATOR_MAX_LEVELS :: nat where "ALLOCATOR_MAX_LEVELS = 40"
definition ALLOCATOR_EMPTY :: addr where "ALLOCATOR_EMPTY = 0"

record allocator =
  al_memory :: addr
  al_size :: u64
  al_free_size :: u64
  al_leaf_size :: u64
  al_max_level :: int
  al_bitmap_entries :: int
  al_free_blocks :: "addr list"
  al_free_count :: "u64 list"
  al_split_bitmap :: addr
  al_allocation_bitmap :: addr

record heap = allocator +
  hp_mem :: mem

type_synonym 'a heap_proc = "(heap, 'a) kproc"

definition liftS :: "('s \<Rightarrow> 'a res) \<Rightarrow> ('s, 'a) kproc" where
  "liftS f = (\<lambda>s. mapE (\<lambda>x. (x, s)) (f s))"

text \<open>The members \<open>prev\<close> and \<open>next\<close> of a node; the page at address 0 is not mapped.\<close>

definition deref :: "addr \<Rightarrow> unit heap_proc" where
  "deref a = (if a = 0 then failS (Page_Fault 0) else returnS ())"

definition node_prev :: "addr \<Rightarrow> addr heap_proc" where
  "node_prev b = thenS (deref b) (getsS (\<lambda>s. load_u64 (hp_mem s) b))"

definition node_next :: "addr \<Rightarrow> addr heap_proc" where
  "node_next b = thenS (deref b) (getsS (\<lambda>s. load_u64 (hp_mem s) (b + 8)))"

definition set_node_prev :: "addr \<Rightarrow> addr \<Rightarrow> unit heap_proc" where
  "set_node_prev b v = thenS (deref b) (modifyS (\<lambda>s. s\<lparr>hp_mem := store_u64 (hp_mem s) b v\<rparr>))"

definition set_node_next :: "addr \<Rightarrow> addr \<Rightarrow> unit heap_proc" where
  "set_node_next b v = thenS (deref b) (modifyS (\<lambda>s. s\<lparr>hp_mem := store_u64 (hp_mem s) (b + 8) v\<rparr>))"

text \<open>The arrays \<open>free_blocks\<close> and \<open>free_count\<close>.\<close>

definition level_ok :: "int \<Rightarrow> unit heap_proc" where
  "level_ok level = (if 0 \<le> level \<and> level < int ALLOCATOR_MAX_LEVELS then returnS () else failS Out_Of_Bounds)"

definition free_block :: "int \<Rightarrow> addr heap_proc" where
  "free_block level = thenS (level_ok level) (getsS (\<lambda>s. al_free_blocks s ! nat level))"

definition set_free_block :: "int \<Rightarrow> addr \<Rightarrow> unit heap_proc" where
  "set_free_block level b =
     thenS (level_ok level) (modifyS (\<lambda>s. s\<lparr>al_free_blocks := (al_free_blocks s)[nat level := b]\<rparr>))"

definition add_free_count :: "int \<Rightarrow> u64 \<Rightarrow> unit heap_proc" where
  "add_free_count level d =
     thenS (level_ok level) (modifyS (\<lambda>s. s\<lparr>al_free_count := (al_free_count s)[nat level := al_free_count s ! nat level + d]\<rparr>))"

definition not_empty :: "addr \<Rightarrow> bool" where "not_empty block = (block \<noteq> ALLOCATOR_EMPTY)"
definition empty :: "addr \<Rightarrow> bool" where "empty block = (block = ALLOCATOR_EMPTY)"

section \<open>Geometry\<close>

definition size_from_level :: "int \<Rightarrow> u64 heap_proc" where
  "size_from_level level =
     (if 0 \<le> level \<and> level < 64 then getsS (\<lambda>s. drop_bit (nat level) (al_size s)) else failS Undefined_Behaviour)"

definition level_from_size :: "u64 \<Rightarrow> int heap_proc" where
  "level_from_size sz = liftS (\<lambda>s. bindE (log2 (al_size s)) (\<lambda>a. mapE (\<lambda>b. a - b) (log2 sz)))"

definition unique_index :: "int \<Rightarrow> int \<Rightarrow> int res" where
  "unique_index level level_index =
     bindE (c_shl1 level) (\<lambda>a. bindE (c_int (a + level_index)) (\<lambda>b. c_int (b - 1)))"

definition index_in_level :: "addr \<Rightarrow> int \<Rightarrow> int heap_proc" where
  "index_in_level block level =
     bindS (size_from_level level) (\<lambda>sz.
     if sz = 0 then failS Undefined_Behaviour
     else getsS (\<lambda>s. int_of_u64 ((block - al_memory s) div sz)))"

definition allocation_bit_index :: "addr \<Rightarrow> int \<Rightarrow> int heap_proc" where
  "allocation_bit_index block level =
     bindS (index_in_level block level) (\<lambda>level_index. liftS (\<lambda>_. unique_index (level - 1) (level_index sdiv 2)))"

definition split_bit_index :: "addr \<Rightarrow> int \<Rightarrow> int heap_proc" where
  "split_bit_index block level =
     bindS (index_in_level block level) (\<lambda>level_index. liftS (\<lambda>_. unique_index level level_index))"

text \<open>A write through one of the functions of \<open>util/bitmap.h\<close>.\<close>

definition on_bits :: "(mem \<Rightarrow> mem res) \<Rightarrow> unit heap_proc" where
  "on_bits f = (\<lambda>s. mapE (\<lambda>m. ((), s\<lparr>hp_mem := m\<rparr>)) (f (hp_mem s)))"

definition flip_allocation_bit :: "addr \<Rightarrow> int \<Rightarrow> unit heap_proc" where
  "flip_allocation_bit block level =
     (if level = 0 then returnS ()
      else bindS (allocation_bit_index block level) (\<lambda>index.
        bindS (getsS al_allocation_bitmap) (\<lambda>bitmap. on_bits (\<lambda>m. flip_bit m bitmap index))))"

definition get_allocation_bit :: "addr \<Rightarrow> int \<Rightarrow> u8 heap_proc" where
  "get_allocation_bit block level =
     bindS (allocation_bit_index block level) (\<lambda>index.
     liftS (\<lambda>s. get_bit (hp_mem s) (al_allocation_bitmap s) index))"

definition calculate_buddy_address :: "addr \<Rightarrow> int \<Rightarrow> addr heap_proc" where
  "calculate_buddy_address block level =
     bindS (getsS (\<lambda>s. s)) (\<lambda>s.
     let relative_addr = block - al_memory s in
     bindS (liftS (\<lambda>s. c_shl1 (al_max_level s - level))) (\<lambda>x.
     let relative_addr = relative_addr XOR (word_of_int x * al_leaf_size s) in
     returnS (relative_addr + al_memory s)))"

definition remove_from_list :: "addr \<Rightarrow> int \<Rightarrow> unit heap_proc" where
  "remove_from_list block level =
     bindS (node_next block) (\<lambda>nx. bindS (node_prev block) (\<lambda>pv.
     thenS (if not_empty nx then set_node_prev nx pv else returnS ())
    (thenS (bindS (node_next block) (\<lambda>nx. bindS (node_prev block) (\<lambda>pv.
       if not_empty pv then set_node_next pv nx else set_free_block level nx)))
     (add_free_count level (- 1)))))"

section \<open>Allocation\<close>

text \<open>The second half of a split block becomes the first of the list of its level.\<close>

definition push_first :: "addr \<Rightarrow> int \<Rightarrow> unit heap_proc" where
  "push_first new_block new_level =
     thenS (set_node_prev new_block ALLOCATOR_EMPTY)
    (bindS (free_block new_level) (\<lambda>first.
     thenS (set_node_next new_block first)
    (thenS (set_free_block new_level new_block)
    (thenS (bindS (node_next new_block) (\<lambda>nx. if not_empty nx then set_node_prev nx new_block else returnS ()))
     (add_free_count new_level 1)))))"

definition split :: "addr \<Rightarrow> int \<Rightarrow> unit heap_proc" where
  "split block level =
     bindS (size_from_level level) (\<lambda>sz.
     let new_size = sz div 2; new_level = level + 1; new_block = block + new_size in
     bindS (split_bit_index block level) (\<lambda>index.
     bindS (getsS al_split_bitmap) (\<lambda>bitmap.
     thenS (on_bits (\<lambda>m. set_bit m bitmap index))
    (thenS (flip_allocation_bit block level)
     (push_first new_block new_level)))))"

text \<open>The loop that looks for a free block on the levels above, and the one that splits it.\<close>

function find_source :: "int \<Rightarrow> ((addr \<times> int) option) heap_proc" where
  "find_source source_level =
     (let source_level = source_level - 1 in
      if source_level < 0 then returnS None
      else bindS (free_block source_level) (\<lambda>block.
        if empty block then find_source source_level else returnS (Some (block, source_level))))"
  by auto
termination by (relation "measure nat") auto

function split_down :: "addr \<Rightarrow> int \<Rightarrow> int \<Rightarrow> unit heap_proc" where
  "split_down block source_level level =
     (if source_level < level then thenS (split block source_level) (split_down block (source_level + 1) level)
      else returnS ())"
  by auto
termination by (relation "measure (\<lambda>(b, s, l). nat (l - s))") auto

declare find_source.simps [simp del] split_down.simps [simp del]

text \<open>\<open>create_block\<close> takes the first block off a list and leaves the link back of the block behind it.\<close>

definition drop_first :: "addr \<Rightarrow> int \<Rightarrow> unit heap_proc" where
  "drop_first block level =
     bindS (node_next block) (\<lambda>nx. thenS (set_free_block level nx) (add_free_count level (- 1)))"

definition create_block :: "int \<Rightarrow> addr heap_proc" where
  "create_block level =
     bindS (find_source level) (\<lambda>r. case r of None \<Rightarrow> returnS ALLOCATOR_EMPTY
     | Some (block, source_level) \<Rightarrow>
         thenS (drop_first block source_level)
        (thenS (split_down block source_level level) (returnS block)))"

text \<open>The first block of a list is taken off it, with the link back to it removed.\<close>

definition take_first :: "addr \<Rightarrow> int \<Rightarrow> unit heap_proc" where
  "take_first block level =
     bindS (node_next block) (\<lambda>nx.
     thenS (if not_empty nx then set_node_prev nx ALLOCATOR_EMPTY else returnS ())
    (bindS (node_next block) (\<lambda>nx.
     thenS (set_free_block level nx)
     (add_free_count level (- 1)))))"

text \<open>\<open>ceil_to_power_of_two\<close> takes and returns a \<open>long\<close>.\<close>

definition allocator_allocate :: "u64 \<Rightarrow> addr heap_proc" where
  "allocator_allocate sz =
     bindS (liftS (\<lambda>_. ceil_to_power_of_two sz)) (\<lambda>sz.
     bindS (getsS al_free_size) (\<lambda>free_size.
     if sz > free_size then returnS ALLOCATOR_EMPTY
     else
       bindS (level_from_size sz) (\<lambda>level.
       bindS (free_block level) (\<lambda>block.
       bindS (if not_empty block then thenS (take_first block level) (returnS block) else create_block level) (\<lambda>block.
       thenS (flip_allocation_bit block level)
      (thenS (if not_empty block then modifyS (\<lambda>s. s\<lparr>al_free_size := al_free_size s - sz\<rparr>) else returnS ())
       (returnS block)))))))"

section \<open>Deallocation\<close>

text \<open>The loop of \<open>allocator_deallocate_level\<close>, which gives the merged block and its level.\<close>

function merge_up :: "addr \<Rightarrow> int \<Rightarrow> (addr \<times> int) heap_proc" where
  "merge_up base_addr level =
     thenS (flip_allocation_bit base_addr level)
    (bindS (get_allocation_bit base_addr level) (\<lambda>b.
     if b \<noteq> 0 then returnS (base_addr, level)
     else
       bindS (calculate_buddy_address base_addr level) (\<lambda>buddy.
       thenS (remove_from_list buddy level)
      (bindS (split_bit_index base_addr (level - 1)) (\<lambda>parent_split_bit.
       bindS (getsS al_split_bitmap) (\<lambda>bitmap.
       thenS (on_bits (\<lambda>m. reset_bit m bitmap parent_split_bit))
      (let base_addr = (if base_addr < buddy then base_addr else buddy); level = level - 1
       in if level > 0 then merge_up base_addr level else returnS (base_addr, level))))))))"
  by auto
termination by (relation "measure (\<lambda>(b, l). nat l)") auto

declare merge_up.simps [simp del]

text \<open>The merged block becomes the first of the list of its level.\<close>

definition add_first :: "addr \<Rightarrow> int \<Rightarrow> unit heap_proc" where
  "add_first base_addr level =
     bindS (free_block level) (\<lambda>first.
     thenS (if not_empty first then set_node_prev first base_addr else returnS ())
    (bindS (free_block level) (\<lambda>first.
     thenS (set_node_next base_addr first)
    (thenS (set_node_prev base_addr ALLOCATOR_EMPTY)
    (thenS (set_free_block level base_addr)
     (add_free_count level 1))))))"

definition allocator_deallocate_level :: "addr \<Rightarrow> int \<Rightarrow> unit heap_proc" where
  "allocator_deallocate_level block level =
     bindS (size_from_level level) (\<lambda>sz.
     thenS (modifyS (\<lambda>s. s\<lparr>al_free_size := al_free_size s + sz\<rparr>))
    (bindS (merge_up block level) (\<lambda>(base_addr, level). add_first base_addr level)))"

definition allocator_deallocate_fast :: "addr \<Rightarrow> u64 \<Rightarrow> unit heap_proc" where
  "allocator_deallocate_fast block sz =
     bindS (liftS (\<lambda>_. ceil_to_power_of_two sz)) (\<lambda>sz.
     bindS (level_from_size sz) (\<lambda>level. allocator_deallocate_level block level))"

text \<open>The loop of \<open>allocation_level\<close>.\<close>

function find_level :: "addr \<Rightarrow> int \<Rightarrow> int heap_proc" where
  "find_level block level =
     (if level > 0 then
        bindS (split_bit_index block (level - 1)) (\<lambda>b.
        bindS (liftS (\<lambda>s. get_bit (hp_mem s) (al_split_bitmap s) b)) (\<lambda>v.
        if v \<noteq> 0 then returnS level else find_level block (level - 1)))
      else returnS 0)"
  by auto
termination by (relation "measure (\<lambda>(b, l). nat l)") auto

declare find_level.simps [simp del]

definition allocation_level :: "addr \<Rightarrow> int heap_proc" where
  "allocation_level block = bindS (getsS al_max_level) (find_level block)"

definition allocator_deallocate :: "addr \<Rightarrow> unit heap_proc" where
  "allocator_deallocate block =
     bindS (allocation_level block) (\<lambda>level. allocator_deallocate_level block level)"

definition allocator_allocation_size :: "addr \<Rightarrow> u64 heap_proc" where
  "allocator_allocation_size block = bindS (allocation_level block) size_from_level"

section \<open>Initialisation\<close>

definition allocator_bitmaps_size :: "u64 \<Rightarrow> u64 \<Rightarrow> u64 res" where
  "allocator_bitmaps_size memory_size leaf_size =
     (if leaf_size = 0 then Inl Undefined_Behaviour else Inr (memory_size div leaf_size * 2))"

text \<open>The loop that clears both bitmaps, from index \<open>i\<close> on.\<close>

fun clear_bitmaps :: "nat \<Rightarrow> addr \<Rightarrow> addr \<Rightarrow> mem \<Rightarrow> mem" where
  "clear_bitmaps 0 a b m = m"
| "clear_bitmaps (Suc n) a b m = clear_bitmaps n (a + 1) (b + 1) (m(a := 0, b := 0))"

definition allocator_init :: "addr \<Rightarrow> u64 \<Rightarrow> u64 \<Rightarrow> addr \<Rightarrow> unit heap_proc" where
  "allocator_init memory sz leaf_size bitmaps =
     bindS (liftS (\<lambda>_. if leaf_size = 0 then Inl Undefined_Behaviour else log2 (sz div leaf_size))) (\<lambda>max_level.
     bindS (liftS (\<lambda>_. bindE (c_shl1 max_level) (\<lambda>a. c_int (a - 1)))) (\<lambda>bitmap_entries.
     let bitmap_size = bitmap_entries sdiv 8 + 1;
         bitmaps = (if bitmaps = ALLOCATOR_EMPTY then memory else bitmaps) in
     modifyS (\<lambda>s. s\<lparr>al_memory := memory, al_size := sz, al_free_size := sz, al_leaf_size := leaf_size,
       al_max_level := max_level, al_bitmap_entries := bitmap_entries,
       al_free_blocks := (replicate ALLOCATOR_MAX_LEVELS ALLOCATOR_EMPTY)[0 := memory],
       al_free_count := (replicate ALLOCATOR_MAX_LEVELS 0)[0 := 1],
       al_allocation_bitmap := bitmaps, al_split_bitmap := bitmaps + word_of_int bitmap_size,
       hp_mem := clear_bitmaps (nat bitmap_size) bitmaps (bitmaps + word_of_int bitmap_size) (hp_mem s)\<rparr>)))"

end
