(* ===== verification/Buddy_Lists.thy ===== *)
theory Buddy_Lists imports Buddy begin

text \<open>
  The free lists of the buddy allocator: what the operations on the nodes in memory do to the lists of addresses
  they represent. The links back are kept apart, because \<open>create_block\<close> leaves that of a new head as it was.
\<close>

section \<open>Nodes in memory\<close>

definition nx :: "mem \<Rightarrow> addr \<Rightarrow> addr" where "nx m b = load_u64 m (b + 8)"
definition pv :: "mem \<Rightarrow> addr \<Rightarrow> addr" where "pv m b = load_u64 m b"

definition node :: "addr \<Rightarrow> bool" where "node b \<longleftrightarrow> b \<noteq> 0 \<and> unat b mod 16 = 0"

text \<open>The bytes of a node.\<close>

definition node_bytes :: "addr \<Rightarrow> addr set" where "node_bytes b = cell b \<union> cell (b + 8)"

definition same_outside :: "addr set \<Rightarrow> mem \<Rightarrow> mem \<Rightarrow> bool" where
  "same_outside S m m' \<longleftrightarrow> (\<forall>a. a \<notin> S \<longrightarrow> m' a = m a)"

lemma same_outside_refl [simp]: "same_outside S m m"
  by (simp add: same_outside_def)

lemma same_outside_trans: "same_outside S m m' \<Longrightarrow> same_outside T m' m'' \<Longrightarrow> S \<subseteq> U \<Longrightarrow> T \<subseteq> U \<Longrightarrow> same_outside U m m''"
  unfolding same_outside_def by (metis subsetD)

lemma same_outside_mono: "same_outside S m m' \<Longrightarrow> S \<subseteq> T \<Longrightarrow> same_outside T m m'"
  by (auto simp: same_outside_def)

lemma same_outside_store:
  "same_outside (node_bytes b) m (store_u64 m b v)" "same_outside (node_bytes b) m (store_u64 m (b + 8) v)"
  by (simp_all add: same_outside_def node_bytes_def store_u64_outside)

lemma node_next_unat:
  fixes b :: addr
  assumes "unat b mod 16 = 0"
  shows "unat (b + 8) = unat b + 8"
proof -
  have "unat b < 18446744073709551616" by (rule unat_less_u64)
  then have "unat b + 8 < 18446744073709551616" using assms by presburger
  then have "unat b + unat (8 :: u64) < 18446744073709551616" by simp
  then show ?thesis by (subst unat_add_u64) simp_all
qed

lemma node_cells:
  assumes "node b" "node c"
  shows "aligned8 b" "aligned8 (b + 8)" "b \<noteq> c + 8" "b + 8 = c + 8 \<longleftrightarrow> b = c"
proof -
  have b: "unat b mod 16 = 0" "unat c mod 16 = 0" using assms by (simp_all add: node_def)
  have u: "unat (b + 8) = unat b + 8" "unat (c + 8) = unat c + 8" by (rule node_next_unat; rule b)+
  show "aligned8 b" "aligned8 (b + 8)" unfolding aligned8_def u using b by presburger+
  show "b \<noteq> c + 8"
  proof
    assume "b = c + 8"
    then have "unat b = unat c + 8" using u by simp
    then show False using b by presburger
  qed
  show "b + 8 = c + 8 \<longleftrightarrow> b = c" by simp
qed

lemma node_stores:
  assumes "node b" "node c"
  shows "nx (store_u64 m (c + 8) v) b = (if b = c then v else nx m b)" "nx (store_u64 m c v) b = nx m b"
    "pv (store_u64 m c v) b = (if b = c then v else pv m b)" "pv (store_u64 m (c + 8) v) b = pv m b"
  using node_cells [OF assms] node_cells [OF assms(2,1)]
  by (simp_all add: nx_def pv_def load_u64_store_aligned)

section \<open>Lists in memory\<close>

text \<open>\<open>path m a bs\<close>: following the links from \<open>a\<close> visits the addresses \<open>bs\<close>; \<open>bks\<close>: all but the first link back.\<close>

fun path :: "mem \<Rightarrow> addr \<Rightarrow> addr list \<Rightarrow> bool" where
  "path m a [] \<longleftrightarrow> a = 0"
| "path m a (b # bs) \<longleftrightarrow> a = b \<and> path m (nx m b) bs"

fun bks :: "mem \<Rightarrow> addr list \<Rightarrow> bool" where
  "bks m (b # c # bs) \<longleftrightarrow> pv m c = b \<and> bks m (c # bs)"
| "bks m bs \<longleftrightarrow> True"

lemma path_cong: "(\<And>b. b \<in> set bs \<Longrightarrow> nx m' b = nx m b) \<Longrightarrow> path m' a bs = path m a bs"
  by (induction bs arbitrary: a) auto

lemma bks_cong: "(\<And>b. b \<in> set bs \<Longrightarrow> pv m' b = pv m b) \<Longrightarrow> bks m' bs = bks m bs"
  by (induction bs rule: bks.induct) auto

lemma bks_tl: "bks m (b # bs) \<Longrightarrow> bks m bs"
  by (cases bs) auto

lemma path_head: "path m a bs \<Longrightarrow> a = (case bs of [] \<Rightarrow> 0 | b # _ \<Rightarrow> b)"
  by (cases bs) auto

lemma path_append: "path m a (bs @ c # cs) \<Longrightarrow> path m c (c # cs)"
  by (induction bs arbitrary: a) auto

lemma bks_append: "bks m (bs @ c # cs) \<Longrightarrow> bks m (c # cs) \<and> (bs \<noteq> [] \<longrightarrow> pv m c = last bs) \<and> bks m bs"
  by (induction bs rule: bks.induct) (auto split: if_splits)

text \<open>
  The lists of the levels up to \<open>n\<close>, and that their heads have no link back, which \<open>create_block\<close> does not
  ensure.
\<close>

definition lists_ok :: "nat \<Rightarrow> (nat \<Rightarrow> addr list) \<Rightarrow> heap \<Rightarrow> bool" where
  "lists_ok n L h \<longleftrightarrow> length (al_free_blocks h) = 40 \<and> length (al_free_count h) = 40 \<and> n < 40 \<and>
     (\<forall>l \<le> n. path (hp_mem h) (al_free_blocks h ! l) (L l) \<and> bks (hp_mem h) (L l) \<and>
        al_free_count h ! l = of_nat (length (L l)) \<and> distinct (L l) \<and> (\<forall>b \<in> set (L l). node b)) \<and>
     (\<forall>l \<le> n. \<forall>k \<le> n. l \<noteq> k \<longrightarrow> set (L l) \<inter> set (L k) = {})"

definition heads_ok :: "nat \<Rightarrow> (nat \<Rightarrow> addr list) \<Rightarrow> heap \<Rightarrow> bool" where
  "heads_ok n L h \<longleftrightarrow> (\<forall>l \<le> n. L l \<noteq> [] \<longrightarrow> pv (hp_mem h) (hd (L l)) = 0)"

lemma lists_okD:
  assumes "lists_ok n L h" "l \<le> n"
  shows "path (hp_mem h) (al_free_blocks h ! l) (L l)" "bks (hp_mem h) (L l)" "al_free_count h ! l = of_nat (length (L l))"
    "distinct (L l)" "b \<in> set (L l) \<Longrightarrow> node b" "l < length (al_free_blocks h)" "l < length (al_free_count h)" "l < 40"
    "k \<le> n \<Longrightarrow> l \<noteq> k \<Longrightarrow> b \<in> set (L l) \<Longrightarrow> b \<notin> set (L k)"
  using assms unfolding lists_ok_def by (auto simp: disjoint_iff)

lemma first_block: "lists_ok n L h \<Longrightarrow> l \<le> n \<Longrightarrow> al_free_blocks h ! l = (case L l of [] \<Rightarrow> 0 | b # _ \<Rightarrow> b)"
  using lists_okD(1) path_head by fast

lemma free_block_run: "lists_ok n L h \<Longrightarrow> l \<le> n \<Longrightarrow> free_block (int l) h = Inr (case L l of [] \<Rightarrow> 0 | b # _ \<Rightarrow> b, h)"
  using first_block lists_okD(8) by (fastforce simp: free_block_def level_ok_def thenS_apply ALLOCATOR_MAX_LEVELS_def)

text \<open>What an update leaves of the lists: the memory of the nodes of the other levels is as before.\<close>

lemma lists_okI:
  assumes "lists_ok n L h" "l \<le> n"
    and "al_free_blocks h' = (al_free_blocks h)[l := a]" "al_free_count h' = (al_free_count h)[l := of_nat (length bs)]"
    and "path (hp_mem h') a bs" "bks (hp_mem h') bs" "distinct bs" "\<And>b. b \<in> set bs \<Longrightarrow> node b"
    and "\<And>k b. k \<le> n \<Longrightarrow> k \<noteq> l \<Longrightarrow> b \<in> set (L k) \<Longrightarrow> b \<notin> set bs \<and> nx (hp_mem h') b = nx (hp_mem h) b \<and> pv (hp_mem h') b = pv (hp_mem h) b"
  shows "lists_ok n (L(l := bs)) h'"
proof -
  note d = lists_okD [OF assms(1)]
  have other: "path (hp_mem h') (al_free_blocks h ! k) (L k)" "bks (hp_mem h') (L k)" if "k \<le> n" "k \<noteq> l" for k
    using d(1,2) [OF that(1)] path_cong [of "L k" "hp_mem h'" "hp_mem h"] bks_cong [of "L k" "hp_mem h'" "hp_mem h"]
      assms(9) [OF that] by auto
  have len: "length (al_free_blocks h) = 40" "length (al_free_count h) = 40" "n < 40" using assms(1) by (simp_all add: lists_ok_def)
  show ?thesis unfolding lists_ok_def
  proof (intro conjI allI impI)
    fix k assume k: "k \<le> n"
    show "path (hp_mem h') (al_free_blocks h' ! k) ((L(l := bs)) k)" "bks (hp_mem h') ((L(l := bs)) k)"
        "al_free_count h' ! k = of_nat (length ((L(l := bs)) k))" "distinct ((L(l := bs)) k)" "\<forall>b \<in> set ((L(l := bs)) k). node b"
      using other [OF k] d [OF k] assms(2-8) len k by (auto simp: nth_list_update)
    fix j assume "j \<le> n" "k \<noteq> j"
    then show "set ((L(l := bs)) k) \<inter> set ((L(l := bs)) j) = {}"
      using assms(9) k d(9) [OF k, of j] by (auto simp: fun_upd_def)
  qed (use len assms(3,4) in auto)
qed

section \<open>The operations on the lists\<close>

text \<open>What an operation may change: the lists, and the memory inside \<open>S\<close>.\<close>

definition fixed_fields :: "heap \<Rightarrow> addr \<times> u64 \<times> u64 \<times> u64 \<times> int \<times> int \<times> addr \<times> addr" where
  "fixed_fields h = (al_memory h, al_size h, al_free_size h, al_leaf_size h, al_max_level h, al_bitmap_entries h,
     al_split_bitmap h, al_allocation_bitmap h)"

definition heap_step :: "addr set \<Rightarrow> heap \<Rightarrow> heap \<Rightarrow> bool" where
  "heap_step S h h' \<longleftrightarrow> fixed_fields h' = fixed_fields h \<and> same_outside S (hp_mem h) (hp_mem h')"

lemma heap_step_refl [simp]: "heap_step S h h"
  by (simp add: heap_step_def)

lemma heap_step_trans: "heap_step S h h' \<Longrightarrow> heap_step T h' h'' \<Longrightarrow> S \<subseteq> U \<Longrightarrow> T \<subseteq> U \<Longrightarrow> heap_step U h h''"
  unfolding heap_step_def by (auto intro: same_outside_trans)

lemma heap_step_mono: "heap_step S h h' \<Longrightarrow> S \<subseteq> T \<Longrightarrow> heap_step T h h'"
  by (auto simp: heap_step_def intro: same_outside_mono)

lemma heap_step_fields:
  assumes "heap_step S h h'"
  shows "al_memory h' = al_memory h" "al_size h' = al_size h" "al_free_size h' = al_free_size h"
    "al_leaf_size h' = al_leaf_size h" "al_max_level h' = al_max_level h" "al_split_bitmap h' = al_split_bitmap h"
    "al_allocation_bitmap h' = al_allocation_bitmap h" "a \<notin> S \<Longrightarrow> hp_mem h' a = hp_mem h a"
  using assms by (simp_all add: heap_step_def fixed_fields_def same_outside_def)

lemmas node_simps = node_next_def node_prev_def set_node_next_def set_node_prev_def deref_def bindS_apply thenS_apply
  set_free_block_def add_free_count_def level_ok_def ALLOCATOR_MAX_LEVELS_def not_empty_def empty_def ALLOCATOR_EMPTY_def

lemma nx_hd: "path m (nx m b) bs \<Longrightarrow> nx m b = (case bs of [] \<Rightarrow> 0 | c # _ \<Rightarrow> c)"
  by (rule path_head)

lemma node_nonzero: "node b \<Longrightarrow> b \<noteq> 0"
  by (simp add: node_def)

lemma count_pred: "(of_nat (Suc n) :: u64) + - 1 = of_nat n"
  by simp

text \<open>Taking the first block off.\<close>

lemma take_first_run:
  assumes h: "lists_ok n L h" "l \<le> n" "L l = b # bs"
  shows "\<exists>h'. take_first b (int l) h = Inr ((), h') \<and> lists_ok n (L(l := bs)) h' \<and>
    (heads_ok n L h \<longrightarrow> heads_ok n (L(l := bs)) h') \<and> heap_step (\<Union>(node_bytes ` set bs)) h h'"
proof -
  note d = lists_okD [OF h(1,2)]
  let ?m = "hp_mem h"
  have p: "path ?m (nx ?m b) bs" "bks ?m (b # bs)" "distinct (b # bs)" "\<And>x. x \<in> set (b # bs) \<Longrightarrow> node x"
    using d h(3) by auto
  define m' where "m' = (case bs of [] \<Rightarrow> ?m | c # _ \<Rightarrow> store_u64 ?m c 0)"
  define h' where "h' = h\<lparr>al_free_blocks := (al_free_blocks h)[l := nx ?m b], al_free_count := (al_free_count h)[l := of_nat (length bs)],
    hp_mem := m'\<rparr>"
  have b0: "b \<noteq> 0" using p(4) node_nonzero by simp
  have nx': "nx m' x = nx ?m x" if "node x" for x
    using that p(4) node_stores(2) by (cases bs) (auto simp: m'_def)
  have pv': "pv m' x = pv ?m x" if "node x" "bs = [] \<or> x \<noteq> hd bs" for x
    using that p(4) node_stores(3) by (cases bs) (auto simp: m'_def)
  have cnt: "al_free_count h ! l + - 1 = of_nat (length bs)" using d(3) h(3) by simp
  have nb: "node b" using p(4) by simp
  have run: "take_first b (int l) h = Inr ((), h')"
  proof (cases bs)
    case Nil
    then have "nx ?m b = 0" using p(1) by simp
    then show ?thesis using Nil b0 d(8) cnt
      by (simp add: take_first_def node_simps h'_def m'_def nx_def [symmetric] del: add_uminus_conv_diff)
  next
    case (Cons c cs)
    then have "nx ?m b = c" "c \<noteq> 0" using p(1,4) node_nonzero by auto
    moreover have "load_u64 (store_u64 ?m c 0) (b + 8) = nx ?m b" using nx' [OF nb] Cons by (simp add: m'_def nx_def)
    ultimately show ?thesis using Cons b0 d(8) cnt
      by (simp add: take_first_def node_simps h'_def m'_def nx_def [symmetric] del: add_uminus_conv_diff)
  qed
  have path': "path m' (nx ?m b) bs" using p(1,4) nx' path_cong [of bs m' ?m] by simp
  have bks': "bks m' bs"
  proof (cases bs)
    case (Cons c cs)
    then have "bks ?m (c # cs)" using p(2) by simp
    then have "bks m' (c # cs)"
    proof (cases cs)
      case (Cons x xs)
      have "bks m' (c # cs) \<longleftrightarrow> pv m' x = c \<and> bks m' cs" by (simp add: Cons)
      moreover have "pv m' y = pv ?m y" if "y \<in> set cs" for y
        using that p(3,4) pv' \<open>bs = c # cs\<close> by auto
      moreover have "bks ?m cs" "pv ?m x = c" using \<open>bks ?m (c # cs)\<close> by (simp_all add: Cons)
      ultimately show ?thesis using bks_cong [of cs m' ?m] Cons by simp
    qed simp
    then show ?thesis by (simp add: Cons)
  qed simp
  have ok: "lists_ok n (L(l := bs)) h'"
  proof (rule lists_okI [OF h(1,2), where a = "nx ?m b"])
    fix k x assume k: "k \<le> n" "k \<noteq> l" "x \<in> set (L k)"
    then have x: "node x" "x \<notin> set (L l)" using lists_okD(5,9) [OF h(1)] h(2) by blast+
    then show "x \<notin> set bs \<and> nx (hp_mem h') x = nx ?m x \<and> pv (hp_mem h') x = pv ?m x"
      using h(3) nx' pv' by (cases bs) (auto simp: h'_def)
  qed (use path' bks' p in \<open>auto simp: h'_def\<close>)
  have heads: "heads_ok n (L(l := bs)) h'" if "heads_ok n L h"
    unfolding heads_ok_def
  proof (intro allI impI)
    fix k assume k: "k \<le> n" "(L(l := bs)) k \<noteq> []"
    show "pv (hp_mem h') (hd ((L(l := bs)) k)) = 0"
    proof (cases "k = l")
      case True
      then obtain c cs where c: "bs = c # cs" using k(2) by (cases bs) auto
      then have "node c" using p(4) by simp
      then show ?thesis using True c node_stores(3) [of c c] by (simp add: h'_def m'_def)
    next
      case False
      then have "hd (L k) \<in> set (L k)" using k(2) by simp
      then have x: "node (hd (L k))" "hd (L k) \<notin> set (L l)" using lists_okD(5,9) [OF h(1)] h(2) k(1) False by blast+
      have "pv m' (hd (L k)) = pv ?m (hd (L k))" using x pv' h(3) by (cases bs) auto
      then show ?thesis using that k False by (simp add: heads_ok_def h'_def)
    qed
  qed
  have "same_outside (\<Union>(node_bytes ` set bs)) ?m m'"
    by (cases bs) (auto simp: m'_def intro!: same_outside_mono [OF same_outside_store(1)])
  then have "heap_step (\<Union>(node_bytes ` set bs)) h h'" by (simp add: heap_step_def fixed_fields_def h'_def)
  then show ?thesis using run ok heads by blast
qed

lemma drop_first_run:
  assumes h: "lists_ok n L h" "l \<le> n" "L l = b # bs"
  shows "\<exists>h'. drop_first b (int l) h = Inr ((), h') \<and> lists_ok n (L(l := bs)) h' \<and>
    (heads_ok n L h \<and> bs = [] \<longrightarrow> heads_ok n (L(l := bs)) h') \<and> heap_step {} h h'"
proof -
  note d = lists_okD [OF h(1,2)]
  let ?m = "hp_mem h"
  have p: "path ?m (nx ?m b) bs" "bks ?m (b # bs)" "distinct (b # bs)" "\<And>x. x \<in> set (b # bs) \<Longrightarrow> node x"
    using d h(3) by auto
  define h' where "h' = h\<lparr>al_free_blocks := (al_free_blocks h)[l := nx ?m b], al_free_count := (al_free_count h)[l := of_nat (length bs)]\<rparr>"
  have b0: "b \<noteq> 0" using p(4) node_nonzero by simp
  have cnt: "al_free_count h ! l + - 1 = of_nat (length bs)" using d(3) h(3) by simp
  have run: "drop_first b (int l) h = Inr ((), h')"
    using b0 d(8) cnt by (simp add: drop_first_def node_simps h'_def nx_def [symmetric] del: add_uminus_conv_diff)
  have ok: "lists_ok n (L(l := bs)) h'"
  proof (rule lists_okI [OF h(1,2), where a = "nx ?m b"])
    fix k x assume k: "k \<le> n" "k \<noteq> l" "x \<in> set (L k)"
    then have "x \<notin> set (L l)" using lists_okD(9) [OF h(1)] h(2) by blast
    then show "x \<notin> set bs \<and> nx (hp_mem h') x = nx ?m x \<and> pv (hp_mem h') x = pv ?m x"
      using h(3) by (auto simp: h'_def)
  qed (use p bks_tl in \<open>auto simp: h'_def\<close>)
  have "heads_ok n (L(l := bs)) h'" if "heads_ok n L h" "bs = []"
    using that by (auto simp: heads_ok_def h'_def)
  then show ?thesis using run ok by (auto simp: heap_step_def fixed_fields_def h'_def)
qed

lemma pushed:
  assumes h: "lists_ok n L h" "l \<le> n" and b: "node b" "\<And>k. k \<le> n \<Longrightarrow> b \<notin> set (L k)"
    and m': "\<And>x. node x \<Longrightarrow> nx m' x = (if x = b then al_free_blocks h ! l else nx (hp_mem h) x)"
      "\<And>x. node x \<Longrightarrow> pv m' x = (if x = b then 0 else if L l \<noteq> [] \<and> x = hd (L l) then b else pv (hp_mem h) x)"
    and h': "h' = h\<lparr>al_free_blocks := (al_free_blocks h)[l := b], al_free_count := (al_free_count h)[l := al_free_count h ! l + 1], hp_mem := m'\<rparr>"
  shows "lists_ok n (L(l := b # L l)) h'" "heads_ok n L h \<Longrightarrow> heads_ok n (L(l := b # L l)) h'"
proof -
  note d = lists_okD [OF h(1,2)]
  let ?m = "hp_mem h"
  have path': "path m' b (b # L l)"
  proof -
    have "path m' (al_free_blocks h ! l) (L l) = path ?m (al_free_blocks h ! l) (L l)"
    proof (rule path_cong)
      fix x assume "x \<in> set (L l)"
      then show "nx m' x = nx ?m x" using m'(1) d(5) b(2) [OF h(2)] by auto
    qed
    then show ?thesis using d(1) m'(1) b(1) by simp
  qed
  have bks': "bks m' (b # L l)"
  proof (cases "L l")
    case (Cons c cs)
    have "bks m' (c # cs)"
    proof (cases cs)
      case (Cons x xs)
      have L: "L l = c # x # xs" using Cons \<open>L l = c # cs\<close> by simp
      have "pv m' y = pv ?m y" if "y \<in> set (x # xs)" for y
        using that d(4,5) b(2) [OF h(2)] m'(2) [of y] by (auto simp: L)
      then have "pv m' x = pv ?m x" "bks m' (x # xs) = bks ?m (x # xs)"
        by (simp, intro bks_cong, simp)
      then show ?thesis using d(2) by (simp add: L Cons)
    qed simp
    moreover have "pv m' c = b" using m'(2) [of c] d(5) b(2) [OF h(2)] Cons by auto
    ultimately show ?thesis by (simp add: Cons)
  qed simp
  show "lists_ok n (L(l := b # L l)) h'"
  proof (rule lists_okI [OF h, where a = b])
    fix k x assume k: "k \<le> n" "k \<noteq> l" "x \<in> set (L k)"
    then have x: "node x" "x \<notin> set (L l)" "x \<noteq> b" using lists_okD(5,9) [OF h(1)] h(2) b(2) by blast+
    then show "x \<notin> set (b # L l) \<and> nx (hp_mem h') x = nx ?m x \<and> pv (hp_mem h') x = pv ?m x"
      using m' h' hd_in_set by force
  qed (use path' bks' d b h in \<open>auto simp: h' add.commute\<close>)
  show "heads_ok n (L(l := b # L l)) h'" if g: "heads_ok n L h"
    unfolding heads_ok_def
  proof (intro allI impI)
    fix k assume k: "k \<le> n" "(L(l := b # L l)) k \<noteq> []"
    show "pv (hp_mem h') (hd ((L(l := b # L l)) k)) = 0"
    proof (cases "k = l")
      case True
      then show ?thesis using m'(2) b(1) h' by simp
    next
      case False
      then have "hd (L k) \<in> set (L k)" using k(2) by simp
      then have x: "node (hd (L k))" "hd (L k) \<notin> set (L l)" "hd (L k) \<noteq> b"
        using lists_okD(5,9) [OF h(1)] h(2) k(1) False b(2) by blast+
      then have "\<not> (L l \<noteq> [] \<and> hd (L k) = hd (L l))" by auto
      then show ?thesis using m'(2) [OF x(1)] x(3) g k False by (auto simp: heads_ok_def h')
    qed
  qed
qed

lemma first_node:
  assumes "lists_ok n L h" "l \<le> n"
  shows "L l = [] \<and> al_free_blocks h ! l = 0 \<or> L l \<noteq> [] \<and> al_free_blocks h ! l = hd (L l) \<and> node (hd (L l)) \<and> hd (L l) \<noteq> 0"
  using first_block [OF assms] lists_okD(5) [OF assms, of "hd (L l)"] node_nonzero by (cases "L l") auto

lemma node_bytes_in: "cell b \<subseteq> node_bytes b" "cell (b + 8) \<subseteq> node_bytes b"
  by (auto simp: node_bytes_def)

lemma push_first_run:
  assumes h: "lists_ok n L h" "l \<le> n" and b: "node b" "\<And>k. k \<le> n \<Longrightarrow> b \<notin> set (L k)"
  shows "\<exists>h'. push_first b (int l) h = Inr ((), h') \<and> lists_ok n (L(l := b # L l)) h' \<and>
    (heads_ok n L h \<longrightarrow> heads_ok n (L(l := b # L l)) h') \<and> heap_step (\<Union>(node_bytes ` set (b # L l))) h h'"
proof -
  let ?f = "al_free_blocks h ! l"
  have l: "l < 40" using lists_okD(8) [OF h] .
  define m1 where "m1 = store_u64 (store_u64 (hp_mem h) b 0) (b + 8) ?f"
  define m' where "m' = (if L l = [] then m1 else store_u64 m1 ?f b)"
  define h' where "h' = h\<lparr>al_free_blocks := (al_free_blocks h)[l := b], al_free_count := (al_free_count h)[l := al_free_count h ! l + 1], hp_mem := m'\<rparr>"
  note f = first_node [OF h]
  have neq: "L l \<noteq> [] \<Longrightarrow> hd (L l) \<noteq> b" using b(2) [OF h(2)] by (metis hd_in_set)
  have run: "push_first b (int l) h = Inr ((), h')"
    using f l node_nonzero [OF b(1)]
    by (auto simp: push_first_def node_simps free_block_def h'_def m'_def m1_def)
  have nx': "nx m' x = (if x = b then ?f else nx (hp_mem h) x)" if "node x" for x
    using that b(1) f node_stores by (auto simp: m'_def m1_def)
  have pv': "pv m' x = (if x = b then 0 else if L l \<noteq> [] \<and> x = hd (L l) then b else pv (hp_mem h) x)" if "node x" for x
    using that b(1) f node_stores neq by (auto simp: m'_def m1_def)
  have "same_outside (\<Union>(node_bytes ` set (b # L l))) (hp_mem h) m1" unfolding m1_def
    by (rule same_outside_trans [OF same_outside_store(1) same_outside_store(2)]) auto
  moreover have "same_outside (\<Union>(node_bytes ` set (b # L l))) m1 m'"
    using f by (auto simp: m'_def intro!: same_outside_mono [OF same_outside_store(1)])
  ultimately have "same_outside (\<Union>(node_bytes ` set (b # L l))) (hp_mem h) m'"
    by (rule same_outside_trans) simp_all
  then have "heap_step (\<Union>(node_bytes ` set (b # L l))) h h'" by (simp add: heap_step_def fixed_fields_def h'_def)
  then show ?thesis using run pushed [OF h b nx' pv' h'_def] by blast
qed

lemma add_first_run:
  assumes h: "lists_ok n L h" "l \<le> n" and b: "node b" "\<And>k. k \<le> n \<Longrightarrow> b \<notin> set (L k)"
  shows "\<exists>h'. add_first b (int l) h = Inr ((), h') \<and> lists_ok n (L(l := b # L l)) h' \<and>
    (heads_ok n L h \<longrightarrow> heads_ok n (L(l := b # L l)) h') \<and> heap_step (\<Union>(node_bytes ` set (b # L l))) h h'"
proof -
  let ?f = "al_free_blocks h ! l"
  have l: "l < 40" using lists_okD(8) [OF h] .
  define m1 where "m1 = (if L l = [] then hp_mem h else store_u64 (hp_mem h) ?f b)"
  define m' where "m' = store_u64 (store_u64 m1 (b + 8) ?f) b 0"
  define h' where "h' = h\<lparr>al_free_blocks := (al_free_blocks h)[l := b], al_free_count := (al_free_count h)[l := al_free_count h ! l + 1], hp_mem := m'\<rparr>"
  note f = first_node [OF h]
  have neq: "L l \<noteq> [] \<Longrightarrow> hd (L l) \<noteq> b" using b(2) [OF h(2)] by (metis hd_in_set)
  have run: "add_first b (int l) h = Inr ((), h')"
    using f l node_nonzero [OF b(1)]
    by (auto simp: add_first_def node_simps free_block_def h'_def m'_def m1_def)
  have nx': "nx m' x = (if x = b then ?f else nx (hp_mem h) x)" if "node x" for x
    using that b(1) f node_stores by (auto simp: m'_def m1_def)
  have pv': "pv m' x = (if x = b then 0 else if L l \<noteq> [] \<and> x = hd (L l) then b else pv (hp_mem h) x)" if "node x" for x
    using that b(1) f node_stores neq by (auto simp: m'_def m1_def)
  have "same_outside (\<Union>(node_bytes ` set (b # L l))) m1 m'" unfolding m'_def
    by (rule same_outside_trans [OF same_outside_store(2) same_outside_store(1)]) auto
  moreover have "same_outside (\<Union>(node_bytes ` set (b # L l))) (hp_mem h) m1"
    using f by (auto simp: m1_def intro!: same_outside_mono [OF same_outside_store(1)])
  ultimately have "same_outside (\<Union>(node_bytes ` set (b # L l))) (hp_mem h) m'"
    using same_outside_trans by blast
  then have "heap_step (\<Union>(node_bytes ` set (b # L l))) h h'" by (simp add: heap_step_def fixed_fields_def h'_def)
  then show ?thesis using run pushed [OF h b nx' pv' h'_def] by blast
qed

text \<open>Taking a block out of the middle: its neighbours are linked to each other.\<close>

lemma path_remove:
  assumes "path m a (xs @ b # ys)" "\<And>x. x \<in> set (xs @ ys) \<Longrightarrow> nx m' x = (if xs \<noteq> [] \<and> x = last xs then nx m b else nx m x)"
    "distinct (xs @ b # ys)"
  shows "path m' (if xs = [] then nx m b else a) (xs @ ys)"
  using assms
proof (induction xs arbitrary: a)
  case Nil
  then show ?case using path_cong [of ys m' m "nx m b"] by simp
next
  case (Cons x xs)
  show ?case
  proof (cases xs)
    case Nil
    have "path m (nx m b) ys" using Cons.prems(1) Nil by auto
    moreover have "nx m' y = nx m y" if "y \<in> set ys" for y using Cons.prems(2) [of y] Cons.prems(3) Nil that by auto
    ultimately have "path m' (nx m b) ys" using path_cong [of ys m' m "nx m b"] by simp
    then show ?thesis using Cons.prems Nil by auto
  next
    case (Cons y zs)
    have "path m' (if xs = [] then nx m b else nx m x) (xs @ ys)"
      using Cons.prems Cons by (intro Cons.IH) auto
    moreover have "nx m' x = nx m x" using Cons.prems(2) [of x] Cons.prems(3) Cons by auto
    ultimately show ?thesis using Cons.prems(1) Cons by simp
  qed
qed

lemma bks_relink:
  assumes "bks m ys" "distinct ys" "\<And>x. x \<in> set ys \<Longrightarrow> x \<noteq> hd ys \<Longrightarrow> pv m' x = pv m x"
  shows "bks m' ys"
proof (cases ys)
  case (Cons y zs)
  show ?thesis
  proof (cases zs)
    case (Cons z ws)
    have e: "pv m' x = pv m x" if "x \<in> set zs" for x
      using assms(2,3) that \<open>ys = y # zs\<close> by auto
    then have "bks m' zs = bks m zs" by (rule bks_cong)
    then show ?thesis using assms(1) e [of z] Cons \<open>ys = y # zs\<close> by simp
  qed (simp add: Cons)
qed simp

lemma bks_remove:
  assumes "bks m (xs @ b # ys)" "distinct (xs @ b # ys)"
    "\<And>x. x \<in> set (xs @ ys) \<Longrightarrow> pv m' x = (if ys \<noteq> [] \<and> x = hd ys then pv m b else pv m x)"
  shows "bks m' (xs @ ys)"
  using assms
proof (induction xs)
  case Nil
  have "bks m' ys"
  proof (rule bks_relink)
    show "bks m ys" using Nil.prems(1) bks_tl [of m b ys] by simp
    show "distinct ys" using Nil.prems(2) by simp
    show "pv m' x = pv m x" if "x \<in> set ys" "x \<noteq> hd ys" for x using Nil.prems(3) that by simp
  qed
  then show ?case by simp
next
  case (Cons x xs)
  note prems = Cons.prems
  show ?case
  proof (cases xs)
    case Nil
    have b: "bks m ys" "pv m b = x" using Cons.prems(1) Nil bks_tl [of m b ys] by simp_all
    have ys: "bks m' ys"
    proof (rule bks_relink [OF b(1)])
      show "distinct ys" using Cons.prems(2) by simp
      show "pv m' z = pv m z" if "z \<in> set ys" "z \<noteq> hd ys" for z using Cons.prems(3) that by simp
    qed
    show ?thesis
    proof (cases ys)
      case (Cons y zs)
      have "pv m' y = x" using prems(3) [of y] b(2) Cons by simp
      then show ?thesis using ys Cons Nil by simp
    qed (simp add: Nil)
  next
    case (Cons y zs)
    have "bks m' (xs @ ys)" using Cons.prems Cons by (intro Cons.IH) auto
    moreover have "pv m' y = pv m y" using Cons.prems(2) Cons.prems(3) [of y] Cons by (cases ys) auto
    ultimately show ?thesis using Cons.prems(1) Cons by simp
  qed
qed

lemma remove_from_list_run:
  assumes h: "lists_ok n L h" "l \<le> n" "heads_ok n L h" and b: "L l = xs @ b # ys"
  shows "\<exists>h'. remove_from_list b (int l) h = Inr ((), h') \<and> lists_ok n (L(l := xs @ ys)) h' \<and>
    heads_ok n (L(l := xs @ ys)) h' \<and> heap_step (\<Union>(node_bytes ` set (xs @ ys))) h h'"
proof -
  note d = lists_okD [OF h(1,2)]
  let ?m = "hp_mem h"
  let ?S = "\<Union>(node_bytes ` set (xs @ ys))"
  have l: "l < 40" "l < length (al_free_blocks h)" using d by auto
  have p: "path ?m (al_free_blocks h ! l) (xs @ b # ys)" "bks ?m (xs @ b # ys)" "distinct (xs @ b # ys)"
      "\<And>x. x \<in> set (xs @ b # ys) \<Longrightarrow> node x" "node b"
    using d b by auto
  have nxb: "nx ?m b = (case ys of [] \<Rightarrow> 0 | c # _ \<Rightarrow> c)" using path_append [OF p(1)] nx_hd by auto
  have pvb: "pv ?m b = (if xs = [] then 0 else last xs)"
    using bks_append [OF p(2)] h(2,3) b by (auto simp: heads_ok_def)
  define m1 where "m1 = (if ys = [] then ?m else store_u64 ?m (hd ys) (pv ?m b))"
  define m' where "m' = (if xs = [] then m1 else store_u64 m1 (last xs + 8) (nx ?m b))"
  define a where "a = (if xs = [] then nx ?m b else al_free_blocks h ! l)"
  define h' where "h' = h\<lparr>al_free_blocks := (al_free_blocks h)[l := a], al_free_count := (al_free_count h)[l := of_nat (length (xs @ ys))], hp_mem := m'\<rparr>"
  have ends: "ys \<noteq> [] \<Longrightarrow> node (hd ys)" "xs \<noteq> [] \<Longrightarrow> node (last xs)" using p(4) by auto
  have neq: "ys \<noteq> [] \<Longrightarrow> hd ys \<noteq> b" "xs \<noteq> [] \<Longrightarrow> last xs \<noteq> b" using p(3) by (auto dest: hd_in_set last_in_set)
  have nx1: "nx m1 x = nx ?m x" if "node x" for x using that ends node_stores by (simp add: m1_def)
  have nx': "nx m' x = (if xs \<noteq> [] \<and> x = last xs then nx ?m b else nx ?m x)" if "node x" for x
    using that ends node_stores nx1 by (simp add: m'_def)
  have pv1: "pv m1 x = (if ys \<noteq> [] \<and> x = hd ys then pv ?m b else pv ?m x)" if "node x" for x
    using that ends node_stores by (simp add: m1_def)
  have pv': "pv m' x = (if ys \<noteq> [] \<and> x = hd ys then pv ?m b else pv ?m x)" if "node x" for x
    using that ends node_stores pv1 by (simp add: m'_def)
  have b0: "b \<noteq> 0" "ys \<noteq> [] \<Longrightarrow> hd ys \<noteq> 0" "xs \<noteq> [] \<Longrightarrow> last xs \<noteq> 0" using p(5) ends node_nonzero by auto
  have nx_b: "load_u64 ?m (b + 8) = nx ?m b" "load_u64 m1 (b + 8) = nx ?m b" "load_u64 ?m b = pv ?m b" "load_u64 m1 b = pv ?m b"
    using nx1 [OF p(5)] pv1 [OF p(5)] neq(1) by (auto simp: nx_def pv_def)
  have cnt: "al_free_count h ! l + - 1 = of_nat (length (xs @ ys))" using d(3) b by simp
  let ?h1 = "h\<lparr>hp_mem := m1\<rparr>" and ?h2 = "h\<lparr>al_free_blocks := (al_free_blocks h)[l := a], hp_mem := m'\<rparr>"
  have reads: "node_next b h = Inr (nx ?m b, h)" "node_prev b h = Inr (pv ?m b, h)"
    "node_next b ?h1 = Inr (nx ?m b, ?h1)" "node_prev b ?h1 = Inr (pv ?m b, ?h1)"
    using b0(1) nx_b by (simp_all add: node_next_def node_prev_def deref_def thenS_apply)
  have step1: "(if not_empty (nx ?m b) then set_node_prev (nx ?m b) (pv ?m b) else returnS ()) h = Inr ((), ?h1)"
    using nxb b0(2) by (cases ys) (auto simp: node_simps m1_def)
  have step2: "(if not_empty (pv ?m b) then set_node_next (pv ?m b) (nx ?m b) else set_free_block (int l) (nx ?m b)) ?h1 = Inr ((), ?h2)"
  proof (cases "xs = []")
    case True
    then show ?thesis using pvb l by (simp add: node_simps m'_def a_def)
  next
    case False
    then show ?thesis using pvb b0(3) by (simp add: node_simps m'_def a_def)
  qed
  have step3: "add_free_count (int l) (- 1) ?h2 = Inr ((), h')"
    unfolding h'_def cnt [symmetric] using l by (simp add: node_simps)
  have run: "remove_from_list b (int l) h = Inr ((), h')"
    unfolding remove_from_list_def bindS_apply thenS_apply by (simp only: reads step1 step2 step3 res_simps split_conv)
  have path': "path m' a (xs @ ys)"
    unfolding a_def by (rule path_remove [OF p(1) _ p(3)]) (rule nx', use p(4) in auto)
  have bks': "bks m' (xs @ ys)" by (rule bks_remove [OF p(2,3)]) (rule pv', use p(4) in auto)
  have ok: "lists_ok n (L(l := xs @ ys)) h'"
  proof (rule lists_okI [OF h(1,2), where a = a])
    fix k x assume k: "k \<le> n" "k \<noteq> l" "x \<in> set (L k)"
    then have x: "node x" "x \<notin> set (L l)" using lists_okD(5,9) [OF h(1)] h(2) by blast+
    then show "x \<notin> set (xs @ ys) \<and> nx (hp_mem h') x = nx ?m x \<and> pv (hp_mem h') x = pv ?m x"
      using nx' pv' b by (auto simp: h'_def)
  qed (use path' bks' p in \<open>auto simp: h'_def\<close>)
  have heads: "heads_ok n (L(l := xs @ ys)) h'" unfolding heads_ok_def
  proof (intro allI impI)
    fix k assume k: "k \<le> n" "(L(l := xs @ ys)) k \<noteq> []"
    show "pv (hp_mem h') (hd ((L(l := xs @ ys)) k)) = 0"
    proof (cases "k = l")
      case True
      show ?thesis
      proof (cases xs)
        case Nil
        then show ?thesis using k True pv' [OF ends(1)] pvb by (simp add: h'_def)
      next
        case (Cons x zs)
        have "x \<notin> set ys" "node x" using p(3,4) Cons by auto
        then have "pv m' x = pv ?m x" using pv' by auto
        moreover have "pv ?m x = 0" using h(2,3) b Cons by (auto simp: heads_ok_def)
        ultimately show ?thesis using True Cons by (simp add: h'_def)
      qed
    next
      case False
      then have "hd (L k) \<in> set (L k)" using k(2) by simp
      then have x: "node (hd (L k))" "hd (L k) \<notin> set (L l)" using lists_okD(5,9) [OF h(1)] h(2) k(1) False by blast+
      then have "pv m' (hd (L k)) = pv ?m (hd (L k))" using pv' b by auto
      then show ?thesis using h(3) k False by (simp add: heads_ok_def h'_def)
    qed
  qed
  have "same_outside ?S ?m m1"
    by (auto simp: m1_def intro!: same_outside_mono [OF same_outside_store(1)])
  moreover have "same_outside ?S m1 m'"
    by (auto simp: m'_def intro!: same_outside_mono [OF same_outside_store(2)])
  ultimately have "same_outside ?S ?m m'" by (rule same_outside_trans) simp_all
  then have "heap_step ?S h h'" by (simp add: heap_step_def fixed_fields_def h'_def)
  then show ?thesis using run ok heads by blast
qed

end
