(* ===== verification/Buddy_Tree.thy ===== *)
theory Buddy_Tree imports Buddy_Lists begin

text \<open>
  The blocks of the buddy allocator as a binary tree: a block of level \<open>l\<close> and index \<open>i\<close> is free, in use, split
  into the blocks \<open>2 * i\<close> and \<open>2 * i + 1\<close> of level \<open>l + 1\<close>, or not there. The addresses of the blocks, the numbers
  of their bits, and what the bitmaps and the free lists say of the tree.
\<close>

section \<open>The tree\<close>

datatype bstate = Absent | Free | Used | Split

type_synonym block = "nat \<times> nat"
type_synonym btree = "block \<Rightarrow> bstate"

definition nodes :: "nat \<Rightarrow> block set" where "nodes M = {(l, i). l \<le> M \<and> i < 2 ^ l}"

definition tree_ok :: "nat \<Rightarrow> btree \<Rightarrow> bool" where
  "tree_ok M st \<longleftrightarrow> st (0, 0) \<noteq> Absent \<and> (\<forall>i < 2 ^ M. st (M, i) \<noteq> Split) \<and>
     (\<forall>l < M. \<forall>i < 2 ^ l. (st (Suc l, 2 * i) \<noteq> Absent \<longleftrightarrow> st (l, i) = Split) \<and>
        (st (Suc l, 2 * i + 1) \<noteq> Absent \<longleftrightarrow> st (l, i) = Split))"

definition leaf :: "bstate \<Rightarrow> bool" where "leaf x \<longleftrightarrow> x = Free \<or> x = Used"

lemma tree_okD:
  assumes "tree_ok M st" "l < M" "i < 2 ^ l"
  shows "st (Suc l, 2 * i) \<noteq> Absent \<longleftrightarrow> st (l, i) = Split" "st (Suc l, Suc (2 * i)) \<noteq> Absent \<longleftrightarrow> st (l, i) = Split"
  using assms by (auto simp: tree_ok_def)

lemma tree_ok_parent:
  assumes "tree_ok M st" "Suc l \<le> M" "i < 2 ^ Suc l"
  shows "st (Suc l, i) \<noteq> Absent \<longleftrightarrow> st (l, i div 2) = Split"
proof -
  have "i div 2 < 2 ^ l" using assms(3) by auto
  moreover have "i = 2 * (i div 2) \<or> i = Suc (2 * (i div 2))" by presburger
  ultimately show ?thesis using tree_okD [OF assms(1), of l "i div 2"] assms(2) by (cases "i = 2 * (i div 2)") auto
qed

text \<open>Above a block that is there everything is split; below one that is not split nothing is there.\<close>

lemma above_split:
  assumes "tree_ok M st" "l \<le> M" "i < 2 ^ l" "st (l, i) \<noteq> Absent" "k < l"
  shows "st (k, i div 2 ^ (l - k)) = Split"
  using assms(2-)
proof (induction l arbitrary: i)
  case (Suc l)
  have p: "st (l, i div 2) = Split" "i div 2 < 2 ^ l"
    using tree_ok_parent [OF assms(1)] Suc.prems by auto
  show ?case
  proof (cases "k = l")
    case True
    then show ?thesis using p(1) by simp
  next
    case False
    then have "st (k, i div 2 div 2 ^ (l - k)) = Split"
      using Suc.IH [of "i div 2"] Suc.prems p by simp
    moreover have "i div 2 div 2 ^ (l - k) = i div 2 ^ (Suc l - k)"
      using False Suc.prems(4) by (simp add: div_mult2_eq Suc_diff_le)
    ultimately show ?thesis by simp
  qed
qed simp

lemma below_leaf:
  assumes "tree_ok M st" "l \<le> k" "k \<le> M" "i < 2 ^ k" "st (l, i div 2 ^ (k - l)) \<noteq> Split" "l < k"
  shows "st (k, i) = Absent"
  using above_split [OF assms(1,3,4) _ assms(6)] assms(5) by blast

lemma tree_ok_leaf: "tree_ok M st \<Longrightarrow> leaf (st p) \<Longrightarrow> leaf x \<Longrightarrow> tree_ok M (st(p := x))"
proof -
  assume t: "tree_ok M st" "leaf (st p)" "leaf x"
  then have "(st(p := x)) q = Absent \<longleftrightarrow> st q = Absent" "(st(p := x)) q = Split \<longleftrightarrow> st q = Split" for q
    by (auto simp: leaf_def)
  then show ?thesis using t(1) unfolding tree_ok_def by presburger
qed

lemma tree_ok_split:
  assumes "tree_ok M st" "l < M" "i < 2 ^ l" "leaf (st (l, i))"
  shows "tree_ok M (st((l, i) := Split, (Suc l, 2 * i) := Free, (Suc l, Suc (2 * i)) := Free))" (is "tree_ok M ?t")
proof -
  have a: "st (Suc l, 2 * i) = Absent" "st (Suc l, Suc (2 * i)) = Absent"
    using tree_okD [OF assms(1-3)] assms(4) by (auto simp: leaf_def)
  have n: "st (l, i) \<noteq> Absent" "st (l, i) \<noteq> Split" using assms(4) by (auto simp: leaf_def)
  have i2: "2 * i < 2 ^ Suc l" "Suc (2 * i) < 2 ^ Suc l" using assms(3) by auto
  show ?thesis unfolding tree_ok_def
  proof (intro conjI allI impI)
    show "?t (0, 0) \<noteq> Absent" using assms(1) by (simp add: tree_ok_def)
    show "?t (M, j) \<noteq> Split" if "j < 2 ^ M" for j using assms(1,2) that by (auto simp: tree_ok_def)
  next
    fix k j :: nat assume k: "k < M" "j < 2 ^ k"
    note d = tree_okD [OF assms(1) k]
    show "(?t (Suc k, 2 * j) \<noteq> Absent) = (?t (k, j) = Split)" "(?t (Suc k, 2 * j + 1) \<noteq> Absent) = (?t (k, j) = Split)"
      using d a n by auto
  qed
qed

lemma tree_ok_merge:
  assumes "tree_ok M st" "l < M" "i < 2 ^ l" "leaf (st (Suc l, 2 * i))" "leaf (st (Suc l, Suc (2 * i)))" "leaf x"
  shows "tree_ok M (st((Suc l, 2 * i) := Absent, (Suc l, Suc (2 * i)) := Absent, (l, i) := x))" (is "tree_ok M ?t")
proof -
  have s: "st (l, i) = Split" using tree_okD [OF assms(1-3)] assms(4) by (auto simp: leaf_def)
  have n: "st (Suc l, 2 * i) \<noteq> Split" "st (Suc l, Suc (2 * i)) \<noteq> Split" "x \<noteq> Absent" "x \<noteq> Split"
    using assms(4-6) by (auto simp: leaf_def)
  have i2: "2 * i < 2 ^ Suc l" "Suc (2 * i) < 2 ^ Suc l" using assms(3) by auto
  show ?thesis unfolding tree_ok_def
  proof (intro conjI allI impI)
    show "?t (0, 0) \<noteq> Absent" using assms(1,6) by (auto simp: tree_ok_def leaf_def)
    show "?t (M, j) \<noteq> Split" if "j < 2 ^ M" for j using assms(1,2) that by (auto simp: tree_ok_def)
  next
    fix k j :: nat assume k: "k < M" "j < 2 ^ k"
    note d = tree_okD [OF assms(1) k]
    show "(?t (Suc k, 2 * j) \<noteq> Absent) = (?t (k, j) = Split)" "(?t (Suc k, 2 * j + 1) \<noteq> Absent) = (?t (k, j) = Split)"
      using d s n by auto
  qed
qed

end
