(* ===== verification/Buddy_Blocks.thy ===== *)
theory Buddy_Blocks imports Buddy_Tree begin

text \<open>
  Where the blocks of the tree lie in memory and which bits stand for them, and the invariant of the buddy
  allocator: the bitmaps and the free lists describe one tree.
\<close>

section \<open>Room\<close>

definition weight :: "nat \<Rightarrow> block \<Rightarrow> nat" where "weight K p = 2 ^ (K - fst p)"

definition space :: "nat \<Rightarrow> nat \<Rightarrow> btree \<Rightarrow> bstate \<Rightarrow> nat" where
  "space K M st x = (\<Sum>p \<in> nodes M. if st p = x then weight K p else 0)"

lemma finite_nodes [simp]: "finite (nodes M)"
proof (rule finite_subset)
  show "nodes M \<subseteq> {..M} \<times> {..<2 ^ M}"
    unfolding nodes_def by (auto intro: less_le_trans [OF _ power_increasing])
qed simp

lemma space_upd:
  assumes "p \<in> nodes M"
  shows "space K M (st(p := y)) x + (if st p = x then weight K p else 0) = space K M st x + (if y = x then weight K p else 0)"
proof -
  have "(\<Sum>q \<in> nodes M - {p}. if (st(p := y)) q = x then weight K q else 0) = (\<Sum>q \<in> nodes M - {p}. if st q = x then weight K q else 0)"
    by (rule sum.cong) auto
  then show ?thesis by (simp add: space_def sum.remove [OF finite_nodes assms])
qed

lemma space_ge: "p \<in> nodes M \<Longrightarrow> st p = x \<Longrightarrow> weight K p \<le> space K M st x"
  by (simp add: space_def sum.remove [OF finite_nodes])

lemma weight_split: "Suc l \<le> K \<Longrightarrow> weight K (l, i) = weight K (Suc l, j) + weight K (Suc l, k)"
  by (simp add: weight_def Suc_diff_Suc flip: mult_2 power_Suc)

lemma nodes_iff [simp]: "(l, i) \<in> nodes M \<longleftrightarrow> l \<le> M \<and> i < 2 ^ l"
  by (simp add: nodes_def)

lemma space_split:
  assumes "l < M" "M \<le> K" "i < 2 ^ l" "st (l, i) = Free" "st (Suc l, 2 * i) = Absent" "st (Suc l, Suc (2 * i)) = Absent"
    "x = Free \<or> x = Used"
  shows "space K M (st((l, i) := Split, (Suc l, 2 * i) := Free, (Suc l, Suc (2 * i)) := Free)) x = space K M st x"
proof -
  have n: "(l, i) \<in> nodes M" "(Suc l, 2 * i) \<in> nodes M" "(Suc l, Suc (2 * i)) \<in> nodes M" using assms by auto
  show ?thesis
    using space_upd [OF n(1), of K st Split x] space_upd [OF n(2), of K "st((l, i) := Split)" Free x]
      space_upd [OF n(3), of K "st((l, i) := Split, (Suc l, 2 * i) := Free)" Free x] assms
      weight_split [of l K i "2 * i" "Suc (2 * i)"] by auto
qed

lemma space_merge:
  assumes "l < M" "M \<le> K" "i < 2 ^ l" "st (l, i) = Split" "st (Suc l, 2 * i) = Free" "st (Suc l, Suc (2 * i)) = Free"
    "x = Free \<or> x = Used"
  shows "space K M (st((Suc l, 2 * i) := Absent, (Suc l, Suc (2 * i)) := Absent, (l, i) := Free)) x = space K M st x"
proof -
  have n: "(l, i) \<in> nodes M" "(Suc l, 2 * i) \<in> nodes M" "(Suc l, Suc (2 * i)) \<in> nodes M" using assms by auto
  show ?thesis
    using space_upd [OF n(2), of K st Absent x] space_upd [OF n(3), of K "st((Suc l, 2 * i) := Absent)" Absent x]
      space_upd [OF n(1), of K "st((Suc l, 2 * i) := Absent, (Suc l, Suc (2 * i)) := Absent)" Free x] assms
      weight_split [of l K i "2 * i" "Suc (2 * i)"] by auto
qed

section \<open>Addresses\<close>

definition bitmap_bytes :: "nat \<Rightarrow> addr \<Rightarrow> addr set" where
  "bitmap_bytes M a = (\<lambda>j. a + word_of_int (j div 8)) ` {0 ..< 2 ^ M}"

definition pool :: "nat \<Rightarrow> heap \<Rightarrow> addr set" where
  "pool K h = {a. unat (al_memory h) \<le> unat a \<and> unat a < unat (al_memory h) + 2 ^ K}"

definition geometry :: "nat \<Rightarrow> nat \<Rightarrow> heap \<Rightarrow> bool" where
  "geometry K M h \<longleftrightarrow> M \<le> 30 \<and> M + 4 \<le> K \<and> K < 64 \<and> al_size h = 2 ^ K \<and> al_leaf_size h = 2 ^ (K - M) \<and>
     al_max_level h = int M \<and> al_memory h \<noteq> 0 \<and> unat (al_memory h) mod 16 = 0 \<and>
     unat (al_memory h) + 2 ^ K \<le> 18446744073709551616 \<and>
     bitmap_bytes M (al_allocation_bitmap h) \<inter> bitmap_bytes M (al_split_bitmap h) = {} \<and>
     bitmap_bytes M (al_allocation_bitmap h) \<inter> pool K h = {} \<and> bitmap_bytes M (al_split_bitmap h) \<inter> pool K h = {}"

lemma geometryD:
  assumes "geometry K M h"
  shows "M \<le> 30" "M + 4 \<le> K" "K < 64" "al_size h = 2 ^ K" "al_leaf_size h = 2 ^ (K - M)" "al_max_level h = int M"
    "al_memory h \<noteq> 0" "unat (al_memory h) mod 16 = 0" "unat (al_memory h) + 2 ^ K \<le> 18446744073709551616"
    "bitmap_bytes M (al_allocation_bitmap h) \<inter> bitmap_bytes M (al_split_bitmap h) = {}"
    "bitmap_bytes M (al_allocation_bitmap h) \<inter> pool K h = {}" "bitmap_bytes M (al_split_bitmap h) \<inter> pool K h = {}"
  using assms by (simp_all add: geometry_def)

lemma geometry_step: "geometry K M h \<Longrightarrow> fixed_fields h' = fixed_fields h \<Longrightarrow> geometry K M h'"
  by (simp add: geometry_def fixed_fields_def pool_def)

definition blk :: "nat \<Rightarrow> heap \<Rightarrow> block \<Rightarrow> addr" where
  "blk K h p = al_memory h + of_nat (snd p * weight K p)"

definition block_bytes :: "nat \<Rightarrow> heap \<Rightarrow> block \<Rightarrow> addr set" where
  "block_bytes K h p = {a. unat (al_memory h) + snd p * weight K p \<le> unat a \<and>
     unat a < unat (al_memory h) + snd p * weight K p + weight K p}"

lemma blk_fields: "fixed_fields h' = fixed_fields h \<Longrightarrow> blk K h' = blk K h"
  by (simp add: blk_def fixed_fields_def fun_eq_iff)

lemma offset_bound:
  assumes "i < 2 ^ l" "l \<le> K"
  shows "i * weight K (l, i) + weight K (l, i) \<le> 2 ^ K"
proof -
  have "(i + 1) * 2 ^ (K - l) \<le> 2 ^ l * 2 ^ (K - l)" using assms(1) by (intro mult_right_mono) auto
  also have "\<dots> = 2 ^ K" using assms(2) by (simp flip: power_add)
  finally show ?thesis by (simp add: weight_def add.commute)
qed

lemma weight_pos [simp]: "0 < weight K p"
  by (simp add: weight_def)

lemma unat_blk:
  assumes "geometry K M h" "l \<le> M" "i < 2 ^ l"
  shows "unat (blk K h (l, i)) = unat (al_memory h) + i * weight K (l, i)"
    "i * weight K (l, i) < 18446744073709551616"
proof -
  note g = geometryD [OF assms(1)]
  have lK: "l \<le> K" using assms(2) g(2) by linarith
  have b: "i * weight K (l, i) + weight K (l, i) \<le> 2 ^ K" by (rule offset_bound [OF assms(3) lK])
  have w: "0 < weight K (l, i)" by simp
  have s: "unat (al_memory h) + i * weight K (l, i) < 18446744073709551616" using b w g(9) by linarith
  then show o: "i * weight K (l, i) < 18446744073709551616" by linarith
  then have "unat (of_nat (i * weight K (l, i)) :: addr) = i * weight K (l, i)" by (rule unat_of_nat_u64)
  then show "unat (blk K h (l, i)) = unat (al_memory h) + i * weight K (l, i)"
    using s by (simp only: blk_def snd_conv unat_add_u64)
qed

lemma blk_inj:
  assumes "geometry K M h" "l \<le> M" "i < 2 ^ l" "j < 2 ^ l" "blk K h (l, i) = blk K h (l, j)"
  shows "i = j"
proof -
  have "i * weight K (l, i) = j * weight K (l, j)"
    using unat_blk(1) [OF assms(1-3)] unat_blk(1) [OF assms(1,2,4)] assms(5) by simp
  then show ?thesis by (simp add: weight_def)
qed

lemma blk_node:
  assumes "geometry K M h" "l \<le> M" "i < 2 ^ l"
  shows "node (blk K h (l, i))"
proof -
  note g = geometryD [OF assms(1)]
  have lK: "4 \<le> K - l" using assms(2) g(2) by linarith
  then have "16 dvd weight K (l, i)" using le_imp_power_dvd [OF lK, of "2 :: nat"] by (simp add: weight_def)
  then have "16 dvd unat (al_memory h) + i * weight K (l, i)" using g(8) by auto
  moreover have "unat (al_memory h) \<noteq> 0" using g(7) by (simp add: unat_eq_0)
  ultimately show ?thesis using unat_blk(1) [OF assms] unfolding node_def by (metis add_is_0 mod_0_imp_dvd dvd_imp_mod_0 unat_0)
qed

text \<open>The node of a block lies in the block, and the block in the pool.\<close>

lemma block_in_pool:
  assumes "geometry K M h" "l \<le> M" "i < 2 ^ l"
  shows "block_bytes K h (l, i) \<subseteq> pool K h"
  using offset_bound [OF assms(3), of K] assms(2) geometryD(2) [OF assms(1)] by (auto simp: block_bytes_def pool_def)

lemma node_bytes_bound:
  assumes "node b" "x \<in> node_bytes b"
  shows "unat b \<le> unat x" "unat x < unat b + 16"
proof -
  have n: "unat b mod 16 = 0" using assms(1) by (simp add: node_def)
  have c: "aligned8 b" "aligned8 (b + 8)" using node_cells [OF assms(1,1)] by simp_all
  have u: "unat (b + 8) = unat b + 8" by (rule node_next_unat [OF n])
  consider "x \<in> cell b" | "x \<in> cell (b + 8)" using assms(2) by (auto simp: node_bytes_def)
  then have "unat b \<le> unat x \<and> unat x < unat b + 16"
  proof cases
    case 1
    then have "unat x div 8 * 8 = unat b" by (rule aligned8_cell [OF c(1)])
    then show ?thesis by linarith
  next
    case 2
    then have "unat x div 8 * 8 = unat (b + 8)" by (rule aligned8_cell [OF c(2)])
    then show ?thesis unfolding u by linarith
  qed
  then show "unat b \<le> unat x" "unat x < unat b + 16" by simp_all
qed

lemma node_in_block:
  assumes "geometry K M h" "l \<le> M" "i < 2 ^ l"
  shows "node_bytes (blk K h (l, i)) \<subseteq> block_bytes K h (l, i)"
proof
  fix x assume x: "x \<in> node_bytes (blk K h (l, i))"
  have "4 \<le> K - l" using geometryD(2) [OF assms(1)] assms(2) by linarith
  then have "16 \<le> weight K (l, i)" using power_increasing [of 4 "K - l" "2 :: nat"] by (simp add: weight_def)
  then show "x \<in> block_bytes K h (l, i)"
    using node_bytes_bound [OF blk_node [OF assms] x] unat_blk(1) [OF assms] by (auto simp: block_bytes_def)
qed

text \<open>Blocks that are there and not split do not overlap.\<close>

lemma block_bytes_up:
  assumes "x \<in> block_bytes K h (l, i)" "k \<le> l" "l \<le> K"
  shows "x \<in> block_bytes K h (k, i div 2 ^ (l - k))"
proof -
  define d where "d = (2::nat) ^ (l - k)"
  define w where "w = weight K (l, i)"
  define m where "m = unat (al_memory h)"
  have w: "weight K (k, i div d) = d * w" "weight K (l, i) = w" using assms(2,3) by (simp_all add: weight_def d_def w_def flip: power_add)
  have d: "0 < d" by (simp add: d_def)
  have "i div d * d \<le> i" "i < i div d * d + d" using div_mult_mod_eq [of i d] mod_less_divisor [OF d, of i] by linarith+
  then have "i div d * d * w \<le> i * w" "Suc i * w \<le> (i div d * d + d) * w" by (intro mult_right_mono; simp)+
  then have "i div d * (d * w) \<le> i * w" "i * w + w \<le> i div d * (d * w) + d * w" by (simp_all add: algebra_simps)
  moreover have "m + i * w \<le> unat x" "unat x < m + i * w + w"
    using assms(1) by (simp_all add: block_bytes_def m_def w)
  ultimately have "m + i div d * (d * w) \<le> unat x" "unat x < m + i div d * (d * w) + d * w" by linarith+
  then show ?thesis unfolding block_bytes_def d_def [symmetric] m_def [symmetric] by (simp add: w)
qed

lemma same_level_disjoint:
  assumes "x \<in> block_bytes K h (l, i)" "x \<in> block_bytes K h (l, j)"
  shows "i = j"
proof (rule ccontr)
  define w where "w = weight K (l, i)"
  define y where "y = unat x - unat (al_memory h)"
  have w: "weight K (l, j) = w" "0 < w" by (simp_all add: w_def weight_def)
  have a: "i * w \<le> y" "y < i * w + w" "j * w \<le> y" "y < j * w + w"
    using assms by (auto simp: block_bytes_def y_def w w_def [symmetric])
  have "y div w = i" "y div w = j" using a by (auto intro!: div_nat_eqI simp: algebra_simps)
  moreover assume "i \<noteq> j"
  ultimately show False by simp
qed

lemma leaves_disjoint:
  assumes t: "tree_ok M st" "M \<le> K" and p: "p \<in> nodes M" "leaf (st p)" and q: "q \<in> nodes M" "leaf (st q)" and "p \<noteq> q"
  shows "block_bytes K h p \<inter> block_bytes K h q = {}"
proof -
  have *: False if a: "l \<le> k" "k \<le> M" "i < 2 ^ l" "j < 2 ^ k" "leaf (st (l, i))" "leaf (st (k, j))" "(l, i) \<noteq> (k, j)"
    "x \<in> block_bytes K h (l, i)" "x \<in> block_bytes K h (k, j)" for l i k j x
  proof -
    have "x \<in> block_bytes K h (l, j div 2 ^ (k - l))" using block_bytes_up [OF a(9,1)] a(2) t(2) by simp
    then have i: "i = j div 2 ^ (k - l)" using same_level_disjoint a(8) by blast
    then have "l < k" using a(1,7) by (cases "l = k") auto
    then have "st (l, i) = Split" using above_split [OF t(1) a(2,4)] a(6) i by (auto simp: leaf_def)
    then show False using a(5) by (auto simp: leaf_def)
  qed
  obtain l i k j where pq: "p = (l, i)" "q = (k, j)" by (cases p, cases q)
  show ?thesis
  proof (cases "l \<le> k")
    case True
    then show ?thesis using * [of l k i j] p q \<open>p \<noteq> q\<close> by (auto simp: pq)
  next
    case False
    then show ?thesis using * [of k l j i] p q \<open>p \<noteq> q\<close> by (auto simp: pq)
  qed
qed

end
