(* ===== verification/Buddy_Index.thy ===== *)
theory Buddy_Index imports Buddy_Blocks begin

text \<open>
  The numbers the allocator computes from an address: sizes, indices, the numbers of bits, the address of the buddy.
\<close>

definition bitno :: "block \<Rightarrow> int" where "bitno p = int (2 ^ fst p + snd p) - 1"

lemma bitno_range:
  assumes "l < M" "i < 2 ^ l"
  shows "0 \<le> bitno (l, i)" "bitno (l, i) < 2 ^ M"
proof -
  have "(2 :: nat) ^ Suc l \<le> 2 ^ M" using assms(1) by (intro power_increasing) auto
  then have "int (2 ^ l + i) \<le> int (2 ^ M)" using assms(2) by (simp only: of_nat_le_iff) simp
  then show "bitno (l, i) < 2 ^ M" by (simp add: bitno_def)
  have "0 < (2 :: nat) ^ l" by simp
  then show "0 \<le> bitno (l, i)" by (simp add: bitno_def flip: of_nat_power of_nat_add)
qed

lemma bitno_inj:
  assumes "i < 2 ^ l" "j < 2 ^ k"
  shows "bitno (l, i) = bitno (k, j) \<longleftrightarrow> l = k \<and> i = j"
proof
  assume "bitno (l, i) = bitno (k, j)"
  then have e: "2 ^ l + i = 2 ^ k + j" by (simp add: bitno_def flip: of_nat_power of_nat_add)
  have "\<not> l < k" if "i < 2 ^ l" "(2 :: nat) ^ l + i = 2 ^ k + j" for l k i j :: nat
  proof
    assume "l < k"
    then have "(2 :: nat) ^ Suc l \<le> 2 ^ k" by (intro power_increasing) auto
    then show False using that by simp
  qed
  from this [OF assms(1) e] this [OF assms(2) e [symmetric]] have "l = k" by simp
  then show "l = k \<and> i = j" using e by simp
qed simp

lemma bitno_ok:
  assumes "M \<le> 30" "l < M" "i < 2 ^ l"
  shows "bit_index_ok (bitno (l, i))"
proof -
  have "(2 :: int) ^ M \<le> 2 ^ 30" using assms(1) by (intro power_increasing) auto
  then show ?thesis using bitno_range [OF assms(2,3)] by (simp add: bit_index_ok_def INT_MAX_def)
qed

section \<open>Sizes and indices\<close>

lemma drop_power: "l \<le> K \<Longrightarrow> K < 64 \<Longrightarrow> drop_bit l (2 ^ K :: u64) = 2 ^ (K - l)"
  by (rule bit_word_eqI) (auto simp: bit_simps)

lemma size_from_level_run:
  assumes "geometry K M h" "l \<le> M"
  shows "size_from_level (int l) h = Inr (2 ^ (K - l), h)"
  using geometryD [OF assms(1)] assms(2) by (simp add: size_from_level_def drop_power)

lemma small_power: "l \<le> 30 \<Longrightarrow> n < 2 ^ l \<Longrightarrow> n < (2 :: nat) ^ 31"
  using power_increasing [of l 30 "2 :: nat"] by simp

lemma index_run:
  assumes "geometry K M h" "l \<le> M" "i < 2 ^ l" "k \<le> M"
  shows "index_in_level (blk K h (l, i)) (int k) h = Inr (int (i * 2 ^ (K - l) div 2 ^ (K - k)), h)"
proof -
  note g = geometryD [OF assms(1)]
  let ?o = "i * 2 ^ (K - l)" and ?s = "2 ^ (K - k) :: u64"
  have s: "unat ?s = 2 ^ (K - k)" using g by (intro unat_power_u64) linarith
  have s0: "?s \<noteq> 0" using s by (metis power_not_zero unat_0 zero_neq_numeral)
  have o: "unat (of_nat ?o :: u64) = ?o"
    using unat_blk(2) [OF assms(1-3)] by (intro unat_of_nat_u64) (simp add: weight_def)
  have d: "unat (of_nat ?o div ?s) = ?o div 2 ^ (K - k)" by (simp only: unat_div s o)
  have "?o + 2 ^ (K - l) \<le> 2 ^ K" using offset_bound [OF assms(3), of K] assms(2) g(2) by (simp add: weight_def)
  then have "?o < 2 ^ k * 2 ^ (K - k)" using assms(4) g(2) by (simp flip: power_add add: less_le_trans [of _ "?o + 2 ^ (K - l)"])
  then have "?o div 2 ^ (K - k) < 2 ^ k" by (simp add: less_mult_imp_div_less)
  moreover have "k \<le> 30" using assms(4) g(1) by linarith
  ultimately have "unat (of_nat ?o div ?s) < 2 ^ 31" unfolding d by (intro small_power)
  then have "int_of_u64 (of_nat ?o div ?s) = int (?o div 2 ^ (K - k))" by (simp only: int_of_u64_small d)
  then show ?thesis
    using size_from_level_run [OF assms(1,4)] s0 by (simp add: index_in_level_def bindS_apply blk_def weight_def)
qed

lemma index_up:
  assumes "geometry K M h" "l \<le> M" "i < 2 ^ l" "k \<le> l"
  shows "index_in_level (blk K h (l, i)) (int k) h = Inr (int (i div 2 ^ (l - k)), h)"
proof -
  have "K - k = (l - k) + (K - l)" using assms(2,4) geometryD(2) [OF assms(1)] by linarith
  then have "i * 2 ^ (K - l) div 2 ^ (K - k) = i div 2 ^ (l - k)" by (simp add: power_add)
  then show ?thesis using index_run [OF assms(1-3), of k] assms(2,4) by simp
qed

lemma index_down:
  assumes "geometry K M h" "l \<le> k" "i < 2 ^ l" "k \<le> M"
  shows "index_in_level (blk K h (l, i)) (int k) h = Inr (int (i * 2 ^ (k - l)), h)"
proof -
  have "K - l = (k - l) + (K - k)" using assms(2,4) geometryD(2) [OF assms(1)] by linarith
  then have "i * 2 ^ (K - l) div 2 ^ (K - k) = i * 2 ^ (k - l)" by (simp add: power_add flip: mult.assoc)
  then show ?thesis using index_run [OF assms(1) _ assms(3), of k] assms(2,4) by simp
qed

lemma unique_index_run:
  assumes "k < 30" "j < 2 ^ k"
  shows "unique_index (int k) (int j) = Inr (bitno (k, j))"
proof -
  have p: "(2 :: int) ^ k \<le> 2 ^ 29" using assms(1) by (intro power_increasing) auto
  have "int j < int (2 ^ k)" using assms(2) by (simp only: of_nat_less_iff)
  then have j: "int j < 2 ^ k" by simp
  have c: "c_shl1 (int k) = Inr (2 ^ k)" using assms(1) by (simp add: c_shl1_ok)
  define w where "w = (2 :: int) ^ k"
  have "0 \<le> w" "w \<le> 536870912" "0 \<le> int j" "int j < w" using p j by (simp_all add: w_def)
  then have "c_int (w + int j) = Inr (w + int j)" "c_int (w + int j - 1) = Inr (w + int j - 1)"
    unfolding c_int_def INT_MIN_def INT_MAX_def by simp_all
  then show ?thesis unfolding unique_index_def c w_def by (simp add: bitno_def)
qed

lemma split_bit_index_up:
  assumes "geometry K M h" "l \<le> M" "i < 2 ^ l" "k \<le> l" "k < M"
  shows "split_bit_index (blk K h (l, i)) (int k) h = Inr (bitno (k, i div 2 ^ (l - k)), h)"
proof -
  have "i < 2 ^ k * 2 ^ (l - k)" using assms(3,4) by (simp flip: power_add)
  then have "i div 2 ^ (l - k) < 2 ^ k" by (simp add: less_mult_imp_div_less)
  moreover have "k < 30" using assms(5) geometryD(1) [OF assms(1)] by linarith
  ultimately show ?thesis
    by (simp only: split_bit_index_def bindS_apply liftS_def unique_index_run index_up [OF assms(1-4)] res_simps split_conv)
qed

lemma split_bit_index_down:
  assumes "geometry K M h" "l \<le> k" "i < 2 ^ l" "k < M"
  shows "split_bit_index (blk K h (l, i)) (int k) h = Inr (bitno (k, i * 2 ^ (k - l)), h)"
proof -
  have "i * 2 ^ (k - l) < 2 ^ l * 2 ^ (k - l)" using assms(3) by simp
  then have "i * 2 ^ (k - l) < 2 ^ k" using assms(2) by (simp flip: power_add)
  moreover have "k < 30" using assms(4) geometryD(1) [OF assms(1)] by linarith
  ultimately show ?thesis
    using index_down [OF assms(1-3)] assms(4)
    by (simp only: split_bit_index_def bindS_apply liftS_def unique_index_run less_imp_le res_simps split_conv)
qed

lemma allocation_bit_index_run:
  assumes "geometry K M h" "Suc l \<le> M" "i < 2 ^ Suc l"
  shows "allocation_bit_index (blk K h (Suc l, i)) (int (Suc l)) h = Inr (bitno (l, i div 2), h)"
proof -
  have "i div 2 < 2 ^ l" "l < 30" using assms(2,3) geometryD(1) [OF assms(1)] by auto
  moreover have "int i sdiv 2 = int (i div 2)" by (cases "i = 0") (simp_all add: signed_divide_int_def)
  ultimately show ?thesis
    using index_up [OF assms le_refl] unique_index_run by (simp add: allocation_bit_index_def bindS_apply liftS_def)
qed

section \<open>Buddies\<close>

definition bud :: "nat \<Rightarrow> nat" where "bud i = (if even i then i + 1 else i - 1)"

lemma bud_bud: "bud (bud i) = i"
  by (auto simp: bud_def)

lemma bud_less: "i < 2 ^ Suc l \<Longrightarrow> bud i < 2 ^ Suc l"
  by (auto simp: bud_def elim!: evenE oddE)

lemma bud_div: "bud i div 2 = i div 2" "bud i \<noteq> i"
  by (auto simp: bud_def elim!: evenE oddE)

lemma bud_pair: "min i (bud i) = 2 * (i div 2)" "{i, bud i} = {2 * (i div 2), Suc (2 * (i div 2))}"
  by (auto simp: bud_def elim!: evenE oddE)

lemma of_nat_bud: "(of_nat i :: u64) XOR 1 = of_nat (bud i)"
proof -
  have "(of_nat i :: u64) XOR of_nat 1 = of_nat (i XOR 1)" by (rule of_nat_xor_eq [symmetric])
  moreover have "i XOR 1 = bud i" by (simp add: bud_def xor_Suc_0_eq)
  ultimately show ?thesis by simp
qed

lemma calculate_buddy_address_run:
  assumes "geometry K M h" "l \<le> M" "i < 2 ^ l"
  shows "calculate_buddy_address (blk K h (l, i)) (int l) h = Inr (blk K h (l, bud i), h)"
proof -
  note g = geometryD [OF assms(1)]
  have m: "int M - int l = int (M - l)" using assms(2) by (simp only: of_nat_diff)
  have s: "c_shl1 (int M - int l) = Inr (2 ^ (M - l))"
    using g(1) unfolding m c_shl1_def nat_int by simp
  have e: "M - l + (K - M) = K - l" using assms(2) g(2) by linarith
  have p: "word_of_int (2 ^ (M - l)) * 2 ^ (K - M) = push_bit (K - l) (1 :: u64)"
    by (simp only: of_int_power of_int_numeral power_add [symmetric] e push_bit_eq_mult mult_1)
  have off: "of_nat (j * 2 ^ (K - l)) = push_bit (K - l) (of_nat j :: u64)" for j
    by (simp only: push_bit_eq_mult of_nat_mult of_nat_power of_nat_numeral)
  have "of_nat (i * 2 ^ (K - l)) XOR push_bit (K - l) (1 :: u64) = of_nat (bud i * 2 ^ (K - l))"
    unfolding off by (simp only: push_bit_xor [symmetric] of_nat_bud)
  then have x: "of_nat (i * 2 ^ (K - l)) XOR word_of_int (2 ^ (M - l)) * 2 ^ (K - M) = (of_nat (bud i * 2 ^ (K - l)) :: u64)"
    by (simp only: p)
  have b: "blk K h (l, i) - al_memory h = of_nat (i * 2 ^ (K - l))"
    by (simp only: blk_def weight_def fst_conv snd_conv add_diff_cancel_left')
  show ?thesis
    unfolding calculate_buddy_address_def bindS_apply getsS_apply bindE_Inr split_conv Let_def liftS_def g(5,6) s mapE_Inr b x
    by (simp only: returnS_apply blk_def weight_def fst_conv snd_conv add.commute)
qed

end
