(* ===== verification/Buddy_Inv.thy ===== *)
theory Buddy_Inv imports Buddy_Index begin

text \<open>
  The invariant of the buddy allocator: the bitmaps and the free lists describe one tree. While an operation is
  under way a block that counts as free for the bitmaps can be off the lists; it is said to be in hand.
\<close>

section \<open>The invariant\<close>

definition sview :: "heap \<Rightarrow> block \<Rightarrow> bool" where "sview h q = bit_view (al_split_bitmap h) (hp_mem h) (bitno q)"
definition aview :: "heap \<Rightarrow> block \<Rightarrow> bool" where "aview h q = bit_view (al_allocation_bitmap h) (hp_mem h) (bitno q)"

definition pair_bit :: "btree \<Rightarrow> block \<Rightarrow> bool" where
  "pair_bit st q \<longleftrightarrow> (st (Suc (fst q), 2 * snd q) = Free) \<noteq> (st (Suc (fst q), Suc (2 * snd q)) = Free)"

definition bits_ok :: "nat \<Rightarrow> btree \<Rightarrow> heap \<Rightarrow> bool" where
  "bits_ok M st h \<longleftrightarrow> (\<forall>l < M. \<forall>i < 2 ^ l. (sview h (l, i) \<longleftrightarrow> st (l, i) = Split) \<and> (aview h (l, i) \<longleftrightarrow> pair_bit st (l, i)))"

definition free_lists :: "nat \<Rightarrow> nat \<Rightarrow> btree \<Rightarrow> block set \<Rightarrow> (nat \<Rightarrow> addr list) \<Rightarrow> heap \<Rightarrow> bool" where
  "free_lists K M st H L h \<longleftrightarrow> lists_ok M L h \<and>
     (\<forall>l \<le> M. set (L l) = (\<lambda>i. blk K h (l, i)) ` {i. i < 2 ^ l \<and> st (l, i) = Free \<and> (l, i) \<notin> H})"

definition buddy_inv :: "nat \<Rightarrow> nat \<Rightarrow> btree \<Rightarrow> block set \<Rightarrow> (nat \<Rightarrow> addr list) \<Rightarrow> heap \<Rightarrow> bool" where
  "buddy_inv K M st H L h \<longleftrightarrow> geometry K M h \<and> tree_ok M st \<and> bits_ok M st h \<and> free_lists K M st H L h"

text \<open>The memory an operation may write: the bitmaps and the free blocks.\<close>

definition meta :: "nat \<Rightarrow> heap \<Rightarrow> addr set" where
  "meta M h = bitmap_bytes M (al_allocation_bitmap h) \<union> bitmap_bytes M (al_split_bitmap h)"

definition free_area :: "nat \<Rightarrow> nat \<Rightarrow> btree \<Rightarrow> heap \<Rightarrow> addr set" where
  "free_area K M st h = \<Union>(block_bytes K h ` {p \<in> nodes M. st p = Free})"

lemma area_fields:
  assumes "fixed_fields h' = fixed_fields h"
  shows "meta M h' = meta M h" "free_area K M st h' = free_area K M st h" "pool K h' = pool K h" "block_bytes K h' = block_bytes K h"
    "blk K h' = blk K h"
  using assms by (simp_all add: meta_def free_area_def pool_def fixed_fields_def block_bytes_def blk_def fun_eq_iff)

lemma free_area_pool: "geometry K M h \<Longrightarrow> free_area K M st h \<subseteq> pool K h"
  using block_in_pool unfolding free_area_def nodes_def by blast

lemma meta_pool: "geometry K M h \<Longrightarrow> meta M h \<inter> pool K h = {}"
  using geometryD(11,12) unfolding meta_def by blast

section \<open>Bits\<close>

lemma bit_view_outside:
  assumes "same_outside S m m'" "S \<inter> bitmap_bytes M a = {}" "l < M" "i < 2 ^ l"
  shows "bit_view a m' (bitno (l, i)) = bit_view a m (bitno (l, i))"
proof -
  have "a + word_of_int (bitno (l, i) div 8) \<in> bitmap_bytes M a"
    using bitno_range [OF assms(3,4)] by (auto simp: bitmap_bytes_def)
  then show ?thesis using assms(1,2) by (auto simp: bit_view_def same_outside_def)
qed

lemma views_pool:
  assumes "geometry K M h" "heap_step S h h'" "S \<subseteq> pool K h" "l < M" "i < 2 ^ l"
  shows "sview h' (l, i) = sview h (l, i)" "aview h' (l, i) = aview h (l, i)"
proof -
  have s: "same_outside S (hp_mem h) (hp_mem h')" using assms(2) by (simp add: heap_step_def)
  have "S \<inter> bitmap_bytes M (al_split_bitmap h) = {}" "S \<inter> bitmap_bytes M (al_allocation_bitmap h) = {}"
    using geometryD(11,12) [OF assms(1)] assms(3) by blast+
  then show "sview h' (l, i) = sview h (l, i)" "aview h' (l, i) = aview h (l, i)"
    using bit_view_outside [OF s] assms(4,5) heap_step_fields [OF assms(2)] by (simp_all add: sview_def aview_def)
qed

lemma bits_ok_pool:
  assumes "geometry K M h" "heap_step S h h'" "S \<subseteq> pool K h" "bits_ok M st h"
  shows "bits_ok M st h'"
  using assms(4) views_pool [OF assms(1-3)] by (simp add: bits_ok_def)

text \<open>A write to one of the bitmaps leaves the lists alone.\<close>

definition bits_step :: "nat \<Rightarrow> heap \<Rightarrow> heap \<Rightarrow> bool" where
  "bits_step M h h' \<longleftrightarrow> al_free_blocks h' = al_free_blocks h \<and> al_free_count h' = al_free_count h \<and> heap_step (meta M h) h h'"

lemma bits_step_trans: "bits_step M h h' \<Longrightarrow> bits_step M h' h'' \<Longrightarrow> bits_step M h h''"
  using area_fields(1) [of h' h M] unfolding bits_step_def by (auto simp: heap_step_def intro: same_outside_trans)

lemma node_outside:
  assumes "same_outside S m m'" "S \<inter> node_bytes b = {}"
  shows "nx m' b = nx m b" "pv m' b = pv m b"
proof -
  show "nx m' b = nx m b" unfolding nx_def
    by (rule load_u64_cong) (use assms node_bytes_in(2) in \<open>auto simp: same_outside_def\<close>)
  show "pv m' b = pv m b" unfolding pv_def
    by (rule load_u64_cong) (use assms node_bytes_in(1) in \<open>auto simp: same_outside_def\<close>)
qed

lemma lists_ok_outside:
  assumes "lists_ok n L h" "al_free_blocks h' = al_free_blocks h" "al_free_count h' = al_free_count h"
    and "same_outside S (hp_mem h) (hp_mem h')" "\<And>l b. l \<le> n \<Longrightarrow> b \<in> set (L l) \<Longrightarrow> S \<inter> node_bytes b = {}"
  shows "lists_ok n L h'" "heads_ok n L h \<Longrightarrow> heads_ok n L h'"
proof -
  have n: "nx (hp_mem h') b = nx (hp_mem h) b" "pv (hp_mem h') b = pv (hp_mem h) b" if "l \<le> n" "b \<in> set (L l)" for l b
    using node_outside [OF assms(4) assms(5) [OF that]] .
  have "path (hp_mem h') a (L l) = path (hp_mem h) a (L l)" "bks (hp_mem h') (L l) = bks (hp_mem h) (L l)" if "l \<le> n" for l a
    using path_cong [of "L l" "hp_mem h'" "hp_mem h"] bks_cong [of "L l" "hp_mem h'" "hp_mem h"] n [OF that] by auto
  then show "lists_ok n L h'" using assms(1-3) by (simp add: lists_ok_def)
  show "heads_ok n L h \<Longrightarrow> heads_ok n L h'" using n(2) by (simp add: heads_ok_def)
qed

lemma free_listsD:
  assumes "free_lists K M st H L h" "l \<le> M"
  shows "lists_ok M L h" "set (L l) = (\<lambda>i. blk K h (l, i)) ` {i. i < 2 ^ l \<and> st (l, i) = Free \<and> (l, i) \<notin> H}"
  using assms unfolding free_lists_def by blast+

lemma free_list_node:
  assumes "geometry K M h" "free_lists K M st H L h" "l \<le> M" "b \<in> set (L l)"
  shows "node_bytes b \<subseteq> pool K h" "node_bytes b \<subseteq> free_area K M st h"
proof -
  obtain i where i: "i < 2 ^ l" "st (l, i) = Free" "b = blk K h (l, i)" using free_listsD(2) [OF assms(2,3)] assms(4) by auto
  have "node_bytes b \<subseteq> block_bytes K h (l, i)" using node_in_block [OF assms(1,3) i(1)] i(3) by simp
  moreover have "block_bytes K h (l, i) \<subseteq> free_area K M st h" using i assms(3) by (force simp: free_area_def)
  ultimately show "node_bytes b \<subseteq> free_area K M st h" by blast
  then show "node_bytes b \<subseteq> pool K h" using free_area_pool [OF assms(1)] by blast
qed

lemma free_lists_bits:
  assumes "geometry K M h" "free_lists K M st H L h" "bits_step M h h'"
  shows "free_lists K M st H L h'" "heads_ok M L h \<Longrightarrow> heads_ok M L h'"
proof -
  have ff: "fixed_fields h' = fixed_fields h" using assms(3) by (simp add: bits_step_def heap_step_def)
  have o: "meta M h \<inter> node_bytes b = {}" if "l \<le> M" "b \<in> set (L l)" for l b
    using free_list_node(1) [OF assms(1,2) that] meta_pool [OF assms(1)] by blast
  have l: "lists_ok M L h" using assms(2) by (simp add: free_lists_def)
  have s: "al_free_blocks h' = al_free_blocks h" "al_free_count h' = al_free_count h" "same_outside (meta M h) (hp_mem h) (hp_mem h')"
    using assms(3) by (simp_all add: bits_step_def heap_step_def)
  show "heads_ok M L h \<Longrightarrow> heads_ok M L h'" by (rule lists_ok_outside(2) [OF l s o])
  have "lists_ok M L h'" by (rule lists_ok_outside(1) [OF l s o])
  then show "free_lists K M st H L h'" using assms(2) by (simp add: free_lists_def area_fields(5) [OF ff])
qed

text \<open>The three kinds of write.\<close>

lemma bit_write:
  assumes g: "geometry K M h" and q: "l < M" "i < 2 ^ l" and a: "a = al_split_bitmap h \<or> a = al_allocation_bitmap h"
    and f: "f (hp_mem h) = Inr m'" "m' = (hp_mem h)(a + word_of_int (bitno (l, i) div 8) := x)"
  shows "on_bits f h = Inr ((), h\<lparr>hp_mem := m'\<rparr>)" "bits_step M h (h\<lparr>hp_mem := m'\<rparr>)"
    "same_outside (bitmap_bytes M a) (hp_mem h) m'"
proof -
  show "on_bits f h = Inr ((), h\<lparr>hp_mem := m'\<rparr>)" by (simp add: on_bits_def f)
  have "a + word_of_int (bitno (l, i) div 8) \<in> bitmap_bytes M a"
    using bitno_range [OF q] by (auto simp: bitmap_bytes_def)
  then show s: "same_outside (bitmap_bytes M a) (hp_mem h) m'" by (auto simp: same_outside_def f)
  have "bitmap_bytes M a \<subseteq> meta M h" using a by (auto simp: meta_def)
  then show "bits_step M h (h\<lparr>hp_mem := m'\<rparr>)"
    using same_outside_mono [OF s] by (simp add: bits_step_def heap_step_def fixed_fields_def)
qed

lemma set_split_run:
  assumes g: "geometry K M h" and q: "l < M" "i < 2 ^ l"
  shows "\<exists>h'. on_bits (\<lambda>m. set_bit m (al_split_bitmap h) (bitno (l, i))) h = Inr ((), h') \<and> bits_step M h h' \<and>
    (\<forall>k < M. \<forall>j < 2 ^ k. sview h' (k, j) = ((k, j) = (l, i) \<or> sview h (k, j)) \<and> aview h' (k, j) = aview h (k, j))"
proof -
  note ok = bitno_ok [OF geometryD(1) [OF g]]
  let ?m = "hp_mem h" and ?a = "al_split_bitmap h"
  obtain m' where m': "set_bit ?m ?a (bitno (l, i)) = Inr m'"
      "\<And>j. bit_index_ok j \<Longrightarrow> bit_view ?a m' j = (j = bitno (l, i) \<or> bit_view ?a ?m j)"
    using bitmap.set_view [OF ok [OF q], of ?m ?a] by blast
  note w = bit_write [OF g q disjI1 [OF refl], of "\<lambda>m. set_bit m ?a (bitno (l, i))" m',
      OF m'(1) m'(1) [unfolded set_bit_ok [OF ok [OF q]], THEN sum.inject(2) [THEN iffD1], symmetric]]
  have v: "sview (h\<lparr>hp_mem := m'\<rparr>) (k, j) = ((k, j) = (l, i) \<or> sview h (k, j))"
      "aview (h\<lparr>hp_mem := m'\<rparr>) (k, j) = aview h (k, j)" if "k < M" "j < 2 ^ k" for k j
    using m'(2) [OF ok [OF that]] bitno_inj [OF that(2) q(2)] bit_view_outside [OF w(3) _ that] geometryD(10) [OF g]
    by (auto simp: sview_def aview_def)
  show ?thesis using w(1,2) v by blast
qed

lemma reset_split_run:
  assumes g: "geometry K M h" and q: "l < M" "i < 2 ^ l"
  shows "\<exists>h'. on_bits (\<lambda>m. reset_bit m (al_split_bitmap h) (bitno (l, i))) h = Inr ((), h') \<and> bits_step M h h' \<and>
    (\<forall>k < M. \<forall>j < 2 ^ k. sview h' (k, j) = ((k, j) \<noteq> (l, i) \<and> sview h (k, j)) \<and> aview h' (k, j) = aview h (k, j))"
proof -
  note ok = bitno_ok [OF geometryD(1) [OF g]]
  let ?m = "hp_mem h" and ?a = "al_split_bitmap h"
  obtain m' where m': "reset_bit ?m ?a (bitno (l, i)) = Inr m'"
      "\<And>j. bit_index_ok j \<Longrightarrow> bit_view ?a m' j = (j \<noteq> bitno (l, i) \<and> bit_view ?a ?m j)"
    using bitmap.reset_view [OF ok [OF q], of ?m ?a] by blast
  note w = bit_write [OF g q disjI1 [OF refl], of "\<lambda>m. reset_bit m ?a (bitno (l, i))" m',
      OF m'(1) m'(1) [unfolded reset_bit_ok [OF ok [OF q]], THEN sum.inject(2) [THEN iffD1], symmetric]]
  have v: "sview (h\<lparr>hp_mem := m'\<rparr>) (k, j) = ((k, j) \<noteq> (l, i) \<and> sview h (k, j))"
      "aview (h\<lparr>hp_mem := m'\<rparr>) (k, j) = aview h (k, j)" if "k < M" "j < 2 ^ k" for k j
    using m'(2) [OF ok [OF that]] bitno_inj [OF that(2) q(2)] bit_view_outside [OF w(3) _ that] geometryD(10) [OF g]
    by (auto simp: sview_def aview_def)
  show ?thesis using w(1,2) v by blast
qed

lemma flip_alloc_run:
  assumes g: "geometry K M h" and q: "l \<le> M" "i < 2 ^ l"
  shows "\<exists>h'. flip_allocation_bit (blk K h (l, i)) (int l) h = Inr ((), h') \<and> bits_step M h h' \<and>
    (\<forall>k < M. \<forall>j < 2 ^ k. sview h' (k, j) = sview h (k, j) \<and>
       aview h' (k, j) = (aview h (k, j) \<noteq> (Suc k = l \<and> j = i div 2)))"
proof (cases l)
  case 0
  have "bits_step M h h" by (simp add: bits_step_def)
  then show ?thesis using 0 by (auto simp: flip_allocation_bit_def)
next
  case (Suc l')
  note ok = bitno_ok [OF geometryD(1) [OF g]]
  let ?m = "hp_mem h" and ?a = "al_allocation_bitmap h" and ?q = "(l', i div 2)"
  have p: "l' < M" "i div 2 < 2 ^ l'" using q Suc by auto
  obtain m' where m': "flip_bit ?m ?a (bitno ?q) = Inr m'"
      "\<And>j. bit_index_ok j \<Longrightarrow> bit_view ?a m' j = (bit_view ?a ?m j \<noteq> (j = bitno ?q))"
    using bitmap.flip_view [OF ok [OF p], of ?m ?a] by blast
  note w = bit_write [OF g p disjI2 [OF refl], of "\<lambda>m. flip_bit m ?a (bitno ?q)" m',
      OF m'(1) m'(1) [unfolded flip_bit_ok [OF ok [OF p]], THEN sum.inject(2) [THEN iffD1], symmetric]]
  have run: "flip_allocation_bit (blk K h (l, i)) (int l) h = Inr ((), h\<lparr>hp_mem := m'\<rparr>)"
    using w(1) allocation_bit_index_run [OF g, of l' i] q Suc by (simp add: flip_allocation_bit_def bindS_apply)
  have v: "sview (h\<lparr>hp_mem := m'\<rparr>) (k, j) = sview h (k, j)"
      "aview (h\<lparr>hp_mem := m'\<rparr>) (k, j) = (aview h (k, j) \<noteq> (Suc k = l \<and> j = i div 2))" if "k < M" "j < 2 ^ k" for k j
    using m'(2) [OF ok [OF that]] bitno_inj [OF that(2) p(2)] bit_view_outside [OF w(3) _ that] geometryD(10) [OF g] Suc
    by (auto simp: sview_def aview_def)
  show ?thesis using run w(2) v by blast
qed

end
