(* ===== verification/Buddy_Steps.thy ===== *)
theory Buddy_Steps imports Buddy_Inv begin

text \<open>
  The steps of the buddy allocator on the invariant: taking a block off a list, marking it as used, splitting it,
  and the way back.
\<close>

lemma buddy_invD:
  assumes "buddy_inv K M st H L h"
  shows "geometry K M h" "tree_ok M st" "bits_ok M st h" "free_lists K M st H L h" "lists_ok M L h"
  using assms by (simp_all add: buddy_inv_def free_lists_def)

lemma bits_okD:
  assumes "bits_ok M st h" "l < M" "i < 2 ^ l"
  shows "sview h (l, i) \<longleftrightarrow> st (l, i) = Split" "aview h (l, i) \<longleftrightarrow> pair_bit st (l, i)"
  using assms by (simp_all add: bits_ok_def)

lemma free_lists_cong:
  assumes "free_lists K M st H L h" "\<And>q. st' q = Free \<and> q \<notin> H' \<longleftrightarrow> st q = Free \<and> q \<notin> H"
  shows "free_lists K M st' H' L h"
  using assms by (simp add: free_lists_def)

section \<open>Marking a block\<close>

lemma pair_bit_upd:
  assumes "(st (l, i) = Free) \<noteq> (x = Free)"
  shows "pair_bit (st((l, i) := x)) (k, j) \<longleftrightarrow> pair_bit st (k, j) \<noteq> (Suc k = l \<and> j = i div 2)"
proof (cases "even i")
  case True
  then obtain a where "i = 2 * a" by (elim evenE)
  then show ?thesis using assms by (auto simp: pair_bit_def)
next
  case False
  then obtain a where "i = Suc (2 * a)" by (auto elim: oddE)
  then show ?thesis using assms by (auto simp: pair_bit_def)
qed

lemma mark_step:
  assumes v: "buddy_inv K M st H L h" and p: "l \<le> M" "i < 2 ^ l" "leaf (st (l, i))" "leaf x" "(st (l, i) = Free) \<noteq> (x = Free)"
    and H: "\<And>q. (st((l, i) := x)) q = Free \<and> q \<notin> H' \<longleftrightarrow> st q = Free \<and> q \<notin> H"
  shows "\<exists>h'. flip_allocation_bit (blk K h (l, i)) (int l) h = Inr ((), h') \<and> buddy_inv K M (st((l, i) := x)) H' L h' \<and>
    bits_step M h h' \<and> (heads_ok M L h \<longrightarrow> heads_ok M L h')"
proof -
  note d = buddy_invD [OF v]
  obtain h' where h': "flip_allocation_bit (blk K h (l, i)) (int l) h = Inr ((), h')" "bits_step M h h'"
    and view: "\<And>k j. k < M \<Longrightarrow> j < 2 ^ k \<Longrightarrow> sview h' (k, j) = sview h (k, j) \<and> aview h' (k, j) = (aview h (k, j) \<noteq> (Suc k = l \<and> j = i div 2))"
    using flip_alloc_run [OF d(1) p(1,2)] by blast
  have ff: "fixed_fields h' = fixed_fields h" using h'(2) by (simp add: bits_step_def heap_step_def)
  have split: "(st((l, i) := x)) q = Split \<longleftrightarrow> st q = Split" for q using p(3,4) by (auto simp: leaf_def)
  have "bits_ok M (st((l, i) := x)) h'"
    unfolding bits_ok_def split using view bits_okD [OF d(3)]
    by (simp add: pair_bit_upd [of st l i x, OF p(5)] del: fun_upd_apply)
  moreover have "geometry K M h'" using geometry_step [OF d(1) ff] .
  moreover have "free_lists K M (st((l, i) := x)) H' L h'"
    by (rule free_lists_cong [OF free_lists_bits(1) [OF d(1,4) h'(2)] H])
  moreover have "tree_ok M (st((l, i) := x))" by (rule tree_ok_leaf [OF d(2) p(3,4)])
  ultimately have "buddy_inv K M (st((l, i) := x)) H' L h'" by (simp add: buddy_inv_def)
  then show ?thesis using h' free_lists_bits(2) [OF d(1,4) h'(2)] by blast
qed

section \<open>Blocks on and off the lists\<close>

lemma list_member:
  assumes v: "buddy_inv K M st H L h" "l \<le> M" "b \<in> set (L l)"
  obtains i where "i < 2 ^ l" "b = blk K h (l, i)" "st (l, i) = Free" "(l, i) \<notin> H"
  using free_listsD(2) [OF buddy_invD(4) [OF v(1)] v(2)] v(3) by auto

lemma list_memberI:
  assumes v: "buddy_inv K M st H L h" "l \<le> M" "i < 2 ^ l" "st (l, i) = Free" "(l, i) \<notin> H"
  shows "blk K h (l, i) \<in> set (L l)"
  using free_listsD(2) [OF buddy_invD(4) [OF v(1)] v(2)] v(3-5) by auto

lemma list_nonempty:
  assumes v: "buddy_inv K M st {} L h" "l \<le> M"
  shows "L l \<noteq> [] \<longleftrightarrow> (\<exists>i < 2 ^ l. st (l, i) = Free)"
proof
  assume "L l \<noteq> []"
  then have "hd (L l) \<in> set (L l)" by simp
  then show "\<exists>i < 2 ^ l. st (l, i) = Free" using list_member [OF v] by blast
next
  assume "\<exists>i < 2 ^ l. st (l, i) = Free"
  then show "L l \<noteq> []" using list_memberI [OF v] by force
qed

lemma inv_off_list:
  assumes v: "buddy_inv K M st H L h" "l \<le> M" and b: "L l = xs @ b # ys" "b = blk K h (l, i)" "i < 2 ^ l"
    and h': "lists_ok M (L(l := xs @ ys)) h'" "heap_step S h h'" "S \<subseteq> pool K h"
  shows "buddy_inv K M st (insert (l, i) H) (L(l := xs @ ys)) h'"
proof -
  note d = buddy_invD [OF v(1)]
  have ff: "fixed_fields h' = fixed_fields h" using h'(2) by (simp add: heap_step_def)
  have "distinct (L l)" by (rule lists_okD(4) [OF d(5) v(2)])
  then have s: "set (xs @ ys) = set (L l) - {b}" using b(1) by auto
  have e: "blk K h (l, j) = b \<longleftrightarrow> j = i" if "j < 2 ^ l" for j using blk_inj [OF d(1) v(2) that b(3)] b(2) by auto
  have "set (xs @ ys) = (\<lambda>i. blk K h (l, i)) ` {j. j < 2 ^ l \<and> st (l, j) = Free \<and> (l, j) \<notin> insert (l, i) H}"
    unfolding s free_listsD(2) [OF d(4) v(2)] using e by auto
  then have "free_lists K M st (insert (l, i) H) (L(l := xs @ ys)) h'"
    using h'(1) free_listsD(2) [OF d(4)] by (auto simp: free_lists_def area_fields(5) [OF ff])
  then show ?thesis
    using d(2) geometry_step [OF d(1) ff] bits_ok_pool [OF d(1) h'(2,3) d(3)] by (simp add: buddy_inv_def)
qed

lemma inv_on_list:
  assumes v: "buddy_inv K M st H L h" "l \<le> M" and b: "b = blk K h (l, i)" "i < 2 ^ l" "(l, i) \<in> H" "st (l, i) = Free"
    and h': "lists_ok M (L(l := b # L l)) h'" "heap_step S h h'" "S \<subseteq> pool K h"
  shows "buddy_inv K M st (H - {(l, i)}) (L(l := b # L l)) h'"
proof -
  note d = buddy_invD [OF v(1)]
  have ff: "fixed_fields h' = fixed_fields h" using h'(2) by (simp add: heap_step_def)
  have "set (b # L l) = (\<lambda>i. blk K h (l, i)) ` {j. j < 2 ^ l \<and> st (l, j) = Free \<and> (l, j) \<notin> H - {(l, i)}}"
    unfolding list.set free_listsD(2) [OF d(4) v(2)] using b by auto
  then have "free_lists K M st (H - {(l, i)}) (L(l := b # L l)) h'"
    using h'(1) free_listsD(2) [OF d(4)] by (auto simp: free_lists_def area_fields(5) [OF ff])
  then show ?thesis
    using d(2) geometry_step [OF d(1) ff] bits_ok_pool [OF d(1) h'(2,3) d(3)] by (simp add: buddy_inv_def)
qed

lemma in_hand_fresh:
  assumes v: "buddy_inv K M st H L h" "l \<le> M" "i < 2 ^ l" "(l, i) \<in> H" "leaf (st (l, i))" "k \<le> M"
  shows "blk K h (l, i) \<notin> set (L k)"
proof
  assume "blk K h (l, i) \<in> set (L k)"
  then obtain j where j: "j < 2 ^ k" "blk K h (l, i) = blk K h (k, j)" "st (k, j) = Free" "(k, j) \<notin> H"
    using list_member [OF v(1,6)] by blast
  note g = buddy_invD(1) [OF v(1)]
  have "unat (blk K h (l, i)) \<in> unat ` block_bytes K h (l, i)" "unat (blk K h (l, i)) \<in> unat ` block_bytes K h (k, j)"
    using unat_blk(1) [OF g v(2,3)] unat_blk(1) [OF g v(6) j(1)] j(2) weight_pos [of K]
    by (auto simp: block_bytes_def image_iff intro!: exI [of _ "blk K h (k, j)"])
  then have "block_bytes K h (l, i) \<inter> block_bytes K h (k, j) \<noteq> {}" by (auto dest: word_unat_eq_iff [THEN iffD2])
  moreover have "M \<le> K" using geometryD(2) [OF g] by simp
  moreover have "(l, i) \<noteq> (k, j)" using v(4) j(4) by auto
  ultimately show False
    using leaves_disjoint [OF buddy_invD(2) [OF v(1)], of K "(l, i)" "(k, j)" h] v(2,3,5,6) j(1,3) by (simp add: leaf_def)
qed

lemma list_area:
  assumes "geometry K M h" "free_lists K M st H L h" "l \<le> M" "set bs \<subseteq> set (L l)"
  shows "\<Union>(node_bytes ` set bs) \<subseteq> free_area K M st h" "\<Union>(node_bytes ` set bs) \<subseteq> pool K h"
  using free_list_node [OF assms(1-3)] assms(4) by blast+

lemma take_step:
  assumes v: "buddy_inv K M st {} L h" "l \<le> M" "L l = b # bs"
  shows "\<exists>i h'. i < 2 ^ l \<and> b = blk K h (l, i) \<and> st (l, i) = Free \<and> take_first b (int l) h = Inr ((), h') \<and>
    buddy_inv K M st {(l, i)} (L(l := bs)) h' \<and> heap_step (free_area K M st h) h h' \<and>
    (heads_ok M L h \<longrightarrow> heads_ok M (L(l := bs)) h')"
proof -
  note d = buddy_invD [OF v(1)]
  obtain i where i: "i < 2 ^ l" "b = blk K h (l, i)" "st (l, i) = Free" using list_member [OF v(1,2), of b] v(3) by auto
  obtain h' where h': "take_first b (int l) h = Inr ((), h')" "lists_ok M (L(l := bs)) h'"
      "heads_ok M L h \<longrightarrow> heads_ok M (L(l := bs)) h'" "heap_step (\<Union>(node_bytes ` set bs)) h h'"
    using take_first_run [OF d(5) v(2,3)] by blast
  note a = list_area [OF d(1,4) v(2), of bs]
  have "buddy_inv K M st {(l, i)} (L(l := bs)) h'"
    using inv_off_list [OF v(1,2), of "[]" b bs i h', OF _ i(2,1) _ h'(4)] h'(2) a(2) v(3) by auto
  then show ?thesis using i h' heap_step_mono [OF h'(4) a(1)] v(3) by auto
qed

lemma drop_step:
  assumes v: "buddy_inv K M st {} L h" "l \<le> M" "L l = b # bs"
  shows "\<exists>i h'. i < 2 ^ l \<and> b = blk K h (l, i) \<and> st (l, i) = Free \<and> drop_first b (int l) h = Inr ((), h') \<and>
    buddy_inv K M st {(l, i)} (L(l := bs)) h' \<and> heap_step (free_area K M st h) h h' \<and>
    (heads_ok M L h \<and> bs = [] \<longrightarrow> heads_ok M (L(l := bs)) h') \<and> heap_step {} h h'"
proof -
  note d = buddy_invD [OF v(1)]
  obtain i where i: "i < 2 ^ l" "b = blk K h (l, i)" "st (l, i) = Free" using list_member [OF v(1,2), of b] v(3) by auto
  obtain h' where h': "drop_first b (int l) h = Inr ((), h')" "lists_ok M (L(l := bs)) h'"
      "heads_ok M L h \<and> bs = [] \<longrightarrow> heads_ok M (L(l := bs)) h'" "heap_step {} h h'"
    using drop_first_run [OF d(5) v(2,3)] by blast
  have "buddy_inv K M st {(l, i)} (L(l := bs)) h'"
    using inv_off_list [OF v(1,2), of "[]" b bs i h', OF _ i(2,1) _ h'(4)] h'(2) v(3) by auto
  then show ?thesis using i h' heap_step_mono [OF h'(4)] by auto
qed

lemma remove_step:
  assumes v: "buddy_inv K M st H L h" "l \<le> M" "i < 2 ^ l" "st (l, i) = Free" "(l, i) \<notin> H" "heads_ok M L h"
  shows "\<exists>L' h'. remove_from_list (blk K h (l, i)) (int l) h = Inr ((), h') \<and>
    buddy_inv K M st (insert (l, i) H) L' h' \<and> heap_step (free_area K M st h) h h' \<and> heads_ok M L' h'"
proof -
  note d = buddy_invD [OF v(1)]
  let ?b = "blk K h (l, i)"
  obtain xs ys where b: "L l = xs @ ?b # ys" using list_memberI [OF v(1-5)] by (meson split_list)
  obtain h' where h': "remove_from_list ?b (int l) h = Inr ((), h')" "lists_ok M (L(l := xs @ ys)) h'"
      "heads_ok M (L(l := xs @ ys)) h'" "heap_step (\<Union>(node_bytes ` set (xs @ ys))) h h'"
    using remove_from_list_run [OF d(5) v(2,6) b] by blast
  have "set (xs @ ys) \<subseteq> set (L l)" using b by auto
  note a = list_area [OF d(1,4) v(2) this]
  show ?thesis
    using h' inv_off_list [OF v(1,2) b refl v(3) h'(2,4) a(2)] heap_step_mono [OF h'(4) a(1)] by blast
qed

end
