(* ===== verification/Buddy_Alloc.thy ===== *)
theory Buddy_Alloc imports Buddy_Steps begin

text \<open>
  Splitting and allocation on the invariant, with the tree an allocation leaves.
\<close>

section \<open>Splitting\<close>

definition split_state :: "btree \<Rightarrow> block \<Rightarrow> btree" where
  "split_state st p = st(p := Split, (Suc (fst p), 2 * snd p) := Free, (Suc (fst p), Suc (2 * snd p)) := Free)"

lemma child_addresses:
  assumes "geometry K M h" "l < M"
  shows "blk K h (Suc l, 2 * i) = blk K h (l, i)" "blk K h (l, i) + 2 ^ (K - l) div 2 = blk K h (Suc l, Suc (2 * i))"
proof -
  obtain n where n: "K - l = Suc n" "K - Suc l = n" using geometryD(2) [OF assms(1)] assms(2) by (metis Suc_diff_Suc add_leD1 less_le_trans)
  have "n < 64" using n geometryD(3) [OF assms(1)] by linarith
  then have "(2 ^ Suc n :: u64) div 2 = 2 ^ n" using drop_power [of 1 "Suc n"] geometryD(3) [OF assms(1)] n(1)
    by (simp add: drop_bit_eq_div)
  then show "blk K h (l, i) + 2 ^ (K - l) div 2 = blk K h (Suc l, Suc (2 * i))"
    unfolding blk_def weight_def fst_conv snd_conv n by (simp add: algebra_simps)
  show "blk K h (Suc l, 2 * i) = blk K h (l, i)"
    unfolding blk_def weight_def fst_conv snd_conv n by (simp add: algebra_simps)
qed

lemma child_bytes:
  assumes "l < K"
  shows "block_bytes K h (l, i) = block_bytes K h (Suc l, 2 * i) \<union> block_bytes K h (Suc l, Suc (2 * i))"
proof -
  obtain n where n: "K - l = Suc n" "K - Suc l = n" using assms by (metis Suc_diff_Suc)
  show ?thesis unfolding block_bytes_def weight_def fst_conv snd_conv n by (auto simp: algebra_simps)
qed

lemma free_area_iff: "x \<in> free_area K M st h \<longleftrightarrow> (\<exists>p \<in> nodes M. st p = Free \<and> x \<in> block_bytes K h p)"
  unfolding free_area_def by blast

lemma free_area_split:
  assumes "M \<le> K" "l < M" "i < 2 ^ l" "st (l, i) = Free"
  shows "free_area K M (split_state st (l, i)) h \<subseteq> free_area K M st h"
proof
  fix x assume "x \<in> free_area K M (split_state st (l, i)) h"
  then obtain p where p: "p \<in> nodes M" "split_state st (l, i) p = Free" "x \<in> block_bytes K h p" unfolding free_area_iff by blast
  show "x \<in> free_area K M st h"
  proof (cases "p = (Suc l, 2 * i) \<or> p = (Suc l, Suc (2 * i))")
    case True
    then have "x \<in> block_bytes K h (l, i)" using p(3) child_bytes [of l K h i] assms(1,2) by auto
    then show ?thesis unfolding free_area_iff using assms by (intro bexI [of _ "(l, i)"]) auto
  next
    case False
    then have "st p = Free" using p(2) by (auto simp: split_state_def split: if_splits)
    then show ?thesis unfolding free_area_iff using p by blast
  qed
qed

lemma pair_bit_split:
  assumes "tree_ok M st" "l < M" "i < 2 ^ l" "st (l, i) = Free" "j < 2 ^ k"
  shows "pair_bit (split_state st (l, i)) (k, j) \<longleftrightarrow> pair_bit st (k, j) \<noteq> (Suc k = l \<and> j = i div 2)"
proof (cases "(k, j) = (l, i)")
  case True
  then show ?thesis using tree_okD [OF assms(1-3)] assms(4) by (auto simp: pair_bit_def split_state_def)
next
  case False
  then have "pair_bit (split_state st (l, i)) (k, j) = pair_bit (st((l, i) := Split)) (k, j)"
    by (auto simp: pair_bit_def split_state_def)
  then show ?thesis using pair_bit_upd [of st l i Split] assms(4) by simp
qed

lemma on_list_step:
  assumes v: "buddy_inv K M st H L h" "l \<le> M" "i < 2 ^ l" "(l, i) \<in> H" "st (l, i) = Free"
    and run: "\<And>L b. lists_ok M L h \<Longrightarrow> node b \<Longrightarrow> (\<And>k. k \<le> M \<Longrightarrow> b \<notin> set (L k)) \<Longrightarrow>
      \<exists>h'. f b (int l) h = Inr ((), h') \<and> lists_ok M (L(l := b # L l)) h' \<and>
        (heads_ok M L h \<longrightarrow> heads_ok M (L(l := b # L l)) h') \<and> heap_step (\<Union>(node_bytes ` set (b # L l))) h h'"
  shows "\<exists>h'. f (blk K h (l, i)) (int l) h = Inr ((), h') \<and> buddy_inv K M st (H - {(l, i)}) (L(l := blk K h (l, i) # L l)) h' \<and>
    heap_step (free_area K M st h) h h' \<and> (heads_ok M L h \<longrightarrow> heads_ok M (L(l := blk K h (l, i) # L l)) h') \<and>
    heap_step (\<Union>(node_bytes ` set (blk K h (l, i) # L l))) h h'"
proof -
  note d = buddy_invD [OF v(1)]
  let ?b = "blk K h (l, i)"
  have "leaf (st (l, i))" using v(5) by (simp add: leaf_def)
  then obtain h' where h': "f ?b (int l) h = Inr ((), h')" "lists_ok M (L(l := ?b # L l)) h'"
      "heads_ok M L h \<longrightarrow> heads_ok M (L(l := ?b # L l)) h'" "heap_step (\<Union>(node_bytes ` set (?b # L l))) h h'"
    using run [OF d(5) blk_node [OF d(1) v(2,3)] in_hand_fresh [OF v(1-4)]] by blast
  have "node_bytes ?b \<subseteq> free_area K M st h"
    using node_in_block [OF d(1) v(2,3)] v(2,3,5) unfolding free_area_def by (force simp: nodes_def)
  then have a: "\<Union>(node_bytes ` set (?b # L l)) \<subseteq> free_area K M st h"
    using list_area(1) [OF d(1,4) v(2) subset_refl] by auto
  then have "\<Union>(node_bytes ` set (?b # L l)) \<subseteq> pool K h" using free_area_pool [OF d(1)] by blast
  then show ?thesis
    using h' inv_on_list [OF v(1,2) refl v(3-5) h'(2,4)] heap_step_mono [OF h'(4) a] by blast
qed

text \<open>An operation on the list of one level leaves the links of the others.\<close>

lemma node_bytes_disjoint:
  assumes "node x" "node y" "x \<noteq> y"
  shows "node_bytes x \<inter> node_bytes y = {}"
proof (rule ccontr)
  assume "node_bytes x \<inter> node_bytes y \<noteq> {}"
  then obtain a where a: "a \<in> node_bytes x" "a \<in> node_bytes y" by blast
  have "unat x mod 16 = 0" "unat y mod 16 = 0" using assms by (simp_all add: node_def)
  then have "unat x = unat y"
    using node_bytes_bound [OF assms(1) a(1)] node_bytes_bound [OF assms(2) a(2)] by presburger
  then show False using assms(3) by (simp add: word_unat_eq_iff)
qed

lemma other_links:
  assumes "buddy_inv K M st H L h" "lists_ok M (L(l := bs)) h'" "heap_step (meta M h \<union> \<Union>(node_bytes ` set bs)) h h'" "l \<le> M"
    "m \<le> M" "m \<noteq> l" "x \<in> set (L m)"
  shows "pv (hp_mem h') x = pv (hp_mem h) x"
proof -
  note d = buddy_invD [OF assms(1)]
  have x: "node x" using lists_okD(5) [OF d(5) assms(5,7)] .
  have "node y \<and> y \<noteq> x" if "y \<in> set bs" for y
    using lists_okD(5) [OF assms(2,4), of y] lists_okD(9) [OF assms(2,4) assms(5) _, of y] assms(6,7) that by auto
  then have "node_bytes y \<inter> node_bytes x = {}" if "y \<in> set bs" for y using node_bytes_disjoint x that by blast
  moreover have "meta M h \<inter> node_bytes x = {}"
    using free_list_node(1) [OF d(1,4) assms(5,7)] meta_pool [OF d(1)] by blast
  ultimately have "(meta M h \<union> \<Union>(node_bytes ` set bs)) \<inter> node_bytes x = {}" by blast
  then show ?thesis using node_outside(2) [of "meta M h \<union> \<Union>(node_bytes ` set bs)"] assms(3) by (simp add: heap_step_def)
qed

lemma split_step:
  assumes v: "buddy_inv K M st {(l, i)} L h" and p: "l < M" "i < 2 ^ l" "st (l, i) = Free"
  shows "\<exists>L' h'. split (blk K h (l, i)) (int l) h = Inr ((), h') \<and>
    buddy_inv K M (split_state st (l, i)) {(Suc l, 2 * i)} L' h' \<and>
    heap_step (meta M h \<union> free_area K M st h) h h' \<and> (heads_ok M L h \<longrightarrow> heads_ok M L' h') \<and>
    (\<forall>m \<le> l. L' m = L m \<and> (\<forall>x \<in> set (L m). pv (hp_mem h') x = pv (hp_mem h) x))"
proof -
  note d = buddy_invD [OF v]
  let ?st = "split_state st (l, i)" and ?l = "(Suc l, 2 * i)" and ?r = "(Suc l, Suc (2 * i))" and ?b = "blk K h (l, i)"
  have lM: "l \<le> M" "Suc l \<le> M" "M \<le> K" "2 * i < 2 ^ Suc l" "Suc (2 * i) < 2 ^ Suc l"
    using p geometryD(2) [OF d(1)] by auto
  obtain h1 where h1: "on_bits (\<lambda>m. set_bit m (al_split_bitmap h) (bitno (l, i))) h = Inr ((), h1)" "bits_step M h h1"
    and view1: "\<And>k j. k < M \<Longrightarrow> j < 2 ^ k \<Longrightarrow> sview h1 (k, j) = ((k, j) = (l, i) \<or> sview h (k, j)) \<and> aview h1 (k, j) = aview h (k, j)"
    using set_split_run [OF d(1) p(1,2)] by blast
  have ff1: "fixed_fields h1 = fixed_fields h" using h1(2) by (simp add: bits_step_def heap_step_def)
  have g1: "geometry K M h1" by (rule geometry_step [OF d(1) ff1])
  obtain h2 where h2: "flip_allocation_bit ?b (int l) h1 = Inr ((), h2)" "bits_step M h1 h2"
    and view2: "\<And>k j. k < M \<Longrightarrow> j < 2 ^ k \<Longrightarrow> sview h2 (k, j) = sview h1 (k, j) \<and> aview h2 (k, j) = (aview h1 (k, j) \<noteq> (Suc k = l \<and> j = i div 2))"
    using flip_alloc_run [OF g1 lM(1) p(2)] unfolding area_fields(5) [OF ff1] by blast
  have ff2: "fixed_fields h2 = fixed_fields h" using h2(2) ff1 by (simp add: bits_step_def heap_step_def)
  have b2: "bits_step M h h2" by (rule bits_step_trans [OF h1(2) h2(2)])
  have absent: "st ?l = Absent" "st ?r = Absent" using tree_okD [OF d(2) p(1,2)] p(3) by auto
  have bits: "bits_ok M ?st h2"
    unfolding bits_ok_def
  proof (intro allI impI conjI)
    fix k j :: nat assume k: "k < M" "j < 2 ^ k"
    have "sview h2 (k, j) \<longleftrightarrow> (k, j) = (l, i) \<or> st (k, j) = Split" using view1 [OF k] view2 [OF k] bits_okD(1) [OF d(3) k] by blast
    then show "sview h2 (k, j) = (?st (k, j) = Split)" using absent by (auto simp: split_state_def)
    show "aview h2 (k, j) = pair_bit ?st (k, j)"
      using view1 [OF k] view2 [OF k] bits_okD(2) [OF d(3) k] pair_bit_split [OF d(2) p k(2)] by blast
  qed
  have "free_lists K M ?st {?l, ?r} L h2"
    by (rule free_lists_cong [OF free_lists_bits(1) [OF d(1,4) b2]]) (use absent p(3) in \<open>auto simp: split_state_def\<close>)
  moreover have "tree_ok M ?st"
    using tree_ok_split [OF d(2) p(1,2)] p(3) by (simp add: split_state_def leaf_def)
  ultimately have v2: "buddy_inv K M ?st {?l, ?r} L h2" using bits geometry_step [OF d(1) ff2] by (simp add: buddy_inv_def)
  have r: "blk K h2 ?r = ?b + 2 ^ (K - l) div 2" using child_addresses(2) [OF d(1) p(1)] area_fields(5) [OF ff2] by simp
  define L' where "L' = L(Suc l := blk K h2 ?r # L (Suc l))"
  have "\<exists>h'. push_first (blk K h2 ?r) (int (Suc l)) h2 = Inr ((), h') \<and>
      buddy_inv K M ?st ({?l, ?r} - {?r}) (L(Suc l := blk K h2 ?r # L (Suc l))) h' \<and>
      heap_step (free_area K M ?st h2) h2 h' \<and> (heads_ok M L h2 \<longrightarrow> heads_ok M (L(Suc l := blk K h2 ?r # L (Suc l))) h') \<and>
      heap_step (\<Union>(node_bytes ` set (blk K h2 ?r # L (Suc l)))) h2 h'"
  proof (rule on_list_step [OF v2 lM(2,5)], goal_cases)
    case (3 L b)
    then show ?case using push_first_run [OF 3(1) lM(2) 3(2,3)] by simp
  qed (simp_all add: split_state_def)
  then obtain h' where h': "push_first (blk K h2 ?r) (int (Suc l)) h2 = Inr ((), h')"
      "buddy_inv K M ?st ({?l, ?r} - {?r}) L' h'" "heap_step (free_area K M ?st h2) h2 h'" "heads_ok M L h2 \<longrightarrow> heads_ok M L' h'"
      "heap_step (\<Union>(node_bytes ` set (blk K h2 ?r # L (Suc l)))) h2 h'"
    unfolding L'_def by blast
  have run: "split ?b (int l) h = Inr ((), h')"
    using size_from_level_run [OF d(1) lM(1)] split_bit_index_up [OF d(1) lM(1) p(2) le_refl p(1)] h1(1) h2(1) h'(1) [unfolded r]
    by (simp add: split_def bindS_apply thenS_apply Let_def add.commute)
  have a: "free_area K M ?st h2 \<subseteq> free_area K M st h" 
    using free_area_split [where st = st, OF lM(3) p] area_fields(2) [OF ff2] by simp
  have s2: "heap_step (meta M h) h h2" using b2 by (simp add: bits_step_def)
  have s3: "heap_step (meta M h \<union> free_area K M st h) h h'"
    by (rule heap_step_trans [OF s2 h'(3)]) (use a in auto)
  have "{?l, ?r} - {?r} = {?l}" by auto
  then have v': "buddy_inv K M ?st {?l} L' h'" using h'(2) by simp
  have s4: "heap_step (meta M h \<union> \<Union>(node_bytes ` set (blk K h2 ?r # L (Suc l)))) h h'"
    by (rule heap_step_trans [OF s2 h'(5)]) auto
  have links: "\<forall>m \<le> l. L' m = L m \<and> (\<forall>x \<in> set (L m). pv (hp_mem h') x = pv (hp_mem h) x)"
  proof (intro allI impI conjI ballI)
    fix m assume m: "m \<le> l"
    then show "L' m = L m" by (simp add: L'_def)
    fix x assume "x \<in> set (L m)"
    then show "pv (hp_mem h') x = pv (hp_mem h) x"
      using other_links [OF v buddy_invD(5) [OF v', unfolded L'_def] s4 lM(2), of m x] m lM(1) by simp
  qed
  have heads: "heads_ok M L h \<longrightarrow> heads_ok M L' h'" using h'(4) free_lists_bits(2) [OF d(1,4) b2] by blast
  show ?thesis by (rule exI [of _ L'], rule exI [of _ h'], intro conjI run v' s3 heads links)
qed

section \<open>Allocation\<close>

lemma find_source_some:
  assumes "lists_ok n L h" "k < l" "l \<le> Suc n" "L k = b # bs" "\<And>m. k < m \<Longrightarrow> m < l \<Longrightarrow> L m = []"
  shows "find_source (int l) h = Inr (Some (b, int k), h)"
  using assms(2,3,5)
proof (induction l)
  case (Suc l)
  have f: "free_block (int l) h = Inr (case L l of [] \<Rightarrow> 0 | b # _ \<Rightarrow> b, h)"
    using free_block_run [OF assms(1)] Suc.prems(2) by simp
  have b: "b \<noteq> 0" using lists_okD(5) [OF assms(1), of k b] assms(4) Suc.prems(1,2) node_nonzero by simp
  show ?case
  proof (cases "k = l")
    case True
    then show ?thesis using f b assms(4)
      by (subst find_source.simps) (simp add: bindS_apply Let_def empty_def ALLOCATOR_EMPTY_def)
  next
    case False
    then have "L l = []" "find_source (int l) h = Inr (Some (b, int k), h)" using Suc by auto
    then show ?thesis using f
      by (subst find_source.simps) (simp add: bindS_apply Let_def empty_def ALLOCATOR_EMPTY_def)
  qed
qed simp

lemma find_source_none:
  assumes "lists_ok n L h" "l \<le> Suc n" "\<And>m. m < l \<Longrightarrow> L m = []"
  shows "find_source (int l) h = Inr (None, h)"
  using assms(2,3)
proof (induction l)
  case 0
  then show ?case by (subst find_source.simps) (simp add: Let_def)
next
  case (Suc l)
  have "free_block (int l) h = Inr (0, h)" using free_block_run [OF assms(1), of l] Suc.prems by simp
  then show ?case using Suc
    by (subst find_source.simps) (simp add: bindS_apply Let_def empty_def ALLOCATOR_EMPTY_def)
qed

text \<open>
  Two trees have the same room when they have the same blocks in use and as much free; from the one to the other
  only the bitmaps and the free blocks are written. \<open>carved\<close>: the block \<open>p\<close> of the tree \<open>st'\<close> is in hand.
\<close>

definition same_room :: "nat \<Rightarrow> nat \<Rightarrow> btree \<Rightarrow> heap \<Rightarrow> btree \<Rightarrow> heap \<Rightarrow> bool" where
  "same_room K M st h st' h' \<longleftrightarrow> (\<forall>q. st' q = Used \<longleftrightarrow> st q = Used) \<and> space K M st' Free = space K M st Free \<and>
     space K M st' Used = space K M st Used \<and> free_area K M st' h \<subseteq> free_area K M st h \<and>
     heap_step (meta M h \<union> free_area K M st h) h h'"

definition carved :: "nat \<Rightarrow> nat \<Rightarrow> btree \<Rightarrow> heap \<Rightarrow> block \<Rightarrow> btree \<Rightarrow> (nat \<Rightarrow> addr list) \<Rightarrow> heap \<Rightarrow> bool" where
  "carved K M st h p st' L' h' \<longleftrightarrow> p \<in> nodes M \<and> st' p = Free \<and> buddy_inv K M st' {p} L' h' \<and> same_room K M st h st' h'"

lemma same_room_fields: "same_room K M st h st' h' \<Longrightarrow> fixed_fields h' = fixed_fields h"
  by (simp add: same_room_def heap_step_def)

lemma same_room_refl: "heap_step (meta M h \<union> free_area K M st h) h h' \<Longrightarrow> same_room K M st h st h'"
  by (simp add: same_room_def)

lemma same_room_trans:
  assumes "same_room K M st h st1 h1" "same_room K M st1 h1 st2 h2"
  shows "same_room K M st h st2 h2"
proof -
  have s: "heap_step (meta M h \<union> free_area K M st h) h h1" "heap_step (meta M h1 \<union> free_area K M st1 h1) h1 h2"
    using assms by (simp_all add: same_room_def)
  note ff = same_room_fields [OF assms(1)]
  have a: "free_area K M st1 h \<subseteq> free_area K M st h" using assms by (simp add: same_room_def)
  have "heap_step (meta M h \<union> free_area K M st h) h h2"
    by (rule heap_step_trans [OF s]) (use a area_fields [OF ff] in auto)
  then show ?thesis using assms area_fields(2) [OF ff] unfolding same_room_def by auto
qed

lemma carvedD:
  assumes "carved K M st h p st' L' h'"
  shows "p \<in> nodes M" "st' p = Free" "buddy_inv K M st' {p} L' h'" "st' q = Used \<longleftrightarrow> st q = Used"
    "space K M st' Free = space K M st Free" "space K M st' Used = space K M st Used"
    "free_area K M st' h \<subseteq> free_area K M st h" "heap_step (meta M h \<union> free_area K M st h) h h'" "fixed_fields h' = fixed_fields h"
  using assms same_room_fields unfolding carved_def same_room_def by blast+

lemma carved_trans:
  "same_room K M st h st1 h1 \<Longrightarrow> carved K M st1 h1 q st2 L2 h2 \<Longrightarrow> carved K M st h q st2 L2 h2"
  using same_room_trans unfolding carved_def by blast

text \<open>The tree after the block \<open>(k, i)\<close> has been halved \<open>d\<close> times, the first half each time.\<close>

fun split_path :: "btree \<Rightarrow> nat \<Rightarrow> nat \<Rightarrow> nat \<Rightarrow> btree" where
  "split_path st k i 0 = st"
| "split_path st k i (Suc d) = split_path (split_state st (k, i)) (Suc k) (2 * i) d"

text \<open>Splitting down to a block leaves the levels above and the neighbours as they are, and a free block on the way.\<close>

lemma split_path_above: "m < k \<or> m = k \<and> j \<noteq> i \<Longrightarrow> split_path st k i d (m, j) = st (m, j)"
  by (induction d arbitrary: st k i) (auto simp: split_state_def)

lemma split_path_sibling: "e < d \<Longrightarrow> split_path st k i d (Suc (k + e), Suc (2 * (i * 2 ^ e))) = Free"
proof (induction d arbitrary: st k i e)
  case (Suc d)
  show ?case
  proof (cases e)
    case 0
    then show ?thesis by (simp add: split_path_above split_state_def)
  next
    case (Suc f)
    then show ?thesis using Suc.IH [of f "split_state st (k, i)" "Suc k" "2 * i"] Suc.prems by (simp add: mult.assoc)
  qed
qed simp

lemma first_address:
  assumes "geometry K M h" "k \<le> l" "l \<le> M"
  shows "blk K h (l, i * 2 ^ (l - k)) = blk K h (k, i)"
proof -
  have "K - k = (l - k) + (K - l)" using geometryD(2) [OF assms(1)] assms(2,3) by linarith
  then show ?thesis by (simp add: blk_def weight_def power_add mult.assoc)
qed

lemma split_down_run:
  assumes "buddy_inv K M st {(k, i)} L h" "k \<le> l" "l \<le> M" "i < 2 ^ k" "st (k, i) = Free"
  shows "\<exists>L' h'. split_down (blk K h (k, i)) (int k) (int l) h = Inr ((), h') \<and>
    carved K M st h (l, i * 2 ^ (l - k)) (split_path st k i (l - k)) L' h' \<and> (heads_ok M L h \<longrightarrow> heads_ok M L' h') \<and>
    (\<forall>m \<le> k. L' m = L m \<and> (\<forall>x \<in> set (L m). pv (hp_mem h') x = pv (hp_mem h) x))"
  using assms
proof (induction "l - k" arbitrary: k i st L h)
  case 0
  then have e: "k = l" by simp
  have "carved K M st h (k, i) st L h" using 0 by (simp add: carved_def same_room_refl)
  then show ?case using 0 e by (subst split_down.simps) auto
next
  case (Suc d)
  note v = Suc.prems
  note g = buddy_invD [OF v(1)]
  have k: "k < M" "k < l" "M \<le> K" using Suc.hyps(2) v(3) geometryD(2) [OF g(1)] by auto
  let ?st = "split_state st (k, i)"
  obtain L1 h1 where h1: "split (blk K h (k, i)) (int k) h = Inr ((), h1)" "buddy_inv K M ?st {(Suc k, 2 * i)} L1 h1"
      "heap_step (meta M h \<union> free_area K M st h) h h1" "heads_ok M L h \<longrightarrow> heads_ok M L1 h1"
      "\<forall>m \<le> k. L1 m = L m \<and> (\<forall>x \<in> set (L m). pv (hp_mem h1) x = pv (hp_mem h) x)"
    using split_step [OF v(1) k(1) v(4,5)] by blast
  have ff: "fixed_fields h1 = fixed_fields h" using h1(3) by (simp add: heap_step_def)
  have absent: "st (Suc k, 2 * i) = Absent" "st (Suc k, Suc (2 * i)) = Absent"
    using tree_okD [OF g(2) k(1) v(4)] v(5) by auto
  have "(?st q = Used) = (st q = Used)" for q using absent v(5) by (auto simp: split_state_def)
  moreover have "space K M ?st x = space K M st x" if "x = Free \<or> x = Used" for x
    using space_split [where st = st, OF k(1,3) v(4,5) absent that] by (simp add: split_state_def)
  ultimately have c: "same_room K M st h ?st h1"
    using h1(3) free_area_split [where st = st, OF k(3,1) v(4,5)] by (simp add: same_room_def)
  have free: "?st (Suc k, 2 * i) = Free" by (simp add: split_state_def)
  have d: "d = l - Suc k" using Suc.hyps(2) by linarith
  have "2 * i < 2 ^ Suc k" using v(4) by simp
  then obtain L' h' where h': "split_down (blk K h1 (Suc k, 2 * i)) (int (Suc k)) (int l) h1 = Inr ((), h')"
      "carved K M ?st h1 (l, 2 * i * 2 ^ (l - Suc k)) (split_path ?st (Suc k) (2 * i) (l - Suc k)) L' h'" "heads_ok M L1 h1 \<longrightarrow> heads_ok M L' h'"
      "\<forall>m \<le> Suc k. L' m = L1 m \<and> (\<forall>x \<in> set (L1 m). pv (hp_mem h') x = pv (hp_mem h1) x)"
    using Suc.hyps(1) [OF d h1(2) _ v(3) _ free] k(2) by (metis Suc_leI)
  have b: "blk K h1 (Suc k, 2 * i) = blk K h (k, i)" using child_addresses(1) [OF g(1) k(1)] area_fields(5) [OF ff] by simp
  have "split_down (blk K h (k, i)) (int k) (int l) h = Inr ((), h')"
    using h1(1) h'(1) k(2) unfolding b by (subst split_down.simps) (simp add: thenS_apply add.commute)
  moreover have "l - k = Suc (l - Suc k)" using k(2) by simp
  moreover have "\<forall>m \<le> k. L' m = L m \<and> (\<forall>x \<in> set (L m). pv (hp_mem h') x = pv (hp_mem h) x)"
    using h1(5) h'(4) le_SucI by metis
  ultimately show ?case using h'(3) h1(4) carved_trans [OF c h'(2)] by (auto simp: mult.assoc mult.left_commute)
qed


text \<open>The greatest level, up to \<open>l\<close>, with a free block.\<close>

definition source_level :: "btree \<Rightarrow> nat \<Rightarrow> nat \<Rightarrow> bool" where
  "source_level st l k \<longleftrightarrow> k \<le> l \<and> (\<exists>i < 2 ^ k. st (k, i) = Free) \<and> (\<forall>m \<le> l. k < m \<longrightarrow> (\<forall>i < 2 ^ m. st (m, i) \<noteq> Free))"

text \<open>The list taken from keeps its links: either its first block is asked for, or it has no other.\<close>

definition links_kept :: "btree \<Rightarrow> nat \<Rightarrow> nat \<Rightarrow> bool" where
  "links_kept st l k \<longleftrightarrow> k = l \<or> card {i. i < 2 ^ k \<and> st (k, i) = Free} = 1"

definition find_block :: "int \<Rightarrow> addr heap_proc" where
  "find_block level =
     bindS (free_block level) (\<lambda>block.
     if not_empty block then thenS (take_first block level) (returnS block) else create_block level)"

lemma card_list:
  assumes "buddy_inv K M st {} L h" "l \<le> M"
  shows "length (L l) = card {i. i < 2 ^ l \<and> st (l, i) = Free}"
proof -
  note d = buddy_invD [OF assms(1)]
  have "inj_on (\<lambda>i. blk K h (l, i)) {i. i < 2 ^ l \<and> st (l, i) = Free}"
    by (rule inj_onI) (use blk_inj [OF d(1) assms(2)] in auto)
  then have "card {i. i < 2 ^ l \<and> st (l, i) = Free} = card (set (L l))"
    using free_listsD(2) [OF d(4) assms(2)] by (simp add: card_image)
  then show ?thesis using lists_okD(4) [OF d(5) assms(2)] by (simp add: distinct_card)
qed

lemma carvedI:
  assumes "buddy_inv K M st {p} L' h'" "p \<in> nodes M" "st p = Free" "heap_step (free_area K M st h) h h'"
  shows "carved K M st h p st L' h'"
  using assms heap_step_mono [OF assms(4)] by (auto simp: carved_def intro: same_room_refl)

lemma find_block_run:
  assumes v: "buddy_inv K M st {} L h" "l \<le> M" "source_level st l k"
  shows "\<exists>i L' h'. find_block (int l) h = Inr (blk K h (k, i), h') \<and> i < 2 ^ k \<and> st (k, i) = Free \<and>
    carved K M st h (l, i * 2 ^ (l - k)) (split_path st k i (l - k)) L' h' \<and>
    (heads_ok M L h \<and> links_kept st l k \<longrightarrow> heads_ok M L' h') \<and>
    (k < l \<longrightarrow> L k = blk K h (k, i) # L' k \<and> (\<forall>x \<in> set (L' k). pv (hp_mem h') x = pv (hp_mem h) x))"
proof -
  note d = buddy_invD [OF v(1)]
  have s: "k \<le> l" "k \<le> M" "L k \<noteq> []"
    using v(2,3) list_nonempty [OF v(1)] by (auto simp: source_level_def)
  have s4: "L m = []" if "m \<le> l" "k < m" for m
    using v(2,3) list_nonempty [OF v(1), of m] that unfolding source_level_def by (meson le_trans)
  obtain b bs where b: "L k = b # bs" using s(3) by (cases "L k") auto
  have b0: "b \<noteq> 0" using lists_okD(5) [OF d(5) s(2)] node_nonzero b by simp
  show ?thesis
  proof (cases "k = l")
    case True
    obtain i h' where h': "i < 2 ^ l" "b = blk K h (l, i)" "st (l, i) = Free" "take_first b (int l) h = Inr ((), h')"
        "buddy_inv K M st {(l, i)} (L(l := bs)) h'" "heap_step (free_area K M st h) h h'" "heads_ok M L h \<longrightarrow> heads_ok M (L(l := bs)) h'"
      using take_step [OF v(1,2)] b True by blast
    have "find_block (int l) h = Inr (b, h')"
      using free_block_run [OF d(5) v(2)] b b0 True h'(4)
      by (simp add: find_block_def bindS_apply thenS_apply not_empty_def ALLOCATOR_EMPTY_def)
    moreover have "carved K M st h (l, i) st (L(l := bs)) h'" using carvedI [OF h'(5) _ h'(3,6)] h'(1) v(2) by simp
    ultimately show ?thesis using h'(1,2,3,7) True by (intro exI [of _ i] exI [of _ "L(l := bs)"] exI [of _ h']) simp
  next
    case False
    then have k: "k < l" "L l = []" using s s4 by auto
    obtain i h1 where h1: "i < 2 ^ k" "b = blk K h (k, i)" "st (k, i) = Free" "drop_first b (int k) h = Inr ((), h1)"
        "buddy_inv K M st {(k, i)} (L(k := bs)) h1" "heap_step (free_area K M st h) h h1"
        "heads_ok M L h \<and> bs = [] \<longrightarrow> heads_ok M (L(k := bs)) h1" "heap_step {} h h1"
      using drop_step [OF v(1) s(2) b] by blast
    have c: "same_room K M st h st h1" using heap_step_mono [OF h1(6)] by (auto intro: same_room_refl)
    have ff: "fixed_fields h1 = fixed_fields h" using h1(6) by (simp add: heap_step_def)
    obtain L' h' where h': "split_down (blk K h1 (k, i)) (int k) (int l) h1 = Inr ((), h')"
        "carved K M st h1 (l, i * 2 ^ (l - k)) (split_path st k i (l - k)) L' h'"
        "heads_ok M (L(k := bs)) h1 \<longrightarrow> heads_ok M L' h'"
        "\<forall>m \<le> k. L' m = (L(k := bs)) m \<and> (\<forall>x \<in> set ((L(k := bs)) m). pv (hp_mem h') x = pv (hp_mem h1) x)"
      using split_down_run [OF h1(5) s(1) v(2) h1(1,3)] by blast
    have "hp_mem h1 = hp_mem h" using h1(8) by (auto simp: heap_step_def same_outside_def)
    then have stale: "L k = blk K h (k, i) # L' k \<and> (\<forall>x \<in> set (L' k). pv (hp_mem h') x = pv (hp_mem h) x)"
      using h'(4) [rule_format, OF le_refl] b h1(2) by simp
    have "find_source (int l) h = Inr (Some (b, int k), h)"
      using find_source_some [OF d(5) k(1) _ b] s4 v(2) by simp
    then have "find_block (int l) h = Inr (b, h')"
      using free_block_run [OF d(5) v(2)] k(2) h1(4) h'(1) h1(2) area_fields(5) [OF ff]
      by (simp add: find_block_def create_block_def bindS_apply thenS_apply not_empty_def ALLOCATOR_EMPTY_def)
    moreover have "bs = []" if "links_kept st l k"
      using that False card_list [OF v(1) s(2)] b by (simp add: links_kept_def)
    ultimately show ?thesis
      using h1(1-3,7) h'(3) carved_trans [OF c h'(2)] stale by blast
  qed
qed

section \<open>The heap as its client sees it\<close>

definition heap_ok :: "nat \<Rightarrow> nat \<Rightarrow> btree \<Rightarrow> heap \<Rightarrow> bool" where
  "heap_ok K M st h \<longleftrightarrow> (\<exists>L. buddy_inv K M st {} L h) \<and> unat (al_free_size h) = space K M st Free \<and>
     space K M st Free + space K M st Used = 2 ^ K"

text \<open>No first block of a list has a link back; \<open>create_block\<close> does not ensure it.\<close>

definition links_ok :: "nat \<Rightarrow> heap \<Rightarrow> bool" where
  "links_ok M h \<longleftrightarrow> (\<forall>l \<le> M. al_free_blocks h ! l \<noteq> 0 \<longrightarrow> load_u64 (hp_mem h) (al_free_blocks h ! l) = 0)"

text \<open>Memory outside the heap and the contents of the blocks in use are as before.\<close>

definition used_area :: "nat \<Rightarrow> nat \<Rightarrow> btree \<Rightarrow> heap \<Rightarrow> addr set" where
  "used_area K M st h = \<Union>(block_bytes K h ` {p \<in> nodes M. st p = Used})"

definition contents_kept :: "nat \<Rightarrow> nat \<Rightarrow> btree \<Rightarrow> heap \<Rightarrow> heap \<Rightarrow> bool" where
  "contents_kept K M st h h' \<longleftrightarrow>
     (\<forall>a. a \<in> used_area K M st h \<or> a \<notin> pool K h \<and> a \<notin> meta M h \<longrightarrow> hp_mem h' a = hp_mem h a)"

lemma links_ok_heads:
  assumes "lists_ok M L h"
  shows "links_ok M h \<longleftrightarrow> heads_ok M L h"
proof -
  have "al_free_blocks h ! l \<noteq> 0 \<and> load_u64 (hp_mem h) (al_free_blocks h ! l) \<noteq> 0 \<longleftrightarrow> L l \<noteq> [] \<and> pv (hp_mem h) (hd (L l)) \<noteq> 0" if "l \<le> M" for l
    using first_node [OF assms that] by (auto simp: pv_def)
  then show ?thesis unfolding links_ok_def heads_ok_def by blast
qed

lemma used_free_disjoint:
  assumes "geometry K M h" "tree_ok M st"
  shows "used_area K M st h \<inter> free_area K M st h = {}"
proof -
  have K: "M \<le> K" using geometryD(2) [OF assms(1)] by simp
  have "block_bytes K h p \<inter> block_bytes K h q = {}" if "p \<in> nodes M" "st p = Used" "q \<in> nodes M" "st q = Free" for p q
  proof -
    have "p \<noteq> q" using that by auto
    then show ?thesis using leaves_disjoint [OF assms(2) K that(1) _ that(3)] that(2,4) by (simp add: leaf_def)
  qed
  then show ?thesis unfolding used_area_def free_area_def by blast
qed

lemma used_area_pool: "geometry K M h \<Longrightarrow> used_area K M st h \<subseteq> pool K h"
  using block_in_pool unfolding used_area_def nodes_def by blast

lemma contents_keptI:
  assumes "geometry K M h" "tree_ok M st" "heap_step (meta M h \<union> free_area K M st h) h h'"
  shows "contents_kept K M st h h'"
  using used_free_disjoint [OF assms(1,2)] used_area_pool [OF assms(1), of st] free_area_pool [OF assms(1), of st] meta_pool [OF assms(1)]
    heap_step_fields(8) [OF assms(3)] unfolding contents_kept_def by blast

lemma free_size_inv [simp]:
  "buddy_inv K M st H L (h\<lparr>al_free_size := x\<rparr>) = buddy_inv K M st H L h" "links_ok M (h\<lparr>al_free_size := x\<rparr>) = links_ok M h"
  "contents_kept K M st h0 (h\<lparr>al_free_size := x\<rparr>) = contents_kept K M st h0 h"
  by (simp_all add: buddy_inv_def geometry_def bits_ok_def free_lists_def pool_def sview_def aview_def lists_ok_def blk_def links_ok_def
      contents_kept_def)


lemma level_from_size_run:
  assumes "geometry K M h" "l \<le> M"
  shows "level_from_size (2 ^ (K - l)) h = Inr (int l, h)"
proof -
  have "int K - int (K - l) = int l" "K - l < 64" using geometryD(2,3) [OF assms(1)] assms(2) by auto
  then show ?thesis using geometryD(3,4) [OF assms(1)] by (simp add: level_from_size_def liftS_def log2_power)
qed

lemma allocator_allocate_run:
  assumes "geometry K M h" "l \<le> M" "ceil_to_power_of_two sz = Inr (2 ^ (K - l))" "2 ^ (K - l) \<le> unat (al_free_size h)"
    and "find_block (int l) h = Inr (b, h1)" "flip_allocation_bit b (int l) h1 = Inr ((), h2)" "b \<noteq> 0"
  shows "allocator_allocate sz h = Inr (b, h2\<lparr>al_free_size := al_free_size h2 - 2 ^ (K - l)\<rparr>)"
proof -
  have "K - l < 64" using geometryD(3) [OF assms(1)] by linarith
  then have c: "\<not> 2 ^ (K - l) > al_free_size h" using assms(4) by (simp add: word_less_nat_alt unat_power_u64 not_less)
  obtain f where f: "free_block (int l) h = Inr (f, h)"
    using assms(2) geometryD(1) [OF assms(1)] by (simp add: free_block_def level_ok_def thenS_apply ALLOCATOR_MAX_LEVELS_def)
  have "(if not_empty f then thenS (take_first f (int l)) (returnS f) else create_block (int l)) h = Inr (b, h1)"
    using assms(5) f by (simp add: find_block_def bindS_apply)
  then show ?thesis using c f level_from_size_run [OF assms(1,2)] assms(3,6,7)
    by (simp add: allocator_allocate_def bindS_apply thenS_apply liftS_def not_empty_def ALLOCATOR_EMPTY_def del: if_split split: if_split_asm)
qed

lemma heap_okD:
  assumes "heap_ok K M st h"
  obtains L where "buddy_inv K M st {} L h" "geometry K M h" "tree_ok M st" "unat (al_free_size h) = space K M st Free"
    "space K M st Free + space K M st Used = 2 ^ K"
  using assms buddy_invD unfolding heap_ok_def by blast

text \<open>The tree after an allocation at level \<open>l\<close> from the free block \<open>(k, i)\<close>, and the index of the block given out.\<close>

definition alloc_index :: "nat \<Rightarrow> nat \<Rightarrow> nat \<Rightarrow> nat" where "alloc_index l k i = i * 2 ^ (l - k)"

definition alloc_tree :: "btree \<Rightarrow> nat \<Rightarrow> nat \<Rightarrow> nat \<Rightarrow> btree" where
  "alloc_tree st l k i = (split_path st k i (l - k))((l, alloc_index l k i) := Used)"

lemma allocate_ok:
  assumes heap: "heap_ok K M st h" and sz: "ceil_to_power_of_two sz = Inr (2 ^ (K - l))" "l \<le> M" and src: "source_level st l k"
  shows "\<exists>i h'. i < 2 ^ k \<and> st (k, i) = Free \<and> allocator_allocate sz h = Inr (blk K h (l, alloc_index l k i), h') \<and>
     alloc_index l k i < 2 ^ l \<and> blk K h (l, alloc_index l k i) = blk K h (k, i) \<and> heap_ok K M (alloc_tree st l k i) h' \<and>
     (\<forall>q. alloc_tree st l k i q = Used \<longleftrightarrow> st q = Used \<or> q = (l, alloc_index l k i)) \<and>
     block_bytes K h (l, alloc_index l k i) \<inter> used_area K M st h = {} \<and> contents_kept K M st h h' \<and> al_memory h' = al_memory h \<and>
     al_free_size h' = al_free_size h - 2 ^ (K - l) \<and> (links_ok M h \<and> links_kept st l k \<longrightarrow> links_ok M h') \<and>
     (\<not> links_kept st l k \<longrightarrow> al_free_blocks h' ! k \<noteq> 0 \<and> load_u64 (hp_mem h') (al_free_blocks h' ! k) = blk K h (k, i))"
proof -
  obtain L where v: "buddy_inv K M st {} L h" and g: "geometry K M h" "tree_ok M st"
    and free: "unat (al_free_size h) = space K M st Free" "space K M st Free + space K M st Used = 2 ^ K"
    using heap by (rule heap_okD)
  have kl: "k \<le> l" using src by (simp add: source_level_def)
  obtain i L1 h1 where f: "find_block (int l) h = Inr (blk K h (k, i), h1)" "i < 2 ^ k" "st (k, i) = Free"
      "carved K M st h (l, i * 2 ^ (l - k)) (split_path st k i (l - k)) L1 h1" "heads_ok M L h \<and> links_kept st l k \<longrightarrow> heads_ok M L1 h1"
      "k < l \<longrightarrow> L k = blk K h (k, i) # L1 k \<and> (\<forall>x \<in> set (L1 k). pv (hp_mem h1) x = pv (hp_mem h) x)"
    using find_block_run [OF v sz(2) src] by blast
  define j where "j = i * 2 ^ (l - k)"
  define st1 where "st1 = split_path st k i (l - k)"
  have c: "find_block (int l) h = Inr (blk K h (l, j), h1)" "i < 2 ^ k" "st (k, i) = Free"
      "blk K h (l, j) = blk K h (k, i)" "carved K M st h (l, j) st1 L1 h1" "heads_ok M L h \<and> links_kept st l k \<longrightarrow> heads_ok M L1 h1"
    using f first_address [OF g(1) kl sz(2), of i] by (simp_all add: j_def st1_def)
  have j: "j < 2 ^ l" "st1 (l, j) = Free" "buddy_inv K M st1 {(l, j)} L1 h1" "heap_step (meta M h \<union> free_area K M st h) h h1"
    using carvedD [OF c(5)] by simp_all
  have ff: "fixed_fields h1 = fixed_fields h" using j(4) by (simp add: heap_step_def)
  let ?st = "st1((l, j) := Used)"
  have H: "?st q = Free \<and> q \<notin> {} \<longleftrightarrow> st1 q = Free \<and> q \<notin> {(l, j)}" for q by auto
  obtain h2 where h2: "flip_allocation_bit (blk K h1 (l, j)) (int l) h1 = Inr ((), h2)" "buddy_inv K M ?st {} L1 h2" "bits_step M h1 h2"
      "heads_ok M L1 h1 \<longrightarrow> heads_ok M L1 h2"
    using mark_step [OF j(3) sz(2) j(1) _ _ _ H] j(2) by (auto simp: leaf_def)
  have s2: "heap_step (meta M h) h1 h2" using h2(3) area_fields(1) [OF ff] by (simp add: bits_step_def)
  have step: "heap_step (meta M h \<union> free_area K M st h) h h2" by (rule heap_step_trans [OF j(4) s2]) auto
  have ff2: "fixed_fields h2 = fixed_fields h" using step by (simp add: heap_step_def)
  have p: "(l, j) \<in> nodes M" using sz(2) j(1) by simp
  have w: "weight K (l, j) = 2 ^ (K - l)" by (simp add: weight_def)
  have sp: "space K M st1 Free = space K M st Free" "space K M st1 Used = space K M st Used" using carvedD [OF c(5)] by simp_all
  have sp2: "space K M ?st Free + 2 ^ (K - l) = space K M st Free" "space K M ?st Used = space K M st Used + 2 ^ (K - l)"
    using space_upd [OF p, of K st1 Used Free] space_upd [OF p, of K st1 Used Used] j(2) sp w by auto
  have b0: "blk K h (l, j) \<noteq> 0" using blk_node [OF g(1) sz(2) j(1)] node_nonzero by blast
  define h' where "h' = h2\<lparr>al_free_size := al_free_size h2 - 2 ^ (K - l)\<rparr>"
  have fs: "al_free_size h2 = al_free_size h" "al_memory h2 = al_memory h" using ff2 by (simp_all add: fixed_fields_def)
  have run: "allocator_allocate sz h = Inr (blk K h (l, j), h')" unfolding h'_def
    by (rule allocator_allocate_run [OF g(1) sz(2,1) _ c(1) _ b0]) (use h2(1) area_fields(5) [OF ff] free(1) sp2(1) in auto)
  have "2 ^ (K - l) \<le> al_free_size h"
    using free(1) sp2(1) geometryD(3) [OF g(1)] by (simp add: word_le_nat_alt unat_power_u64)
  then have "unat (al_free_size h') = space K M ?st Free"
    using free(1) sp2(1) fs geometryD(3) [OF g(1)] by (simp add: h'_def unat_sub_u64 unat_power_u64)
  then have ok: "heap_ok K M ?st h'" using h2(2) sp2 free(2) by (auto simp: heap_ok_def h'_def)
  have "block_bytes K h (l, j) \<subseteq> free_area K M st1 h" using p j(2) unfolding free_area_def by blast
  then have dis: "block_bytes K h (l, j) \<inter> used_area K M st h = {}"
    using used_free_disjoint [OF g] carvedD(7) [OF c(5)] by blast
  have links: "links_ok M h \<and> links_kept st l k \<longrightarrow> links_ok M h'"
    using links_ok_heads [OF buddy_invD(5) [OF v]] links_ok_heads [OF buddy_invD(5) [OF h2(2)]] c(6) h2(4) by (simp add: h'_def)
  have stale: "al_free_blocks h' ! k \<noteq> 0 \<and> load_u64 (hp_mem h') (al_free_blocks h' ! k) = blk K h (k, i)" if nk: "\<not> links_kept st l k"
  proof -
    have kM: "k \<le> M" "k < l" using kl sz(2) nk by (auto simp: links_kept_def)
    have len: "length (L k) \<noteq> 1" using nk card_list [OF v kM(1)] by (simp add: links_kept_def)
    obtain cs c where c1: "L1 k = c # cs" using f(6) kM(2) len by (cases "L1 k") auto
    have Lk: "L k = blk K h (k, i) # c # cs" using f(6) kM(2) c1 by simp
    have pc: "pv (hp_mem h1) c = blk K h (k, i)"
      using f(6) kM(2) c1 lists_okD(2) [OF buddy_invD(5) [OF v] kM(1)] Lk by simp
    note d1 = buddy_invD [OF j(3)]
    have "meta M h1 \<inter> node_bytes c = {}"
      using free_list_node(1) [OF d1(1,4) kM(1), of c] c1 meta_pool [OF d1(1)] by auto
    then have "pv (hp_mem h2) c = pv (hp_mem h1) c"
      using node_outside(2) [of "meta M h1"] h2(3) by (simp add: bits_step_def heap_step_def)
    moreover have "al_free_blocks h2 ! k = c" "c \<noteq> 0"
      using first_node [OF buddy_invD(5) [OF h2(2)] kM(1)] c1 by auto
    ultimately show ?thesis using pc by (simp add: h'_def pv_def)
  qed
  have at: "alloc_index l k i = j" "alloc_tree st l k i = ?st" by (simp_all add: alloc_index_def alloc_tree_def j_def st1_def)
  show ?thesis
  proof (rule exI [of _ i], rule exI [of _ h'], unfold at, intro conjI allI)
    show "?st q = Used \<longleftrightarrow> st q = Used \<or> q = (l, j)" for q using carvedD(4) [OF c(5)] by auto
    show "contents_kept K M st h h'" using contents_keptI [OF g step] by (simp add: h'_def)
    show "heap_ok K M ?st h'" by (rule ok)
  qed (use run j(1) c(2,3,4) fs dis links stale in \<open>simp_all add: h'_def\<close>)
qed

end
