(* ===== verification/Buddy_Free.thy ===== *)
theory Buddy_Free imports Buddy_Alloc begin

text \<open>
  Merging and deallocation on the invariant, with the tree a deallocation leaves, and the level of a block in use.
\<close>

section \<open>Deallocation\<close>

lemma get_allocation_bit_run:
  assumes "geometry K M h" "Suc l \<le> M" "i < 2 ^ Suc l"
  shows "get_allocation_bit (blk K h (Suc l, i)) (int (Suc l)) h = Inr (of_bool (aview h (l, i div 2)), h)"
proof -
  have "l < M" "i div 2 < 2 ^ l" using assms(2,3) by auto
  then have "bit_index_ok (bitno (l, i div 2))" by (rule bitno_ok [OF geometryD(1) [OF assms(1)]])
  then show ?thesis unfolding get_allocation_bit_def bindS_apply allocation_bit_index_run [OF assms]
    by (simp add: liftS_def get_bit_ok aview_def)
qed

definition merge_state :: "btree \<Rightarrow> block \<Rightarrow> bstate \<Rightarrow> btree" where
  "merge_state st p x = st((Suc (fst p), 2 * snd p) := Absent, (Suc (fst p), Suc (2 * snd p)) := Absent, p := x)"

lemma pair_bit_merge:
  assumes "st (l, a) = Split" "st (Suc l, 2 * a) = Free" "st (Suc l, Suc (2 * a)) = Free" "x \<noteq> Free"
  shows "pair_bit (merge_state st (l, a) x) (k, j) = pair_bit st (k, j)"
  using assms by (cases "(k, j) = (l, a)") (auto simp: pair_bit_def merge_state_def)

lemma merge_step:
  assumes v: "buddy_inv K M st {(Suc l, 2 * a), (Suc l, Suc (2 * a))} L h" and p: "l < M" "a < 2 ^ l"
    and f: "st (Suc l, 2 * a) = Free" "st (Suc l, Suc (2 * a)) = Free"
  shows "\<exists>h'. on_bits (\<lambda>m. reset_bit m (al_split_bitmap h) (bitno (l, a))) h = Inr ((), h') \<and>
    buddy_inv K M (merge_state st (l, a) Used) {} L h' \<and> bits_step M h h' \<and> (heads_ok M L h \<longrightarrow> heads_ok M L h')"
proof -
  note d = buddy_invD [OF v]
  let ?st = "merge_state st (l, a) Used"
  have s: "st (l, a) = Split" using tree_okD(1) [OF d(2) p] f(1) by simp
  obtain h' where h': "on_bits (\<lambda>m. reset_bit m (al_split_bitmap h) (bitno (l, a))) h = Inr ((), h')" "bits_step M h h'"
    and view: "\<And>k j. k < M \<Longrightarrow> j < 2 ^ k \<Longrightarrow> sview h' (k, j) = ((k, j) \<noteq> (l, a) \<and> sview h (k, j)) \<and> aview h' (k, j) = aview h (k, j)"
    using reset_split_run [OF d(1) p] by blast
  have ff: "fixed_fields h' = fixed_fields h" using h'(2) by (simp add: bits_step_def heap_step_def)
  have "bits_ok M ?st h'"
    unfolding bits_ok_def
  proof (intro allI impI conjI)
    fix k j :: nat assume k: "k < M" "j < 2 ^ k"
    have "sview h' (k, j) \<longleftrightarrow> (k, j) \<noteq> (l, a) \<and> st (k, j) = Split" using view [OF k] bits_okD(1) [OF d(3) k] by blast
    then show "sview h' (k, j) = (?st (k, j) = Split)" using f by (auto simp: merge_state_def)
    show "aview h' (k, j) = pair_bit ?st (k, j)"
      using view [OF k] bits_okD(2) [OF d(3) k] pair_bit_merge [of st l a Used k j] s f by simp
  qed
  moreover have "free_lists K M ?st {} L h'"
    by (rule free_lists_cong [OF free_lists_bits(1) [OF d(1,4) h'(2)]]) (use s in \<open>auto simp: merge_state_def\<close>)
  moreover have "tree_ok M ?st"
    using tree_ok_merge [OF d(2) p, of Used] f by (simp add: merge_state_def leaf_def)
  ultimately have "buddy_inv K M ?st {} L h'" using geometry_step [OF d(1) ff] by (simp add: buddy_inv_def)
  then show ?thesis using h' free_lists_bits(2) [OF d(1,4) h'(2)] by blast
qed

lemma merge_room:
  assumes "tree_ok M st" "M \<le> K" "l < M" "a < 2 ^ l" "st (Suc l, 2 * a) = Free" "st (Suc l, Suc (2 * a)) = Free"
    and "heap_step (meta M h \<union> free_area K M st h) h h'"
  shows "same_room K M st h (merge_state st (l, a) Free) h'"
proof -
  let ?st = "merge_state st (l, a) Free"
  have s: "st (l, a) = Split" using tree_okD(1) [OF assms(1,3,4)] assms(5) by simp
  have "space K M ?st x = space K M st x" if "x = Free \<or> x = Used" for x
    using space_merge [where st = st, OF assms(3,2,4) s assms(5,6) that] by (simp add: merge_state_def)
  moreover have "(?st q = Used) = (st q = Used)" for q using s assms(5,6) by (auto simp: merge_state_def)
  moreover have "free_area K M ?st h \<subseteq> free_area K M st h"
  proof
    fix x assume "x \<in> free_area K M ?st h"
    then obtain p where p: "p \<in> nodes M" "?st p = Free" "x \<in> block_bytes K h p" unfolding free_area_iff by blast
    show "x \<in> free_area K M st h"
    proof (cases "p = (l, a)")
      case True
      then have "x \<in> block_bytes K h (Suc l, 2 * a) \<or> x \<in> block_bytes K h (Suc l, Suc (2 * a))"
        using p(3) child_bytes [of l K h a] assms(2,3) by auto
      moreover have "(Suc l, 2 * a) \<in> nodes M" "(Suc l, Suc (2 * a)) \<in> nodes M" using assms(3,4) by auto
      ultimately show ?thesis unfolding free_area_iff using assms(5,6) by blast
    next
      case False
      then have "st p = Free" using p(2) by (auto simp: merge_state_def split: if_splits)
      then show ?thesis unfolding free_area_iff using p by blast
    qed
  qed
  ultimately show ?thesis using assms(7) by (simp add: same_room_def)
qed

lemma blk_less:
  assumes "geometry K M h" "l \<le> M" "i < 2 ^ l" "j < 2 ^ l"
  shows "blk K h (l, i) < blk K h (l, j) \<longleftrightarrow> i < j"
  using unat_blk(1) [OF assms(1-3)] unat_blk(1) [OF assms(1,2,4)] by (simp add: word_less_nat_alt weight_def)

lemma free_step:
  assumes v: "buddy_inv K M st {} L h" "l \<le> M" "i < 2 ^ l" "st (l, i) = Used"
  shows "\<exists>h'. flip_allocation_bit (blk K h (l, i)) (int l) h = Inr ((), h') \<and> buddy_inv K M (st((l, i) := Free)) {(l, i)} L h' \<and>
    bits_step M h h' \<and> (heads_ok M L h \<longrightarrow> heads_ok M L h')"
  by (rule mark_step [OF v(1-3)]) (use v(4) in \<open>auto simp: leaf_def\<close>)

lemma merge_once:
  assumes v: "buddy_inv K M st {} L h" "l < M" "i < 2 ^ Suc l" "st (Suc l, i) = Used" "heads_ok M L h"
  defines "st0 \<equiv> st((Suc l, i) := Free)"
  shows "(\<exists>h'. merge_up (blk K h (Suc l, i)) (int (Suc l)) h = Inr ((blk K h (Suc l, i), int (Suc l)), h') \<and>
      carved K M st0 h (Suc l, i) st0 L h' \<and> heads_ok M L h' \<and> st0 (Suc l, bud i) \<noteq> Free) \<or>
    (\<exists>L' h'. st0 (Suc l, bud i) = Free \<and> merge_up (blk K h (Suc l, i)) (int (Suc l)) h =
        (if l > 0 then merge_up (blk K h (l, i div 2)) (int l) else returnS (blk K h (l, i div 2), int l)) h' \<and>
      buddy_inv K M (merge_state st0 (l, i div 2) Used) {} L' h' \<and> heads_ok M L' h' \<and>
      same_room K M st0 h (merge_state st0 (l, i div 2) Free) h')"
proof -
  note d = buddy_invD [OF v(1)]
  let ?a = "i div 2" and ?b = "blk K h (Suc l, i)" and ?c = "blk K h (Suc l, bud i)"
  have lM: "Suc l \<le> M" "?a < 2 ^ l" "M \<le> K" using v(2,3) geometryD(2) [OF d(1)] by auto
  obtain h1 where h1: "flip_allocation_bit ?b (int (Suc l)) h = Inr ((), h1)" "buddy_inv K M st0 {(Suc l, i)} L h1"
      "bits_step M h h1" "heads_ok M L h1"
    using free_step [OF v(1) lM(1) v(3,4)] v(5) unfolding st0_def by blast
  note d1 = buddy_invD [OF h1(2)]
  have s1: "heap_step (meta M h) h h1" using h1(3) by (simp add: bits_step_def)
  then have ff1: "fixed_fields h1 = fixed_fields h" by (simp add: heap_step_def)
  have e1: "blk K h1 = blk K h" by (rule area_fields(5) [OF ff1])
  have pr: "{(Suc l, i), (Suc l, bud i)} = {(Suc l, 2 * ?a), (Suc l, Suc (2 * ?a))}" using bud_pair(2) [of i] by auto
  have free_i: "st0 (Suc l, i) = Free" by (simp add: st0_def)
  have "pair_bit st0 (l, ?a) \<longleftrightarrow> (st0 (Suc l, i) = Free) \<noteq> (st0 (Suc l, bud i) = Free)"
    using pr by (auto simp: pair_bit_def doubleton_eq_iff)
  then have "aview h1 (l, ?a) \<longleftrightarrow> st0 (Suc l, bud i) \<noteq> Free" using bits_okD(2) [OF d1(3) v(2) lM(2)] free_i by simp
  then have get: "get_allocation_bit ?b (int (Suc l)) h1 = Inr (of_bool (st0 (Suc l, bud i) \<noteq> Free), h1)"
    using get_allocation_bit_run [OF d1(1) lM(1) v(3)] e1 by simp
  show ?thesis
  proof (cases "st0 (Suc l, bud i) = Free")
    case False
    have "merge_up ?b (int (Suc l)) h = Inr ((?b, int (Suc l)), h1)"
      using h1(1) get False by (subst merge_up.simps) (simp add: thenS_apply bindS_apply)
    moreover have "carved K M st0 h (Suc l, i) st0 L h1"
      using h1(2) free_i lM(1) v(3) same_room_refl [OF heap_step_mono [OF s1]] by (simp add: carved_def)
    ultimately show ?thesis using h1(4) False by blast
  next
    case True
    have b: "bud i < 2 ^ Suc l" "bud i \<noteq> i" using bud_less [OF v(3)] bud_div(2) by auto
    obtain L2 h2 where h2: "remove_from_list ?c (int (Suc l)) h1 = Inr ((), h2)"
        "buddy_inv K M st0 (insert (Suc l, bud i) {(Suc l, i)}) L2 h2" "heap_step (free_area K M st0 h1) h1 h2" "heads_ok M L2 h2"
      using remove_step [OF h1(2) lM(1) b(1) True _ h1(4)] b(2) e1 by auto
    have ff2: "fixed_fields h2 = fixed_fields h" using h2(3) ff1 by (simp add: heap_step_def)
    have e2: "blk K h2 = blk K h" by (rule area_fields(5) [OF ff2])
    have s2: "heap_step (meta M h \<union> free_area K M st0 h) h h2"
      by (rule heap_step_trans [OF s1 h2(3)]) (use area_fields(2) [OF ff1] in auto)
    have f: "st0 (Suc l, 2 * ?a) = Free" "st0 (Suc l, Suc (2 * ?a)) = Free" using pr free_i True by (auto simp: doubleton_eq_iff)
    have v2: "buddy_inv K M st0 {(Suc l, 2 * ?a), (Suc l, Suc (2 * ?a))} L2 h2"
      using h2(2) pr by (simp add: insert_commute)
    obtain h3 where h3: "on_bits (\<lambda>m. reset_bit m (al_split_bitmap h2) (bitno (l, ?a))) h2 = Inr ((), h3)"
        "buddy_inv K M (merge_state st0 (l, ?a) Used) {} L2 h3" "bits_step M h2 h3" "heads_ok M L2 h3"
      using merge_step [OF v2 v(2) lM(2) f] h2(4) by blast
    have s3: "heap_step (meta M h \<union> free_area K M st0 h) h h3"
      by (rule heap_step_trans [OF s2, of "meta M h"]) (use h3(3) area_fields(1) [OF ff2] in \<open>auto simp: bits_step_def\<close>)
    have room: "same_room K M st0 h (merge_state st0 (l, ?a) Free) h3"
      by (rule merge_room [OF d1(2) lM(3) v(2) lM(2) f s3])
    have addr: "calculate_buddy_address ?b (int (Suc l)) h1 = Inr (?c, h1)"
      using calculate_buddy_address_run [OF d1(1) lM(1) v(3)] e1 by simp
    have idx: "split_bit_index ?b (int l) h2 = Inr (bitno (l, ?a), h2)"
      using split_bit_index_up [OF buddy_invD(1) [OF h2(2)] lM(1) v(3), of l] v(2) e2 by simp
    have low: "?b < ?c \<Longrightarrow> ?b = blk K h (l, ?a)" "\<not> ?b < ?c \<Longrightarrow> ?c = blk K h (l, ?a)"
      using blk_less [OF d(1) lM(1) v(3) b(1)] bud_pair(1) [of i] child_addresses(1) [OF d(1) v(2), of ?a]
      by (auto simp: min_def split: if_splits)
    have "merge_up ?b (int (Suc l)) h = (if l > 0 then merge_up (blk K h (l, ?a)) (int l) else returnS (blk K h (l, ?a), int l)) h3"
      using h1(1) get True addr h2(1) idx h3(1) low
      by (subst merge_up.simps) (cases "l = 0"; simp add: thenS_apply bindS_apply Let_def)
    then show ?thesis using h3(2,4) room True by blast
  qed
qed

lemma merge_state_upd: "(merge_state st p Used)(p := Free) = merge_state st p Free"
  by (simp add: merge_state_def)

text \<open>The tree after the block \<open>(l, i)\<close> is free and merged with its free buddies, and the block this gives.\<close>

fun coalesce :: "btree \<Rightarrow> nat \<Rightarrow> nat \<Rightarrow> btree \<times> block" where
  "coalesce st 0 i = (st((0, i) := Free), (0, i))"
| "coalesce st (Suc l) i = (let s = st((Suc l, i) := Free) in
     if s (Suc l, bud i) = Free then coalesce (merge_state s (l, i div 2) Used) l (i div 2) else (s, (Suc l, i)))"

lemma merge_up_run:
  assumes "buddy_inv K M st {} L h" "l < M" "i < 2 ^ Suc l" "st (Suc l, i) = Used" "heads_ok M L h"
  shows "\<exists>k j st' L' h'. merge_up (blk K h (Suc l, i)) (int (Suc l)) h = Inr ((blk K h (k, j), int k), h') \<and>
    carved K M (st((Suc l, i) := Free)) h (k, j) st' L' h' \<and> heads_ok M L' h' \<and> coalesce st (Suc l) i = (st', (k, j))"
  using assms
proof (induction l arbitrary: i st L h)
  case (0 i st L h)
  let ?st = "merge_state (st((Suc 0, i) := Free)) (0, i div 2)"
  have i: "i div 2 = 0" "0 < (2 :: nat) ^ 0" using 0(3) by auto
  consider (stop) h' where "merge_up (blk K h (Suc 0, i)) (int (Suc 0)) h = Inr ((blk K h (Suc 0, i), int (Suc 0)), h')"
      "carved K M (st((Suc 0, i) := Free)) h (Suc 0, i) (st((Suc 0, i) := Free)) L h'" "heads_ok M L h'"
      "(st((Suc 0, i) := Free)) (Suc 0, bud i) \<noteq> Free"
    | (up) L' h' where "(st((Suc 0, i) := Free)) (Suc 0, bud i) = Free"
      "merge_up (blk K h (Suc 0, i)) (int (Suc 0)) h = Inr ((blk K h (0, i div 2), int 0), h')"
      "buddy_inv K M (?st Used) {} L' h'" "heads_ok M L' h'" "same_room K M (st((Suc 0, i) := Free)) h (?st Free) h'"
    using merge_once [OF 0] by auto
  then show ?case
  proof cases
    case stop
    then have "coalesce st (Suc 0) i = (st((Suc 0, i) := Free), (Suc 0, i))" by (simp add: Let_def)
    then show ?thesis using stop by blast
  next
    case up
    have "buddy_inv K M (?st Free) {(0, 0)} L' h'"
      using free_step [OF up(3) _ i(2)] by (simp add: flip_allocation_bit_def merge_state_def i(1))
    then have "carved K M (st((Suc 0, i) := Free)) h (0, 0) (?st Free) L' h'" using up(5) by (simp add: carved_def i merge_state_def)
    moreover have "coalesce st (Suc 0) i = (?st Free, (0, 0))" using up(1) i(1) by (simp add: Let_def merge_state_def)
    ultimately show ?thesis using up(2,4) i by metis
  qed
next
  case (Suc l i st L h)
  let ?sf = "st((Suc (Suc l), i) := Free)"
  let ?st = "merge_state ?sf (Suc l, i div 2)"
  consider (stop) h' where "merge_up (blk K h (Suc (Suc l), i)) (int (Suc (Suc l))) h = Inr ((blk K h (Suc (Suc l), i), int (Suc (Suc l))), h')"
      "carved K M ?sf h (Suc (Suc l), i) ?sf L h'" "heads_ok M L h'" "?sf (Suc (Suc l), bud i) \<noteq> Free"
    | (up) L1 h1 where "?sf (Suc (Suc l), bud i) = Free"
      "merge_up (blk K h (Suc (Suc l), i)) (int (Suc (Suc l))) h = merge_up (blk K h (Suc l, i div 2)) (int (Suc l)) h1"
      "buddy_inv K M (?st Used) {} L1 h1" "heads_ok M L1 h1" "same_room K M ?sf h (?st Free) h1"
    using merge_once [OF Suc.prems] by auto
  then show ?case
  proof cases
    case stop
    then have "coalesce st (Suc (Suc l)) i = (?sf, (Suc (Suc l), i))" by (simp add: Let_def)
    then show ?thesis using stop by blast
  next
    case up
    have p: "l < M" "i div 2 < 2 ^ Suc l" "?st Used (Suc l, i div 2) = Used"
      using Suc.prems(2,3) by (auto simp: merge_state_def)
    have e: "blk K h1 = blk K h" by (rule area_fields(5) [OF same_room_fields [OF up(5)]])
    obtain k j st' L' h' where h': "merge_up (blk K h1 (Suc l, i div 2)) (int (Suc l)) h1 = Inr ((blk K h1 (k, j), int k), h')"
        "carved K M ((?st Used)((Suc l, i div 2) := Free)) h1 (k, j) st' L' h'" "heads_ok M L' h'"
        "coalesce (?st Used) (Suc l) (i div 2) = (st', (k, j))"
      using Suc.IH [OF up(3) p up(4)] by blast
    have "carved K M ?sf h (k, j) st' L' h'"
      using carved_trans [OF up(5) h'(2) [unfolded merge_state_upd]] .
    moreover have "coalesce st (Suc (Suc l)) i = (st', (k, j))" using up(1) h'(4) by (subst coalesce.simps) (simp only: Let_def if_True simp_thms)
    ultimately show ?thesis using up(2) h'(1,3) e by metis
  qed
qed

text \<open>The tree after a deallocation.\<close>

definition free_tree :: "btree \<Rightarrow> nat \<Rightarrow> nat \<Rightarrow> btree" where "free_tree st l i = fst (coalesce st l i)"

lemma free_size_fields [simp]:
  "blk K (h\<lparr>al_free_size := x\<rparr>) = blk K h" "heads_ok M L (h\<lparr>al_free_size := x\<rparr>) = heads_ok M L h"
  "meta M (h\<lparr>al_free_size := x\<rparr>) = meta M h" "free_area K M st (h\<lparr>al_free_size := x\<rparr>) = free_area K M st h"
  "contents_kept K M st (h\<lparr>al_free_size := x\<rparr>) h' = contents_kept K M st h h'"
  by (simp_all add: blk_def fun_eq_iff heads_ok_def meta_def free_area_def block_bytes_def contents_kept_def used_area_def pool_def)

lemma used_area_cong: "(\<And>q. st' q = Used \<longleftrightarrow> st q = Used) \<Longrightarrow> used_area K M st' h = used_area K M st h"
  by (simp add: used_area_def)

lemma contents_kept_cong: "(\<And>q. st' q = Used \<longleftrightarrow> st q = Used) \<Longrightarrow> contents_kept K M st' h h' = contents_kept K M st h h'"
  using used_area_cong [of st' st] by (simp add: contents_kept_def)

lemma deallocate_level_ok:
  assumes heap: "heap_ok K M st h" "links_ok M h" and p: "0 < l" "l \<le> M" "i < 2 ^ l" "st (l, i) = Used"
  shows "\<exists>h'. allocator_deallocate_level (blk K h (l, i)) (int l) h = Inr ((), h') \<and> heap_ok K M (free_tree st l i) h' \<and> links_ok M h' \<and>
     (\<forall>q. free_tree st l i q = Used \<longleftrightarrow> st q = Used \<and> q \<noteq> (l, i)) \<and> contents_kept K M (free_tree st l i) h h' \<and>
     al_memory h' = al_memory h \<and> al_free_size h' = al_free_size h + 2 ^ (K - l)"
proof -
  obtain L where v: "buddy_inv K M st {} L h" and g: "geometry K M h" "tree_ok M st"
    and free: "unat (al_free_size h) = space K M st Free" "space K M st Free + space K M st Used = 2 ^ K"
    using heap(1) by (rule heap_okD)
  obtain l' where l': "l = Suc l'" using p(1) by (cases l) auto
  let ?sf = "st((l, i) := Free)"
  define h0 where "h0 = h\<lparr>al_free_size := al_free_size h + 2 ^ (K - l)\<rparr>"
  have v0: "buddy_inv K M st {} L h0" "heads_ok M L h0" and b0: "blk K h0 = blk K h"
    using v heap(2) links_ok_heads [OF buddy_invD(5) [OF v]] by (simp_all add: h0_def)
  obtain k j st1 L1 h1 where h1: "merge_up (blk K h (l, i)) (int l) h0 = Inr ((blk K h (k, j), int k), h1)"
      "carved K M ?sf h0 (k, j) st1 L1 h1" "heads_ok M L1 h1" "coalesce st l i = (st1, (k, j))"
    using merge_up_run [OF v0(1) _ _ _ v0(2), of l' i] p l' b0 by (auto simp del: coalesce.simps)
  have ft: "free_tree st l i = st1" by (simp add: free_tree_def h1(4))
  note c = carvedD [OF h1(2)]
  have k: "k \<le> M" "j < 2 ^ k" using c(1) by simp_all
  have e1: "blk K h1 = blk K h" using area_fields(5) [OF c(9)] b0 by simp
  define L2 where "L2 = L1(k := blk K h1 (k, j) # L1 k)"
  have "\<exists>h'. add_first (blk K h1 (k, j)) (int k) h1 = Inr ((), h') \<and> buddy_inv K M st1 ({(k, j)} - {(k, j)}) (L1(k := blk K h1 (k, j) # L1 k)) h' \<and>
      heap_step (free_area K M st1 h1) h1 h' \<and> (heads_ok M L1 h1 \<longrightarrow> heads_ok M (L1(k := blk K h1 (k, j) # L1 k)) h') \<and>
      heap_step (\<Union>(node_bytes ` set (blk K h1 (k, j) # L1 k))) h1 h'"
  proof (rule on_list_step [OF c(3) k], goal_cases)
    case (3 L b)
    then show ?case using add_first_run [OF 3(1) k(1) 3(2,3)] by simp
  qed (simp_all add: c(2))
  then obtain h2 where h2: "add_first (blk K h (k, j)) (int k) h1 = Inr ((), h2)" "buddy_inv K M st1 {} L2 h2"
      "heap_step (free_area K M st1 h1) h1 h2" "heads_ok M L2 h2"
    using h1(3) e1 unfolding L2_def by auto
  have run: "allocator_deallocate_level (blk K h (l, i)) (int l) h = Inr ((), h2)"
    using size_from_level_run [OF g(1) p(2)] h1(1) h2(1)
    by (simp add: allocator_deallocate_level_def bindS_apply thenS_apply h0_def)
  have step: "heap_step (meta M h0 \<union> free_area K M ?sf h0) h0 h2"
    by (rule heap_step_trans [OF c(8) h2(3)]) (use c(7) area_fields(2) [OF c(9)] in auto)
  then have ff: "fixed_fields h2 = fixed_fields h0" by (simp add: heap_step_def)
  have fs: "al_free_size h2 = al_free_size h + 2 ^ (K - l)" "al_memory h2 = al_memory h"
    using ff by (simp_all add: fixed_fields_def h0_def)
  have n: "(l, i) \<in> nodes M" using p by simp
  have w: "weight K (l, i) = 2 ^ (K - l)" by (simp add: weight_def)
  have sp: "space K M st1 Free = space K M st Free + 2 ^ (K - l)" "space K M st1 Used + 2 ^ (K - l) = space K M st Used"
    using space_upd [OF n, of K st Free Free] space_upd [OF n, of K st Free Used] p(4) c(5,6) w by auto
  have K: "K < 64" by (rule geometryD(3) [OF g(1)])
  have "unat (al_free_size h) + unat (2 ^ (K - l) :: u64) < 18446744073709551616"
  proof -
    have "unat (2 ^ (K - l) :: u64) = 2 ^ (K - l)" using K by (intro unat_power_u64) linarith
    moreover have "(2 :: nat) ^ K < 2 ^ 64" using K by (intro power_strict_increasing) simp_all
    moreover have "space K M st Free + 2 ^ (K - l) \<le> 2 ^ K" using free(2) sp(2) by linarith
    ultimately show ?thesis using free(1) by simp
  qed
  then have "unat (al_free_size h2) = space K M st1 Free"
    using free(1) sp(1) fs(1) K by (simp add: unat_add_u64 unat_power_u64)
  then have ok: "heap_ok K M st1 h2" using h2(2) sp free(2) by (auto simp: heap_ok_def)
  have used: "st1 q = Used \<longleftrightarrow> st q = Used \<and> q \<noteq> (l, i)" for q using c(4) by auto
  have "tree_ok M ?sf" by (rule tree_ok_leaf [OF g(2)]) (simp_all add: leaf_def p(4))
  then have "contents_kept K M ?sf h0 h2" using contents_keptI [OF buddy_invD(1) [OF v0(1)] _ step] by simp
  then have "contents_kept K M st1 h h2" using contents_kept_cong [of st1 ?sf K M h h2] c(4) by (simp add: h0_def)
  moreover have "links_ok M h2" using links_ok_heads [OF buddy_invD(5) [OF h2(2)]] h2(4) by simp
  ultimately show ?thesis unfolding ft using run ok used fs by blast
qed

text \<open>The level of a block in use is found from the split bits, the lowest first.\<close>

lemma find_level_run:
  assumes g: "geometry K M h" "tree_ok M st" "bits_ok M st h" and p: "l \<le> k" "k \<le> M" "i < 2 ^ l" "st (l, i) = Used"
  shows "find_level (blk K h (l, i)) (int k) h = Inr (int l, h)"
  using p(1,2)
proof (induction k)
  case 0
  then show ?case by (subst find_level.simps) simp
next
  case (Suc k)
  have bit: "get_bit (hp_mem h) (al_split_bitmap h) (bitno (k, j)) = Inr (of_bool (st (k, j) = Split))" if "j < 2 ^ k" for j
  proof -
    have k: "k < M" using Suc.prems by simp
    show ?thesis using get_bit_ok [OF bitno_ok [OF geometryD(1) [OF g(1)] k that]] bits_okD(1) [OF g(3) k that]
      by (simp add: sview_def)
  qed
  show ?case
  proof (cases "l = Suc k")
    case True
    have "i div 2 < 2 ^ k" using p(3) True by auto
    moreover have "st (k, i div 2) = Split"
      using tree_ok_parent [OF g(2), of k i] Suc.prems p(3,4) True by simp
    ultimately show ?thesis
      using split_bit_index_up [OF g(1) _ p(3), of k] bit [of "i div 2"] Suc.prems True
      by (subst find_level.simps) (simp add: bindS_apply liftS_def)
  next
    case False
    then have lk: "l \<le> k" using Suc.prems by simp
    have j: "i * 2 ^ (k - l) < 2 ^ k"
    proof -
      have "i * 2 ^ (k - l) < 2 ^ l * 2 ^ (k - l)" using p(3) by simp
      then show ?thesis using lk by (simp flip: power_add)
    qed
    have "st (k, i * 2 ^ (k - l)) \<noteq> Split"
    proof (cases "l = k")
      case True
      then show ?thesis using p(4) by simp
    next
      case False
      have "st (k, i * 2 ^ (k - l)) = Absent"
        by (rule below_leaf [OF g(2) lk _ j]) (use p(4) lk False Suc.prems in auto)
      then show ?thesis by simp
    qed
    then show ?thesis
      using split_bit_index_down [OF g(1) lk p(3)] bit [OF j] Suc lk
      by (subst find_level.simps) (simp add: bindS_apply liftS_def)
  qed
qed

lemma allocation_level_run:
  assumes "heap_ok K M st h" "l \<le> M" "i < 2 ^ l" "st (l, i) = Used"
  shows "allocation_level (blk K h (l, i)) h = Inr (int l, h)"
proof -
  obtain L where v: "buddy_inv K M st {} L h" using assms(1) by (rule heap_okD)
  note d = buddy_invD [OF v]
  show ?thesis using find_level_run [OF d(1-3) assms(2) le_refl assms(3,4)] geometryD(6) [OF d(1)]
    by (simp add: allocation_level_def bindS_apply)
qed

end
