(* ===== verification/Buddy_Spec.thy ===== *)
theory Buddy_Spec imports Buddy_Free begin

text \<open>
  What the buddy allocator promises its clients, from initialisation on, and the cases in which it does not keep it.
\<close>

section \<open>Initialisation\<close>

definition fresh_tree :: btree where "fresh_tree = (\<lambda>_. Absent)((0, 0) := Free)"

definition bitmap_size :: "nat \<Rightarrow> nat" where "bitmap_size M = (2 ^ M - 1) div 8 + 1"

lemma clear_bitmaps_value:
  "clear_bitmaps n a b m x = (if \<exists>k < n. x = a + of_nat k \<or> x = b + of_nat k then 0 else m x)"
proof (induction n arbitrary: a b m)
  case (Suc n)
  have e: "(\<exists>k < Suc n. x = a + of_nat k \<or> x = b + of_nat k) \<longleftrightarrow>
      x = a \<or> x = b \<or> (\<exists>k < n. x = a + 1 + of_nat k \<or> x = b + 1 + of_nat k)"
    by (auto simp: Ex_less_Suc2 ac_simps)
  have "(if P then 0 else (m(a := 0, b := 0)) x) = (if x = a \<or> x = b \<or> P then 0 else m x)" for P by simp
  then show ?case unfolding clear_bitmaps.simps Suc.IH e by blast
qed simp

lemma bitmap_bytes_eq: "bitmap_bytes M a = (\<lambda>k. a + of_nat k) ` {..<bitmap_size M}"
proof -
  have "(\<lambda>j :: int. j div 8) ` {0 ..< 2 ^ M} = int ` {..<bitmap_size M}"
  proof (intro set_eqI iffI)
    fix x assume "x \<in> (\<lambda>j :: int. j div 8) ` {0 ..< 2 ^ M}"
    then obtain j where j: "x = j div 8" "0 \<le> j" "j < 2 ^ M" by auto
    then have "nat j \<le> 2 ^ M - 1" by (simp add: nat_less_iff Suc_leI flip: less_Suc_eq_le)
    then have "nat j div 8 < bitmap_size M" by (simp add: bitmap_size_def less_Suc_eq_le div_le_mono)
    moreover have "x = int (nat j div 8)" using j by (simp add: zdiv_int)
    ultimately show "x \<in> int ` {..<bitmap_size M}" by blast
  next
    fix x assume "x \<in> int ` {..<bitmap_size M}"
    then obtain k where k: "x = int k" "k < bitmap_size M" by auto
    have "(1 :: nat) \<le> 2 ^ M" by simp
    then have "8 * k < 2 ^ M" using k(2) unfolding bitmap_size_def by linarith
    then have "int (8 * k) < int (2 ^ M)" by (simp only: of_nat_less_iff)
    then have "int (8 * k) \<in> {0 ..< 2 ^ M}" by simp
    moreover have "x = int (8 * k) div 8" using k(1) by simp
    ultimately show "x \<in> (\<lambda>j :: int. j div 8) ` {0 ..< 2 ^ M}" by blast
  qed
  then have "(\<lambda>j. a + word_of_int (j div 8)) ` {0 ..< 2 ^ M} = (\<lambda>x. a + word_of_int x) ` int ` {..<bitmap_size M}"
    by (metis image_image)
  then show ?thesis by (simp add: bitmap_bytes_def image_image)
qed

lemma region_mem:
  fixes a x :: addr
  assumes "unat a + n \<le> 18446744073709551616" "x \<in> (\<lambda>k. a + of_nat k) ` {..<n}"
  shows "unat a \<le> unat x" "unat x < unat a + n"
proof -
  obtain k where k: "k < n" "x = a + of_nat k" using assms(2) by auto
  have kb: "k < 18446744073709551616" using k(1) assms(1) by linarith
  have "unat (of_nat k :: u64) = k" by (rule unat_of_nat_u64 [OF kb])
  moreover from this have "unat a + unat (of_nat k :: u64) < 18446744073709551616" using assms(1) k(1) by linarith
  then have "unat (a + of_nat k) = unat a + unat (of_nat k :: u64)" by (rule unat_add_u64)
  ultimately have "unat x = unat a + k" by (simp only: k(2))
  then show "unat a \<le> unat x" "unat x < unat a + n" using k(1) by simp_all
qed

text \<open>
  A place for a heap of size \<open>2 ^ K\<close> at \<open>memory\<close>, with both bitmaps at \<open>bitmaps\<close>, outside of it. The first node is not
  written, so the first 16 bytes of the heap have to be 0 at the start.
\<close>

definition heap_place :: "nat \<Rightarrow> nat \<Rightarrow> addr \<Rightarrow> addr \<Rightarrow> bool" where
  "heap_place K M memory bitmaps \<longleftrightarrow> M \<le> 30 \<and> M + 4 \<le> K \<and> K < 64 \<and> memory \<noteq> 0 \<and> unat memory mod 16 = 0 \<and> bitmaps \<noteq> 0 \<and>
     unat memory + 2 ^ K \<le> 18446744073709551616 \<and> unat bitmaps + 2 * bitmap_size M \<le> 18446744073709551616 \<and>
     (unat bitmaps + 2 * bitmap_size M \<le> unat memory \<or> unat memory + 2 ^ K \<le> unat bitmaps)"

definition init_ok :: "nat \<Rightarrow> nat \<Rightarrow> addr \<Rightarrow> addr \<Rightarrow> mem \<Rightarrow> bool" where
  "init_ok K M memory bitmaps m \<longleftrightarrow> heap_place K M memory bitmaps \<and> load_u64 m memory = 0 \<and> load_u64 m (memory + 8) = 0"

lemma space_fresh: "space K M fresh_tree Free = 2 ^ K" "space K M fresh_tree Used = 0"
proof -
  have "space K M (\<lambda>_. Absent) Free = 0" "space K M (\<lambda>_. Absent) Used = 0" by (simp_all add: space_def)
  moreover have "(0, 0) \<in> nodes M" by simp
  moreover have "weight K (0, 0) = 2 ^ K" by (simp add: weight_def)
  ultimately show "space K M fresh_tree Free = 2 ^ K" "space K M fresh_tree Used = 0"
    using space_upd [of "(0, 0)" M K "\<lambda>_. Absent" Free Free] space_upd [of "(0, 0)" M K "\<lambda>_. Absent" Free Used]
    by (simp_all add: fresh_tree_def)
qed

lemma tree_fresh: "tree_ok M fresh_tree"
  by (simp add: tree_ok_def fresh_tree_def)

lemma init_geometry:
  assumes i: "init_ok K M memory bitmaps m" and h: "al_memory h = memory" "al_size h = 2 ^ K" "al_leaf_size h = 2 ^ (K - M)"
    "al_max_level h = int M" "al_allocation_bitmap h = bitmaps" "al_split_bitmap h = bitmaps + of_nat (bitmap_size M)"
  shows "geometry K M h"
proof -
  let ?n = "bitmap_size M"
  have n: "unat bitmaps + 2 * ?n \<le> 18446744073709551616" "0 < ?n" using i by (simp_all add: init_ok_def heap_place_def bitmap_size_def)
  then have nb: "unat (of_nat ?n :: u64) = ?n" by (intro unat_of_nat_u64) linarith
  have s: "unat (bitmaps + of_nat ?n) = unat bitmaps + ?n" using n nb by (simp add: unat_add_u64)
  have A: "unat bitmaps \<le> unat x \<and> unat x < unat bitmaps + ?n" if "x \<in> bitmap_bytes M bitmaps" for x
    using region_mem [of bitmaps ?n x] that n unfolding bitmap_bytes_eq by linarith
  have S: "unat bitmaps + ?n \<le> unat x \<and> unat x < unat bitmaps + 2 * ?n" if "x \<in> bitmap_bytes M (bitmaps + of_nat ?n)" for x
    using region_mem [of "bitmaps + of_nat ?n" ?n x] that n s unfolding bitmap_bytes_eq by linarith
  have P: "unat memory \<le> unat x \<and> unat x < unat memory + 2 ^ K" if "x \<in> pool K h" for x using that h(1) by (simp add: pool_def)
  have r: "unat bitmaps + 2 * ?n \<le> unat memory \<or> unat memory + 2 ^ K \<le> unat bitmaps" using i by (simp add: init_ok_def heap_place_def)
  have "x \<notin> bitmap_bytes M (bitmaps + of_nat ?n)" if "x \<in> bitmap_bytes M bitmaps" for x
    using A [OF that] S [of x] by linarith
  moreover have "x \<notin> bitmap_bytes M bitmaps" "x \<notin> bitmap_bytes M (bitmaps + of_nat ?n)" if "x \<in> pool K h" for x
    using A [of x] S [of x] P [OF that] r by linarith+
  ultimately show ?thesis using i h by (auto simp: geometry_def init_ok_def heap_place_def)
qed

lemma init_values:
  assumes M: "M \<le> 30" "M + 4 \<le> K" "K < 64"
  shows "log2 (2 ^ K div 2 ^ (K - M)) = Inr (int M)" "c_shl1 (int M) = Inr (2 ^ M)" "c_int (2 ^ M - 1) = Inr (2 ^ M - 1)"
    "(2 ^ M - 1 :: int) sdiv 8 + 1 = int (bitmap_size M)" "(2 :: u64) ^ (K - M) \<noteq> 0"
proof -
  have "(2 :: u64) ^ K div 2 ^ (K - M) = 2 ^ M"
    using drop_power [of "K - M" K] M by (simp add: drop_bit_eq_div)
  then show "log2 (2 ^ K div 2 ^ (K - M)) = Inr (int M)" using M by (simp add: log2_power)
  show "c_shl1 (int M) = Inr (2 ^ M)" using M by (simp add: c_shl1_def)
  have p: "(2 :: int) ^ M \<le> 2 ^ 30" "(1 :: int) \<le> 2 ^ M" using M(1) by (rule power_increasing; simp) simp
  define w where "w = (2 :: int) ^ M"
  have "1 \<le> w" "w \<le> 2 ^ 30" using p by (simp_all only: w_def)
  then have "c_int (w - 1) = Inr (w - 1)" by (simp add: c_int_def INT_MIN_def INT_MAX_def)
  then show "c_int (2 ^ M - 1) = Inr (2 ^ M - 1)" by (simp only: w_def)
  have "(2 ^ M - 1 :: int) = int (2 ^ M - 1)" by (simp add: of_nat_diff)
  then show "(2 ^ M - 1 :: int) sdiv 8 + 1 = int (bitmap_size M)"
    using sdiv_smod_8 [of "2 ^ M - 1"] p by (simp add: bitmap_size_def zdiv_int)
  have "unat ((2 :: u64) ^ (K - M)) = 2 ^ (K - M)" using M by (intro unat_power_u64) linarith
  then show "(2 :: u64) ^ (K - M) \<noteq> 0" by (metis power_not_zero unat_0 zero_neq_numeral)
qed

lemma allocator_init_ok:
  assumes i: "init_ok K M memory bitmaps (hp_mem h)"
  shows "\<exists>h'. allocator_init memory (2 ^ K) (2 ^ (K - M)) bitmaps h = Inr ((), h') \<and> heap_ok K M fresh_tree h' \<and> links_ok M h' \<and>
    al_memory h' = memory \<and> al_free_size h' = 2 ^ K \<and> al_allocation_bitmap h' = bitmaps \<and>
    al_split_bitmap h' = bitmaps + of_nat (bitmap_size M) \<and> (\<forall>a. a \<notin> meta M h' \<longrightarrow> hp_mem h' a = hp_mem h a)"
proof -
  have M: "M \<le> 30" "M + 4 \<le> K" "K < 64" using i by (simp_all add: init_ok_def heap_place_def)
  note val = init_values [OF M]
  let ?n = "bitmap_size M"
  define h' where "h' = h\<lparr>al_memory := memory, al_size := 2 ^ K, al_free_size := 2 ^ K, al_leaf_size := 2 ^ (K - M),
       al_max_level := int M, al_bitmap_entries := 2 ^ M - 1, al_free_blocks := (replicate 40 0)[0 := memory],
       al_free_count := (replicate 40 0)[0 := 1], al_allocation_bitmap := bitmaps, al_split_bitmap := bitmaps + of_nat ?n,
       hp_mem := clear_bitmaps ?n bitmaps (bitmaps + of_nat ?n) (hp_mem h)\<rparr>"
  have b0: "bitmaps \<noteq> 0" using i by (simp add: init_ok_def heap_place_def)
  have run: "allocator_init memory (2 ^ K) (2 ^ (K - M)) bitmaps h = Inr ((), h')"
    using b0 by (simp only: allocator_init_def bindS_apply liftS_def Let_def val if_False res_simps split_conv modifyS_apply
      h'_def ALLOCATOR_MAX_LEVELS_def ALLOCATOR_EMPTY_def nat_int of_int_of_nat_eq)
  have mem: "hp_mem h' a = (if a \<in> meta M h' then 0 else hp_mem h a)" for a
    by (auto simp: h'_def meta_def bitmap_bytes_eq clear_bitmaps_value)
  have g: "geometry K M h'" by (rule init_geometry [OF i]) (simp_all add: h'_def)
  have n0: "node memory" using i by (simp add: init_ok_def heap_place_def node_def)
  have bk: "blk K h' (0, 0) = memory" by (simp add: blk_def h'_def)
  have "node_bytes memory \<subseteq> pool K h'"
    using node_in_block [OF g, of 0 0] block_in_pool [OF g, of 0 0] bk by auto
  then have "node_bytes memory \<inter> meta M h' = {}" using meta_pool [OF g] by blast
  then have so: "same_outside (meta M h') (hp_mem h) (hp_mem h')" "meta M h' \<inter> node_bytes memory = {}"
    by (auto simp: same_outside_def mem)
  have nodes0: "nx (hp_mem h') memory = 0" "pv (hp_mem h') memory = 0"
    using node_outside [OF so] i by (simp_all add: nx_def pv_def init_ok_def)
  define L where "L = (\<lambda>l :: nat. if l = 0 then [memory] else [])"
  have "al_free_blocks h' ! l = (if l = 0 then memory else 0)" "al_free_count h' ! l = (if l = 0 then 1 else 0)" if "l < 40" for l
    using that by (simp_all add: h'_def nth_list_update)
  then have lists: "lists_ok M L h'" using M(1) n0 nodes0(1) by (auto simp: lists_ok_def L_def h'_def)
  have zero: "\<not> bit_view a (hp_mem h') (bitno (l, i))" if "bitmap_bytes M a \<subseteq> meta M h'" "l < M" "i < 2 ^ l" for a l i
  proof -
    have "a + word_of_int (bitno (l, i) div 8) \<in> bitmap_bytes M a"
      using bitno_range [OF that(2,3)] by (auto simp: bitmap_bytes_def)
    then show ?thesis using that(1) by (auto simp: bit_view_def mem)
  qed
  have "bits_ok M fresh_tree h'"
    using zero by (auto simp: bits_ok_def sview_def aview_def meta_def pair_bit_def fresh_tree_def)
  moreover have "free_lists K M fresh_tree {} L h'"
    using lists bk by (auto simp: free_lists_def L_def fresh_tree_def)
  ultimately have v: "buddy_inv K M fresh_tree {} L h'" using g tree_fresh by (simp add: buddy_inv_def)
  have "unat (al_free_size h') = 2 ^ K" using M(3) by (simp add: h'_def unat_power_u64)
  then have "heap_ok K M fresh_tree h'" using v space_fresh by (auto simp: heap_ok_def)
  moreover have "links_ok M h'"
    using links_ok_heads [OF lists] nodes0(2) by (simp add: heads_ok_def L_def)
  ultimately show ?thesis using run mem by (auto simp: h'_def)
qed

section \<open>The whole interface\<close>

lemma deallocate_ok:
  assumes heap: "heap_ok K M st h" "links_ok M h" and p: "0 < l" "l \<le> M" "i < 2 ^ l" "st (l, i) = Used"
  shows "\<exists>h'. allocator_deallocate (blk K h (l, i)) h = Inr ((), h') \<and> heap_ok K M (free_tree st l i) h' \<and> links_ok M h' \<and>
     (\<forall>q. free_tree st l i q = Used \<longleftrightarrow> st q = Used \<and> q \<noteq> (l, i)) \<and> contents_kept K M (free_tree st l i) h h' \<and>
     al_memory h' = al_memory h \<and> al_free_size h' = al_free_size h + 2 ^ (K - l)"
  using deallocate_level_ok [OF heap p] allocation_level_run [OF heap(1) p(2-4)]
  by (simp add: allocator_deallocate_def bindS_apply)

lemma allocation_size_run:
  assumes "heap_ok K M st h" "l \<le> M" "i < 2 ^ l" "st (l, i) = Used"
  shows "allocator_allocation_size (blk K h (l, i)) h = Inr (2 ^ (K - l), h)"
proof -
  obtain L where "geometry K M h" using assms(1) by (rule heap_okD)
  then show ?thesis using allocation_level_run [OF assms] size_from_level_run assms(2)
    by (simp add: allocator_allocation_size_def bindS_apply)
qed

lemma deallocate_fast_eq:
  assumes "heap_ok K M st h" "l \<le> M" "ceil_to_power_of_two sz = Inr (2 ^ (K - l))"
  shows "allocator_deallocate_fast b sz h = allocator_deallocate_level b (int l) h"
proof -
  obtain L where "geometry K M h" using assms(1) by (rule heap_okD)
  then show ?thesis using level_from_size_run assms(2,3) by (simp add: allocator_deallocate_fast_def bindS_apply liftS_def)
qed

lemma deallocate_root_undefined:
  assumes "heap_ok K M st h" "st (0, 0) = Used"
  shows "allocator_deallocate (blk K h (0, 0)) h = Inl Undefined_Behaviour"
proof -
  obtain L where g: "geometry K M h" using assms(1) by (rule heap_okD)
  define h0 where "h0 = h\<lparr>al_free_size := al_free_size h + 2 ^ K\<rparr>"
  have g0: "geometry K M h0" using g by (simp add: h0_def geometry_def pool_def)
  have b: "blk K h (0, 0) = blk K h0 (0, 0)" by (simp add: h0_def)
  have "index_in_level (blk K h0 (0, 0)) (int 0) h0 = Inr (int 0, h0)" using index_up [OF g0, of 0 0 0] by simp
  then have "get_allocation_bit (blk K h0 (0, 0)) 0 h0 = Inl Undefined_Behaviour"
    by (simp add: get_allocation_bit_def allocation_bit_index_def bindS_apply liftS_def unique_index_def c_shl1_def)
  then have "merge_up (blk K h (0, 0)) 0 h0 = Inl Undefined_Behaviour"
    by (subst merge_up.simps) (simp add: b thenS_apply bindS_apply flip_allocation_bit_def)
  then show ?thesis
    using allocation_level_run [OF assms(1), of 0 0] assms(2) size_from_level_run [OF g, of 0]
    by (simp add: allocator_deallocate_def allocator_deallocate_level_def bindS_apply thenS_apply h0_def)
qed

text \<open>An allocation for which no block is left flips the bit of a block at address 0.\<close>

definition null_bit :: "nat \<Rightarrow> nat \<Rightarrow> heap \<Rightarrow> int" where
  "null_bit K l h = 2 ^ (l - 1) + int (unat (- al_memory h) div 2 ^ (K - l) div 2) - 1"

lemma allocate_fail:
  assumes heap: "heap_ok K M st h" and sz: "ceil_to_power_of_two sz = Inr (2 ^ (K - l))" "0 < l" "l \<le> M"
    and none: "\<And>k i. k \<le> l \<Longrightarrow> i < 2 ^ k \<Longrightarrow> st (k, i) \<noteq> Free" and room: "2 ^ (K - l) \<le> unat (al_free_size h)"
    and small: "unat (- al_memory h) div 2 ^ (K - l) < 2 ^ 30"
  shows "bit_index_ok (null_bit K l h)"
    "\<exists>m. flip_bit (hp_mem h) (al_allocation_bitmap h) (null_bit K l h) = Inr m \<and> allocator_allocate sz h = Inr (0, h\<lparr>hp_mem := m\<rparr>)"
proof -
  obtain L where v: "buddy_inv K M st {} L h" and g: "geometry K M h" using heap by (rule heap_okD)
  note d = geometryD [OF g]
  let ?N = "unat (- al_memory h) div 2 ^ (K - l)"
  have empty: "L k = []" if "k \<le> l" for k using list_nonempty [OF v, of k] none [OF that] that sz(3) by auto
  have K: "K - l < 64" using d(3) by linarith
  have c: "\<not> 2 ^ (K - l) > al_free_size h" using room K by (simp add: word_less_nat_alt unat_power_u64 not_less)
  have fb: "free_block (int l) h = Inr (0, h)" using free_block_run [OF buddy_invD(5) [OF v] sz(3)] empty by simp
  have src: "find_source (int l) h = Inr (None, h)"
    by (rule find_source_none [OF buddy_invD(5) [OF v]]) (use sz(3) empty in auto)
  have u: "unat ((0 - al_memory h) div 2 ^ (K - l)) = ?N" using K by (simp add: unat_div unat_power_u64)
  have ne: "(2 :: u64) ^ (K - l) \<noteq> 0"
  proof -
    have "unat ((2 :: u64) ^ (K - l)) = 2 ^ (K - l)" by (rule unat_power_u64 [OF K])
    then show ?thesis by (metis power_not_zero unat_0 zero_neq_numeral)
  qed
  have "?N < 2 ^ 31" using small by simp
  then have "int_of_u64 ((0 - al_memory h) div 2 ^ (K - l)) = int ?N" using u by (simp only: int_of_u64_small)
  then have idx: "index_in_level 0 (int l) h = Inr (int ?N, h)"
    using size_from_level_run [OF g sz(3)] ne by (simp add: index_in_level_def bindS_apply)
  define w where "w = (2 :: int) ^ (l - 1)"
  define n where "n = int (?N div 2)"
  have "(2 :: int) ^ (l - 1) \<le> 2 ^ 29" using sz(3) d(1) by (intro power_increasing) auto
  then have wb: "1 \<le> w" "w \<le> 536870912" unfolding w_def by simp_all
  have "?N div 2 \<le> 536870911" using small by simp
  then have nb: "0 \<le> n" "n \<le> 536870911" unfolding n_def by simp_all
  have sd: "int ?N sdiv 2 = n" unfolding n_def by (cases "?N = 0") (simp_all add: signed_divide_int_def)
  have "l - 1 < 31" using sz(3) d(1) by linarith
  then have sh: "c_shl1 (int l - 1) = Inr w" using sz(2) by (auto simp: c_shl1_def w_def nat_diff_distrib)
  have ci: "c_int (w + n) = Inr (w + n)" "c_int (w + n - 1) = Inr (w + n - 1)"
    using wb nb by (simp_all add: c_int_def INT_MIN_def INT_MAX_def)
  have nbit: "null_bit K l h = w + n - 1" by (simp add: null_bit_def w_def n_def)
  show ok: "bit_index_ok (null_bit K l h)" using wb nb unfolding nbit bit_index_ok_def INT_MAX_def by simp
  obtain m where m: "flip_bit (hp_mem h) (al_allocation_bitmap h) (null_bit K l h) = Inr m"
    using flip_bit_ok [OF ok] by blast
  have "allocation_bit_index 0 (int l) h = Inr (null_bit K l h, h)"
    unfolding nbit allocation_bit_index_def bindS_apply idx by (simp add: liftS_def unique_index_def sh sd ci)
  then have "flip_allocation_bit 0 (int l) h = Inr ((), h\<lparr>hp_mem := m\<rparr>)"
    using sz(2) m by (simp add: flip_allocation_bit_def bindS_apply on_bits_def)
  then have "allocator_allocate sz h = Inr (0, h\<lparr>hp_mem := m\<rparr>)"
    using sz(1) c fb src level_from_size_run [OF g sz(3)]
    by (simp add: allocator_allocate_def create_block_def bindS_apply thenS_apply liftS_def not_empty_def ALLOCATOR_EMPTY_def)
  then show "\<exists>m. flip_bit (hp_mem h) (al_allocation_bitmap h) (null_bit K l h) = Inr m \<and> allocator_allocate sz h = Inr (0, h\<lparr>hp_mem := m\<rparr>)"
    using m by blast
qed

section \<open>A stale link\<close>

lemma remove_stale:
  assumes h: "lists_ok n L h" "l \<le> n" "L l = c # cs" and u: "pv (hp_mem h) c = u" "node u" "u \<notin> set (L l)"
  shows "\<exists>h'. remove_from_list c (int l) h = Inr ((), h') \<and> al_free_blocks h' = al_free_blocks h \<and>
    load_u64 (hp_mem h') (u + 8) = load_u64 (hp_mem h) (c + 8)"
proof -
  note d = lists_okD [OF h(1,2)]
  let ?m = "hp_mem h"
  have c: "node c" "c \<noteq> 0" "c \<noteq> u" "u \<noteq> 0" using d(5) [of c] h(3) node_nonzero u(2,3) by auto
  have nxc: "nx ?m c = (case cs of [] \<Rightarrow> 0 | b # _ \<Rightarrow> b)" using d(1) h(3) path_head by fastforce
  define m1 where "m1 = (if cs = [] then ?m else store_u64 ?m (hd cs) u)"
  let ?h1 = "h\<lparr>hp_mem := m1\<rparr>"
  have hd: "cs \<noteq> [] \<Longrightarrow> node (hd cs) \<and> hd cs \<noteq> 0 \<and> hd cs \<noteq> c" using d(4,5) h(3) node_nonzero by (cases cs) auto
  have m1: "nx m1 c = nx ?m c" "pv m1 c = u" using node_stores(2,3) [OF c(1)] hd u(1) by (auto simp: m1_def)
  have reads: "node_next c h = Inr (nx ?m c, h)" "node_prev c h = Inr (u, h)"
    "node_next c ?h1 = Inr (nx ?m c, ?h1)" "node_prev c ?h1 = Inr (u, ?h1)"
    using c(2) m1 u(1) by (simp_all add: node_next_def node_prev_def deref_def thenS_apply nx_def pv_def)
  have step1: "(if not_empty (nx ?m c) then set_node_prev (nx ?m c) u else returnS ()) h = Inr ((), ?h1)"
    using nxc hd by (cases cs) (auto simp: node_simps m1_def)
  have step2: "(if not_empty u then set_node_next u (nx ?m c) else set_free_block (int l) (nx ?m c)) ?h1 =
      Inr ((), h\<lparr>hp_mem := store_u64 m1 (u + 8) (nx ?m c)\<rparr>)"
    using c(4) by (simp add: node_simps)
  show ?thesis
    unfolding remove_from_list_def bindS_apply thenS_apply reads step1 step2 res_simps split_conv
    using d(8) by (simp add: node_simps nx_def)
qed

section \<open>A small heap\<close>

definition blank_heap :: heap where
  "blank_heap = \<lparr>al_memory = 0, al_size = 0, al_free_size = 0, al_leaf_size = 0, al_max_level = 0, al_bitmap_entries = 0,
     al_free_blocks = [], al_free_count = [], al_split_bitmap = 0, al_allocation_bitmap = 0, hp_mem = \<lambda>_. 0\<rparr>"

lemma demo_init: "init_ok 9 3 0xFFFFFFFF81040000 0xFFFFFFFF81000000 (hp_mem blank_heap)"
  by (simp add: init_ok_def heap_place_def blank_heap_def bitmap_size_def load_u64_def)

lemma ceil_128: "ceil_to_power_of_two 100 = Inr (2 ^ (9 - 2))"
  by code_simp

text \<open>The trees after three allocations of 128 bytes in a heap of 512, and after the first block is given back.\<close>

definition demo_tree1 :: btree where "demo_tree1 = alloc_tree fresh_tree 2 0 0"
definition demo_tree2 :: btree where "demo_tree2 = alloc_tree demo_tree1 2 2 1"
definition demo_tree3 :: btree where "demo_tree3 = alloc_tree demo_tree2 2 1 1"
definition demo_tree4 :: btree where "demo_tree4 = free_tree demo_tree3 2 0"


lemma demo_trees:
  "demo_tree1 p = (if p = (0, 0) \<or> p = (1, 0) then Split else if p = (1, 1) \<or> p = (2, 1) then Free else if p = (2, 0) then Used else Absent)"
  "demo_tree2 p = (if p = (0, 0) \<or> p = (1, 0) then Split else if p = (1, 1) then Free else if p = (2, 0) \<or> p = (2, 1) then Used else Absent)"
  "demo_tree3 p = (if p = (0, 0) \<or> p = (1, 0) \<or> p = (1, 1) then Split else if p = (2, 3) then Free
     else if p = (2, 0) \<or> p = (2, 1) \<or> p = (2, 2) then Used else Absent)"
  "demo_tree4 p = (if p = (0, 0) \<or> p = (1, 0) \<or> p = (1, 1) then Split else if p = (2, 0) \<or> p = (2, 3) then Free
     else if p = (2, 1) \<or> p = (2, 2) then Used else Absent)"
proof -
  show t1: "demo_tree1 p = (if p = (0, 0) \<or> p = (1, 0) then Split else if p = (1, 1) \<or> p = (2, 1) then Free else if p = (2, 0) then Used else Absent)" for p
    by (auto simp: demo_tree1_def alloc_tree_def alloc_index_def split_state_def fresh_tree_def numeral_2_eq_2)
  show t2: "demo_tree2 p = (if p = (0, 0) \<or> p = (1, 0) then Split else if p = (1, 1) then Free else if p = (2, 0) \<or> p = (2, 1) then Used else Absent)" for p
    by (simp add: demo_tree2_def alloc_tree_def alloc_index_def t1)
  show t3: "demo_tree3 p = (if p = (0, 0) \<or> p = (1, 0) \<or> p = (1, 1) then Split else if p = (2, 3) then Free
     else if p = (2, 0) \<or> p = (2, 1) \<or> p = (2, 2) then Used else Absent)" for p
    by (simp add: demo_tree3_def alloc_tree_def alloc_index_def split_state_def t2 numeral_2_eq_2 numeral_3_eq_3)
  have "demo_tree4 p = (demo_tree3((2, 0) := Free)) p"
    by (simp add: demo_tree4_def free_tree_def numeral_2_eq_2 Let_def bud_def t3 numeral_3_eq_3)
  then show "demo_tree4 p = (if p = (0, 0) \<or> p = (1, 0) \<or> p = (1, 1) then Split else if p = (2, 0) \<or> p = (2, 3) then Free
     else if p = (2, 1) \<or> p = (2, 2) then Used else Absent)" by (simp add: t3)
qed

lemma demo_sources: "source_level fresh_tree 2 0" "source_level demo_tree1 2 2" "source_level demo_tree2 2 1" "source_level demo_tree4 3 2"
  "links_kept fresh_tree 2 0" "links_kept demo_tree1 2 2"
  by (auto simp: source_level_def links_kept_def fresh_tree_def demo_trees)

lemma demo_links: "links_kept demo_tree2 2 1" "\<not> links_kept demo_tree4 3 2" 
proof -
  have "{i. i < 2 ^ 1 \<and> demo_tree2 (1, i) = Free} = {1}" "{i. i < 2 ^ 2 \<and> demo_tree4 (2, i) = Free} = {0, 3}"
    by (auto simp: demo_trees)
  then show "links_kept demo_tree2 2 1" "\<not> links_kept demo_tree4 3 2" by (simp_all only: links_kept_def) simp_all
qed

lemma demo_ceil: "ceil_to_power_of_two 40 = Inr (2 ^ (9 - 3))" "ceil_to_power_of_two 256 = Inr (2 ^ (9 - 1))"
  "ceil_to_power_of_two 512 = Inr (2 ^ (9 - 0))"
  by code_simp+

definition demo :: "nat \<Rightarrow> nat \<Rightarrow> btree \<Rightarrow> heap \<Rightarrow> bool" where
  "demo K M st h \<longleftrightarrow> heap_ok K M st h \<and> links_ok M h \<and> al_memory h = 0xFFFFFFFF81040000"

lemma demo_alloc:
  assumes "demo K M st h" "ceil_to_power_of_two sz = Inr (2 ^ (K - l))" "l \<le> M" "source_level st l k" "links_kept st l k"
  shows "\<exists>i h'. i < 2 ^ k \<and> st (k, i) = Free \<and> demo K M (alloc_tree st l k i) h'"
  using allocate_ok [of K M st h, OF _ assms(2-4)] assms(1,5) unfolding demo_def by metis

lemma demo_0: "\<exists>h. demo 9 3 fresh_tree h"
  using allocator_init_ok [OF demo_init] unfolding demo_def by blast

lemma demo_1:
  assumes "\<exists>h. demo K M fresh_tree h" "ceil_to_power_of_two sz = Inr (2 ^ (K - 2))" "2 \<le> M"
  shows "\<exists>h. demo K M demo_tree1 h"
proof -
  obtain h where "demo K M fresh_tree h" using assms(1) by blast
  from demo_alloc [OF this assms(2,3) demo_sources(1,5)] show ?thesis by (auto simp: demo_tree1_def)
qed

lemma demo_2:
  assumes "\<exists>h. demo K M fresh_tree h" "ceil_to_power_of_two sz = Inr (2 ^ (K - 2))" "2 \<le> M"
  shows "\<exists>h. demo K M demo_tree2 h"
proof -
  obtain h where "demo K M demo_tree1 h" using demo_1 [OF assms] by blast
  from demo_alloc [OF this assms(2,3) demo_sources(2,6)]
  obtain i h' where h': "demo_tree1 (2, i) = Free" "demo K M (alloc_tree demo_tree1 2 2 i) h'" by blast
  then have "i = 1" by (simp add: demo_trees(1) split: if_splits)
  then show ?thesis using h' by (auto simp: demo_tree2_def)
qed

lemma demo_3:
  assumes "\<exists>h. demo K M fresh_tree h" "ceil_to_power_of_two sz = Inr (2 ^ (K - 2))" "2 \<le> M"
  shows "\<exists>h. demo K M demo_tree3 h"
proof -
  obtain h where "demo K M demo_tree2 h" using demo_2 [OF assms] by blast
  from demo_alloc [OF this assms(2,3) demo_sources(3) demo_links(1)]
  obtain i h' where h': "demo_tree2 (1, i) = Free" "demo K M (alloc_tree demo_tree2 2 1 i) h'" by blast
  then have "i = 1" by (simp add: demo_trees(2) split: if_splits)
  then show ?thesis using h' by (auto simp: demo_tree3_def)
qed

lemma demo_4:
  assumes "\<exists>h. demo K M fresh_tree h" "ceil_to_power_of_two sz = Inr (2 ^ (K - 2))" "2 \<le> M"
  shows "\<exists>h. demo K M demo_tree4 h"
proof -
  obtain h where h: "demo K M demo_tree3 h" using demo_3 [OF assms] by blast
  then obtain h' where "heap_ok K M (free_tree demo_tree3 2 0) h'" "links_ok M h'" "al_memory h' = al_memory h"
    using deallocate_ok [of K M demo_tree3 h 2 0] demo_trees(3) assms(3) unfolding demo_def by auto
  then show ?thesis using h by (auto simp: demo_tree4_def demo_def)
qed

lemma demo_room:
  assumes "demo K M demo_tree4 h" "2 \<le> M"
  shows "2 ^ (K - 2) + 2 ^ (K - 2) \<le> unat (al_free_size h)"
proof -
  have "(\<Sum>p \<in> {(2, 0), (2, 3)}. if demo_tree4 p = Free then weight K p else 0) \<le> space K M demo_tree4 Free"
    unfolding space_def using assms(2) by (intro sum_mono2) auto
  then have "2 ^ (K - 2) + 2 ^ (K - 2) \<le> space K M demo_tree4 Free" by (simp add: demo_trees weight_def)
  then show ?thesis using assms(1) by (auto simp: demo_def heap_ok_def)
qed

section \<open>Properties\<close>

text \<open>
  Property C9: initialisation. For a heap that is a power of two in size with bitmaps outside of it, and whose first 16
  bytes, the links of the first block, read as 0, \<open>allocator_init\<close> returns with the invariant established for the tree
  that is one free block, all memory free, and nothing but the bitmaps written. (The heap of \<open>mm/alloc.c\<close> is set up so;
  \<open>doc/mm/buddy.txt\<close> describes bitmaps inside the memory and ranges made free one by one, which the code does not do.)
\<close>

theorem allocator_init_correct:
  assumes "heap_place K M memory bitmaps" "load_u64 (hp_mem h) memory = 0" "load_u64 (hp_mem h) (memory + 8) = 0"
  shows "\<exists>h'. allocator_init memory (2 ^ K) (2 ^ (K - M)) bitmaps h = Inr ((), h') \<and> heap_ok K M fresh_tree h' \<and> links_ok M h' \<and>
    al_memory h' = memory \<and> al_free_size h' = 2 ^ K \<and> al_allocation_bitmap h' = bitmaps \<and>
    al_split_bitmap h' = bitmaps + of_nat (bitmap_size M) \<and> (\<forall>a. a \<notin> meta M h' \<longrightarrow> hp_mem h' a = hp_mem h a)"
  using assms by (intro allocator_init_ok) (simp add: init_ok_def)

text \<open>
  Without a place for the bitmaps they are put at the start of the memory, which is nevertheless the one free block: the
  first allocation of the whole gives out the bitmaps.
\<close>

theorem allocator_init_without_bitmaps:
  assumes "M \<le> 30" "M + 4 \<le> K" "K < 64"
  shows "\<exists>h'. allocator_init memory (2 ^ K) (2 ^ (K - M)) 0 h = Inr ((), h') \<and> al_allocation_bitmap h' = memory \<and>
    al_split_bitmap h' = memory + of_nat (bitmap_size M) \<and> al_free_blocks h' ! 0 = memory \<and> al_free_size h' = 2 ^ K"
  by (simp only: allocator_init_def bindS_apply liftS_def Let_def init_values [OF assms] if_False if_True res_simps split_conv
      modifyS_apply ALLOCATOR_MAX_LEVELS_def ALLOCATOR_EMPTY_def nat_int of_int_of_nat_eq) simp

theorem allocator_init_without_bitmaps_witness:
  "\<exists>h'. allocator_init 0xFFFFFFFF81040000 512 64 0 blank_heap = Inr ((), h') \<and> al_allocation_bitmap h' = al_free_blocks h' ! 0"
  using allocator_init_without_bitmaps [of 3 9 "0xFFFFFFFF81040000" blank_heap] by auto

text \<open>
  Property C7: allocation. When \<open>k\<close> is the greatest level, up to the level \<open>l\<close> of the rounded size, with a free
  block, \<open>allocator_allocate\<close> returns the address of a free block of level \<open>k\<close>, split down to the level \<open>l\<close>. The block
  given out overlaps no block in use, the contents of the blocks in use are as before, the invariant holds for the
  new tree, and the free size is less by the size of the block.
\<close>

theorem allocator_allocate_correct:
  assumes "heap_ok K M st h" "ceil_to_power_of_two sz = Inr (2 ^ (K - l))" "l \<le> M" "source_level st l k"
  shows "\<exists>i h'. i < 2 ^ k \<and> st (k, i) = Free \<and> allocator_allocate sz h = Inr (blk K h (k, i), h') \<and>
     heap_ok K M (alloc_tree st l k i) h' \<and> alloc_index l k i < 2 ^ l \<and>
     (\<forall>q. alloc_tree st l k i q = Used \<longleftrightarrow> st q = Used \<or> q = (l, alloc_index l k i)) \<and>
     block_bytes K h (l, alloc_index l k i) \<inter> used_area K M st h = {} \<and> contents_kept K M st h h' \<and>
     al_memory h' = al_memory h \<and> al_free_size h' = al_free_size h - 2 ^ (K - l)"
  using allocate_ok [OF assms] by (elim exE conjE) (intro exI conjI; simp)

text \<open>
  Property C8: deallocation. With the links of the lists in order, \<open>allocator_deallocate\<close> on the address of a block
  in use finds its level, gives the block back and merges it with its free buddies. The invariant and the links hold
  afterwards, exactly the block is no longer in use, and the contents of all other blocks in use are as before.
\<close>

theorem allocator_deallocate_correct:
  assumes "heap_ok K M st h" "links_ok M h" "0 < l" "l \<le> M" "i < 2 ^ l" "st (l, i) = Used"
  shows "\<exists>h'. allocator_deallocate (blk K h (l, i)) h = Inr ((), h') \<and> heap_ok K M (free_tree st l i) h' \<and> links_ok M h' \<and>
     (\<forall>q. free_tree st l i q = Used \<longleftrightarrow> st q = Used \<and> q \<noteq> (l, i)) \<and> contents_kept K M (free_tree st l i) h h' \<and>
     al_memory h' = al_memory h \<and> al_free_size h' = al_free_size h + 2 ^ (K - l)"
  by (rule deallocate_ok [OF assms])

text \<open>
  Property C10: a stale link. When an allocation has to split a block of a list with more than one, the block behind
  it becomes the first of the list with its link back unchanged, so that it names the block just given out. Taking
  that first block off the list, as the deallocation of its buddy does, then writes into the block in use and leaves
  the taken block the first of the list, from where it is given out a second time.
\<close>

theorem create_block_stale_link:
  assumes "heap_ok K M st h" "ceil_to_power_of_two sz = Inr (2 ^ (K - l))" "l \<le> M" "source_level st l k" "\<not> links_kept st l k"
  shows "\<exists>a h' h''. allocator_allocate sz h = Inr (a, h') \<and>
     (let first = al_free_blocks h' ! k in
        first \<noteq> 0 \<and> load_u64 (hp_mem h') first = a \<and> remove_from_list first (int k) h' = Inr ((), h'') \<and>
        load_u64 (hp_mem h'') (a + 8) = load_u64 (hp_mem h') (first + 8) \<and> al_free_blocks h'' ! k = first)"
proof -
  obtain i h' where r: "allocator_allocate sz h = Inr (blk K h (l, alloc_index l k i), h')" "alloc_index l k i < 2 ^ l"
      "blk K h (l, alloc_index l k i) = blk K h (k, i)" "heap_ok K M (alloc_tree st l k i) h'" "al_memory h' = al_memory h"
      "alloc_tree st l k i (l, alloc_index l k i) = Used"
      "al_free_blocks h' ! k \<noteq> 0" "load_u64 (hp_mem h') (al_free_blocks h' ! k) = blk K h (k, i)"
    using allocate_ok [OF assms(1-4)] assms(5) by blast
  have k: "k \<le> M" using assms(3,4) by (auto simp: source_level_def)
  obtain L where v: "buddy_inv K M (alloc_tree st l k i) {} L h'" and g: "geometry K M h'" using r(4) by (rule heap_okD)
  let ?u = "blk K h' (l, alloc_index l k i)"
  have u: "?u = blk K h (k, i)" using r(3,5) by (simp add: blk_def)
  obtain cs where L: "L k = al_free_blocks h' ! k # cs"
    using first_node [OF buddy_invD(5) [OF v] k] r(7) by (cases "L k") auto
  have fresh: "?u \<notin> set (L k)"
  proof
    assume "?u \<in> set (L k)"
    then obtain j where j: "j < 2 ^ k" "?u = blk K h' (k, j)" "alloc_tree st l k i (k, j) = Free" using list_member [OF v k] by blast
    have "node_bytes ?u \<subseteq> block_bytes K h' (l, alloc_index l k i)" "node_bytes ?u \<subseteq> block_bytes K h' (k, j)"
      using node_in_block [OF g assms(3) r(2)] node_in_block [OF g k j(1)] j(2) by simp_all
    moreover have "?u \<in> node_bytes ?u" by (simp add: node_bytes_def cell_def)
    moreover have "(l, alloc_index l k i) \<noteq> (k, j)" using j(3) r(6) by auto
    moreover have "M \<le> K" using geometryD(2) [OF g] by simp
    ultimately show False
      using leaves_disjoint [OF buddy_invD(2) [OF v], of K "(l, alloc_index l k i)" "(k, j)" h'] assms(3) k r(2,6) j(1,3)
      by (auto simp: leaf_def)
  qed
  have "pv (hp_mem h') (al_free_blocks h' ! k) = ?u" using r(8) u by (simp add: pv_def)
  then obtain h'' where "remove_from_list (al_free_blocks h' ! k) (int k) h' = Inr ((), h'')" "al_free_blocks h'' = al_free_blocks h'"
      "load_u64 (hp_mem h'') (?u + 8) = load_u64 (hp_mem h') (al_free_blocks h' ! k + 8)"
    using remove_stale [OF buddy_invD(5) [OF v] k L _ blk_node [OF g assms(3) r(2)] fresh] by blast
  then show ?thesis using r(1,3,7,8) u by (auto simp: Let_def)
qed

theorem allocator_init_correct_witness:
  "\<exists>h. allocator_init 0xFFFFFFFF81040000 512 64 0xFFFFFFFF81000000 blank_heap = Inr ((), h) \<and> al_free_size h = 512"
  using allocator_init_correct [of 9 3 "0xFFFFFFFF81040000" "0xFFFFFFFF81000000" blank_heap] demo_init by (auto simp: init_ok_def)

theorem allocator_allocate_correct_witness:
  "\<exists>h h'. allocator_allocate 100 h = Inr (0xFFFFFFFF81040000, h') \<and> heap_ok 9 3 demo_tree1 h'"
proof -
  obtain h where h: "heap_ok 9 3 fresh_tree h" "al_memory h = 0xFFFFFFFF81040000" using demo_0 by (auto simp: demo_def)
  obtain i h' where h': "i < 2 ^ 0" "allocator_allocate 100 h = Inr (blk 9 h (0, i), h')" "heap_ok 9 3 (alloc_tree fresh_tree 2 0 i) h'"
    using allocator_allocate_correct [OF h(1) ceil_128 _ demo_sources(1)] by auto
  then have "i = 0" "blk 9 h (0, i) = 0xFFFFFFFF81040000" using h(2) by (simp_all add: blk_def)
  then show ?thesis using h'(2,3) by (auto simp: demo_tree1_def)
qed

theorem allocator_deallocate_correct_witness:
  "\<exists>h h'. heap_ok 9 3 demo_tree3 h \<and> allocator_deallocate 0xFFFFFFFF81040000 h = Inr ((), h') \<and> heap_ok 9 3 demo_tree4 h'"
proof -
  obtain h where h: "heap_ok 9 3 demo_tree3 h" "links_ok 3 h" "al_memory h = 0xFFFFFFFF81040000"
    using demo_3 [OF demo_0 ceil_128] by (auto simp: demo_def)
  obtain h' where "allocator_deallocate (blk 9 h (2, 0)) h = Inr ((), h')" "heap_ok 9 3 (free_tree demo_tree3 2 0) h'"
    using allocator_deallocate_correct [OF h(1,2), of 2 0] demo_trees(3) by auto
  then show ?thesis using h(1,3) by (auto simp: demo_tree4_def blk_def)
qed

theorem create_block_stale_link_witness:
  "\<exists>h a h'. heap_ok 9 3 demo_tree4 h \<and> allocator_allocate 40 h = Inr (a, h') \<and> load_u64 (hp_mem h') (al_free_blocks h' ! 2) = a"
proof -
  obtain h where h: "heap_ok 9 3 demo_tree4 h" using demo_4 [OF demo_0 ceil_128] by (auto simp: demo_def)
  then show ?thesis
    using create_block_stale_link [OF h demo_ceil(1) _ demo_sources(4) demo_links(2)] by (auto simp: Let_def)
qed

end
