(* ===== verification/Block_Contract.thy ===== *)
theory Block_Contract imports Libc Bits begin

text \<open>
  The contract between the kernel heap and its allocator of blocks: what an allocation gives and what every operation
  leaves of the blocks in use. \<open>g\<close> is the view of the allocator that its invariant \<open>inv\<close> holds for, \<open>used\<close> the
  blocks in use as addresses with sizes, and \<open>room\<close> says that a block of a size can be had.
\<close>

text \<open>The bytes of a set of blocks are as before.\<close>

definition kept :: "(addr \<times> nat) set \<Rightarrow> mem \<Rightarrow> mem \<Rightarrow> bool" where
  "kept U m m' \<longleftrightarrow> (\<forall>b n x. (b, n) \<in> U \<longrightarrow> x \<in> area_of b n \<longrightarrow> m' x = m x)"

lemma kept_trans: "kept U m m' \<Longrightarrow> kept V m' m'' \<Longrightarrow> W \<subseteq> U \<Longrightarrow> W \<subseteq> V \<Longrightarrow> kept W m m''"
  unfolding kept_def by (metis subsetD)

lemma keptD: "kept U m m' \<Longrightarrow> (b, n) \<in> U \<Longrightarrow> x \<in> area_of b n \<Longrightarrow> m' x = m x"
  unfolding kept_def by blast

locale block_allocator =
  fixes alloc :: "u64 \<Rightarrow> ('s, addr) kproc" and release :: "addr \<Rightarrow> u64 \<Rightarrow> ('s, unit) kproc"
    and size_of :: "addr \<Rightarrow> ('s, u64) kproc"
    and bytes :: "'s \<Rightarrow> mem" and set_bytes :: "mem \<Rightarrow> 's \<Rightarrow> 's"
    and inv :: "'g \<Rightarrow> 's \<Rightarrow> bool" and used :: "'g \<Rightarrow> 's \<Rightarrow> (addr \<times> nat) set" and room :: "'g \<Rightarrow> u64 \<Rightarrow> bool"
  assumes alloc_block: "inv g s \<Longrightarrow> ceil_to_power_of_two sz = Inr n \<Longrightarrow> room g n \<Longrightarrow>
      \<exists>a g' s'. alloc sz s = Inr (a, s') \<and> inv g' s' \<and> a \<noteq> 0 \<and> used g' s' = insert (a, unat n) (used g s) \<and>
        (\<forall>b m. (b, m) \<in> used g s \<longrightarrow> area_of b m \<inter> area_of a (unat n) = {}) \<and> kept (used g s) (bytes s) (bytes s')"
    and release_block: "inv g s \<Longrightarrow> (a, unat n) \<in> used g s \<Longrightarrow> ceil_to_power_of_two n = Inr n \<Longrightarrow>
      \<exists>g' s'. release a n s = Inr ((), s') \<and> inv g' s' \<and> used g' s' = used g s - {(a, unat n)} \<and> kept (used g' s') (bytes s) (bytes s')"
    and block_size: "inv g s \<Longrightarrow> (a, m) \<in> used g s \<Longrightarrow> \<exists>n. size_of a s = Inr (n, s) \<and> unat n = m"
    and write_block: "inv g s \<Longrightarrow> (a, m) \<in> used g s \<Longrightarrow> (\<And>x. x \<notin> area_of a m \<Longrightarrow> f x = bytes s x) \<Longrightarrow>
      inv g (set_bytes f s) \<and> used g (set_bytes f s) = used g s \<and> bytes (set_bytes f s) = f"
begin

lemma area_mono: "m \<le> n \<Longrightarrow> area_of a m \<subseteq> area_of a n"
  by (auto simp: area_of_def)

text \<open>A new block that is then filled with zeros.\<close>

lemma zeroed_block:
  assumes "inv g s" "ceil_to_power_of_two sz = Inr n" "unat sz \<le> unat n" "room g n"
  shows "\<exists>a g' s1. alloc sz s = Inr (a, s1) \<and> a \<noteq> 0 \<and>
    (let s2 = set_bytes (fst (memset (bytes s1) a 0 sz)) s1 in
      inv g' s2 \<and> used g' s2 = insert (a, unat n) (used g s) \<and> (\<forall>x \<in> area_of a (unat sz). bytes s2 x = 0) \<and>
      (\<forall>b m. (b, m) \<in> used g s \<longrightarrow> area_of b m \<inter> area_of a (unat n) = {}) \<and> kept (used g s) (bytes s) (bytes s2))"
proof -
  obtain a g' s1 where a: "alloc sz s = Inr (a, s1)" "inv g' s1" "a \<noteq> 0" "used g' s1 = insert (a, unat n) (used g s)"
      "\<And>b m. (b, m) \<in> used g s \<Longrightarrow> area_of b m \<inter> area_of a (unat n) = {}" "kept (used g s) (bytes s) (bytes s1)"
    using alloc_block [OF assms(1,2,4)] by blast
  let ?f = "fst (memset (bytes s1) a 0 sz)"
  have sub: "area_of a (unat sz) \<subseteq> area_of a (unat n)" by (rule area_mono [OF assms(3)])
  have f: "?f x = (if x \<in> area_of a (unat sz) then 0 else bytes s1 x)" for x by (simp add: memset_apply)
  have o: "?f x = bytes s1 x" if "x \<notin> area_of a (unat n)" for x using that sub f by auto
  have "(a, unat n) \<in> used g' s1" using a(4) by simp
  then have w: "inv g' (set_bytes ?f s1)" "used g' (set_bytes ?f s1) = used g' s1" "bytes (set_bytes ?f s1) = ?f"
    using write_block [OF a(2) _ o] by blast+
  have "kept (used g s) (bytes s1) ?f" unfolding kept_def f using a(5) sub by auto
  then have "kept (used g s) (bytes s) ?f" by (rule kept_trans [OF a(6)]) simp_all
  then show ?thesis using a(1,3,4,5) w f by (intro exI [of _ a] exI [of _ g'] exI [of _ s1]) (simp add: Let_def)
qed

text \<open>A larger block that takes over the contents of a block, which is then given back.\<close>

lemma moved_block:
  assumes "inv g s" "(p, unat m) \<in> used g s" "ceil_to_power_of_two m = Inr m"
    "ceil_to_power_of_two n = Inr n" "unat m \<le> unat n" "room g n"
  shows "\<exists>a g' s1 s3. alloc n s = Inr (a, s1) \<and> a \<noteq> 0 \<and>
    release p m (set_bytes (fst (memcpy (bytes s1) a p m)) s1) = Inr ((), s3) \<and> inv g' s3 \<and>
    used g' s3 = insert (a, unat n) (used g s - {(p, unat m)}) \<and>
    (\<forall>b k. (b, k) \<in> used g s \<longrightarrow> area_of b k \<inter> area_of a (unat n) = {}) \<and>
    (\<forall>x \<in> area_of a (unat m). bytes s3 x = bytes s (p + (x - a))) \<and> kept (used g s - {(p, unat m)}) (bytes s) (bytes s3)"
proof -
  obtain a g1 s1 where a: "alloc n s = Inr (a, s1)" "inv g1 s1" "a \<noteq> 0" "used g1 s1 = insert (a, unat n) (used g s)"
      "\<And>b m. (b, m) \<in> used g s \<Longrightarrow> area_of b m \<inter> area_of a (unat n) = {}" "kept (used g s) (bytes s) (bytes s1)"
    using alloc_block [OF assms(1,4,6)] by blast
  let ?f = "fst (memcpy (bytes s1) a p m)"
  have pa: "area_of p (unat m) \<inter> area_of a (unat n) = {}" by (rule a(5) [OF assms(2)])
  have sub: "area_of a (unat m) \<subseteq> area_of a (unat n)" by (rule area_mono [OF assms(5)])
  have "unat m \<le> unat (a - p)"
  proof (rule ccontr)
    assume "\<not> unat m \<le> unat (a - p)"
    then have "a \<in> area_of p (unat m)" "0 < unat m" by (simp_all add: area_of_def)
    then have "a \<in> area_of p (unat m) \<inter> area_of a (unat n)" using assms(5) by (simp add: area_of_def)
    then show False using pa by simp
  qed
  then have f: "?f x = (if x \<in> area_of a (unat m) then bytes s1 (p + (x - a)) else bytes s1 x)" for x
    by (simp add: memcpy_apply)
  have o: "?f x = bytes s1 x" if "x \<notin> area_of a (unat n)" for x using that sub f by auto
  have "(a, unat n) \<in> used g1 s1" using a(4) by simp
  then have w: "inv g1 (set_bytes ?f s1)" "used g1 (set_bytes ?f s1) = used g1 s1" "bytes (set_bytes ?f s1) = ?f"
    using write_block [OF a(2) _ o] by blast+
  obtain g' s3 where r: "release p m (set_bytes ?f s1) = Inr ((), s3)" "inv g' s3" "used g' s3 = used g1 (set_bytes ?f s1) - {(p, unat m)}"
      "kept (used g' s3) ?f (bytes s3)"
    using release_block [OF w(1) _ assms(3), of p] assms(2) w(2,3) a(4) by auto
  have "(a, unat n) \<noteq> (p, unat m)"
  proof
    assume "(a, unat n) = (p, unat m)"
    then have "area_of a (unat n) = {}" using pa by simp
    moreover have "0 < unat n"
      using assms(4) by (metis ceil_to_power_of_two_eq Inl_Inr_False unat_gt_0)
    ultimately show False using area_of_first by blast
  qed
  then have u: "used g' s3 = insert (a, unat n) (used g s - {(p, unat m)})" using r(3) w(2) a(4) by auto
  have copy: "bytes s3 x = bytes s (p + (x - a))" if x: "x \<in> area_of a (unat m)" for x
  proof -
    have "bytes s3 x = ?f x" using keptD [OF r(4), of a "unat n" x] u x sub by auto
    also have "\<dots> = bytes s1 (p + (x - a))" using f x by simp
    also have "\<dots> = bytes s (p + (x - a))"
      using keptD [OF a(6) assms(2), of "p + (x - a)"] x by (simp add: area_of_def)
    finally show ?thesis .
  qed
  have "kept (used g s) (bytes s1) ?f" unfolding kept_def f using a(5) sub by auto
  then have "kept (used g s) (bytes s) ?f" by (rule kept_trans [OF a(6)]) simp_all
  then have "kept (used g s - {(p, unat m)}) (bytes s) (bytes s3)" by (rule kept_trans [OF _ r(4)]) (auto simp: u)
  then show ?thesis using a(1,3,5) r(1,2) u copy by blast
qed

end

end
