(* ===== verification/Buddy_Client.thy ===== *)
theory Buddy_Client imports Buddy_Spec Block_Contract begin

text \<open>
  The buddy allocator keeps the contract of \<open>Block_Contract\<close>, as long as the allocations asked for leave no stale link.
\<close>

definition used_blocks :: "nat \<Rightarrow> nat \<Rightarrow> btree \<Rightarrow> heap \<Rightarrow> (addr \<times> nat) set" where
  "used_blocks K M st h = (\<lambda>p. (blk K h p, weight K p)) ` {p \<in> nodes M. st p = Used}"

definition blocks_inv :: "nat \<Rightarrow> nat \<Rightarrow> btree \<Rightarrow> heap \<Rightarrow> bool" where
  "blocks_inv K M st h \<longleftrightarrow> heap_ok K M st h \<and> links_ok M h \<and> st (0, 0) \<noteq> Used"

definition blocks_room :: "nat \<Rightarrow> nat \<Rightarrow> btree \<Rightarrow> u64 \<Rightarrow> bool" where
  "blocks_room K M st n \<longleftrightarrow> (\<exists>l k. 0 < l \<and> l \<le> M \<and> n = 2 ^ (K - l) \<and> source_level st l k \<and> links_kept st l k)"

lemma area_of_iff:
  assumes "unat a + n \<le> 18446744073709551616"
  shows "x \<in> area_of a n \<longleftrightarrow> unat a \<le> unat x \<and> unat x < unat a + n"
proof
  assume "x \<in> area_of a n"
  then have y: "unat (x - a) < n" by (simp add: area_of_def)
  then have "unat a + unat (x - a) < 18446744073709551616" using assms by linarith
  then have "unat (a + (x - a)) = unat a + unat (x - a)" by (rule unat_add_u64)
  then show "unat a \<le> unat x \<and> unat x < unat a + n" using y by simp
next
  assume x: "unat a \<le> unat x \<and> unat x < unat a + n"
  then have "unat (x - a) = unat x - unat a" by (intro unat_sub_u64) (simp add: word_le_nat_alt)
  then have "unat (x - a) < n" using x by linarith
  then show "x \<in> area_of a n" by (simp add: area_of_def)
qed

lemma block_area:
  assumes "geometry K M h" "p \<in> nodes M"
  shows "area_of (blk K h p) (weight K p) = block_bytes K h p"
proof -
  obtain l i where p: "p = (l, i)" "l \<le> M" "i < 2 ^ l" using assms(2) by (cases p) auto
  have u: "unat (blk K h p) = unat (al_memory h) + i * weight K p" using unat_blk(1) [OF assms(1) p(2,3)] p(1) by simp
  have "l \<le> K" using p(2) geometryD(2) [OF assms(1)] by linarith
  then have "i * weight K p + weight K p \<le> 2 ^ K" using offset_bound [OF p(3)] p(1) by simp
  then have "unat (blk K h p) + weight K p \<le> 18446744073709551616" using geometryD(9) [OF assms(1)] u by linarith
  then show ?thesis using u p(1) by (auto simp: area_of_iff block_bytes_def)
qed

lemma used_inj:
  assumes "geometry K M h" "tree_ok M st" "p \<in> nodes M" "st p = Used" "q \<in> nodes M" "st q = Used" "blk K h p = blk K h q"
  shows "p = q"
proof (rule ccontr)
  assume "p \<noteq> q"
  moreover have "M \<le> K" using geometryD(2) [OF assms(1)] by simp
  ultimately have "block_bytes K h p \<inter> block_bytes K h q = {}"
    using leaves_disjoint [OF assms(2) _ assms(3) _ assms(5)] assms(4,6) by (simp add: leaf_def)
  then have "area_of (blk K h p) (weight K p) \<inter> area_of (blk K h q) (weight K q) = {}"
    using block_area [OF assms(1)] assms(3,5) by simp
  moreover have "blk K h q \<in> area_of (blk K h q) (weight K q)" "blk K h q \<in> area_of (blk K h q) (weight K p)"
    by (simp_all add: area_of_first)
  ultimately show False using assms(7) by auto
qed

lemma kept_contents:
  assumes "geometry K M h" "contents_kept K M st h h'"
  shows "kept (used_blocks K M st h) (hp_mem h) (hp_mem h')"
  unfolding kept_def
proof (intro allI impI)
  fix b n x assume u: "(b, n) \<in> used_blocks K M st h" "x \<in> area_of b n"
  then obtain p where p: "p \<in> nodes M" "st p = Used" "b = blk K h p" "n = weight K p" by (auto simp: used_blocks_def)
  then have "x \<in> block_bytes K h p" using u(2) block_area [OF assms(1)] by simp
  then have "x \<in> used_area K M st h" using p(1,2) unfolding used_area_def by blast
  then show "hp_mem h' x = hp_mem h x" using assms(2) unfolding contents_kept_def by blast
qed

lemma used_blocks_memory: "al_memory h' = al_memory h \<Longrightarrow> used_blocks K M st h' = used_blocks K M st h"
  by (simp add: used_blocks_def blk_def)

lemma blocks_alloc:
  assumes "blocks_inv K M st h" "ceil_to_power_of_two sz = Inr n" "blocks_room K M st n"
  shows "\<exists>a st' h'. allocator_allocate sz h = Inr (a, h') \<and> blocks_inv K M st' h' \<and> a \<noteq> 0 \<and>
    used_blocks K M st' h' = insert (a, unat n) (used_blocks K M st h) \<and>
    (\<forall>b m. (b, m) \<in> used_blocks K M st h \<longrightarrow> area_of b m \<inter> area_of a (unat n) = {}) \<and>
    kept (used_blocks K M st h) (hp_mem h) (hp_mem h')"
proof -
  obtain l k where lk: "0 < l" "l \<le> M" "n = 2 ^ (K - l)" "source_level st l k" "links_kept st l k"
    using assms(3) by (auto simp: blocks_room_def)
  have ok: "heap_ok K M st h" "links_ok M h" "st (0, 0) \<noteq> Used" using assms(1) by (simp_all add: blocks_inv_def)
  obtain L where g: "geometry K M h" using ok(1) by (rule heap_okD)
  obtain i h' where a: "allocator_allocate sz h = Inr (blk K h (l, alloc_index l k i), h')" "alloc_index l k i < 2 ^ l"
      "heap_ok K M (alloc_tree st l k i) h'" "\<And>q. alloc_tree st l k i q = Used \<longleftrightarrow> st q = Used \<or> q = (l, alloc_index l k i)"
      "block_bytes K h (l, alloc_index l k i) \<inter> used_area K M st h = {}" "contents_kept K M st h h'" "al_memory h' = al_memory h"
      "links_ok M h'"
    using allocate_ok [OF ok(1) assms(2) [unfolded lk(3)] lk(2,4)] ok(2) lk(5) by blast
  let ?p = "(l, alloc_index l k i)"
  have p: "?p \<in> nodes M" using a(2) lk(2) by simp
  have n: "unat n = weight K ?p" using geometryD(3) [OF g] by (simp add: lk(3) weight_def unat_power_u64)
  have "used_blocks K M (alloc_tree st l k i) h' = insert (blk K h ?p, unat n) (used_blocks K M st h)"
    using p unfolding used_blocks_memory [OF a(7)] unfolding n used_blocks_def a(4) by auto
  moreover have "blocks_inv K M (alloc_tree st l k i) h'" using a(3,4,8) ok(3) lk(1) by (simp add: blocks_inv_def)
  moreover have "area_of b m \<inter> area_of (blk K h ?p) (unat n) = {}" if "(b, m) \<in> used_blocks K M st h" for b m
  proof -
    obtain q where q: "q \<in> nodes M" "st q = Used" "b = blk K h q" "m = weight K q" using \<open>(b, m) \<in> used_blocks K M st h\<close> by (auto simp: used_blocks_def)
    then have "area_of b m \<subseteq> used_area K M st h" using block_area [OF g q(1)] unfolding used_area_def by blast
    then show ?thesis using a(5) block_area [OF g p] n by auto
  qed
  ultimately show ?thesis
    using a(1) kept_contents [OF g a(6)] blk_node [OF g lk(2) a(2)] node_nonzero by blast
qed

lemma blocks_release:
  assumes "blocks_inv K M st h" "(a, unat n) \<in> used_blocks K M st h" "ceil_to_power_of_two n = Inr n"
  shows "\<exists>st' h'. allocator_deallocate_fast a n h = Inr ((), h') \<and> blocks_inv K M st' h' \<and>
    used_blocks K M st' h' = used_blocks K M st h - {(a, unat n)} \<and> kept (used_blocks K M st' h') (hp_mem h) (hp_mem h')"
proof -
  have ok: "heap_ok K M st h" "links_ok M h" "st (0, 0) \<noteq> Used" using assms(1) by (simp_all add: blocks_inv_def)
  obtain L where v: "geometry K M h" "tree_ok M st" using ok(1) by (rule heap_okD)
  obtain l i where p: "a = blk K h (l, i)" "unat n = weight K (l, i)" "l \<le> M" "i < 2 ^ l" "st (l, i) = Used"
    using assms(2) by (auto simp: used_blocks_def)
  have l: "0 < l" using p(4,5) ok(3) by (cases l) auto
  have "unat n = unat (2 ^ (K - l) :: u64)" using geometryD(3) [OF v(1)] p(2) by (simp add: weight_def unat_power_u64)
  then have n: "n = 2 ^ (K - l)" by (simp only: word_unat_eq_iff)
  obtain h' where h': "allocator_deallocate_level (blk K h (l, i)) (int l) h = Inr ((), h')" "heap_ok K M (free_tree st l i) h'"
      "links_ok M h'" "\<And>q. free_tree st l i q = Used \<longleftrightarrow> st q = Used \<and> q \<noteq> (l, i)" "contents_kept K M (free_tree st l i) h h'"
      "al_memory h' = al_memory h"
    using deallocate_level_ok [OF ok(1,2) l p(3-5)] by blast
  have "used_blocks K M (free_tree st l i) h = used_blocks K M st h - {(a, unat n)}"
    using used_inj [OF v] p unfolding used_blocks_def h'(4) by auto
  then have "used_blocks K M (free_tree st l i) h' = used_blocks K M st h - {(a, unat n)}"
    by (simp only: used_blocks_memory [OF h'(6)])
  moreover have "kept (used_blocks K M (free_tree st l i) h') (hp_mem h) (hp_mem h')"
    using kept_contents [OF v(1) h'(5)] by (simp only: used_blocks_memory [OF h'(6)])
  moreover have "blocks_inv K M (free_tree st l i) h'" using h'(2,3,4) ok(3) by (simp add: blocks_inv_def)
  moreover have "allocator_deallocate_fast a n h = Inr ((), h')"
    using deallocate_fast_eq [OF ok(1) p(3) assms(3) [unfolded n]] h'(1) assms(3) n p(1) by simp
  ultimately show ?thesis by blast
qed

lemma blocks_size:
  assumes "blocks_inv K M st h" "(a, m) \<in> used_blocks K M st h"
  shows "\<exists>n. allocator_allocation_size a h = Inr (n, h) \<and> unat n = m"
proof -
  have ok: "heap_ok K M st h" using assms(1) by (simp add: blocks_inv_def)
  obtain L where g: "geometry K M h" using ok by (rule heap_okD)
  obtain l i where p: "a = blk K h (l, i)" "m = weight K (l, i)" "l \<le> M" "i < 2 ^ l" "st (l, i) = Used"
    using assms(2) by (auto simp: used_blocks_def)
  show ?thesis using allocation_size_run [OF ok p(3-5)] p(1,2) geometryD(3) [OF g] by (simp add: weight_def unat_power_u64)
qed

text \<open>A client may write into its blocks.\<close>

lemma blocks_write:
  assumes "blocks_inv K M st h" "(a, m) \<in> used_blocks K M st h" "\<And>x. x \<notin> area_of a m \<Longrightarrow> f x = hp_mem h x"
  shows "blocks_inv K M st (h\<lparr>hp_mem := f\<rparr>) \<and> used_blocks K M st (h\<lparr>hp_mem := f\<rparr>) = used_blocks K M st h \<and> hp_mem (h\<lparr>hp_mem := f\<rparr>) = f"
proof -
  let ?h = "h\<lparr>hp_mem := f\<rparr>"
  have ok: "heap_ok K M st h" "links_ok M h" "st (0, 0) \<noteq> Used" using assms(1) by (simp_all add: blocks_inv_def)
  obtain L where v: "buddy_inv K M st {} L h" "unat (al_free_size h) = space K M st Free" "space K M st Free + space K M st Used = 2 ^ K"
    using ok(1) by (rule heap_okD)
  note d = buddy_invD [OF v(1)]
  obtain p where p: "p \<in> nodes M" "st p = Used" "a = blk K h p" "m = weight K p" using assms(2) by (auto simp: used_blocks_def)
  have S: "area_of a m \<subseteq> used_area K M st h" unfolding p(3,4) block_area [OF d(1) p(1)] used_area_def using p(1,2) by blast
  have step: "heap_step (area_of a m) h ?h" using assms(3) by (simp add: heap_step_def fixed_fields_def same_outside_def)
  have ff: "fixed_fields ?h = fixed_fields h" by (simp add: fixed_fields_def)
  have pool: "area_of a m \<subseteq> pool K h" using S used_area_pool [OF d(1), of st] by blast
  have o: "area_of a m \<inter> node_bytes b = {}" if "l \<le> M" "b \<in> set (L l)" for l b
    using free_list_node(2) [OF d(1,4) that] used_free_disjoint [OF d(1,2)] S by blast
  have so: "same_outside (area_of a m) (hp_mem h) (hp_mem ?h)" using step by (simp add: heap_step_def)
  note l = lists_ok_outside [OF d(5), of ?h, OF _ _ so o]
  have "lists_ok M L ?h" by (rule l(1)) simp_all
  then have "free_lists K M st {} L ?h" using d(4) by (simp add: free_lists_def area_fields(5) [OF ff])
  then have v': "buddy_inv K M st {} L ?h"
    using d(2) geometry_step [OF d(1) ff] bits_ok_pool [OF d(1) step pool d(3)] by (simp add: buddy_inv_def)
  have "links_ok M ?h"
    using l(2) ok(2) links_ok_heads [OF d(5)] links_ok_heads [OF buddy_invD(5) [OF v']] by simp
  moreover have "heap_ok K M st ?h" using v' v(2,3) by (auto simp: heap_ok_def)
  ultimately show ?thesis using ok(3) used_blocks_memory [of ?h h] by (simp add: blocks_inv_def)
qed

interpretation blocks: block_allocator allocator_allocate allocator_deallocate_fast allocator_allocation_size hp_mem
    "\<lambda>f. hp_mem_update (\<lambda>_. f)" "blocks_inv K M" "used_blocks K M" "blocks_room K M" for K M
  by unfold_locales (rule blocks_alloc blocks_release blocks_size blocks_write; assumption | blast)+

end
