(* ===== verification/Machine.thy ===== *)
theory Machine imports Memory_Map begin

text \<open>
  The physical machine under the virtual memory code: physical memory in 8-byte cells, the register
  \<open>cr3\<close>, and the four-level page walk of amd64 that turns a virtual address into a physical one. All
  accesses of \<open>mm/frame.c\<close> and \<open>mm/pages.c\<close> go through this walk, those to the page tables
  themselves included, since the kernel reaches them through the self entry of the top-level table.
  The walk always reads the current tables: translations are not cached, so \<open>invlpg\<close> and the reload of
  \<open>cr3\<close> change nothing.
\<close>

section \<open>Page table entries (include/mm/pages.h)\<close>

definition PG_PRESENT :: u64 where "PG_PRESENT = 1"
definition PG_RW :: u64 where "PG_RW = 2"
definition PG_USER :: u64 where "PG_USER = 4"
definition PG_HUGE :: u64 where "PG_HUGE = 128"
definition PG_GLOBAL :: u64 where "PG_GLOBAL = 256"
definition PG_NX :: u64 where "PG_NX = 0x8000000000000000"
definition PG_LAZY :: u64 where "PG_LAZY = 512"
definition PHYS_ADDR_MASK :: u64 where "PHYS_ADDR_MASK = 0xFFFFFFFFFF000"
definition PG_SELF :: u64 where "PG_SELF = 510"

section \<open>The kernel state of the memory managers\<close>

text \<open>
  The frame allocator of \<open>mm/frame.c\<close> (its \<open>struct allocator\<close>); \<open>fa_current\<close>, \<open>fa_current_address\<close> and
  \<open>fa_current_pte\<close> are virtual addresses.
\<close>

record frame_allocator =
  fa_begin :: u64
  fa_end :: u64
  fa_size :: u64
  fa_capacity :: u64
  fa_free :: u64
  fa_current :: addr
  fa_count :: int
  fa_map_position :: nat
  fa_current_address :: addr
  fa_current_pte :: addr

record kernel =
  phys :: "u64 \<Rightarrow> u64"
  cr3 :: u64
  k_mem_map :: memory_map
  k_fa :: frame_allocator
  k_zero_page :: u64
  k_kernel_end :: u64

section \<open>Address translation\<close>

text \<open>The index of a virtual address into the table of a level, 4 at the top and 1 at the leaves.\<close>

definition pt_index :: "nat \<Rightarrow> addr \<Rightarrow> u64" where
  "pt_index l va = drop_bit (12 + 9 * (l - 1)) va AND 511"

text \<open>
  The walk from a table of level \<open>l\<close>: the physical address and whether every entry on the way allows
  writes. An entry of level 2 or 3 with \<open>PG_HUGE\<close> maps 2 MiB or 1 GiB at once.
\<close>

fun walk :: "(u64 \<Rightarrow> u64) \<Rightarrow> nat \<Rightarrow> u64 \<Rightarrow> addr \<Rightarrow> (u64 \<times> bool) option" where
  "walk mem 0 table va = None"
| "walk mem (Suc l) table va =
     (let e = mem (table + 8 * pt_index (Suc l) va) in
      if e AND PG_PRESENT = 0 then None
      else if l = 0 then Some ((e AND PHYS_ADDR_MASK) + (va AND 0xFFF), e AND PG_RW \<noteq> 0)
      else if e AND PG_HUGE \<noteq> 0 \<and> l < 3
      then Some ((e AND PHYS_ADDR_MASK AND NOT (mask (12 + 9 * l))) + (va AND mask (12 + 9 * l)), e AND PG_RW \<noteq> 0)
      else map_option (\<lambda>(pa, rw). (pa, rw \<and> e AND PG_RW \<noteq> 0)) (walk mem l (e AND PHYS_ADDR_MASK) va))"

definition translate :: "kernel \<Rightarrow> addr \<Rightarrow> (u64 \<times> bool) option" where
  "translate s va = walk (phys s) 4 (cr3 s) va"

text \<open>
  Accesses to an aligned 8-byte cell through a virtual address. A write to a page that is mapped
  read-only faults also in the kernel, since the boot code sets the write-protect bit of \<open>cr0\<close>.
\<close>

definition vload :: "addr \<Rightarrow> (kernel, u64) kproc" where
  "vload va = (\<lambda>s. case translate s va of
     None \<Rightarrow> Inl (Page_Fault va) | Some (pa, rw) \<Rightarrow> Inr (phys s pa, s))"

definition vstore :: "addr \<Rightarrow> u64 \<Rightarrow> (kernel, unit) kproc" where
  "vstore va v = (\<lambda>s. case translate s va of
     None \<Rightarrow> Inl (Page_Fault va)
   | Some (pa, rw) \<Rightarrow> if rw then Inr ((), s\<lparr>phys := (phys s)(pa := v)\<rparr>) else Inl (Page_Fault va))"

text \<open>The cells of the 4 KiB frame at physical address \<open>f\<close>.\<close>

definition in_frame :: "u64 \<Rightarrow> u64 \<Rightarrow> bool" where
  "in_frame f pa \<longleftrightarrow> pa AND NOT 0xFFF = f"

text \<open>\<open>memset(va, 0, 4096)\<close> on a page-aligned virtual address: it clears the frame behind the page.\<close>

definition vzero_page :: "addr \<Rightarrow> (kernel, unit) kproc" where
  "vzero_page va = (\<lambda>s. case translate s va of
     None \<Rightarrow> Inl (Page_Fault va)
   | Some (pa, rw) \<Rightarrow>
       if rw then Inr ((), s\<lparr>phys := (\<lambda>a. if in_frame (pa AND NOT 0xFFF) a then 0 else phys s a)\<rparr>)
       else Inl (Page_Fault va))"

end
