(* ===== verification/Page_Tables.thy ===== *)
theory Page_Tables imports Machine begin

text \<open>
  The address arithmetic of \<open>mm/pages.c\<close>: \<open>ptes\<close> computes, for a virtual address, the four virtual
  addresses at which its page table entries can be read and written. They work because entry 510 of the
  top-level table points to that table itself. The main lemma here, \<open>translate_pte_ptr\<close>, shows that the
  page walk takes each of these addresses to the physical cell of the entry.
\<close>

section \<open>The four entries of an address\<close>

text \<open>
  \<open>table_at\<close> is the physical address of the table that the walk for \<open>va\<close> reaches after \<open>k\<close> steps,
  \<open>entry_cell\<close> that of the entry it reads there: entry 0 in the top-level table, entry 3 the leaf.
\<close>

fun table_at :: "(u64 \<Rightarrow> u64) \<Rightarrow> u64 \<Rightarrow> nat \<Rightarrow> addr \<Rightarrow> u64" where
  "table_at mem c 0 va = c"
| "table_at mem c (Suc k) va = mem (table_at mem c k va + 8 * pt_index (4 - k) va) AND PHYS_ADDR_MASK"

definition entry_cell :: "(u64 \<Rightarrow> u64) \<Rightarrow> u64 \<Rightarrow> nat \<Rightarrow> addr \<Rightarrow> u64" where
  "entry_cell mem c k va = table_at mem c k va + 8 * pt_index (4 - k) va"

definition entry_at :: "kernel \<Rightarrow> nat \<Rightarrow> addr \<Rightarrow> u64" where
  "entry_at s k va = phys s (entry_cell (phys s) (cr3 s) k va)"

lemma table_at_Suc: "table_at mem c (Suc k) va = mem (entry_cell mem c k va) AND PHYS_ADDR_MASK"
  by (simp add: entry_cell_def)

section \<open>ptes\<close>

definition L4PTE_MASK :: u64 where "L4PTE_MASK = push_bit 39 0x1FF"

text \<open>The body of the first loop of \<open>ptes\<close>.\<close>

definition pte_step :: "addr \<Rightarrow> addr" where
  "pte_step address =
     (let address = drop_bit 9 address; address = address AND NOT (L4PTE_MASK OR 7)
      in address OR (0xFFFF000000000000 OR push_bit 39 PG_SELF))"

record pt_entries =
  entries :: "addr list"
  present_mask :: u32

text \<open>The loop fills \<open>entries\<close> from index 3 downwards.\<close>

definition pte_ptrs :: "addr \<Rightarrow> addr list" where
  "pte_ptrs address =
     (let e3 = pte_step address; e2 = pte_step e3; e1 = pte_step e2; e0 = pte_step e1 in [e0, e1, e2, e3])"

fun scan_present :: "addr list \<Rightarrow> nat \<Rightarrow> u32 \<Rightarrow> (kernel, u32) kproc" where
  "scan_present [] i msk = returnS msk"
| "scan_present (p # ps) i msk =
     bindS (vload p) (\<lambda>e.
       if e AND PG_PRESENT \<noteq> 0 then scan_present ps (i + 1) (msk OR push_bit i 1) else returnS msk)"

definition ptes :: "addr \<Rightarrow> (kernel, pt_entries) kproc" where
  "ptes address =
     (let ps = pte_ptrs address in
      bindS (scan_present ps 0 0) (\<lambda>msk. returnS \<lparr>entries = ps, present_mask = msk\<rparr>))"

section \<open>Index arithmetic\<close>

lemma pte_step_masks:
  "pte_step a = (drop_bit 9 a AND NOT (push_bit 39 (mask 9) OR mask 3)) OR (push_bit 48 (mask 16) OR push_bit 39 510)"
  by (simp add: pte_step_def L4PTE_MASK_def PG_SELF_def mask_eq_exp_minus_1)

lemma bit_510: "bit (510 :: u64) n \<Longrightarrow> n < 9"
proof -
  have "(510 :: u64) AND mask 9 = 510" by (simp add: mask_eq_exp_minus_1)
  then show "bit (510 :: u64) n \<Longrightarrow> n < 9" by (metis bit_and_iff bit_mask_iff)
qed

lemma pt_index_alt: "pt_index l va = take_bit 9 (drop_bit (12 + 9 * (l - 1)) va)"
  by (simp add: pt_index_def take_bit_eq_mask mask_eq_exp_minus_1)

lemma pt_index_pte_step:
  "pt_index 4 (pte_step a) = 510" "pt_index 3 (pte_step a) = pt_index 4 a"
  "pt_index 2 (pte_step a) = pt_index 3 a" "pt_index (Suc 0) (pte_step a) = pt_index 2 a"
  unfolding pt_index_alt pte_step_masks
  by (rule bit_word_eqI, auto simp: bit_simps dest: bit_510)+

lemma page_offset_pte_step: "pte_step a AND 0xFFF = 8 * pt_index (Suc 0) a"
proof -
  have 1: "pte_step a AND 0xFFF = take_bit 12 (pte_step a)" by (simp add: take_bit_eq_mask mask_eq_exp_minus_1)
  have 2: "8 * pt_index (Suc 0) a = push_bit 3 (pt_index (Suc 0) a)" by (simp add: push_bit_eq_mult)
  show ?thesis
    unfolding 1 2 unfolding pt_index_alt pte_step_masks
    by (rule bit_word_eqI) (auto simp: bit_simps dest: bit_510)
qed

section \<open>The walk through the self entry\<close>

definition pte_ptr :: "nat \<Rightarrow> addr \<Rightarrow> addr" where
  "pte_ptr k va = (pte_step ^^ (4 - k)) va"

lemma pte_ptr_simps:
  "pte_ptr 0 va = pte_step (pte_step (pte_step (pte_step va)))"
  "pte_ptr (Suc 0) va = pte_step (pte_step (pte_step va))"
  "pte_ptr 2 va = pte_step (pte_step va)" "pte_ptr 3 va = pte_step va"
  by (simp_all add: pte_ptr_def numeral_eq_Suc)

lemma pte_ptrs_eq: "pte_ptrs va = map (\<lambda>k. pte_ptr k va) [0..<4]"
proof -
  have "[0..<4] = [0, Suc 0, 2, 3]" by (simp add: upt_rec)
  then show ?thesis by (simp add: pte_ptrs_def pte_ptr_simps Let_def)
qed

text \<open>
  An entry that points to a writable table, and the entry that points to its own table, as the boot code
  sets it up.
\<close>

definition table_entry :: "u64 \<Rightarrow> bool" where
  "table_entry e \<longleftrightarrow> e AND PG_PRESENT \<noteq> 0 \<and> e AND PG_RW \<noteq> 0 \<and> e AND PG_HUGE = 0"

definition self_mapped :: "kernel \<Rightarrow> bool" where
  "self_mapped s \<longleftrightarrow> table_entry (phys s (cr3 s + 8 * 510)) \<and>
     phys s (cr3 s + 8 * 510) AND PHYS_ADDR_MASK = cr3 s"

text \<open>The first \<open>k\<close> entries for \<open>va\<close> point to writable tables.\<close>

definition tables_ok :: "kernel \<Rightarrow> nat \<Rightarrow> addr \<Rightarrow> bool" where
  "tables_ok s k va \<longleftrightarrow> (\<forall>j < k. table_entry (entry_at s j va))"

lemma walk_table:
  assumes "table_entry (mem (table + 8 * pt_index (Suc l) va))" "l \<noteq> 0"
  shows "walk mem (Suc l) table va = walk mem l (mem (table + 8 * pt_index (Suc l) va) AND PHYS_ADDR_MASK) va"
  using assms by (auto simp: table_entry_def Let_def map_option.id [unfolded id_def] case_prod_unfold)

lemma walk_leaf:
  assumes "mem (table + 8 * pt_index (Suc 0) va) AND PG_PRESENT \<noteq> 0"
  shows "walk mem (Suc 0) table va
    = Some ((mem (table + 8 * pt_index (Suc 0) va) AND PHYS_ADDR_MASK) + (va AND 0xFFF),
        mem (table + 8 * pt_index (Suc 0) va) AND PG_RW \<noteq> 0)"
  using assms by (simp add: Let_def)

lemma walk_tables:
  "table_entry (mem (table + 8 * pt_index 4 va)) \<Longrightarrow>
    walk mem 4 table va = walk mem 3 (mem (table + 8 * pt_index 4 va) AND PHYS_ADDR_MASK) va"
  "table_entry (mem (table + 8 * pt_index 3 va)) \<Longrightarrow>
    walk mem 3 table va = walk mem 2 (mem (table + 8 * pt_index 3 va) AND PHYS_ADDR_MASK) va"
  "table_entry (mem (table + 8 * pt_index 2 va)) \<Longrightarrow>
    walk mem 2 table va = walk mem (Suc 0) (mem (table + 8 * pt_index 2 va) AND PHYS_ADDR_MASK) va"
  using walk_table [of mem table 3 va] walk_table [of mem table 2 va] walk_table [of mem table 1 va]
  by (simp_all add: eval_nat_numeral)

lemma entry_cell_simps:
  "entry_cell mem c 0 va = c + 8 * pt_index 4 va"
  "entry_cell mem c (Suc 0) va = (mem (entry_cell mem c 0 va) AND PHYS_ADDR_MASK) + 8 * pt_index 3 va"
  "entry_cell mem c 2 va = (mem (entry_cell mem c (Suc 0) va) AND PHYS_ADDR_MASK) + 8 * pt_index 2 va"
  "entry_cell mem c 3 va = (mem (entry_cell mem c 2 va) AND PHYS_ADDR_MASK) + 8 * pt_index (Suc 0) va"
  by (simp_all add: entry_cell_def numeral_2_eq_2 numeral_3_eq_3)

declare walk.simps(2) [simp del]

text \<open>The walk for \<open>va\<close> itself, once its tables exist.\<close>

lemma translate_page:
  assumes "tables_ok s 3 va" "entry_at s 3 va AND PG_PRESENT \<noteq> 0"
  shows "translate s va = Some ((entry_at s 3 va AND PHYS_ADDR_MASK) + (va AND 0xFFF), entry_at s 3 va AND PG_RW \<noteq> 0)"
proof -
  have tab: "table_entry (entry_at s 0 va)" "table_entry (entry_at s 1 va)" "table_entry (entry_at s 2 va)"
    using assms(1) by (auto simp: tables_ok_def)
  show ?thesis
    using tab assms(2) by (simp add: translate_def walk_tables walk_leaf entry_at_def entry_cell_simps)
qed

lemma translate_pte_ptr:
  assumes "self_mapped s" "tables_ok s k va" "k \<le> 3"
  shows "translate s (pte_ptr k va) = Some (entry_cell (phys s) (cr3 s) k va, True)"
proof -
  have self: "table_entry (phys s (cr3 s + 4080))" "phys s (cr3 s + 4080) AND PHYS_ADDR_MASK = cr3 s"
    using assms(1) by (auto simp: self_mapped_def)
  have tab: "table_entry (entry_at s j va)" if "j < k" for j
    using assms(2) that by (simp add: tables_ok_def)
  note simps = translate_def walk_tables walk_leaf pte_ptr_simps pt_index_pte_step page_offset_pte_step
    entry_cell_simps entry_at_def
  have leaf: "e AND PG_PRESENT \<noteq> 0" "e AND PG_RW \<noteq> 0" if "table_entry e" for e
    using that by (simp_all add: table_entry_def)
  consider "k = 0" | "k = 1" | "k = 2" | "k = 3" using assms(3) by linarith
  then show ?thesis
  proof cases
    case 1
    then show ?thesis using self by (simp add: simps leaf)
  next
    case 2
    then show ?thesis using self tab [of 0] by (simp add: simps leaf)
  next
    case 3
    then show ?thesis using self tab [of 0] tab [of 1] by (simp add: simps leaf)
  next
    case 4
    then show ?thesis using self tab [of 0] tab [of 1] tab [of 2] by (simp add: simps leaf)
  qed
qed

lemma vload_pte_ptr:
  "self_mapped s \<Longrightarrow> tables_ok s k va \<Longrightarrow> k \<le> 3 \<Longrightarrow> vload (pte_ptr k va) s = Inr (entry_at s k va, s)"
  by (simp add: vload_def translate_pte_ptr entry_at_def)

lemma vstore_pte_ptr:
  "self_mapped s \<Longrightarrow> tables_ok s k va \<Longrightarrow> k \<le> 3 \<Longrightarrow>
    vstore (pte_ptr k va) v s = Inr ((), s\<lparr>phys := (phys s)(entry_cell (phys s) (cr3 s) k va := v)\<rparr>)"
  by (simp add: vstore_def translate_pte_ptr)

section \<open>What the walk reads of an entry\<close>

text \<open>
  The walk looks only at the low 52 bits of an entry. The kernel counts the used entries of a table in bits
  52 to 61 of the entry that points to it, so two entries that differ in the count alone are the same.
\<close>

definition same_entry :: "u64 \<Rightarrow> u64 \<Rightarrow> bool" where
  "same_entry e e' \<longleftrightarrow> take_bit 52 e = take_bit 52 e'"

lemma same_entry_refl [simp]: "same_entry e e"
  by (simp add: same_entry_def)

lemma same_entry_sym: "same_entry e e' \<Longrightarrow> same_entry e' e"
  by (simp add: same_entry_def)

lemma same_entry_trans: "same_entry e e' \<Longrightarrow> same_entry e' e'' \<Longrightarrow> same_entry e e''"
  by (simp add: same_entry_def)

lemma same_entry_and:
  assumes "same_entry e e'" "take_bit 52 m = m"
  shows "e AND m = e' AND m"
proof (rule bit_word_eqI)
  fix n
  have "bit e n = bit e' n" if "n < 52"
    using arg_cong [OF assms(1) [unfolded same_entry_def], of "\<lambda>w. bit w n"] that by (simp add: bit_simps)
  moreover have "\<not> bit m n" if "\<not> n < 52"
    using arg_cong [OF assms(2), of "\<lambda>w. bit w n"] that by (simp add: bit_simps)
  ultimately show "bit (e AND m) n = bit (e' AND m) n" by (cases "n < 52") (auto simp: bit_simps)
qed

lemma same_entry_flags:
  assumes "same_entry e e'"
  shows "e AND PHYS_ADDR_MASK = e' AND PHYS_ADDR_MASK" "e AND PG_PRESENT = e' AND PG_PRESENT"
    "e AND PG_RW = e' AND PG_RW" "e AND PG_HUGE = e' AND PG_HUGE" "table_entry e = table_entry e'"
proof -
  have m: "take_bit 52 PHYS_ADDR_MASK = PHYS_ADDR_MASK" "take_bit 52 PG_PRESENT = PG_PRESENT"
      "take_bit 52 PG_RW = PG_RW" "take_bit 52 PG_HUGE = PG_HUGE"
    by (simp_all add: take_bit_eq_mask mask_eq_exp_minus_1 PHYS_ADDR_MASK_def PG_PRESENT_def PG_RW_def PG_HUGE_def)
  note conj = same_entry_and [OF assms]
  show "e AND PHYS_ADDR_MASK = e' AND PHYS_ADDR_MASK" "e AND PG_PRESENT = e' AND PG_PRESENT"
    "e AND PG_RW = e' AND PG_RW" "e AND PG_HUGE = e' AND PG_HUGE" "table_entry e = table_entry e'"
    by (simp_all add: conj [OF m(1)] conj [OF m(2)] conj [OF m(3)] conj [OF m(4)] table_entry_def)
qed

text \<open>The cells the walk for an address reads.\<close>

fun walk_path :: "(u64 \<Rightarrow> u64) \<Rightarrow> nat \<Rightarrow> u64 \<Rightarrow> addr \<Rightarrow> u64 list" where
  "walk_path mem 0 table va = []"
| "walk_path mem (Suc l) table va =
     (let c = table + 8 * pt_index (Suc l) va; e = mem c in
      c # (if e AND PG_PRESENT = 0 \<or> l = 0 \<or> e AND PG_HUGE \<noteq> 0 \<and> l < 3 then []
           else walk_path mem l (e AND PHYS_ADDR_MASK) va))"

definition path_of :: "kernel \<Rightarrow> addr \<Rightarrow> u64 set" where
  "path_of s va = set (walk_path (phys s) 4 (cr3 s) va)"

declare walk_path.simps(2) [simp del]

lemma walk_stable:
  assumes "\<And>p. p \<in> set (walk_path mem l table va) \<Longrightarrow> same_entry (mem' p) (mem p)"
  shows "walk mem' l table va = walk mem l table va \<and> walk_path mem' l table va = walk_path mem l table va"
  using assms
proof (induction l arbitrary: table)
  case 0
  then show ?case by simp
next
  case (Suc l)
  let ?c = "table + 8 * pt_index (Suc l) va"
  have "?c \<in> set (walk_path mem (Suc l) table va)" by (simp add: walk_path.simps(2) Let_def)
  then have same: "same_entry (mem' ?c) (mem ?c)" by (rule Suc.prems)
  note flags = same_entry_flags [OF same]
  have huge: "mem' ?c AND PHYS_ADDR_MASK AND x = mem ?c AND PHYS_ADDR_MASK AND x" for x
    using flags(1) by (simp add: and.assoc [symmetric])
  show ?case
  proof (cases "mem ?c AND PG_PRESENT = 0 \<or> l = 0 \<or> mem ?c AND PG_HUGE \<noteq> 0 \<and> l < 3")
    case True
    then show ?thesis using flags huge by (auto simp: walk.simps(2) walk_path.simps(2) Let_def)
  next
    case False
    then have "\<And>p. p \<in> set (walk_path mem l (mem ?c AND PHYS_ADDR_MASK) va) \<Longrightarrow> same_entry (mem' p) (mem p)"
      using Suc.prems False by (auto simp: walk_path.simps(2) Let_def)
    from Suc.IH [OF this] show ?thesis using False by (auto simp: walk.simps(2) walk_path.simps(2) Let_def flags)
  qed
qed

lemma translate_stable:
  assumes "cr3 s' = cr3 s" "\<And>p. p \<in> path_of s va \<Longrightarrow> same_entry (phys s' p) (phys s p)"
  shows "translate s' va = translate s va" "path_of s' va = path_of s va"
  using walk_stable [of "phys s" 4 "cr3 s" va "phys s'"] assms by (simp_all add: translate_def path_of_def)

text \<open>
  The boot code sets the bit NXE of the register \<open>EFER\<close>: code can be fetched from a mapped address when bit 63 is clear in
  every entry that the walk reads. The count of a table ends right below that bit.
\<close>

definition executable :: "kernel \<Rightarrow> addr \<Rightarrow> bool" where
  "executable s va \<longleftrightarrow> (\<forall>p \<in> path_of s va. phys s p AND PG_NX = 0)"

lemma executable_stable:
  assumes "cr3 s' = cr3 s" "\<And>p. p \<in> path_of s va \<Longrightarrow> same_entry (phys s' p) (phys s p)"
    and "\<And>p. p \<in> path_of s va \<Longrightarrow> phys s' p AND PG_NX = phys s p AND PG_NX"
  shows "executable s' va = executable s va"
  using assms(3) by (simp add: executable_def translate_stable(2) [OF assms(1,2)])

text \<open>On the path of a mapped address every entry is present.\<close>

lemma walk_path_present:
  "walk mem l table va \<noteq> None \<Longrightarrow> p \<in> set (walk_path mem l table va) \<Longrightarrow> mem p AND PG_PRESENT \<noteq> 0"
proof (induction l arbitrary: table)
  case (Suc l)
  then show ?case
    by (cases "mem (table + 8 * pt_index (Suc l) va) AND PG_PRESENT = 0";
        cases "l = 0 \<or> mem (table + 8 * pt_index (Suc l) va) AND PG_HUGE \<noteq> 0 \<and> l < 3")
      (auto simp: walk.simps(2) walk_path.simps(2) Let_def split: if_splits)
qed simp

lemma path_present: "translate s va \<noteq> None \<Longrightarrow> p \<in> path_of s va \<Longrightarrow> phys s p AND PG_PRESENT \<noteq> 0"
  unfolding translate_def path_of_def by (rule walk_path_present)

section \<open>Pages and frames\<close>

text \<open>An offset into a page changes neither the indices of the walk nor the page part of the address.\<close>

lemma low12: "(x :: u64) AND 0xFFF = take_bit 12 x"
  by (simp add: take_bit_eq_mask mask_eq_exp_minus_1)

lemma less_4096_iff: "(off :: u64) < 4096 \<longleftrightarrow> take_bit 12 off = off"
proof -
  have "take_bit 12 off = off mod 4096" by (simp add: take_bit_eq_mod)
  moreover have "off mod 4096 < 4096" by (simp add: word_mod_less_divisor)
  moreover have "off < 4096 \<Longrightarrow> off mod 4096 = off" by (simp add: word_less_nat_alt word_arith_nat_mod)
  ultimately show ?thesis by metis
qed

lemma page_or:
  assumes "(va :: u64) AND 0xFFF = 0" "off < 4096"
  shows "va + off = va OR off"
proof (rule disjunctive_add)
  fix n
  have "\<not> bit va n" if "n < 12"
  proof -
    have "bit (take_bit 12 va) n = bit (0 :: u64) n" using assms(1) by (simp add: low12)
    then show ?thesis using that by (simp add: bit_simps)
  qed
  moreover have "\<not> bit off n" if "\<not> n < 12"
  proof -
    have "bit off n = bit (take_bit 12 off) n" using assms(2) by (simp add: less_4096_iff)
    then show ?thesis using that by (simp add: bit_simps)
  qed
  ultimately show "\<not> bit va n \<or> \<not> bit off n" by blast
qed

lemma page_offset:
  assumes "(va :: u64) AND 0xFFF = 0" "off < 4096"
  shows "(va + off) AND 0xFFF = off" "(va + off) AND NOT 0xFFF = va"
proof -
  have off: "take_bit 12 off = off" using assms(2) by (simp add: less_4096_iff)
  have va: "take_bit 12 va = 0" using assms(1) by (simp add: low12)
  have "(va OR off) AND 0xFFF = take_bit 12 (va OR off)" by (simp only: low12)
  also have "\<dots> = off" by (simp add: take_bit_or off va)
  finally show "(va + off) AND 0xFFF = off" by (simp add: page_or assms)
  have *: "0xFFF = (mask 12 :: u64)" by (simp add: mask_eq_exp_minus_1)
  have bits: "bit va n \<Longrightarrow> \<not> n < 12" "bit off n \<Longrightarrow> n < 12" for n
    using arg_cong [OF va, of "\<lambda>w. bit w n"] arg_cong [OF off, of "\<lambda>w. bit w n"]
    by (auto simp: bit_simps)
  have "(va OR off) AND NOT 0xFFF = va"
    unfolding * by (rule bit_word_eqI) (auto simp: bit_simps dest: bits)
  then show "(va + off) AND NOT 0xFFF = va" by (simp add: page_or assms)
qed

lemma pt_index_page:
  assumes "va AND 0xFFF = 0" "off < 4096"
  shows "pt_index l (va + off) = pt_index l va"
proof -
  have off: "drop_bit 12 off = 0"
    using assms(2) by (simp add: less_4096_iff) (metis drop_bit_take_bit take_bit_0 diff_self_eq_0)
  have "drop_bit (12 + k) (va OR off) = drop_bit (12 + k) va" for k
  proof -
    have "drop_bit (12 + k) (va OR off) = drop_bit k (drop_bit 12 (va OR off))" by (simp add: add.commute)
    also have "\<dots> = drop_bit k (drop_bit 12 va)" by (simp add: drop_bit_or off)
    finally show ?thesis by (simp add: add.commute)
  qed
  then show ?thesis by (simp add: pt_index_def page_or assms)
qed

lemma in_frame_iff:
  assumes "f AND 0xFFF = 0"
  shows "in_frame f p \<longleftrightarrow> (\<exists>off < 4096. p = f + off)"
proof
  assume "in_frame f p"
  then have f: "f = p AND NOT 0xFFF" by (simp add: in_frame_def)
  have "(p AND NOT 0xFFF) + (p AND 0xFFF) = p"
    by (subst disjunctive_add) (auto simp: bit_simps intro: bit_word_eqI)
  moreover have "p AND 0xFFF < 4096" by (simp add: low12 less_4096_iff)
  ultimately show "\<exists>off < 4096. p = f + off" unfolding f by metis
next
  show "\<exists>off < 4096. p = f + off \<Longrightarrow> in_frame f p"
    unfolding in_frame_def using page_offset(2) [OF assms] by blast
qed

lemma in_frame_add: "f AND 0xFFF = 0 \<Longrightarrow> off < 4096 \<Longrightarrow> in_frame f (f + off)"
  using in_frame_iff by blast

lemma in_frame_unique: "in_frame f p \<Longrightarrow> in_frame g p \<Longrightarrow> f = g"
  by (simp add: in_frame_def)

lemma entry_cell_page:
  "va AND 0xFFF = 0 \<Longrightarrow> off < 4096 \<Longrightarrow> entry_cell mem c k (va + off) = entry_cell mem c k va"
proof (induction k)
  case 0 then show ?case by (simp add: entry_cell_def pt_index_page)
next
  case (Suc k) then show ?case
    by (simp add: entry_cell_def pt_index_page)
qed

lemma translate_in_page:
  assumes "tables_ok s 3 va" "entry_at s 3 va AND PG_PRESENT \<noteq> 0" "va AND 0xFFF = 0" "off < 4096"
  shows "translate s (va + off) = Some ((entry_at s 3 va AND PHYS_ADDR_MASK) + off, entry_at s 3 va AND PG_RW \<noteq> 0)"
proof -
  have e: "entry_at s k (va + off) = entry_at s k va" for k
    by (simp add: entry_at_def entry_cell_page assms)
  show ?thesis
    using translate_page [of s "va + off"] assms by (simp add: e tables_ok_def page_offset)
qed

text \<open>A physical page address.\<close>

definition page_addr :: "u64 \<Rightarrow> bool" where
  "page_addr f \<longleftrightarrow> f AND PHYS_ADDR_MASK = f"

lemma phys_addr_mask_alt: "PHYS_ADDR_MASK = push_bit 12 (mask 40)"
  by (simp add: PHYS_ADDR_MASK_def mask_eq_exp_minus_1)

lemma bit_3: "bit (3 :: u64) n \<longleftrightarrow> n < 2"
proof -
  have "(3 :: u64) = mask 2" by (simp add: mask_eq_exp_minus_1)
  then show ?thesis by (simp only: bit_mask_iff) auto
qed

lemma page_addr_bit: "page_addr f \<Longrightarrow> bit f n \<Longrightarrow> 12 \<le> n \<and> n < 52"
proof -
  assume f: "page_addr f" and b: "bit f n"
  have "bit (f AND PHYS_ADDR_MASK) n" using f b by (simp add: page_addr_def)
  then show ?thesis by (auto simp: phys_addr_mask_alt bit_simps)
qed

lemma page_addr_page: "page_addr f \<Longrightarrow> f AND 0xFFF = 0"
proof -
  assume f: "page_addr f"
  show ?thesis unfolding low12 by (rule bit_word_eqI) (auto simp: bit_simps dest: page_addr_bit [OF f])
qed

lemma page_addr_0 [simp]: "page_addr 0"
  by (simp add: page_addr_def)

section \<open>Correctness of ptes\<close>

text \<open>The first \<open>n\<close> entries for \<open>va\<close> are present, those above the leaf pointing to writable tables, and no more.\<close>

definition present_levels :: "kernel \<Rightarrow> nat \<Rightarrow> addr \<Rightarrow> bool" where
  "present_levels s n va \<longleftrightarrow> n \<le> 4 \<and> tables_ok s (min n 3) va \<and>
     (if n = 4 then entry_at s 3 va AND PG_PRESENT \<noteq> 0 else entry_at s n va AND PG_PRESENT = 0)"

lemma tables_ok_mono: "tables_ok s k va \<Longrightarrow> j \<le> k \<Longrightarrow> tables_ok s j va"
  by (auto simp: tables_ok_def)

lemma present_levels_below:
  "present_levels s n va \<Longrightarrow> k < n \<Longrightarrow> k \<le> 3 \<Longrightarrow> entry_at s k va AND PG_PRESENT \<noteq> 0"
  by (cases "k = 3") (auto simp: present_levels_def tables_ok_def table_entry_def split: if_splits)

lemma scan_present_from:
  assumes "self_mapped s" "present_levels s n va" "k \<le> n"
  shows "scan_present (map (\<lambda>k. pte_ptr k va) [k..<4]) k (mask k) s = Inr (mask n, s)"
  using assms(3)
proof (induction "4 - k" arbitrary: k)
  case 0
  then have "k = n" using assms(2) by (simp add: present_levels_def)
  with 0 show ?case by simp
next
  case (Suc d)
  then have k: "k \<le> 3" by simp
  then have list: "[k..<4] = k # [Suc k..<4]" by (simp add: upt_conv_Cons)
  have load: "vload (pte_ptr k va) s = Inr (entry_at s k va, s)"
    using assms(2) Suc.prems k
    by (intro vload_pte_ptr assms(1)) (auto simp: present_levels_def elim: tables_ok_mono)
  show ?case
  proof (cases "k < n")
    case True
    have "mask k OR push_bit k 1 = (mask (Suc k) :: u32)"
      by (rule bit_word_eqI) (auto simp: bit_simps)
    then show ?thesis
      using Suc.hyps True k present_levels_below [OF assms(2) True k]
      by (simp add: list load bindS_apply del: upt.upt_Suc)
  next
    case False
    then have "entry_at s k va AND PG_PRESENT = 0" "n = k"
      using assms(2) Suc.prems k by (auto simp: present_levels_def split: if_splits)
    then show ?thesis by (simp add: list load bindS_apply del: upt.upt_Suc)
  qed
qed

lemma ptes_result:
  assumes "self_mapped s" "present_levels s n va"
  shows "ptes va s = Inr (\<lparr>entries = map (\<lambda>k. pte_ptr k va) [0..<4], present_mask = mask n\<rparr>, s)"
proof -
  show ?thesis
    using scan_present_from [OF assms, of 0] by (simp add: ptes_def bindS_apply Let_def pte_ptrs_eq)
qed

text \<open>
  Property C6: \<open>ptes\<close> works. Under the self entry it succeeds without touching memory, its mask has one
  bit for each leading present entry, and the page walk takes the addresses it returns to the page table
  entries of the given address, writable, as far down as tables exist.
\<close>

theorem ptes_correct:
  assumes "self_mapped s" "present_levels s n va"
  shows "\<exists>e. ptes va s = Inr (e, s) \<and> present_mask e = mask n \<and> length (entries e) = 4 \<and>
    (\<forall>k \<le> min n 3. translate s (entries e ! k) = Some (entry_cell (phys s) (cr3 s) k va, True))"
proof -
  let ?e = "\<lparr>entries = map (\<lambda>k. pte_ptr k va) [0..<4], present_mask = mask n\<rparr>"
  have "translate s (entries ?e ! k) = Some (entry_cell (phys s) (cr3 s) k va, True)" if "k \<le> min n 3" for k
  proof -
    have "tables_ok s k va" using assms(2) that by (auto simp: present_levels_def elim: tables_ok_mono)
    then show ?thesis using translate_pte_ptr [OF assms(1)] that by simp
  qed
  then show ?thesis using ptes_result [OF assms] by (intro exI [of _ ?e]) simp
qed

text \<open>
  A small machine for examples: the tables for the last 2 GiB at \<open>0x1000\<close> to \<open>0x4fff\<close>, none of whose
  leaves is mapped yet, and five pages of usable memory from 1 MiB on, the first one taken by the kernel.
\<close>

definition example_kernel :: kernel where
  "example_kernel = \<lparr>phys = (\<lambda>_. 0)(0x1FF0 := 0x1003, 0x1FF8 := 0x2003, 0x2FF0 := 0x3003, 0x3000 := 0x4003),
     cr3 = 0x1000, k_mem_map = (one_area_map 0x100000 0x105000)\<lparr>mm_physical_end := 0x105000\<rparr>,
     k_fa = \<lparr>fa_begin = 0, fa_end = 0, fa_size = 0, fa_capacity = 0, fa_free = 0, fa_current = 0, fa_count = 0,
       fa_map_position = 0, fa_current_address = 0, fa_current_pte = 0\<rparr>,
     k_zero_page = 0, k_kernel_end = 0x101000\<rparr>"

lemma tables_ok_3:
  "tables_ok s 3 va \<longleftrightarrow> table_entry (entry_at s 0 va) \<and> table_entry (entry_at s (Suc 0) va) \<and> table_entry (entry_at s 2 va)"
  by (auto simp: tables_ok_def numeral_3_eq_3 numeral_2_eq_2 less_Suc_eq)

lemma example_cells:
  "entry_cell (phys example_kernel) 0x1000 0 0xFFFFFFFF80000000 = 0x1FF8"
  "entry_cell (phys example_kernel) 0x1000 (Suc 0) 0xFFFFFFFF80000000 = 0x2FF0"
  "entry_cell (phys example_kernel) 0x1000 2 0xFFFFFFFF80000000 = 0x3000"
  "entry_cell (phys example_kernel) 0x1000 3 0xFFFFFFFF80000000 = 0x4000"
  by (simp_all add: entry_cell_simps example_kernel_def pt_index_def PHYS_ADDR_MASK_def)

lemma example_phys:
  "phys example_kernel 0x1FF0 = 0x1003" "phys example_kernel 0x1FF8 = 0x2003" "phys example_kernel 0x2FF0 = 0x3003"
  "phys example_kernel 0x3000 = 0x4003" "phys example_kernel 0x4000 = 0" "cr3 example_kernel = 0x1000"
  by (simp_all add: example_kernel_def)

lemma example_tables:
  "self_mapped example_kernel" "tables_ok example_kernel 3 0xFFFFFFFF80000000"
  "present_levels example_kernel 3 0xFFFFFFFF80000000"
proof -
  note flags = table_entry_def PG_PRESENT_def PG_RW_def PG_HUGE_def PHYS_ADDR_MASK_def
  show "self_mapped example_kernel" by (simp add: self_mapped_def example_phys flags)
  show tab: "tables_ok example_kernel 3 0xFFFFFFFF80000000"
    by (simp add: tables_ok_3 entry_at_def example_cells example_phys flags)
  show "present_levels example_kernel 3 0xFFFFFFFF80000000"
    using tab by (simp add: present_levels_def entry_at_def example_cells example_phys)
qed

theorem ptes_correct_witness:
  "\<exists>e. ptes 0xFFFFFFFF80000000 example_kernel = Inr (e, example_kernel) \<and> present_mask e = 7 \<and>
    translate example_kernel (entries e ! 3) = Some (0x4000, True)"
proof -
  obtain e where "ptes 0xFFFFFFFF80000000 example_kernel = Inr (e, example_kernel)" "present_mask e = mask 3"
      "\<forall>k \<le> min 3 3. translate example_kernel (entries e ! k) =
        Some (entry_cell (phys example_kernel) (cr3 example_kernel) k 0xFFFFFFFF80000000, True)"
    using ptes_correct [OF example_tables(1,3)] by blast
  then show ?thesis using example_cells(4) by (auto simp: mask_eq_exp_minus_1 example_phys)
qed

end
