(* ===== verification/Frame.thy ===== *)
theory Frame imports Page_Tables begin

text \<open>
  The physical frame allocator of \<open>mm/frame.c\<close>. Frames that were never given out are taken from the
  memory map in ascending order (\<open>extend\<close>). Freed frames form a stack that is kept inside the free frames
  themselves: the top node holds a link to the next node and up to 511 frame addresses, and is reached
  through one fixed virtual page, the window, whose page table entry the allocator rewrites.
  The invariant \<open>frames_inv\<close> describes the state by three pieces: the stack, the fresh frames that are
  left and the frames in use.
\<close>

section \<open>Constants and the accessors of the allocator record\<close>

text \<open>
  The window of the allocator and the window \<open>zero_frame\<close> clears frames through, with the addresses of
  their page table entries, as \<open>initialize_frame_allocation\<close> and \<open>zero_frame\<close> write them.
\<close>

definition FRAME_WINDOW :: addr where "FRAME_WINDOW = 0xFFFFFFFF80000000"
definition FRAME_WINDOW_PTE :: addr where "FRAME_WINDOW_PTE = 0xFFFFFF7FFFC00000"
definition ZERO_WINDOW :: addr where "ZERO_WINDOW = 0xFFFFFFFF80001000"
definition ZERO_WINDOW_PTE :: addr where "ZERO_WINDOW_PTE = 0xFFFFFF7FFFC00008"
definition PAGE_SIZE :: u64 where "PAGE_SIZE = 4096"

definition modify_fa :: "(frame_allocator \<Rightarrow> frame_allocator) \<Rightarrow> (kernel, unit) kproc" where
  "modify_fa f = modifyS (\<lambda>s. s\<lparr>k_fa := f (k_fa s)\<rparr>)"

text \<open>\<open>mem_map.area[i]\<close>; the array has 32 entries.\<close>

definition area_at :: "nat \<Rightarrow> (kernel, area) kproc" where
  "area_at i = (\<lambda>s. if i < length (mm_area (k_mem_map s)) then Inr (mm_area (k_mem_map s) ! i, s)
     else Inl Out_Of_Bounds)"

section \<open>The operations\<close>

definition intersection :: "u64 \<Rightarrow> u64 \<Rightarrow> u64 \<Rightarrow> u64 \<Rightarrow> u64" where
  "intersection beginA endA beginB endB =
     (let maxBegin = (if beginA > beginB then beginA else beginB);
          minEnd = (if endA < endB then endA else endB);
          diff = minEnd - maxBegin
      in if sint diff > 0 then diff else 0)"

definition zero_frame :: "u64 \<Rightarrow> (kernel, unit) kproc" where
  "zero_frame frame_addr =
     thenS (assertS (frame_addr mod PAGE_SIZE = 0))
    (thenS (vstore ZERO_WINDOW_PTE (frame_addr OR 3))
           (vzero_page ZERO_WINDOW))"

text \<open>
  The search loop leaves \<open>current_map_position\<close> as it was when no area ends after \<open>begin\<close>.
\<close>

definition alloc_init :: "u64 \<Rightarrow> u64 \<Rightarrow> addr \<Rightarrow> addr \<Rightarrow> (kernel, unit) kproc" where
  "alloc_init begin1 end1 current_address current_pte =
     thenS (assertS (begin1 mod PAGE_SIZE = 0))
    (thenS (assertS (end1 mod PAGE_SIZE = 0))
    (thenS (assertS (end1 > begin1))
    (bindS (getsS k_mem_map) (\<lambda>m.
     let free = foldl (\<lambda>free a. free + intersection begin1 end1 (area_begin a) (area_end a)) 0 (areas m)
     in
     thenS (modify_fa (\<lambda>a. a\<lparr>fa_free := free,
        fa_map_position := (case find (\<lambda>i. area_end (mm_area m ! i) > begin1) [0..<mm_count m] of
          Some i \<Rightarrow> i | None \<Rightarrow> fa_map_position a)\<rparr>))
    (bindS (getsS k_fa) (\<lambda>a.
     bindS (area_at (fa_map_position a)) (\<lambda>ar.
     let begin2 = (if begin1 < area_begin ar then area_begin ar else begin1)
     in
     thenS (modify_fa (\<lambda>a. a\<lparr>fa_begin := begin2, fa_end := end1, fa_size := end1 - begin2,
        fa_capacity := fa_free a, fa_current := 0, fa_count := 0,
        fa_current_address := current_address, fa_current_pte := current_pte\<rparr>))
     (vstore current_pte 3))))))))"

definition initialize_frame_allocation :: "(kernel, unit) kproc" where
  "initialize_frame_allocation =
     bindS (getsS k_mem_map) (\<lambda>m.
       if mm_count m = 0 then failS Out_Of_Bounds
       else bindS (area_at (mm_count m - 1)) (\<lambda>ar.
         bindS (getsS k_kernel_end) (\<lambda>kernel_end.
           alloc_init kernel_end (area_end ar) FRAME_WINDOW FRAME_WINDOW_PTE)))"

definition extend :: "(kernel, u64) kproc" where
  "extend =
     bindS (getsS k_fa) (\<lambda>a. bindS (area_at (fa_map_position a)) (\<lambda>ar.
     bindS (if fa_begin a = area_end ar
            then thenS (modify_fa (\<lambda>a. a\<lparr>fa_map_position := fa_map_position a + 1\<rparr>))
                (bindS (area_at (fa_map_position a + 1)) (\<lambda>ar. returnS (area_begin ar)))
            else returnS (fa_begin a)) (\<lambda>frame.
     thenS (modify_fa (\<lambda>a. a\<lparr>fa_begin := frame + 4096\<rparr>)) (returnS frame))))"

text \<open>\<open>current\<close> and \<open>map\<close> of the code.\<close>

definition current_node :: "(kernel, u64) kproc" where
  "current_node = bindS (getsS k_fa) (\<lambda>a.
     bindS (vload (fa_current_pte a)) (\<lambda>pte. returnS (pte AND NOT 0xFFF)))"

definition map_node :: "u64 \<Rightarrow> (kernel, addr) kproc" where
  "map_node address =
     (if address = 0 then returnS 0
      else bindS (getsS k_fa) (\<lambda>a.
        bindS (vload (fa_current_pte a)) (\<lambda>pte. thenS (vstore (fa_current_pte a) (pte AND 0xFFF))
       (bindS (vload (fa_current_pte a)) (\<lambda>pte. thenS (vstore (fa_current_pte a) (pte OR address))
       (returnS (fa_current_address a)))))))"

text \<open>A node is the link \<open>next\<close>, then \<open>frames[511]\<close>.\<close>

definition node_next :: "addr \<Rightarrow> addr" where
  "node_next p = p"

definition node_frame :: "addr \<Rightarrow> int \<Rightarrow> addr" where
  "node_frame p i = p + 8 + 8 * of_int i"

text \<open>The branches of \<open>alloc_frame\<close> that choose the frame.\<close>

definition pick_frame :: "(kernel, u64) kproc" where
  "pick_frame = bindS (getsS k_fa) (\<lambda>a.
     if fa_count a > 1 then
       bindS (vload (node_frame (fa_current a) (fa_count a - 2))) (\<lambda>frame.
       thenS (modify_fa (\<lambda>a. a\<lparr>fa_count := fa_count a - 1\<rparr>)) (returnS frame))
     else if fa_count a = 1 then
       bindS current_node (\<lambda>frame.
       bindS (vload (node_next (fa_current a))) (\<lambda>next.
       bindS (map_node next) (\<lambda>cur.
       thenS (modify_fa (\<lambda>a. a\<lparr>fa_current := cur, fa_count := (if cur \<noteq> 0 then 512 else 0)\<rparr>))
      (returnS frame))))
     else if fa_count a = 0 then extend
     else returnS (- 1))"

definition alloc_frame :: "(kernel, u64) kproc" where
  "alloc_frame = bindS (getsS k_fa) (\<lambda>a.
     if fa_free a = 0 then returnS 0
     else bindS pick_frame (\<lambda>frame.
       thenS (assertS (frame \<noteq> - 1))
      (thenS (modify_fa (\<lambda>a. a\<lparr>fa_free := fa_free a - PAGE_SIZE\<rparr>))
      (thenS (zero_frame frame) (returnS frame)))))"

text \<open>The two branches of \<open>dealloc_frame\<close> that link the frame.\<close>

definition push_frame :: "u64 \<Rightarrow> (kernel, unit) kproc" where
  "push_frame frame = bindS (getsS k_fa) (\<lambda>a.
     if fa_count a = 0 \<or> fa_count a = 512 then
       bindS current_node (\<lambda>next.
       bindS (map_node frame) (\<lambda>cur.
       thenS (modify_fa (\<lambda>a. a\<lparr>fa_current := cur\<rparr>))
      (thenS (vstore (node_next cur) next)
      (modify_fa (\<lambda>a. a\<lparr>fa_count := 1\<rparr>)))))
     else
       thenS (vstore (node_frame (fa_current a) (fa_count a - 1)) frame)
      (modify_fa (\<lambda>a. a\<lparr>fa_count := fa_count a + 1\<rparr>)))"

definition dealloc_frame :: "u64 \<Rightarrow> (kernel, unit) kproc" where
  "dealloc_frame frame =
     thenS (assertS (frame mod 4096 = 0))
    (thenS (push_frame frame)
    (thenS (modify_fa (\<lambda>a. a\<lparr>fa_free := fa_free a + PAGE_SIZE\<rparr>))
    (bindS (getsS k_fa) (\<lambda>a. assertS (fa_free a \<le> fa_size a)))))"

definition get_frame :: "(kernel, u64) kproc" where "get_frame = alloc_frame"

definition free_frame :: "u64 \<Rightarrow> (kernel, unit) kproc" where "free_frame = dealloc_frame"

section \<open>The windows\<close>

text \<open>
  The cells the walk for the two windows reads above the leaves, and the two leaf entries. The windows
  are usable when the tables exist and the leaf entries lie elsewhere.
\<close>

definition window_tables :: "kernel \<Rightarrow> u64 set" where
  "window_tables s = insert (cr3 s + 8 * 510) ((\<lambda>k. entry_cell (phys s) (cr3 s) k FRAME_WINDOW) ` {..<3})"

definition window_cell :: "kernel \<Rightarrow> u64" where
  "window_cell s = entry_cell (phys s) (cr3 s) 3 FRAME_WINDOW"

definition zero_cell :: "kernel \<Rightarrow> u64" where
  "zero_cell s = entry_cell (phys s) (cr3 s) 3 ZERO_WINDOW"

definition windows_ok :: "kernel \<Rightarrow> bool" where
  "windows_ok s \<longleftrightarrow> self_mapped s \<and> tables_ok s 3 FRAME_WINDOW \<and>
     window_cell s \<notin> window_tables s \<and> zero_cell s \<notin> window_tables s"

lemma window_ptes: "FRAME_WINDOW_PTE = pte_ptr 3 FRAME_WINDOW" "ZERO_WINDOW_PTE = pte_ptr 3 ZERO_WINDOW"
  by (simp_all add: FRAME_WINDOW_def FRAME_WINDOW_PTE_def ZERO_WINDOW_def ZERO_WINDOW_PTE_def pte_ptr_simps
      pte_step_def L4PTE_MASK_def PG_SELF_def Let_def)

lemma window_indices:
  "pt_index 4 ZERO_WINDOW = pt_index 4 FRAME_WINDOW" "pt_index 3 ZERO_WINDOW = pt_index 3 FRAME_WINDOW"
  "pt_index 2 ZERO_WINDOW = pt_index 2 FRAME_WINDOW"
  "pt_index (Suc 0) FRAME_WINDOW = 0" "pt_index (Suc 0) ZERO_WINDOW = 1"
  by (simp_all add: pt_index_def FRAME_WINDOW_def ZERO_WINDOW_def)

lemma window_aligned: "FRAME_WINDOW AND 0xFFF = 0" "ZERO_WINDOW AND 0xFFF = 0" "FRAME_WINDOW \<noteq> 0"
  by (simp_all add: FRAME_WINDOW_def ZERO_WINDOW_def)

lemma zero_window_tables:
  "k < 3 \<Longrightarrow> entry_cell mem c k ZERO_WINDOW = entry_cell mem c k FRAME_WINDOW"
  by (cases k; cases "k - 1"; cases "k - 2"; simp add: entry_cell_def window_indices)

lemma zero_cell_eq: "zero_cell s = window_cell s + 8"
  by (simp add: zero_cell_def window_cell_def entry_cell_simps zero_window_tables window_indices)

lemma tables_ok_zero_window: "tables_ok s 3 ZERO_WINDOW = tables_ok s 3 FRAME_WINDOW"
  by (auto simp: tables_ok_def entry_at_def zero_window_tables)

lemma window_tables_alt: "window_tables s = {cr3 s + 4080, entry_cell (phys s) (cr3 s) 0 FRAME_WINDOW,
    entry_cell (phys s) (cr3 s) (Suc 0) FRAME_WINDOW, entry_cell (phys s) (cr3 s) 2 FRAME_WINDOW}"
  by (auto simp: window_tables_def lessThan_Suc numeral_3_eq_3 numeral_2_eq_2)

text \<open>None of this depends on the rest of the memory.\<close>

lemma windows_cells_stable:
  assumes "cr3 s' = cr3 s" "\<And>p. p \<in> window_tables s \<Longrightarrow> same_entry (phys s' p) (phys s p)"
  shows "k \<le> 3 \<Longrightarrow> entry_cell (phys s') (cr3 s') k FRAME_WINDOW = entry_cell (phys s) (cr3 s) k FRAME_WINDOW"
    "window_tables s' = window_tables s" "window_cell s' = window_cell s" "zero_cell s' = zero_cell s"
proof -
  let ?e = "\<lambda>s k. entry_cell (phys s) (cr3 s) k FRAME_WINDOW"
  note flags = assms(2) [THEN same_entry_flags(1), unfolded window_tables_alt]
  have 0: "?e s' 0 = ?e s 0" using assms(1) by (simp add: entry_cell_simps)
  have 1: "?e s' (Suc 0) = ?e s (Suc 0)"
    using flags [of "?e s 0"] 0 by (simp add: entry_cell_simps(2))
  have 2: "?e s' 2 = ?e s 2"
    using flags [of "?e s (Suc 0)"] 1 by (simp add: entry_cell_simps(3))
  have 3: "?e s' 3 = ?e s 3"
    using flags [of "?e s 2"] 2 by (simp add: entry_cell_simps(4))
  show "k \<le> 3 \<Longrightarrow> ?e s' k = ?e s k"
    using 0 1 2 3 by (cases "k = 0"; cases "k = 1"; cases "k = 2"; cases "k = 3"; simp)
  show "window_tables s' = window_tables s" by (simp only: window_tables_alt 0 1 2) (simp add: assms(1))
  show "window_cell s' = window_cell s" "zero_cell s' = zero_cell s"
    by (simp_all add: zero_cell_eq window_cell_def 3)
qed

lemma windows_ok_stable:
  assumes "windows_ok s" "cr3 s' = cr3 s" "\<And>p. p \<in> window_tables s \<Longrightarrow> same_entry (phys s' p) (phys s p)"
  shows "windows_ok s'"
proof -
  note stable = windows_cells_stable [OF assms(2,3), simplified]
  have "table_entry (entry_at s' k FRAME_WINDOW) = table_entry (entry_at s k FRAME_WINDOW)" if "k < 3" for k
    using that stable(1) [of k] assms(3) [of "entry_cell (phys s) (cr3 s) k FRAME_WINDOW"]
    by (auto simp: entry_at_def window_tables_def intro!: same_entry_flags(5))
  moreover have "same_entry (phys s' (cr3 s' + 8 * 510)) (phys s (cr3 s + 8 * 510))"
    using assms(2,3) by (simp add: window_tables_def)
  ultimately show ?thesis
    using assms(1,2) same_entry_flags(1,5)
    by (simp add: windows_ok_def self_mapped_def tables_ok_def stable(2-4))
qed

section \<open>Accesses through the windows\<close>

lemma frame_pte:
  assumes "page_addr f"
  shows "(f OR 3) AND PHYS_ADDR_MASK = f" "(f OR 3) AND NOT 0xFFF = f" "(f OR 3) AND 0xFFF = 3"
    "(f OR 3) AND PG_PRESENT \<noteq> 0" "(f OR 3) AND PG_RW \<noteq> 0"
proof -
  have 12: "(0xFFF :: u64) = mask 12" by (simp add: mask_eq_exp_minus_1)
  have 3: "(3 :: u64) = mask 2" by (simp add: mask_eq_exp_minus_1)
  show "(f OR 3) AND PHYS_ADDR_MASK = f"
    unfolding phys_addr_mask_alt 3
    by (rule bit_word_eqI) (auto simp: bit_simps dest: page_addr_bit [OF assms])
  show "(f OR 3) AND NOT 0xFFF = f"
    unfolding 12 3 by (rule bit_word_eqI) (auto simp: bit_simps dest: page_addr_bit [OF assms])
  show "(f OR 3) AND 0xFFF = 3"
    unfolding 12 3 by (rule bit_word_eqI) (auto simp: bit_simps dest: page_addr_bit [OF assms])
  have "bit ((f OR 3) AND PG_PRESENT) 0" "bit ((f OR 3) AND PG_RW) 1"
    by (simp_all add: bit_simps bit_3 PG_PRESENT_def PG_RW_def)
  then show "(f OR 3) AND PG_PRESENT \<noteq> 0" "(f OR 3) AND PG_RW \<noteq> 0" by (metis bit_0_eq bot_apply bot_bool_def)+
qed

lemma window_pte_access:
  assumes "windows_ok s"
  shows "vload FRAME_WINDOW_PTE s = Inr (phys s (window_cell s), s)"
    "vstore FRAME_WINDOW_PTE v s = Inr ((), s\<lparr>phys := (phys s)(window_cell s := v)\<rparr>)"
    "vstore ZERO_WINDOW_PTE v s = Inr ((), s\<lparr>phys := (phys s)(zero_cell s := v)\<rparr>)"
  using assms
  by (simp_all add: window_ptes windows_ok_def vload_pte_ptr vstore_pte_ptr tables_ok_zero_window
      entry_at_def window_cell_def zero_cell_def)

lemma translate_window:
  assumes "windows_ok s" "phys s (window_cell s) = f OR 3" "page_addr f" "off < 4096"
  shows "translate s (FRAME_WINDOW + off) = Some (f + off, True)"
proof -
  have "entry_at s 3 FRAME_WINDOW = f OR 3" using assms(2) by (simp add: entry_at_def window_cell_def)
  then show ?thesis
    using assms translate_in_page [of s FRAME_WINDOW off] window_aligned frame_pte [OF assms(3)]
    by (simp add: windows_ok_def)
qed

lemma window_access:
  assumes "windows_ok s" "phys s (window_cell s) = f OR 3" "page_addr f" "off < 4096"
  shows "vload (FRAME_WINDOW + off) s = Inr (phys s (f + off), s)"
    "vstore (FRAME_WINDOW + off) v s = Inr ((), s\<lparr>phys := (phys s)(f + off := v)\<rparr>)"
  by (simp_all add: vload_def vstore_def translate_window [OF assms])

definition clear_frame :: "u64 \<Rightarrow> (u64 \<Rightarrow> u64) \<Rightarrow> u64 \<Rightarrow> u64" where
  "clear_frame f mem p = (if in_frame f p then 0 else mem p)"

lemma mod_4096: "x mod 4096 = x AND 0xFFF" for x :: u64
  by (simp add: low12 take_bit_eq_mod)

lemma zero_frame_eq:
  assumes "windows_ok s" "page_addr f"
  shows "zero_frame f s = Inr ((), s\<lparr>phys := clear_frame f ((phys s)(zero_cell s := f OR 3))\<rparr>)"
proof -
  let ?s = "s\<lparr>phys := (phys s)(zero_cell s := f OR 3)\<rparr>"
  have out: "zero_cell s \<notin> window_tables s" using assms(1) by (simp add: windows_ok_def)
  have stable: "cr3 ?s = cr3 s" "\<And>p. p \<in> window_tables s \<Longrightarrow> same_entry (phys ?s p) (phys s p)" using out by auto
  have ok: "windows_ok ?s" by (rule windows_ok_stable [OF assms(1) stable])
  have "entry_at ?s 3 ZERO_WINDOW = f OR 3"
    using windows_cells_stable(4) [OF stable] by (simp add: entry_at_def zero_cell_def)
  then have "translate ?s (ZERO_WINDOW + 0) = Some (f + 0, True)"
    using ok translate_in_page [of ?s ZERO_WINDOW 0] window_aligned(2) frame_pte [OF assms(2)]
    by (simp add: windows_ok_def tables_ok_zero_window)
  moreover have "f AND NOT 0xFFF = f" using page_offset(2) [OF page_addr_page [OF assms(2)], of 0] by simp
  moreover have "clear_frame f (phys ?s) = (\<lambda>a. if in_frame f a then 0 else phys ?s a)"
    by (simp add: fun_eq_iff clear_frame_def)
  moreover have "f mod PAGE_SIZE = 0" using page_addr_page [OF assms(2)] by (simp add: PAGE_SIZE_def mod_4096)
  ultimately show ?thesis
    using assms(1) by (simp add: zero_frame_def thenS_apply window_pte_access vzero_page_def)
qed

section \<open>The stack of free frames\<close>

text \<open>
  \<open>chain mem node c xs\<close>: the frames \<open>xs\<close> are on the stack whose top node is \<open>node\<close>, with \<open>c\<close> frames in
  it (the node itself counts). Slot \<open>j\<close> of a node, at offset \<open>8 * j\<close>, is the link for \<open>j = 0\<close> and
  \<open>frames[j - 1]\<close> otherwise. Every node below the top one is full.
\<close>

fun chain :: "(u64 \<Rightarrow> u64) \<Rightarrow> u64 \<Rightarrow> nat \<Rightarrow> u64 list \<Rightarrow> bool" where
  "chain mem node c [] \<longleftrightarrow> node = 0 \<and> c = 0"
| "chain mem node c (x # xs) \<longleftrightarrow> node \<noteq> 0 \<and> 1 \<le> c \<and> c \<le> 512 \<and>
     (if c = 1 then x = node \<and> chain mem (mem node) (if mem node = 0 then 0 else 512) xs
      else x = mem (node + 8 * of_nat (c - 1)) \<and> chain mem node (c - 1) xs)"

definition window_node :: "kernel \<Rightarrow> u64" where
  "window_node s = phys s (window_cell s) AND NOT 0xFFF"

definition stack_inv :: "kernel \<Rightarrow> u64 list \<Rightarrow> bool" where
  "stack_inv s stack \<longleftrightarrow>
     fa_current_address (k_fa s) = FRAME_WINDOW \<and> fa_current_pte (k_fa s) = FRAME_WINDOW_PTE \<and>
     0 \<le> fa_count (k_fa s) \<and> fa_current (k_fa s) = (if stack = [] then 0 else FRAME_WINDOW) \<and>
     phys s (window_cell s) = window_node s OR 3 \<and> page_addr (window_node s) \<and>
     chain (phys s) (if stack = [] then 0 else window_node s) (nat (fa_count (k_fa s))) stack"

lemma window_node_eq: "phys s (window_cell s) = f OR 3 \<Longrightarrow> page_addr f \<Longrightarrow> window_node s = f"
  unfolding window_node_def by (simp only: frame_pte(2))

lemma window_node_cong: "window_cell s' = window_cell s \<Longrightarrow>
    phys s' (window_cell s) = phys s (window_cell s) \<Longrightarrow> window_node s' = window_node s"
  by (simp only: window_node_def)

lemma stack_invI:
  assumes "fa_current_address (k_fa s) = FRAME_WINDOW" "fa_current_pte (k_fa s) = FRAME_WINDOW_PTE"
    "0 \<le> fa_count (k_fa s)" "fa_current (k_fa s) = FRAME_WINDOW" "stack \<noteq> []"
    "phys s (window_cell s) = node OR 3" "page_addr node" "chain (phys s) node (nat (fa_count (k_fa s))) stack"
  shows "stack_inv s stack"
  using assms window_node_eq [OF assms(6,7)] by (simp add: stack_inv_def)

text \<open>The entry of the window is clean when it names no frame while the stack is empty.\<close>

definition clean_window :: "kernel \<Rightarrow> bool" where
  "clean_window s \<longleftrightarrow> window_node s = 0"

lemma chain_node_in: "chain mem node c xs \<Longrightarrow> xs \<noteq> [] \<Longrightarrow> node \<in> set xs"
proof (induction xs arbitrary: c)
  case (Cons x xs)
  then show ?case by (cases "c = 1"; cases xs) auto
qed simp

lemma slot_in_frame: "page_addr f \<Longrightarrow> j < 512 \<Longrightarrow> in_frame f (f + 8 * of_nat j)"
  by (rule in_frame_add [OF page_addr_page]) (auto simp: word_less_nat_alt unat_of_nat_u64 unat_mult_u64)

lemma slot_inj: "i < 512 \<Longrightarrow> j < 512 \<Longrightarrow> f + 8 * of_nat i = f + 8 * (of_nat j :: u64) \<Longrightarrow> i = j"
proof -
  assume ij: "i < 512" "j < 512" and "f + 8 * of_nat i = f + 8 * (of_nat j :: u64)"
  then have "unat (8 * of_nat i :: u64) = unat (8 * of_nat j :: u64)" by simp
  then show "i = j" using ij by (simp add: unat_mult_u64 unat_of_nat_u64)
qed

lemma chain_stable:
  assumes "chain mem node c xs" "distinct xs" "\<forall>x \<in> set xs. page_addr x"
    "\<And>j. j < c \<Longrightarrow> mem' (node + 8 * of_nat j) = mem (node + 8 * of_nat j)"
    "\<And>x p. x \<in> set xs \<Longrightarrow> x \<noteq> node \<Longrightarrow> in_frame x p \<Longrightarrow> mem' p = mem p"
  shows "chain mem' node c xs"
  using assms
proof (induction xs arbitrary: node c)
  case Nil
  then show ?case by simp
next
  case (Cons x xs)
  show ?case
  proof (cases "c = 1")
    case True
    let ?next = "mem node" and ?c = "if mem node = 0 then 0 else 512 :: nat"
    have x: "x = node" and ch: "chain mem ?next ?c xs" and nz: "node \<noteq> 0" using Cons.prems(1) True by auto
    have same: "mem' node = mem node" using Cons.prems(4) [of 0] True by simp
    have agree: "mem' p = mem p" if "y \<in> set xs" "in_frame y p" for y p
      using Cons.prems(2,5) x that by auto
    have "chain mem' ?next ?c xs"
    proof (rule Cons.IH [OF ch])
      fix j assume j: "j < ?c"
      then have "xs \<noteq> []" using ch by auto
      then have "?next \<in> set xs" using chain_node_in [OF ch] by simp
      moreover have "j < 512" using j by (simp split: if_splits)
      ultimately show "mem' (?next + 8 * of_nat j) = mem (?next + 8 * of_nat j)"
        using agree slot_in_frame Cons.prems(3) by simp
    qed (use Cons.prems(2,3) agree in auto)
    then show ?thesis using nz x True same by simp
  next
    case False
    then have ch: "chain mem node (c - 1) xs" using Cons.prems(1) by simp
    have "chain mem' node (c - 1) xs"
      by (rule Cons.IH [OF ch]) (use Cons.prems(2-5) in auto)
    then show ?thesis using Cons.prems(1) Cons.prems(4) [of "c - 1"] False by auto
  qed
qed

lemma stack_inv_stable:
  assumes "windows_ok s" "stack_inv s stack" "distinct stack" "\<forall>x \<in> set stack. page_addr x"
    and "cr3 s' = cr3 s" "k_fa s' = k_fa s"
    and "\<And>p. p \<in> window_tables s \<Longrightarrow> same_entry (phys s' p) (phys s p)"
    and "phys s' (window_cell s) = phys s (window_cell s)"
    and "\<And>x p. x \<in> set stack \<Longrightarrow> in_frame x p \<Longrightarrow> phys s' p = phys s p"
  shows "stack_inv s' stack" "window_node s' = window_node s"
proof -
  note stable = windows_cells_stable [OF assms(5,7), simplified]
  show node: "window_node s' = window_node s" by (simp add: window_node_def stable(3) assms(8))
  let ?node = "if stack = [] then 0 else window_node s" and ?c = "nat (fa_count (k_fa s))"
  have ch: "chain (phys s) ?node ?c stack" using assms(2) by (simp add: stack_inv_def)
  have "chain (phys s') ?node ?c stack"
  proof (rule chain_stable [OF ch assms(3,4)])
    fix j assume j: "j < ?c"
    then have ne: "stack \<noteq> []" using ch by (cases stack) auto
    then have "?node \<in> set stack" using chain_node_in [OF ch] by simp
    moreover have "j < 512" using ch ne j by (cases stack) auto
    ultimately show "phys s' (?node + 8 * of_nat j) = phys s (?node + 8 * of_nat j)"
      using assms(4,9) slot_in_frame by simp
  qed (use assms(9) in auto)
  then show "stack_inv s' stack"
    using assms(2) unfolding stack_inv_def stable(3) node assms(6,8) by blast
qed

text \<open>Updates of the allocator record leave the memory and so the windows alone.\<close>

lemma k_fa_irrelevant [simp]:
  "windows_ok (s\<lparr>k_fa := a\<rparr>) = windows_ok s" "window_cell (s\<lparr>k_fa := a\<rparr>) = window_cell s"
  "zero_cell (s\<lparr>k_fa := a\<rparr>) = zero_cell s" "window_tables (s\<lparr>k_fa := a\<rparr>) = window_tables s"
  "window_node (s\<lparr>k_fa := a\<rparr>) = window_node s"
  by (simp_all add: windows_ok_def self_mapped_def tables_ok_def entry_at_def window_cell_def zero_cell_def
      window_tables_def window_node_def)

lemma window_store:
  assumes "windows_ok s"
  shows "windows_ok (s\<lparr>phys := (phys s)(window_cell s := v)\<rparr>)"
    "window_cell (s\<lparr>phys := (phys s)(window_cell s := v)\<rparr>) = window_cell s"
proof -
  let ?s = "s\<lparr>phys := (phys s)(window_cell s := v)\<rparr>"
  have agree: "cr3 ?s = cr3 s" "\<And>p. p \<in> window_tables s \<Longrightarrow> same_entry (phys ?s p) (phys s p)"
    using assms by (auto simp: windows_ok_def)
  show "windows_ok ?s" by (rule windows_ok_stable [OF assms agree])
  show "window_cell ?s = window_cell s" by (rule windows_cells_stable(3) [OF agree])
qed

lemma map_node_eq:
  assumes "windows_ok s" "phys s (window_cell s) = g OR 3" "page_addr g" "f \<noteq> 0"
    "fa_current_address (k_fa s) = FRAME_WINDOW" "fa_current_pte (k_fa s) = FRAME_WINDOW_PTE"
  shows "map_node f s = Inr (FRAME_WINDOW, s\<lparr>phys := (phys s)(window_cell s := f OR 3)\<rparr>)"
proof -
  let ?s = "s\<lparr>phys := (phys s)(window_cell s := 3)\<rparr>"
  have "(g OR 3) AND 0xFFF = 3" by (rule frame_pte [OF assms(3)])
  then show ?thesis
    using assms window_pte_access [OF window_store(1) [OF assms(1), of 3]] window_store(2) [OF assms(1), of 3]
    by (simp add: map_node_def bindS_apply thenS_apply window_pte_access or.commute [of 3])
qed

text \<open>The window shows the node that its entry names.\<close>

definition window_inv :: "kernel \<Rightarrow> bool" where
  "window_inv s \<longleftrightarrow> windows_ok s \<and> fa_current_address (k_fa s) = FRAME_WINDOW \<and>
     fa_current_pte (k_fa s) = FRAME_WINDOW_PTE \<and> phys s (window_cell s) = window_node s OR 3 \<and>
     page_addr (window_node s)"

lemma stack_inv_window: "windows_ok s \<Longrightarrow> stack_inv s stack \<Longrightarrow> window_inv s"
  by (simp add: window_inv_def stack_inv_def)

lemma current_node_eq:
  assumes "window_inv s"
  shows "current_node s = Inr (window_node s, s)"
  using assms by (simp add: current_node_def bindS_apply window_inv_def window_pte_access window_node_def)

lemma node_access:
  assumes "window_inv s" "fa_current (k_fa s) = FRAME_WINDOW" "j < 512"
  shows "vload (fa_current (k_fa s) + 8 * of_nat j) s = Inr (phys s (window_node s + 8 * of_nat j), s)"
    "vstore (fa_current (k_fa s) + 8 * of_nat j) v s
      = Inr ((), s\<lparr>phys := (phys s)(window_node s + 8 * of_nat j := v)\<rparr>)"
  using window_access [of s "window_node s" "8 * of_nat j"] assms
  by (auto simp: window_inv_def word_less_nat_alt unat_of_nat_u64 unat_mult_u64)

lemma node_frame_slot:
  assumes "0 \<le> i" shows "node_frame p i = p + 8 * of_nat (nat (i + 1))"
proof -
  have "(of_nat (nat (i + 1)) :: u64) = of_int (i + 1)" using assms by (metis add_nonneg_nonneg of_int_of_nat_eq nat_0_le zero_le_one)
  then show ?thesis by (simp add: node_frame_def algebra_simps)
qed

text \<open>A frame the allocator may manage: none of its cells is used by the windows.\<close>

definition managed :: "kernel \<Rightarrow> u64 \<Rightarrow> bool" where
  "managed s f \<longleftrightarrow> f \<noteq> 0 \<and> page_addr f \<and>
     (\<forall>p \<in> window_tables s. \<not> in_frame f p) \<and> \<not> in_frame f (window_cell s) \<and> \<not> in_frame f (zero_cell s)"

text \<open>The three branches of \<open>pick_frame\<close> that take a frame from the stack.\<close>

lemma pick_frame_slot:
  assumes "window_inv s" "fa_current (k_fa s) = FRAME_WINDOW" "2 \<le> fa_count (k_fa s)" "fa_count (k_fa s) \<le> 512"
  shows "pick_frame s = Inr (phys s (window_node s + 8 * of_nat (nat (fa_count (k_fa s)) - 1)),
    s\<lparr>k_fa := (k_fa s)\<lparr>fa_count := fa_count (k_fa s) - 1\<rparr>\<rparr>)"
proof -
  have "nat (fa_count (k_fa s) - 2 + 1) = nat (fa_count (k_fa s)) - 1" by simp
  then show ?thesis
    using node_access(1) [OF assms(1,2), of "nat (fa_count (k_fa s)) - 1"] assms(3,4)
    by (simp add: pick_frame_def bindS_apply thenS_apply modify_fa_def node_frame_slot)
qed

lemma pick_frame_last:
  assumes "window_inv s" "fa_current (k_fa s) = FRAME_WINDOW" "fa_count (k_fa s) = 1" "phys s (window_node s) = 0"
  shows "pick_frame s = Inr (window_node s, s\<lparr>k_fa := (k_fa s)\<lparr>fa_current := 0, fa_count := 0\<rparr>\<rparr>)"
  using node_access(1) [OF assms(1,2), of 0] assms
  by (simp add: pick_frame_def bindS_apply thenS_apply modify_fa_def current_node_eq node_next_def map_node_def)

lemma pick_frame_node:
  assumes "window_inv s" "fa_current (k_fa s) = FRAME_WINDOW" "fa_count (k_fa s) = 1" "phys s (window_node s) \<noteq> 0"
  shows "pick_frame s = Inr (window_node s, s\<lparr>phys := (phys s)(window_cell s := phys s (window_node s) OR 3),
    k_fa := (k_fa s)\<lparr>fa_current := FRAME_WINDOW, fa_count := 512\<rparr>\<rparr>)"
proof -
  let ?next = "phys s (window_node s)"
  define sn where "sn = s\<lparr>phys := (phys s)(window_cell s := ?next OR 3)\<rparr>"
  have "map_node ?next s = Inr (FRAME_WINDOW, sn)"
    unfolding sn_def by (rule map_node_eq [where g = "window_node s"]) (use assms in \<open>auto simp: window_inv_def\<close>)
  then have "pick_frame s = Inr (window_node s, sn\<lparr>k_fa := (k_fa sn)\<lparr>fa_current := FRAME_WINDOW, fa_count := 512\<rparr>\<rparr>)"
    using node_access(1) [OF assms(1,2), of 0] assms window_aligned(3)
    by (simp add: pick_frame_def bindS_apply thenS_apply modify_fa_def current_node_eq node_next_def)
  then show ?thesis by (simp add: sn_def)
qed

lemma pick_frame_stack:
  assumes ok: "windows_ok s" and inv: "stack_inv s (f # stack)" and dist: "distinct (f # stack)"
    and man: "\<forall>x \<in> set (f # stack). managed s x"
  shows "\<exists>s'. pick_frame s = Inr (f, s') \<and> windows_ok s' \<and> stack_inv s' stack \<and>
    window_tables s' = window_tables s \<and> window_cell s' = window_cell s \<and>
    (stack = [] \<longrightarrow> window_node s' = f) \<and>
    (\<exists>a v. s' = s\<lparr>phys := (phys s)(window_cell s := v),
       k_fa := (k_fa s)\<lparr>fa_current := a, fa_count := fa_count (k_fa s')\<rparr>\<rparr>)"
proof -
  let ?a = "k_fa s" and ?node = "window_node s"
  have fa: "fa_current_address ?a = FRAME_WINDOW" "fa_current_pte ?a = FRAME_WINDOW_PTE"
      "fa_current ?a = FRAME_WINDOW" "phys s (window_cell s) = ?node OR 3" "page_addr ?node"
      and ch: "chain (phys s) ?node (nat (fa_count ?a)) (f # stack)" and c: "0 \<le> fa_count ?a"
    using inv by (auto simp: stack_inv_def)
  have same: "s = s\<lparr>phys := (phys s)(window_cell s := phys s (window_cell s))\<rparr>" by simp
  have win: "window_inv s" by (rule stack_inv_window [OF ok inv])
  show ?thesis
  proof (cases "fa_count ?a = 1")
    case False
    then have c2: "2 \<le> fa_count ?a" "nat (fa_count ?a) \<le> 512" and f: "f = phys s (?node + 8 * of_nat (nat (fa_count ?a) - 1))"
        and ch': "chain (phys s) ?node (nat (fa_count ?a) - 1) stack" and nz: "?node \<noteq> 0"
      using ch c by (auto split: if_splits)
    let ?s = "s\<lparr>k_fa := ?a\<lparr>fa_count := fa_count ?a - 1\<rparr>\<rparr>"
    have run: "pick_frame s = Inr (f, ?s)"
      using pick_frame_slot [OF win fa(3)] c2 by (simp add: f)
    have ne: "stack \<noteq> []" using ch' nz by auto
    have "nat (fa_count ?a - 1) = nat (fa_count ?a) - 1" by simp
    then have "stack_inv ?s stack" using fa ch' c2 ne by (simp add: stack_inv_def)
    then show ?thesis using run ok ne same
      by (intro exI [of _ ?s] conjI exI [of _ FRAME_WINDOW] exI [of _ "phys s (window_cell s)"]) (simp_all add: fa(3) [symmetric])
  next
    case True
    let ?next = "phys s ?node"
    have f: "f = ?node" and ch': "chain (phys s) ?next (if ?next = 0 then 0 else 512) stack"
      using ch True by auto
    show ?thesis
    proof (cases "?next = 0")
      case nz: True
      let ?s = "s\<lparr>k_fa := ?a\<lparr>fa_current := 0, fa_count := 0\<rparr>\<rparr>"
      have nil: "stack = []" using ch' nz by (cases stack) auto
      have run: "pick_frame s = Inr (f, ?s)" using pick_frame_last [OF win fa(3) True nz] by (simp add: f)
      have "stack_inv ?s []" using fa by (simp add: stack_inv_def)
      then show ?thesis using run ok nil same f
        by (intro exI [of _ ?s] conjI exI [of _ 0] exI [of _ "phys s (window_cell s)"]) simp_all
    next
      case nz: False
      let ?m = "(phys s)(window_cell s := ?next OR 3)"
      let ?s = "s\<lparr>phys := ?m, k_fa := ?a\<lparr>fa_current := FRAME_WINDOW, fa_count := 512\<rparr>\<rparr>"
      let ?sn = "s\<lparr>phys := ?m\<rparr>"
      have ne: "stack \<noteq> []" using ch' nz by (cases stack) auto
      then have mem: "?next \<in> set stack" using chain_node_in [OF ch'] by simp
      then have next_ok: "page_addr ?next" using man by (auto simp: managed_def)
      have run: "pick_frame s = Inr (f, ?s)" using pick_frame_node [OF win fa(3) True nz] by (simp add: f)
      have ok': "windows_ok ?sn" "window_cell ?sn = window_cell s" by (rule window_store [OF ok])+
      have "phys ?sn (window_cell ?sn) = ?next OR 3" unfolding ok'(2) by simp
      then have node: "window_node ?sn = ?next" by (rule window_node_eq [OF _ next_ok])
      have "chain ?m ?next 512 stack"
      proof (rule chain_stable [of "phys s"])
        show "chain (phys s) ?next 512 stack" using ch' nz by simp
        show "distinct stack" "\<forall>x \<in> set stack. page_addr x" using dist man by (auto simp: managed_def)
        show "?m (?next + 8 * of_nat j) = phys s (?next + 8 * of_nat j)" if "j < 512" for j
          using man mem slot_in_frame [OF next_ok that] by (auto simp: managed_def)
        show "?m p = phys s p" if "x \<in> set stack" "in_frame x p" for x p
          using man that by (auto simp: managed_def)
      qed
      then have "stack_inv ?s stack"
        using fa ne nz next_ok node ok'(2) window_store [OF ok] by (simp add: stack_inv_def)
      moreover have "window_tables ?sn = window_tables s"
        by (rule windows_cells_stable(2)) (use ok in \<open>auto simp: windows_ok_def\<close>)
      ultimately show ?thesis using run ok' ne
        by (intro exI [of _ ?s] conjI exI [of _ FRAME_WINDOW] exI [of _ "?next OR 3"]) simp_all
    qed
  qed
qed

section \<open>The fresh frames\<close>

definition pages :: "u64 \<Rightarrow> u64 \<Rightarrow> u64 list" where
  "pages b e = map (\<lambda>i. b + 4096 * of_nat i) [0..<(unat e - unat b) div 4096]"

text \<open>The frames from \<open>b\<close> to the end of area \<open>pos\<close>, then those of the areas after it.\<close>

definition fresh_frames :: "memory_map \<Rightarrow> u64 \<Rightarrow> nat \<Rightarrow> u64 list" where
  "fresh_frames m b pos = pages b (area_end (mm_area m ! pos)) @
     concat (map (\<lambda>i. pages (area_begin (mm_area m ! i)) (area_end (mm_area m ! i))) [pos + 1..<mm_count m])"

definition position_ok :: "memory_map \<Rightarrow> u64 \<Rightarrow> nat \<Rightarrow> bool" where
  "position_ok m b pos \<longleftrightarrow> mem_map_clean m \<and> pos < mm_count m \<and> 4096 dvd unat b \<and> b \<le> area_end (mm_area m ! pos)"

definition fresh_inv :: "kernel \<Rightarrow> u64 list \<Rightarrow> bool" where
  "fresh_inv s fresh \<longleftrightarrow> position_ok (k_mem_map s) (fa_begin (k_fa s)) (fa_map_position (k_fa s)) \<and>
     fresh = fresh_frames (k_mem_map s) (fa_begin (k_fa s)) (fa_map_position (k_fa s))"

lemma next_page:
  fixes b e :: u64
  assumes "4096 dvd unat b" "4096 dvd unat e" "b < e"
  shows "unat (b + 4096) = unat b + 4096" "unat b + 4096 \<le> unat e" "b + 4096 \<le> e" "4096 dvd unat (b + 4096)"
proof -
  obtain q r where q: "unat b = 4096 * q" and r: "unat e = 4096 * r" using assms(1,2) by (auto elim!: dvdE)
  have "q < r" using assms(3) by (simp add: word_less_nat_alt q r)
  then show le: "unat b + 4096 \<le> unat e" by (simp add: q r)
  then have "unat b + unat (4096 :: u64) < 18446744073709551616" using unat_less_u64 [of e] by simp
  then show sum: "unat (b + 4096) = unat b + 4096" by (simp add: unat_add_u64)
  then show "b + 4096 \<le> e" using le by (simp add: word_le_nat_alt)
  show "4096 dvd unat (b + 4096)" using assms(1) by (simp add: sum)
qed

lemma pages_Cons:
  assumes "4096 dvd unat b" "4096 dvd unat e" "b < e"
  shows "pages b e = b # pages (b + 4096) e"
proof -
  note np = next_page [OF assms]
  have "(unat e - unat b) div 4096 = Suc ((unat e - unat (b + 4096)) div 4096)"
  proof -
    have "unat e - unat b = 4096 + (unat e - unat (b + 4096))" using np by simp
    then show ?thesis by simp
  qed
  then show ?thesis
    by (simp add: pages_def upt_conv_Cons map_Suc_upt [symmetric] algebra_simps del: upt_Suc)
qed

lemma pages_empty: "e \<le> b \<Longrightarrow> pages b e = []"
  by (simp add: pages_def word_le_nat_alt)

lemma mem_map_clean_area:
  assumes "mem_map_clean m" "i < mm_count m"
  shows "area_begin (mm_area m ! i) < area_end (mm_area m ! i)"
    "4096 dvd unat (area_begin (mm_area m ! i))" "4096 dvd unat (area_end (mm_area m ! i))" "i < length (mm_area m)"
  using assms by (auto simp: mem_map_clean_def)

text \<open>At the end of an area the fresh frames are those of the next one.\<close>

lemma fresh_frames_skip:
  assumes "position_ok m b pos" "b = area_end (mm_area m ! pos)" "fresh_frames m b pos \<noteq> []"
  shows "position_ok m (area_begin (mm_area m ! Suc pos)) (Suc pos)"
    "fresh_frames m b pos = fresh_frames m (area_begin (mm_area m ! Suc pos)) (Suc pos)"
    "area_begin (mm_area m ! Suc pos) < area_end (mm_area m ! Suc pos)"
proof -
  have clean: "mem_map_clean m" using assms(1) by (simp add: position_ok_def)
  have pos: "Suc pos < mm_count m"
  proof (rule ccontr)
    assume "\<not> Suc pos < mm_count m"
    then show False using assms(2,3) by (simp add: fresh_frames_def pages_empty)
  qed
  note ar = mem_map_clean_area [OF clean pos]
  show "area_begin (mm_area m ! Suc pos) < area_end (mm_area m ! Suc pos)" by (rule ar(1))
  then show "position_ok m (area_begin (mm_area m ! Suc pos)) (Suc pos)"
    using clean pos ar by (simp add: position_ok_def)
  have "[pos + 1..<mm_count m] = Suc pos # [Suc pos + 1..<mm_count m]" using pos by (simp add: upt_conv_Cons)
  then show "fresh_frames m b pos = fresh_frames m (area_begin (mm_area m ! Suc pos)) (Suc pos)"
    using assms(2) by (simp add: fresh_frames_def pages_empty)
qed

lemma fresh_frames_step:
  assumes "position_ok m b pos" "b < area_end (mm_area m ! pos)"
  shows "position_ok m (b + 4096) pos" "fresh_frames m b pos = b # fresh_frames m (b + 4096) pos"
proof -
  have b: "4096 dvd unat b" and e: "4096 dvd unat (area_end (mm_area m ! pos))"
    using assms(1) mem_map_clean_area by (auto simp: position_ok_def)
  show "position_ok m (b + 4096) pos" "fresh_frames m b pos = b # fresh_frames m (b + 4096) pos"
    using assms(1) next_page [OF b e assms(2)]
    by (simp_all add: position_ok_def fresh_frames_def pages_Cons [OF b e assms(2)])
qed

lemma extend_fresh:
  assumes "fresh_inv s (f # fresh)"
  shows "\<exists>b pos. extend s = Inr (f, s\<lparr>k_fa := (k_fa s)\<lparr>fa_begin := b, fa_map_position := pos\<rparr>\<rparr>) \<and>
    fresh_inv (s\<lparr>k_fa := (k_fa s)\<lparr>fa_begin := b, fa_map_position := pos\<rparr>\<rparr>) fresh"
proof -
  let ?m = "k_mem_map s" and ?b = "fa_begin (k_fa s)" and ?pos = "fa_map_position (k_fa s)"
  have pos: "position_ok ?m ?b ?pos" and fr: "fresh_frames ?m ?b ?pos = f # fresh"
    using assms by (simp_all add: fresh_inv_def)
  have here: "?pos < length (mm_area ?m)" using pos mem_map_clean_area(4) by (auto simp: position_ok_def)
  show ?thesis
  proof (cases "?b = area_end (mm_area ?m ! ?pos)")
    case True
    let ?nb = "area_begin (mm_area ?m ! Suc ?pos)"
    note skip = fresh_frames_skip [OF pos True, unfolded fr, simplified]
    note step = fresh_frames_step [OF skip(1,3)]
    have "Suc ?pos < length (mm_area ?m)" using skip(1) mem_map_clean_area(4) by (auto simp: position_ok_def)
    then show ?thesis using here True skip(2) step
      by (intro exI [of _ "?nb + 4096"] exI [of _ "Suc ?pos"])
        (simp add: extend_def bindS_apply thenS_apply area_at_def modify_fa_def fresh_inv_def)
  next
    case False
    then have less: "?b < area_end (mm_area ?m ! ?pos)" using pos by (auto simp: position_ok_def)
    show ?thesis using here False fr fresh_frames_step [OF pos less]
      by (intro exI [of _ "?b + 4096"] exI [of _ ?pos])
        (auto simp: extend_def bindS_apply thenS_apply area_at_def modify_fa_def fresh_inv_def)
  qed
qed

section \<open>The invariant of the allocator\<close>

text \<open>
  The stack of freed frames, the fresh frames and the frames in use are distinct and managed, the free
  counter counts the first two, and the recorded size has room for all three.
\<close>

definition owner_inv :: "kernel \<Rightarrow> u64 list \<Rightarrow> u64 list \<Rightarrow> u64 set \<Rightarrow> bool" where
  "owner_inv s stack fresh used \<longleftrightarrow>
     distinct (stack @ fresh) \<and> finite used \<and> set (stack @ fresh) \<inter> used = {} \<and>
     (\<forall>f \<in> set (stack @ fresh) \<union> used. managed s f) \<and>
     unat (fa_free (k_fa s)) = 4096 * length (stack @ fresh) \<and>
     4096 * (length (stack @ fresh) + card used) \<le> unat (fa_size (k_fa s))"

definition frames_inv :: "kernel \<Rightarrow> u64 list \<Rightarrow> u64 list \<Rightarrow> u64 set \<Rightarrow> bool" where
  "frames_inv s stack fresh used \<longleftrightarrow> windows_ok s \<and> stack_inv s stack \<and> fresh_inv s fresh \<and>
     owner_inv s stack fresh used"

text \<open>What an operation may touch: the allocator record, the two window entries and the cells of one frame.\<close>

definition only_frame :: "u64 \<Rightarrow> kernel \<Rightarrow> kernel \<Rightarrow> bool" where
  "only_frame f s s' \<longleftrightarrow> s' = s\<lparr>phys := phys s', k_fa := k_fa s'\<rparr> \<and>
     (\<forall>p. \<not> in_frame f p \<longrightarrow> p \<noteq> window_cell s \<longrightarrow> p \<noteq> zero_cell s \<longrightarrow> phys s' p = phys s p)"

lemma only_frame_windows:
  assumes "only_frame f s s'" "windows_ok s" "managed s f"
  shows "windows_ok s'" "window_tables s' = window_tables s" "window_cell s' = window_cell s"
    "zero_cell s' = zero_cell s" "managed s' = managed s"
proof -
  have cr: "cr3 s' = cr3 s" using assms(1) unfolding only_frame_def by (metis kernel.select_convs(2) kernel.surjective kernel.update_convs(1) kernel.update_convs(4))
  have agree: "same_entry (phys s' p) (phys s p)" if "p \<in> window_tables s" for p
  proof -
    have "p \<noteq> window_cell s" "p \<noteq> zero_cell s" "\<not> in_frame f p"
      using assms(2,3) that by (auto simp: windows_ok_def managed_def)
    then have "phys s' p = phys s p" using assms(1) by (simp add: only_frame_def)
    then show ?thesis by simp
  qed
  show "windows_ok s'" by (rule windows_ok_stable [OF assms(2) cr agree])
  show "window_tables s' = window_tables s" "window_cell s' = window_cell s" "zero_cell s' = zero_cell s"
    using windows_cells_stable(2-4) [OF cr agree] by auto
  then show "managed s' = managed s" by (simp add: fun_eq_iff managed_def)
qed

lemma pick_frame_fresh:
  assumes "stack_inv s []" "fresh_inv s (f # fresh)"
  shows "\<exists>b pos. pick_frame s = Inr (f, s\<lparr>k_fa := (k_fa s)\<lparr>fa_begin := b, fa_map_position := pos\<rparr>\<rparr>) \<and>
    fresh_inv (s\<lparr>k_fa := (k_fa s)\<lparr>fa_begin := b, fa_map_position := pos\<rparr>\<rparr>) fresh"
proof -
  have "fa_count (k_fa s) = 0" using assms(1) by (simp add: stack_inv_def)
  then have "pick_frame s = extend s" by (simp add: pick_frame_def bindS_apply)
  then show ?thesis using extend_fresh [OF assms(2)] by simp
qed

lemma stack_inv_fa:
  "fa_current_address a = fa_current_address (k_fa s) \<Longrightarrow> fa_current_pte a = fa_current_pte (k_fa s) \<Longrightarrow>
   fa_current a = fa_current (k_fa s) \<Longrightarrow> fa_count a = fa_count (k_fa s) \<Longrightarrow>
   stack_inv (s\<lparr>k_fa := a\<rparr>) stack = stack_inv s stack"
  by (simp add: stack_inv_def)

lemma fresh_inv_fa:
  "fa_begin a = fa_begin (k_fa s) \<Longrightarrow> fa_map_position a = fa_map_position (k_fa s) \<Longrightarrow>
   fresh_inv (s\<lparr>k_fa := a\<rparr>) fresh = fresh_inv s fresh"
  by (simp add: fresh_inv_def)

text \<open>The state after the choice of the frame, whichever branch chose it.\<close>

lemma pick_frame_any:
  assumes "frames_inv s stack fresh used" "stack @ fresh = f # rest"
  shows "\<exists>s'. pick_frame s = Inr (f, s') \<and> windows_ok s' \<and> stack_inv s' (tl stack) \<and>
    fresh_inv s' (if stack = [] then tl fresh else fresh) \<and>
    window_tables s' = window_tables s \<and> window_cell s' = window_cell s \<and>
    (stack = [f] \<longrightarrow> window_node s' = f) \<and>
    (stack = [] \<longrightarrow> window_node s' = window_node s) \<and>
    fa_free (k_fa s') = fa_free (k_fa s) \<and> fa_size (k_fa s') = fa_size (k_fa s) \<and>
    s' = s\<lparr>phys := phys s', k_fa := k_fa s'\<rparr> \<and> (\<forall>p. p \<noteq> window_cell s \<longrightarrow> phys s' p = phys s p)"
proof (cases stack)
  case Nil
  with assms have "stack_inv s []" "fresh_inv s (f # tl fresh)" "windows_ok s" by (auto simp: frames_inv_def)
  with pick_frame_fresh [of s f "tl fresh"] show ?thesis using Nil
    by (auto simp: stack_inv_fa)
next
  case (Cons g st)
  with assms have g: "g = f" and inv: "stack_inv s (f # st)" and fr: "fresh_inv s fresh"
      and ok: "windows_ok s" "distinct (f # st)" "\<forall>x \<in> set (f # st). managed s x"
    by (auto simp: frames_inv_def owner_inv_def)
  obtain s' a v where s': "pick_frame s = Inr (f, s')" "windows_ok s'" "stack_inv s' st"
      "window_tables s' = window_tables s" "window_cell s' = window_cell s" "st = [] \<longrightarrow> window_node s' = f"
      "s' = s\<lparr>phys := (phys s)(window_cell s := v), k_fa := (k_fa s)\<lparr>fa_current := a, fa_count := fa_count (k_fa s')\<rparr>\<rparr>"
    using pick_frame_stack [OF ok(1) inv ok(2,3)] by blast
  define c where "c = fa_count (k_fa s')"
  have s'_eq: "s' = s\<lparr>phys := (phys s)(window_cell s := v), k_fa := (k_fa s)\<lparr>fa_current := a, fa_count := c\<rparr>\<rparr>"
    unfolding c_def by (rule s'(7))
  have fields: "fa_free (k_fa s') = fa_free (k_fa s)" "fa_size (k_fa s') = fa_size (k_fa s)"
      "s' = s\<lparr>phys := phys s', k_fa := k_fa s'\<rparr>" "fresh_inv s' fresh"
      "\<forall>p. p \<noteq> window_cell s \<longrightarrow> phys s' p = phys s p"
    using fr by (simp_all add: s'_eq fresh_inv_def)
  show ?thesis using s'(1-6) fields Cons g by (intro exI [of _ s']) auto
qed

lemma managed_disjoint: "managed s f \<Longrightarrow> managed s g \<Longrightarrow> f \<noteq> g \<Longrightarrow> in_frame f p \<Longrightarrow> \<not> in_frame g p"
  by (auto simp: in_frame_def)

lemma window_zero_cells: "window_cell s \<noteq> zero_cell s"
  by (simp add: zero_cell_eq)

text \<open>Clearing a managed frame that is not on the stack keeps the stack.\<close>

lemma zero_frame_keeps:
  assumes "windows_ok s" "stack_inv s stack" "distinct stack" "\<forall>x \<in> set (f # stack). managed s x" "f \<notin> set stack"
  shows "\<exists>s'. zero_frame f s = Inr ((), s') \<and> windows_ok s' \<and> stack_inv s' stack \<and> window_node s' = window_node s \<and>
    only_frame f s s' \<and> k_fa s' = k_fa s \<and> (\<forall>p. in_frame f p \<longrightarrow> phys s' p = 0) \<and> phys s' (zero_cell s) = f OR 3"
proof -
  let ?s' = "s\<lparr>phys := clear_frame f ((phys s)(zero_cell s := f OR 3))\<rparr>"
  have f: "page_addr f" and fm: "managed s f" using assms(4) by (auto simp: managed_def)
  have zc: "zero_cell s \<notin> window_tables s" using assms(1) by (simp add: windows_ok_def)
  have only: "only_frame f s ?s'" using fm by (auto simp: only_frame_def clear_frame_def)
  have tab: "same_entry (phys ?s' p) (phys s p)" if "p \<in> window_tables s" for p
    using that fm zc by (auto simp: clear_frame_def managed_def)
  have cell: "phys ?s' (window_cell s) = phys s (window_cell s)"
    using fm window_zero_cells by (simp add: clear_frame_def managed_def)
  have fr: "phys ?s' p = phys s p" if "x \<in> set stack" "in_frame x p" for x p
  proof -
    have "managed s x" "x \<noteq> f" using assms(4,5) that(1) by auto
    then show ?thesis using that(2) fm managed_disjoint [of s x f p] by (auto simp: clear_frame_def managed_def)
  qed
  have addrs: "\<forall>x \<in> set stack. page_addr x" using assms(4) by (auto simp: managed_def)
  have "stack_inv ?s' stack" "window_node ?s' = window_node s"
    using stack_inv_stable [OF assms(1-3) addrs, of ?s'] tab cell fr by simp_all
  moreover have "phys ?s' (zero_cell s) = f OR 3" using fm by (simp add: clear_frame_def managed_def)
  ultimately show ?thesis
    using zero_frame_eq [OF assms(1) f] only only_frame_windows(1) [OF only assms(1) fm]
    by (intro exI [of _ ?s']) (simp add: clear_frame_def)
qed

lemma frames_inv_distinct:
  assumes "frames_inv s stack fresh used" "stack @ fresh = f # rest"
  shows "f \<notin> used" "f \<notin> set rest" "managed s f" "f \<noteq> 0" "f \<noteq> - 1" "fa_free (k_fa s) \<noteq> 0"
    "unat (fa_free (k_fa s) - PAGE_SIZE) = 4096 * length rest" "distinct rest" "set rest \<inter> used = {}"
    "\<forall>x \<in> set rest. managed s x"
proof -
  have own: "owner_inv s stack fresh used" using assms(1) by (simp add: frames_inv_def)
  show "f \<notin> used" "f \<notin> set rest" "distinct rest" "set rest \<inter> used = {}" "\<forall>x \<in> set rest. managed s x"
    using own by (auto simp: owner_inv_def assms(2))
  show m: "managed s f" using own by (auto simp: owner_inv_def assms(2))
  then show "f \<noteq> 0" by (simp add: managed_def)
  have "page_addr f" using m by (simp add: managed_def)
  then show "f \<noteq> - 1" by (auto simp: page_addr_def PHYS_ADDR_MASK_def)
  have n: "unat (fa_free (k_fa s)) = 4096 * Suc (length rest)" using own by (simp add: owner_inv_def assms(2))
  then show nz: "fa_free (k_fa s) \<noteq> 0" by auto
  have "PAGE_SIZE \<le> fa_free (k_fa s)" using n by (simp add: word_le_nat_alt PAGE_SIZE_def)
  then show "unat (fa_free (k_fa s) - PAGE_SIZE) = 4096 * length rest"
    using n by (simp add: unat_sub_u64 PAGE_SIZE_def)
qed

lemma alloc_frame_some:
  assumes inv: "frames_inv s stack fresh used" and fs: "stack @ fresh = f # rest"
  shows "\<exists>s'. alloc_frame s = Inr (f, s') \<and>
    frames_inv s' (tl stack) (if stack = [] then tl fresh else fresh) (insert f used) \<and>
    only_frame f s s' \<and> (\<forall>p. in_frame f p \<longrightarrow> phys s' p = 0) \<and>
    (stack = [f] \<longrightarrow> window_node s' = f) \<and> (stack = [] \<longrightarrow> window_node s' = window_node s) \<and> phys s' (zero_cell s) = f OR 3"
proof -
  note facts = frames_inv_distinct [OF inv fs]
  let ?st = "tl stack" and ?fr = "if stack = [] then tl fresh else fresh"
  have rest: "rest = ?st @ ?fr" using fs by (cases stack) auto
  have ok: "windows_ok s" using inv by (simp add: frames_inv_def)
  obtain s1 where s1: "pick_frame s = Inr (f, s1)" "windows_ok s1" "stack_inv s1 ?st" "fresh_inv s1 ?fr"
      "window_tables s1 = window_tables s" "window_cell s1 = window_cell s"
      "stack = [f] \<longrightarrow> window_node s1 = f" "stack = [] \<longrightarrow> window_node s1 = window_node s"
      "fa_free (k_fa s1) = fa_free (k_fa s)" "fa_size (k_fa s1) = fa_size (k_fa s)"
      "s1 = s\<lparr>phys := phys s1, k_fa := k_fa s1\<rparr>" "\<forall>p. p \<noteq> window_cell s \<longrightarrow> phys s1 p = phys s p"
    using pick_frame_any [OF inv fs] by blast
  define s2 where "s2 = s1\<lparr>k_fa := (k_fa s1)\<lparr>fa_free := fa_free (k_fa s1) - PAGE_SIZE\<rparr>\<rparr>"
  have zc1: "zero_cell s1 = zero_cell s" by (simp add: zero_cell_eq s1(6))
  have man: "managed s2 = managed s" by (simp add: s2_def fun_eq_iff managed_def s1(5,6) zc1)
  have ok2: "windows_ok s2" "stack_inv s2 ?st" "fresh_inv s2 ?fr"
    using s1(2-4) by (simp_all add: s2_def stack_inv_fa fresh_inv_fa)
  have st: "distinct ?st" "\<forall>x \<in> set (f # ?st). managed s2 x" "f \<notin> set ?st"
    using facts(2,3,8,10) by (auto simp: rest man)
  obtain s3 where s3: "zero_frame f s2 = Inr ((), s3)" "windows_ok s3" "stack_inv s3 ?st"
      "window_node s3 = window_node s2" "only_frame f s2 s3" "k_fa s3 = k_fa s2" "\<forall>p. in_frame f p \<longrightarrow> phys s3 p = 0"
      "phys s3 (zero_cell s2) = f OR 3"
    using zero_frame_keeps [OF ok2(1,2) st] by blast
  have "zero_cell s2 = zero_cell s1" by (simp add: s2_def zero_cell_eq)
  then have zero: "phys s3 (zero_cell s) = f OR 3" using s3(8) zc1 by simp
  have s3_eq: "s3 = s\<lparr>phys := phys s3, k_fa := k_fa s3\<rparr>"
  proof -
    have "s3 = s2\<lparr>phys := phys s3, k_fa := k_fa s3\<rparr>" using s3(5) by (simp add: only_frame_def)
    also have "\<dots> = s1\<lparr>phys := phys s3, k_fa := k_fa s3\<rparr>" by (simp add: s2_def)
    also have "\<dots> = s\<lparr>phys := phys s3, k_fa := k_fa s3\<rparr>" by (subst s1(11)) simp
    finally show ?thesis .
  qed
  have only: "only_frame f s s3"
    using s3(5) s3_eq s1(12) by (auto simp: only_frame_def s2_def s1(6) zc1)
  have m3: "managed s3 = managed s" by (rule only_frame_windows(5) [OF only ok facts(3)])
  have mm: "k_mem_map s3 = k_mem_map s2"
    by (subst s3_eq) (simp add: s2_def, subst s1(11), simp)
  have fr3: "fresh_inv s3 ?fr" using ok2(3) s3(6) mm by (simp add: fresh_inv_def)
  have own: "owner_inv s stack fresh used" using inv by (simp add: frames_inv_def)
  have len: "length (stack @ fresh) = Suc (length rest)" by (simp add: fs)
  have "owner_inv s3 ?st ?fr (insert f used)"
    unfolding owner_inv_def rest [symmetric] m3
    using own facts len s1(9,10) by (simp add: owner_inv_def s3(6) s2_def fs)
  then have "frames_inv s3 ?st ?fr (insert f used)" using s3(2,3) fr3 by (simp add: frames_inv_def)
  moreover have "alloc_frame s = Inr (f, s3)"
    using facts(5,6) s1(1) s3(1) by (simp add: alloc_frame_def bindS_apply thenS_apply modify_fa_def s2_def)
  moreover have "window_node s2 = window_node s1" by (simp add: s2_def)
  ultimately show ?thesis using only s3(4,7) s1(7,8) zero by (intro exI [of _ s3]) simp
qed

section \<open>Giving a frame back\<close>

text \<open>A frame becomes a node of its own when there is no node or the top one is full.\<close>

lemma push_frame_new:
  assumes "window_inv s" "f \<noteq> 0" "page_addr f" "fa_count (k_fa s) = 0 \<or> fa_count (k_fa s) = 512"
  shows "push_frame f s = Inr ((), s\<lparr>phys := (phys s)(window_cell s := f OR 3, f := window_node s),
      k_fa := (k_fa s)\<lparr>fa_current := FRAME_WINDOW, fa_count := 1\<rparr>\<rparr>)"
proof -
  have ok: "windows_ok s" using assms(1) by (simp add: window_inv_def)
  define sn where "sn = s\<lparr>phys := (phys s)(window_cell s := f OR 3)\<rparr>"
  define sc where "sc = sn\<lparr>k_fa := (k_fa sn)\<lparr>fa_current := FRAME_WINDOW\<rparr>\<rparr>"
  have map: "map_node f s = Inr (FRAME_WINDOW, sn)"
    unfolding sn_def by (rule map_node_eq [where g = "window_node s"]) (use assms in \<open>auto simp: window_inv_def\<close>)
  have ok_n: "windows_ok sn" "window_cell sn = window_cell s" unfolding sn_def by (rule window_store [OF ok])+
  have "phys sc (window_cell sc) = f OR 3" using ok_n(2) by (simp add: sc_def) (simp add: sn_def)
  moreover have "windows_ok sc" using ok_n by (simp add: sc_def)
  ultimately have "vstore (FRAME_WINDOW + 0) (window_node s) sc = Inr ((), sc\<lparr>phys := (phys sc)(f + 0 := window_node s)\<rparr>)"
    by (intro window_access(2) assms(3)) auto
  then show ?thesis
    using assms(4) by (simp add: push_frame_def bindS_apply thenS_apply current_node_eq [OF assms(1)] map
        modify_fa_def node_next_def sc_def [symmetric]) (simp add: sc_def sn_def)
qed

lemma push_frame_node:
  assumes ok: "windows_ok s" and inv: "stack_inv s stack" and dist: "distinct (f # stack)"
    and man: "\<forall>x \<in> set (f # stack). managed s x"
    and full: "fa_count (k_fa s) = 0 \<or> fa_count (k_fa s) = 512" and clean: "stack = [] \<Longrightarrow> clean_window s"
  shows "push_frame f s = Inr ((), s\<lparr>phys := (phys s)(window_cell s := f OR 3, f := window_node s),
      k_fa := (k_fa s)\<lparr>fa_current := FRAME_WINDOW, fa_count := 1\<rparr>\<rparr>)"
    "stack_inv (s\<lparr>phys := (phys s)(window_cell s := f OR 3, f := window_node s),
      k_fa := (k_fa s)\<lparr>fa_current := FRAME_WINDOW, fa_count := 1\<rparr>\<rparr>) (f # stack)"
proof -
  let ?a = "k_fa s" and ?node = "window_node s" and ?m = "(phys s)(window_cell s := f OR 3)"
  let ?m' = "?m(f := ?node)"
  have fa: "fa_current_address ?a = FRAME_WINDOW" "fa_current_pte ?a = FRAME_WINDOW_PTE"
      "phys s (window_cell s) = ?node OR 3" "page_addr ?node"
      and ch: "chain (phys s) (if stack = [] then 0 else ?node) (nat (fa_count ?a)) stack"
    using inv by (auto simp: stack_inv_def)
  have f: "f \<noteq> 0" "page_addr f" "\<not> in_frame f (window_cell s)" "\<forall>p \<in> window_tables s. \<not> in_frame f p"
    using man by (auto simp: managed_def)
  have f_in: "in_frame f f" using slot_in_frame [OF f(2), of 0] by simp
  show "push_frame f s = Inr ((), s\<lparr>phys := ?m', k_fa := ?a\<lparr>fa_current := FRAME_WINDOW, fa_count := 1\<rparr>\<rparr>)"
    by (rule push_frame_new [OF stack_inv_window [OF ok inv] f(1,2) full])
  let ?s = "s\<lparr>phys := ?m', k_fa := ?a\<lparr>fa_current := FRAME_WINDOW, fa_count := 1\<rparr>\<rparr>"
  have tab: "same_entry (phys ?s p) (phys s p)" if "p \<in> window_tables s" for p
    using that ok f f_in by (auto simp: windows_ok_def)
  have cells: "window_cell ?s = window_cell s" using windows_cells_stable(3) [of ?s s] tab by simp
  have "f \<noteq> window_cell s" using f(3) f_in by auto
  then have "phys ?s (window_cell ?s) = f OR 3" unfolding cells by simp
  moreover from this have "window_node ?s = f" by (rule window_node_eq [OF _ f(2)])
  moreover have "chain ?m' f 1 (f # stack)"
  proof -
    have "chain ?m' ?node (if ?node = 0 then 0 else 512) stack"
    proof (cases "stack = []")
      case True
      then show ?thesis using clean by (simp add: clean_window_def)
    next
      case False
      then have "fa_count ?a = 512" using full ch by (cases stack) auto
      then have ch: "chain (phys s) ?node 512 stack" using ch False by simp
      then have mem: "?node \<in> set stack" using chain_node_in [OF ch] False by simp
      have agree: "?m' p = phys s p" if "x \<in> set stack" "in_frame x p" for x p
      proof -
        have "managed s x" "x \<noteq> f" using man dist that by auto
        then show ?thesis using that(2) f_in in_frame_unique [of x p f] by (auto simp: managed_def)
      qed
      have "chain ?m' ?node 512 stack"
        by (rule chain_stable [OF ch])
          (use dist man agree mem slot_in_frame [OF fa(4)] in \<open>auto simp: managed_def simp del: fun_upd_apply\<close>)
      moreover have "?node \<noteq> 0" using ch False by (cases stack) auto
      ultimately show ?thesis by simp
    qed
    then show ?thesis using f(1) by simp
  qed
  ultimately show "stack_inv ?s (f # stack)" using fa f by (simp add: stack_inv_def)
qed

lemma push_frame_slot:
  assumes ok: "windows_ok s" and inv: "stack_inv s stack" and dist: "distinct stack"
    and man: "\<forall>x \<in> set stack. managed s x"
    and room: "fa_count (k_fa s) \<noteq> 0" "fa_count (k_fa s) \<noteq> 512"
  shows "stack \<noteq> []" "0 < fa_count (k_fa s)" "fa_count (k_fa s) < 512"
    "push_frame f s = Inr ((), s\<lparr>phys := (phys s)(window_node s + 8 * of_nat (nat (fa_count (k_fa s))) := f),
      k_fa := (k_fa s)\<lparr>fa_count := fa_count (k_fa s) + 1\<rparr>\<rparr>)"
    "stack_inv (s\<lparr>phys := (phys s)(window_node s + 8 * of_nat (nat (fa_count (k_fa s))) := f),
      k_fa := (k_fa s)\<lparr>fa_count := fa_count (k_fa s) + 1\<rparr>\<rparr>) (f # stack)"
proof -
  let ?a = "k_fa s" and ?node = "window_node s" and ?c = "nat (fa_count (k_fa s))"
  let ?slot = "\<lambda>j. window_node s + 8 * of_nat j"
  let ?m = "(phys s)(?slot ?c := f)"
  let ?s = "s\<lparr>phys := ?m, k_fa := ?a\<lparr>fa_count := fa_count ?a + 1\<rparr>\<rparr>"
  have ch: "chain (phys s) (if stack = [] then 0 else ?node) ?c stack" and c0: "0 \<le> fa_count ?a"
    using inv by (auto simp: stack_inv_def)
  show ne: "stack \<noteq> []" using ch room(1) c0 by auto
  then have ch: "chain (phys s) ?node ?c stack" using ch by simp
  show c: "0 < fa_count ?a" "fa_count ?a < 512" using ch ne c0 room by (cases stack; auto)+
  then have c': "?c < 512" by simp
  have node: "?node \<in> set stack" "page_addr ?node" "?node \<noteq> 0"
    using chain_node_in [OF ch ne] man by (auto simp: managed_def)
  have in_node: "in_frame ?node (?slot ?c)" by (rule slot_in_frame [OF node(2) c'])
  have slots: "?slot j \<noteq> ?slot ?c" if "j < ?c" for j
    using slot_inj [of j ?c ?node] that c' by auto
  have store: "vstore (fa_current ?a + 8 * of_nat ?c) f s = Inr ((), s\<lparr>phys := ?m\<rparr>)"
    using node_access(2) [OF stack_inv_window [OF ok inv] _ c'] inv ne by (simp add: stack_inv_def)
  have "nat (fa_count ?a - 1 + 1) = ?c" by simp
  then show "push_frame f s = Inr ((), ?s)"
    using room c store by (simp add: push_frame_def bindS_apply thenS_apply modify_fa_def node_frame_slot)
  have out: "?slot ?c \<notin> window_tables s" "?slot ?c \<noteq> window_cell s"
    using man node(1) in_node by (auto simp: managed_def)
  have tab: "same_entry (phys ?s p) (phys s p)" if "p \<in> window_tables s" for p using that out by auto
  have cells: "window_cell ?s = window_cell s" using windows_cells_stable(3) [of ?s s] tab by simp
  have wn: "window_node ?s = ?node" by (rule window_node_cong [OF cells]) (use out(2) in auto)
  have "chain ?m ?node ?c stack"
  proof (rule chain_stable [OF ch dist])
    show "?m p = phys s p" if "x \<in> set stack" "x \<noteq> ?node" "in_frame x p" for x p
      using that in_node in_frame_unique [of x p ?node] by auto
  qed (use man slots in \<open>auto simp: managed_def\<close>)
  moreover have "nat (fa_count ?a + 1) = Suc ?c" using c by simp
  ultimately have "chain ?m ?node (nat (fa_count ?a + 1)) (f # stack)" using c node(3) by simp
  moreover have "phys ?s (window_cell ?s) = ?node OR 3" unfolding cells using inv out(2) by (auto simp: stack_inv_def)
  ultimately show "stack_inv ?s (f # stack)"
    by (intro stack_invI [where node = ?node] node(2)) (use inv ne in \<open>auto simp: stack_inv_def simp del: chain.simps\<close>)
qed

text \<open>What giving back \<open>f\<close> may touch: the allocator record, the window entry and cells of free frames.\<close>

definition only_stack :: "u64 list \<Rightarrow> kernel \<Rightarrow> kernel \<Rightarrow> bool" where
  "only_stack xs s s' \<longleftrightarrow> s' = s\<lparr>phys := phys s', k_fa := k_fa s'\<rparr> \<and>
     (\<forall>p. p \<noteq> window_cell s \<longrightarrow> (\<forall>x \<in> set xs. \<not> in_frame x p) \<longrightarrow> phys s' p = phys s p)"

lemma push_frame_any:
  assumes "windows_ok s" "stack_inv s stack" "distinct (f # stack)" "\<forall>x \<in> set (f # stack). managed s x"
    "stack = [] \<Longrightarrow> clean_window s"
  shows "\<exists>m a c. push_frame f s = Inr ((), s\<lparr>phys := m, k_fa := (k_fa s)\<lparr>fa_current := a, fa_count := c\<rparr>\<rparr>) \<and>
    stack_inv (s\<lparr>phys := m, k_fa := (k_fa s)\<lparr>fa_current := a, fa_count := c\<rparr>\<rparr>) (f # stack) \<and>
    (\<forall>p. p \<noteq> window_cell s \<longrightarrow> (\<forall>x \<in> set (f # stack). \<not> in_frame x p) \<longrightarrow> m p = phys s p)"
proof (cases "fa_count (k_fa s) = 0 \<or> fa_count (k_fa s) = 512")
  case True
  have "in_frame f f" using slot_in_frame [of f 0] assms(4) by (simp add: managed_def)
  then show ?thesis
    using push_frame_node [OF assms(1-4) True assms(5)]
    by (intro exI [of _ "(phys s)(window_cell s := f OR 3, f := window_node s)"] exI [of _ FRAME_WINDOW] exI [of _ 1]) auto
next
  case False
  have prems: "distinct stack" "\<forall>x \<in> set stack. managed s x" "fa_count (k_fa s) \<noteq> 0" "fa_count (k_fa s) \<noteq> 512"
    using assms(3,4) False by auto
  note push = push_frame_slot [OF assms(1,2) prems]
  let ?c = "nat (fa_count (k_fa s))"
  have "chain (phys s) (window_node s) ?c stack" using assms(2) push(1) by (simp add: stack_inv_def)
  then have node: "window_node s \<in> set stack" using chain_node_in push(1) by blast
  then have "in_frame (window_node s) (window_node s + 8 * of_nat ?c)"
    using push(3) assms(4) by (intro slot_in_frame) (auto simp: managed_def)
  then have "\<forall>p. p \<noteq> window_cell s \<longrightarrow> (\<forall>x \<in> set (f # stack). \<not> in_frame x p) \<longrightarrow>
      ((phys s)(window_node s + 8 * of_nat ?c := f)) p = phys s p"
    using node by auto
  then show ?thesis using push(4,5)
    by (intro exI [of _ "(phys s)(window_node s + 8 * of_nat ?c := f)"] exI [of _ "fa_current (k_fa s)"]
        exI [of _ "fa_count (k_fa s) + 1"]) simp
qed

lemma owner_room:
  assumes "owner_inv s stack fresh used" "f \<in> used"
  shows "unat (fa_free (k_fa s) + PAGE_SIZE) = 4096 * Suc (length (stack @ fresh))"
    "fa_free (k_fa s) + PAGE_SIZE \<le> fa_size (k_fa s)"
proof -
  let ?n = "length (stack @ fresh)"
  have free: "unat (fa_free (k_fa s)) = 4096 * ?n" and size: "4096 * (?n + card used) \<le> unat (fa_size (k_fa s))"
      and fin: "finite used"
    using assms(1) by (auto simp: owner_inv_def)
  have card: "card used = Suc (card (used - {f}))" using card_Suc_Diff1 [OF fin assms(2)] by simp
  have "unat (fa_free (k_fa s)) + unat PAGE_SIZE < 18446744073709551616"
    using size free card unat_less_u64 [of "fa_size (k_fa s)"] by (simp add: PAGE_SIZE_def)
  then show sum: "unat (fa_free (k_fa s) + PAGE_SIZE) = 4096 * Suc ?n"
    using free by (simp add: unat_add_u64 PAGE_SIZE_def)
  then show "fa_free (k_fa s) + PAGE_SIZE \<le> fa_size (k_fa s)"
    using size card by (simp add: word_le_nat_alt)
qed

lemma dealloc_frame_ok:
  assumes inv: "frames_inv s stack fresh used" and f: "f \<in> used" and clean: "stack = [] \<Longrightarrow> clean_window s"
  shows "\<exists>s'. dealloc_frame f s = Inr ((), s') \<and> frames_inv s' (f # stack) fresh (used - {f}) \<and>
    only_stack (f # stack) s s'"
proof -
  have ok: "windows_ok s" "stack_inv s stack" "fresh_inv s fresh" and own: "owner_inv s stack fresh used"
    using inv by (auto simp: frames_inv_def)
  have dist: "distinct (f # stack)" and man: "\<forall>x \<in> set (f # stack). managed s x"
    using own f by (auto simp: owner_inv_def)
  obtain m a c where run: "push_frame f s = Inr ((), s\<lparr>phys := m, k_fa := (k_fa s)\<lparr>fa_current := a, fa_count := c\<rparr>\<rparr>)"
      and st: "stack_inv (s\<lparr>phys := m, k_fa := (k_fa s)\<lparr>fa_current := a, fa_count := c\<rparr>\<rparr>) (f # stack)"
      and same: "\<forall>p. p \<noteq> window_cell s \<longrightarrow> (\<forall>x \<in> set (f # stack). \<not> in_frame x p) \<longrightarrow> m p = phys s p"
    using push_frame_any [OF ok(1,2) dist man clean] by blast
  define s1 where "s1 = s\<lparr>phys := m, k_fa := (k_fa s)\<lparr>fa_current := a, fa_count := c\<rparr>\<rparr>"
  define s2 where "s2 = s1\<lparr>k_fa := (k_fa s1)\<lparr>fa_free := fa_free (k_fa s1) + PAGE_SIZE\<rparr>\<rparr>"
  let ?n = "length (stack @ fresh)"
  have size: "4096 * (?n + card used) \<le> unat (fa_size (k_fa s))" and fin: "finite used"
    using own by (auto simp: owner_inv_def)
  have card: "card used = Suc (card (used - {f}))" using card_Suc_Diff1 [OF fin f] by simp
  note free2 = owner_room [OF own f]
  have "f mod 4096 = 0" using man page_addr_page [of f] by (simp add: managed_def mod_4096)
  then have "dealloc_frame f s = Inr ((), s2)"
    using run free2(2) by (simp add: dealloc_frame_def bindS_apply thenS_apply modify_fa_def s2_def s1_def)
  moreover have only: "only_stack (f # stack) s s2"
    using same by (simp add: only_stack_def s2_def s1_def)
  moreover have "frames_inv s2 (f # stack) fresh (used - {f})"
  proof -
    have tab: "same_entry (phys s1 p) (phys s p)" if "p \<in> window_tables s" for p
    proof -
      have "p \<noteq> window_cell s" using that ok(1) by (auto simp: windows_ok_def)
      moreover have "\<forall>x \<in> set (f # stack). \<not> in_frame x p" using that man unfolding managed_def by blast
      ultimately show ?thesis using same by (simp add: s1_def)
    qed
    have cr: "cr3 s1 = cr3 s" by (simp add: s1_def)
    have man1: "managed s2 = managed s"
      using windows_cells_stable(2-4) [OF cr tab] by (simp add: s2_def fun_eq_iff managed_def)
    have "windows_ok s2" using windows_ok_stable [OF ok(1) cr tab] by (simp add: s2_def)
    moreover have "stack_inv s2 (f # stack)" using st by (simp add: s2_def s1_def [symmetric] stack_inv_fa)
    moreover have "fresh_inv s2 fresh" using ok(3) by (simp add: s2_def s1_def fresh_inv_def)
    moreover have "owner_inv s2 (f # stack) fresh (used - {f})"
    proof -
      have "fa_free (k_fa s2) = fa_free (k_fa s) + PAGE_SIZE" "fa_size (k_fa s2) = fa_size (k_fa s)"
        by (simp_all add: s2_def s1_def)
      moreover have "distinct ((f # stack) @ fresh)" "set ((f # stack) @ fresh) \<inter> (used - {f}) = {}"
          "\<forall>x \<in> set ((f # stack) @ fresh) \<union> (used - {f}). managed s x"
        using own f by (auto simp: owner_inv_def)
      moreover have "length ((f # stack) @ fresh) = Suc ?n" by simp
      moreover have "4096 * (Suc ?n + card (used - {f})) \<le> unat (fa_size (k_fa s))" using size card by simp
      ultimately show ?thesis unfolding owner_inv_def man1 using fin free2(1) by (simp only: finite_Diff simp_thms)
    qed
    ultimately show ?thesis by (simp add: frames_inv_def)
  qed
  ultimately show ?thesis by blast
qed

section \<open>What the invariant does not depend on\<close>

text \<open>
  Memory outside the free frames and the window entry may change freely, and the tables on the way to the
  windows as far as the walk does not see it.
\<close>

lemma frames_inv_stable:
  assumes inv: "frames_inv s stack fresh used"
    and tab: "\<And>p. p \<in> window_tables s \<Longrightarrow> same_entry (m p) (phys s p)"
    and cell: "m (window_cell s) = phys s (window_cell s)"
    and free: "\<And>f p. f \<in> set stack \<Longrightarrow> in_frame f p \<Longrightarrow> m p = phys s p"
  shows "frames_inv (s\<lparr>phys := m\<rparr>) stack fresh used" "window_node (s\<lparr>phys := m\<rparr>) = window_node s"
    "window_cell (s\<lparr>phys := m\<rparr>) = window_cell s" "zero_cell (s\<lparr>phys := m\<rparr>) = zero_cell s"
    "window_tables (s\<lparr>phys := m\<rparr>) = window_tables s"
proof -
  let ?s = "s\<lparr>phys := m\<rparr>"
  have ok: "windows_ok s" "stack_inv s stack" and own: "owner_inv s stack fresh used"
    using inv by (auto simp: frames_inv_def)
  have agree: "cr3 ?s = cr3 s" "\<And>p. p \<in> window_tables s \<Longrightarrow> same_entry (phys ?s p) (phys s p)"
    using tab by auto
  note stable = windows_cells_stable(2-4) [OF agree]
  show "window_cell ?s = window_cell s" "zero_cell ?s = zero_cell s" "window_tables ?s = window_tables s"
    using stable by auto
  have "distinct stack" "\<forall>x \<in> set stack. page_addr x" using own by (auto simp: owner_inv_def managed_def)
  then have st: "stack_inv ?s stack" and node: "window_node ?s = window_node s"
    using stack_inv_stable [OF ok, of ?s] agree cell free by simp_all
  show "window_node ?s = window_node s" by (rule node)
  have "managed ?s = managed s" using stable by (simp add: fun_eq_iff managed_def)
  then have "owner_inv ?s stack fresh used" using own by (simp add: owner_inv_def)
  moreover have "fresh_inv ?s fresh" using inv by (simp add: frames_inv_def fresh_inv_def)
  ultimately show "frames_inv ?s stack fresh used"
    using windows_ok_stable [OF ok(1) agree] st by (simp add: frames_inv_def)
qed

end
