(* ===== verification/Frame_Init.thy ===== *)
theory Frame_Init imports Frame begin

text \<open>
  The initialisation of the frame allocator, \<open>alloc_init\<close> of \<open>mm/frame.c\<close>: it establishes the invariant
  with an empty stack and with exactly the usable pages of the memory map behind the kernel as fresh frames.
\<close>

section \<open>The fresh frames as a set\<close>


lemma unat_page: "i \<le> (unat e - unat b) div 4096 \<Longrightarrow> unat (b + 4096 * of_nat i :: u64) = unat b + 4096 * i"
  for b e :: u64
proof -
  assume "i \<le> (unat e - unat b) div 4096"
  then have le: "4096 * i \<le> unat e - unat b" using times_div_less_eq_dividend [of 4096 "unat e - unat b"] by simp
  have e: "unat e < 18446744073709551616" by (rule unat_less_u64)
  then have i4: "4096 * i < 18446744073709551616" using le by linarith
  have i: "unat (of_nat i :: u64) = i" by (rule unat_of_nat_u64) (use i4 in linarith)
  have m: "unat (4096 * of_nat i :: u64) = unat (4096 :: u64) * unat (of_nat i :: u64)"
    by (rule unat_mult_u64) (unfold i, use i4 in simp)
  have "unat b + 4096 * i < 18446744073709551616"
    using le e unat_less_u64 [of b] by (cases "i = 0") linarith+
  then have "unat (b + 4096 * of_nat i) = unat b + unat (4096 * of_nat i :: u64)"
    by (intro unat_add_u64) (simp only: m i, simp)
  then show ?thesis by (simp only: m i) simp
qed

lemma distinct_pages: "distinct (pages b e)"
proof -
  have "inj_on (\<lambda>i. b + 4096 * of_nat i) {0..<(unat e - unat b) div 4096}"
  proof (rule inj_onI)
    fix i j assume ij: "i \<in> {0..<(unat e - unat b) div 4096}" "j \<in> {0..<(unat e - unat b) div 4096}"
        and eq: "b + 4096 * of_nat i = b + 4096 * of_nat j"
    have "i \<le> (unat e - unat b) div 4096" "j \<le> (unat e - unat b) div 4096" using ij by (auto simp only: atLeastLessThan_iff intro: less_imp_le)
    then have "unat b + 4096 * i = unat b + 4096 * j" using eq unat_page by metis
    then show "i = j" by linarith
  qed
  then show ?thesis by (simp add: pages_def distinct_map)
qed

lemma set_pages:
  assumes "4096 dvd unat b"
  shows "set (pages b e) = {f. 4096 dvd unat f \<and> b \<le> f \<and> unat f + 4096 \<le> unat e}"
proof (intro set_eqI iffI)
  fix f assume "f \<in> set (pages b e)"
  then obtain i where i: "i < (unat e - unat b) div 4096" "f = b + 4096 * of_nat i" by (auto simp: pages_def)
  then have u: "unat f = unat b + 4096 * i" using unat_page [of i e b] by simp
  have "4096 * Suc i \<le> unat e - unat b"
    using i(1) times_div_less_eq_dividend [of 4096 "unat e - unat b"] mult_le_mono2 [of "Suc i" "(unat e - unat b) div 4096" 4096] by linarith
  then show "f \<in> {f. 4096 dvd unat f \<and> b \<le> f \<and> unat f + 4096 \<le> unat e}"
    using assms by (simp add: u word_le_nat_alt)
next
  fix f assume "f \<in> {f. 4096 dvd unat f \<and> b \<le> f \<and> unat f + 4096 \<le> unat e}"
  then have f: "4096 dvd unat f" "unat b \<le> unat f" "unat f + 4096 \<le> unat e" by (auto simp: word_le_nat_alt)
  obtain k where k: "unat f - unat b = 4096 * k" using f(1) assms by (metis dvd_diff_nat dvdE)
  have "4096 * Suc k \<le> unat e - unat b" using k f by simp
  then have "k < (unat e - unat b) div 4096" using div_le_mono [of "4096 * Suc k" "unat e - unat b" 4096] by simp
  moreover from this have "f = b + 4096 * of_nat k"
    using unat_page [of k e b] k f(2) by (simp add: word_unat_eq_iff)
  ultimately show "f \<in> set (pages b e)" by (auto simp: pages_def)
qed

lemma length_pages:
  assumes "4096 dvd unat b" "4096 dvd unat e" "b \<le> e"
  shows "4096 * length (pages b e) = unat e - unat b" "of_nat (4096 * length (pages b e)) = e - b"
proof -
  show l: "4096 * length (pages b e) = unat e - unat b"
    using assms(1,2) by (simp add: pages_def dvd_mult_div_cancel dvd_diff_nat)
  show "of_nat (4096 * length (pages b e)) = e - b"
    unfolding l using assms(3) by (simp add: unat_sub [symmetric])
qed

text \<open>The pages behind a position, as a set.\<close>

lemma set_fresh_frames:
  assumes "position_ok m b pos" "area_begin (mm_area m ! pos) \<le> b"
  shows "set (fresh_frames m b pos) = {f. b \<le> f \<and> unat f \<in> usable_pages m}"
proof -
  let ?a = "\<lambda>i. mm_area m ! i"
  have clean: "mem_map_clean m" and pos: "pos < mm_count m" and b: "4096 dvd unat b" using assms(1) by (auto simp: position_ok_def)
  note ar = mem_map_clean_area [OF clean]
  have below: "area_end (?a i) \<le> area_begin (?a j)" if "i < j" "j < mm_count m" for i j
    using clean that by (simp add: mem_map_clean_def)
  have pg: "set (pages (area_begin (?a i)) (area_end (?a i))) = {f. unat f \<in> area_pages (?a i)}" if "i < mm_count m" for i
    using set_pages [OF ar(2) [OF that]] by (auto simp: area_pages_def word_le_nat_alt)
  have after: "b \<le> f" if "unat f \<in> area_pages (?a i)" "pos < i" "i < mm_count m" for f i
    using that below [of pos i] assms(1) by (auto simp: area_pages_def position_ok_def word_le_nat_alt)
  have before: "unat f \<notin> area_pages (?a i)" if "b \<le> f" "i < pos" for f i
    using that below [of i pos] pos assms(2) by (auto simp: area_pages_def word_le_nat_alt)
  have here: "set (pages b (area_end (?a pos))) = {f. b \<le> f \<and> unat f \<in> area_pages (?a pos)}"
    using set_pages [OF b] assms(2) by (auto simp: area_pages_def word_le_nat_alt)
  have areas: "set (areas m) = ?a ` {..<mm_count m}"
    using clean by (simp add: areas_def set_take_nth mem_map_clean_def)
  show ?thesis
  proof (intro set_eqI iffI)
    fix f assume "f \<in> set (fresh_frames m b pos)"
    then consider "f \<in> set (pages b (area_end (?a pos)))" | i where "pos < i" "i < mm_count m" "unat f \<in> area_pages (?a i)"
      by (auto simp: fresh_frames_def pg Suc_le_eq)
    then show "f \<in> {f. b \<le> f \<and> unat f \<in> usable_pages m}"
      by cases (use here pos after areas in \<open>auto simp: usable_pages_def\<close>)
  next
    fix f assume "f \<in> {f. b \<le> f \<and> unat f \<in> usable_pages m}"
    then obtain i where i: "i < mm_count m" "unat f \<in> area_pages (?a i)" "b \<le> f" by (auto simp: usable_pages_def areas)
    then consider "i = pos" | "pos < i" using before by (metis linorder_neqE_nat)
    then show "f \<in> set (fresh_frames m b pos)"
    proof cases
      case 1
      then have "f \<in> set (pages b (area_end (?a pos)))" using here i by auto
      then show ?thesis by (simp add: fresh_frames_def)
    next
      case 2
      then have "f \<in> set (pages (area_begin (?a i)) (area_end (?a i)))" using pg i by auto
      then show ?thesis using 2 i(1) by (auto simp: fresh_frames_def)
    qed
  qed
qed

lemma distinct_concat_pages:
  assumes "mem_map_clean m" "n \<le> mm_count m"
  shows "distinct (concat (map (\<lambda>i. pages (area_begin (mm_area m ! i)) (area_end (mm_area m ! i))) [k..<n]))"
  using assms(2)
proof (induction n)
  case (Suc n)
  let ?a = "\<lambda>i. mm_area m ! i"
  note ar = mem_map_clean_area [OF assms(1)]
  show ?case
  proof (cases "k \<le> n")
    case True
    have "set (pages (area_begin (?a i)) (area_end (?a i))) \<inter> set (pages (area_begin (?a n)) (area_end (?a n))) = {}"
      if "i < n" for i
    proof -
      have "area_end (?a i) \<le> area_begin (?a n)" using assms(1) that Suc.prems by (simp add: mem_map_clean_def)
      then show ?thesis using that Suc.prems ar(2) [of i] ar(2) [of n] by (auto simp: set_pages word_le_nat_alt)
    qed
    then have "set (concat (map (\<lambda>i. pages (area_begin (?a i)) (area_end (?a i))) [k..<n])) \<inter>
        set (pages (area_begin (?a n)) (area_end (?a n))) = {}" by fastforce
    then show ?thesis using Suc True by (simp add: distinct_pages)
  qed simp
qed simp

lemma distinct_fresh_frames:
  assumes "position_ok m b pos"
  shows "distinct (fresh_frames m b pos)"
proof -
  let ?a = "\<lambda>i. mm_area m ! i"
  have clean: "mem_map_clean m" and b: "4096 dvd unat b" and pos: "pos < mm_count m" using assms by (auto simp: position_ok_def)
  have "set (pages b (area_end (?a pos))) \<inter> set (pages (area_begin (?a i)) (area_end (?a i))) = {}"
    if "pos < i" "i < mm_count m" for i
  proof -
    have "area_end (?a pos) \<le> area_begin (?a i)" using clean that by (simp add: mem_map_clean_def)
    then show ?thesis using that b mem_map_clean_area(2) [OF clean that(2)] by (auto simp: set_pages word_le_nat_alt)
  qed
  then show ?thesis using distinct_concat_pages [OF clean, of "mm_count m" "pos + 1"]
    by (simp add: fresh_frames_def distinct_pages) (fastforce simp: Suc_le_eq)
qed

section \<open>Counting the usable memory\<close>

lemma sint_of_int_u64: "- (2 ^ 63) \<le> k \<Longrightarrow> k < 2 ^ 63 \<Longrightarrow> sint (of_int k :: u64) = k"
  by (simp add: signed_of_int signed_take_bit_int_eq_self)

lemma sint_diff:
  assumes "unat x \<le> 2 ^ 52" "unat y \<le> 2 ^ 52"
  shows "sint (y - x :: u64) = int (unat y) - int (unat x)"
proof -
  have xy: "int (unat x) \<le> 2 ^ 52" "int (unat y) \<le> 2 ^ 52"
    using assms by (simp_all only: of_nat_le_iff [symmetric, where 'a = int] of_nat_power of_nat_numeral)
  have "y - x = of_int (int (unat y) - int (unat x))" by simp
  moreover have "sint (of_int (int (unat y) - int (unat x)) :: u64) = int (unat y) - int (unat x)"
  proof (rule sint_of_int_u64)
    have "0 \<le> int (unat x)" "0 \<le> int (unat y)" by simp_all
    then have "- (2 ^ 52) \<le> int (unat y) - int (unat x)" "int (unat y) - int (unat x) \<le> 2 ^ 52"
      using xy by linarith+
    then show "- (2 ^ 63) \<le> int (unat y) - int (unat x)" "int (unat y) - int (unat x) < 2 ^ 63"
      by simp_all
  qed
  ultimately show ?thesis by simp
qed

lemma intersection_eq:
  assumes "unat endA \<le> 2 ^ 52" "unat endB \<le> 2 ^ 52" "unat beginA \<le> 2 ^ 52" "unat beginB \<le> 2 ^ 52"
  shows "intersection beginA endA beginB endB =
    (if max beginA beginB < min endA endB then min endA endB - max beginA beginB else 0)"
proof -
  let ?b = "max beginA beginB" and ?e = "min endA endB"
  have be: "(if beginA > beginB then beginA else beginB) = ?b" "(if endA < endB then endA else endB) = ?e"
    by (auto simp: max_def min_def not_less)
  have "unat ?b \<le> 2 ^ 52" "unat ?e \<le> 2 ^ 52" using assms by (auto simp: max_def min_def)
  then have "sint (?e - ?b) = int (unat ?e) - int (unat ?b)" by (rule sint_diff)
  then have "sint (?e - ?b) > 0 \<longleftrightarrow> ?b < ?e" by (simp add: word_less_def)
  then show ?thesis by (simp add: intersection_def be Let_def)
qed

lemma sum_areas:
  fixes g :: "area \<Rightarrow> u64"
  assumes "mem_map_clean m" "pos < mm_count m"
  shows "foldl (\<lambda>free a. free + g a) 0 (areas m) =
    (\<Sum>i\<leftarrow>[0..<pos]. g (mm_area m ! i)) + (g (mm_area m ! pos) + (\<Sum>i\<leftarrow>[pos + 1..<mm_count m]. g (mm_area m ! i)))"
proof -
  have fold: "foldl (\<lambda>free a. free + g a) x as = x + sum_list (map g as)" for x as
    by (induction as arbitrary: x) (auto simp: add.assoc)
  have len: "mm_count m \<le> length (mm_area m)" using assms(1) by (simp add: mem_map_clean_def)
  have "areas m = map (\<lambda>i. mm_area m ! i) [0..<mm_count m]"
    using len by (intro nth_equalityI) (auto simp: areas_def)
  moreover have "[0..<mm_count m] = [0..<pos] @ pos # [pos + 1..<mm_count m]"
    using assms(2) by (metis Suc_eq_plus1 le_add_diff_inverse less_imp_le_nat upt_add_eq_append upt_conv_Cons zero_le)
  ultimately show ?thesis by (simp add: fold comp_def)
qed

text \<open>The sum of the intersections is the size of the fresh frames.\<close>

lemma sum_intersections:
  assumes clean: "mem_map_clean m" and bounded: "phys_bounded m" and pos: "pos < mm_count m"
    and b: "4096 dvd unat b" "b < area_end (mm_area m ! pos)"
    and before: "\<And>i. i < pos \<Longrightarrow> area_end (mm_area m ! i) \<le> b"
  shows "foldl (\<lambda>free a. free + intersection b (mm_physical_end m) (area_begin a) (area_end a)) 0 (areas m)
    = of_nat (4096 * length (fresh_frames m (max b (area_begin (mm_area m ! pos))) pos))"
proof -
  let ?a = "\<lambda>i. mm_area m ! i" and ?n = "mm_count m" and ?e = "mm_physical_end m"
  let ?g = "\<lambda>a. intersection b ?e (area_begin a) (area_end a)"
  let ?b = "max b (area_begin (mm_area m ! pos))"
  note ar = mem_map_clean_area [OF clean]
  have below: "area_end (?a i) \<le> area_begin (?a j)" if "i < j" "j < ?n" for i j
    using clean that by (simp add: mem_map_clean_def)
  have small: "unat (area_end (?a i)) \<le> 2 ^ 52" "unat (area_begin (?a i)) \<le> 2 ^ 52" if "i < ?n" for i
  proof -
    have "?a i \<in> set (areas m)" using that clean by (auto simp: areas_def set_take_nth mem_map_clean_def)
    then show e: "unat (area_end (?a i)) \<le> 2 ^ 52" using bounded by (simp add: phys_bounded_def)
    then show "unat (area_begin (?a i)) \<le> 2 ^ 52" using ar(1) [OF that] by (simp add: word_less_nat_alt)
  qed
  have e: "?e = area_end (?a (?n - 1))" and n: "0 < ?n" using clean by (auto simp: mem_map_clean_def)
  have top: "area_end (?a i) \<le> ?e" if "i < ?n" for i
  proof (cases "i = ?n - 1")
    case False
    then have "area_end (?a i) \<le> area_begin (?a (?n - 1))" using that by (intro below) auto
    then show ?thesis using ar(1) [of "?n - 1"] n by (simp add: e)
  qed (simp add: e)
  have e52: "unat ?e \<le> 2 ^ 52" using small(1) [of "?n - 1"] n by (simp add: e)
  have b52: "unat b \<le> 2 ^ 52" using b(2) small(1) [OF pos] by (simp add: word_less_nat_alt)
  have g: "?g (?a i) = (if max b (area_begin (?a i)) < area_end (?a i) then area_end (?a i) - max b (area_begin (?a i)) else 0)"
    if "i < ?n" for i
  proof -
    have "min ?e (area_end (?a i)) = area_end (?a i)" using top [OF that] by (rule min_absorb2)
    then show ?thesis by (simp only: intersection_eq [OF e52 small(1) [OF that] b52 small(2) [OF that]])
  qed
  have "(\<Sum>i\<leftarrow>[0..<pos]. ?g (?a i)) = (\<Sum>i\<leftarrow>[0..<pos]. 0)"
  proof (intro arg_cong [where f = sum_list] map_cong refl)
    fix i assume "i \<in> set [0..<pos]"
    then have "i < ?n" "\<not> b < area_end (?a i)" using pos before [of i] by (auto simp: not_less)
    then show "?g (?a i) = 0" by (simp only: g max_less_iff_conj simp_thms if_False)
  qed
  then have s1: "(\<Sum>i\<leftarrow>[0..<pos]. ?g (?a i)) = 0" by simp
  have bdvd: "4096 dvd unat ?b" using b(1) ar(2) [OF pos] by (simp add: max_def)
  have s2: "?g (?a pos) = of_nat (4096 * length (pages ?b (area_end (?a pos))))"
  proof -
    have less: "?b < area_end (?a pos)" using b(2) ar(1) [OF pos] by simp
    then have "?g (?a pos) = area_end (?a pos) - ?b" using g [OF pos] by (simp del: max_less_iff_conj)
    then show ?thesis using length_pages(2) [OF bdvd ar(3) [OF pos] less_imp_le [OF less]] by (simp only:)
  qed
  have s3: "(\<Sum>i\<leftarrow>[pos + 1..<?n]. ?g (?a i)) =
      (\<Sum>i\<leftarrow>[pos + 1..<?n]. of_nat (4096 * length (pages (area_begin (?a i)) (area_end (?a i)))))"
  proof (intro arg_cong [where f = sum_list] map_cong refl)
    fix i assume "i \<in> set [pos + 1..<?n]"
    then have i: "pos < i" "i < ?n" by auto
    have "b \<le> area_begin (?a i)" using below [OF i] b(2) by (meson le_less_trans less_imp_le order_trans)
    then show "?g (?a i) = of_nat (4096 * length (pages (area_begin (?a i)) (area_end (?a i))))"
      using g [OF i(2)] ar(1-3) [OF i(2)] length_pages(2) [OF ar(2,3) [OF i(2)]] by (simp add: max_def)
  qed
  have len: "of_nat (4096 * length (concat (map f xs))) = (\<Sum>i\<leftarrow>xs. (of_nat (4096 * length (f i)) :: u64))"
    for f :: "nat \<Rightarrow> u64 list" and xs
    by (induction xs) (auto simp: algebra_simps)
  show ?thesis
    unfolding sum_areas [OF clean pos] s1 s2 s3 fresh_frames_def len [symmetric]
    by (simp add: algebra_simps)
qed

section \<open>alloc_init establishes the invariant\<close>

lemma find_first_area:
  assumes "mem_map_clean m" "b < mm_physical_end m"
  obtains pos where "find (\<lambda>i. area_end (mm_area m ! i) > b) [0..<mm_count m] = Some pos" "pos < mm_count m"
    "b < area_end (mm_area m ! pos)" "\<And>i. i < pos \<Longrightarrow> area_end (mm_area m ! i) \<le> b"
proof -
  let ?f = "find (\<lambda>i. area_end (mm_area m ! i) > b) [0..<mm_count m]"
  have "mm_count m - 1 \<in> set [0..<mm_count m]" "b < area_end (mm_area m ! (mm_count m - 1))"
    using assms by (auto simp: mem_map_clean_def)
  then have "?f \<noteq> None" unfolding find_None_iff by blast
  then obtain pos where f: "?f = Some pos" by blast
  then have "pos < mm_count m \<and> b < area_end (mm_area m ! pos) \<and> (\<forall>i < pos. area_end (mm_area m ! i) \<le> b)"
    unfolding find_Some_iff by (auto simp: not_less)
  then show ?thesis using that f by blast
qed

text \<open>The fresh frames fit between the first position and the end of memory.\<close>

lemma length_fresh_frames:
  assumes pos: "position_ok m b pos" and le: "area_begin (mm_area m ! pos) \<le> b" and b: "b \<le> mm_physical_end m"
  shows "4096 * length (fresh_frames m b pos) \<le> unat (mm_physical_end m - b)"
proof -
  let ?e = "mm_physical_end m"
  have clean: "mem_map_clean m" and bd: "4096 dvd unat b" using pos by (auto simp: position_ok_def)
  have ed: "4096 dvd unat ?e" and n: "0 < mm_count m" and e: "?e = area_end (mm_area m ! (mm_count m - 1))"
    using clean mem_map_clean_area(3) [OF clean, of "mm_count m - 1"] by (auto simp: mem_map_clean_def)
  have "set (fresh_frames m b pos) \<subseteq> set (pages b ?e)"
  proof
    fix f assume "f \<in> set (fresh_frames m b pos)"
    then have f: "b \<le> f" "unat f \<in> usable_pages m" using set_fresh_frames [OF pos le] by auto
    then obtain i where i: "i < mm_count m" "unat f \<in> area_pages (mm_area m ! i)"
      using clean by (auto simp: usable_pages_def areas_def set_take_nth mem_map_clean_def)
    have "area_end (mm_area m ! i) \<le> ?e"
    proof (cases "i = mm_count m - 1")
      case False
      then have "area_end (mm_area m ! i) \<le> area_begin (mm_area m ! (mm_count m - 1))"
        using clean i(1) by (simp add: mem_map_clean_def)
      then show ?thesis using mem_map_clean_area(1) [OF clean, of "mm_count m - 1"] n by (simp add: e)
    qed (simp add: e)
    then show "f \<in> set (pages b ?e)" using f i(2) bd by (simp add: set_pages area_pages_def word_le_nat_alt)
  qed
  then have "length (fresh_frames m b pos) \<le> length (pages b ?e)"
    using distinct_card [OF distinct_fresh_frames [OF pos]] distinct_card [OF distinct_pages [of b ?e]]
    by (metis List.finite_set card_mono)
  then show ?thesis using length_pages(1) [OF bd ed b] b by (simp add: unat_sub_u64)
qed

lemma alloc_init_eq:
  assumes ok: "windows_ok s" and clean: "mem_map_clean (k_mem_map s)" and bounded: "phys_bounded (k_mem_map s)"
    and b: "4096 dvd unat b" "b < mm_physical_end (k_mem_map s)"
    and man: "\<And>f. b \<le> f \<Longrightarrow> unat f \<in> usable_pages (k_mem_map s) \<Longrightarrow> managed s f"
  shows "\<exists>s' fresh. alloc_init b (mm_physical_end (k_mem_map s)) FRAME_WINDOW FRAME_WINDOW_PTE s = Inr ((), s') \<and>
    frames_inv s' [] fresh {} \<and> clean_window s' \<and> set fresh = {f. b \<le> f \<and> unat f \<in> usable_pages (k_mem_map s)} \<and>
    s' = s\<lparr>phys := (phys s)(window_cell s := 3), k_fa := k_fa s'\<rparr>"
proof -
  let ?m = "k_mem_map s" and ?e = "mm_physical_end (k_mem_map s)"
  obtain pos where pos: "find (\<lambda>i. area_end (mm_area ?m ! i) > b) [0..<mm_count ?m] = Some pos" "pos < mm_count ?m"
      "b < area_end (mm_area ?m ! pos)" "\<And>i. i < pos \<Longrightarrow> area_end (mm_area ?m ! i) \<le> b"
    using find_first_area [OF clean b(2)] by blast
  let ?b = "max b (area_begin (mm_area ?m ! pos))"
  let ?fresh = "fresh_frames ?m ?b pos"
  note ar = mem_map_clean_area [OF clean pos(2)]
  have position: "position_ok ?m ?b pos" using clean pos ar b(1) by (simp add: position_ok_def max_def less_imp_le)
  have le: "?b \<le> ?e"
  proof (cases "pos = mm_count ?m - 1")
    case True
    then have "?e = area_end (mm_area ?m ! pos)" using clean by (simp add: mem_map_clean_def)
    then show ?thesis using pos(3) ar(1) by (simp add: less_imp_le)
  next
    case False
    then have "area_end (mm_area ?m ! pos) \<le> area_begin (mm_area ?m ! (mm_count ?m - 1))"
      using clean pos(2) by (simp add: mem_map_clean_def)
    also have "\<dots> < ?e" using clean mem_map_clean_area(1) [OF clean, of "mm_count ?m - 1"] by (simp add: mem_map_clean_def)
    finally show ?thesis using pos(3) ar(1) by (meson less_imp_le less_trans max.boundedI)
  qed
  have fresh: "set ?fresh = {f. b \<le> f \<and> unat f \<in> usable_pages ?m}"
  proof -
    have "b \<le> f \<Longrightarrow> unat f \<in> usable_pages ?m \<Longrightarrow> ?b \<le> f" for f
    proof -
      assume f: "b \<le> f" "unat f \<in> usable_pages ?m"
      then obtain i where i: "i < mm_count ?m" "unat f \<in> area_pages (mm_area ?m ! i)"
        using clean by (auto simp: usable_pages_def areas_def set_take_nth mem_map_clean_def)
      have "\<not> i < pos" using i(2) pos(4) [of i] f(1) by (auto simp: area_pages_def word_le_nat_alt)
      then consider "i = pos" | "pos < i" by linarith
      then have "area_begin (mm_area ?m ! pos) \<le> f"
      proof cases
        case 1
        then show ?thesis using i(2) by (auto simp: area_pages_def word_le_nat_alt)
      next
        case 2
        then have "area_end (mm_area ?m ! pos) \<le> area_begin (mm_area ?m ! i)" using clean i(1) by (simp add: mem_map_clean_def)
        then show ?thesis using i(2) ar(1) by (auto simp: area_pages_def word_le_nat_alt word_less_nat_alt)
      qed
      then show "?b \<le> f" using f(1) by simp
    qed
    then show ?thesis using set_fresh_frames [OF position] by auto
  qed
  define free where "free = foldl (\<lambda>free a. free + intersection b ?e (area_begin a) (area_end a)) 0 (areas ?m)"
  have free: "free = of_nat (4096 * length ?fresh)"
    unfolding free_def by (rule sum_intersections [OF clean bounded pos(2) b(1) pos(3,4)])
  have len: "4096 * length ?fresh \<le> unat (?e - ?b)" by (rule length_fresh_frames [OF position _ le]) simp
  have ufree: "unat free = 4096 * length ?fresh"
    unfolding free by (rule unat_of_nat_u64) (use len unat_less_u64 [of "?e - ?b"] in linarith)
  define fa where "fa = (k_fa s)\<lparr>fa_free := free, fa_map_position := pos, fa_begin := ?b, fa_end := ?e, fa_size := ?e - ?b,
    fa_capacity := free, fa_current := 0, fa_count := 0, fa_current_address := FRAME_WINDOW, fa_current_pte := FRAME_WINDOW_PTE\<rparr>"
  define s1 where "s1 = s\<lparr>k_fa := fa\<rparr>"
  define s2 where "s2 = s1\<lparr>phys := (phys s1)(window_cell s1 := 3)\<rparr>"
  have ok1: "windows_ok s1" using ok by (simp add: s1_def)
  have mods: "b mod PAGE_SIZE = 0" "?e mod PAGE_SIZE = 0"
  proof -
    have "4096 dvd unat ?e" using clean mem_map_clean_area(3) [OF clean, of "mm_count ?m - 1"] by (simp add: mem_map_clean_def)
    then show "b mod PAGE_SIZE = 0" "?e mod PAGE_SIZE = 0"
      using b(1) by (simp_all add: PAGE_SIZE_def word_unat_eq_iff unat_mod)
  qed
  have begin2: "(if b < area_begin (mm_area ?m ! pos) then area_begin (mm_area ?m ! pos) else b) = ?b"
    by (auto simp: max_def)
  have run: "alloc_init b ?e FRAME_WINDOW FRAME_WINDOW_PTE s = Inr ((), s2)"
    using mods b(2) ar(4)
    by (simp add: alloc_init_def thenS_apply bindS_apply Let_def modify_fa_def area_at_def pos(1) free_def [symmetric] begin2)
      (simp add: s2_def s1_def fa_def ok window_pte_access)
  have ok2: "windows_ok s2" "window_cell s2 = window_cell s1" unfolding s2_def by (rule window_store [OF ok1])+
  have pte: "phys s2 (window_cell s2) = 0 OR 3" unfolding ok2(2) by (simp add: s2_def)
  have node: "window_node s2 = 0" by (rule window_node_eq [OF pte]) simp
  have "stack_inv s2 []" using pte node by (simp add: stack_inv_def) (simp add: s2_def s1_def fa_def)
  moreover have "fresh_inv s2 ?fresh" using position by (simp add: fresh_inv_def s2_def s1_def fa_def)
  moreover have "owner_inv s2 [] ?fresh {}"
  proof -
    have agree: "cr3 s2 = cr3 s" "\<And>p. p \<in> window_tables s \<Longrightarrow> same_entry (phys s2 p) (phys s p)"
      using ok by (auto simp: s2_def s1_def windows_ok_def)
    have "managed s2 = managed s" using windows_cells_stable(2-4) [OF agree] by (simp add: fun_eq_iff managed_def)
    then show ?thesis
      using fresh man ufree len distinct_fresh_frames [OF position]
      by (simp add: owner_inv_def) (simp add: s2_def s1_def fa_def)
  qed
  ultimately have "frames_inv s2 [] ?fresh {}" using ok2(1) by (simp add: frames_inv_def)
  moreover have "s2 = s\<lparr>phys := (phys s)(window_cell s := 3), k_fa := k_fa s2\<rparr>" by (simp add: s2_def s1_def)
  ultimately show ?thesis using run fresh node by (intro exI [of _ s2] exI [of _ ?fresh]) (simp add: clean_window_def)
qed

end
