(* ===== verification/Frame_Contract.thy ===== *)
theory Frame_Contract imports Page_Tables begin

text \<open>
  The contract between the page table code and its source of frames. A source hands out the frames of a
  list in order, cleared; it may change cells of its own (\<open>reserved\<close>), relies on the table entries \<open>roots\<close>
  only as far as the page walk sees them, and leaves all other memory alone.
\<close>

text \<open>The cells of a list of frames.\<close>

definition frame_cells :: "u64 list \<Rightarrow> u64 set" where
  "frame_cells fs = {p. \<exists>f \<in> set fs. in_frame f p}"

lemma frame_cells_simps [simp]:
  "frame_cells [] = {}" "frame_cells (f # fs) = {p. in_frame f p} \<union> frame_cells fs"
  by (auto simp: frame_cells_def)

lemma frame_cells_mono: "set fs \<subseteq> set gs \<Longrightarrow> frame_cells fs \<subseteq> frame_cells gs"
  by (auto simp: frame_cells_def)

text \<open>\<open>cr3\<close> is kept and, outside a set of cells, all entries as the walk sees them.\<close>

definition preserves :: "u64 set \<Rightarrow> kernel \<Rightarrow> kernel \<Rightarrow> bool" where
  "preserves X s s' \<longleftrightarrow> cr3 s' = cr3 s \<and> (\<forall>p. p \<notin> X \<longrightarrow> same_entry (phys s' p) (phys s p))"

lemma preserves_refl [simp]: "preserves X s s"
  by (simp add: preserves_def)

lemma preserves_trans: "preserves X s s' \<Longrightarrow> preserves Y s' s'' \<Longrightarrow> X \<union> Y \<subseteq> Z \<Longrightarrow> preserves Z s s''"
  unfolding preserves_def by (metis UnI1 UnI2 same_entry_trans subsetD)

lemma preserves_mono: "preserves X s s' \<Longrightarrow> X \<subseteq> Y \<Longrightarrow> preserves Y s s'"
  by (auto simp: preserves_def)

locale frame_source =
  fixes get :: "(kernel, u64) kproc"
    and avail :: "kernel \<Rightarrow> u64 list \<Rightarrow> bool"
    and reserved :: "kernel \<Rightarrow> u64 set"
    and roots :: "kernel \<Rightarrow> u64 set"
  assumes get_next: "avail s (f # fs) \<Longrightarrow> \<exists>s'. get s = Inr (f, s') \<and> avail s' fs \<and>
      reserved s' = reserved s \<and> roots s' = roots s \<and> cr3 s' = cr3 s \<and>
      (\<forall>p. in_frame f p \<longrightarrow> phys s' p = 0) \<and>
      (\<forall>p. p \<notin> reserved s \<longrightarrow> \<not> in_frame f p \<longrightarrow> phys s' p = phys s p)"
    and get_none: "avail s [] \<Longrightarrow> get s = Inr (0, s)"
    and avail_distinct: "avail s fs \<Longrightarrow> distinct fs"
    and avail_frame: "avail s fs \<Longrightarrow> f \<in> set fs \<Longrightarrow>
      page_addr f \<and> f \<noteq> 0 \<and> (\<forall>p \<in> reserved s \<union> roots s. \<not> in_frame f p)"
    and roots_present: "avail s fs \<Longrightarrow> p \<in> roots s \<Longrightarrow> phys s p AND PG_PRESENT \<noteq> 0"
    and avail_stable: "avail s fs \<Longrightarrow> (\<And>p. p \<in> roots s \<Longrightarrow> same_entry (m p) (phys s p)) \<Longrightarrow>
      (\<And>p. p \<in> reserved s \<union> frame_cells fs \<Longrightarrow> m p = phys s p) \<Longrightarrow>
      avail (s\<lparr>phys := m\<rparr>) fs \<and> reserved (s\<lparr>phys := m\<rparr>) = reserved s \<and> roots (s\<lparr>phys := m\<rparr>) = roots s"
begin

lemma get_preserves:
  "avail s (f # fs) \<Longrightarrow> \<exists>s'. get s = Inr (f, s') \<and> avail s' fs \<and> reserved s' = reserved s \<and> roots s' = roots s \<and>
    (\<forall>p. in_frame f p \<longrightarrow> phys s' p = 0) \<and> preserves (reserved s \<union> frame_cells [f]) s s' \<and>
    (\<forall>p. p \<notin> reserved s \<union> frame_cells [f] \<longrightarrow> phys s' p = phys s p)"
  using get_next [of s f fs] by (fastforce simp: preserves_def)

text \<open>A store outside the source's cells.\<close>

lemma avail_store:
  assumes "avail s fs" "p \<notin> reserved s" "p \<notin> frame_cells fs" "p \<in> roots s \<Longrightarrow> same_entry v (phys s p)"
  shows "avail (s\<lparr>phys := (phys s)(p := v)\<rparr>) fs" "reserved (s\<lparr>phys := (phys s)(p := v)\<rparr>) = reserved s"
    "roots (s\<lparr>phys := (phys s)(p := v)\<rparr>) = roots s"
proof -
  have "same_entry (((phys s)(p := v)) q) (phys s q)" if "q \<in> roots s" for q
    using assms(4) that by (cases "q = p") auto
  moreover have "((phys s)(p := v)) q = phys s q" if "q \<in> reserved s \<union> frame_cells fs" for q
    using assms(2,3) that by auto
  ultimately show "avail (s\<lparr>phys := (phys s)(p := v)\<rparr>) fs" "reserved (s\<lparr>phys := (phys s)(p := v)\<rparr>) = reserved s"
    "roots (s\<lparr>phys := (phys s)(p := v)\<rparr>) = roots s"
    using avail_stable [OF assms(1), of "(phys s)(p := v)"] by blast+
qed

text \<open>Clearing a frame that the source has given away.\<close>

lemma avail_clear:
  assumes "avail s fs" "page_addr f" "f \<notin> set fs" "\<And>p. p \<in> reserved s \<union> roots s \<Longrightarrow> \<not> in_frame f p"
  shows "avail (s\<lparr>phys := (\<lambda>p. if in_frame f p then 0 else phys s p)\<rparr>) fs"
    "reserved (s\<lparr>phys := (\<lambda>p. if in_frame f p then 0 else phys s p)\<rparr>) = reserved s"
    "roots (s\<lparr>phys := (\<lambda>p. if in_frame f p then 0 else phys s p)\<rparr>) = roots s"
proof -
  let ?m = "\<lambda>p. if in_frame f p then 0 else phys s p"
  have "\<not> in_frame f p" if "p \<in> frame_cells fs" for p
    using that assms(3) in_frame_unique by (auto simp: frame_cells_def)
  then have "?m p = phys s p" if "p \<in> reserved s \<union> frame_cells fs" for p using that assms(4) by auto
  moreover have "same_entry (?m p) (phys s p)" if "p \<in> roots s" for p using assms(4) that by simp
  ultimately show "avail (s\<lparr>phys := ?m\<rparr>) fs" "reserved (s\<lparr>phys := ?m\<rparr>) = reserved s"
    "roots (s\<lparr>phys := ?m\<rparr>) = roots s"
    using avail_stable [OF assms(1), of ?m] by blast+
qed

end

end
