(* ===== verification/Frame_Spec.thy ===== *)
theory Frame_Spec imports Frame_Init Frame_Contract begin

text \<open>
  What the frame allocator of \<open>mm/frame.c\<close> promises: an abstract list of free frames that the operations
  refine, the contract of \<open>Frame_Contract\<close> for the page table code, examples, and what happens after the stack of freed frames has run empty, when the entry of
  the window still names the last frame.
\<close>

section \<open>An initialised allocator\<close>

lemma example_windows: "windows_ok example_kernel" "window_cell example_kernel = 0x4000"
    "window_tables example_kernel = {0x1FF0, 0x1FF8, 0x2FF0, 0x3000}"
proof -
  note cells = example_cells example_phys FRAME_WINDOW_def
  show wc: "window_cell example_kernel = 0x4000" by (simp add: window_cell_def cells)
  show wt: "window_tables example_kernel = {0x1FF0, 0x1FF8, 0x2FF0, 0x3000}" by (simp add: window_tables_alt cells)
  show "windows_ok example_kernel"
    using example_tables by (simp add: windows_ok_def wc wt zero_cell_eq FRAME_WINDOW_def)
qed

lemma example_map:
  "areas (k_mem_map example_kernel) = [\<lparr>area_begin = 0x100000, area_end = 0x105000\<rparr>]"
  "mem_map_clean (k_mem_map example_kernel)" "phys_bounded (k_mem_map example_kernel)"
  "mm_physical_end (k_mem_map example_kernel) = 0x105000" "k_kernel_end example_kernel = 0x101000"
proof -
  show a: "areas (k_mem_map example_kernel) = [\<lparr>area_begin = 0x100000, area_end = 0x105000\<rparr>]"
    using areas_one_area_map [of "0x100000" "0x105000"] by (simp add: example_kernel_def areas_def)
  show "mem_map_clean (k_mem_map example_kernel)"
    by (simp add: mem_map_clean_def example_kernel_def one_area_map_def mem_map_zero_def MAP_MAX_def)
  show "phys_bounded (k_mem_map example_kernel)" by (simp add: phys_bounded_def a)
qed (simp_all add: example_kernel_def)

lemma example_frames:
  "{f :: u64. 0x101000 \<le> f \<and> unat f \<in> usable_pages (k_mem_map example_kernel)} = {0x101000, 0x102000, 0x103000, 0x104000}"
proof (intro set_eqI iffI)
  fix f :: u64 assume "f \<in> {f. 0x101000 \<le> f \<and> unat f \<in> usable_pages (k_mem_map example_kernel)}"
  then have f: "0x101000 \<le> unat f" "4096 dvd unat f" "unat f + 4096 \<le> 0x105000"
    by (simp_all add: usable_pages_def example_map(1) area_pages_def word_le_nat_alt)
  from f(2) obtain q where q: "unat f = 4096 * q" by (rule dvdE)
  have "257 \<le> q" "q \<le> 260" using f(1,3) by (simp_all add: q)
  then have "q = 257 \<or> q = 258 \<or> q = 259 \<or> q = 260" by linarith
  then show "f \<in> {0x101000, 0x102000, 0x103000, 0x104000}" using q by (auto simp: word_unat_eq_iff)
next
  fix f :: u64 assume "f \<in> {0x101000, 0x102000, 0x103000, 0x104000}"
  then show "f \<in> {f. 0x101000 \<le> f \<and> unat f \<in> usable_pages (k_mem_map example_kernel)}"
    by (auto simp: usable_pages_def example_map(1) area_pages_def)
qed

lemma example_managed: "f \<in> {0x101000, 0x102000, 0x103000, 0x104000} \<Longrightarrow> managed example_kernel f"
  by (auto simp: managed_def example_windows zero_cell_eq page_addr_def PHYS_ADDR_MASK_def in_frame_def)

lemma initialize_frame_allocation_eq:
  assumes "mem_map_clean (k_mem_map s)"
  shows "initialize_frame_allocation s =
    alloc_init (k_kernel_end s) (mm_physical_end (k_mem_map s)) FRAME_WINDOW FRAME_WINDOW_PTE s"
  using assms mem_map_clean_area(4) [OF assms, of "mm_count (k_mem_map s) - 1"]
  by (auto simp: initialize_frame_allocation_def bindS_apply area_at_def mem_map_clean_def)

lemma initialize_frame_allocation_ok:
  assumes "windows_ok s" "mem_map_clean (k_mem_map s)" "phys_bounded (k_mem_map s)"
    and "4096 dvd unat (k_kernel_end s)" "k_kernel_end s < mm_physical_end (k_mem_map s)"
    and "\<forall>f. k_kernel_end s \<le> f \<and> unat f \<in> usable_pages (k_mem_map s) \<longrightarrow> managed s f"
  shows "\<exists>s' fresh. initialize_frame_allocation s = Inr ((), s') \<and> frames_inv s' [] fresh {} \<and> clean_window s' \<and>
    set fresh = {f. k_kernel_end s \<le> f \<and> unat f \<in> usable_pages (k_mem_map s)} \<and>
    s' = s\<lparr>phys := (phys s)(window_cell s := 3), k_fa := k_fa s'\<rparr>"
  using alloc_init_eq [OF assms(1-5)] assms(6) by (simp add: initialize_frame_allocation_eq [OF assms(2)])

text \<open>
  Property C4: \<open>initialize_frame_allocation\<close>, on a sanitized memory map and under tables that map the two
  windows, succeeds with the invariant of the allocator: no frame is on the stack or in use, the fresh
  frames are exactly the usable pages of the map from the end of the kernel on, and only the entry of the
  window is written.
\<close>

theorem initialize_frame_allocation_correct:
  assumes "windows_ok s" "mem_map_clean (k_mem_map s)" "phys_bounded (k_mem_map s)"
    and "4096 dvd unat (k_kernel_end s)" "k_kernel_end s < mm_physical_end (k_mem_map s)"
    and "\<forall>f. k_kernel_end s \<le> f \<and> unat f \<in> usable_pages (k_mem_map s) \<longrightarrow> managed s f"
  shows "\<exists>s' fresh. initialize_frame_allocation s = Inr ((), s') \<and> frames_inv s' [] fresh {} \<and> clean_window s' \<and>
    set fresh = {f. k_kernel_end s \<le> f \<and> unat f \<in> usable_pages (k_mem_map s)} \<and>
    s' = s\<lparr>phys := (phys s)(window_cell s := 3), k_fa := k_fa s'\<rparr>"
  by (rule initialize_frame_allocation_ok [OF assms])

lemma example_init_prems:
  "4096 dvd unat (k_kernel_end example_kernel)" "k_kernel_end example_kernel < mm_physical_end (k_mem_map example_kernel)"
  "\<forall>f. k_kernel_end example_kernel \<le> f \<and> unat f \<in> usable_pages (k_mem_map example_kernel) \<longrightarrow> managed example_kernel f"
proof -
  show "\<forall>f. k_kernel_end example_kernel \<le> f \<and> unat f \<in> usable_pages (k_mem_map example_kernel) \<longrightarrow> managed example_kernel f"
  proof (intro allI impI)
    fix f assume "k_kernel_end example_kernel \<le> f \<and> unat f \<in> usable_pages (k_mem_map example_kernel)"
    then have "f \<in> {0x101000, 0x102000, 0x103000, 0x104000}"
      unfolding example_frames [symmetric] by (simp add: example_map)
    then show "managed example_kernel f" by (rule example_managed)
  qed
qed (simp_all add: example_map)

theorem initialize_frame_allocation_correct_witness:
  "\<exists>s' fresh. initialize_frame_allocation example_kernel = Inr ((), s') \<and> frames_inv s' [] fresh {} \<and>
    set fresh = {0x101000, 0x102000, 0x103000, 0x104000}"
  using initialize_frame_allocation_correct [OF example_windows(1) example_map(2,3) example_init_prems]
  by (auto simp: example_map(5) example_frames)

lemma example_init:
  "\<exists>s' fresh. initialize_frame_allocation example_kernel = Inr ((), s') \<and> frames_inv s' [] fresh {} \<and> clean_window s' \<and>
    set fresh = {0x101000, 0x102000, 0x103000, 0x104000}"
  using alloc_init_eq [OF example_windows(1) example_map(2,3) example_init_prems(1,2)] example_init_prems(3)
  by (simp add: initialize_frame_allocation_eq [OF example_map(2)] example_frames example_map(5)) blast

section \<open>The abstract allocator\<close>

text \<open>
  The frames in the order they will be given out again (the freed ones), the fresh ones, and those in use.
  The last field records that the stack has once been emptied.
\<close>

record free_list =
  fl_stack :: "u64 list"
  fl_fresh :: "u64 list"
  fl_used :: "u64 set"
  fl_drained :: bool

definition fl_alloc :: "free_list \<Rightarrow> u64 \<times> free_list" where
  "fl_alloc l = (case fl_stack l of
     f # stack \<Rightarrow> (f, l\<lparr>fl_stack := stack, fl_used := insert f (fl_used l), fl_drained := (fl_drained l \<or> stack = [])\<rparr>)
   | [] \<Rightarrow> (case fl_fresh l of
       f # fresh \<Rightarrow> (f, l\<lparr>fl_fresh := fresh, fl_used := insert f (fl_used l)\<rparr>)
     | [] \<Rightarrow> (0, l)))"

definition fl_free :: "u64 \<Rightarrow> free_list \<Rightarrow> free_list" where
  "fl_free f l = l\<lparr>fl_stack := f # fl_stack l, fl_used := fl_used l - {f}\<rparr>"

text \<open>The requests of a client: get a frame, free one, and write to a cell of a frame it holds.\<close>

datatype frame_request = Get | Free u64 | Write u64 u64

definition frame_legal :: "free_list \<Rightarrow> frame_request \<Rightarrow> bool" where
  "frame_legal l r = (case r of
     Get \<Rightarrow> True
   | Free f \<Rightarrow> f \<in> fl_used l \<and> (fl_stack l = [] \<longrightarrow> \<not> fl_drained l)
   | Write p v \<Rightarrow> p AND NOT 0xFFF \<in> fl_used l)"

definition fl_step :: "frame_request \<Rightarrow> free_list \<Rightarrow> u64 \<times> free_list" where
  "fl_step r l = (case r of Get \<Rightarrow> fl_alloc l | Free f \<Rightarrow> (f, fl_free f l) | Write p v \<Rightarrow> (v, l))"

fun fl_run :: "frame_request list \<Rightarrow> free_list \<Rightarrow> (u64 list \<times> free_list) option" where
  "fl_run [] l = Some ([], l)"
| "fl_run (r # rs) l =
     (if frame_legal l r
      then (let (x, l') = fl_step r l in map_option (\<lambda>(xs, l''). (x # xs, l'')) (fl_run rs l'))
      else None)"

text \<open>The same requests on the model of the code.\<close>

definition serve :: "frame_request \<Rightarrow> (kernel, u64) kproc" where
  "serve r = (case r of
     Get \<Rightarrow> get_frame
   | Free f \<Rightarrow> thenS (free_frame f) (returnS f)
   | Write p v \<Rightarrow> thenS (modifyS (\<lambda>s. s\<lparr>phys := (phys s)(p := v)\<rparr>)) (returnS v))"

fun serve_all :: "frame_request list \<Rightarrow> (kernel, u64 list) kproc" where
  "serve_all [] = returnS []"
| "serve_all (r # rs) = bindS (serve r) (\<lambda>x. bindS (serve_all rs) (\<lambda>xs. returnS (x # xs)))"

text \<open>The refinement relation; once drained, the entry of the window may be stale.\<close>

definition frames_rel :: "kernel \<Rightarrow> free_list \<Rightarrow> bool" where
  "frames_rel s l \<longleftrightarrow> frames_inv s (fl_stack l) (fl_fresh l) (fl_used l) \<and>
     (fl_stack l = [] \<longrightarrow> \<not> fl_drained l \<longrightarrow> clean_window s)"

lemma alloc_frame_none: "frames_inv s [] [] used \<Longrightarrow> alloc_frame s = Inr (0, s)"
proof -
  assume "frames_inv s [] [] used"
  then have "unat (fa_free (k_fa s)) = 0" by (simp add: frames_inv_def owner_inv_def)
  then have "fa_free (k_fa s) = 0" by (simp add: word_unat_eq_iff)
  then show ?thesis by (simp add: alloc_frame_def bindS_apply)
qed

lemma client_write:
  assumes inv: "frames_inv s stack fresh used" and f: "p AND NOT 0xFFF \<in> used"
  shows "frames_inv (s\<lparr>phys := (phys s)(p := v)\<rparr>) stack fresh used"
    "window_node (s\<lparr>phys := (phys s)(p := v)\<rparr>) = window_node s"
    "window_cell (s\<lparr>phys := (phys s)(p := v)\<rparr>) = window_cell s"
proof -
  let ?f = "p AND NOT 0xFFF"
  have own: "owner_inv s stack fresh used" using inv by (simp add: frames_inv_def)
  have p: "in_frame ?f p" by (simp add: in_frame_def)
  have man: "managed s ?f" using own f unfolding owner_inv_def by blast
  have tab: "p \<notin> window_tables s" "p \<noteq> window_cell s" using man p unfolding managed_def by auto
  have fr: "((phys s)(p := v)) q = phys s q" if "x \<in> set stack" "in_frame x q" for x q
  proof -
    have "x \<noteq> ?f" using own that(1) f by (auto simp: owner_inv_def)
    then show ?thesis using that(2) p in_frame_unique [of x q ?f] by auto
  qed
  show "frames_inv (s\<lparr>phys := (phys s)(p := v)\<rparr>) stack fresh used"
    "window_node (s\<lparr>phys := (phys s)(p := v)\<rparr>) = window_node s"
    "window_cell (s\<lparr>phys := (phys s)(p := v)\<rparr>) = window_cell s"
    by (rule frames_inv_stable [OF inv]; use tab fr in auto)+
qed

lemma serve_refines:
  assumes rel: "frames_rel s l" and legal: "frame_legal l r"
  shows "\<exists>s'. serve r s = Inr (fst (fl_step r l), s') \<and> frames_rel s' (snd (fl_step r l))"
proof (cases r)
  case Get
  have inv: "frames_inv s (fl_stack l) (fl_fresh l) (fl_used l)" using rel by (simp add: frames_rel_def)
  show ?thesis
  proof (cases "fl_stack l @ fl_fresh l")
    case Nil
    then show ?thesis using inv rel alloc_frame_none Get
      by (auto simp: serve_def get_frame_def fl_step_def fl_alloc_def)
  next
    case (Cons f rest)
    then obtain s' where s': "alloc_frame s = Inr (f, s')"
        "frames_inv s' (tl (fl_stack l)) (if fl_stack l = [] then tl (fl_fresh l) else fl_fresh l) (insert f (fl_used l))"
        "fl_stack l = [] \<longrightarrow> window_node s' = window_node s"
      using alloc_frame_some [OF inv Cons] by blast
    show ?thesis
    proof (cases "fl_stack l")
      case Nil
      then show ?thesis using s' Cons Get rel
        by (auto simp: serve_def get_frame_def fl_step_def fl_alloc_def frames_rel_def clean_window_def)
    next
      case (Cons g st)
      then show ?thesis using s' \<open>fl_stack l @ fl_fresh l = f # rest\<close> Get
        by (auto simp: serve_def get_frame_def fl_step_def fl_alloc_def frames_rel_def)
    qed
  qed
next
  case (Free f)
  then show ?thesis using rel legal dealloc_frame_ok [of s "fl_stack l" "fl_fresh l" "fl_used l" f]
    by (auto simp: serve_def free_frame_def fl_step_def fl_free_def frames_rel_def frame_legal_def thenS_apply)
next
  case (Write p v)
  then show ?thesis using rel legal client_write [of s "fl_stack l" "fl_fresh l" "fl_used l" p v]
    by (auto simp: serve_def fl_step_def frames_rel_def frame_legal_def thenS_apply clean_window_def)
qed

text \<open>
  Property C1: the allocator refines the abstract free list. Any sequence of requests that frees and
  writes only frames in use, and that frees nothing right after the stack of freed frames has run empty,
  succeeds on the code with the same answers and ends in a related state.
\<close>

theorem frame_allocator_refines:
  assumes "frames_rel s l" and "fl_run rs l = Some (xs, l')"
  shows "\<exists>s'. serve_all rs s = Inr (xs, s') \<and> frames_rel s' l'"
  using assms
proof (induction rs arbitrary: s l xs)
  case Nil
  then show ?case by simp
next
  case (Cons r rs)
  then have legal: "frame_legal l r" by (simp split: if_splits)
  obtain ys where ys: "fl_run rs (snd (fl_step r l)) = Some (ys, l')" "xs = fst (fl_step r l) # ys"
    using Cons.prems(2) legal by (auto simp: case_prod_unfold Let_def)
  obtain s1 where s1: "serve r s = Inr (fst (fl_step r l), s1)" "frames_rel s1 (snd (fl_step r l))"
    using serve_refines [OF Cons.prems(1) legal] by blast
  obtain s' where "serve_all rs s1 = Inr (ys, s')" "frames_rel s' l'" using Cons.IH [OF s1(2) ys(1)] by blast
  then show ?case using s1(1) ys(2) by (simp add: bindS_apply)
qed

lemma example_rel:
  obtains s f g fresh where "initialize_frame_allocation example_kernel = Inr ((), s)"
    "frames_rel s \<lparr>fl_stack = [], fl_fresh = f # g # fresh, fl_used = {}, fl_drained = False\<rparr>"
    "frames_inv s [] (f # g # fresh) {}" "f \<noteq> g" "clean_window s"
proof -
  obtain s fresh where s: "initialize_frame_allocation example_kernel = Inr ((), s)" "frames_inv s [] fresh {}"
      "clean_window s" "set fresh = {0x101000, 0x102000, 0x103000, 0x104000}"
    using example_init by blast
  have "distinct fresh" using s(2) by (simp add: frames_inv_def owner_inv_def)
  then have "length fresh = 4" using distinct_card [of fresh] s(4) by simp
  then obtain f g rest where fresh: "fresh = f # g # rest" by (auto simp: numeral_eq_Suc length_Suc_conv)
  show thesis using that [of s f g rest] s(1-3) \<open>distinct fresh\<close> by (auto simp: fresh frames_rel_def)
qed

theorem frame_allocator_refines_witness:
  "\<exists>s f g s'. initialize_frame_allocation example_kernel = Inr ((), s) \<and> f \<noteq> g \<and>
    serve_all [Get, Get, Write f 7, Free g, Free f, Get, Get] s = Inr ([f, g, 7, g, f, f, g], s')"
proof -
  obtain s f g fresh where s: "initialize_frame_allocation example_kernel = Inr ((), s)"
      "frames_rel s \<lparr>fl_stack = [], fl_fresh = f # g # fresh, fl_used = {}, fl_drained = False\<rparr>"
      "frames_inv s [] (f # g # fresh) {}" "f \<noteq> g"
    using example_rel by metis
  have "page_addr f" using s(3) by (simp add: frames_inv_def owner_inv_def managed_def)
  then have "f AND NOT 0xFFF = f" using page_offset(2) [OF page_addr_page, of f 0] by simp
  then have "\<exists>l'. fl_run [Get, Get, Write f 7, Free g, Free f, Get, Get]
      \<lparr>fl_stack = [], fl_fresh = f # g # fresh, fl_used = {}, fl_drained = False\<rparr> = Some ([f, g, 7, g, f, f, g], l')"
    using s(4) by (simp add: frame_legal_def fl_step_def fl_alloc_def fl_free_def)
  then show ?thesis using frame_allocator_refines [OF s(2)] s(1,4) by metis
qed

section \<open>The contract for the page table code\<close>

definition frames_avail :: "kernel \<Rightarrow> u64 list \<Rightarrow> bool" where
  "frames_avail s fs \<longleftrightarrow> (\<exists>stack fresh used. fs = stack @ fresh \<and> frames_inv s stack fresh used)"

definition window_cells :: "kernel \<Rightarrow> u64 set" where
  "window_cells s = {window_cell s, zero_cell s}"

lemma window_tables_present: "windows_ok s \<Longrightarrow> p \<in> window_tables s \<Longrightarrow> phys s p AND PG_PRESENT \<noteq> 0"
  by (auto simp: windows_ok_def window_tables_def self_mapped_def tables_ok_def entry_at_def table_entry_def)

interpretation frames: frame_source get_frame frames_avail window_cells window_tables
proof unfold_locales
  fix s f fs assume av: "frames_avail s (f # fs)"
  then obtain stack fresh used where inv: "frames_inv s stack fresh used" and fs: "stack @ fresh = f # fs"
    by (auto simp: frames_avail_def)
  obtain s' where s': "alloc_frame s = Inr (f, s')"
      "frames_inv s' (tl stack) (if stack = [] then tl fresh else fresh) (insert f used)" "only_frame f s s'"
      "\<forall>p. in_frame f p \<longrightarrow> phys s' p = 0"
    using alloc_frame_some [OF inv fs] by blast
  have ok: "windows_ok s" using inv by (simp add: frames_inv_def)
  note same = only_frame_windows [OF s'(3) ok frames_inv_distinct(3) [OF inv fs]]
  have "fs = tl stack @ (if stack = [] then tl fresh else fresh)" using fs by (cases stack) auto
  then have "frames_avail s' fs" using s'(2) unfolding frames_avail_def by blast
  moreover have "cr3 s' = cr3 s"
    using s'(3) unfolding only_frame_def by (metis kernel.select_convs(2) kernel.surjective kernel.update_convs(1,4))
  ultimately show "\<exists>s'. get_frame s = Inr (f, s') \<and> frames_avail s' fs \<and> window_cells s' = window_cells s \<and>
      window_tables s' = window_tables s \<and> cr3 s' = cr3 s \<and> (\<forall>p. in_frame f p \<longrightarrow> phys s' p = 0) \<and>
      (\<forall>p. p \<notin> window_cells s \<longrightarrow> \<not> in_frame f p \<longrightarrow> phys s' p = phys s p)"
    using s'(1,3,4) same by (intro exI [of _ s']) (auto simp: get_frame_def window_cells_def only_frame_def)
next
  fix s assume "frames_avail s []"
  then show "get_frame s = Inr (0, s)" by (auto simp: frames_avail_def get_frame_def alloc_frame_none)
next
  fix s fs assume "frames_avail s fs"
  then show "distinct fs" by (auto simp: frames_avail_def frames_inv_def owner_inv_def)
next
  fix s fs f assume "frames_avail s fs" "f \<in> set fs"
  then have "managed s f" unfolding frames_avail_def frames_inv_def owner_inv_def by blast
  then show "page_addr f \<and> f \<noteq> 0 \<and> (\<forall>p \<in> window_cells s \<union> window_tables s. \<not> in_frame f p)"
    by (auto simp: managed_def window_cells_def)
next
  fix s fs p assume "frames_avail s fs" "p \<in> window_tables s"
  then show "phys s p AND PG_PRESENT \<noteq> 0" using window_tables_present by (auto simp: frames_avail_def frames_inv_def)
next
  fix s fs and m :: "u64 \<Rightarrow> u64"
  assume av: "frames_avail s fs" and tab: "\<And>p. p \<in> window_tables s \<Longrightarrow> same_entry (m p) (phys s p)"
    and own: "\<And>p. p \<in> window_cells s \<union> frame_cells fs \<Longrightarrow> m p = phys s p"
  obtain stack fresh used where inv: "frames_inv s stack fresh used" and fs: "fs = stack @ fresh"
    using av by (auto simp: frames_avail_def)
  have cell: "m (window_cell s) = phys s (window_cell s)" using own by (simp add: window_cells_def)
  have free: "m p = phys s p" if "f \<in> set stack" "in_frame f p" for f p
    using own [of p] that by (auto simp: frame_cells_def fs)
  note stable = frames_inv_stable [OF inv tab cell free]
  show "frames_avail (s\<lparr>phys := m\<rparr>) fs \<and> window_cells (s\<lparr>phys := m\<rparr>) = window_cells s \<and>
      window_tables (s\<lparr>phys := m\<rparr>) = window_tables s"
  proof (intro conjI)
    show "frames_avail (s\<lparr>phys := m\<rparr>) fs" unfolding frames_avail_def
      by (intro exI [of _ stack] exI [of _ fresh] exI [of _ used] conjI fs stable(1))
  qed (simp_all only: window_cells_def stable(3-5))
qed

section \<open>The single operations\<close>

text \<open>
  Property C2: \<open>alloc_frame\<close> gives out the top of the stack of freed frames, or the next fresh frame, or 0
  when there is none of either. The frame it returns was not in use, is cleared, and belongs to the caller;
  apart from its cells only the two window entries and the allocator record change.
\<close>

theorem alloc_frame_correct:
  assumes "frames_inv s stack fresh used"
  shows "case stack @ fresh of [] \<Rightarrow> alloc_frame s = Inr (0, s)
    | f # rest \<Rightarrow> f \<noteq> 0 \<and> f \<notin> used \<and> (\<exists>s'. alloc_frame s = Inr (f, s') \<and>
        frames_inv s' (tl stack) (if stack = [] then tl fresh else fresh) (insert f used) \<and>
        (\<forall>p. in_frame f p \<longrightarrow> phys s' p = 0) \<and> only_frame f s s')"
proof (cases "stack @ fresh")
  case Nil
  then show ?thesis using alloc_frame_none assms by auto
next
  case (Cons f rest)
  then show ?thesis using alloc_frame_some [OF assms Cons] frames_inv_distinct(1,4) [OF assms Cons] by auto
qed

theorem alloc_frame_correct_witness:
  "\<exists>s f s'. initialize_frame_allocation example_kernel = Inr ((), s) \<and> alloc_frame s = Inr (f, s') \<and> f \<noteq> 0 \<and>
    (\<forall>p. in_frame f p \<longrightarrow> phys s' p = 0)"
proof -
  obtain s f g fresh where s: "initialize_frame_allocation example_kernel = Inr ((), s)"
      "frames_inv s [] (f # g # fresh) {}"
    using example_rel by metis
  show ?thesis using s(1) alloc_frame_correct [OF s(2)] by auto
qed

text \<open>
  Property C3: \<open>dealloc_frame\<close> puts a frame that is in use on top of the stack, where it stays linked as
  part of the chain of nodes, if the stack is not empty or the entry of the window is clean. Apart from
  free frames only the entry of the window and the allocator record change.
\<close>

theorem dealloc_frame_correct:
  assumes "frames_inv s stack fresh used" "f \<in> used" "stack \<noteq> [] \<or> clean_window s"
  shows "\<exists>s'. dealloc_frame f s = Inr ((), s') \<and> frames_inv s' (f # stack) fresh (used - {f}) \<and>
    only_stack (f # stack) s s'"
  using dealloc_frame_ok [OF assms(1,2)] assms(3) by blast

lemma example_allocated:
  obtains s f g fresh where "frames_inv s [] fresh {f, g}" "f \<noteq> g" "clean_window s" "fresh \<noteq> []"
proof -
  obtain s0 fresh0 where s0: "frames_inv s0 [] fresh0 {}" "clean_window s0"
      "set fresh0 = {0x101000, 0x102000, 0x103000, 0x104000}"
    using example_init by blast
  have "distinct fresh0" using s0(1) by (simp add: frames_inv_def owner_inv_def)
  then have "length fresh0 = 4" using distinct_card [of fresh0] s0(3) by simp
  then obtain f g h k where fresh: "fresh0 = [f, g, h, k]" by (auto simp: numeral_eq_Suc length_Suc_conv)
  obtain s1 where s1: "frames_inv s1 [] [g, h, k] {f}" "window_node s1 = window_node s0"
    using alloc_frame_some [of s0 "[]" fresh0 "{}" f "[g, h, k]"] s0(1) fresh by auto
  obtain s2 where s2: "frames_inv s2 [] [h, k] {g, f}" "window_node s2 = window_node s1"
    using alloc_frame_some [of s1 "[]" "[g, h, k]" "{f}" g "[h, k]"] s1(1) by auto
  show thesis using that [of s2 "[h, k]" g f] s2 s1(2) s0(2) \<open>distinct fresh0\<close>
    by (auto simp: fresh clean_window_def)
qed

theorem dealloc_frame_correct_witness:
  "\<exists>s f g s'. dealloc_frame f s = Inr ((), s') \<and> f \<noteq> g \<and> (\<exists>fresh. frames_inv s' [f] fresh {g})"
proof -
  obtain s f g fresh where s: "frames_inv s [] fresh {f, g}" "f \<noteq> g" "clean_window s" by (rule example_allocated)
  have "{f, g} - {f} = {g}" using s(2) by auto
  moreover obtain s' where "dealloc_frame f s = Inr ((), s')" "frames_inv s' [f] fresh ({f, g} - {f})"
    using dealloc_frame_correct [OF s(1), of f] s(3) by auto
  ultimately show ?thesis using s(2) by metis
qed

section \<open>The stale window\<close>

text \<open>
  When the last freed frame is given out, the entry of the window keeps naming it, and the next
  \<open>dealloc_frame\<close> takes it for the next node of the chain.
\<close>

lemma window_inv_of: "frames_inv s stack fresh used \<Longrightarrow> window_inv s"
  by (auto simp: frames_inv_def intro: stack_inv_window)

lemma phys_update_keeps:
  assumes "windows_ok s" "\<And>p. p \<in> window_tables s \<Longrightarrow> m p = phys s p"
  shows "windows_ok (s\<lparr>phys := m\<rparr>)" "window_cell (s\<lparr>phys := m\<rparr>) = window_cell s"
    "zero_cell (s\<lparr>phys := m\<rparr>) = zero_cell s" "window_tables (s\<lparr>phys := m\<rparr>) = window_tables s"
  using windows_ok_stable [OF assms(1), of "s\<lparr>phys := m\<rparr>"]
    windows_cells_stable(2-4) [of "s\<lparr>phys := m\<rparr>" s] assms(2) by simp_all

text \<open>Freeing a frame while the stack is empty: the link of the new node is whatever the window names.\<close>

lemma dealloc_frame_drained:
  assumes inv: "frames_inv s [] fresh used" and b: "b \<in> used"
  shows "\<exists>s'. dealloc_frame b s = Inr ((), s') \<and> window_inv s' \<and> window_node s' = b \<and> fa_current (k_fa s') = FRAME_WINDOW \<and>
    fa_count (k_fa s') = 1 \<and> unat (fa_free (k_fa s')) = 4096 * Suc (length fresh) \<and> managed s' = managed s \<and>
    window_cell s' = window_cell s \<and> zero_cell s' = zero_cell s \<and>
    phys s' = (phys s)(window_cell s := b OR 3, b := window_node s)"
proof -
  have ok: "windows_ok s" and own: "owner_inv s [] fresh used" and st: "stack_inv s []" using inv by (auto simp: frames_inv_def)
  have man: "managed s b" using own b by (auto simp: owner_inv_def)
  then have fb: "b \<noteq> 0" "page_addr b" by (auto simp: managed_def)
  have in_b: "in_frame b b" using slot_in_frame [OF fb(2), of 0] by simp
  have count: "fa_count (k_fa s) = 0 \<or> fa_count (k_fa s) = 512" using st by (simp add: stack_inv_def)
  let ?m = "(phys s)(window_cell s := b OR 3, b := window_node s)"
  let ?a = "(k_fa s)\<lparr>fa_current := FRAME_WINDOW, fa_count := 1\<rparr>"
  define s' where "s' = s\<lparr>phys := ?m, k_fa := ?a\<lparr>fa_free := fa_free (k_fa s) + PAGE_SIZE\<rparr>\<rparr>"
  have agree: "?m p = phys s p" if "p \<in> window_tables s" for p
    using that man in_b ok by (auto simp: managed_def windows_ok_def)
  note keeps = phys_update_keeps [OF ok, of ?m, OF agree]
  have "b mod 4096 = 0" using page_addr_page [OF fb(2)] by (simp add: mod_4096)
  then have run: "dealloc_frame b s = Inr ((), s')"
    using push_frame_new [OF window_inv_of [OF inv] fb count] owner_room [OF own b]
    by (simp add: dealloc_frame_def thenS_apply bindS_apply modify_fa_def s'_def)
  have "b \<noteq> window_cell s" using man in_b by (auto simp: managed_def)
  moreover have cell: "window_cell s' = window_cell s" by (simp add: s'_def keeps)
  ultimately have pte: "phys s' (window_cell s') = b OR 3" unfolding cell by (simp add: s'_def)
  then have node: "window_node s' = b" by (rule window_node_eq [OF _ fb(2)])
  have "window_inv s'"
    using st pte node fb(2) by (simp add: window_inv_def stack_inv_def) (simp add: s'_def keeps(1))
  moreover have "managed s' = managed s" by (simp add: fun_eq_iff managed_def) (simp add: s'_def keeps)
  ultimately show ?thesis using run node owner_room(1) [OF own b]
    by (intro exI [of _ s']) (simp, simp add: s'_def keeps)
qed

text \<open>Allocation from a window that shows a node linked to \<open>a\<close>, whatever \<open>a\<close> holds.\<close>

lemma alloc_frame_from_node:
  assumes win: "window_inv s" and cur: "fa_current (k_fa s) = FRAME_WINDOW" "fa_count (k_fa s) = 1"
    and nxt: "phys s (window_node s) = a" "managed s a" and b: "window_node s = b" "managed s b"
    and free: "fa_free (k_fa s) \<noteq> 0"
  shows "\<exists>s'. alloc_frame s = Inr (b, s') \<and> window_inv s' \<and> window_node s' = a \<and> fa_current (k_fa s') = FRAME_WINDOW \<and>
    fa_count (k_fa s') = 512 \<and> fa_free (k_fa s') = fa_free (k_fa s) - PAGE_SIZE \<and> managed s' = managed s \<and>
    (\<forall>p. \<not> in_frame b p \<longrightarrow> p \<noteq> window_cell s \<longrightarrow> p \<noteq> zero_cell s \<longrightarrow> phys s' p = phys s p)"
proof -
  have ok: "windows_ok s" using win by (simp add: window_inv_def)
  have fa: "a \<noteq> 0" "page_addr a" "page_addr b" using nxt b by (auto simp: managed_def)
  let ?m = "(phys s)(window_cell s := a OR 3)"
  let ?a = "(k_fa s)\<lparr>fa_current := FRAME_WINDOW, fa_count := 512\<rparr>"
  define s1 where "s1 = s\<lparr>phys := ?m, k_fa := ?a\<lparr>fa_free := fa_free (k_fa s) - PAGE_SIZE\<rparr>\<rparr>"
  have agree: "?m p = phys s p" if "p \<in> window_tables s" for p
    using that ok by (auto simp: windows_ok_def)
  note keeps = phys_update_keeps [OF ok, of ?m, OF agree]
  have ok1: "windows_ok s1" "window_cell s1 = window_cell s" "zero_cell s1 = zero_cell s" "window_tables s1 = window_tables s"
    by (simp_all add: s1_def keeps)
  have man1: "managed s1 = managed s" by (simp add: fun_eq_iff managed_def ok1)
  let ?m' = "clear_frame b ((phys s1)(zero_cell s1 := b OR 3))"
  define s2 where "s2 = s1\<lparr>phys := ?m', k_fa := k_fa s1\<rparr>"
  have zero: "zero_frame b s1 = Inr ((), s2)" using zero_frame_eq [OF ok1(1) fa(3)] by (simp add: s2_def)
  have agree2: "?m' p = phys s1 p" if "p \<in> window_tables s1" for p
    using that ok1(1) b(2) man1 by (auto simp: windows_ok_def managed_def clear_frame_def ok1(4))
  note keeps2 = phys_update_keeps [OF ok1(1), of ?m', OF agree2]
  have "b \<noteq> - 1" using fa(3) by (auto simp: page_addr_def PHYS_ADDR_MASK_def)
  then have run: "alloc_frame s = Inr (b, s2)"
    using pick_frame_node [OF win cur] nxt(1) b(1) fa(1) free zero
    by (simp add: alloc_frame_def bindS_apply thenS_apply modify_fa_def s1_def)
  have "\<not> in_frame b (window_cell s)" using b(2) by (simp add: managed_def)
  then have "?m' (window_cell s) = a OR 3"
    using window_zero_cells [of s] by (simp add: clear_frame_def ok1) (simp add: s1_def)
  moreover have cell: "windows_ok s2" "window_cell s2 = window_cell s" "zero_cell s2 = zero_cell s"
      "window_tables s2 = window_tables s"
    using keeps2 by (simp_all add: s2_def ok1)
  ultimately have pte: "phys s2 (window_cell s2) = a OR 3" unfolding cell(2) by (simp add: s2_def)
  then have node: "window_node s2 = a" by (rule window_node_eq [OF _ fa(2)])
  have k2: "k_fa s2 = ?a\<lparr>fa_free := fa_free (k_fa s) - PAGE_SIZE\<rparr>" by (simp add: s2_def s1_def)
  have "window_inv s2" using win pte node fa(2) cell(1) by (simp add: window_inv_def k2)
  moreover have "managed s2 = managed s" by (simp add: fun_eq_iff managed_def cell)
  moreover have "phys s2 p = phys s p" if "\<not> in_frame b p" "p \<noteq> window_cell s" "p \<noteq> zero_cell s" for p
    using that by (simp add: s2_def clear_frame_def ok1) (simp add: s1_def)
  ultimately show ?thesis using run node k2 by (intro exI [of _ s2]) simp
qed

lemma alloc_frame_from_slot:
  assumes win: "window_inv s" and cur: "fa_current (k_fa s) = FRAME_WINDOW" "fa_count (k_fa s) = 512"
    and c: "phys s (window_node s + 4088) = c" "page_addr c" and free: "fa_free (k_fa s) \<noteq> 0"
  shows "\<exists>s'. alloc_frame s = Inr (c, s')"
proof -
  have ok: "windows_ok s" using win by (simp add: window_inv_def)
  define s1 where "s1 = s\<lparr>k_fa := (k_fa s)\<lparr>fa_count := 511, fa_free := fa_free (k_fa s) - PAGE_SIZE\<rparr>\<rparr>"
  have "c \<noteq> - 1" using c(2) by (auto simp: page_addr_def PHYS_ADDR_MASK_def)
  moreover have "windows_ok s1" using ok by (simp add: s1_def)
  ultimately show ?thesis
    using pick_frame_slot [OF win cur(1)] cur(2) c(1) free zero_frame_eq [of s1 c] c(2)
    by (simp add: alloc_frame_def bindS_apply thenS_apply modify_fa_def s1_def)
qed

text \<open>
  Property C5: after the stack of freed frames has run empty the allocator can give out a frame that is
  still in use. With one freed frame \<open>a\<close> left: allocate it, store any frame address \<open>c\<close> that is in use in its
  last cell, free another frame \<open>b\<close>, allocate twice. The second of these allocations returns \<open>c\<close>.
\<close>

theorem stale_window_double_allocation:
  assumes inv: "frames_inv s [a] (d # fresh) used" and b: "b \<in> used" and c: "c \<in> used"
  shows "\<exists>s'. serve_all [Get, Write (a + 4088) c, Free b, Get, Get] s = Inr ([a, c, b, b, c], s')"
proof -
  have a: "a \<notin> used" "managed s a" using frames_inv_distinct(1,3) [OF inv] by simp_all
  then have fa: "page_addr a" by (simp add: managed_def)
  have ab: "a \<noteq> b" using a(1) b by auto
  obtain s1 where s1: "alloc_frame s = Inr (a, s1)" "frames_inv s1 [] (d # fresh) (insert a used)" "window_node s1 = a"
    using alloc_frame_some [OF inv, of a "d # fresh"] by auto
  let ?s2 = "s1\<lparr>phys := (phys s1)(a + 4088 := c)\<rparr>"
  have last: "(a + 4088) AND NOT 0xFFF = a" by (rule page_offset(2) [OF page_addr_page [OF fa]]) simp
  note wr = client_write [OF s1(2), of "a + 4088" c, unfolded last, simplified]
  have man: "managed ?s2 x" if "x \<in> insert a used" for x
    using wr(1) that unfolding frames_inv_def owner_inv_def by blast
  obtain s3 where s3: "dealloc_frame b ?s2 = Inr ((), s3)" "window_inv s3" "window_node s3 = b"
      "fa_current (k_fa s3) = FRAME_WINDOW" "fa_count (k_fa s3) = 1"
      "unat (fa_free (k_fa s3)) = 4096 * Suc (length (d # fresh))" "managed s3 = managed ?s2"
      "window_cell s3 = window_cell ?s2" "zero_cell s3 = zero_cell ?s2"
      "phys s3 = (phys ?s2)(window_cell ?s2 := b OR 3, b := window_node ?s2)"
    using dealloc_frame_drained [OF wr(1), of b] b by blast
  have link: "phys s3 (window_node s3) = a" by (simp add: s3(3,10) wr(2) s1(3))
  have free3: "fa_free (k_fa s3) \<noteq> 0" using s3(6) by (metis mult_eq_0_iff nat.distinct(1) unat_0 zero_neq_numeral)
  obtain s4 where s4: "alloc_frame s3 = Inr (b, s4)" "window_inv s4" "window_node s4 = a"
      "fa_current (k_fa s4) = FRAME_WINDOW" "fa_count (k_fa s4) = 512"
      "fa_free (k_fa s4) = fa_free (k_fa s3) - PAGE_SIZE"
      "\<forall>p. \<not> in_frame b p \<longrightarrow> p \<noteq> window_cell s3 \<longrightarrow> p \<noteq> zero_cell s3 \<longrightarrow> phys s4 p = phys s3 p"
    using alloc_frame_from_node [OF s3(2,4,5) link _ s3(3) _ free3] man b s3(7) by auto
  have in_a: "in_frame a (a + 4088)" by (rule in_frame_add [OF page_addr_page [OF fa]]) simp
  then have off: "\<not> in_frame b (a + 4088)" using in_frame_unique ab by blast
  have cells: "a + 4088 \<noteq> window_cell s3" "a + 4088 \<noteq> zero_cell s3"
    using man [of a] in_a by (auto simp: managed_def s3(8,9))
  have fb: "page_addr b" using man b by (auto simp: managed_def)
  have "a + 4088 \<noteq> b" using off slot_in_frame [OF fb, of 0] by auto
  then have "phys s4 (window_node s4 + 4088) = c"
    using s4(3,7) off cells s3(10) by (simp add: s3(8))
  moreover have "page_addr c" using man c by (auto simp: managed_def)
  moreover have "fa_free (k_fa s4) \<noteq> 0"
  proof -
    have "PAGE_SIZE \<le> fa_free (k_fa s3)" using s3(6) by (simp add: word_le_nat_alt PAGE_SIZE_def)
    then have "unat (fa_free (k_fa s4)) = 4096 * Suc (length fresh)"
      using s3(6) s4(6) by (simp add: unat_sub_u64 PAGE_SIZE_def)
    then show ?thesis by auto
  qed
  ultimately obtain s5 where "alloc_frame s4 = Inr (c, s5)" using alloc_frame_from_slot [OF s4(2,4,5)] by blast
  then show ?thesis
    using s1(1) s3(1) s4(1) by (simp add: serve_def get_frame_def free_frame_def bindS_apply thenS_apply)
qed

theorem stale_window_double_allocation_witness:
  "\<exists>s a b c s'. b \<noteq> c \<and> serve_all [Get, Write (a + 4088) c, Free b, Get, Get] s = Inr ([a, c, b, b, c], s')"
proof -
  obtain s0 fresh0 where s0: "frames_inv s0 [] fresh0 {}" "clean_window s0"
      "set fresh0 = {0x101000, 0x102000, 0x103000, 0x104000}"
    using example_init by blast
  have "distinct fresh0" using s0(1) by (simp add: frames_inv_def owner_inv_def)
  then have "length fresh0 = 4" using distinct_card [of fresh0] s0(3) by simp
  then obtain f g h k where fresh: "fresh0 = [f, g, h, k]" by (auto simp: numeral_eq_Suc length_Suc_conv)
  obtain s1 where s1: "frames_inv s1 [] [g, h, k] {f}" "window_node s1 = window_node s0"
    using alloc_frame_some [of s0 "[]" fresh0 "{}" f "[g, h, k]"] s0(1) fresh by auto
  obtain s2 where s2: "frames_inv s2 [] [h, k] {g, f}" "window_node s2 = window_node s1"
    using alloc_frame_some [of s1 "[]" "[g, h, k]" "{f}" g "[h, k]"] s1(1) by auto
  obtain s3 where s3: "frames_inv s3 [] [k] {h, g, f}" "window_node s3 = window_node s2"
    using alloc_frame_some [of s2 "[]" "[h, k]" "{g, f}" h "[k]"] s2(1) by auto
  have "clean_window s3" using s0(2) s1(2) s2(2) s3(2) by (simp add: clean_window_def)
  then obtain s4 where "frames_inv s4 [h] [k] ({h, g, f} - {h})"
    using dealloc_frame_ok [OF s3(1), of h] by auto
  then have s4: "frames_inv s4 [h] [k] {g, f}" using \<open>distinct fresh0\<close> by (simp add: fresh insert_Diff_if)
  have "g \<noteq> f" using \<open>distinct fresh0\<close> by (auto simp: fresh)
  then show ?thesis using stale_window_double_allocation [OF s4, of g f] by blast
qed

end
