(* ===== verification/Pages.thy ===== *)
theory Pages imports Frame_Spec begin

text \<open>
  Mapping and unmapping of pages, \<open>mm/pages.c\<close>. The operations work on the four entries that \<open>ptes\<close>
  returns; missing page tables are taken from the frame allocator. \<open>get_frame\<close> is an argument of the
  routines that only need a source of cleared frames; the kernel instantiates it with that of \<open>mm/frame.c\<close>.
\<close>

section \<open>Flags (include/mm/pages.h)\<close>

definition MAP_RW :: u64 where "MAP_RW = PG_RW"
definition MAP_EXE :: u64 where "MAP_EXE = PG_NX"
definition MAP_IMMEDIATE :: u64 where "MAP_IMMEDIATE = push_bit 12 1"
definition MAP_USER :: u64 where "MAP_USER = PG_USER"

definition PF_PROT_VIOLATION :: u64 where "PF_PROT_VIOLATION = 1"
definition PF_WRITE :: u64 where "PF_WRITE = 2"

definition PG_REFCOUNT_OFFSET :: nat where "PG_REFCOUNT_OFFSET = 52"
definition PG_REFCOUNT_MASK :: u64 where "PG_REFCOUNT_MASK = push_bit 52 0x3FF"

definition convert_flags :: "u64 \<Rightarrow> u64" where
  "convert_flags flags =
     (let output = flags AND (MAP_USER OR MAP_EXE);
          output = output OR PG_PRESENT;
          output = output XOR MAP_EXE
      in if flags AND MAP_RW \<noteq> 0
         then (if flags AND MAP_IMMEDIATE \<noteq> 0 then output OR PG_RW else output OR PG_LAZY)
         else output)"

section \<open>Reference counts of page tables\<close>

definition increase_counter :: "addr \<Rightarrow> (kernel, unit) kproc" where
  "increase_counter pte = bindS (vload pte) (\<lambda>e. vstore pte (e + push_bit PG_REFCOUNT_OFFSET 1))"

definition decrease_counter :: "addr \<Rightarrow> (kernel, u64) kproc" where
  "decrease_counter pte =
     bindS (vload pte) (\<lambda>e. thenS (vstore pte (e - push_bit PG_REFCOUNT_OFFSET 1))
    (bindS (vload pte) (\<lambda>e. returnS (drop_bit PG_REFCOUNT_OFFSET (e AND PG_REFCOUNT_MASK)))))"

section \<open>Creating and removing page tables\<close>

text \<open>The body of the loop of \<open>ensure_pt_exists\<close>, for a level whose entry is not present.\<close>

definition create_pt :: "(kernel, u64) kproc \<Rightarrow> pt_entries \<Rightarrow> nat \<Rightarrow> (kernel, unit) kproc" where
  "create_pt get es i =
     bindS get (\<lambda>frame.
     thenS (vstore (entries es ! i) (frame OR PG_PRESENT OR PG_RW OR PG_USER))
    (thenS (vzero_page (entries es ! (i + 1) AND NOT 0xFFF))
    (if i > 0 then increase_counter (entries es ! (i - 1)) else returnS ())))"

fun create_pts :: "(kernel, u64) kproc \<Rightarrow> pt_entries \<Rightarrow> nat list \<Rightarrow> (kernel, unit) kproc" where
  "create_pts get es [] = returnS ()"
| "create_pts get es (i # is) =
     (if present_mask es AND push_bit i 1 \<noteq> 0 then create_pts get es is
      else thenS (create_pt get es i) (create_pts get es is))"

definition ensure_pt_exists :: "(kernel, u64) kproc \<Rightarrow> pt_entries \<Rightarrow> (kernel, unit) kproc" where
  "ensure_pt_exists get es = create_pts get es [0..<3]"

fun clean_pts_from :: "pt_entries \<Rightarrow> nat list \<Rightarrow> (kernel, unit) kproc" where
  "clean_pts_from es [] = returnS ()"
| "clean_pts_from es (i # is) =
     bindS (decrease_counter (entries es ! i)) (\<lambda>count.
       if count \<noteq> 0 then returnS ()
       else bindS (vload (entries es ! i)) (\<lambda>e.
            thenS (free_frame (e AND PHYS_ADDR_MASK))
           (thenS (vstore (entries es ! i) 0) (clean_pts_from es is))))"

definition clean_pts :: "pt_entries \<Rightarrow> (kernel, unit) kproc" where
  "clean_pts es = clean_pts_from es [2, 1, 0]"

section \<open>Mapping one page\<close>

definition map_page_from :: "(kernel, u64) kproc \<Rightarrow> addr \<Rightarrow> u64 \<Rightarrow> u64 \<Rightarrow> (kernel, unit) kproc" where
  "map_page_from get va physical physical_flags =
     thenS (assertS (va mod 4096 = 0))
    (thenS (assertS (physical mod 4096 = 0))
    (bindS (ptes va) (\<lambda>e.
     thenS (if present_mask e AND push_bit 2 1 = 0 then ensure_pt_exists get e else returnS ())
    (thenS (if present_mask e AND push_bit 3 1 = 0 then increase_counter (entries e ! 2) else returnS ())
    (vstore (entries e ! 3) (physical OR physical_flags))))))"

definition map_page :: "addr \<Rightarrow> u64 \<Rightarrow> u64 \<Rightarrow> (kernel, unit) kproc" where
  "map_page = map_page_from get_frame"

text \<open>
  \<open>unmap_page\<close> reads the physical address from the leaf entry. The assignment \<open>e.entries[3] = 0\<close> that follows
  changes the local array of pointers, not the entry.
\<close>

definition unmap_page :: "addr \<Rightarrow> u64 \<Rightarrow> (kernel, u64) kproc" where
  "unmap_page va flags =
     thenS (assertS (va mod 4096 = 0))
    (bindS (ptes va) (\<lambda>e.
     bindS (vload (entries e ! 3)) (\<lambda>leaf.
     let physical = leaf AND PHYS_ADDR_MASK; e = e\<lparr>entries := (entries e)[3 := 0]\<rparr>
     in thenS (clean_pts e) (returnS physical))))"

section \<open>Ranges\<close>

text \<open>
  The offsets \<open>i\<close> of the loops \<open>for (size_t i = 0; i < size; i += 4096)\<close>. Above \<open>2 ^ 64 - 4096\<close> the
  index wraps before it reaches \<open>size\<close> and the loop does not end.
\<close>

definition page_offsets :: "u64 \<Rightarrow> u64 list" where
  "page_offsets sz = map (\<lambda>k. 4096 * of_nat k) [0..<(unat sz + 4095) div 4096]"

fun for_each :: "'b list \<Rightarrow> ('b \<Rightarrow> ('s, unit) kproc) \<Rightarrow> ('s, unit) kproc" where
  "for_each [] f = returnS ()"
| "for_each (x # xs) f = thenS (f x) (for_each xs f)"

definition for_pages :: "u64 \<Rightarrow> (u64 \<Rightarrow> (kernel, unit) kproc) \<Rightarrow> (kernel, unit) kproc" where
  "for_pages sz f = (if sz \<le> - 4096 then for_each (page_offsets sz) f else failS Diverges)"

definition map_range :: "addr \<Rightarrow> u64 \<Rightarrow> u64 \<Rightarrow> (kernel, unit) kproc" where
  "map_range start sz flags =
     bindS (getsS k_zero_page) (\<lambda>zero_page.
     let map_flags = convert_flags flags
     in for_pages sz (\<lambda>i.
          bindS (if flags AND MAP_IMMEDIATE \<noteq> 0 then get_frame else returnS zero_page) (\<lambda>physical.
            map_page (start + i) physical map_flags)))"

definition unmap_range :: "addr \<Rightarrow> u64 \<Rightarrow> (kernel, unit) kproc" where
  "unmap_range start sz =
     for_pages sz (\<lambda>i.
       bindS (ptes (start + i)) (\<lambda>e.
       if present_mask e = 0xF then
         bindS (vload (entries e ! 3)) (\<lambda>leaf.
         bindS (unmap_page (start + i) 0) (\<lambda>physical.
         if leaf AND PG_LAZY \<noteq> 0 then returnS () else free_frame physical))
       else returnS ()))"

section \<open>Page faults\<close>

text \<open>
  The faulting address comes from the register \<open>cr2\<close>. Every fault that is not a write to a lazy page goes to
  the general exception handler, an argument here.
\<close>

definition page_fault_handler ::
  "(kernel, u64) kproc \<Rightarrow> (kernel, unit) kproc \<Rightarrow> addr \<Rightarrow> u64 \<Rightarrow> (kernel, unit) kproc" where
  "page_fault_handler get generic cr2 error_code =
     bindS (ptes cr2) (\<lambda>e.
     if error_code AND PF_PROT_VIOLATION \<noteq> 0 \<and> error_code AND PF_WRITE \<noteq> 0 then
       bindS (vload (entries e ! 3)) (\<lambda>leaf.
       if leaf AND PG_LAZY \<noteq> 0 then
         bindS (vload (entries e ! 3)) (\<lambda>leaf.
         let flags = (leaf AND NOT (PHYS_ADDR_MASK OR PG_LAZY)) OR PG_RW
         in bindS get (\<lambda>frame. vstore (entries e ! 3) (frame OR flags)))
       else generic)
     else generic)"

section \<open>Initialisation\<close>

definition disable_identity_paging :: "(kernel, unit) kproc" where
  "disable_identity_paging =
     bindS (ptes 0) (\<lambda>e. thenS (vstore (entries e ! 1) 0) (vstore (entries e ! 0) 0))"

text \<open>
  The registration of the page fault handler touches only the handler table of \<open>arch/x64/irq.c\<close>.
\<close>

definition initialize_virtual_memory :: "(kernel, unit) kproc" where
  "initialize_virtual_memory =
     bindS get_frame (\<lambda>zero_page.
     thenS (modifyS (\<lambda>s. s\<lparr>k_zero_page := zero_page\<rparr>))
    (bindS (unmap_page ZERO_WINDOW 0) (\<lambda>old_addr.
     thenS (map_page ZERO_WINDOW zero_page (PG_PRESENT OR PG_RW))
    (thenS (vzero_page ZERO_WINDOW)
    (thenS (map_page ZERO_WINDOW old_addr (PG_PRESENT OR PG_RW))
     disable_identity_paging)))))"

section \<open>Entries of an address under changes of memory\<close>

abbreviation cell_at :: "kernel \<Rightarrow> nat \<Rightarrow> addr \<Rightarrow> u64" where
  "cell_at s k va \<equiv> entry_cell (phys s) (cr3 s) k va"

abbreviation self_cell :: "kernel \<Rightarrow> u64" where
  "self_cell s \<equiv> cr3 s + 8 * 510"

lemma entry_cell_Suc:
  "entry_cell mem c (Suc k) va = (mem (entry_cell mem c k va) AND PHYS_ADDR_MASK) + 8 * pt_index (4 - Suc k) va"
  by (simp add: entry_cell_def)

lemma cells_preserved:
  assumes "preserves X s s'"
  shows "(\<And>j. j < k \<Longrightarrow> cell_at s j va \<notin> X) \<Longrightarrow> cell_at s' k va = cell_at s k va"
proof (induction k)
  case 0
  then show ?case using assms by (simp add: entry_cell_def preserves_def)
next
  case (Suc k)
  then have "cell_at s' k va = cell_at s k va" by simp
  moreover have "same_entry (phys s' (cell_at s k va)) (phys s (cell_at s k va))"
    using Suc.prems assms by (simp add: preserves_def)
  then have "phys s' (cell_at s k va) AND PHYS_ADDR_MASK = phys s (cell_at s k va) AND PHYS_ADDR_MASK"
    by (rule same_entry_flags(1))
  ultimately show ?case by (simp only: entry_cell_Suc)
qed

lemma entry_preserved:
  assumes "preserves X s s'" "\<And>j. j \<le> k \<Longrightarrow> cell_at s j va \<notin> X"
  shows "same_entry (entry_at s' k va) (entry_at s k va)"
  using assms cells_preserved [OF assms(1), of k va] by (simp add: entry_at_def preserves_def)

lemma tables_ok_preserved:
  assumes "preserves X s s'" "\<And>j. j < k \<Longrightarrow> cell_at s j va \<notin> X"
  shows "tables_ok s' k va = tables_ok s k va"
  using entry_preserved [OF assms(1)] assms(2) same_entry_flags(5) unfolding tables_ok_def
  by (metis (no_types, lifting) le_less_trans)

lemma self_mapped_preserved:
  assumes "preserves X s s'" "self_cell s \<notin> X"
  shows "self_mapped s' = self_mapped s"
proof -
  have "same_entry (phys s' (self_cell s)) (phys s (self_cell s))" "cr3 s' = cr3 s"
    using assms by (auto simp: preserves_def)
  then show ?thesis using same_entry_flags(1,5) by (simp add: self_mapped_def)
qed

text \<open>
  \<open>pt_path X s n va\<close>: the tables for \<open>va\<close> exist down to level \<open>n\<close>, the self entry is in place, and the
  entries on the way, with the self entry, are different cells outside \<open>X\<close>.
\<close>

definition pt_path :: "u64 set \<Rightarrow> kernel \<Rightarrow> nat \<Rightarrow> addr \<Rightarrow> bool" where
  "pt_path X s n va \<longleftrightarrow> self_mapped s \<and> present_levels s n va \<and>
     (let cells = self_cell s # map (\<lambda>k. cell_at s k va) [0..<Suc (min n 3)]
      in distinct cells \<and> set cells \<inter> X = {})"

lemma distinct_upto:
  "distinct (c # map f [0..<Suc m]) \<and> set (c # map f [0..<Suc m]) \<inter> X = {} \<longleftrightarrow>
    c \<notin> X \<and> (\<forall>k \<le> m. f k \<notin> X \<and> f k \<noteq> c) \<and> (\<forall>j k. j < k \<longrightarrow> k \<le> m \<longrightarrow> f j \<noteq> f k)"
proof -
  have "distinct (map f [0..<Suc m]) \<longleftrightarrow> inj_on f {..m}"
    by (simp only: distinct_map distinct_upt set_upt atLeast0LessThan lessThan_Suc_atMost simp_thms)
  also have "\<dots> \<longleftrightarrow> (\<forall>j k. j < k \<longrightarrow> k \<le> m \<longrightarrow> f j \<noteq> f k)" (is "?inj \<longleftrightarrow> ?all")
  proof
    show "?inj \<Longrightarrow> ?all" by (auto dest: inj_onD)
    show "?all \<Longrightarrow> ?inj"
    proof (rule inj_onI)
      fix j k assume all: ?all and jk: "j \<in> {..m}" "k \<in> {..m}" "f j = f k"
      then show "j = k" by (cases j k rule: linorder_cases) (metis atMost_iff)+
    qed
  qed
  finally show ?thesis
    unfolding distinct.simps set_simps set_map set_upt atLeast0LessThan lessThan_Suc_atMost
    by (auto simp: image_iff disjoint_iff simp del: upt_Suc)
qed

lemma pt_path_iff:
  "pt_path X s n va \<longleftrightarrow> self_mapped s \<and> present_levels s n va \<and> self_cell s \<notin> X \<and>
     (\<forall>k \<le> min n 3. cell_at s k va \<notin> X \<and> cell_at s k va \<noteq> self_cell s) \<and>
     (\<forall>j k. j < k \<longrightarrow> k \<le> min n 3 \<longrightarrow> cell_at s j va \<noteq> cell_at s k va)"
  unfolding pt_path_def Let_def distinct_upto by auto

lemma pt_path_mono: "pt_path X s n va \<Longrightarrow> Y \<subseteq> X \<Longrightarrow> pt_path Y s n va"
  by (auto simp: pt_path_iff)

lemma pt_path_preserved:
  assumes "pt_path X s n va" "preserves Y s s'" "Y \<subseteq> X"
  shows "pt_path X s' n va" "k \<le> min n 3 \<Longrightarrow> cell_at s' k va = cell_at s k va"
proof -
  have out: "cell_at s k va \<notin> Y" if "k \<le> min n 3" for k using assms(1,3) that by (auto simp: pt_path_iff)
  have self: "self_cell s \<notin> Y" using assms(1,3) by (auto simp: pt_path_iff)
  have cells: "cell_at s' k va = cell_at s k va" if "k \<le> min n 3" for k
    using that by (intro cells_preserved [OF assms(2)] out) simp
  have ent: "same_entry (entry_at s' k va) (entry_at s k va)" if "k \<le> min n 3" for k
    using that by (intro entry_preserved [OF assms(2)] out) simp
  have "tables_ok s' (min n 3) va = tables_ok s (min n 3) va"
    by (rule tables_ok_preserved [OF assms(2)]) (simp add: out)
  moreover have "entry_at s' k va AND PG_PRESENT = entry_at s k va AND PG_PRESENT" if "k \<le> min n 3" for k
    using same_entry_flags(2) [OF ent [OF that]] .
  ultimately have "present_levels s' n va = present_levels s n va" by (auto simp: present_levels_def)
  moreover have "cr3 s' = cr3 s" using assms(2) by (simp add: preserves_def)
  ultimately show "pt_path X s' n va"
    using assms(1) cells self_mapped_preserved [OF assms(2) self] by (simp add: pt_path_iff)
  show "k \<le> min n 3 \<Longrightarrow> cell_at s' k va = cell_at s k va" by (rule cells)
qed

section \<open>Counters and new tables\<close>

lemma same_entry_counter: "same_entry (e + push_bit PG_REFCOUNT_OFFSET 1) e" "same_entry (e - push_bit PG_REFCOUNT_OFFSET 1) e"
proof -
  let ?c = "push_bit PG_REFCOUNT_OFFSET 1 :: u64"
  have c: "unat ?c = 2 ^ 52" by (simp add: PG_REFCOUNT_OFFSET_def)
  have low: "unat (take_bit 52 y) = unat y mod 2 ^ 52" for y :: u64
  proof -
    have "unat (take_bit 52 y) = take_bit 52 (unat y)" by (rule unsigned_take_bit_eq)
    then show ?thesis by (simp only: take_bit_nat_def)
  qed
  have "unat (take_bit 52 (x + ?c)) = unat (take_bit 52 x)" for x
  proof -
    have "unat (x + ?c) = (unat x + 2 ^ 52) mod 2 ^ 64" 
      using unat_word_ariths(1) [of x ?c] by (simp only: c) simp
    then have "unat (take_bit 52 (x + ?c)) = (unat x + 2 ^ 52) mod 2 ^ 64 mod 2 ^ 52" by (simp only: low)
    also have "\<dots> = (unat x + 2 ^ 52) mod 2 ^ 52" by (rule mod_mod_cancel) (simp add: le_imp_power_dvd)
    also have "\<dots> = unat x mod 2 ^ 52" by (rule mod_add_self2)
    finally show ?thesis by (simp only: low)
  qed
  then have "take_bit 52 (x + ?c) = take_bit 52 x" for x by (simp only: word_unat_eq_iff)
  from this [of e] this [of "e - ?c"]
  show "same_entry (e + ?c) e" "same_entry (e - ?c) e" by (simp_all add: same_entry_def)
qed

lemma phys_store_other: "p \<noteq> d \<Longrightarrow> phys (s\<lparr>phys := (phys s)(d := v)\<rparr>) p = phys s p"
  by simp

lemma increase_counter_eq:
  assumes "self_mapped s" "tables_ok s k va" "k \<le> 3"
  shows "increase_counter (pte_ptr k va) s
    = Inr ((), s\<lparr>phys := (phys s)(cell_at s k va := entry_at s k va + push_bit PG_REFCOUNT_OFFSET 1)\<rparr>)"
  using assms by (simp add: increase_counter_def bindS_apply vload_pte_ptr vstore_pte_ptr)

lemma new_table_entry:
  assumes "page_addr f"
  shows "(f OR PG_PRESENT OR PG_RW OR PG_USER) AND PHYS_ADDR_MASK = f" "table_entry (f OR PG_PRESENT OR PG_RW OR PG_USER)"
proof -
  have 7: "PG_PRESENT OR PG_RW OR PG_USER = mask 3"
    by (simp add: PG_PRESENT_def PG_RW_def PG_USER_def mask_eq_exp_minus_1)
  show "(f OR PG_PRESENT OR PG_RW OR PG_USER) AND PHYS_ADDR_MASK = f"
    unfolding 7 phys_addr_mask_alt by (rule bit_word_eqI) (auto simp: bit_simps dest: page_addr_bit [OF assms])
  have "bit ((f OR mask 3) AND PG_PRESENT) 0" "bit ((f OR mask 3) AND PG_RW) 1"
    by (simp_all add: bit_simps PG_PRESENT_def PG_RW_def)
  then have "(f OR mask 3) AND PG_PRESENT \<noteq> 0" "(f OR mask 3) AND PG_RW \<noteq> 0" by (metis bit_0_eq bot_apply bot_bool_def)+
  moreover have huge: "bit PG_HUGE n \<Longrightarrow> n = 7" for n
    using bit_exp_iff [where 'a = "64 word", of 7 n] by (simp add: PG_HUGE_def)
  have "(f OR mask 3) AND PG_HUGE = 0"
    by (rule bit_word_eqI) (auto simp: bit_simps dest!: huge dest: page_addr_bit [OF assms])
  ultimately show "table_entry (f OR PG_PRESENT OR PG_RW OR PG_USER)" by (simp add: table_entry_def 7)
qed

text \<open>The page of an address is mapped where the address is.\<close>

lemma pt_index_page_base: "pt_index (Suc l) (va AND NOT 0xFFF) = pt_index (Suc l) va"
proof -
  have 12: "(0xFFF :: u64) = mask 12" by (simp add: mask_eq_exp_minus_1)
  show ?thesis unfolding pt_index_alt 12
    by (rule bit_word_eqI) (auto simp: bit_simps dest: bit_imp_le_length)
qed

lemma translate_pte_page:
  assumes "self_mapped s" "tables_ok s k va" "k \<le> 3"
  shows "translate s (pte_ptr k va AND NOT 0xFFF) = Some (table_at (phys s) (cr3 s) k va, True)"
proof -
  define page where "page = pte_ptr k va AND NOT 0xFFF"
  have idx: "pt_index 4 page = pt_index 4 (pte_ptr k va)" "pt_index 3 page = pt_index 3 (pte_ptr k va)"
      "pt_index 2 page = pt_index 2 (pte_ptr k va)" "pt_index (Suc 0) page = pt_index (Suc 0) (pte_ptr k va)"
    using pt_index_page_base [of 3 "pte_ptr k va"] pt_index_page_base [of 2 "pte_ptr k va"]
      pt_index_page_base [of 1 "pte_ptr k va"] pt_index_page_base [of 0 "pte_ptr k va"]
    by (simp_all add: page_def eval_nat_numeral)
  have off: "page AND 0xFFF = 0"
    unfolding page_def by (simp only: and.assoc) simp
  have self: "table_entry (phys s (cr3 s + 4080))" "phys s (cr3 s + 4080) AND PHYS_ADDR_MASK = cr3 s"
    using assms(1) by (auto simp: self_mapped_def)
  have tab: "table_entry (entry_at s j va)" if "j < k" for j
    using assms(2) that by (simp add: tables_ok_def)
  have leaf: "e AND PG_PRESENT \<noteq> 0" "e AND PG_RW \<noteq> 0" if "table_entry e" for e
    using that by (simp_all add: table_entry_def)
  have t: "table_at (phys s) (cr3 s) 2 va = entry_at s 1 va AND PHYS_ADDR_MASK"
      "table_at (phys s) (cr3 s) 3 va = entry_at s 2 va AND PHYS_ADDR_MASK"
      "table_at (phys s) (cr3 s) (Suc 0) va = entry_at s 0 va AND PHYS_ADDR_MASK"
    using table_at_Suc [of "phys s" "cr3 s" 1 va] table_at_Suc [of "phys s" "cr3 s" 2 va]
    by (simp_all add: entry_at_def entry_cell_def numeral_2_eq_2 numeral_3_eq_3)
  note simps = translate_def walk_tables walk_leaf pte_ptr_simps pt_index_pte_step idx off t
    entry_cell_simps entry_at_def leaf self
  consider "k = 0" | "k = 1" | "k = 2" | "k = 3" using assms(3) by linarith
  then have "translate s page = Some (table_at (phys s) (cr3 s) k va, True)"
  proof cases
    case 1
    then show ?thesis by (simp add: simps)
  next
    case 2
    then show ?thesis using tab [of 0] by (simp add: simps)
  next
    case 3
    then show ?thesis using tab [of 0] tab [of 1] by (simp add: simps)
  next
    case 4
    then show ?thesis using tab [of 0] tab [of 1] tab [of 2] by (simp add: simps)
  qed
  then show ?thesis by (simp only: page_def)
qed

lemma page_addr_table_at: "self_mapped s \<Longrightarrow> page_addr (table_at (phys s) (cr3 s) k va)"
proof (cases k)
  case 0
  assume "self_mapped s"
  then have "cr3 s = phys s (self_cell s) AND PHYS_ADDR_MASK" by (simp add: self_mapped_def)
  then show ?thesis using 0 by (metis and.assoc and.idem page_addr_def table_at.simps(1))
qed (simp add: page_addr_def and.assoc)

lemma vzero_pte_page:
  assumes "self_mapped s" "tables_ok s k va" "k \<le> 3" "table_at (phys s) (cr3 s) k va = f"
  shows "vzero_page (pte_ptr k va AND NOT 0xFFF) s
    = Inr ((), s\<lparr>phys := (\<lambda>p. if in_frame f p then 0 else phys s p)\<rparr>)"
proof -
  have "page_addr f" using page_addr_table_at [OF assms(1)] assms(4) by auto
  then have "f AND NOT 0xFFF = f" using page_offset(2) [OF page_addr_page, of f 0] by simp
  then show ?thesis using translate_pte_page [OF assms(1-3)] assms(4) unfolding vzero_page_def by simp
qed

lemma pt_index_offset: "8 * pt_index l va < 4096"
proof -
  have "unat (take_bit 9 w) < 512" for w :: u64
  proof -
    have "unat (take_bit 9 w) = take_bit 9 (unat w)" by (rule unsigned_take_bit_eq)
    then show ?thesis using take_bit_nat_less_exp [of 9 "unat w"] by simp
  qed
  then have "unat (pt_index l va) < 512" by (simp only: pt_index_alt)
  then show ?thesis by (simp add: word_less_nat_alt unat_mult_u64)
qed

lemma mask_bit: "(mask n :: u32) AND push_bit k 1 \<noteq> 0 \<longleftrightarrow> k < n \<and> k < 32"
proof -
  have "bit (mask n AND push_bit k 1 :: u32) j \<longleftrightarrow> j = k \<and> k < n \<and> k < 32" for j
    by (auto simp: bit_simps)
  then show ?thesis by (metis bit_eq_iff bit_0_eq bot_apply bot_bool_def)
qed

lemma entries_nth: "map (\<lambda>k. pte_ptr k va) [0..<4] ! 2 = pte_ptr 2 va"
proof -
  have "map (\<lambda>k. pte_ptr k va) [0..<4] ! 2 = pte_ptr ([0..<4] ! 2) va" by (rule nth_map) simp
  also have "[0..<4] ! 2 = (2 :: nat)" by (rule trans [OF nth_upt]) simp_all
  finally show ?thesis .
qed

lemma create_pts_append:
  "(\<And>k. k \<in> set ks \<Longrightarrow> present_mask es AND push_bit k 1 \<noteq> 0) \<Longrightarrow> create_pts get es (ks @ ks') = create_pts get es ks'"
  by (induction ks) auto

context frame_source
begin

lemma create_pt_ok:
  assumes av: "avail s (f # fs)" and path: "pt_path (reserved s \<union> frame_cells (f # fs)) s i va" and i: "i < 3"
    and es: "entries es = map (\<lambda>k. pte_ptr k va) [0..<4]"
  shows "\<exists>s'. create_pt get es i s = Inr ((), s') \<and> avail s' fs \<and> reserved s' = reserved s \<and>
    pt_path (reserved s \<union> frame_cells fs) s' (Suc i) va \<and> (\<forall>k \<le> i. cell_at s' k va = cell_at s k va) \<and>
    in_frame f (cell_at s' (Suc i) va) \<and>
    preserves (insert (cell_at s i va) (reserved s \<union> frame_cells [f])) s s' \<and> (\<forall>p. in_frame f p \<longrightarrow> phys s' p = 0) \<and>
    (\<forall>p. p \<notin> reserved s \<union> frame_cells [f] \<union> (\<lambda>k. cell_at s k va) ` {..i} \<longrightarrow> phys s' p = phys s p) \<and>
    (\<forall>k < i. phys s' (cell_at s k va) = phys s (cell_at s k va) + (if Suc k = i then push_bit PG_REFCOUNT_OFFSET 1 else 0))"
proof -
  let ?R = "reserved s" and ?c = "\<lambda>k. cell_at s k va" and ?F = "frame_cells fs"
  have pre: "self_mapped s" "present_levels s i va" "self_cell s \<notin> ?R" "self_cell s \<notin> frame_cells (f # fs)"
      "\<And>k. k \<le> i \<Longrightarrow> ?c k \<notin> ?R \<and> ?c k \<notin> frame_cells (f # fs) \<and> ?c k \<noteq> self_cell s"
      "\<And>j k. j < k \<Longrightarrow> k \<le> i \<Longrightarrow> ?c j \<noteq> ?c k"
    using path i by (auto simp: pt_path_iff)
  have f: "page_addr f" "f \<noteq> 0" "\<And>p. p \<in> ?R \<union> roots s \<Longrightarrow> \<not> in_frame f p" "f \<notin> set fs"
    using avail_frame [OF av, of f] avail_distinct [OF av] by auto
  have ent: "entries es ! k = pte_ptr k va" if "k \<le> 3" for k using that es by simp
  (* the new frame *)
  obtain s1 where s1: "get s = Inr (f, s1)" "avail s1 fs" "reserved s1 = ?R" "roots s1 = roots s"
      "\<forall>p. in_frame f p \<longrightarrow> phys s1 p = 0" "preserves (?R \<union> frame_cells [f]) s s1"
      "\<forall>p. p \<notin> ?R \<union> frame_cells [f] \<longrightarrow> phys s1 p = phys s p"
    using get_preserves [OF av] by blast
  have sub: "?R \<union> frame_cells [f] \<subseteq> ?R \<union> frame_cells (f # fs)" by auto
  have path1: "pt_path (?R \<union> frame_cells (f # fs)) s1 i va" and c1: "\<And>k. k \<le> i \<Longrightarrow> cell_at s1 k va = ?c k"
    using pt_path_preserved [OF path s1(6) sub] i by auto
  have pre1: "self_mapped s1" "tables_ok s1 i va" "entry_at s1 i va AND PG_PRESENT = 0" "cr3 s1 = cr3 s"
    using path1 s1(6) i by (auto simp: pt_path_iff present_levels_def preserves_def)
  (* the entry for it *)
  define v where "v = f OR PG_PRESENT OR PG_RW OR PG_USER"
  define s2 where "s2 = s1\<lparr>phys := (phys s1)(?c i := v)\<rparr>"
  note v = new_table_entry [OF f(1), folded v_def]
  have store: "vstore (entries es ! i) v s1 = Inr ((), s2)"
    using vstore_pte_ptr [OF pre1(1,2), of v] i c1 [of i] by (simp add: ent s2_def)
  have p2: "preserves {?c i} s1 s2" by (simp add: preserves_def s2_def)
  have c2: "cell_at s2 k va = ?c k" if "k \<le> i" for k
    using cells_preserved [OF p2, of k va] c1 pre(6) that by (simp add: less_le_trans)
  have self2: "self_mapped s2"
    using self_mapped_preserved [OF p2] pre1(1,4) pre(5) [of i] by auto
  have "tables_ok s2 i va" using tables_ok_preserved [OF p2, of i va] pre1(2) c1 pre(6) by auto
  moreover have e2: "entry_at s2 i va = v" by (simp add: entry_at_def c2) (simp add: s2_def)
  ultimately have tab2: "tables_ok s2 (Suc i) va" using v(2) by (auto simp: tables_ok_def less_Suc_eq)
  have at2: "table_at (phys s2) (cr3 s2) (Suc i) va = f"
    using e2 v(1) by (simp add: table_at_Suc entry_at_def del: table_at.simps)
  have not_root: "?c i \<notin> roots s1"
    using roots_present [OF s1(2), of "?c i"] pre1(3) c1 [of i] by (auto simp: entry_at_def)
  have fi: "?c i \<notin> reserved s1" "?c i \<notin> ?F" using pre(5) [of i] by (auto simp: s1(3))
  note av2 = avail_store [OF s1(2) fi, of v, folded s2_def]
  have av2: "avail s2 fs" "reserved s2 = ?R" "roots s2 = roots s" using av2 not_root by (simp_all add: s1(3,4))
  (* the new table is cleared *)
  define s3 where "s3 = s2\<lparr>phys := (\<lambda>p. if in_frame f p then 0 else phys s2 p)\<rparr>"
  have zero: "vzero_page (entries es ! (i + 1) AND NOT 0xFFF) s2 = Inr ((), s3)"
    using vzero_pte_page [OF self2 tab2 _ at2] i ent [of "Suc i"] unfolding s3_def Suc_eq_plus1 [symmetric] by simp
  have p3: "preserves (frame_cells [f]) s2 s3" by (simp add: preserves_def s3_def)
  have out2: "?c k \<notin> frame_cells [f]" if "k \<le> i" for k using pre(5) [OF that] by simp
  have cr2: "cr3 s2 = cr3 s" using pre1(4) by (simp add: s2_def)
  have self3: "self_mapped s3" using self_mapped_preserved [OF p3] self2 pre(4) by (simp add: cr2)
  have c3: "cell_at s3 k va = cell_at s2 k va" if "k \<le> Suc i" for k
    using that by (intro cells_preserved [OF p3]) (simp add: c2 out2 del: frame_cells_simps)
  have tab3: "tables_ok s3 (Suc i) va"
    using tables_ok_preserved [OF p3, of "Suc i" va] tab2 by (simp add: c2 out2 del: frame_cells_simps)
  have in_f: "in_frame f (cell_at s2 (Suc i) va)"
    unfolding entry_cell_def at2 by (rule in_frame_add [OF page_addr_page [OF f(1)] pt_index_offset])
  have e3: "entry_at s3 (Suc i) va = 0" using in_f by (simp add: entry_at_def c3) (simp add: s3_def)
  note av3 = avail_clear [OF av2(1) f(1,4), folded s3_def, unfolded av2(2,3), OF f(3)]
  have av3: "avail s3 fs" "reserved s3 = ?R" "roots s3 = roots s" using av3 by auto
  (* the count of the table above *)
  have "\<exists>s4. (if i > 0 then increase_counter (entries es ! (i - 1)) else returnS ()) s3 = Inr ((), s4) \<and>
      avail s4 fs \<and> reserved s4 = ?R \<and> preserves {} s3 s4 \<and> (\<forall>p. p \<notin> ?c ` {..i} \<longrightarrow> phys s4 p = phys s3 p) \<and>
      (\<forall>k < i. phys s4 (?c k) = phys s3 (?c k) + (if Suc k = i then push_bit PG_REFCOUNT_OFFSET 1 else 0))"
  proof (cases "i = 0")
    case True
    then show ?thesis using av3 by simp
  next
    case False
    let ?d = "cell_at s3 (i - 1) va"
    let ?v = "entry_at s3 (i - 1) va + push_bit PG_REFCOUNT_OFFSET 1"
    have same: "same_entry ?v (phys s3 ?d)" using same_entry_counter(1) by (simp add: entry_at_def)
    have d: "?d = ?c (i - 1)" using c3 [of "i - 1"] c2 [of "i - 1"] by simp
    have dd: "?d \<notin> reserved s3" "?d \<notin> ?F" using pre(5) [of "i - 1"] unfolding d by (auto simp: av3(2))
    note av4 = avail_store [OF av3(1) dd same]
    have "tables_ok s3 (i - 1) va" using tab3 by (auto simp: tables_ok_def)
    then have "increase_counter (entries es ! (i - 1)) s3 = Inr ((), s3\<lparr>phys := (phys s3)(?d := ?v)\<rparr>)"
      using increase_counter_eq [OF self3, of "i - 1" va] i by (simp add: ent)
    moreover have "preserves {} s3 (s3\<lparr>phys := (phys s3)(?d := ?v)\<rparr>)" using same by (simp add: preserves_def)
    moreover have "\<forall>p. p \<notin> ?c ` {..i} \<longrightarrow> phys (s3\<lparr>phys := (phys s3)(?d := ?v)\<rparr>) p = phys s3 p"
    proof (intro allI impI)
      fix p assume "p \<notin> ?c ` {..i}"
      then have "p \<noteq> ?c (i - 1)" by auto
      then have "p \<noteq> ?d" by (simp only: d not_False_eq_True)
      then show "phys (s3\<lparr>phys := (phys s3)(?d := ?v)\<rparr>) p = phys s3 p" by (rule phys_store_other)
    qed
    moreover have "\<forall>k < i. phys (s3\<lparr>phys := (phys s3)(?d := ?v)\<rparr>) (?c k) =
        phys s3 (?c k) + (if Suc k = i then push_bit PG_REFCOUNT_OFFSET 1 else 0)"
    proof (intro allI impI)
      fix k assume k: "k < i"
      show "phys (s3\<lparr>phys := (phys s3)(?d := ?v)\<rparr>) (?c k) = phys s3 (?c k) + (if Suc k = i then push_bit PG_REFCOUNT_OFFSET 1 else 0)"
      proof (cases "Suc k = i")
        case True
        then have "?c k = ?d" using d by auto
        then show ?thesis using True by (simp add: entry_at_def)
      next
        case False
        then have "k < i - 1" using k by simp
        then have "?c k \<noteq> ?d" using pre(6) [of k "i - 1"] d by simp
        then show ?thesis using False by simp
      qed
    qed
    moreover have "0 < i" using False by simp
    ultimately show ?thesis using av4(1) av4(2) [unfolded av3(2)] unfolding if_P [OF \<open>0 < i\<close>] by (intro exI conjI)
  qed
  then obtain s4 where s4: "(if i > 0 then increase_counter (entries es ! (i - 1)) else returnS ()) s3 = Inr ((), s4)"
      "avail s4 fs" "reserved s4 = ?R" "preserves {} s3 s4" "\<And>p. p \<notin> ?c ` {..i} \<Longrightarrow> phys s4 p = phys s3 p"
      "\<forall>k < i. phys s4 (?c k) = phys s3 (?c k) + (if Suc k = i then push_bit PG_REFCOUNT_OFFSET 1 else 0)" by blast
  have run: "create_pt get es i s = Inr ((), s4)"
    using s1(1) store zero s4(1) unfolding create_pt_def v_def by (simp add: bindS_apply thenS_apply)
  have path3: "pt_path (?R \<union> ?F) s3 (Suc i) va"
  proof -
    have cells: "cell_at s3 k va = ?c k" if "k \<le> i" for k using that by (simp add: c3 c2)
    have last: "in_frame f (cell_at s3 (Suc i) va)" using in_f by (simp add: c3)
    have new: "cell_at s3 (Suc i) va \<notin> ?R" "cell_at s3 (Suc i) va \<notin> ?F" "cell_at s3 (Suc i) va \<noteq> self_cell s"
        "\<And>k. k \<le> i \<Longrightarrow> ?c k \<noteq> cell_at s3 (Suc i) va"
    proof -
      show "cell_at s3 (Suc i) va \<notin> ?R" using f(3) last by blast
      show "cell_at s3 (Suc i) va \<notin> ?F" using f(4) last in_frame_unique by (auto simp: frame_cells_def)
      show "cell_at s3 (Suc i) va \<noteq> self_cell s" using pre(4) last by auto
      show "?c k \<noteq> cell_at s3 (Suc i) va" if "k \<le> i" for k using out2 [OF that] last by auto
    qed
    have "min (Suc i) 3 = Suc i" using i by simp
    moreover have "present_levels s3 (Suc i) va"
      using tab3 e3 i by (simp add: present_levels_def)
    moreover have "cr3 s3 = cr3 s" by (simp add: s3_def cr2)
    ultimately show ?thesis
      using self3 pre(3-6) new cells unfolding pt_path_iff by (auto simp: le_Suc_eq)
  qed
  have path4: "pt_path (?R \<union> ?F) s4 (Suc i) va" "\<And>k. k \<le> Suc i \<Longrightarrow> cell_at s4 k va = cell_at s3 k va"
    using pt_path_preserved [OF path3 s4(4)] i by auto
  have all: "preserves (insert (?c i) (?R \<union> frame_cells [f])) s s4"
  proof -
    have "preserves (insert (?c i) (?R \<union> frame_cells [f])) s s2"
      by (rule preserves_trans [OF s1(6) p2]) auto
    moreover have "preserves (frame_cells [f]) s2 s4" by (rule preserves_trans [OF p3 s4(4)]) simp
    ultimately show ?thesis by (rule preserves_trans) auto
  qed
  have "phys s4 p = 0" if "in_frame f p" for p
  proof -
    have "p \<notin> ?c ` {..i}" using out2 that by auto
    then show ?thesis using s4(5) that by (simp add: s3_def)
  qed
  moreover have "phys s4 p = phys s p" if p: "p \<notin> ?R \<union> frame_cells [f] \<union> ?c ` {..i}" for p
  proof -
    have "p \<noteq> ?c i" "\<not> in_frame f p" using p by auto
    then show ?thesis using s4(5) s1(7) p by (simp add: s3_def s2_def)
  qed
  moreover have "phys s3 (?c k) = phys s (?c k)" if k: "k < i" for k
  proof -
    have "?c k \<notin> ?R \<union> frame_cells [f]" "?c k \<noteq> ?c i" using pre(5) [of k] pre(6) [of k i] out2 [of k] k by auto
    then show ?thesis using s1(7) by (simp add: s3_def s2_def)
  qed
  then have "\<forall>k < i. phys s4 (?c k) = phys s (?c k) + (if Suc k = i then push_bit PG_REFCOUNT_OFFSET 1 else 0)" using s4(6) by simp
  ultimately show ?thesis using run s4(2,3) path4 all c3 c2 in_f by (intro exI [of _ s4]) simp
qed

lemma create_pts_ok:
  assumes "avail s fs" "pt_path (reserved s \<union> frame_cells fs) s i va" "i \<le> 3" "3 - i \<le> length fs"
    and "entries es = map (\<lambda>k. pte_ptr k va) [0..<4]"
    and "\<And>k. i \<le> k \<Longrightarrow> k < 3 \<Longrightarrow> present_mask es AND push_bit k 1 = 0"
  shows "\<exists>s'. create_pts get es [i..<3] s = Inr ((), s') \<and> avail s' (drop (3 - i) fs) \<and> reserved s' = reserved s \<and>
    pt_path (reserved s \<union> frame_cells (drop (3 - i) fs)) s' 3 va \<and> cell_at s' i va = cell_at s i va \<and>
    (i < 3 \<longrightarrow> cell_at s' 3 va \<in> frame_cells (take (3 - i) fs)) \<and>
    preserves (reserved s \<union> frame_cells (take (3 - i) fs) \<union> (if i < 3 then {cell_at s i va} else {})) s s'"
  using assms
proof (induction "3 - i" arbitrary: i s fs)
  case 0
  then have "i = 3" by simp
  then show ?case using 0 by simp
next
  case (Suc d)
  then have i: "i < 3" and d: "d = 3 - Suc i" "3 - i = Suc (3 - Suc i)" by auto
  obtain f rest where fs: "fs = f # rest" using Suc.prems(4) i by (cases fs) auto
  obtain s1 where s1: "create_pt get es i s = Inr ((), s1)" "avail s1 rest" "reserved s1 = reserved s"
      "pt_path (reserved s \<union> frame_cells rest) s1 (Suc i) va" "\<forall>k \<le> i. cell_at s1 k va = cell_at s k va"
      "in_frame f (cell_at s1 (Suc i) va)"
      "preserves (insert (cell_at s i va) (reserved s \<union> frame_cells [f])) s s1"
    using create_pt_ok [OF Suc.prems(1)[unfolded fs] Suc.prems(2)[unfolded fs] i Suc.prems(5)] by blast
  let ?n = "3 - Suc i"
  have len: "?n \<le> length rest" using Suc.prems(4) d fs by simp
  have path1: "pt_path (reserved s1 \<union> frame_cells rest) s1 (Suc i) va" using s1(3,4) by simp
  obtain s2 where s2: "create_pts get es [Suc i..<3] s1 = Inr ((), s2)" "avail s2 (drop ?n rest)" "reserved s2 = reserved s1"
      "pt_path (reserved s1 \<union> frame_cells (drop ?n rest)) s2 3 va" "cell_at s2 (Suc i) va = cell_at s1 (Suc i) va"
      "Suc i < 3 \<longrightarrow> cell_at s2 3 va \<in> frame_cells (take ?n rest)"
      "preserves (reserved s1 \<union> frame_cells (take ?n rest) \<union> (if Suc i < 3 then {cell_at s1 (Suc i) va} else {})) s1 s2"
    using Suc.hyps(1) [OF d(1) s1(2) path1 _ len Suc.prems(5)] Suc.prems(6) i by auto
  let ?X = "reserved s1 \<union> frame_cells (take ?n rest) \<union> (if Suc i < 3 then {cell_at s1 (Suc i) va} else {})"
  have take: "take (3 - i) fs = f # take ?n rest" and drop: "drop (3 - i) fs = drop ?n rest"
    by (simp_all add: fs d(2))
  have list: "[i..<3] = i # [Suc i..<3]" using i by (simp add: upt_conv_Cons)
  have mask: "present_mask es AND push_bit i 1 = 0" using Suc.prems(6) i by simp
  have run: "create_pts get es [i..<3] s = Inr ((), s2)"
    unfolding list using mask s1(1) s2(1) by (simp add: thenS_apply)
  have cell_i: "cell_at s2 i va = cell_at s i va"
  proof -
    have "cell_at s1 k va \<notin> ?X" if "k < i" for k
    proof -
      have "min i 3 = i" "min (Suc i) 3 = Suc i" using i by auto
      then have "cell_at s1 k va \<notin> reserved s" "cell_at s1 k va \<notin> frame_cells rest" "cell_at s1 k va \<noteq> cell_at s1 (Suc i) va"
        using s1(4) that by (auto simp: pt_path_iff)
      moreover have "frame_cells (take ?n rest) \<subseteq> frame_cells rest" by (rule frame_cells_mono) (rule set_take_subset)
      ultimately show ?thesis using s1(3) by auto
    qed
    then have "cell_at s2 i va = cell_at s1 i va" by (rule cells_preserved [OF s2(7)])
    then show ?thesis using s1(5) by simp
  qed
  have last: "cell_at s2 3 va \<in> frame_cells (take (3 - i) fs)"
  proof (cases "Suc i < 3")
    case True
    then show ?thesis using s2(6) unfolding take by simp
  next
    case False
    then have "Suc i = 3" using i by simp
    then show ?thesis using s1(6) s2(5) unfolding take by simp
  qed
  have "preserves (reserved s \<union> frame_cells (take (3 - i) fs) \<union> {cell_at s i va}) s s2"
    by (rule preserves_trans [OF s1(7) s2(7)]) (use s1(3,6) in \<open>auto simp: take split: if_splits\<close>)
  then show ?case using run s2(2-4) s1(3) cell_i last i by (intro exI [of _ s2]) (simp add: drop)
qed

lemma ensure_pt_exists_ok:
  assumes "avail s fs" "pt_path (reserved s \<union> frame_cells fs) s n va" "n < 3" "3 - n \<le> length fs"
    and "entries es = map (\<lambda>k. pte_ptr k va) [0..<4]" "present_mask es = mask n"
  shows "\<exists>s'. ensure_pt_exists get es s = Inr ((), s') \<and> avail s' (drop (3 - n) fs) \<and> reserved s' = reserved s \<and>
    pt_path (reserved s \<union> frame_cells (drop (3 - n) fs)) s' 3 va \<and> cell_at s' 3 va \<in> frame_cells (take (3 - n) fs) \<and>
    preserves (reserved s \<union> frame_cells (take (3 - n) fs) \<union> {cell_at s n va}) s s'"
proof -
  have "[0..<3] = [0..<n] @ [n..<3]" using assms(3) upt_add_eq_append [of 0 n "3 - n"] by simp
  moreover have "create_pts get es ([0..<n] @ [n..<3]) = create_pts get es [n..<3]"
    by (rule create_pts_append) (use assms(3,6) mask_bit in auto)
  ultimately have "ensure_pt_exists get es = create_pts get es [n..<3]" by (simp only: ensure_pt_exists_def)
  moreover have "present_mask es AND push_bit k 1 = 0" if "n \<le> k" "k < 3" for k
    using mask_bit [of n k] that assms(6) by auto
  ultimately show ?thesis
    using create_pts_ok [OF assms(1,2) less_imp_le [OF assms(3)] assms(4,5)] assms(3) by simp blast
qed

text \<open>\<open>map_page\<close> with enough frames for the missing tables.\<close>

lemma map_page_from_ok:
  assumes av: "avail s fs" and path: "pt_path (reserved s \<union> frame_cells fs) s n va" and len: "3 - n \<le> length fs"
    and va: "va AND 0xFFF = 0" and pa: "physical AND 0xFFF = 0" and leaf: "n = 4 \<Longrightarrow> cell_at s 3 va \<notin> roots s"
  shows "\<exists>s'. map_page_from get va physical flags s = Inr ((), s') \<and> avail s' (drop (3 - n) fs) \<and> reserved s' = reserved s \<and>
    self_mapped s' \<and> tables_ok s' 3 va \<and> entry_at s' 3 va = physical OR flags \<and>
    preserves (reserved s \<union> frame_cells (take (3 - n) fs) \<union> {cell_at s (min n 3) va}) s s'"
proof -
  let ?R = "reserved s" and ?X = "reserved s \<union> frame_cells (take (3 - n) fs) \<union> {cell_at s (min n 3) va}"
  let ?fs = "drop (3 - n) fs"
  let ?e = "\<lparr>entries = map (\<lambda>k. pte_ptr k va) [0..<4], present_mask = mask n\<rparr>"
  have n: "n \<le> 4" "self_mapped s" "present_levels s n va" using path by (auto simp: pt_path_iff present_levels_def)
  have ptes: "ptes va s = Inr (?e, s)" by (rule ptes_result [OF n(2,3)])
  (* the tables *)
  have "\<exists>s1. (if present_mask ?e AND push_bit 2 1 = 0 then ensure_pt_exists get ?e else returnS ()) s = Inr ((), s1) \<and>
      avail s1 ?fs \<and> reserved s1 = ?R \<and> pt_path (?R \<union> frame_cells ?fs) s1 (max n 3) va \<and>
      cell_at s1 3 va \<in> insert (cell_at s (min n 3) va) (frame_cells (take (3 - n) fs)) \<and>
      (n = 4 \<longrightarrow> s1 = s) \<and> preserves ?X s s1"
  proof (cases "n < 3")
    case True
    then have "present_mask ?e AND push_bit 2 1 = 0" using mask_bit [of n 2] by simp
    then show ?thesis
      using ensure_pt_exists_ok [OF av path True len, of ?e] True by (auto simp: max_def min_def)
  next
    case False
    then have "present_mask ?e AND push_bit 2 1 \<noteq> 0" using mask_bit [of n 2] by simp
    then show ?thesis using False av path n(1) by (auto simp: max_def min_def)
  qed
  then obtain s1 where s1: "(if present_mask ?e AND push_bit 2 1 = 0 then ensure_pt_exists get ?e else returnS ()) s = Inr ((), s1)"
      "avail s1 ?fs" "reserved s1 = ?R" "pt_path (?R \<union> frame_cells ?fs) s1 (max n 3) va"
      "cell_at s1 3 va \<in> insert (cell_at s (min n 3) va) (frame_cells (take (3 - n) fs))" "n = 4 \<longrightarrow> s1 = s" "preserves ?X s s1"
    by blast
  have max: "min (max n 3) 3 = 3" by simp
  have p1: "self_mapped s1" "tables_ok s1 3 va" "\<And>k. k \<le> 3 \<Longrightarrow> cell_at s1 k va \<notin> ?R \<union> frame_cells ?fs"
      "n \<noteq> 4 \<Longrightarrow> entry_at s1 3 va AND PG_PRESENT = 0" "\<And>k. k < 3 \<Longrightarrow> cell_at s1 k va \<noteq> cell_at s1 3 va"
      "cell_at s1 3 va \<noteq> self_cell s1"
    using s1(4) n(1) unfolding pt_path_iff max by (auto simp: present_levels_def max_def split: if_splits)
  (* the count of the page table *)
  have "\<exists>s2. (if present_mask ?e AND push_bit 3 1 = 0 then increase_counter (entries ?e ! 2) else returnS ()) s1 = Inr ((), s2) \<and>
      avail s2 ?fs \<and> reserved s2 = ?R \<and> roots s2 = roots s1 \<and> preserves {} s1 s2"
  proof (cases "n = 4")
    case True
    then show ?thesis using s1 mask_bit [of n 3] by simp
  next
    case False
    let ?d = "cell_at s1 2 va"
    let ?v = "entry_at s1 2 va + push_bit PG_REFCOUNT_OFFSET 1"
    have same: "same_entry ?v (phys s1 ?d)" using same_entry_counter(1) by (simp add: entry_at_def)
    have d: "?d \<notin> reserved s1" "?d \<notin> frame_cells ?fs" using p1(3) [of 2] s1(3) by auto
    note av2 = avail_store [OF s1(2) d same]
    have "tables_ok s1 2 va" using p1(2) by (auto simp: tables_ok_def)
    then have "increase_counter (entries ?e ! 2) s1 = Inr ((), s1\<lparr>phys := (phys s1)(?d := ?v)\<rparr>)"
      using increase_counter_eq [OF p1(1), of 2 va] by (simp only: pt_entries.select_convs entries_nth)
    moreover have "preserves {} s1 (s1\<lparr>phys := (phys s1)(?d := ?v)\<rparr>)" using same by (simp add: preserves_def)
    ultimately show ?thesis using av2 s1(3) False n(1) mask_bit [of n 3] by (intro exI conjI) simp_all
  qed
  then obtain s2 where s2: "(if present_mask ?e AND push_bit 3 1 = 0 then increase_counter (entries ?e ! 2) else returnS ()) s1 = Inr ((), s2)"
      "avail s2 ?fs" "reserved s2 = ?R" "roots s2 = roots s1" "preserves {} s1 s2" by blast
  have c2: "cell_at s2 k va = cell_at s1 k va" for k by (rule cells_preserved [OF s2(5)]) simp
  have p2: "self_mapped s2" "tables_ok s2 3 va"
    using self_mapped_preserved [OF s2(5)] tables_ok_preserved [OF s2(5), of 3 va] p1(1,2) by auto
  (* the leaf *)
  let ?c = "cell_at s1 3 va"
  define s3 where "s3 = s2\<lparr>phys := (phys s2)(?c := physical OR flags)\<rparr>"
  have store: "vstore (entries ?e ! 3) (physical OR flags) s2 = Inr ((), s3)"
    using vstore_pte_ptr [OF p2, of "physical OR flags"] by (simp add: c2 s3_def)
  have "?c \<notin> roots s2"
  proof (cases "n = 4")
    case True
    then show ?thesis using leaf s1(6) s2(4) by simp
  next
    case False
    then show ?thesis using p1(4) roots_present [OF s1(2), of ?c] s2(4) by (auto simp: entry_at_def)
  qed
  moreover have "?c \<notin> reserved s2" "?c \<notin> frame_cells ?fs" using p1(3) [of 3] by (auto simp: s2(3))
  ultimately have av3: "avail s3 ?fs" "reserved s3 = ?R"
    using avail_store [OF s2(2), of ?c "physical OR flags"] s2(3) by (auto simp: s3_def)
  have p3: "preserves {?c} s2 s3" by (simp add: preserves_def s3_def)
  have c3: "cell_at s3 k va = cell_at s1 k va" if "k \<le> 3" for k
    using cells_preserved [OF p3, of k va] p1(5) that by (simp add: c2)
  have "cr3 s2 = cr3 s1" using s2(5) by (simp add: preserves_def)
  then have "self_mapped s3" using self_mapped_preserved [OF p3] p2(1) p1(6) by auto
  moreover have "tables_ok s3 3 va"
    using tables_ok_preserved [OF p3, of 3 va] p2(2) p1(5) unfolding c2 by auto
  moreover have "entry_at s3 3 va = physical OR flags" by (simp add: entry_at_def c3) (simp add: s3_def)
  moreover have "preserves ?X s s3"
  proof -
    have "preserves ?X s s2" by (rule preserves_trans [OF s1(7) s2(5)]) simp
    then show ?thesis by (rule preserves_trans [OF _ p3]) (use s1(5) in auto)
  qed
  moreover have "map_page_from get va physical flags s = Inr ((), s3)"
    using va pa ptes s1(1) s2(1) store by (simp add: map_page_from_def thenS_apply bindS_apply mod_4096)
  ultimately show ?thesis using av3 by blast
qed

end

section \<open>Writes to lazy pages\<close>

text \<open>The entry that replaces a lazy one.\<close>

lemma unlazy_entry:
  assumes f: "page_addr f" and e: "e AND PG_PRESENT \<noteq> 0"
  defines "v \<equiv> f OR ((e AND NOT (PHYS_ADDR_MASK OR PG_LAZY)) OR PG_RW)"
  shows "v AND PHYS_ADDR_MASK = f" "v AND PG_PRESENT \<noteq> 0" "v AND PG_RW \<noteq> 0" "v AND PG_LAZY = 0"
proof -
  have rw: "bit PG_RW n \<longleftrightarrow> n = 1" for n
    using bit_exp_iff [where 'a = "64 word", of 1 n] by (auto simp: PG_RW_def)
  have lazy: "bit PG_LAZY n \<longleftrightarrow> n = 9" for n
    using bit_exp_iff [where 'a = "64 word", of 9 n] by (auto simp: PG_LAZY_def)
  have p: "bit PG_PRESENT n \<longleftrightarrow> n = 0" for n by (auto simp: PG_PRESENT_def bit_1_iff)
  show "v AND PHYS_ADDR_MASK = f"
    unfolding v_def phys_addr_mask_alt
    by (rule bit_word_eqI) (auto simp: bit_simps rw lazy dest: page_addr_bit [OF f])
  have "bit e 0" using e by (metis PG_PRESENT_def and_one_eq even_iff_mod_2_eq_zero bit_0 one_and_eq)
  then have "bit (v AND PG_PRESENT) 0" by (simp add: v_def phys_addr_mask_alt bit_simps p lazy)
  then show "v AND PG_PRESENT \<noteq> 0" by (metis bit_0_eq bot_apply bot_bool_def)
  have "bit (v AND PG_RW) 1" by (simp add: v_def bit_simps rw)
  then show "v AND PG_RW \<noteq> 0" by (metis bit_0_eq bot_apply bot_bool_def)
  show "v AND PG_LAZY = 0"
    unfolding v_def by (rule bit_word_eqI) (auto simp: bit_simps rw lazy dest: page_addr_bit [OF f])
qed

context frame_source
begin

lemma lazy_fault_ok:
  assumes av: "avail s (f # fs)" and path: "pt_path (reserved s \<union> frame_cells (f # fs)) s 4 va"
    and leaf: "cell_at s 3 va \<notin> roots s" "entry_at s 3 va AND PG_LAZY \<noteq> 0"
    and code: "error_code AND PF_PROT_VIOLATION \<noteq> 0" "error_code AND PF_WRITE \<noteq> 0"
  shows "\<exists>s'. page_fault_handler get generic va error_code s = Inr ((), s') \<and> avail s' fs \<and> self_mapped s' \<and>
    tables_ok s' 3 va \<and> entry_at s' 3 va = f OR ((entry_at s 3 va AND NOT (PHYS_ADDR_MASK OR PG_LAZY)) OR PG_RW) \<and>
    (\<forall>p. in_frame f p \<longrightarrow> phys s' p = 0) \<and> preserves (reserved s \<union> frame_cells [f] \<union> {cell_at s 3 va}) s s'"
proof -
  let ?R = "reserved s" and ?c = "cell_at s 3 va"
  let ?v = "f OR ((entry_at s 3 va AND NOT (PHYS_ADDR_MASK OR PG_LAZY)) OR PG_RW)"
  have pre: "self_mapped s" "tables_ok s 3 va" "present_levels s 4 va" using path by (auto simp: pt_path_iff present_levels_def)
  have cells: "?c \<notin> ?R" "?c \<notin> frame_cells (f # fs)" "?c \<noteq> self_cell s" "\<And>k. k < 3 \<Longrightarrow> cell_at s k va \<noteq> ?c"
    using path by (auto simp: pt_path_iff)
  have ptes: "ptes va s = Inr (\<lparr>entries = map (\<lambda>k. pte_ptr k va) [0..<4], present_mask = mask 4\<rparr>, s)"
    by (rule ptes_result [OF pre(1,3)])
  obtain s1 where s1: "get s = Inr (f, s1)" "avail s1 fs" "reserved s1 = ?R" "roots s1 = roots s"
      "\<forall>p. in_frame f p \<longrightarrow> phys s1 p = 0" "preserves (?R \<union> frame_cells [f]) s s1"
    using get_preserves [OF av] by blast
  have sub: "?R \<union> frame_cells [f] \<subseteq> ?R \<union> frame_cells (f # fs)" by auto
  have path1: "pt_path (?R \<union> frame_cells (f # fs)) s1 4 va" and c1: "\<And>k. k \<le> 3 \<Longrightarrow> cell_at s1 k va = cell_at s k va"
    using pt_path_preserved [OF path s1(6) sub] by auto
  have pre1: "self_mapped s1" "tables_ok s1 3 va" using path1 by (auto simp: pt_path_iff present_levels_def)
  define s2 where "s2 = s1\<lparr>phys := (phys s1)(?c := ?v)\<rparr>"
  have store: "vstore (pte_ptr 3 va) ?v s1 = Inr ((), s2)"
    using vstore_pte_ptr [OF pre1, of ?v] by (simp add: c1 s2_def)
  have load: "vload (pte_ptr 3 va) s = Inr (entry_at s 3 va, s)" using vload_pte_ptr [OF pre(1,2)] by simp
  have "map (\<lambda>k. pte_ptr k va) [0..<4] ! 3 = pte_ptr 3 va" by simp
  then have run: "page_fault_handler get generic va error_code s = Inr ((), s2)"
    using ptes load leaf(2) code s1(1) store by (simp add: page_fault_handler_def bindS_apply Let_def)
  have p2: "preserves {?c} s1 s2" by (simp add: preserves_def s2_def)
  have avail2: "avail s2 fs"
    using avail_store(1) [OF s1(2), of ?c ?v] cells(1,2) leaf(1) by (simp add: s2_def s1(3,4))
  have self2: "self_mapped s2" using self_mapped_preserved [OF p2] pre1(1) s1(6) cells(3) by (auto simp: preserves_def)
  have tab2: "tables_ok s2 3 va" using tables_ok_preserved [OF p2, of 3 va] pre1(2) cells(4) c1 by auto
  have "cell_at s2 3 va = ?c" using cells_preserved [OF p2, of 3 va] cells(4) c1 by auto
  moreover have "phys s2 = (phys s1)(?c := ?v)" by (simp add: s2_def)
  then have "phys s2 ?c = ?v" by (simp only: fun_upd_same)
  ultimately have "entry_at s2 3 va = ?v" by (simp only: entry_at_def)
  moreover have "\<forall>p. in_frame f p \<longrightarrow> phys s2 p = 0" using s1(5) cells(2) by (auto simp: s2_def)
  moreover have "preserves (?R \<union> frame_cells [f] \<union> {?c}) s s2" by (rule preserves_trans [OF s1(6) p2]) simp
  ultimately show ?thesis using run avail2 self2 tab2 by blast
qed

end

section \<open>Other addresses\<close>

text \<open>
  An address that was mapped keeps its translation when only cells off its path, or not present before,
  change.
\<close>

lemma translate_preserved:
  assumes "preserves X s s'" "translate s va \<noteq> None"
    and "\<And>p. p \<in> path_of s va \<Longrightarrow> p \<in> X \<Longrightarrow> phys s p AND PG_PRESENT = 0"
  shows "translate s' va = translate s va"
proof (rule translate_stable(1))
  show "cr3 s' = cr3 s" using assms(1) by (simp add: preserves_def)
  show "same_entry (phys s' p) (phys s p)" if "p \<in> path_of s va" for p
    using path_present [OF assms(2) that] assms(1,3) that by (auto simp: preserves_def)
qed

end
