(* ===== verification/Heap.thy ===== *)
theory Heap imports Buddy_Client Pages begin

text \<open>
  The kernel heap, \<open>mm/alloc.c\<close>: one buddy allocator over 8 MiB behind the kernel, with its bitmaps in front. The
  pages are mapped by the page table code; the heap reads and writes them as bytes.
\<close>

section \<open>State and constants\<close>

definition KERNEL_HEAP_SIZE :: u64 where "KERNEL_HEAP_SIZE = 8 * 1024 * 1024"
definition KERNEL_HEAP_LEAF :: u64 where "KERNEL_HEAP_LEAF = 64"
definition kernel_heap :: addr where "kernel_heap = 0xffffffff81000000"

text \<open>The page tables and the variable \<open>heap_allocator\<close> with the memory it works on.\<close>

record memory_state =
  ms_kernel :: kernel
  ms_heap :: heap

definition on_pages :: "(kernel, 'a) kproc \<Rightarrow> (memory_state, 'a) kproc" where
  "on_pages p = (\<lambda>s. mapE (\<lambda>(x, k). (x, s\<lparr>ms_kernel := k\<rparr>)) (p (ms_kernel s)))"

definition on_blocks :: "(heap, 'a) kproc \<Rightarrow> (memory_state, 'a) kproc" where
  "on_blocks p = (\<lambda>s. mapE (\<lambda>(x, h). (x, s\<lparr>ms_heap := h\<rparr>)) (p (ms_heap s)))"

section \<open>Operations\<close>

text \<open>The report at the end, which only prints, is left out.\<close>

definition initialize_kernel_heap :: "(memory_state, unit) kproc" where
  "initialize_kernel_heap =
     bindS (on_blocks (liftS (\<lambda>_. allocator_bitmaps_size KERNEL_HEAP_SIZE KERNEL_HEAP_LEAF))) (\<lambda>bitmap_size.
     thenS (on_pages (map_range kernel_heap bitmap_size (MAP_RW OR MAP_IMMEDIATE)))
    (thenS (on_pages (map_range (kernel_heap + bitmap_size) KERNEL_HEAP_SIZE MAP_RW))
     (on_blocks (allocator_init (kernel_heap + bitmap_size) KERNEL_HEAP_SIZE KERNEL_HEAP_LEAF kernel_heap))))"

definition kalloc :: "u64 \<Rightarrow> addr heap_proc" where
  "kalloc sz = allocator_allocate sz"

definition kfree :: "addr \<Rightarrow> unit heap_proc" where
  "kfree ptr = allocator_deallocate ptr"

text \<open>A memory routine on the bytes; an area at the unmapped address 0 faults.\<close>

definition on_area :: "addr \<Rightarrow> u64 \<Rightarrow> (mem \<Rightarrow> mem \<times> addr) \<Rightarrow> addr heap_proc" where
  "on_area a num f =
     thenS (if num = 0 then returnS () else deref a)
           (\<lambda>s. case f (hp_mem s) of (m, r) \<Rightarrow> Inr (r, s\<lparr>hp_mem := m\<rparr>))"

definition krealloc :: "addr \<Rightarrow> u64 \<Rightarrow> addr heap_proc" where
  "krealloc ptr sz =
     bindS (allocator_allocation_size ptr) (\<lambda>current_size.
     bindS (liftS (\<lambda>_. ceil_to_power_of_two sz)) (\<lambda>new_size.
     if new_size = current_size then returnS ptr
     else
       bindS (kalloc new_size) (\<lambda>new_ptr.
       thenS (on_area new_ptr current_size (\<lambda>m. memcpy m new_ptr ptr current_size))
      (thenS (allocator_deallocate_fast ptr current_size)
       (returnS new_ptr)))))"

definition kzalloc :: "u64 \<Rightarrow> addr heap_proc" where
  "kzalloc sz =
     bindS (kalloc sz) (\<lambda>ptr.
     thenS (on_area ptr sz (\<lambda>m. memset m ptr 0 sz)) (returnS ptr))"

section \<open>The heap at boot\<close>

lemma heap_constants:
  "allocator_bitmaps_size KERNEL_HEAP_SIZE KERNEL_HEAP_LEAF = Inr 0x40000" "KERNEL_HEAP_SIZE = 2 ^ 23" "KERNEL_HEAP_LEAF = 2 ^ (23 - 17)"
  "kernel_heap + 0x40000 = 0xFFFFFFFF81040000"
  by (simp_all add: allocator_bitmaps_size_def KERNEL_HEAP_SIZE_def KERNEL_HEAP_LEAF_def kernel_heap_def)

definition map_kernel_heap :: "(kernel, unit) kproc" where
  "map_kernel_heap = thenS (map_range kernel_heap 0x40000 (MAP_RW OR MAP_IMMEDIATE)) (map_range 0xFFFFFFFF81040000 0x800000 MAP_RW)"

lemma kernel_heap_init:
  assumes "load_u64 (hp_mem h) 0xFFFFFFFF81040000 = 0" "load_u64 (hp_mem h) 0xFFFFFFFF81040008 = 0"
  shows "\<exists>h'. allocator_init 0xFFFFFFFF81040000 KERNEL_HEAP_SIZE KERNEL_HEAP_LEAF kernel_heap h = Inr ((), h') \<and>
    heap_ok 23 17 fresh_tree h' \<and> links_ok 17 h' \<and> al_memory h' = 0xFFFFFFFF81040000 \<and> al_allocation_bitmap h' = kernel_heap \<and>
    meta 17 h' \<subseteq> area_of kernel_heap 0x40000"
proof -
  have i: "init_ok 23 17 0xFFFFFFFF81040000 kernel_heap (hp_mem h)"
    using assms by (simp add: init_ok_def heap_place_def bitmap_size_def kernel_heap_def)
  obtain h' where h': "allocator_init 0xFFFFFFFF81040000 (2 ^ 23) (2 ^ (23 - 17)) kernel_heap h = Inr ((), h')"
      "heap_ok 23 17 fresh_tree h'" "links_ok 17 h'" "al_memory h' = 0xFFFFFFFF81040000" "al_allocation_bitmap h' = kernel_heap"
      "al_split_bitmap h' = kernel_heap + of_nat (bitmap_size 17)"
    using allocator_init_ok [OF i] by blast
  have n: "bitmap_size 17 = 16384" by (simp add: bitmap_size_def)
  have "x \<in> area_of kernel_heap 0x40000" if "x \<in> meta 17 h'" for x
  proof -
    have "x \<in> (\<lambda>k. kernel_heap + of_nat k) ` {..<16384} \<or> x \<in> (\<lambda>k. kernel_heap + 16384 + of_nat k) ` {..<16384}"
      using that h'(5,6) by (simp add: meta_def bitmap_bytes_eq n)
    then have "unat kernel_heap \<le> unat x \<and> unat x < unat kernel_heap + 0x40000"
      using region_mem [of kernel_heap 16384 x] region_mem [of "kernel_heap + 16384" 16384 x] by (auto simp: kernel_heap_def)
    then show ?thesis by (simp add: area_of_iff kernel_heap_def)
  qed
  then show ?thesis using h'(1-5) unfolding heap_constants(2,3) by blast
qed

lemma initialize_kernel_heap_run:
  assumes "load_u64 (hp_mem (ms_heap s)) 0xFFFFFFFF81040000 = 0" "load_u64 (hp_mem (ms_heap s)) 0xFFFFFFFF81040008 = 0"
  shows "\<exists>h. initialize_kernel_heap s = mapE (\<lambda>(u, k). (u, s\<lparr>ms_kernel := k, ms_heap := h\<rparr>)) (map_kernel_heap (ms_kernel s)) \<and>
    heap_ok 23 17 fresh_tree h \<and> links_ok 17 h \<and> al_memory h = 0xFFFFFFFF81040000 \<and> meta 17 h \<subseteq> area_of kernel_heap 0x40000"
proof -
  obtain h where h: "allocator_init 0xFFFFFFFF81040000 KERNEL_HEAP_SIZE KERNEL_HEAP_LEAF kernel_heap (ms_heap s) = Inr ((), h)"
      "heap_ok 23 17 fresh_tree h" "links_ok 17 h" "al_memory h = 0xFFFFFFFF81040000"
      "meta 17 h \<subseteq> area_of kernel_heap 0x40000"
    using kernel_heap_init [OF assms] by blast
  note ev = initialize_kernel_heap_def map_kernel_heap_def bindS_apply thenS_apply on_blocks_def on_pages_def liftS_def
    heap_constants(1) res_simps split_conv
  have "initialize_kernel_heap s = mapE (\<lambda>(u, k). (u, s\<lparr>ms_kernel := k, ms_heap := h\<rparr>)) (map_kernel_heap (ms_kernel s))"
  proof (cases "map_range kernel_heap 0x40000 (MAP_RW OR MAP_IMMEDIATE) (ms_kernel s)")
    case (Inl e)
    then show ?thesis by (simp add: ev)
  next
    case (Inr r)
    then obtain k1 where k1: "map_range kernel_heap 0x40000 (MAP_RW OR MAP_IMMEDIATE) (ms_kernel s) = Inr ((), k1)" by (cases r) auto
    have c: "map_range (kernel_heap + 0x40000) KERNEL_HEAP_SIZE MAP_RW k1 = map_range 0xFFFFFFFF81040000 0x800000 MAP_RW k1"
      unfolding heap_constants(4) by (simp add: KERNEL_HEAP_SIZE_def)
    show ?thesis
    proof (cases "map_range 0xFFFFFFFF81040000 0x800000 MAP_RW k1")
      case (Inl e)
      then show ?thesis using k1 c by (simp add: ev)
    next
      case (Inr r)
      then obtain k2 where "map_range 0xFFFFFFFF81040000 0x800000 MAP_RW k1 = Inr ((), k2)" by (cases r) auto
      then show ?thesis using k1 c h(1) by (simp add: ev heap_constants(4))
    qed
  qed
  then show ?thesis using h by blast
qed

section \<open>Allocation and reallocation\<close>

lemma ceil_power: "k \<le> 30 \<Longrightarrow> ceil_to_power_of_two (2 ^ k) = Inr (2 ^ k)"
proof -
  assume k: "k \<le> 30"
  then have u: "unat (2 ^ k :: u64) = 2 ^ k" by (intro unat_power_u64) simp
  have "(LEAST j. (2 :: nat) ^ k \<le> 2 ^ j) = k" by (rule Least_equality) simp_all
  moreover have "(2 :: nat) ^ k \<le> 2 ^ 30" using k by (intro power_increasing) simp_all
  moreover have "(2 :: u64) ^ k \<noteq> 0" using u by (metis power_not_zero unat_0 zero_neq_numeral)
  ultimately show ?thesis by (simp add: ceil_to_power_of_two_eq u)
qed

lemma ceil_result:
  assumes "ceil_to_power_of_two sz = Inr n"
  shows "unat sz \<le> unat n" "ceil_to_power_of_two n = Inr n"
proof -
  have sz: "0 < unat sz" "unat sz \<le> 2 ^ 30" using assms by (auto simp: ceil_to_power_of_two_eq unat_gt_0 split: if_splits)
  obtain k where k: "n = 2 ^ k" "k \<le> 30" "unat sz \<le> 2 ^ k"
    using ceil_to_power_of_two_ok [OF sz] assms by auto
  then show "unat sz \<le> unat n" "ceil_to_power_of_two n = Inr n" using ceil_power by (simp_all add: unat_power_u64)
qed

lemma on_area_run:
  assumes "a \<noteq> 0"
  shows "on_area a num f h = Inr (snd (f (hp_mem h)), h\<lparr>hp_mem := fst (f (hp_mem h))\<rparr>)"
  using assms by (simp add: on_area_def thenS_apply deref_def case_prod_unfold)

text \<open>
  Property C13: \<open>kzalloc\<close>. When there is room for the rounded size, it returns a block of that size that overlaps no
  block in use, with the bytes asked for all 0; the contents of the other blocks in use are as before.
\<close>

theorem kzalloc_correct:
  assumes "blocks_inv K M st h" "ceil_to_power_of_two sz = Inr n" "blocks_room K M st n"
  shows "\<exists>a st' h'. kzalloc sz h = Inr (a, h') \<and> a \<noteq> 0 \<and> blocks_inv K M st' h' \<and>
    used_blocks K M st' h' = insert (a, unat n) (used_blocks K M st h) \<and> (\<forall>x \<in> area_of a (unat sz). hp_mem h' x = 0) \<and>
    (\<forall>b m. (b, m) \<in> used_blocks K M st h \<longrightarrow> area_of b m \<inter> area_of a (unat n) = {}) \<and>
    kept (used_blocks K M st h) (hp_mem h) (hp_mem h')"
proof -
  obtain a g h1 where a: "allocator_allocate sz h = Inr (a, h1)" "a \<noteq> 0"
    and r: "let s2 = h1\<lparr>hp_mem := fst (memset (hp_mem h1) a 0 sz)\<rparr> in
      blocks_inv K M g s2 \<and> used_blocks K M g s2 = insert (a, unat n) (used_blocks K M st h) \<and> (\<forall>x \<in> area_of a (unat sz). hp_mem s2 x = 0) \<and>
      (\<forall>b m. (b, m) \<in> used_blocks K M st h \<longrightarrow> area_of b m \<inter> area_of a (unat n) = {}) \<and> kept (used_blocks K M st h) (hp_mem h) (hp_mem s2)"
    using blocks.zeroed_block [OF assms(1,2) ceil_result(1) [OF assms(2)] assms(3)] by blast
  have "kzalloc sz h = Inr (a, h1\<lparr>hp_mem := fst (memset (hp_mem h1) a 0 sz)\<rparr>)"
    using a by (simp add: kzalloc_def kalloc_def bindS_apply thenS_apply on_area_run)
  then show ?thesis using a(2) r unfolding Let_def by blast
qed

text \<open>
  Property C14: \<open>krealloc\<close> of a block in use to a size that rounds to the same or a larger power of two. When the
  rounded size is that of the block, it returns the same block and changes nothing. When it is larger and there is room,
  the new block overlaps no other block in use and begins with the contents of the old one, which is given back; the
  contents of the other blocks in use are as before.
\<close>

theorem krealloc_correct:
  assumes "blocks_inv K M st h" "(ptr, unat m) \<in> used_blocks K M st h" "ceil_to_power_of_two m = Inr m"
    "ceil_to_power_of_two sz = Inr n" "unat m \<le> unat n"
  shows "(n = m \<longrightarrow> krealloc ptr sz h = Inr (ptr, h)) \<and>
    (n \<noteq> m \<longrightarrow> blocks_room K M st n \<longrightarrow> (\<exists>a st' h'. krealloc ptr sz h = Inr (a, h') \<and> a \<noteq> 0 \<and> blocks_inv K M st' h' \<and>
      used_blocks K M st' h' = insert (a, unat n) (used_blocks K M st h - {(ptr, unat m)}) \<and>
      (\<forall>b k. (b, k) \<in> used_blocks K M st h \<longrightarrow> area_of b k \<inter> area_of a (unat n) = {}) \<and>
      (\<forall>x \<in> area_of a (unat m). hp_mem h' x = hp_mem h (ptr + (x - a))) \<and>
      kept (used_blocks K M st h - {(ptr, unat m)}) (hp_mem h) (hp_mem h')))"
proof (intro conjI impI)
  have size: "allocator_allocation_size ptr h = Inr (m, h)"
    using blocks.block_size [OF assms(1,2)] by (auto simp: word_unat_eq_iff)
  show "krealloc ptr sz h = Inr (ptr, h)" if "n = m"
    using size assms(4) that by (simp add: krealloc_def bindS_apply liftS_def)
  assume ne: "n \<noteq> m" and room: "blocks_room K M st n"
  obtain a g h1 h3 where r: "allocator_allocate n h = Inr (a, h1)" "a \<noteq> 0"
      "allocator_deallocate_fast ptr m (h1\<lparr>hp_mem := fst (memcpy (hp_mem h1) a ptr m)\<rparr>) = Inr ((), h3)" "blocks_inv K M g h3"
      "used_blocks K M g h3 = insert (a, unat n) (used_blocks K M st h - {(ptr, unat m)})"
      "\<forall>b k. (b, k) \<in> used_blocks K M st h \<longrightarrow> area_of b k \<inter> area_of a (unat n) = {}"
      "\<forall>x \<in> area_of a (unat m). hp_mem h3 x = hp_mem h (ptr + (x - a))"
      "kept (used_blocks K M st h - {(ptr, unat m)}) (hp_mem h) (hp_mem h3)"
    using blocks.moved_block [OF assms(1-3) ceil_result(2) [OF assms(4)] assms(5) room] by blast
  have "krealloc ptr sz h = Inr (a, h3)"
    using size assms(4) r(1-3) ne by (simp add: krealloc_def kalloc_def bindS_apply thenS_apply liftS_def on_area_run)
  then show "\<exists>a st' h'. krealloc ptr sz h = Inr (a, h') \<and> a \<noteq> 0 \<and> blocks_inv K M st' h' \<and>
      used_blocks K M st' h' = insert (a, unat n) (used_blocks K M st h - {(ptr, unat m)}) \<and>
      (\<forall>b k. (b, k) \<in> used_blocks K M st h \<longrightarrow> area_of b k \<inter> area_of a (unat n) = {}) \<and>
      (\<forall>x \<in> area_of a (unat m). hp_mem h' x = hp_mem h (ptr + (x - a))) \<and>
      kept (used_blocks K M st h - {(ptr, unat m)}) (hp_mem h) (hp_mem h')"
    using r(2,4-8) by blast
qed

section \<open>A failing allocation\<close>

lemma node_of_bit:
  assumes "0 \<le> b" "b < 2 ^ M - 1"
  shows "\<exists>k i. k < M \<and> i < 2 ^ k \<and> bitno (k, i) = b"
  using assms
proof (induction M)
  case (Suc M)
  show ?case
  proof (cases "b < 2 ^ M - 1")
    case True
    then show ?thesis using Suc less_SucI by blast
  next
    case False
    let ?i = "nat (b + 1) - 2 ^ M"
    have b: "2 ^ M \<le> b + 1" "b + 1 < 2 * 2 ^ M" using False Suc.prems by simp_all
    then have "2 ^ M \<le> nat (b + 1)" "nat (b + 1) < 2 * 2 ^ M" by (simp_all add: nat_le_iff nat_less_iff le_nat_iff)
    then have "?i < 2 ^ M" "2 ^ M + ?i = nat (b + 1)" by linarith+
    moreover from this have "bitno (M, ?i) = b" using Suc.prems(1) by (simp add: bitno_def)
    ultimately show ?thesis by blast
  qed
qed simp

lemma kernel_null_bit:
  assumes "al_memory h = 0xFFFFFFFF81040000" "1 \<le> l" "l \<le> 10"
  shows "0 \<le> null_bit 23 l h" "null_bit 23 l h < 2 ^ 17 - 1" "unat (- al_memory h) div 2 ^ (23 - l) < 2 ^ 30"
proof -
  have u: "unat (- al_memory h) = 2130444288" by (simp add: assms(1))
  have "l = 1 \<or> l = 2 \<or> l = 3 \<or> l = 4 \<or> l = 5 \<or> l = 6 \<or> l = 7 \<or> l = 8 \<or> l = 9 \<or> l = 10" using assms(2,3) by presburger
  then have "0 \<le> null_bit 23 l h \<and> null_bit 23 l h < 2 ^ 17 - 1 \<and> unat (- al_memory h) div 2 ^ (23 - l) < 2 ^ 30"
    unfolding null_bit_def u by auto
  then show "0 \<le> null_bit 23 l h" "null_bit 23 l h < 2 ^ 17 - 1" "unat (- al_memory h) div 2 ^ (23 - l) < 2 ^ 30" by auto
qed


section \<open>Examples\<close>

text \<open>The heap at boot, and with three blocks of 2 MiB of which the first is given back.\<close>

lemma boot_heap: "\<exists>h. demo 23 17 fresh_tree h"
  using kernel_heap_init [of blank_heap] unfolding demo_def by (auto simp: blank_heap_def load_u64_def)

lemma ceil_heap: "ceil_to_power_of_two 0x200000 = Inr (2 ^ (23 - 2))" "ceil_to_power_of_two 0x400000 = Inr (2 ^ (23 - 1))"
  using ceil_power [of 21] ceil_power [of 22] by simp_all

lemma demo_inv: "demo K M st h \<Longrightarrow> st (0, 0) \<noteq> Used \<Longrightarrow> blocks_inv K M st h"
  by (simp add: demo_def blocks_inv_def)

theorem kzalloc_correct_witness:
  "\<exists>h a h'. kzalloc 0x200000 h = Inr (a, h') \<and> a \<noteq> 0 \<and> (\<forall>x \<in> area_of a 0x200000. hp_mem h' x = 0)"
proof -
  obtain h where h: "blocks_inv 23 17 fresh_tree h" using boot_heap demo_inv [of 23 17 fresh_tree] by (auto simp: fresh_tree_def)
  have "\<exists>l k. 0 < l \<and> l \<le> 17 \<and> (2 ^ (23 - 2) :: u64) = 2 ^ (23 - l) \<and> source_level fresh_tree l k \<and> links_kept fresh_tree l k"
    by (rule exI [of _ 2], rule exI [of _ 0]) (use demo_sources(1,5) in simp)
  then have "blocks_room 23 17 fresh_tree (2 ^ (23 - 2))" by (simp only: blocks_room_def)
  from kzalloc_correct [OF h ceil_heap(1) this] show ?thesis by auto
qed

theorem krealloc_correct_witness:
  "\<exists>h p a h'. krealloc p 0x400000 h = Inr (a, h') \<and> a \<noteq> 0 \<and> (\<forall>x \<in> area_of a 0x200000. hp_mem h' x = hp_mem h (p + (x - a)))"
proof -
  obtain h where d: "demo 23 17 demo_tree1 h" using demo_1 [OF boot_heap ceil_heap(1)] by auto
  then have h: "blocks_inv 23 17 demo_tree1 h" using demo_inv demo_trees(1) by simp
  have u: "unat (2 ^ (23 - 2) :: u64) = weight 23 (2, 0)" "unat (2 ^ (23 - 2) :: u64) = 0x200000" by (simp_all add: weight_def)
  have "(blk 23 h (2, 0), weight 23 (2, 0)) \<in> used_blocks 23 17 demo_tree1 h"
    unfolding used_blocks_def by (rule imageI) (simp add: demo_trees(1))
  then have p: "(blk 23 h (2, 0), unat (2 ^ (23 - 2) :: u64)) \<in> used_blocks 23 17 demo_tree1 h" by (simp only: u)
  have c: "ceil_to_power_of_two (2 ^ (23 - 2)) = Inr (2 ^ (23 - 2))" by (rule ceil_power) simp
  have le: "unat (2 ^ (23 - 2) :: u64) \<le> unat (2 ^ (23 - 1) :: u64)" by simp
  have src: "source_level demo_tree1 1 1" by (auto simp: source_level_def demo_trees)
  have "\<exists>l k. 0 < l \<and> l \<le> 17 \<and> (2 ^ (23 - 1) :: u64) = 2 ^ (23 - l) \<and> source_level demo_tree1 l k \<and> links_kept demo_tree1 l k"
    by (rule exI [of _ 1], rule exI [of _ 1]) (use src in \<open>simp add: links_kept_def\<close>)
  then have room: "blocks_room 23 17 demo_tree1 (2 ^ (23 - 1))" by (simp only: blocks_room_def)
  have ne: "(2 ^ (23 - 1) :: u64) \<noteq> 2 ^ (23 - 2)" by simp
  from krealloc_correct [OF h p c ceil_heap(2) le] room ne obtain a h' where
    "krealloc (blk 23 h (2, 0)) 0x400000 h = Inr (a, h')" "a \<noteq> 0"
    "\<forall>x \<in> area_of a (unat (2 ^ (23 - 2) :: u64)). hp_mem h' x = hp_mem h (blk 23 h (2, 0) + (x - a))" by blast
  then show ?thesis unfolding u(2) by blast
qed


end
