(* ===== verification/Task.thy ===== *)
theory Task imports Ds Heap begin

text \<open>
  Tasks and threads, \<open>core/task.c\<close> with the context switch of \<open>core/task_asm.asm\<close>: creation of threads and
  their first stack frame, the round-robin scheduler and the switch of the environment. The addresses of
  static variables and of code are the fields of \<open>symbols\<close>.
\<close>

section \<open>State (include/task.h)\<close>

datatype thread_state = THREAD_RUNNING | THREAD_WAITING | THREAD_IDLE

text \<open>The \<open>next\<close> and \<open>prev\<close> members of both structs are in the links of \<open>Ds\<close>.\<close>

record thread =
  th_user_rsp :: u64
  th_stack_top :: u64
  th_syscall_type :: u64
  th_tid :: u64
  th_rsp :: addr
  th_state :: thread_state
  th_task :: addr

record task =
  tk_pid :: u64
  tk_name :: string
  tk_memory :: u64
  tk_main_thread :: addr
  tk_threads :: addr

text \<open>
  The static variables, the structs by their address, the kernel stacks in 8-byte cells, the registers that
  the switch works on, \<open>rsp0\<close> of the task state segment, the model-specific register
  \<open>IA32_KERNEL_GS_BASE\<close>, and the state of the memory managers.
\<close>

record tasking =
  ts_threads :: "addr \<Rightarrow> thread"
  ts_tasks :: "addr \<Rightarrow> task"
  ts_thread_links :: links
  ts_task_links :: links
  ts_current_thread :: addr
  ts_current_task :: addr
  ts_idle_thread :: addr
  ts_next_pid :: u64
  ts_next_tid :: u64
  ts_stack :: "addr \<Rightarrow> u64"
  cpu_rsp :: addr
  cpu_rbp :: u64
  cpu_rip :: u64
  ts_rsp0 :: u64
  ts_gs_base :: u64
  ts_kernel :: kernel
  ts_heap :: heap

type_synonym 'a task_proc = "(tasking, 'a) kproc"

record symbols =
  sym_kernel_task :: addr
  sym_kernel_main_thread :: addr
  sym_idle_thread :: addr
  sym_do_sth :: addr
  sym_leave_interrupt_handler :: addr

definition RFLAGS_IF :: u64 where "RFLAGS_IF = push_bit 9 1"
definition DEFAULT_STACK_SIZE :: u64 where "DEFAULT_STACK_SIZE = 8192"
definition CODE_SEGMENT :: u64 where "CODE_SEGMENT = 0x08"
definition DATA_SEGMENT :: u64 where "DATA_SEGMENT = 0x10"
definition USER_DATA_SEGMENT :: u64 where "USER_DATA_SEGMENT = 0x1b"
definition USER_CODE_SEGMENT :: u64 where "USER_CODE_SEGMENT = 0x23"

text \<open>Access to a struct through a pointer; the page at address 0 is not mapped.\<close>

definition non_null :: "addr \<Rightarrow> unit task_proc" where
  "non_null a = (if a = 0 then failS (Page_Fault 0) else returnS ())"

definition thread_at :: "addr \<Rightarrow> thread task_proc" where
  "thread_at a = thenS (non_null a) (getsS (\<lambda>s. ts_threads s a))"

definition task_at :: "addr \<Rightarrow> task task_proc" where
  "task_at a = thenS (non_null a) (getsS (\<lambda>s. ts_tasks s a))"

definition set_thread :: "addr \<Rightarrow> (thread \<Rightarrow> thread) \<Rightarrow> unit task_proc" where
  "set_thread a f = thenS (non_null a) (modifyS (\<lambda>s. s\<lparr>ts_threads := (ts_threads s)(a := f (ts_threads s a))\<rparr>))"

definition set_task :: "addr \<Rightarrow> (task \<Rightarrow> task) \<Rightarrow> unit task_proc" where
  "set_task a f = thenS (non_null a) (modifyS (\<lambda>s. s\<lparr>ts_tasks := (ts_tasks s)(a := f (ts_tasks s a))\<rparr>))"

definition on_kernel :: "(kernel, 'a) kproc \<Rightarrow> 'a task_proc" where
  "on_kernel p = (\<lambda>s. mapE (\<lambda>(x, k). (x, s\<lparr>ts_kernel := k\<rparr>)) (p (ts_kernel s)))"

definition on_heap :: "'a heap_proc \<Rightarrow> 'a task_proc" where
  "on_heap p = (\<lambda>s. mapE (\<lambda>(x, h). (x, s\<lparr>ts_heap := h\<rparr>)) (p (ts_heap s)))"

section \<open>The task state segment\<close>

record tss_descriptor =
  td_limit15_0 :: u16
  td_base_addr23_0 :: u32
  td_type :: u8
  td_present :: bool
  td_limit19_16 :: u8
  td_avl :: u8
  td_base31_24 :: u8
  td_base63_32 :: u32
  td_zero :: u32

text \<open>\<open>setup_tss\<close> for the segment at a given address; the structure has 104 bytes.\<close>

definition setup_tss :: "addr \<Rightarrow> tss_descriptor" where
  "setup_tss tss = \<lparr>td_limit15_0 = 104, td_base_addr23_0 = ucast (tss AND 0xFFFFFF), td_type = 9, td_present = True,
     td_limit19_16 = 0, td_avl = 1, td_base31_24 = ucast (drop_bit 24 tss AND 0xFF),
     td_base63_32 = ucast (drop_bit 32 tss AND 0xFFFFFFFF), td_zero = 0\<rparr>"

section \<open>Creating threads\<close>

text \<open>\<open>*(--thread->rsp) = v\<close>\<close>

definition push :: "addr \<Rightarrow> u64 \<Rightarrow> unit task_proc" where
  "push thread v =
     thenS (set_thread thread (\<lambda>t. t\<lparr>th_rsp := th_rsp t - 8\<rparr>))
    (bindS (thread_at thread) (\<lambda>t. modifyS (\<lambda>s. s\<lparr>ts_stack := (ts_stack s)(th_rsp t := v)\<rparr>)))"

fun push_all :: "addr \<Rightarrow> u64 list \<Rightarrow> unit task_proc" where
  "push_all thread [] = returnS ()"
| "push_all thread (v # vs) = thenS (push thread v) (push_all thread vs)"

definition add_thread :: "addr \<Rightarrow> addr \<Rightarrow> addr task_proc" where
  "add_thread lst thread =
     bindS (getsS ts_thread_links) (\<lambda>l.
     let (l, lst) = clist_add lst thread l in
     thenS (modifyS (\<lambda>s. s\<lparr>ts_thread_links := l\<rparr>)) (returnS lst))"

definition create_thread ::
  "symbols \<Rightarrow> addr \<Rightarrow> addr \<Rightarrow> u64 \<Rightarrow> u64 \<Rightarrow> u64 \<Rightarrow> addr task_proc" where
  "create_thread sy task main cs ss usermode_stack =
     bindS (on_heap (kalloc 72)) (\<lambda>thread.
     bindS (on_heap (kalloc DEFAULT_STACK_SIZE)) (\<lambda>stack.
     thenS (set_thread thread (\<lambda>t. t\<lparr>th_rsp := stack + DEFAULT_STACK_SIZE\<rparr>))
    (thenS (set_thread thread (\<lambda>t. t\<lparr>th_stack_top := stack + DEFAULT_STACK_SIZE\<rparr>))
    (thenS (if stack = 0 then failS (Page_Fault (DEFAULT_STACK_SIZE - 8)) else returnS ())
    (thenS (push thread ss)
    (thenS (if usermode_stack = 0 then push thread (stack + DEFAULT_STACK_SIZE) else push thread usermode_stack)
    (thenS (push thread RFLAGS_IF)
    (thenS (push thread cs)
    (thenS (push thread main)
    (thenS (push thread 0)
    (thenS (push_all thread (replicate 15 0))
    (thenS (push thread (sym_leave_interrupt_handler sy))
    (thenS (push thread 0)
    (thenS (set_thread thread (\<lambda>t. t\<lparr>th_state := THREAD_RUNNING\<rparr>))
    (thenS (set_thread thread (\<lambda>t. t\<lparr>th_task := task\<rparr>))
    (bindS (getsS ts_next_tid) (\<lambda>tid.
     thenS (modifyS (\<lambda>s. s\<lparr>ts_next_tid := tid + 1\<rparr>))
    (thenS (set_thread thread (\<lambda>t. t\<lparr>th_tid := tid\<rparr>))
    (bindS (task_at task) (\<lambda>tk.
     let tmp = tk_threads tk in
     thenS (if tmp \<noteq> 0 then thenS (add_thread tmp thread) (returnS ())
            else bindS (add_thread tmp thread) (\<lambda>lst. set_task task (\<lambda>tk. tk\<lparr>tk_threads := lst\<rparr>)))
           (returnS thread)))))))))))))))))))))"

definition create_kernel_thread :: "symbols \<Rightarrow> addr \<Rightarrow> addr \<Rightarrow> addr task_proc" where
  "create_kernel_thread sy task main = create_thread sy task main CODE_SEGMENT DATA_SEGMENT 0"

definition create_usermode_thread :: "symbols \<Rightarrow> addr \<Rightarrow> addr \<Rightarrow> u64 \<Rightarrow> addr task_proc" where
  "create_usermode_thread sy task main stack =
     create_thread sy task main USER_CODE_SEGMENT USER_DATA_SEGMENT stack"

section \<open>Address spaces\<close>

definition get_address_space_ptr :: "(kernel, addr) kproc" where
  "get_address_space_ptr = bindS (ptes 0) (\<lambda>e. returnS (entries e ! 0))"

definition new_address_space :: "(kernel, unit) kproc" where
  "new_address_space = bindS get_address_space_ptr (\<lambda>ptr. vstore ptr 0)"

definition set_address_space :: "u64 \<Rightarrow> (kernel, unit) kproc" where
  "set_address_space pdpt =
     bindS get_address_space_ptr (\<lambda>old.
     bindS (vload old) (\<lambda>v. if v \<noteq> pdpt then vstore old pdpt else returnS ()))"

section \<open>The scheduler\<close>

text \<open>
  The two loops of \<open>schedule\<close>. Both walk a cyclic list until they are back at its start; the fuel bounds
  the number of steps, and \<open>schedule_ok\<close> shows how much is enough.
\<close>

fun scan_threads :: "nat \<Rightarrow> addr \<Rightarrow> addr \<Rightarrow> addr option task_proc" where
  "scan_threads 0 task first_thread = failS Diverges"
| "scan_threads (Suc fuel) task first_thread =
     bindS (task_at task) (\<lambda>tk.
     thenS (non_null (tk_threads tk))
    (bindS (getsS (\<lambda>s. lk_next (ts_thread_links s) (tk_threads tk))) (\<lambda>th.
     thenS (set_task task (\<lambda>tk. tk\<lparr>tk_threads := th\<rparr>))
    (bindS (thread_at th) (\<lambda>t.
     if th_state t = THREAD_RUNNING then returnS (Some th)
     else if th \<noteq> first_thread then scan_threads fuel task first_thread
     else returnS None)))))"

fun scan_tasks :: "nat \<Rightarrow> nat \<Rightarrow> addr \<Rightarrow> addr \<Rightarrow> addr task_proc" where
  "scan_tasks 0 fuel old_task new_task = failS Diverges"
| "scan_tasks (Suc n) fuel old_task new_task =
     thenS (non_null new_task)
    (bindS (getsS (\<lambda>s. lk_next (ts_task_links s) new_task)) (\<lambda>new_task.
     bindS (task_at new_task) (\<lambda>tk.
     bindS (scan_threads fuel new_task (tk_threads tk)) (\<lambda>r.
     case r of Some th \<Rightarrow> returnS th
     | None \<Rightarrow> if new_task \<noteq> old_task then scan_tasks n fuel old_task new_task else getsS ts_idle_thread))))"

definition schedule :: "nat \<Rightarrow> addr task_proc" where
  "schedule fuel = bindS (getsS ts_current_task) (\<lambda>t. scan_tasks fuel fuel t t)"

section \<open>Switching\<close>

definition set_current_kernel_stack :: "u64 \<Rightarrow> unit task_proc" where
  "set_current_kernel_stack stack = modifyS (\<lambda>s. s\<lparr>ts_rsp0 := stack\<rparr>)"

definition switch_environment :: "addr \<Rightarrow> addr \<Rightarrow> unit task_proc" where
  "switch_environment old_thread new_thread =
     (if old_thread = new_thread then returnS ()
      else
        thenS (modifyS (\<lambda>s. s\<lparr>ts_gs_base := new_thread\<rparr>))
       (bindS (thread_at new_thread) (\<lambda>t.
        bindS (task_at (th_task t)) (\<lambda>tk.
        let memory = tk_memory tk in
        thenS (if memory \<noteq> 0 then on_kernel (set_address_space memory) else returnS ())
              (set_current_kernel_stack (th_stack_top t))))))"

text \<open>Stack operations of the processor, and \<open>switch_task_int\<close>, called with a return address.\<close>

definition cpu_push :: "u64 \<Rightarrow> tasking \<Rightarrow> tasking" where
  "cpu_push v s = s\<lparr>cpu_rsp := cpu_rsp s - 8, ts_stack := (ts_stack s)(cpu_rsp s - 8 := v)\<rparr>"

definition cpu_pop :: "tasking \<Rightarrow> u64 \<times> tasking" where
  "cpu_pop s = (ts_stack s (cpu_rsp s), s\<lparr>cpu_rsp := cpu_rsp s + 8\<rparr>)"

definition switch_task_int :: "u64 \<Rightarrow> addr \<Rightarrow> addr \<Rightarrow> unit task_proc" where
  "switch_task_int ret old_thread new_rsp =
     thenS (modifyS (cpu_push ret))
    (thenS (modifyS (\<lambda>s. cpu_push (cpu_rbp s) s))
    (bindS (getsS cpu_rsp) (\<lambda>rsp.
     thenS (set_thread old_thread (\<lambda>t. t\<lparr>th_rsp := rsp\<rparr>))
    (thenS (modifyS (\<lambda>s. s\<lparr>cpu_rsp := new_rsp\<rparr>))
           (modifyS (\<lambda>s. let (rbp, s) = cpu_pop s; (rip, s) = cpu_pop s in s\<lparr>cpu_rbp := rbp, cpu_rip := rip\<rparr>))))))"

definition preempt_int :: "nat \<Rightarrow> u64 \<Rightarrow> unit task_proc" where
  "preempt_int fuel ret =
     bindS (getsS ts_current_thread) (\<lambda>old_thread.
     bindS (schedule fuel) (\<lambda>th.
     thenS (modifyS (\<lambda>s. s\<lparr>ts_current_thread := th\<rparr>))
    (bindS (thread_at th) (\<lambda>t.
     thenS (modifyS (\<lambda>s. s\<lparr>ts_current_task := th_task t\<rparr>))
    (thenS (switch_environment old_thread th)
    (bindS (thread_at th) (\<lambda>t. switch_task_int ret old_thread (th_rsp t))))))))"

definition get_current_task_pid :: "u64 task_proc" where
  "get_current_task_pid =
     bindS (getsS ts_current_thread) (\<lambda>th.
     bindS (thread_at th) (\<lambda>t. bindS (task_at (th_task t)) (\<lambda>tk. returnS (tk_pid tk))))"

text \<open>
  \<open>leave_interrupt_handler\<close> (\<open>arch/x64/irq_asm.asm\<close>): the 15 registers and the frame that \<open>iretq\<close> takes from
  the stack. Its \<open>xor\<close> sets the zero flag, so no error code is skipped, only the interrupt number.
\<close>

record iret_frame =
  if_rip :: u64
  if_cs :: u64
  if_rflags :: u64
  if_rsp :: u64
  if_ss :: u64

definition leave_interrupt_handler :: "tasking \<Rightarrow> u64 list \<times> iret_frame" where
  "leave_interrupt_handler s =
     (let regs = map (\<lambda>i. ts_stack s (cpu_rsp s + 8 * of_nat i)) [0..<15];
          rsp = cpu_rsp s + 8 * 16
      in (regs, \<lparr>if_rip = ts_stack s rsp, if_cs = ts_stack s (rsp + 8), if_rflags = ts_stack s (rsp + 16),
           if_rsp = ts_stack s (rsp + 24), if_ss = ts_stack s (rsp + 32)\<rparr>))"

text \<open>
  \<open>switch_task_sys\<close> saves the callee-saved registers \<open>rbx\<close> and \<open>r12\<close> to \<open>r15\<close>, which are an argument, and
  calls \<open>switch_task_int\<close>. \<open>ret\<close> is its return address and \<open>sys_ret\<close> the address behind the call in it. If the
  switch arrives there, in a thread that was switched away from here, the registers are popped again; they
  are the result.
\<close>

definition sys_return :: "tasking \<Rightarrow> u64 list \<times> tasking" where
  "sys_return s =
     (let (r15, s) = cpu_pop s; (r14, s) = cpu_pop s; (r13, s) = cpu_pop s; (r12, s) = cpu_pop s; (rbx, s) = cpu_pop s;
          (rip, s) = cpu_pop s
      in ([rbx, r12, r13, r14, r15], s\<lparr>cpu_rip := rip\<rparr>))"

definition switch_task_sys :: "u64 list \<Rightarrow> u64 \<Rightarrow> u64 \<Rightarrow> addr \<Rightarrow> addr \<Rightarrow> (u64 list option) task_proc" where
  "switch_task_sys callee_saved sys_ret ret old_thread new_rsp =
     thenS (modifyS (cpu_push ret))
    (thenS (modifyS (fold cpu_push callee_saved))
    (thenS (switch_task_int sys_ret old_thread new_rsp)
    (bindS (getsS cpu_rip) (\<lambda>rip.
     if rip = sys_ret then (\<lambda>s. let (regs, s) = sys_return s in Inr (Some regs, s)) else returnS None))))"

definition preempt_syscall :: "nat \<Rightarrow> u64 list \<Rightarrow> u64 \<Rightarrow> u64 \<Rightarrow> (u64 list option) task_proc" where
  "preempt_syscall fuel callee_saved sys_ret ret =
     bindS (getsS ts_current_thread) (\<lambda>old_thread.
     bindS (schedule fuel) (\<lambda>th.
     thenS (modifyS (\<lambda>s. s\<lparr>ts_current_thread := th\<rparr>))
    (bindS (thread_at th) (\<lambda>t.
     thenS (modifyS (\<lambda>s. s\<lparr>ts_current_task := th_task t\<rparr>))
    (thenS (switch_environment old_thread th)
    (bindS (thread_at th) (\<lambda>t. switch_task_sys callee_saved sys_ret ret old_thread (th_rsp t))))))))"

section \<open>Tasks\<close>

text \<open>
  A store of 8 bytes to user memory. A fault runs the page fault handler and repeats the store, as the
  processor does; faults the handler does not settle end in the general exception handler, which halts.
\<close>

definition faulting_store :: "addr \<Rightarrow> u64 \<Rightarrow> (kernel, unit) kproc" where
  "faulting_store va v = (\<lambda>k. case translate k va of
     Some (pa, True) \<Rightarrow> vstore va v k
   | t \<Rightarrow> thenS (page_fault_handler get_frame (failS (Page_Fault va)) va
            (if t = None then PF_WRITE else PF_PROT_VIOLATION OR PF_WRITE)) (vstore va v) k)"

text \<open>\<open>memcpy\<close> of 1000 bytes of machine code, as 125 cells.\<close>

definition copy_code :: "addr \<Rightarrow> (nat \<Rightarrow> u64) \<Rightarrow> (kernel, unit) kproc" where
  "copy_code dest code = for_each [0..<125] (\<lambda>i. faulting_store (dest + 8 * of_nat i) (code i))"

definition create_usermode_task ::
  "symbols \<Rightarrow> (nat \<Rightarrow> u64) \<Rightarrow> (nat \<Rightarrow> u64) \<Rightarrow> int \<Rightarrow> unit task_proc" where
  "create_usermode_task sy usermode_function usermode_function2 xd =
     thenS (on_kernel new_address_space)
    (let virtual_memory_start = 1024 * 1024; flags = MAP_RW OR MAP_EXE OR MAP_USER in
     thenS (on_kernel (map_range virtual_memory_start 4096 flags))
    (thenS (on_kernel (copy_code virtual_memory_start (if xd \<noteq> 0 then usermode_function else usermode_function2)))
    (let stack = 2 * 1024 * 1024 in
     thenS (on_kernel (map_range stack 4096 flags))
    (bindS (on_heap (kalloc 56)) (\<lambda>task.
     thenS (non_null task)
    (thenS (modifyS (\<lambda>s. s\<lparr>ts_task_links := set_next task 0 (set_prev task 0 (ts_task_links s))\<rparr>))
    (thenS (set_task task (\<lambda>t. t\<lparr>tk_threads := 0, tk_name := ''user_process''\<rparr>))
    (bindS (getsS ts_next_pid) (\<lambda>pid.
     thenS (modifyS (\<lambda>s. s\<lparr>ts_next_pid := pid + 1\<rparr>))
    (thenS (set_task task (\<lambda>t. t\<lparr>tk_pid := pid\<rparr>))
    (bindS (on_kernel (bindS (ptes 0) (\<lambda>e. vload (entries e ! 0)))) (\<lambda>memory.
     thenS (set_task task (\<lambda>t. t\<lparr>tk_memory := memory\<rparr>))
    (bindS (create_usermode_thread sy task virtual_memory_start (stack + 4096)) (\<lambda>thread.
     thenS (set_task task (\<lambda>t. t\<lparr>tk_main_thread := thread\<rparr>))
    (bindS (getsS ts_current_task) (\<lambda>tmp.
     bindS (getsS ts_task_links) (\<lambda>l.
     let (l, lst) = clist_add tmp task l in
     thenS (modifyS (\<lambda>s. s\<lparr>ts_task_links := l\<rparr>))
           (if tmp \<noteq> 0 then returnS () else modifyS (\<lambda>s. s\<lparr>ts_current_task := lst\<rparr>)))))))))))))))))))"

section \<open>Initialisation\<close>

definition init_kernel_main_thread :: "symbols \<Rightarrow> unit task_proc" where
  "init_kernel_main_thread sy =
     set_thread (sym_kernel_main_thread sy)
       (\<lambda>t. t\<lparr>th_tid := 0, th_state := THREAD_RUNNING, th_task := sym_kernel_task sy\<rparr>)"

definition init_kernel_idle_thread :: "symbols \<Rightarrow> unit task_proc" where
  "init_kernel_idle_thread sy =
     bindS (create_kernel_thread sy (sym_kernel_task sy) (sym_idle_thread sy)) (\<lambda>th.
     thenS (modifyS (\<lambda>s. s\<lparr>ts_idle_thread := th\<rparr>))
           (set_thread th (\<lambda>t. t\<lparr>th_state := THREAD_WAITING\<rparr>)))"

definition init_kernel_task :: "symbols \<Rightarrow> unit task_proc" where
  "init_kernel_task sy =
     (let kernel_task = sym_kernel_task sy; kernel_main_thread = sym_kernel_main_thread sy in
      thenS (set_task kernel_task (\<lambda>t. t\<lparr>tk_pid := 0, tk_name := ''kernel'', tk_memory := 0\<rparr>))
     (thenS (init_kernel_main_thread sy)
     (thenS (init_kernel_idle_thread sy)
     (thenS (set_task kernel_task (\<lambda>t. t\<lparr>tk_main_thread := kernel_main_thread\<rparr>))
     (bindS (task_at kernel_task) (\<lambda>tk.
      bindS (add_thread (tk_threads tk) kernel_main_thread) (\<lambda>lst.
      thenS (set_task kernel_task (\<lambda>t. t\<lparr>tk_threads := lst\<rparr>))
     (bindS (getsS (\<lambda>s. clist_add (ts_current_task s) kernel_task (ts_task_links s))) (\<lambda>(l, lst).
      modifyS (\<lambda>s. s\<lparr>ts_task_links := l, ts_current_task := lst\<rparr>))))))))))"

text \<open>\<open>initialize_tasks\<close>; \<open>setup_tss\<close>, which it calls first, concerns the descriptor alone.\<close>

definition initialize_tasks ::
  "symbols \<Rightarrow> (nat \<Rightarrow> u64) \<Rightarrow> (nat \<Rightarrow> u64) \<Rightarrow> unit task_proc" where
  "initialize_tasks sy usermode_function usermode_function2 =
     thenS (init_kernel_task sy)
    (bindS (task_at (sym_kernel_task sy)) (\<lambda>tk.
     thenS (modifyS (\<lambda>s. s\<lparr>ts_current_thread := tk_main_thread tk\<rparr>))
    (bindS (create_kernel_thread sy (sym_kernel_task sy) (sym_do_sth sy)) (\<lambda>_.
     thenS (create_usermode_task sy usermode_function usermode_function2 1)
           (create_usermode_task sy usermode_function usermode_function2 0)))))"

text \<open>
  The descriptor of the task state segment that \<open>setup_tss\<close> builds holds the whole address of
  the segment, spread over its three base fields.
\<close>

theorem setup_tss_base:
  "ucast (td_base_addr23_0 (setup_tss tss)) OR push_bit 24 (ucast (td_base31_24 (setup_tss tss)))
     OR push_bit 32 (ucast (td_base63_32 (setup_tss tss))) = (tss :: u64)"
proof -
  have m: "(0xFFFFFF :: u64) = mask 24" "(0xFF :: u64) = mask 8" "(0xFFFFFFFF :: u64) = mask 32"
    by (simp_all add: mask_eq_exp_minus_1)
  have "(ucast (ucast (tss AND mask 24) :: u32) :: u64) OR push_bit 24 (ucast (ucast (drop_bit 24 tss AND mask 8) :: u8))
     OR push_bit 32 (ucast (ucast (drop_bit 32 tss AND mask 32) :: u32)) = tss" (is "?l = tss")
  proof (rule bit_word_eqI)
    show "bit ?l n = bit tss n" if "n < LENGTH(64)" for n
      using that by (cases "n < 24"; cases "n < 32") (auto simp: bit_simps)
  qed
  then show ?thesis by (simp only: setup_tss_def tss_descriptor.select_convs m)
qed

end
