(* ===== verification/Scheduler.thy ===== *)
theory Scheduler imports Task begin

text \<open>
  The round-robin order of \<open>schedule\<close> in \<open>core/task.c\<close>. Abstractly each ring is the list of its nodes in the
  order they will be visited, with the current one last; the scheduler takes the first thread that can run
  and turns both rings. The code refines this, and every thread that can run gets its turn.
\<close>

section \<open>Turning rings\<close>

definition turn :: "'a \<Rightarrow> 'a list \<Rightarrow> 'a list" where
  "turn x xs = tl (dropWhile (\<lambda>y. y \<noteq> x) xs) @ takeWhile (\<lambda>y. y \<noteq> x) xs @ [x]"

definition pos :: "'a \<Rightarrow> 'a list \<Rightarrow> nat" where
  "pos x xs = length (takeWhile (\<lambda>y. y \<noteq> x) xs)"

lemma turn_split: "x \<notin> set A \<Longrightarrow> turn x (A @ x # B) = B @ A @ [x]"
proof -
  assume "x \<notin> set A"
  then have "dropWhile (\<lambda>y. y \<noteq> x) (A @ x # B) = x # B" "takeWhile (\<lambda>y. y \<noteq> x) (A @ x # B) = A"
    by (induction A) auto
  then show ?thesis by (simp add: turn_def)
qed

lemma pos_Cons: "pos x (y # xs) = (if y = x then 0 else Suc (pos x xs))"
  by (simp add: pos_def)

lemma pos_append: "pos x (xs @ ys) = (if x \<in> set xs then pos x xs else length xs + pos x ys)"
  by (induction xs) (auto simp: pos_Cons pos_def)

lemma pos_less: "x \<in> set xs \<Longrightarrow> pos x xs < length xs"
  by (induction xs) (auto simp: pos_Cons)

lemma turn_set: "x \<in> set xs \<Longrightarrow> set (turn x xs) = set xs \<and> length (turn x xs) = length xs \<and> last (turn x xs) = x"
  by (drule split_list_first, elim exE conjE) (simp add: turn_split, blast)

lemma turn_distinct: "distinct xs \<Longrightarrow> x \<in> set xs \<Longrightarrow> distinct (turn x xs)"
  by (drule split_list_first) (auto simp: turn_split)

text \<open>Turning past another element brings an element nearer.\<close>

lemma pos_turn_less:
  assumes "distinct xs" "x \<in> set xs" "y \<in> set xs" "pos x xs < pos y xs"
  shows "pos y (turn x xs) < pos y xs"
proof -
  obtain A B where xs: "xs = A @ x # B" "x \<notin> set A" using split_list_first [OF assms(2)] by blast
  then have "y \<in> set B" using assms by (auto simp: pos_append pos_Cons dest: pos_less split: if_splits)
  moreover have "y \<notin> set A" "y \<noteq> x" using assms(1) \<open>y \<in> set B\<close> xs by auto
  ultimately show ?thesis using xs by (simp add: turn_split pos_append pos_Cons)
qed

lemma cycle_turn:
  assumes "cycle l xs" "x \<in> set xs"
  shows "cycle l (turn x xs)"
proof -
  obtain A B where xs: "xs = A @ x # B" "x \<notin> set A" using split_list_first [OF assms(2)] by blast
  have "rotate (length (A @ [x])) ((A @ [x]) @ B) = B @ A @ [x]" by (rule rotate_append)
  then have "turn x xs = rotate (length (A @ [x])) xs" using turn_split [OF xs(2), of B] by (simp add: xs(1))
  then show ?thesis by (simp only: clist.ring_rotate_n [OF assms(1)])
qed

text \<open>The chain of \<open>next\<close> pointers from the last node.\<close>

definition chain :: "links \<Rightarrow> addr \<Rightarrow> addr list \<Rightarrow> bool" where
  "chain l p xs \<longleftrightarrow> map (lk_next l) (p # butlast xs) = xs"

lemma cycle_chain: "cycle l xs \<Longrightarrow> chain l (last xs) xs"
proof (cases xs rule: rev_cases)
  case (snoc ys y)
  assume cyc: "cycle l xs"
  then have n: "map (lk_next l) (ys @ [y]) = rotate1 (ys @ [y])" by (simp add: cycle_def snoc)
  show ?thesis
  proof (cases ys)
    case Nil
    then show ?thesis using n by (simp add: chain_def snoc)
  next
    case (Cons z zs)
    have "map (lk_next l) (z # zs) @ [lk_next l y] = (zs @ [y]) @ [z]" using n Cons by simp
    then have "map (lk_next l) (z # zs) = zs @ [y]" "lk_next l y = z" by (auto dest: append_eq_conv_conj [THEN iffD1])
    then show ?thesis by (simp add: chain_def snoc Cons)
  qed
qed (simp add: cycle_def)

lemma chain_Cons: "chain l p (y # ys) \<Longrightarrow> lk_next l p = y \<and> (ys \<noteq> [] \<longrightarrow> chain l y ys)"
  by (auto simp: chain_def split: if_splits)

section \<open>The loops of schedule\<close>

definition can_run :: "tasking \<Rightarrow> addr \<Rightarrow> bool" where
  "can_run s th \<longleftrightarrow> th_state (ts_threads s th) = THREAD_RUNNING"

definition point_to :: "addr \<Rightarrow> addr \<Rightarrow> tasking \<Rightarrow> tasking" where
  "point_to t th s = s\<lparr>ts_tasks := (ts_tasks s)(t := (ts_tasks s t)\<lparr>tk_threads := th\<rparr>)\<rparr>"

lemma point_to_simps [simp]:
  "ts_threads (point_to t th s) = ts_threads s" "ts_thread_links (point_to t th s) = ts_thread_links s"
  "ts_task_links (point_to t th s) = ts_task_links s" "ts_idle_thread (point_to t th s) = ts_idle_thread s"
  "ts_current_thread (point_to t th s) = ts_current_thread s" "ts_current_task (point_to t th s) = ts_current_task s"
  "ts_kernel (point_to t th s) = ts_kernel s"
  "can_run (point_to t th s) = can_run s" "tk_threads (ts_tasks (point_to t th s) t) = th"
  "t' \<noteq> t \<Longrightarrow> ts_tasks (point_to t th s) t' = ts_tasks s t'"
  "tk_memory (ts_tasks (point_to t th s) t') = tk_memory (ts_tasks s t')"
  "point_to t th' (point_to t th s) = point_to t th' s"
  by (simp_all add: point_to_def can_run_def fun_eq_iff)

lemma point_to_same: "tk_threads (ts_tasks s t) = th \<Longrightarrow> point_to t th s = s"
  by (auto simp: point_to_def)

lemma scan_threads_ok:
  assumes "chain (ts_thread_links s) p xs" "xs \<noteq> []" "distinct xs" "0 \<notin> set xs" "p \<noteq> 0" "t \<noteq> 0"
    and "tk_threads (ts_tasks s t) = p" "length xs \<le> fuel"
  shows "scan_threads fuel t (last xs) s =
    Inr (find (can_run s) xs, point_to t (case find (can_run s) xs of Some th \<Rightarrow> th | None \<Rightarrow> last xs) s)"
  using assms
proof (induction xs arbitrary: p fuel s)
  case (Cons y ys)
  obtain f where f: "fuel = Suc f" "length ys \<le> f" using Cons.prems(8) by (cases fuel) auto
  have nx: "lk_next (ts_thread_links s) p = y" using chain_Cons [OF Cons.prems(1)] by simp
  have y: "y \<noteq> 0" "y = last (y # ys) \<longleftrightarrow> ys = []" using Cons.prems(3,4) by (auto split: if_splits)
  have step: "scan_threads fuel t (last (y # ys)) s =
      (if can_run s y then Inr (Some y, point_to t y s)
       else if ys \<noteq> [] then scan_threads f t (last (y # ys)) (point_to t y s) else Inr (None, point_to t y s))"
    using y Cons.prems(5-7) nx unfolding f(1)
    by (simp add: bindS_apply thenS_apply task_at_def thread_at_def non_null_def set_task_def point_to_def [symmetric]
        can_run_def [symmetric] del: last.simps)
  show ?case
  proof (cases "can_run s y \<or> ys = []")
    case True
    then show ?thesis using step by auto
  next
    case False
    have "scan_threads f t (last ys) (point_to t y s) = Inr (find (can_run (point_to t y s)) ys,
        point_to t (case find (can_run (point_to t y s)) ys of Some th \<Rightarrow> th | None \<Rightarrow> last ys) (point_to t y s))"
      by (rule Cons.IH) (use Cons.prems False f y chain_Cons [OF Cons.prems(1)] in auto)
    then show ?thesis using step False by (simp split: option.split)
  qed
qed simp

text \<open>The first thread that can run, with its task.\<close>

fun pick :: "(addr \<Rightarrow> bool) \<Rightarrow> (addr \<Rightarrow> addr list) \<Rightarrow> addr list \<Rightarrow> (addr \<times> addr) option" where
  "pick run rings [] = None"
| "pick run rings (t # ts) = (case find run (rings t) of Some th \<Rightarrow> Some (t, th) | None \<Rightarrow> pick run rings ts)"

definition ring_of :: "tasking \<Rightarrow> (addr \<Rightarrow> addr list) \<Rightarrow> addr \<Rightarrow> bool" where
  "ring_of s rings t \<longleftrightarrow> cycle (ts_thread_links s) (rings t) \<and> tk_threads (ts_tasks s t) = last (rings t)"

lemma scan_tasks_ok:
  assumes "chain (ts_task_links s) p ts" "ts \<noteq> []" "distinct ts" "0 \<notin> set ts" "p \<noteq> 0"
    and "\<And>t. t \<in> set ts \<Longrightarrow> ring_of s rings t \<and> length (rings t) \<le> fuel" "length ts \<le> n"
  shows "scan_tasks n fuel (last ts) p s =
    (case pick (can_run s) rings ts of Some (t, th) \<Rightarrow> Inr (th, point_to t th s) | None \<Rightarrow> Inr (ts_idle_thread s, s))"
  using assms
proof (induction ts arbitrary: p n)
  case (Cons t ts)
  obtain m where m: "n = Suc m" "length ts \<le> m" using Cons.prems(7) by (cases n) auto
  have nx: "lk_next (ts_task_links s) p = t" using chain_Cons [OF Cons.prems(1)] by simp
  have t: "t \<noteq> 0" "t = last (t # ts) \<longleftrightarrow> ts = []" using Cons.prems(3,4) by (auto split: if_splits)
  have ring: "cycle (ts_thread_links s) (rings t)" "tk_threads (ts_tasks s t) = last (rings t)" "length (rings t) \<le> fuel"
    using Cons.prems(6) [of t] by (auto simp: ring_of_def)
  have ne: "rings t \<noteq> []" "distinct (rings t)" "0 \<notin> set (rings t)" using ring(1) by (simp_all add: cycle_def)
  have scan: "scan_threads fuel t (tk_threads (ts_tasks s t)) s = Inr (find (can_run s) (rings t),
      point_to t (case find (can_run s) (rings t) of Some th \<Rightarrow> th | None \<Rightarrow> last (rings t)) s)"
    unfolding ring(2)
  proof (rule scan_threads_ok [OF cycle_chain [OF ring(1)] ne _ t(1) ring(2,3)])
    show "last (rings t) \<noteq> 0" using ne(3) last_in_set [OF ne(1)] by auto
  qed
  show ?case
  proof (cases "find (can_run s) (rings t)")
    case (Some th)
    then show ?thesis
      using Cons.prems(5) nx t(1) scan unfolding m(1)
      by (simp add: bindS_apply thenS_apply task_at_def non_null_def)
  next
    case None
    have "scan_tasks n fuel (last (t # ts)) p s =
        (if ts \<noteq> [] then scan_tasks m fuel (last (t # ts)) t s else Inr (ts_idle_thread s, s))"
      using Cons.prems(5) nx t scan None point_to_same [of s t "last (rings t)"] ring(2) unfolding m(1)
      by (simp add: bindS_apply thenS_apply task_at_def non_null_def del: last.simps)
    moreover have "scan_tasks m fuel (last ts) t s = (case pick (can_run s) rings ts of
        Some (t, th) \<Rightarrow> Inr (th, point_to t th s) | None \<Rightarrow> Inr (ts_idle_thread s, s))" if "ts \<noteq> []"
      by (rule Cons.IH) (use that Cons.prems m t chain_Cons [OF Cons.prems(1)] in auto)
    ultimately show ?thesis using None by simp
  qed
qed simp

section \<open>The abstract scheduler\<close>

record rings =
  sc_tasks :: "addr list"
  sc_rings :: "addr \<Rightarrow> addr list"

definition schedule_spec :: "(addr \<Rightarrow> bool) \<Rightarrow> addr \<Rightarrow> addr \<Rightarrow> rings \<Rightarrow> addr \<times> rings" where
  "schedule_spec run idle idle_task a =
     (case pick run (sc_rings a) (sc_tasks a) of
        None \<Rightarrow> (idle, a\<lparr>sc_tasks := turn idle_task (sc_tasks a)\<rparr>)
      | Some (t, th) \<Rightarrow> (th, a\<lparr>sc_tasks := turn t (sc_tasks a), sc_rings := (sc_rings a)(t := turn th (sc_rings a t))\<rparr>))"

text \<open>The scheduler state of the code, with the number of steps its loops may take.\<close>

definition sched_rel :: "nat \<Rightarrow> tasking \<Rightarrow> rings \<Rightarrow> bool" where
  "sched_rel fuel s a \<longleftrightarrow> cycle (ts_task_links s) (sc_tasks a) \<and> last (sc_tasks a) = ts_current_task s \<and>
     length (sc_tasks a) \<le> fuel \<and>
     (\<forall>t \<in> set (sc_tasks a). ring_of s (sc_rings a) t \<and> length (sc_rings a t) \<le> fuel \<and>
       (\<forall>th \<in> set (sc_rings a t). th_task (ts_threads s th) = t)) \<and>
     ts_idle_thread s \<noteq> 0 \<and> th_task (ts_threads s (ts_idle_thread s)) \<in> set (sc_tasks a)"

definition idle_task :: "tasking \<Rightarrow> addr" where
  "idle_task s = th_task (ts_threads s (ts_idle_thread s))"

lemma pick_Some:
  "pick run rings ts = Some (t, th) \<Longrightarrow> t \<in> set ts \<and> th \<in> set (rings t) \<and> run th \<and> find run (rings t) = Some th"
  by (induction ts) (auto split: option.splits simp: find_Some_iff in_set_conv_nth)

lemma pick_None: "pick run rings ts = None \<Longrightarrow> t \<in> set ts \<Longrightarrow> th \<in> set (rings t) \<Longrightarrow> \<not> run th"
  by (induction ts) (auto split: option.splits simp: find_None_iff)

lemma find_pos: "find run xs = Some x \<Longrightarrow> y \<in> set xs \<Longrightarrow> run y \<Longrightarrow> y \<noteq> x \<Longrightarrow> pos x xs < pos y xs"
  by (induction xs) (auto simp: pos_Cons split: if_splits)

lemma pick_pos:
  "pick run rings ts = Some (t, th) \<Longrightarrow> t' \<in> set ts \<Longrightarrow> th' \<in> set (rings t') \<Longrightarrow> run th' \<Longrightarrow> t' \<noteq> t \<Longrightarrow> pos t ts < pos t' ts"
proof (induction ts)
  case (Cons u ts)
  have "find run (rings t') \<noteq> None" using Cons.prems(3,4) by (auto simp: find_None_iff)
  then show ?case using Cons by (auto simp: pos_Cons split: option.splits)
qed simp

lemma sched_rel_ring:
  assumes "sched_rel fuel s a" "t \<in> set (sc_tasks a)"
  shows "sc_rings a t \<noteq> []" "distinct (sc_rings a t)" "0 \<notin> set (sc_rings a t)" "t \<noteq> 0"
  using assms by (auto simp: sched_rel_def ring_of_def cycle_def)

lemma schedule_ok:
  assumes rel: "sched_rel fuel s a"
  defines "r \<equiv> schedule_spec (can_run s) (ts_idle_thread s) (idle_task s) a"
  shows "\<exists>s1. schedule fuel s = Inr (fst r, s1) \<and> (s1 = s \<or> (\<exists>t th. s1 = point_to t th s)) \<and>
    sched_rel fuel (s1\<lparr>ts_current_task := th_task (ts_threads s (fst r))\<rparr>) (snd r) \<and> fst r \<noteq> 0"
proof -
  let ?T = "sc_tasks a" and ?R = "sc_rings a" and ?c = "ts_current_task s"
  have cyc: "cycle (ts_task_links s) ?T" "last ?T = ?c" "length ?T \<le> fuel" using rel by (simp_all add: sched_rel_def)
  have ne: "?T \<noteq> []" "distinct ?T" "0 \<notin> set ?T" using cyc(1) by (simp_all add: cycle_def)
  have c: "?c \<noteq> 0" using ne last_in_set [OF ne(1)] cyc(2) by auto
  have rings: "ring_of s ?R t \<and> length (?R t) \<le> fuel" if "t \<in> set ?T" for t using rel that by (simp add: sched_rel_def)
  have chain: "chain (ts_task_links s) ?c ?T" using cycle_chain [OF cyc(1)] by (simp only: cyc(2))
  have run: "schedule fuel s = (case pick (can_run s) ?R ?T of Some (t, th) \<Rightarrow> Inr (th, point_to t th s)
      | None \<Rightarrow> Inr (ts_idle_thread s, s))"
    using scan_tasks_ok [OF chain ne c rings cyc(3)] by (simp add: schedule_def bindS_apply cyc(2))
  show ?thesis
  proof (cases "pick (can_run s) ?R ?T")
    case None
    then have r: "r = (ts_idle_thread s, a\<lparr>sc_tasks := turn (idle_task s) ?T\<rparr>)" by (simp add: r_def schedule_spec_def)
    have idle: "idle_task s \<in> set ?T" "ts_idle_thread s \<noteq> 0" using rel by (simp_all add: sched_rel_def idle_task_def)
    have "sched_rel fuel (s\<lparr>ts_current_task := idle_task s\<rparr>) (snd r)"
      using rel turn_set [OF idle(1)] cycle_turn [OF cyc(1) idle(1)] by (simp add: sched_rel_def r ring_of_def)
    then show ?thesis using run None idle(2) by (intro exI [of _ s]) (simp add: r idle_task_def)
  next
    case (Some p)
    then obtain t th where p: "pick (can_run s) ?R ?T = Some (t, th)" by (cases p) auto
    then have r: "r = (th, a\<lparr>sc_tasks := turn t ?T, sc_rings := ?R(t := turn th (?R t))\<rparr>)"
      by (simp add: r_def schedule_spec_def)
    have t: "t \<in> set ?T" "th \<in> set (?R t)" using pick_Some [OF p] by simp_all
    then have tt: "th_task (ts_threads s th) = t" "th \<noteq> 0"
      using rel sched_rel_ring(3) [OF rel t(1)] by (auto simp: sched_rel_def)
    have ring: "ring_of (point_to t th s) (?R(t := turn th (?R t))) u" if "u \<in> set ?T" for u
      using rings [OF that] rings [OF t(1)] cycle_turn [of _ "?R t" th] turn_set [OF t(2)] t(2)
      by (cases "u = t") (simp_all add: ring_of_def)
    have "sched_rel fuel ((point_to t th s)\<lparr>ts_current_task := t\<rparr>) (snd r)"
      using rel turn_set [OF t(1)] turn_set [OF t(2)] cycle_turn [OF cyc(1) t(1)] ring
      by (auto simp: sched_rel_def r ring_of_def)
    then show ?thesis using run p tt by (intro exI [of _ "point_to t th s"]) (auto simp: r)
  qed
qed

section \<open>Progress\<close>

definition distance :: "addr \<Rightarrow> addr \<Rightarrow> rings \<Rightarrow> nat" where
  "distance t th a = pos th (sc_rings a t) * length (sc_tasks a) + pos t (sc_tasks a)"

lemma schedule_spec_progress:
  assumes "distinct (sc_tasks a)" "\<And>t. t \<in> set (sc_tasks a) \<Longrightarrow> distinct (sc_rings a t)"
    and t: "t \<in> set (sc_tasks a)" "th \<in> set (sc_rings a t)" "run th"
  shows "fst (schedule_spec run idle it a) = th \<or> distance t th (snd (schedule_spec run idle it a)) < distance t th a"
proof (cases "pick run (sc_rings a) (sc_tasks a)")
  case None
  then show ?thesis using pick_None [OF None t(1,2)] t(3) by simp
next
  case (Some p)
  then obtain u uh where p: "pick run (sc_rings a) (sc_tasks a) = Some (u, uh)" by (cases p) auto
  let ?T = "sc_tasks a" and ?R = "sc_rings a"
  have u: "u \<in> set ?T" "uh \<in> set (?R u)" "find run (?R u) = Some uh" using pick_Some [OF p] by simp_all
  note len = turn_set [OF u(1), THEN conjunct2, THEN conjunct1]
  show ?thesis
  proof (cases "u = t")
    case False
    have "pos t (turn u ?T) < pos t ?T"
      by (rule pos_turn_less [OF assms(1) u(1) t(1)]) (use pick_pos [OF p t] False in auto)
    then show ?thesis using False by (simp add: schedule_spec_def p distance_def len)
  next
    case True
    show ?thesis
    proof (cases "uh = th")
      case False
      have "pos uh (?R t) < pos th (?R t)" using find_pos [OF u(3), of th] t(2,3) True False by simp
      then have "pos th (turn uh (?R t)) < pos th (?R t)"
        using pos_turn_less [of "?R t" uh th] assms(2) [OF t(1)] u(2) t(2) True by simp
      moreover have "pos t (turn t ?T) < length ?T"
        using pos_less [of t "turn t ?T"] turn_set [OF t(1)] t(1) by simp
      moreover have "Suc (pos th (turn uh (?R t))) * length ?T \<le> pos th (?R t) * length ?T"
        by (rule mult_le_mono1) (use calculation(1) in simp)
      ultimately have "pos th (turn uh (?R t)) * length ?T + pos t (turn t ?T) < pos th (?R t) * length ?T"
        by simp
      then show ?thesis using True len by (simp add: schedule_spec_def p distance_def)
    qed (simp add: schedule_spec_def p True)
  qed
qed

section \<open>Address spaces\<close>

definition with_space :: "u64 \<Rightarrow> kernel \<Rightarrow> kernel" where
  "with_space m k = k\<lparr>phys := (phys k)(cr3 k := m)\<rparr>"

text \<open>The tables allow the entry 0 of the top-level table to be switched to the address space of any task.\<close>

definition spaces_ok :: "tasking \<Rightarrow> addr list \<Rightarrow> bool" where
  "spaces_ok s ts \<longleftrightarrow> self_mapped (ts_kernel s) \<and> (\<exists>n. present_levels (ts_kernel s) n 0) \<and>
     (\<forall>t \<in> set ts. tk_memory (ts_tasks s t) \<noteq> 0 \<longrightarrow>
       (\<exists>n. present_levels (with_space (tk_memory (ts_tasks s t)) (ts_kernel s)) n 0))"

lemma cell_0_0: "cell_at k 0 0 = cr3 k"
  by (simp add: entry_cell_simps pt_index_def)

lemma get_address_space_ptr_ok:
  assumes "self_mapped k" "present_levels k n 0"
  shows "get_address_space_ptr k = Inr (pte_ptr 0 0, k)"
  using ptes_result [OF assms] by (simp add: get_address_space_ptr_def bindS_apply upt_rec)

lemma set_address_space_ok:
  assumes "self_mapped k" "present_levels k n 0"
  shows "set_address_space m k = Inr ((), with_space m k)"
proof -
  have tab: "tables_ok k 0 0" by (simp add: tables_ok_def)
  have "k\<lparr>phys := (phys k)(cr3 k := phys k (cr3 k))\<rparr> = k" by simp
  then show ?thesis
    using get_address_space_ptr_ok [OF assms] vload_pte_ptr [OF assms(1) tab] vstore_pte_ptr [OF assms(1) tab, of m]
    by (auto simp: set_address_space_def bindS_apply with_space_def cell_0_0 entry_at_def)
qed

lemma self_mapped_with_space: "self_mapped k \<Longrightarrow> self_mapped (with_space m k)"
  by (simp add: self_mapped_def with_space_def)

lemma with_space_twice [simp]: "with_space m (with_space m' k) = with_space m k"
  by (simp add: with_space_def)

section \<open>Preemption\<close>

text \<open>The environment of the current thread: its GS base, its kernel stack, its address space.\<close>

definition env_ok :: "tasking \<Rightarrow> bool" where
  "env_ok s \<longleftrightarrow> (let th = ts_threads s (ts_current_thread s); m = tk_memory (ts_tasks s (th_task th)) in
     ts_gs_base s = ts_current_thread s \<and> ts_rsp0 s = th_stack_top th \<and>
     (m \<noteq> 0 \<longrightarrow> phys (ts_kernel s) (cr3 (ts_kernel s)) = m))"

lemma switch_environment_ok:
  assumes "old \<noteq> new" "new \<noteq> 0" "th_task (ts_threads s new) \<noteq> 0" "spaces_ok s ts" "th_task (ts_threads s new) \<in> set ts"
  shows "\<exists>k. switch_environment old new s =
      Inr ((), s\<lparr>ts_gs_base := new, ts_kernel := k, ts_rsp0 := th_stack_top (ts_threads s new)\<rparr>) \<and>
    (k = ts_kernel s \<or> (\<exists>m. k = with_space m (ts_kernel s))) \<and>
    spaces_ok (s\<lparr>ts_gs_base := new, ts_kernel := k, ts_rsp0 := th_stack_top (ts_threads s new)\<rparr>) ts \<and>
    (tk_memory (ts_tasks s (th_task (ts_threads s new))) \<noteq> 0 \<longrightarrow>
      phys k (cr3 k) = tk_memory (ts_tasks s (th_task (ts_threads s new))))"
proof -
  let ?m = "tk_memory (ts_tasks s (th_task (ts_threads s new)))"
  obtain n where sp: "self_mapped (ts_kernel s)" "present_levels (ts_kernel s) n 0" using assms(4) by (auto simp: spaces_ok_def)
  show ?thesis
  proof (cases "?m = 0")
    case True
    then show ?thesis
      using assms by (intro exI [of _ "ts_kernel s"])
        (simp add: switch_environment_def thenS_apply bindS_apply thread_at_def task_at_def non_null_def
          set_current_kernel_stack_def spaces_ok_def)
  next
    case False
    then have "\<exists>n. present_levels (with_space ?m (ts_kernel s)) n 0" using assms(4,5) by (auto simp: spaces_ok_def)
    then show ?thesis
      using assms False set_address_space_ok [OF sp, of ?m] self_mapped_with_space [OF sp(1)]
      by (intro exI [of _ "with_space ?m (ts_kernel s)"])
        (auto simp: switch_environment_def thenS_apply bindS_apply thread_at_def task_at_def non_null_def
          set_current_kernel_stack_def on_kernel_def spaces_ok_def, simp add: with_space_def)
  qed
qed

text \<open>The switch stores the stack pointer of the old thread and resumes from the given one.\<close>

lemma switch_task_int_ok:
  assumes "old \<noteq> 0"
  defines "stk s ret \<equiv> (ts_stack s)(cpu_rsp s - 8 := ret, cpu_rsp s - 16 := cpu_rbp s)"
  shows "switch_task_int ret old rsp s = Inr ((), s\<lparr>ts_threads := (ts_threads s)(old := (ts_threads s old)\<lparr>th_rsp := cpu_rsp s - 16\<rparr>),
    ts_stack := stk s ret, cpu_rsp := rsp + 16, cpu_rbp := stk s ret rsp, cpu_rip := stk s ret (rsp + 8)\<rparr>)"
  using assms by (simp add: switch_task_int_def bindS_apply thenS_apply cpu_push_def cpu_pop_def set_thread_def non_null_def)

text \<open>What \<open>preempt_int\<close> and \<open>preempt_syscall\<close> do before the switch of the stack, with the two arguments of the switch.\<close>

definition choose_thread :: "nat \<Rightarrow> (addr \<times> addr) task_proc" where
  "choose_thread fuel =
     bindS (getsS ts_current_thread) (\<lambda>old_thread.
     bindS (schedule fuel) (\<lambda>th.
     thenS (modifyS (\<lambda>s. s\<lparr>ts_current_thread := th\<rparr>))
    (bindS (thread_at th) (\<lambda>t.
     thenS (modifyS (\<lambda>s. s\<lparr>ts_current_task := th_task t\<rparr>))
    (thenS (switch_environment old_thread th)
    (bindS (thread_at th) (\<lambda>t. returnS (old_thread, th_rsp t))))))))"

lemma preempt_choose:
  "preempt_int fuel ret s = bindE (choose_thread fuel s) (\<lambda>((old, rsp), s'). switch_task_int ret old rsp s')"
  "preempt_syscall fuel saved sys_ret ret s =
     bindE (choose_thread fuel s) (\<lambda>((old, rsp), s'). switch_task_sys saved sys_ret ret old rsp s')"
  by (simp_all add: preempt_int_def preempt_syscall_def choose_thread_def bindS_apply thenS_apply bindE_assoc case_prod_unfold)

lemma choose_thread_ok:
  assumes rel: "sched_rel fuel s a" and sp: "spaces_ok s (sc_tasks a)" and cur: "ts_current_thread s \<noteq> 0"
  defines "r \<equiv> schedule_spec (can_run s) (ts_idle_thread s) (idle_task s) a" and "old \<equiv> ts_current_thread s"
  shows "\<exists>s3. choose_thread fuel s = Inr ((old, th_rsp (ts_threads s (fst r))), s3) \<and> ts_current_thread s3 = fst r \<and> fst r \<noteq> 0 \<and>
    sched_rel fuel s3 (snd r) \<and> spaces_ok s3 (sc_tasks (snd r)) \<and> ts_threads s3 = ts_threads s \<and>
    ts_idle_thread s3 = ts_idle_thread s \<and> (old \<noteq> fst r \<longrightarrow> env_ok s3) \<and>
    (ts_gs_base s = old \<longrightarrow> ts_gs_base s3 = fst r) \<and> ts_stack s3 = ts_stack s \<and>
    cpu_rsp s3 = cpu_rsp s \<and> cpu_rbp s3 = cpu_rbp s \<and> cpu_rip s3 = cpu_rip s"
proof -
  let ?th = "fst r" and ?T = "sc_tasks (snd r)"
  obtain s1 where s1: "schedule fuel s = Inr (?th, s1)" "s1 = s \<or> (\<exists>t th. s1 = point_to t th s)"
      "sched_rel fuel (s1\<lparr>ts_current_task := th_task (ts_threads s ?th)\<rparr>) (snd r)" "?th \<noteq> 0"
    using schedule_ok [OF rel] unfolding r_def by blast
  have eq1: "ts_threads s1 = ts_threads s" "ts_kernel s1 = ts_kernel s" "ts_current_thread s1 = old"
      "ts_stack s1 = ts_stack s" "cpu_rsp s1 = cpu_rsp s" "cpu_rbp s1 = cpu_rbp s" "cpu_rip s1 = cpu_rip s" "ts_idle_thread s1 = ts_idle_thread s"
      "ts_gs_base s1 = ts_gs_base s" "\<And>t. tk_memory (ts_tasks s1 t) = tk_memory (ts_tasks s t)"
    using s1(2) by (auto simp: old_def) (auto simp: point_to_def)
  define t where "t = th_task (ts_threads s ?th)"
  define s2 where "s2 = s1\<lparr>ts_current_thread := ?th, ts_current_task := t\<rparr>"
  have tasks: "set ?T = set (sc_tasks a)"
  proof -
    have "idle_task s \<in> set (sc_tasks a)" using rel by (simp add: sched_rel_def idle_task_def)
    moreover have "u \<in> set (sc_tasks a)" if "pick (can_run s) (sc_rings a) (sc_tasks a) = Some (u, v)" for u v
      using pick_Some [OF that] by simp
    ultimately show ?thesis by (auto simp: r_def schedule_spec_def turn_set split: option.splits)
  qed
  have rel2: "sched_rel fuel s2 (snd r)" using s1(3) unfolding s2_def t_def by (simp add: sched_rel_def ring_of_def)
  then have t: "t \<in> set ?T" "t \<noteq> 0"
    using sched_rel_ring(4) [OF rel2, of t] last_in_set [of ?T] by (auto simp: sched_rel_def s2_def cycle_def)
  have sp2: "spaces_ok s2 (sc_tasks a)" using sp by (simp add: spaces_ok_def s2_def eq1)
  have "\<exists>s3. switch_environment old ?th s2 = Inr ((), s3) \<and> spaces_ok s3 (sc_tasks a) \<and> (old \<noteq> ?th \<longrightarrow> env_ok s3) \<and>
      (ts_gs_base s = old \<longrightarrow> ts_gs_base s3 = ?th) \<and> (\<exists>g k z. s3 = s2\<lparr>ts_gs_base := g, ts_kernel := k, ts_rsp0 := z\<rparr>)"
  proof (cases "old = ?th")
    case True
    then show ?thesis
      using sp2 by (intro exI [of _ s2] exI [of _ "ts_gs_base s2"] exI [of _ "ts_kernel s2"] exI [of _ "ts_rsp0 s2"] conjI)
        (simp_all add: switch_environment_def s2_def eq1)
  next
    case False
    have task2: "th_task (ts_threads s2 ?th) = t" by (simp add: s2_def eq1 t_def)
    obtain k where k: "switch_environment old ?th s2 =
        Inr ((), s2\<lparr>ts_gs_base := ?th, ts_kernel := k, ts_rsp0 := th_stack_top (ts_threads s2 ?th)\<rparr>)"
        "spaces_ok (s2\<lparr>ts_gs_base := ?th, ts_kernel := k, ts_rsp0 := th_stack_top (ts_threads s2 ?th)\<rparr>) (sc_tasks a)"
        "tk_memory (ts_tasks s2 t) \<noteq> 0 \<longrightarrow> phys k (cr3 k) = tk_memory (ts_tasks s2 t)"
      using switch_environment_ok [OF False s1(4) _ sp2] t tasks unfolding task2 by blast
    have "ts_current_thread s2 = ?th" by (simp add: s2_def)
    then have "env_ok (s2\<lparr>ts_gs_base := ?th, ts_kernel := k, ts_rsp0 := th_stack_top (ts_threads s2 ?th)\<rparr>)"
      using k(3) task2 by (simp add: env_ok_def Let_def)
    moreover have "ts_gs_base (s2\<lparr>ts_gs_base := ?th, ts_kernel := k, ts_rsp0 := th_stack_top (ts_threads s2 ?th)\<rparr>) = ?th" by simp
    ultimately show ?thesis using k(1,2) by blast
  qed
  then obtain s3 g k z where s3: "switch_environment old ?th s2 = Inr ((), s3)" "spaces_ok s3 (sc_tasks a)"
      "old \<noteq> ?th \<longrightarrow> env_ok s3" "ts_gs_base s = old \<longrightarrow> ts_gs_base s3 = ?th" "s3 = s2\<lparr>ts_gs_base := g, ts_kernel := k, ts_rsp0 := z\<rparr>" by blast
  have run: "choose_thread fuel s = Inr ((old, th_rsp (ts_threads s ?th)), s3)"
    using s1(1,4) s3(1) s3(5) unfolding choose_thread_def
    by (simp add: bindS_apply thenS_apply thread_at_def non_null_def s2_def eq1 t_def old_def [symmetric])
  have "sched_rel fuel s3 (snd r)" using rel2 unfolding s3(5) by (simp add: sched_rel_def ring_of_def)
  moreover have "spaces_ok s3 ?T" using s3(2) tasks by (simp add: spaces_ok_def)
  ultimately show ?thesis
    using run s1(4) s3(3,4) by (intro exI [of _ s3]) (simp add: s3(5) s2_def eq1)
qed

text \<open>The relation depends on the stacks, the registers and the saved stack pointers not at all.\<close>

definition same_but_stacks :: "tasking \<Rightarrow> tasking \<Rightarrow> bool" where
  "same_but_stacks s s' \<longleftrightarrow>
     s'\<lparr>ts_threads := ts_threads s, ts_stack := ts_stack s, cpu_rsp := cpu_rsp s, cpu_rbp := cpu_rbp s, cpu_rip := cpu_rip s\<rparr> = s \<and>
     (\<forall>x. (ts_threads s' x)\<lparr>th_rsp := th_rsp (ts_threads s x)\<rparr> = ts_threads s x)"

lemma same_but_stacks_fields:
  assumes "same_but_stacks s s'"
  shows "ts_tasks s' = ts_tasks s" "ts_thread_links s' = ts_thread_links s" "ts_task_links s' = ts_task_links s"
    "ts_current_thread s' = ts_current_thread s" "ts_current_task s' = ts_current_task s" "ts_idle_thread s' = ts_idle_thread s"
    "ts_kernel s' = ts_kernel s" "ts_gs_base s' = ts_gs_base s" "ts_rsp0 s' = ts_rsp0 s"
    "th_state (ts_threads s' x) = th_state (ts_threads s x)" "th_task (ts_threads s' x) = th_task (ts_threads s x)"
    "th_stack_top (ts_threads s' x) = th_stack_top (ts_threads s x)"
proof -
  have x: "(ts_threads s' x)\<lparr>th_rsp := th_rsp (ts_threads s x)\<rparr> = ts_threads s x"
    using assms unfolding same_but_stacks_def by blast
  show "th_state (ts_threads s' x) = th_state (ts_threads s x)" "th_task (ts_threads s' x) = th_task (ts_threads s x)"
    "th_stack_top (ts_threads s' x) = th_stack_top (ts_threads s x)"
    by (subst x [symmetric], simp)+
  show "ts_tasks s' = ts_tasks s" "ts_thread_links s' = ts_thread_links s" "ts_task_links s' = ts_task_links s"
    "ts_current_thread s' = ts_current_thread s" "ts_current_task s' = ts_current_task s" "ts_idle_thread s' = ts_idle_thread s"
    "ts_kernel s' = ts_kernel s" "ts_gs_base s' = ts_gs_base s" "ts_rsp0 s' = ts_rsp0 s"
    using assms unfolding same_but_stacks_def by (cases s; cases s'; simp)+
qed

lemma same_but_stacks_rel:
  assumes "same_but_stacks s s'"
  shows "sched_rel fuel s' a = sched_rel fuel s a" "spaces_ok s' ts = spaces_ok s ts" "can_run s' = can_run s"
    "ts_current_thread s' = ts_current_thread s" "ts_idle_thread s' = ts_idle_thread s" "idle_task s' = idle_task s"
    "env_ok s' = env_ok s"
  by (simp_all add: same_but_stacks_fields [OF assms] sched_rel_def ring_of_def spaces_ok_def can_run_def idle_task_def
      env_ok_def fun_eq_iff Let_def)

lemma same_but_stacks_switch:
  assumes "old \<noteq> 0" "switch_task_int ret old rsp s = Inr ((), s')"
  shows "same_but_stacks s s'"
  using assms(2) by (auto simp: switch_task_int_ok [OF assms(1)] same_but_stacks_def)

lemma preempt_int_ok:
  fixes ret :: u64
  assumes rel: "sched_rel fuel s a" and sp: "spaces_ok s (sc_tasks a)" and cur: "ts_current_thread s \<noteq> 0"
  defines "r \<equiv> schedule_spec (can_run s) (ts_idle_thread s) (idle_task s) a"
    and "old \<equiv> ts_current_thread s" and "stk \<equiv> (ts_stack s)(cpu_rsp s - 8 := ret, cpu_rsp s - 16 := cpu_rbp s)"
  shows "\<exists>s'. preempt_int fuel ret s = Inr ((), s') \<and> ts_current_thread s' = fst r \<and> fst r \<noteq> 0 \<and>
    sched_rel fuel s' (snd r) \<and> spaces_ok s' (sc_tasks (snd r)) \<and> can_run s' = can_run s \<and>
    ts_idle_thread s' = ts_idle_thread s \<and> idle_task s' = idle_task s \<and> (old \<noteq> fst r \<longrightarrow> env_ok s') \<and>
    (ts_gs_base s = old \<longrightarrow> ts_gs_base s' = fst r) \<and>
    ts_threads s' = (ts_threads s)(old := (ts_threads s old)\<lparr>th_rsp := cpu_rsp s - 16\<rparr>) \<and> ts_stack s' = stk \<and>
    cpu_rsp s' = th_rsp (ts_threads s (fst r)) + 16 \<and> cpu_rbp s' = stk (th_rsp (ts_threads s (fst r))) \<and>
    cpu_rip s' = stk (th_rsp (ts_threads s (fst r)) + 8)"
proof -
  obtain s3 where s3: "choose_thread fuel s = Inr ((old, th_rsp (ts_threads s (fst r))), s3)" "ts_current_thread s3 = fst r"
      "fst r \<noteq> 0" "sched_rel fuel s3 (snd r)" "spaces_ok s3 (sc_tasks (snd r))" "ts_threads s3 = ts_threads s"
      "ts_idle_thread s3 = ts_idle_thread s" "old \<noteq> fst r \<longrightarrow> env_ok s3" "ts_gs_base s = old \<longrightarrow> ts_gs_base s3 = fst r" "ts_stack s3 = ts_stack s"
      "cpu_rsp s3 = cpu_rsp s" "cpu_rbp s3 = cpu_rbp s"
    using choose_thread_ok [OF rel sp cur] unfolding r_def old_def by blast
  have old: "old \<noteq> 0" using cur by (simp add: old_def)
  let ?rsp = "th_rsp (ts_threads s (fst r))"
  obtain s4 where s4: "switch_task_int ret old ?rsp s3 = Inr ((), s4)" by (simp add: switch_task_int_ok [OF old])
  note same = same_but_stacks_rel [OF same_but_stacks_switch [OF old s4]]
  have c: "can_run s3 = can_run s" "idle_task s3 = idle_task s" by (simp_all add: can_run_def idle_task_def s3(6,7) fun_eq_iff)
  have "preempt_int fuel ret s = Inr ((), s4)" by (simp add: preempt_choose s3(1) s4)
  moreover have "ts_threads s4 = (ts_threads s)(old := (ts_threads s old)\<lparr>th_rsp := cpu_rsp s - 16\<rparr>) \<and> ts_stack s4 = stk \<and>
      cpu_rsp s4 = ?rsp + 16 \<and> cpu_rbp s4 = stk ?rsp \<and> cpu_rip s4 = stk (?rsp + 8)"
    using s4 by (auto simp: switch_task_int_ok [OF old] s3 stk_def)
  moreover have "ts_gs_base s4 = ts_gs_base s3" by (rule same_but_stacks_fields(8) [OF same_but_stacks_switch [OF old s4]])
  ultimately show ?thesis using s3(3-5,8,9) by (intro exI [of _ s4]) (simp add: same c s3(2,7))
qed

text \<open>
  Property C27: \<open>preempt_int\<close> refines the round-robin scheduler. It returns, for fuel that covers the lengths
  of the rings; the current thread is the one the abstract scheduler picks and both rings are turned the
  same way, so that the scheduler state stays consistent; and when another thread was running before, the
  GS base, the kernel stack and the address space are afterwards those of the new thread.
\<close>

theorem preempt_int_refines:
  assumes "sched_rel fuel s a" "spaces_ok s (sc_tasks a)" "ts_current_thread s \<noteq> 0"
    and "schedule_spec (can_run s) (ts_idle_thread s) (idle_task s) a = (th, a')"
  shows "\<exists>s'. preempt_int fuel ret s = Inr ((), s') \<and> ts_current_thread s' = th \<and> sched_rel fuel s' a' \<and>
    spaces_ok s' (sc_tasks a') \<and> (ts_current_thread s \<noteq> th \<longrightarrow> env_ok s')"
  using preempt_int_ok [OF assms(1-3), of ret] unfolding assms(4) by auto

subsection \<open>An example\<close>

text \<open>
  The kernel task at \<open>0x100\<close> with three threads, the idle thread at \<open>0x240\<close> among them; the current thread is
  that at \<open>0x280\<close>.
\<close>

definition no_links :: links where "no_links = \<lparr>lk_next = \<lambda>_. 0, lk_prev = \<lambda>_. 0\<rparr>"

definition example_thread :: "thread_state \<Rightarrow> thread" where
  "example_thread st = \<lparr>th_user_rsp = 0, th_stack_top = 0x6000, th_syscall_type = 0, th_tid = 0, th_rsp = 0x5000,
     th_state = st, th_task = 0x100\<rparr>"

definition example_tasking :: "thread_state \<Rightarrow> tasking" where
  "example_tasking other = \<lparr>
     ts_threads = (\<lambda>a. example_thread (if a = 0x240 then THREAD_WAITING else if a = 0x200 then other else THREAD_RUNNING)),
     ts_tasks = (\<lambda>_. \<lparr>tk_pid = 0, tk_name = ''kernel'', tk_memory = 0, tk_main_thread = 0x200, tk_threads = 0x280\<rparr>),
     ts_thread_links = fst (clist_add 0x200 0x280 (fst (clist_add 0x200 0x240 (fst (clist_add 0 0x200 no_links))))),
     ts_task_links = fst (clist_add 0 0x100 no_links), ts_current_thread = 0x280, ts_current_task = 0x100,
     ts_idle_thread = 0x240, ts_next_pid = 1, ts_next_tid = 1, ts_stack = (\<lambda>_. 0), cpu_rsp = 0x4F00, cpu_rbp = 0,
     cpu_rip = 0, ts_rsp0 = 0, ts_gs_base = 0, ts_kernel = example_kernel, ts_heap = blank_heap\<rparr>"

definition example_rings :: rings where
  "example_rings = \<lparr>sc_tasks = [0x100], sc_rings = (\<lambda>_. [0x200, 0x240, 0x280])\<rparr>"

lemma example_sched_rel: "sched_rel 3 (example_tasking st) example_rings"
proof -
  have "cycle (fst (clist_add 0 0x100 no_links)) [0x100]" by (rule clist.add_first) simp
  moreover have "cycle (fst (clist_add 0 0x200 no_links)) [0x200]" by (rule clist.add_first) simp
  then have "cycle (fst (clist_add 0x200 0x240 (fst (clist_add 0 0x200 no_links)))) [0x200, 0x240]"
    using clist.add_last [of _ "0x200" "[]" "0x240"] by simp
  then have "cycle (ts_thread_links (example_tasking st)) [0x200, 0x240, 0x280]"
    using clist.add_last [of _ "0x200" "[0x240]" "0x280"] by (simp add: example_tasking_def)
  ultimately show ?thesis
    by (simp add: sched_rel_def example_rings_def ring_of_def)
      (simp add: example_tasking_def example_thread_def)
qed

lemma example_spaces: "spaces_ok (example_tasking st) [0x100]"
proof -
  have "entry_at example_kernel 0 0 = 0" by (simp add: entry_at_def cell_0_0) (simp add: example_kernel_def)
  then have "present_levels example_kernel 0 0" by (simp add: present_levels_def tables_ok_def)
  then show ?thesis using example_tables(1) by (auto simp: spaces_ok_def example_tasking_def)
qed

theorem preempt_int_refines_witness:
  "\<exists>s'. preempt_int 3 0 (example_tasking THREAD_RUNNING) = Inr ((), s') \<and> ts_current_thread s' = 0x200 \<and> env_ok s' \<and>
    sched_rel 3 s' \<lparr>sc_tasks = [0x100], sc_rings = (\<lambda>_. [0x200, 0x240, 0x280])(0x100 := [0x240, 0x280, 0x200])\<rparr>"
proof -
  let ?s = "example_tasking THREAD_RUNNING"
  have cur: "ts_current_thread ?s = 0x280" by (simp add: example_tasking_def)
  have "schedule_spec (can_run ?s) (ts_idle_thread ?s) (idle_task ?s) example_rings =
      (0x200, \<lparr>sc_tasks = [0x100], sc_rings = (\<lambda>_. [0x200, 0x240, 0x280])(0x100 := [0x240, 0x280, 0x200])\<rparr>)"
    by (simp add: schedule_spec_def example_rings_def can_run_def example_tasking_def example_thread_def turn_def)
  from preempt_int_refines [OF example_sched_rel _ _ this, of 0] show ?thesis
    using example_spaces cur by (auto simp: example_rings_def)
qed

text \<open>
  Property C36: preemption when the scheduler picks the thread that is already running. The call evaluates
  the saved stack pointer of that thread before \<open>switch_task_int\<close> stores the present one, so execution
  goes on from the frame of its previous switch, wherever that was, and not from the caller.
\<close>

theorem preempt_same_thread_stale:
  assumes "sched_rel fuel s a" "spaces_ok s (sc_tasks a)" "ts_current_thread s \<noteq> 0"
    and "fst (schedule_spec (can_run s) (ts_idle_thread s) (idle_task s) a) = ts_current_thread s"
  shows "\<exists>s'. preempt_int fuel ret s = Inr ((), s') \<and> cpu_rsp s' = th_rsp (ts_threads s (ts_current_thread s)) + 16 \<and>
    cpu_rip s' = ts_stack s' (th_rsp (ts_threads s (ts_current_thread s)) + 8) \<and>
    th_rsp (ts_threads s' (ts_current_thread s)) = cpu_rsp s - 16"
  using preempt_int_ok [OF assms(1-3), of ret] unfolding assms(4) by auto

theorem preempt_same_thread_stale_witness:
  "\<exists>s'. preempt_int 3 0x1234 (example_tasking THREAD_WAITING) = Inr ((), s') \<and> ts_current_thread s' = 0x280 \<and>
    cpu_rsp s' = 0x5010 \<and> cpu_rip s' = 0"
proof -
  let ?s = "example_tasking THREAD_WAITING"
  have s: "ts_current_thread ?s = 0x280" "th_rsp (ts_threads ?s 0x280) = 0x5000"
    by (simp_all add: example_tasking_def example_thread_def)
  have pick: "fst (schedule_spec (can_run ?s) (ts_idle_thread ?s) (idle_task ?s) example_rings) = ts_current_thread ?s"
    by (simp add: schedule_spec_def example_rings_def can_run_def example_tasking_def example_thread_def)
  have sp: "spaces_ok ?s (sc_tasks example_rings)" using example_spaces by (simp add: example_rings_def)
  obtain s' where s': "preempt_int 3 0x1234 ?s = Inr ((), s')" "cpu_rsp s' = 0x5010" "cpu_rip s' = ts_stack s' 0x5008"
    using preempt_same_thread_stale [OF example_sched_rel sp _ pick, of "0x1234"] unfolding s by auto
  have more: "ts_current_thread s' = 0x280" "ts_stack s' = (ts_stack ?s)(cpu_rsp ?s - 8 := 0x1234, cpu_rsp ?s - 16 := cpu_rbp ?s)"
    using preempt_int_ok [OF example_sched_rel sp, of "0x1234"] s'(1) pick s by auto
  have "ts_stack s' 0x5008 = 0" unfolding more(2) by (simp add: example_tasking_def)
  then show ?thesis using s' more(1) by auto
qed

section \<open>Every runnable thread gets its turn\<close>

text \<open>
  Preemptions with arbitrary activity of the threads in between, which changes only the stacks and the
  registers; the result is the list of threads picked.
\<close>

definition thread_activity :: "(tasking \<Rightarrow> tasking) \<Rightarrow> bool" where
  "thread_activity f \<longleftrightarrow> (\<forall>s. \<exists>stk rsp rbp rip. f s = s\<lparr>ts_stack := stk, cpu_rsp := rsp, cpu_rbp := rbp, cpu_rip := rip\<rparr>)"

fun preemptions :: "nat \<Rightarrow> (tasking \<Rightarrow> tasking) list \<Rightarrow> addr list task_proc" where
  "preemptions fuel [] = returnS []"
| "preemptions fuel (f # fs) =
     thenS (modifyS f)
    (thenS (bindS (getsS cpu_rip) (preempt_int fuel))
    (bindS (getsS ts_current_thread) (\<lambda>th. bindS (preemptions fuel fs) (\<lambda>ths. returnS (th # ths)))))"

lemma activity_rel:
  assumes "thread_activity f"
  shows "sched_rel fuel (f s) a = sched_rel fuel s a" "spaces_ok (f s) ts = spaces_ok s ts" "can_run (f s) = can_run s"
    "ts_current_thread (f s) = ts_current_thread s" "ts_idle_thread (f s) = ts_idle_thread s" "idle_task (f s) = idle_task s"
proof -
  obtain stk rsp rbp rip where f: "f s = s\<lparr>ts_stack := stk, cpu_rsp := rsp, cpu_rbp := rbp, cpu_rip := rip\<rparr>"
    using assms unfolding thread_activity_def by blast
  show "sched_rel fuel (f s) a = sched_rel fuel s a" "spaces_ok (f s) ts = spaces_ok s ts" "can_run (f s) = can_run s"
    "ts_current_thread (f s) = ts_current_thread s" "ts_idle_thread (f s) = ts_idle_thread s" "idle_task (f s) = idle_task s"
    by (simp_all add: f sched_rel_def ring_of_def spaces_ok_def can_run_def idle_task_def fun_eq_iff)
qed

lemma spec_keeps:
  assumes "sched_rel fuel s a" "t \<in> set (sc_tasks a)"
  defines "r \<equiv> schedule_spec (can_run s) (ts_idle_thread s) (idle_task s) a"
  shows "set (sc_tasks (snd r)) = set (sc_tasks a)" "set (sc_rings (snd r) t) = set (sc_rings a t)"
proof -
  have "idle_task s \<in> set (sc_tasks a)" using assms(1) by (simp add: sched_rel_def idle_task_def)
  moreover have "u \<in> set (sc_tasks a)" "v \<in> set (sc_rings a u)"
    if "pick (can_run s) (sc_rings a) (sc_tasks a) = Some (u, v)" for u v
    using pick_Some [OF that] by simp_all
  ultimately show "set (sc_tasks (snd r)) = set (sc_tasks a)" "set (sc_rings (snd r) t) = set (sc_rings a t)"
    by (auto simp: r_def schedule_spec_def turn_set split: option.splits)
qed

lemma preemptions_ok:
  assumes "sched_rel fuel s a" "spaces_ok s (sc_tasks a)" "ts_current_thread s \<noteq> 0" "\<forall>f \<in> set fs. thread_activity f"
    and "t \<in> set (sc_tasks a)" "th \<in> set (sc_rings a t)" "can_run s th"
  shows "\<exists>ths s'. preemptions fuel fs s = Inr (ths, s') \<and> length ths = length fs \<and>
    (distance t th a < length fs \<longrightarrow> th \<in> set ths)"
  using assms
proof (induction fs arbitrary: s a)
  case (Cons f fs)
  have f: "thread_activity f" using Cons.prems(4) by simp
  note act = activity_rel [OF f]
  let ?r = "schedule_spec (can_run s) (ts_idle_thread s) (idle_task s) a"
  have pre: "sched_rel fuel (f s) a" "spaces_ok (f s) (sc_tasks a)" "ts_current_thread (f s) \<noteq> 0"
    using Cons.prems(1-3) by (simp_all add: act)
  obtain s1 where s1: "preempt_int fuel (cpu_rip (f s)) (f s) = Inr ((), s1)" "ts_current_thread s1 = fst ?r"
      "fst ?r \<noteq> 0" "sched_rel fuel s1 (snd ?r)" "spaces_ok s1 (sc_tasks (snd ?r))" "can_run s1 = can_run s"
    using preempt_int_ok [OF pre, of "cpu_rip (f s)"] unfolding act by blast
  note keeps = spec_keeps [OF Cons.prems(1,5)]
  obtain ths s' where ths: "preemptions fuel fs s1 = Inr (ths, s')" "length ths = length fs"
      "distance t th (snd ?r) < length fs \<longrightarrow> th \<in> set ths"
    using Cons.IH [OF s1(4,5)] s1(2,3,6) Cons.prems(4-7) keeps by auto
  have "distinct (sc_tasks a)" using Cons.prems(1) by (simp add: sched_rel_def cycle_def)
  then have "fst ?r = th \<or> distance t th (snd ?r) < distance t th a"
    using sched_rel_ring(2) [OF Cons.prems(1)] by (intro schedule_spec_progress) (use Cons.prems(5-7) in auto)
  moreover have "preemptions fuel (f # fs) s = Inr (fst ?r # ths, s')"
    using s1(1,2) ths(1) by (simp add: thenS_apply bindS_apply)
  ultimately show ?case using ths(2,3) by auto
qed simp

text \<open>
  Property C28: no thread starves. If a thread of a task can run, then among as many preemptions as there are
  pairs of a task and a thread of that task's ring, whatever the running threads do with their stacks and
  registers in between, it is picked at least once.
\<close>

theorem runnable_thread_is_scheduled:
  assumes "sched_rel fuel s a" "spaces_ok s (sc_tasks a)" "ts_current_thread s \<noteq> 0" "\<forall>f \<in> set fs. thread_activity f"
    and "t \<in> set (sc_tasks a)" "th \<in> set (sc_rings a t)" "can_run s th"
    and "length (sc_rings a t) * length (sc_tasks a) \<le> length fs"
  shows "\<exists>ths s'. preemptions fuel fs s = Inr (ths, s') \<and> length ths = length fs \<and> th \<in> set ths"
proof -
  have "Suc (pos th (sc_rings a t)) * length (sc_tasks a) \<le> length (sc_rings a t) * length (sc_tasks a)"
    by (rule mult_le_mono1) (use pos_less [OF assms(6)] in simp)
  then have "distance t th a < length fs" using pos_less [OF assms(5)] assms(8) by (simp add: distance_def)
  then show ?thesis using preemptions_ok [OF assms(1-7)] by auto
qed

theorem runnable_thread_is_scheduled_witness:
  "\<exists>ths s'. preemptions 3 [id, id, id] (example_tasking THREAD_RUNNING) = Inr (ths, s') \<and> length ths = 3 \<and> 0x280 \<in> set ths"
proof -
  have sp: "spaces_ok (example_tasking THREAD_RUNNING) (sc_tasks example_rings)" using example_spaces by (simp add: example_rings_def)
  have act: "\<forall>f \<in> set [id, id, id]. thread_activity f"
  proof
    fix f :: "tasking \<Rightarrow> tasking" assume "f \<in> set [id, id, id]"
    then have "f = id" by simp
    have "f s = s\<lparr>ts_stack := ts_stack s, cpu_rsp := cpu_rsp s, cpu_rbp := cpu_rbp s, cpu_rip := cpu_rip s\<rparr>" for s
      by (simp add: \<open>f = id\<close>)
    then show "thread_activity f" unfolding thread_activity_def by blast
  qed
  have "\<exists>ths s'. preemptions 3 [id, id, id] (example_tasking THREAD_RUNNING) = Inr (ths, s') \<and>
      length ths = length [id, id, id :: tasking \<Rightarrow> tasking] \<and> 0x280 \<in> set ths"
    by (rule runnable_thread_is_scheduled [OF example_sched_rel sp _ act, of "0x100"])
      (simp_all add: example_rings_def example_tasking_def can_run_def example_thread_def)
  then show ?thesis by (simp add: numeral_eq_Suc del: preemptions.simps)
qed

end
