(* ===== verification/System.thy ===== *)
theory System imports Exceptions Scheduler begin

text \<open>
  The state that the interrupt handlers share: the interrupt tables with the console, the scheduler with the
  memory managers, the tick counter of \<open>arch/x64/io/pit.c\<close> and the model-specific registers. On it
  stand the failure routines of \<open>core/assert.c\<close> and the timer of \<open>arch/x64/io/pit.c\<close>.
\<close>

section \<open>State\<close>

record system =
  sy_irq :: irq
  sy_tasking :: tasking
  sy_pit_ticks :: u64
  sy_msr :: "u32 \<Rightarrow> u64"

type_synonym 'a system_proc = "(system, 'a) kproc"

definition on_irq :: "'a irq_proc \<Rightarrow> 'a system_proc" where
  "on_irq p = (\<lambda>s. mapE (\<lambda>(x, q). (x, s\<lparr>sy_irq := q\<rparr>)) (p (sy_irq s)))"

definition on_tasking :: "'a task_proc \<Rightarrow> 'a system_proc" where
  "on_tasking p = (\<lambda>s. mapE (\<lambda>(x, t). (x, s\<lparr>sy_tasking := t\<rparr>)) (p (sy_tasking s)))"

lemma on_irq_Inr [simp]: "p (sy_irq s) = Inr (x, q) \<Longrightarrow> on_irq p s = Inr (x, s\<lparr>sy_irq := q\<rparr>)"
  by (simp add: on_irq_def)

lemma on_tasking_Inr [simp]: "p (sy_tasking s) = Inr (x, t) \<Longrightarrow> on_tasking p s = Inr (x, s\<lparr>sy_tasking := t\<rparr>)"
  by (simp add: on_tasking_def)

section \<open>Failure (core/assert.c)\<close>

text \<open>\<open>lit\<close> gives the addresses of string literals, as in \<open>Irq\<close>; \<open>exp\<close>, \<open>file\<close> and \<open>msg\<close> are addresses of strings.\<close>

definition halt :: "mem \<Rightarrow> 'a irq_proc" where
  "halt m = thenS disable_irq (thenS (on_console (print m ''System halted'' [])) (failS Diverges))"

definition assert_backend :: "mem \<Rightarrow> addr \<Rightarrow> addr \<Rightarrow> u32 \<Rightarrow> 'a irq_proc" where
  "assert_backend m exp file line =
     thenS (on_console (print m (''%s:%d: assertion %s failed'' @ [CHR 0x0A]) [file, ucast line, exp])) (halt m)"

definition panic :: "mem \<Rightarrow> addr \<Rightarrow> 'a irq_proc" where
  "panic m msg = thenS (on_console (print m (''Kernel panic'' @ [CHR 0x0A] @ ''%s'' @ [CHR 0x0A]) [msg])) (halt m)"

section \<open>The timer (arch/x64/io/pit.c)\<close>

definition PIT_CH0 :: u16 where "PIT_CH0 = 0x40"
definition PIT_COMMAND :: u16 where "PIT_COMMAND = 0x43"
definition PIT_CH0_SQUARE :: u8 where "PIT_CH0_SQUARE = 0x34"

definition set_counter :: "unit con_proc" where
  "set_counter =
     (let target_freq_hz = 1000; divisor = 1193182 sdiv target_freq_hz :: int
      in thenS (outb PIT_CH0 (word_of_int divisor)) (outb PIT_CH0 (word_of_int (divisor div 2 ^ 8))))"

text \<open>\<open>inb\<close> reads a port; the mask of interrupt line 0 is flipped last.\<close>

definition pit_initialize :: "mem \<Rightarrow> (u16 \<Rightarrow> u8) \<Rightarrow> addr \<Rightarrow> unit irq_proc" where
  "pit_initialize m inb pit_handler =
     thenS (on_console (print m (''hello pit world'' @ [CHR 0x0A]) []))
    (thenS (set_irq_handler 0x20 pit_handler 0)
    (thenS (on_console (outb PIT_COMMAND PIT_CH0_SQUARE))
    (thenS (on_console set_counter)
           (on_console (pic_flip_irq inb 0)))))"

definition pit_handler :: "nat \<Rightarrow> u64 \<Rightarrow> unit system_proc" where
  "pit_handler fuel ret =
     thenS (modifyS (\<lambda>s. s\<lparr>sy_pit_ticks := sy_pit_ticks s + 1\<rparr>))
    (thenS (on_irq (on_console irq_eoi))
           (on_tasking (preempt_int fuel ret)))"

definition get_tick_count :: "u64 system_proc" where
  "get_tick_count = getsS sy_pit_ticks"

text \<open>The bytes a run of the handler writes to the controllers, and the divisor of the counter.\<close>

lemma set_counter_bytes:
  "set_counter s = Inr ((), s\<lparr>con_port := con_port s @ [(0x40, 0xA9), (0x40, 0x04)]\<rparr>)"
  by (simp add: set_counter_def outb_def PIT_CH0_def thenS_apply signed_divide_int_def)

definition after_eoi :: "irq \<Rightarrow> irq" where
  "after_eoi q = q\<lparr>iq_console := (iq_console q)\<lparr>con_port := con_port (iq_console q) @ [(0x20, 0x20)]\<rparr>\<rparr>"

lemma pit_handler_run:
  assumes "preempt_int fuel ret (sy_tasking s) = Inr ((), t)"
  shows "pit_handler fuel ret s = Inr ((), s\<lparr>sy_pit_ticks := sy_pit_ticks s + 1, sy_irq := after_eoi (sy_irq s), sy_tasking := t\<rparr>)"
  using assms by (simp add: pit_handler_def thenS_apply irq_eoi_def on_console_outb on_irq_def on_tasking_def
      after_eoi_def PIC1_CMD_def PIC_EOI_def)

text \<open>
  \<open>pit_initialize\<close> starts the timer. On a working console it installs the handler in vector 32, which
  is present and reserved to the kernel, sets the counter to 1193, the quotient of the input frequency
  and 1000 Hz, low byte first, and flips the mask bit of line 0.
\<close>

theorem pit_initialize_correct:
  assumes "tty_rel (con_tty (iq_console s)) a" "length (iq_handler s) = 80" "length (iq_idt s) = 80"
  shows "\<exists>s' lo hi. pit_initialize m inb handler s = Inr ((), s') \<and>
    con_port (iq_console s') = con_port (iq_console s) @ map (Pair 0xE9) (map of_char (''hello pit world'' @ [CHR 0x0A])) @
      [(PIT_COMMAND, PIT_CH0_SQUARE), (PIT_CH0, lo), (PIT_CH0, hi), (0x21, inb 0x21 XOR 1)] \<and>
    int (unat lo + 256 * unat hi) = 1193182 div 1000 \<and>
    iq_handler s' ! 32 = \<lparr>ih_address = handler, ih_flags = 0\<rparr> \<and> ie_present (iq_idt s' ! 32) = 1 \<and> ie_dpl (iq_idt s' ! 32) = 0"
proof -
  let ?t = "map of_char (''hello pit world'' @ [CHR 0x0A]) :: u8 list"
  have "print m (''hello pit world'' @ [CHR 0x0A]) [] = emit ?t"
    unfolding print_def printk_def by simp
  then obtain t where t: "print m (''hello pit world'' @ [CHR 0x0A]) [] (iq_console s) =
      Inr ((), (iq_console s)\<lparr>con_tty := t, con_port := con_port (iq_console s) @ map (Pair 0xE9) ?t\<rparr>)"
    using shows_text_emit [of ?t] assms(1) unfolding shows_text_def by fastforce
  define c where "c = (iq_console s)\<lparr>con_tty := t, con_port := con_port (iq_console s) @ map (Pair 0xE9) ?t\<rparr>"
  have port: "con_port c = con_port (iq_console s) @ map (Pair 0xE9) ?t" by (simp add: c_def)
  have hello: "on_console (print m (''hello pit world'' @ [CHR 0x0A]) []) s = Inr ((), s\<lparr>iq_console := c\<rparr>)"
    unfolding on_console_def t c_def by simp
  have flip: "pic_flip_irq inb 0 c' = Inr ((), c'\<lparr>con_port := con_port c' @ [(0x21, inb 0x21 XOR 1)]\<rparr>)" for c'
    by (simp add: pic_flip_irq_def c_shl1_ok outb_def PIC1_DATA_def)
  define q where "q = s\<lparr>iq_handler := (iq_handler s)[32 := \<lparr>ih_address = handler, ih_flags = 0\<rparr>],
      iq_idt := (iq_idt s)[32 := opened 0 (iq_idt s ! 32)],
      iq_console := c\<lparr>con_port := con_port c @ [(PIT_COMMAND, PIT_CH0_SQUARE), (PIT_CH0, 0xA9), (PIT_CH0, 4), (0x21, inb 0x21 XOR 1)]\<rparr>\<rparr>"
  have "pit_initialize m inb handler s = Inr ((), q)"
    unfolding pit_initialize_def thenS_apply hello
    by (simp add: set_irq_handler_run q_def on_console_def outb_def set_counter_bytes flip PIT_CH0_def)
  then show ?thesis
    using assms(2,3) by (intro exI [of _ q] exI [of _ "0xA9"] exI [of _ 4]) (simp add: q_def port)
qed

theorem pit_initialize_correct_witness:
  "\<exists>t s'. pit_initialize (\<lambda>_. 0) (\<lambda>_. 0xFF) 0x7000
      (example_irq\<lparr>iq_idt := replicate 80 (compile_idt \<lparr>im_offset = 0x1000, im_selector = 8, im_ist = 0, im_type = 0xE, im_dpl = 0, im_present = 0\<rparr>),
        iq_console := \<lparr>con_tty = t, con_port = []\<rparr>\<rparr>) = Inr ((), s') \<and>
     (0x21, 0xFE) \<in> set (con_port (iq_console s')) \<and> iq_handler s' ! 32 = \<lparr>ih_address = 0x7000, ih_flags = 0\<rparr>"
proof -
  obtain t where t: "tty_rel t term_init" using tty_initialize_ok by blast
  define s where "s = example_irq\<lparr>iq_idt := replicate 80 (compile_idt \<lparr>im_offset = 0x1000, im_selector = 8, im_ist = 0, im_type = 0xE, im_dpl = 0, im_present = 0\<rparr>),
        iq_console := \<lparr>con_tty = t, con_port = []\<rparr>\<rparr>"
  have "tty_rel (con_tty (iq_console s)) term_init" "length (iq_handler s) = 80" "length (iq_idt s) = 80"
    using t by (simp_all add: s_def example_irq_def)
  then have "\<exists>s'. pit_initialize (\<lambda>_. 0) (\<lambda>_. 0xFF) 0x7000 s = Inr ((), s') \<and>
      (0x21, 0xFE) \<in> set (con_port (iq_console s')) \<and> iq_handler s' ! 32 = \<lparr>ih_address = 0x7000, ih_flags = 0\<rparr>"
    using pit_initialize_correct [of s term_init "\<lambda>_. 0" "\<lambda>_. 0xFF" "0x7000"] by fastforce
  then show ?thesis unfolding s_def by blast
qed

end
