(* ===== verification/Threads.thy ===== *)
theory Threads imports Scheduler begin

text \<open>
  The life of a thread's stack in \<open>core/task.c\<close>: the frame that \<open>create_thread\<close> builds, what the first
  switch to the new thread makes of it, and that a thread that was switched away from comes back to where it
  was.
\<close>

section \<open>Pushing\<close>

fun push_cells :: "addr \<Rightarrow> u64 list \<Rightarrow> (addr \<Rightarrow> u64) \<Rightarrow> addr \<Rightarrow> u64" where
  "push_cells rsp [] m = m"
| "push_cells rsp (v # vs) m = push_cells (rsp - 8) vs (m(rsp - 8 := v))"

definition pushed :: "addr \<Rightarrow> u64 list \<Rightarrow> tasking \<Rightarrow> tasking" where
  "pushed th vs s = s\<lparr>ts_threads := (ts_threads s)(th := (ts_threads s th)\<lparr>th_rsp := th_rsp (ts_threads s th) - 8 * of_nat (length vs)\<rparr>),
     ts_stack := push_cells (th_rsp (ts_threads s th)) vs (ts_stack s)\<rparr>"

lemma push_all_ok: "th \<noteq> 0 \<Longrightarrow> push_all th vs s = Inr ((), pushed th vs s)"
proof (induction vs arbitrary: s)
  case Nil
  then show ?case by (simp add: pushed_def)
next
  case (Cons v vs)
  then show ?case
    by (simp add: thenS_apply push_def bindS_apply set_thread_def thread_at_def non_null_def)
      (simp add: pushed_def algebra_simps)
qed

lemma push_ok: "th \<noteq> 0 \<Longrightarrow> push th v s = Inr ((), pushed th [v] s)"
  using push_all_ok [of th "[v]" s] by (auto simp: thenS_apply bindE_def split: sum.splits prod.splits)

lemma set_thread_ok: "th \<noteq> 0 \<Longrightarrow> set_thread th f s = Inr ((), s\<lparr>ts_threads := (ts_threads s)(th := f (ts_threads s th))\<rparr>)"
  by (simp add: set_thread_def thenS_apply non_null_def)

lemma set_task_ok: "t \<noteq> 0 \<Longrightarrow> set_task t f s = Inr ((), s\<lparr>ts_tasks := (ts_tasks s)(t := f (ts_tasks s t))\<rparr>)"
  by (simp add: set_task_def thenS_apply non_null_def)

lemma push_cells_append: "push_cells rsp (xs @ ys) m = push_cells (rsp - 8 * of_nat (length xs)) ys (push_cells rsp xs m)"
  by (induction xs arbitrary: rsp m) (simp_all add: algebra_simps)

lemma pushed_append: "pushed th ys (pushed th xs s) = pushed th (xs @ ys) s"
  by (simp add: pushed_def push_cells_append algebra_simps)

lemma push_cells_outside:
  "(\<And>k. k < length vs \<Longrightarrow> a \<noteq> rsp - 8 * of_nat (Suc k)) \<Longrightarrow> push_cells rsp vs m a = m a"
proof (induction vs arbitrary: rsp m)
  case (Cons v vs)
  have "a \<noteq> rsp - 8" using Cons.prems [of 0] by simp
  moreover have "a \<noteq> rsp - 8 - 8 * of_nat (Suc k)" if "k < length vs" for k
    using Cons.prems [of "Suc k"] that by (simp add: algebra_simps)
  ultimately have "push_cells (rsp - 8) vs (m(rsp - 8 := v)) a = (m(rsp - 8 := v)) a" by (intro Cons.IH) auto
  then show ?case using \<open>a \<noteq> rsp - 8\<close> by simp
qed simp

lemma step_inj:
  assumes "j < 2 ^ 32" "k < 2 ^ 32"
  shows "8 * of_nat j = (8 * of_nat k :: u64) \<longleftrightarrow> j = k"
proof -
  have "unat (8 * of_nat i :: u64) = 8 * i" if "i < 2 ^ 32" for i
    using that by (simp add: unat_mult_u64 unat_of_nat_u64)
  then show ?thesis using assms by (metis mult_cancel1 zero_neq_numeral)
qed

lemma push_cells_nth:
  "length vs < 2 ^ 32 \<Longrightarrow> i < length vs \<Longrightarrow> push_cells rsp vs m (rsp - 8 * of_nat (Suc i)) = vs ! i"
proof (induction vs arbitrary: rsp m i)
  case (Cons v vs)
  show ?case
  proof (cases i)
    case 0
    have "rsp - 8 \<noteq> rsp - 8 - 8 * of_nat (Suc k)" if "k < length vs" for k
    proof -
      have "8 * of_nat (Suc k) \<noteq> (0 :: u64)" using step_inj [of "Suc k" 0] that Cons.prems(1) by simp
      moreover have "rsp - 8 \<noteq> rsp - 8 - x" if "x \<noteq> 0" for x using that by simp
      ultimately show ?thesis by blast
    qed
    then have "push_cells (rsp - 8) vs (m(rsp - 8 := v)) (rsp - 8) = v"
      using push_cells_outside [of vs "rsp - 8" "rsp - 8" "m(rsp - 8 := v)"] by simp
    then show ?thesis using 0 by simp
  next
    case (Suc j)
    have "rsp - 8 * of_nat (Suc (Suc j)) = rsp - 8 - 8 * of_nat (Suc j)" by (simp add: algebra_simps)
    moreover have "push_cells (rsp - 8) vs (m(rsp - 8 := v)) (rsp - 8 - 8 * of_nat (Suc j)) = vs ! j"
      using Cons.prems Suc by (intro Cons.IH) auto
    ultimately show ?thesis by (simp only: Suc push_cells.simps nth_Cons_Suc)
  qed
qed simp

lemma pushed_simps [simp]:
  "ts_tasks (pushed th vs s) = ts_tasks s" "ts_thread_links (pushed th vs s) = ts_thread_links s"
  "ts_next_tid (pushed th vs s) = ts_next_tid s"
  by (simp_all add: pushed_def)

section \<open>A new thread\<close>

definition first_frame :: "symbols \<Rightarrow> addr \<Rightarrow> u64 \<Rightarrow> u64 \<Rightarrow> u64 \<Rightarrow> u64 list" where
  "first_frame sy main cs ss sp = [ss, sp, RFLAGS_IF, cs, main, 0] @ replicate 15 0 @ [sym_leave_interrupt_handler sy, 0]"

lemma length_first_frame [simp]: "length (first_frame sy main cs ss sp) = 23"
  by (simp add: first_frame_def)

text \<open>Where the new thread goes in the ring of its task.\<close>

definition ring_after :: "tasking \<Rightarrow> addr \<Rightarrow> addr \<Rightarrow> links \<times> addr" where
  "ring_after s task th = clist_add (tk_threads (ts_tasks s task)) th (ts_thread_links s)"

definition new_thread_state :: "symbols \<Rightarrow> addr \<Rightarrow> addr \<Rightarrow> addr \<Rightarrow> addr \<Rightarrow> u64 \<Rightarrow> u64 \<Rightarrow> u64 \<Rightarrow> tasking \<Rightarrow> tasking" where
  "new_thread_state sy task th stack main cs ss us s =
     s\<lparr>ts_threads := (ts_threads s)(th := (ts_threads s th)\<lparr>th_rsp := stack + DEFAULT_STACK_SIZE - 8 * 23,
         th_stack_top := stack + DEFAULT_STACK_SIZE, th_state := THREAD_RUNNING, th_task := task, th_tid := ts_next_tid s\<rparr>),
       ts_stack := push_cells (stack + DEFAULT_STACK_SIZE)
         (first_frame sy main cs ss (if us = 0 then stack + DEFAULT_STACK_SIZE else us)) (ts_stack s),
       ts_next_tid := ts_next_tid s + 1, ts_thread_links := fst (ring_after s task th),
       ts_tasks := (if tk_threads (ts_tasks s task) \<noteq> 0 then ts_tasks s
         else (ts_tasks s)(task := (ts_tasks s task)\<lparr>tk_threads := snd (ring_after s task th)\<rparr>))\<rparr>"

lemma create_thread_ok:
  assumes "kalloc 72 (ts_heap s) = Inr (th, h1)" "kalloc DEFAULT_STACK_SIZE h1 = Inr (stack, h2)"
    and "th \<noteq> 0" "stack \<noteq> 0" "task \<noteq> 0"
  shows "create_thread sy task main cs ss us s = Inr (th, new_thread_state sy task th stack main cs ss us (s\<lparr>ts_heap := h2\<rparr>))"
proof -
  define s2 where "s2 = s\<lparr>ts_heap := h2\<rparr>"
  have blocks: "on_heap (kalloc 72) s = Inr (th, s\<lparr>ts_heap := h1\<rparr>)"
      "on_heap (kalloc DEFAULT_STACK_SIZE) (s\<lparr>ts_heap := h1\<rparr>) = Inr (stack, s2)"
    using assms(1,2) by (simp_all add: on_heap_def s2_def)
  define sp where "sp = (if us = 0 then stack + DEFAULT_STACK_SIZE else us)"
  define s3 where "s3 = s2\<lparr>ts_threads := (ts_threads s2)(th := (ts_threads s2 th)\<lparr>th_rsp := stack + DEFAULT_STACK_SIZE,
      th_stack_top := stack + DEFAULT_STACK_SIZE\<rparr>)\<rparr>"
  define s4 where "s4 = pushed th (first_frame sy main cs ss sp) s3"
  have s4: "ts_tasks s4 = ts_tasks s2" "ts_thread_links s4 = ts_thread_links s2" "ts_next_tid s4 = ts_next_tid s2"
    by (simp_all add: s4_def s3_def pushed_def)
  have s3: "ts_tasks s3 = ts_tasks s2" "ts_thread_links s3 = ts_thread_links s2" "ts_next_tid s3 = ts_next_tid s2"
    by (simp_all add: s3_def)
  have frame: "pushed th (ss # x # RFLAGS_IF # cs # main # 0 # replicate 15 0 @ [sym_leave_interrupt_handler sy, 0]) s3 = s4"
    if "x = sp" for x
    by (simp add: s4_def first_frame_def that)
  note run = bindS_apply thenS_apply Let_def set_thread_ok [OF assms(3)] push_ok [OF assms(3)] push_all_ok [OF assms(3)]
    pushed_append set_task_ok [OF assms(5)] task_at_def non_null_def add_thread_def
  have "create_thread sy task main cs ss us s = Inr (th, s4\<lparr>ts_threads := (ts_threads s4)(th := (ts_threads s4 th)
      \<lparr>th_state := THREAD_RUNNING, th_task := task, th_tid := ts_next_tid s2\<rparr>),
      ts_next_tid := ts_next_tid s2 + 1, ts_thread_links := fst (ring_after s2 task th),
       ts_tasks := (if tk_threads (ts_tasks s2 task) \<noteq> 0 then ts_tasks s2
         else (ts_tasks s2)(task := (ts_tasks s2 task)\<lparr>tk_threads := snd (ring_after s2 task th)\<rparr>))\<rparr>)"
    unfolding create_thread_def using blocks assms(4,5)
    by (cases "us = 0") (simp_all add: run s3_def [symmetric] frame sp_def s3 s4 ring_after_def case_prod_unfold)
  also have "\<dots> = Inr (th, new_thread_state sy task th stack main cs ss us s2)"
    by (cases s2; cases "ts_threads s2 th") (simp add: new_thread_state_def s4_def pushed_def s3_def sp_def)
  finally show ?thesis unfolding s2_def .
qed

text \<open>The first switch to a new thread; the stack it leaves does not overlap the new one.\<close>

lemma first_switch:
  fixes stack :: addr and x y :: u64
  assumes "stk = push_cells (stack + 8192) (first_frame sy main cs ss sp) m"
    and "\<And>k. k < 23 \<Longrightarrow> stack + 8192 - 8 * of_nat (Suc k) \<noteq> a \<and> stack + 8192 - 8 * of_nat (Suc k) \<noteq> b"
  defines "stk' \<equiv> stk(a := x, b := y)" and "rsp \<equiv> stack + 8192 - 8 * 23"
  shows "\<And>i. i < 23 \<Longrightarrow> stk' (rsp + 8 * of_nat i) = rev (first_frame sy main cs ss sp) ! i"
proof -
  fix i :: nat assume i: "i < 23"
  let ?k = "22 - i"
  have k: "of_nat ?k = (22 - of_nat i :: u64)" using i by (simp add: of_nat_diff)
  have addr: "rsp + 8 * of_nat i = stack + 8192 - 8 * of_nat (Suc ?k)"
    unfolding of_nat_Suc k rsp_def by (simp add: algebra_simps)
  have "stk' (rsp + 8 * of_nat i) = stk (stack + 8192 - 8 * of_nat (Suc ?k))"
    unfolding addr stk'_def using assms(2) [of ?k] i by simp
  also have "\<dots> = first_frame sy main cs ss sp ! ?k"
    unfolding assms(1) by (rule push_cells_nth) (use i in simp_all)
  also have "\<dots> = rev (first_frame sy main cs ss sp) ! i" using i by (simp add: rev_nth)
  finally show "stk' (rsp + 8 * of_nat i) = rev (first_frame sy main cs ss sp) ! i" .
qed

text \<open>
  Property C33: \<open>create_thread\<close> builds a stack from which the first switch to the thread starts it. When
  \<open>kalloc\<close> gives two blocks, the thread is made runnable with the next thread number and put into the ring
  of its task, and a \<open>switch_task_int\<close> to its saved stack pointer, from a thread whose stack lies elsewhere,
  returns into \<open>leave_interrupt_handler\<close>, which loads zeros into the 15 registers and returns to the entry
  point with interrupts enabled, in the given segments and on the given stack. (\<open>doc/preempted_thread_stack.md\<close> has
  another frame for a new thread, with the function \<open>switch_task_int_return\<close>, which the code does not have.)
\<close>

theorem create_thread_starts:
  assumes "kalloc 72 (ts_heap s) = Inr (th, h1)" "kalloc DEFAULT_STACK_SIZE h1 = Inr (stack, h2)"
    and "th \<noteq> 0" "stack \<noteq> 0" "task \<noteq> 0" "old \<noteq> 0"
    and "\<forall>k < 23. stack + 8192 - 8 * of_nat (Suc k) \<notin> {cpu_rsp s - 8, cpu_rsp s - 16}"
  shows "\<exists>s' s''. create_thread sy task main cs ss us s = Inr (th, s') \<and>
    th_state (ts_threads s' th) = THREAD_RUNNING \<and> th_tid (ts_threads s' th) = ts_next_tid s \<and>
    ts_thread_links s' = fst (clist_add (tk_threads (ts_tasks s task)) th (ts_thread_links s)) \<and>
    switch_task_int ret old (th_rsp (ts_threads s' th)) s' = Inr ((), s'') \<and>
    cpu_rip s'' = sym_leave_interrupt_handler sy \<and>
    leave_interrupt_handler s'' = (replicate 15 0, \<lparr>if_rip = main, if_cs = cs, if_rflags = RFLAGS_IF,
      if_rsp = (if us = 0 then stack + 8192 else us), if_ss = ss\<rparr>)"
proof -
  let ?sp = "if us = 0 then stack + 8192 else us" and ?rsp = "stack + 8192 - 8 * 23"
  define s' where "s' = new_thread_state sy task th stack main cs ss us (s\<lparr>ts_heap := h2\<rparr>)"
  have run: "create_thread sy task main cs ss us s = Inr (th, s')"
    unfolding s'_def by (rule create_thread_ok [OF assms(1-5)])
  have th: "th_rsp (ts_threads s' th) = ?rsp" "th_state (ts_threads s' th) = THREAD_RUNNING"
      "th_tid (ts_threads s' th) = ts_next_tid s" "cpu_rsp s' = cpu_rsp s" "cpu_rbp s' = cpu_rbp s"
      "ts_thread_links s' = fst (clist_add (tk_threads (ts_tasks s task)) th (ts_thread_links s))"
      "ts_stack s' = push_cells (stack + 8192) (first_frame sy main cs ss ?sp) (ts_stack s)"
    by (simp_all add: s'_def new_thread_state_def DEFAULT_STACK_SIZE_def ring_after_def)
  define stk where "stk = (ts_stack s')(cpu_rsp s - 8 := ret, cpu_rsp s - 16 := cpu_rbp s)"
  have cells: "stk (?rsp + 8 * of_nat i) = rev (first_frame sy main cs ss ?sp) ! i" if "i < 23" for i
    unfolding stk_def by (rule first_switch [OF th(7) _ that]) (use assms(7) in auto)
  define s'' where "s'' = s'\<lparr>ts_threads := (ts_threads s')(old := (ts_threads s' old)\<lparr>th_rsp := cpu_rsp s' - 16\<rparr>),
    ts_stack := stk, cpu_rsp := ?rsp + 16, cpu_rbp := stk ?rsp, cpu_rip := stk (?rsp + 8)\<rparr>"
  have switch: "switch_task_int ret old ?rsp s' = Inr ((), s'')"
    using assms(6) th(4,5) by (simp add: switch_task_int_def bindS_apply thenS_apply cpu_push_def cpu_pop_def
        set_thread_def non_null_def s''_def stk_def)
  have frame: "rev (first_frame sy main cs ss ?sp) =
      [0, sym_leave_interrupt_handler sy] @ replicate 15 0 @ [0, main, cs, RFLAGS_IF, ?sp, ss]"
    by (simp add: first_frame_def)
  have regs: "map (\<lambda>i. ts_stack s'' (cpu_rsp s'' + 8 * of_nat i)) [0..<15] = replicate 15 0"
  proof (rule nth_equalityI)
    fix i assume "i < length (map (\<lambda>i. ts_stack s'' (cpu_rsp s'' + 8 * of_nat i)) [0..<15])"
    then have i: "i < 15" by simp
    have "cpu_rsp s'' + 8 * of_nat i = ?rsp + 8 * of_nat (Suc (Suc i))" by (simp add: s''_def algebra_simps)
    then have "ts_stack s'' (cpu_rsp s'' + 8 * of_nat i) = rev (first_frame sy main cs ss ?sp) ! Suc (Suc i)"
      using cells [of "Suc (Suc i)"] i by (simp only: s''_def tasking.simps) simp
    then show "map (\<lambda>i. ts_stack s'' (cpu_rsp s'' + 8 * of_nat i)) [0..<15] ! i = replicate 15 0 ! i"
      using i by (simp add: frame nth_append)
  qed simp
  have top: "ts_stack s'' (?rsp + 8 * of_nat i) = rev (first_frame sy main cs ss ?sp) ! i" if "i < 23" for i
    using cells [OF that] by (simp add: s''_def)
  have "leave_interrupt_handler s'' = (replicate 15 0, \<lparr>if_rip = main, if_cs = cs, if_rflags = RFLAGS_IF, if_rsp = ?sp, if_ss = ss\<rparr>)"
  proof -
    have rsp: "cpu_rsp s'' = ?rsp + 16" by (simp add: s''_def)
    have "ts_stack s'' (?rsp + 8 * of_nat 18) = main" "ts_stack s'' (?rsp + 8 * of_nat 19) = cs"
      "ts_stack s'' (?rsp + 8 * of_nat 20) = RFLAGS_IF" "ts_stack s'' (?rsp + 8 * of_nat 21) = ?sp"
      "ts_stack s'' (?rsp + 8 * of_nat 22) = ss"
      by (subst top, simp, simp add: frame nth_append numeral_eq_Suc)+
    then have "ts_stack s'' (cpu_rsp s'' + 8 * 16) = main" "ts_stack s'' (cpu_rsp s'' + 8 * 16 + 8) = cs"
      "ts_stack s'' (cpu_rsp s'' + 8 * 16 + 16) = RFLAGS_IF" "ts_stack s'' (cpu_rsp s'' + 8 * 16 + 24) = ?sp"
      "ts_stack s'' (cpu_rsp s'' + 8 * 16 + 32) = ss"
      by (simp_all add: rsp)
    then show ?thesis using regs unfolding leave_interrupt_handler_def Let_def by presburger
  qed
  moreover have "cpu_rip s'' = sym_leave_interrupt_handler sy"
    using cells [of 1] by (simp add: s''_def frame)
  ultimately show ?thesis using run th(1-3,6) switch by (intro exI [of _ s'] exI [of _ s'']) simp
qed

text \<open>The example: an allocator that answers the two requests, on the tasks of \<open>Scheduler\<close>.\<close>

text \<open>Two blocks of the heap at boot, for a thread and its stack.\<close>

lemma thread_blocks:
  "\<exists>h h1 h2 th stack. kalloc 72 h = Inr (th, h1) \<and> kalloc DEFAULT_STACK_SIZE h1 = Inr (stack, h2) \<and>
    0xFFFFFFFF81040000 \<le> th \<and> 0xFFFFFFFF81040000 \<le> stack \<and> stack < 0xFFFFFFFF81840000"
proof -
  have least: "(LEAST j. (n :: nat) \<le> 2 ^ j) = k" if "n \<le> 2 ^ k" "2 ^ k < 2 * n" for n k
  proof (rule Least_equality)
    fix j assume "n \<le> 2 ^ j"
    then have "(2 :: nat) ^ k < 2 ^ Suc j" using that(2) by simp
    then show "k \<le> j" using power_strict_increasing_iff [of "2 :: nat" k "Suc j"] by simp
  qed (rule that(1))
  have size: "ceil_to_power_of_two 72 = Inr (2 ^ (23 - 16))" "ceil_to_power_of_two DEFAULT_STACK_SIZE = Inr (2 ^ (23 - 10))"
    using least [of 72 7] ceil_power [of 13] by (simp_all add: ceil_to_power_of_two_eq DEFAULT_STACK_SIZE_def)
  obtain h where h: "heap_ok 23 17 fresh_tree h" "al_memory h = 0xFFFFFFFF81040000"
    using boot_heap by (auto simp: demo_def)
  have src: "source_level fresh_tree 16 0" by (auto simp: source_level_def fresh_tree_def)
  obtain h1 where h1: "kalloc 72 h = Inr (blk 23 h (16, 0), h1)" "heap_ok 23 17 (alloc_tree fresh_tree 16 0 0) h1"
      "al_memory h1 = al_memory h"
    using allocate_ok [OF h(1) size(1) _ src] by (auto simp: kalloc_def alloc_index_def)
  have "source_level (alloc_tree fresh_tree 16 0 0) 10 10" 
    using split_path_sibling [of 9 16 fresh_tree 0 0] by (auto simp: source_level_def alloc_tree_def intro!: exI [of _ 1])
  from allocate_ok [OF h1(2) size(2) _ this] obtain i h2 where
    h2: "i < 2 ^ 10" "kalloc DEFAULT_STACK_SIZE h1 = Inr (blk 23 h1 (10, i), h2)"
    by (auto simp: kalloc_def alloc_index_def)
  have "unat (of_nat (i * 2 ^ 13) :: u64) = i * 2 ^ 13" by (rule unat_of_nat_u64) (use h2(1) in simp)
  then have u: "unat (blk 23 h1 (10, i)) = 0xFFFFFFFF81040000 + i * 2 ^ 13"
    using h2(1) by (simp add: blk_def weight_def h1(3) h(2) unat_plus_simple [THEN iffD1] unat_word_ariths)
  have "blk 23 h (16, 0) = 0xFFFFFFFF81040000" by (simp add: blk_def h(2))
  moreover have "0xFFFFFFFF81040000 \<le> blk 23 h1 (10, i)" "blk 23 h1 (10, i) < 0xFFFFFFFF81840000"
    unfolding word_le_nat_alt word_less_nat_alt u using h2(1) by simp_all
  ultimately show ?thesis using h1(1) h2(2)
    by (intro exI [of _ h] exI [of _ h1] exI [of _ h2] exI [of _ "blk 23 h (16, 0)"] exI [of _ "blk 23 h1 (10, i)"]) simp
qed
lemma block_far:
  fixes stack x :: u64
  assumes "0xFFFFFFFF81040000 \<le> stack" "stack < 0xFFFFFFFF81840000" "unat x \<le> 184"
  shows "stack + 8192 - x \<notin> {0x4F00 - 8, 0x4F00 - 16}"
proof -
  have s: "0xFFFFFFFF81040000 \<le> unat stack" "unat stack < 0xFFFFFFFF81840000"
    using assms(1,2) by (simp_all add: word_le_nat_alt word_less_nat_alt)
  then have t: "unat (stack + 8192) = unat stack + 8192" by (simp add: unat_word_ariths)
  then have "x \<le> stack + 8192" using s assms(3) by (simp add: word_le_nat_alt)
  then have "unat (stack + 8192 - x) = unat stack + 8192 - unat x" by (simp only: unat_sub t)
  then have "0xFFFFFFFF81040000 \<le> unat (stack + 8192 - x)" using s assms(3) by linarith
  moreover have "unat (0x4F00 - 8 :: u64) < 0xFFFFFFFF81040000" "unat (0x4F00 - 16 :: u64) < 0xFFFFFFFF81040000" by simp_all
  ultimately show ?thesis by (metis insertE not_le singletonD)
qed

theorem create_thread_starts_witness:
  "\<exists>h th s' s''. create_thread \<lparr>sym_kernel_task = 0x100, sym_kernel_main_thread = 0x200, sym_idle_thread = 0,
      sym_do_sth = 0x700, sym_leave_interrupt_handler = 0x900\<rparr> 0x100 0x700 CODE_SEGMENT DATA_SEGMENT 0
      ((example_tasking THREAD_RUNNING)\<lparr>ts_heap := h\<rparr>) = Inr (th, s') \<and>
    switch_task_int 0x1234 0x280 (th_rsp (ts_threads s' th)) s' = Inr ((), s'') \<and> cpu_rip s'' = 0x900 \<and>
    if_rip (snd (leave_interrupt_handler s'')) = 0x700"
proof -
  obtain h h1 h2 th stack where k: "kalloc 72 h = Inr (th, h1)" "kalloc DEFAULT_STACK_SIZE h1 = Inr (stack, h2)"
    and a: "0xFFFFFFFF81040000 \<le> th" "0xFFFFFFFF81040000 \<le> stack" "stack < 0xFFFFFFFF81840000"
    using thread_blocks by blast
  let ?s = "(example_tasking THREAD_RUNNING)\<lparr>ts_heap := h\<rparr>"
  have k': "kalloc 72 (ts_heap ?s) = Inr (th, h1)" using k(1) by simp
  have rsp: "cpu_rsp ?s = 0x4F00" by (simp add: example_tasking_def)
  have far: "\<forall>k < 23. stack + 8192 - 8 * of_nat (Suc k) \<notin> {cpu_rsp ?s - 8, cpu_rsp ?s - 16}"
  proof (intro allI impI)
    fix k :: nat assume "k < 23"
    then have "unat (8 * of_nat (Suc k) :: u64) \<le> 184" by (simp add: unat_mult_u64 unat_of_nat_u64 del: of_nat_Suc)
    then show "stack + 8192 - 8 * of_nat (Suc k) \<notin> {cpu_rsp ?s - 8, cpu_rsp ?s - 16}" unfolding rsp by (rule block_far [OF a(2,3)])
  qed
  have "th \<noteq> 0" "stack \<noteq> 0" using a by auto
  from create_thread_starts [OF k' k(2) this _ _ far, of "0x100" "0x280"
      "\<lparr>sym_kernel_task = 0x100, sym_kernel_main_thread = 0x200, sym_idle_thread = 0, sym_do_sth = 0x700,
          sym_leave_interrupt_handler = 0x900\<rparr>" "0x700" CODE_SEGMENT DATA_SEGMENT 0 "0x1234"] show ?thesis by (intro exI [of _ h] exI [of _ th]) auto
qed

section \<open>The rings of a new thread\<close>

text \<open>The new thread enters the ring of its task before the thread the task's list pointer names.\<close>

lemma create_thread_in_ring:
  assumes "kalloc 72 (ts_heap s) = Inr (th, h1)" "kalloc DEFAULT_STACK_SIZE h1 = Inr (stack, h2)"
    and "th \<noteq> 0" "stack \<noteq> 0" "sched_rel fuel s a" "task \<in> set (sc_tasks a)"
    and "\<forall>t \<in> set (sc_tasks a). th \<notin> set (sc_rings a t)" "th \<noteq> ts_idle_thread s"
    and "length (sc_rings a task) < fuel"
  shows "\<exists>s'. create_thread sy task main cs ss us s = Inr (th, s') \<and> can_run s' th \<and>
    sched_rel fuel s' (a\<lparr>sc_rings := (sc_rings a)(task := butlast (sc_rings a task) @ [th, last (sc_rings a task)])\<rparr>)"
proof -
  let ?R = "sc_rings a" and ?p = "tk_threads (ts_tasks s task)"
  let ?xs = "butlast (?R task) @ [th, last (?R task)]"
  let ?l = "fst (clist_add ?p th (ts_thread_links s))"
  have ring: "cycle (ts_thread_links s) (?R task)" "?p = last (?R task)" "?R task \<noteq> []" "task \<noteq> 0"
    using assms(5,6) sched_rel_ring(1,4) [OF assms(5,6)] by (simp_all add: sched_rel_def ring_of_def)
  define s' where "s' = new_thread_state sy task th stack main cs ss us (s\<lparr>ts_heap := h2\<rparr>)"
  have run: "create_thread sy task main cs ss us s = Inr (th, s')"
    unfolding s'_def by (rule create_thread_ok [OF assms(1-4) ring(4)])
  have p: "?p \<noteq> 0" using sched_rel_ring(3) [OF assms(5,6)] last_in_set [OF ring(3)] ring(2) by metis
  have s': "ts_thread_links s' = ?l" "ts_tasks s' = ts_tasks s" "ts_task_links s' = ts_task_links s"
      "ts_current_task s' = ts_current_task s" "ts_idle_thread s' = ts_idle_thread s"
      "th_task (ts_threads s' th) = task" "th_state (ts_threads s' th) = THREAD_RUNNING"
      "\<And>x. x \<noteq> th \<Longrightarrow> ts_threads s' x = ts_threads s x"
    using p by (simp_all add: s'_def new_thread_state_def ring_after_def)
  (* the order that starts with the list pointer *)
  have turned: "?p # butlast (?R task) = rotate (length (butlast (?R task))) (?R task)"
    using rotate_append [of "butlast (?R task)" "[?p]"] append_butlast_last_id [OF ring(3)] by (simp add: ring(2))
  then have cyc: "cycle (ts_thread_links s) (?p # butlast (?R task))" using clist.ring_rotate_n [OF ring(1)] by simp
  have elems: "set (?p # butlast (?R task)) = set (?R task)" unfolding turned by simp
  have new: "th \<notin> set (?p # butlast (?R task))" using assms(6,7) elems by simp
  note add = clist_add_cycle [OF cyc new assms(3)]
  have "rotate1 (?p # butlast (?R task) @ [th]) = ?xs" by (simp add: ring(2))
  then have cyc': "cycle ?l ?xs" using cycle_rotate1 [OF add(1)] by simp
  have other: "cycle ?l (?R t)" if t: "t \<in> set (sc_tasks a)" "t \<noteq> task" for t
  proof -
    have c: "cycle (ts_thread_links s) (?R t)" and task_t: "\<And>x. x \<in> set (?R t) \<Longrightarrow> th_task (ts_threads s x) = t"
      using assms(5) t(1) by (simp_all add: sched_rel_def ring_of_def)
    have "x \<notin> set (?R task)" if "x \<in> set (?R t)" for x
      using task_t [OF that] assms(5,6) t(2) by (auto simp: sched_rel_def)
    then have "x \<notin> set (?p # butlast (?R task) @ [th])" if "x \<in> set (?R t)" for x
      using that elems assms(7) t(1) by auto
    then show ?thesis using c by (subst cycle_cong [of "?R t" _ "ts_thread_links s"]) (use add(3) in blast)+
  qed
  have last: "last ?xs = last (?R task)" and len: "length ?xs = Suc (length (?R task))" using ring(3) by simp_all
  have inx: "x = th \<or> x \<in> set (?R task)" if "x \<in> set ?xs" for x
    using that last_in_set [OF ring(3)] by (auto dest: in_set_butlastD)
  have "sched_rel fuel s' (a\<lparr>sc_rings := ?R(task := ?xs)\<rparr>)"
    unfolding sched_rel_def
  proof (intro conjI ballI)
    fix t assume "t \<in> set (sc_tasks (a\<lparr>sc_rings := ?R(task := ?xs)\<rparr>))"
    then have t: "t \<in> set (sc_tasks a)" by simp
    show "ring_of s' (sc_rings (a\<lparr>sc_rings := ?R(task := ?xs)\<rparr>)) t"
      using assms(5) t cyc' other [OF t] ring(2) last by (simp add: ring_of_def sched_rel_def s')
    show "length (sc_rings (a\<lparr>sc_rings := ?R(task := ?xs)\<rparr>) t) \<le> fuel"
      using assms(5,9) t len by (simp add: sched_rel_def)
    fix x assume x: "x \<in> set (sc_rings (a\<lparr>sc_rings := ?R(task := ?xs)\<rparr>) t)"
    show "th_task (ts_threads s' x) = t"
    proof (cases "x = th")
      case True
      then show ?thesis using x s'(6) assms(7) t by (cases "t = task") auto
    next
      case False
      then have "x \<in> set (?R t)" using x inx by (cases "t = task") auto
      then show ?thesis using assms(5) t s'(8) [OF False] by (simp add: sched_rel_def)
    qed
  qed (use assms(5,8) s' in \<open>auto simp: sched_rel_def\<close>)
  then show ?thesis using run s'(7) by (auto simp: can_run_def)
qed

text \<open>The first thread of a task that no scheduler list holds yet.\<close>

lemma clist_add_first: "clist_add 0 v l = (set_prev v v (set_next v v l), v)"
  by (simp add: clist_add_def list_add_def Let_def set_next_def set_prev_def LIST_FREE_ELEMENT_def)

lemma create_thread_first:
  assumes "kalloc 72 (ts_heap s) = Inr (th, h1)" "kalloc DEFAULT_STACK_SIZE h1 = Inr (stack, h2)"
    and "th \<noteq> 0" "stack \<noteq> 0" "sched_rel fuel s a" "task \<notin> set (sc_tasks a)" "task \<noteq> 0" "tk_threads (ts_tasks s task) = 0"
    and "\<forall>t \<in> set (sc_tasks a). th \<notin> set (sc_rings a t)" "th \<noteq> ts_idle_thread s"
  shows "\<exists>s'. create_thread sy task main cs ss us s = Inr (th, s') \<and> can_run s' th \<and> th_task (ts_threads s' th) = task \<and>
    ring_of s' ((sc_rings a)(task := [th])) task \<and> sched_rel fuel s' (a\<lparr>sc_rings := (sc_rings a)(task := [th])\<rparr>)"
proof -
  let ?R = "(sc_rings a)(task := [th])" and ?l = "fst (clist_add 0 th (ts_thread_links s))"
  define s' where "s' = new_thread_state sy task th stack main cs ss us (s\<lparr>ts_heap := h2\<rparr>)"
  have run: "create_thread sy task main cs ss us s = Inr (th, s')"
    unfolding s'_def by (rule create_thread_ok [OF assms(1-4,7)])
  have s': "ts_thread_links s' = ?l" "tk_threads (ts_tasks s' task) = th" "\<And>t. t \<noteq> task \<Longrightarrow> ts_tasks s' t = ts_tasks s t"
      "ts_task_links s' = ts_task_links s" "ts_current_task s' = ts_current_task s" "ts_idle_thread s' = ts_idle_thread s"
      "th_task (ts_threads s' th) = task" "th_state (ts_threads s' th) = THREAD_RUNNING"
      "\<And>x. x \<noteq> th \<Longrightarrow> ts_threads s' x = ts_threads s x"
    using assms(8) by (simp_all add: s'_def new_thread_state_def ring_after_def clist_add_first)
  have one: "cycle ?l [th]" by (rule clist.add_first [OF assms(3)])
  have other: "cycle ?l (sc_rings a t)" if t: "t \<in> set (sc_tasks a)" for t
  proof -
    have c: "cycle (ts_thread_links s) (sc_rings a t)" using assms(5) t by (simp add: sched_rel_def ring_of_def)
    have "x \<noteq> th" if "x \<in> set (sc_rings a t)" for x using that assms(9) t by auto
    then show ?thesis
      using c by (subst cycle_cong [of "sc_rings a t" _ "ts_thread_links s"]) (auto simp: clist_add_first set_next_def set_prev_def)
  qed
  have ne: "t \<noteq> task" if "t \<in> set (sc_tasks a)" for t using that assms(6) by auto
  have "ring_of s' ?R task" using one s'(1,2) by (simp add: ring_of_def)
  moreover have "sched_rel fuel s' (a\<lparr>sc_rings := ?R\<rparr>)"
    unfolding sched_rel_def
  proof (intro conjI ballI)
    fix t assume "t \<in> set (sc_tasks (a\<lparr>sc_rings := ?R\<rparr>))"
    then have t: "t \<in> set (sc_tasks a)" "t \<noteq> task" using ne by simp_all
    have r: "sc_rings (a\<lparr>sc_rings := ?R\<rparr>) t = sc_rings a t" using t(2) by simp
    show "ring_of s' (sc_rings (a\<lparr>sc_rings := ?R\<rparr>)) t"
      using assms(5) t other [OF t(1)] s'(3) [OF t(2)] by (simp add: ring_of_def sched_rel_def s'(1))
    show "length (sc_rings (a\<lparr>sc_rings := ?R\<rparr>) t) \<le> fuel" unfolding r using assms(5) t(1) by (simp add: sched_rel_def)
    fix x assume "x \<in> set (sc_rings (a\<lparr>sc_rings := ?R\<rparr>) t)"
    then have x: "x \<in> set (sc_rings a t)" unfolding r .
    then have "x \<noteq> th" using assms(9) t(1) by auto
    then show "th_task (ts_threads s' x) = t" using assms(5) t(1) x by (simp add: sched_rel_def s'(9))
  qed (use assms(5,10) s' in \<open>auto simp: sched_rel_def\<close>)
  ultimately show ?thesis using run s'(7,8) by (auto simp: can_run_def)
qed

text \<open>A ring, in the order of visits that ends with the list pointer, with a thread added.\<close>

definition ring_added :: "addr \<Rightarrow> addr list \<Rightarrow> addr list" where
  "ring_added th ring = (if ring = [] then [th] else butlast ring @ [th, last ring])"

text \<open>
  Property C34: \<open>create_thread\<close> keeps the scheduler consistent. A new thread, in no ring so far, enters the ring
  of its task just before the thread that the task's list pointer names, which is the last one visited, so the new thread
  is the last but one in the order of visits; the first thread of a new task makes a ring of its own and
  becomes the list pointer. All other rings stay as they are. (A comment in \<open>create_thread\<close> says that the new thread becomes the
  next element of the list.)
\<close>

theorem create_thread_keeps_rings:
  assumes "kalloc 72 (ts_heap s) = Inr (th, h1)" "kalloc DEFAULT_STACK_SIZE h1 = Inr (stack, h2)"
    and "th \<noteq> 0" "stack \<noteq> 0" "sched_rel fuel s a"
    and "task \<in> set (sc_tasks a) \<or> task \<noteq> 0 \<and> tk_threads (ts_tasks s task) = 0 \<and> sc_rings a task = []"
    and "\<forall>t \<in> set (sc_tasks a). th \<notin> set (sc_rings a t)" "th \<noteq> ts_idle_thread s"
    and "length (sc_rings a task) < fuel"
  defines "rings \<equiv> (sc_rings a)(task := ring_added th (sc_rings a task))"
  shows "\<exists>s'. create_thread sy task main cs ss us s = Inr (th, s') \<and> can_run s' th \<and> th_task (ts_threads s' th) = task \<and>
    ring_of s' rings task \<and> sched_rel fuel s' (a\<lparr>sc_rings := rings\<rparr>)"
proof (cases "task \<in> set (sc_tasks a)")
  case True
  have ne: "sc_rings a task \<noteq> []" by (rule sched_rel_ring(1) [OF assms(5) True])
  then have rings: "rings = (sc_rings a)(task := butlast (sc_rings a task) @ [th, last (sc_rings a task)])"
    by (simp add: rings_def ring_added_def)
  obtain s' where s': "create_thread sy task main cs ss us s = Inr (th, s')" "can_run s' th" "sched_rel fuel s' (a\<lparr>sc_rings := rings\<rparr>)"
    unfolding rings using create_thread_in_ring [OF assms(1-5) True assms(7-9)] by blast
  have "th \<in> set (rings task)" by (simp add: rings)
  then have "ring_of s' rings task" "th_task (ts_threads s' th) = task" using s'(3) True by (simp_all add: sched_rel_def)
  then show ?thesis using s' by blast
next
  case False
  then have "task \<noteq> 0" "tk_threads (ts_tasks s task) = 0" "rings = (sc_rings a)(task := [th])"
    using assms(6) by (simp_all add: rings_def ring_added_def)
  then show ?thesis using create_thread_first [OF assms(1-5) False _ _ assms(7,8)] by simp
qed

theorem create_thread_keeps_rings_witness:
  "\<exists>h th s'. create_thread \<lparr>sym_kernel_task = 0x100, sym_kernel_main_thread = 0x200, sym_idle_thread = 0,
      sym_do_sth = 0x700, sym_leave_interrupt_handler = 0x900\<rparr> 0x100 0x700 CODE_SEGMENT DATA_SEGMENT 0
      ((example_tasking THREAD_RUNNING)\<lparr>ts_heap := h\<rparr>) = Inr (th, s') \<and>
    sched_rel 4 s' (example_rings\<lparr>sc_rings := (sc_rings example_rings)(0x100 := [0x200, 0x240, th, 0x280])\<rparr>)"
proof -
  obtain h h1 h2 th stack where k: "kalloc 72 h = Inr (th, h1)" "kalloc DEFAULT_STACK_SIZE h1 = Inr (stack, h2)"
    and a: "0xFFFFFFFF81040000 \<le> th" "0xFFFFFFFF81040000 \<le> stack"
    using thread_blocks by blast
  let ?s = "(example_tasking THREAD_RUNNING)\<lparr>ts_heap := h\<rparr>"
  have k': "kalloc 72 (ts_heap ?s) = Inr (th, h1)" using k(1) by simp
  have "sched_rel 4 (example_tasking THREAD_RUNNING) example_rings"
    using example_sched_rel [of THREAD_RUNNING] by (auto simp: sched_rel_def)
  then have rel: "sched_rel 4 ?s example_rings" by (simp add: sched_rel_def ring_of_def)
  have "th \<noteq> 0" "stack \<noteq> 0" and new: "th \<noteq> 0x200" "th \<noteq> 0x240" "th \<noteq> 0x280" using a by auto
  moreover have "0x100 \<in> set (sc_tasks example_rings)" "\<forall>t \<in> set (sc_tasks example_rings). th \<notin> set (sc_rings example_rings t)"
      "th \<noteq> ts_idle_thread ?s" "length (sc_rings example_rings 0x100) < 4"
    using new by (simp_all add: example_rings_def) (simp add: example_tasking_def)
  ultimately show ?thesis using create_thread_keeps_rings [OF k' k(2) _ _ rel, of "0x100"
      "\<lparr>sym_kernel_task = 0x100, sym_kernel_main_thread = 0x200, sym_idle_thread = 0, sym_do_sth = 0x700,
          sym_leave_interrupt_handler = 0x900\<rparr>" "0x700" CODE_SEGMENT DATA_SEGMENT 0]
    by (intro exI [of _ h] exI [of _ th]) (auto simp: example_rings_def ring_added_def)
qed

section \<open>Switching back\<close>

text \<open>
  A thread that was switched away from continues where it was. After \<open>switch_task_int\<close> from one
  thread to another, and any activity that leaves the first one's saved stack pointer and the cells at and
  above it alone, a switch back to it restores its stack pointer and frame pointer and returns to its return
  address.
\<close>

theorem switch_task_int_back:
  assumes "old \<noteq> 0" "old' \<noteq> 0" "switch_task_int ret old rsp s = Inr ((), s1)"
    and "th_rsp (ts_threads s2 old) = th_rsp (ts_threads s1 old)"
    and "\<forall>a \<in> {cpu_rsp s - 16, cpu_rsp s - 8}. ts_stack s2 a = ts_stack s1 a \<and> a \<noteq> cpu_rsp s2 - 8 \<and> a \<noteq> cpu_rsp s2 - 16"
  shows "\<exists>s3. switch_task_int ret' old' (th_rsp (ts_threads s2 old)) s2 = Inr ((), s3) \<and>
    cpu_rsp s3 = cpu_rsp s \<and> cpu_rbp s3 = cpu_rbp s \<and> cpu_rip s3 = ret"
proof -
  have s1: "th_rsp (ts_threads s1 old) = cpu_rsp s - 16" "ts_stack s1 (cpu_rsp s - 16) = cpu_rbp s" "ts_stack s1 (cpu_rsp s - 8) = ret"
    using assms(3) by (auto simp: switch_task_int_ok [OF assms(1)])
  show ?thesis using assms(4,5) s1 by (simp add: switch_task_int_ok [OF assms(2)])
qed

theorem switch_task_int_back_witness:
  "\<exists>s1 s3. switch_task_int 0x1234 0x280 0x5000 (example_tasking THREAD_RUNNING) = Inr ((), s1) \<and>
    switch_task_int 0 0x200 0x4EF0 s1 = Inr ((), s3) \<and> cpu_rsp s3 = 0x4F00 \<and> cpu_rip s3 = 0x1234"
proof -
  let ?s = "example_tasking THREAD_RUNNING"
  define s1 where "s1 = ?s\<lparr>ts_threads := (ts_threads ?s)(0x280 := (ts_threads ?s 0x280)\<lparr>th_rsp := cpu_rsp ?s - 16\<rparr>),
    ts_stack := (ts_stack ?s)(cpu_rsp ?s - 8 := 0x1234, cpu_rsp ?s - 16 := cpu_rbp ?s), cpu_rsp := 0x5000 + 16,
    cpu_rbp := ((ts_stack ?s)(cpu_rsp ?s - 8 := 0x1234, cpu_rsp ?s - 16 := cpu_rbp ?s)) 0x5000,
    cpu_rip := ((ts_stack ?s)(cpu_rsp ?s - 8 := 0x1234, cpu_rsp ?s - 16 := cpu_rbp ?s)) (0x5000 + 8)\<rparr>"
  have run: "switch_task_int 0x1234 0x280 0x5000 ?s = Inr ((), s1)" unfolding s1_def by (rule switch_task_int_ok) simp
  have s1: "th_rsp (ts_threads s1 0x280) = 0x4EF0" "cpu_rsp ?s = 0x4F00" "cpu_rsp s1 = 0x5010"
    by (simp_all add: s1_def example_tasking_def)
  have apart: "\<forall>a \<in> {cpu_rsp ?s - 16, cpu_rsp ?s - 8}. ts_stack s1 a = ts_stack s1 a \<and> a \<noteq> cpu_rsp s1 - 8 \<and> a \<noteq> cpu_rsp s1 - 16"
    by (simp add: s1)
  show ?thesis using switch_task_int_back [OF _ _ run refl apart, of "0x200" 0] run by (auto simp: s1)
qed

text \<open>
  Property C35: a thread that gave up the processor in a system call gets its registers back. After
  \<open>switch_task_sys\<close> from one thread to another, and any activity that leaves the first one's saved stack pointer and the
  eight cells it has pushed alone, a switch back to it restores the five callee-saved registers, the frame
  pointer and the stack pointer, and returns to its return address.
\<close>

theorem switch_task_sys_back:
  assumes "old \<noteq> 0" "old' \<noteq> 0" "switch_task_sys [rbx, r12, r13, r14, r15] sys_ret ret old rsp s = Inr (None, s1)"
    and "th_rsp (ts_threads s2 old) = th_rsp (ts_threads s1 old)"
    and "\<forall>k \<in> {1..8}. ts_stack s2 (cpu_rsp s - 8 * of_nat k) = ts_stack s1 (cpu_rsp s - 8 * of_nat k) \<and>
      cpu_rsp s - 8 * of_nat k \<noteq> cpu_rsp s2 - 8 \<and> cpu_rsp s - 8 * of_nat k \<noteq> cpu_rsp s2 - 16"
  shows "\<exists>s3 s4. switch_task_int ret' old' (th_rsp (ts_threads s2 old)) s2 = Inr ((), s3) \<and> cpu_rip s3 = sys_ret \<and>
    sys_return s3 = ([rbx, r12, r13, r14, r15], s4) \<and> cpu_rsp s4 = cpu_rsp s \<and> cpu_rbp s4 = cpu_rbp s \<and> cpu_rip s4 = ret"
proof -
  define p where "p = cpu_push r15 (cpu_push r14 (cpu_push r13 (cpu_push r12 (cpu_push rbx (cpu_push ret s)))))"
  have p: "cpu_rsp p = cpu_rsp s - 48" "cpu_rbp p = cpu_rbp s"
    by (simp_all add: p_def cpu_push_def)
  have pst: "ts_stack p = (ts_stack s)(cpu_rsp s - 8 := ret, cpu_rsp s - 16 := rbx, cpu_rsp s - 24 := r12, cpu_rsp s - 32 := r13,
      cpu_rsp s - 40 := r14, cpu_rsp s - 48 := r15)"
    by (simp add: p_def cpu_push_def)
  obtain s0 where "switch_task_int sys_ret old rsp p = Inr ((), s0)" and "s1 = s0"
    using assms(3) switch_task_int_ok [OF assms(1), of sys_ret rsp p]
    by (auto simp: switch_task_sys_def thenS_apply bindS_apply Let_def simp flip: p_def split: if_splits prod.splits)
  then have s1: "th_rsp (ts_threads s1 old) = cpu_rsp s - 64"
    "ts_stack s1 = (ts_stack p)(cpu_rsp s - 56 := sys_ret, cpu_rsp s - 64 := cpu_rbp s)"
    by (auto simp: switch_task_int_ok [OF assms(1)] p)
  have cell: "ts_stack s2 (cpu_rsp s - 8 * of_nat k) = ts_stack s1 (cpu_rsp s - 8 * of_nat k) \<and>
      cpu_rsp s - 8 * of_nat k \<noteq> cpu_rsp s2 - 8 \<and> cpu_rsp s - 8 * of_nat k \<noteq> cpu_rsp s2 - 16" if "k \<in> {1..8}" for k
    using assms(5) that by blast
  show ?thesis
    using cell [of 1] cell [of 2] cell [of 3] cell [of 4] cell [of 5] cell [of 6] cell [of 7] cell [of 8]
    by (simp add: assms(4) s1 pst switch_task_int_ok [OF assms(2)] sys_return_def cpu_pop_def)
qed

theorem switch_task_sys_back_witness:
  "\<exists>s1 s3 s4. switch_task_sys [1, 2, 3, 4, 5] 0x1300 0x1234 0x280 0x5000 (example_tasking THREAD_RUNNING) = Inr (None, s1) \<and>
    switch_task_int 0 0x200 0x4EC0 s1 = Inr ((), s3) \<and> sys_return s3 = ([1, 2, 3, 4, 5], s4) \<and>
    cpu_rsp s4 = 0x4F00 \<and> cpu_rip s4 = 0x1234"
proof -
  let ?s = "example_tasking THREAD_RUNNING"
  have e: "cpu_rsp ?s = 0x4F00" by (simp add: example_tasking_def)
  obtain s1 where run: "switch_task_sys [1, 2, 3, 4, 5] 0x1300 0x1234 0x280 0x5000 ?s = Inr (None, s1)"
    and s1: "th_rsp (ts_threads s1 0x280) = 0x4EC0" "cpu_rsp s1 = 0x5010"
    by (simp add: switch_task_sys_def thenS_apply bindS_apply switch_task_int_ok cpu_push_def example_tasking_def)
  have "\<forall>k \<in> {1..8}. ts_stack s1 (cpu_rsp ?s - 8 * of_nat k) = ts_stack s1 (cpu_rsp ?s - 8 * of_nat k) \<and>
      cpu_rsp ?s - 8 * of_nat k \<noteq> cpu_rsp s1 - 8 \<and> cpu_rsp ?s - 8 * of_nat k \<noteq> cpu_rsp s1 - 16"
  proof
    fix k :: nat assume "k \<in> {1..8}"
    then have "k = 1 \<or> k = 2 \<or> k = 3 \<or> k = 4 \<or> k = 5 \<or> k = 6 \<or> k = 7 \<or> k = 8" by auto
    then show "ts_stack s1 (cpu_rsp ?s - 8 * of_nat k) = ts_stack s1 (cpu_rsp ?s - 8 * of_nat k) \<and>
      cpu_rsp ?s - 8 * of_nat k \<noteq> cpu_rsp s1 - 8 \<and> cpu_rsp ?s - 8 * of_nat k \<noteq> cpu_rsp s1 - 16"
      by (auto simp: e s1)
  qed
  from switch_task_sys_back [OF _ _ run refl this, of "0x200" 0] run show ?thesis by (auto simp: s1 e)
qed

end
