(* ===== verification/Syscall.thy ===== *)
theory Syscall imports System Threads begin

text \<open>
  System calls, \<open>core/syscall.c\<close> with the entry of \<open>core/syscall_asm.asm\<close>: the two ways into the kernel, the
  table of calls and the registers that set the fast way up.
\<close>

section \<open>Constants\<close>

definition SYSCALL_INT :: int where "SYSCALL_INT = 0x30"
definition SYSCALL_BY_INTERRUPT :: u64 where "SYSCALL_BY_INTERRUPT = 0"
definition SYSCALL_BY_SYSCALL :: u64 where "SYSCALL_BY_SYSCALL = 1"

definition IA32_EFER :: u32 where "IA32_EFER = 0xC0000080"
definition IA32_STAR :: u32 where "IA32_STAR = 0xC0000081"
definition IA32_LSTAR :: u32 where "IA32_LSTAR = 0xC0000082"
definition IA32_FMASK :: u32 where "IA32_FMASK = 0xC0000084"

definition rdmsr :: "u32 \<Rightarrow> u64 system_proc" where
  "rdmsr msr = getsS (\<lambda>s. sy_msr s msr)"

definition wrmsr :: "u32 \<Rightarrow> u64 \<Rightarrow> unit system_proc" where
  "wrmsr msr v = modifyS (\<lambda>s. s\<lparr>sy_msr := (sy_msr s)(msr := v)\<rparr>)"

section \<open>The calls\<close>

text \<open>
  What a compiled call leaves on the stack is not in the sources: \<open>cs_call\<close> is the return address that the call of an entry
  of the table (or of \<open>bad_syscall\<close>) pushes, and \<open>cs_frames\<close> are the cells that the C functions use below it, as they are
  when the call returns or the stack is switched. \<open>sys_yield\<close> ends with a switch of the stack: what follows happens in
  the thread switched to. \<open>cs_saved\<close>, \<open>cs_sys_ret\<close> and \<open>cs_ret\<close> are the registers and return addresses of
  \<open>preempt_syscall\<close>; the result is what that returns.
\<close>

record call_site =
  cs_call :: u64
  cs_frames :: "u64 list"
  cs_saved :: "u64 list"
  cs_sys_ret :: u64
  cs_ret :: u64

definition c_enter :: "call_site \<Rightarrow> unit task_proc" where
  "c_enter site = modifyS (\<lambda>s. fold cpu_push (cs_frames site) (cpu_push (cs_call site) s))"

definition c_leave :: "call_site \<Rightarrow> unit task_proc" where
  "c_leave site = modifyS (\<lambda>s. s\<lparr>cpu_rsp := cpu_rsp s + 8 * of_nat (Suc (length (cs_frames site)))\<rparr>)"

definition sys_yield :: "nat \<Rightarrow> call_site \<Rightarrow> (u64 list option) task_proc" where
  "sys_yield fuel site =
     bindS (getsS ts_current_thread) (\<lambda>th.
     bindS (thread_at th) (\<lambda>t.
     if th_syscall_type t = SYSCALL_BY_INTERRUPT then thenS (preempt_int fuel (cs_ret site)) (returnS None)
     else if th_syscall_type t = SYSCALL_BY_SYSCALL then preempt_syscall fuel (cs_saved site) (cs_sys_ret site) (cs_ret site)
     else failS Assert_Failed))"

text \<open>\<open>template\<close> is a pointer that the caller chose; \<open>m\<close> is the memory that the kernel sees.\<close>

definition sys_printk :: "mem \<Rightarrow> addr \<Rightarrow> u64 list \<Rightarrow> unit con_proc" where
  "sys_printk m template args =
     (case c_string (2 ^ 64) m template of Inl e \<Rightarrow> failS e | Inr fmt \<Rightarrow> printk m fmt args)"

text \<open>
  \<open>syscall_table\<close> as a datatype of its entries, and the size of the table. A call of the table gives \<open>None\<close>
  for a call that ended with a switch, and otherwise what the register \<open>rax\<close> holds afterwards; both functions
  return nothing, so this is an argument.
\<close>

datatype syscall = Sys_Yield | Sys_Printk

definition syscall_table :: "syscall list" where "syscall_table = [Sys_Yield, Sys_Printk]"
definition syscall_count :: u32 where "syscall_count = of_nat (length syscall_table)"

fun run_syscall :: "mem \<Rightarrow> nat \<Rightarrow> call_site \<Rightarrow> u64 \<Rightarrow> syscall \<Rightarrow> u64 list \<Rightarrow> (u64 option) system_proc" where
  "run_syscall m fuel site rax Sys_Yield args = thenS (on_tasking (sys_yield fuel site)) (returnS None)"
| "run_syscall m fuel site rax Sys_Printk args =
     thenS (on_irq (on_console (sys_printk m (hd args) (tl args)))) (returnS (Some rax))"

text \<open>The format asks for a \<open>long\<close>, the argument is an \<open>int\<close>: \<open>high\<close> is the upper half of the register.\<close>

definition bad_syscall :: "mem \<Rightarrow> u32 \<Rightarrow> u32 \<Rightarrow> unit system_proc" where
  "bad_syscall m high syscall_number =
     on_irq (on_console (print m (''WARNING non-existent syscall #%ld called'' @ [CHR 0x0A])
       [ucast syscall_number OR push_bit 32 (ucast high)]))"

section \<open>Entry by interrupt\<close>

text \<open>
  \<open>regs\<close> is the address of the saved registers on the kernel stack: \<open>rax\<close>, \<open>rdx\<close>, \<open>rsi\<close> and \<open>rdi\<close> are its cells 0, 3, 4 and
  5; the handler reads them before anything else. \<open>sys_printk\<close> takes three arguments more than it is called with; \<open>rest\<close> stands for what is in their
  registers.
\<close>

definition syscall_int_handler ::
  "mem \<Rightarrow> nat \<Rightarrow> call_site \<Rightarrow> u64 \<Rightarrow> u32 \<Rightarrow> u64 list \<Rightarrow> addr \<Rightarrow> unit system_proc" where
  "syscall_int_handler m fuel site rax high rest regs =
     bindS (on_tasking (getsS ts_stack)) (\<lambda>stk.
     let reg = (\<lambda>k. stk (regs + 8 * of_nat k)); syscall_number = reg 0 in
     thenS (on_tasking (c_enter site))
     (if syscall_number \<ge> ucast syscall_count then
        thenS (bad_syscall m high (ucast syscall_number)) (on_tasking (c_leave site))
      else
        bindS (on_tasking (getsS ts_current_thread)) (\<lambda>th.
        thenS (on_tasking (set_thread th (\<lambda>t. t\<lparr>th_syscall_type := SYSCALL_BY_INTERRUPT\<rparr>)))
       (bindS (run_syscall m fuel site rax (syscall_table ! unat syscall_number) ([reg 5, reg 4, reg 3] @ rest)) (\<lambda>result.
        case result of
          None \<Rightarrow> returnS ()
        | Some v \<Rightarrow> thenS (on_tasking (modifyS (\<lambda>s. s\<lparr>ts_stack := (ts_stack s)(regs := v)\<rparr>))) (on_tasking (c_leave site)))))))"

section \<open>Entry by the instruction syscall\<close>

text \<open>
  The registers of the caller that the entry uses. \<open>syscall\<close> leaves the return address in \<open>rcx\<close> and the flags in
  \<open>r11\<close>. The thread is found through the register \<open>IA32_KERNEL_GS_BASE\<close>, which \<open>swapgs\<close> makes the segment base.
  The call of the entry pushes a return address, and the C functions work on the stack below it. \<open>behind\<close> holds the four bytes in memory behind the 4-byte constant \<open>syscall_count\<close>: the
  comparison of the entry reads eight.
\<close>

record syscall_regs =
  sr_rax :: u64
  sr_rdi :: u64
  sr_rsi :: u64
  sr_rdx :: u64
  sr_r10 :: u64
  sr_r8 :: u64
  sr_r9 :: u64
  sr_rcx :: u64
  sr_r11 :: u64

text \<open>The result is the address and the flags that \<open>sysret\<close> goes back with, or \<open>None\<close> after a switch.\<close>

definition syscall_exit :: "addr \<Rightarrow> ((u64 \<times> u64) option) task_proc" where
  "syscall_exit th =
     bindS (\<lambda>s. let (r11, s) = cpu_pop s; (rcx, s) = cpu_pop s in Inr ((rcx, r11), s)) (\<lambda>back.
     bindS (thread_at th) (\<lambda>t.
     thenS (modifyS (\<lambda>s. s\<lparr>cpu_rsp := th_user_rsp t\<rparr>)) (returnS (Some back))))"

definition syscall_fast_handler ::
  "mem \<Rightarrow> nat \<Rightarrow> call_site \<Rightarrow> u64 \<Rightarrow> u32 \<Rightarrow> u32 \<Rightarrow> syscall_regs \<Rightarrow> ((u64 \<times> u64) option) system_proc" where
  "syscall_fast_handler m fuel site rax high behind r =
     bindS (on_tasking (getsS ts_gs_base)) (\<lambda>th.
     thenS (on_tasking (bindS (getsS cpu_rsp) (\<lambda>rsp. set_thread th (\<lambda>t. t\<lparr>th_user_rsp := rsp\<rparr>))))
    (thenS (on_tasking (bindS (thread_at th) (\<lambda>t. modifyS (\<lambda>s. s\<lparr>cpu_rsp := th_stack_top t\<rparr>))))
    (thenS (on_tasking (set_thread th (\<lambda>t. t\<lparr>th_syscall_type := SYSCALL_BY_SYSCALL\<rparr>)))
    (thenS (on_tasking (modifyS (cpu_push (sr_rcx r))))
    (thenS (on_tasking (modifyS (cpu_push (sr_r11 r))))
    (if sr_rax r < ucast syscall_count OR push_bit 32 (ucast behind) then
       (if unat (sr_rax r) < length syscall_table then
          thenS (on_tasking (c_enter site))
         (bindS (run_syscall m fuel site rax (syscall_table ! unat (sr_rax r))
            [sr_rdi r, sr_rsi r, sr_rdx r, sr_r10 r, sr_r8 r, sr_r9 r]) (\<lambda>result.
          case result of None \<Rightarrow> returnS None | Some v \<Rightarrow> thenS (on_tasking (c_leave site)) (on_tasking (syscall_exit th))))
        else failS Out_Of_Bounds)
     else
       thenS (on_tasking (c_enter site))
      (thenS (bad_syscall m high (ucast (sr_rax r)))
      (thenS (on_tasking (c_leave site)) (on_tasking (syscall_exit th))))))))))"

section \<open>Initialisation\<close>

definition initialize_int_handler :: "addr \<Rightarrow> unit system_proc" where
  "initialize_int_handler handler = on_irq (set_irq_handler SYSCALL_INT handler (INT_HANDLER_RETVAL OR INT_HANDLER_USER))"

definition initialize_fast_handler :: "addr \<Rightarrow> unit system_proc" where
  "initialize_fast_handler handler =
     bindS (rdmsr IA32_STAR) (\<lambda>star.
     let star = star AND 0xFFFFFFFF;
         star = star OR push_bit 32 CODE_SEGMENT;
         star = star OR push_bit 48 (USER_DATA_SEGMENT - 8) in
     thenS (wrmsr IA32_STAR star)
    (thenS (wrmsr IA32_LSTAR handler)
    (thenS (wrmsr IA32_FMASK RFLAGS_IF)
    (bindS (rdmsr IA32_EFER) (\<lambda>efer. wrmsr IA32_EFER (efer OR 1))))))"

definition initialize_syscalls :: "addr \<Rightarrow> addr \<Rightarrow> unit system_proc" where
  "initialize_syscalls int_handler fast_handler =
     thenS (initialize_int_handler int_handler) (initialize_fast_handler fast_handler)"

section \<open>The two entries\<close>

text \<open>
  Initialisation makes the two entries consistent with the descriptor table. The instruction
  \<open>syscall\<close> enters with the kernel's code and data segments and interrupts masked, \<open>sysret\<close> returns to the
  user segments that threads are created with, the low half of \<open>STAR\<close> and the other bits of \<open>EFER\<close> are kept, and
  the gate of the interrupt is open to user mode.
\<close>

theorem initialize_syscalls_correct:
  assumes "length (iq_idt (sy_irq s)) = 80" "length (iq_handler (sy_irq s)) = 80"
  shows "\<exists>s'. initialize_syscalls int_handler fast_handler s = Inr ((), s') \<and>
    (let star = sy_msr s' IA32_STAR; enter = drop_bit 32 star AND 0xFFFC; leave = drop_bit 48 star in
       enter = CODE_SEGMENT \<and> enter + 8 = DATA_SEGMENT \<and>
       (leave + 16) OR 3 = USER_CODE_SEGMENT \<and> (leave + 8) OR 3 = USER_DATA_SEGMENT \<and>
       take_bit 32 star = take_bit 32 (sy_msr s IA32_STAR)) \<and>
    sy_msr s' IA32_LSTAR = fast_handler \<and> bit (sy_msr s' IA32_FMASK) 9 \<and>
    (\<forall>k. bit (sy_msr s' IA32_EFER) k = (k = 0 \<or> bit (sy_msr s IA32_EFER) k)) \<and>
    ie_present (iq_idt (sy_irq s') ! 0x30) = 1 \<and> ie_dpl (iq_idt (sy_irq s') ! 0x30) = 3 \<and>
    ih_address (iq_handler (sy_irq s') ! 0x30) = int_handler"
proof -
  define star where "star = ((sy_msr s IA32_STAR AND 0xFFFFFFFF) OR push_bit 32 CODE_SEGMENT) OR push_bit 48 (USER_DATA_SEGMENT - 8)"
  have m: "(0xFFFFFFFF :: u64) = mask 32" "(0xFFFC :: u64) = mask 16 AND NOT (mask 2)"
    by (simp_all add: mask_eq_exp_minus_1)
  have c: "push_bit 32 CODE_SEGMENT = 0x800000000" "push_bit 48 (USER_DATA_SEGMENT - 8) = 0x13000000000000"
    by (simp_all add: CODE_SEGMENT_def USER_DATA_SEGMENT_def)
  have hi: "drop_bit 32 star = 0x130008"
  proof -
    have "drop_bit 32 (sy_msr s IA32_STAR AND mask 32) = 0" by (rule bit_word_eqI) (simp add: bit_simps)
    then show ?thesis unfolding star_def c m by (simp add: drop_bit_or)
  qed
  then have hi2: "drop_bit 48 star = 0x13"
    using drop_bit_drop_bit [of 16 32 star] by simp
  have lo: "take_bit 32 star = take_bit 32 (sy_msr s IA32_STAR)"
  proof -
    have "take_bit 32 (sy_msr s IA32_STAR AND mask 32) = take_bit 32 (sy_msr s IA32_STAR)" by (rule bit_word_eqI) (auto simp: bit_simps)
    then show ?thesis unfolding star_def c m by (simp add: take_bit_or)
  qed
  have distinct: "IA32_EFER \<noteq> IA32_STAR" "IA32_EFER \<noteq> IA32_LSTAR" "IA32_EFER \<noteq> IA32_FMASK" "IA32_STAR \<noteq> IA32_LSTAR"
      "IA32_STAR \<noteq> IA32_FMASK" "IA32_LSTAR \<noteq> IA32_FMASK"
    by (simp_all add: IA32_EFER_def IA32_STAR_def IA32_LSTAR_def IA32_FMASK_def)
  define q where "q = (sy_irq s)\<lparr>iq_handler := (iq_handler (sy_irq s))[48 := \<lparr>ih_address = int_handler, ih_flags = 6\<rparr>],
      iq_idt := (iq_idt (sy_irq s))[48 := opened 6 (iq_idt (sy_irq s) ! 48)]\<rparr>"
  define s' where "s' = s\<lparr>sy_irq := q, sy_msr := (sy_msr s)(IA32_STAR := star, IA32_LSTAR := fast_handler,
      IA32_FMASK := RFLAGS_IF, IA32_EFER := sy_msr s IA32_EFER OR 1)\<rparr>"
  have irq: "set_irq_handler SYSCALL_INT int_handler (INT_HANDLER_RETVAL OR INT_HANDLER_USER) (sy_irq s) = Inr ((), q)"
    by (simp add: set_irq_handler_run SYSCALL_INT_def INT_HANDLER_RETVAL_def INT_HANDLER_USER_def q_def)
  have "initialize_syscalls int_handler fast_handler s = Inr ((), s')"
    using distinct distinct [symmetric] by (simp add: initialize_syscalls_def initialize_int_handler_def on_irq_def irq
      initialize_fast_handler_def thenS_apply bindS_apply rdmsr_def wrmsr_def Let_def s'_def star_def)
  moreover have "ie_present (iq_idt q ! 0x30) = 1" "ie_dpl (iq_idt q ! 0x30) = 3" "ih_address (iq_handler q ! 0x30) = int_handler"
    using assms by (simp_all add: q_def INT_HANDLER_USER_def)
  moreover have "sy_msr s' IA32_STAR = star" "sy_msr s' IA32_LSTAR = fast_handler" "sy_msr s' IA32_FMASK = RFLAGS_IF"
      "sy_msr s' IA32_EFER = sy_msr s IA32_EFER OR 1" "sy_irq s' = q"
    using distinct by (simp_all add: s'_def)
  moreover have "bit RFLAGS_IF 9" by (simp add: RFLAGS_IF_def)
  ultimately show ?thesis
    by (intro exI [of _ s'])
      (simp add: hi hi2 lo CODE_SEGMENT_def DATA_SEGMENT_def USER_CODE_SEGMENT_def USER_DATA_SEGMENT_def bit_simps, blast)
qed

definition example_system :: system where
  "example_system = \<lparr>sy_irq = example_irq\<lparr>iq_idt := replicate 80 (compile_idt \<lparr>im_offset = 0x1000, im_selector = 8, im_ist = 0,
       im_type = 0xE, im_dpl = 0, im_present = 0\<rparr>)\<rparr>,
     sy_tasking = (example_tasking THREAD_RUNNING)\<lparr>ts_gs_base := 0x280\<rparr>, sy_pit_ticks = 0, sy_msr = \<lambda>_. 0\<rparr>"

theorem initialize_syscalls_correct_witness:
  "\<exists>s'. initialize_syscalls 0x4000 0x5000 example_system = Inr ((), s') \<and> sy_msr s' IA32_LSTAR = 0x5000 \<and>
     ie_dpl (iq_idt (sy_irq s') ! 0x30) = 3"
  using initialize_syscalls_correct [of example_system "0x4000" "0x5000"] by (auto simp: example_system_def example_irq_def)

text \<open>What a call other than \<open>sys_yield\<close> prints.\<close>

definition call_output :: "mem \<Rightarrow> u32 \<Rightarrow> u64 \<Rightarrow> u64 list \<Rightarrow> unit con_proc" where
  "call_output m high n args =
     (if n = 1 then sys_printk m (hd args) (tl args)
      else print m (''WARNING non-existent syscall #%ld called'' @ [CHR 0x0A]) [ucast (ucast n :: u32) OR push_bit 32 (ucast high)])"

lemma syscall_count_word: "ucast syscall_count = (2 :: u64)"
  by (simp add: syscall_count_def syscall_table_def)

lemma syscall_number_cases:
  fixes n :: u64
  obtains "n = 0" | "n = 1" | "\<not> n < 2"
proof -
  have "n = 0 \<or> n = 1" if "n < 2"
  proof -
    have "unat n = 0 \<or> unat n = 1" using that by (simp add: word_less_nat_alt) linarith
    then have "unat n = unat (0 :: u64) \<or> unat n = unat (1 :: u64)" by simp
    then show ?thesis by (simp only: word_unat_eq_iff)
  qed
  then show thesis using that by blast
qed

text \<open>The stack while a call runs.\<close>

lemma cpu_pushes:
  "fold cpu_push vs s = s\<lparr>ts_stack := push_cells (cpu_rsp s) vs (ts_stack s), cpu_rsp := cpu_rsp s - 8 * of_nat (length vs)\<rparr>"
proof (induction vs arbitrary: s)
  case (Cons v vs)
  show ?case unfolding fold_simps comp_apply Cons.IH by (simp add: cpu_push_def algebra_simps)
qed simp

lemma c_enter_run:
  "c_enter site s = Inr ((), s\<lparr>ts_stack := push_cells (cpu_rsp s) (cs_call site # cs_frames site) (ts_stack s),
     cpu_rsp := cpu_rsp s - 8 * of_nat (Suc (length (cs_frames site)))\<rparr>)"
  using cpu_pushes [of "cs_call site # cs_frames site" s] by (simp add: c_enter_def)

lemma c_leave_run: "c_leave site s = Inr ((), s\<lparr>cpu_rsp := cpu_rsp s + 8 * of_nat (Suc (length (cs_frames site)))\<rparr>)"
  by (simp add: c_leave_def)

text \<open>The fast entry before its jump, and the whole of it for a call that prints and returns.\<close>

definition entered :: "syscall_regs \<Rightarrow> tasking \<Rightarrow> tasking" where
  "entered r t = (let th = ts_gs_base t; tos = th_stack_top (ts_threads t th) in
     t\<lparr>ts_threads := (ts_threads t)(th := (ts_threads t th)\<lparr>th_user_rsp := cpu_rsp t, th_syscall_type := SYSCALL_BY_SYSCALL\<rparr>),
       cpu_rsp := tos - 16, ts_stack := push_cells tos [sr_rcx r, sr_r11 r] (ts_stack t)\<rparr>)"

lemma syscall_fast_entered:
  assumes "ts_gs_base (sy_tasking s) \<noteq> 0"
  shows "syscall_fast_handler m fuel site rax high 0 r s =
    (if sr_rax r < 2 then
       thenS (on_tasking (c_enter site))
      (bindS (run_syscall m fuel site rax (syscall_table ! unat (sr_rax r))
          [sr_rdi r, sr_rsi r, sr_rdx r, sr_r10 r, sr_r8 r, sr_r9 r]) (\<lambda>result.
       case result of None \<Rightarrow> returnS None
       | Some v \<Rightarrow> thenS (on_tasking (c_leave site)) (on_tasking (syscall_exit (ts_gs_base (sy_tasking s))))))
     else
       thenS (on_tasking (c_enter site))
      (thenS (bad_syscall m high (ucast (sr_rax r)))
      (thenS (on_tasking (c_leave site)) (on_tasking (syscall_exit (ts_gs_base (sy_tasking s)))))))
    (s\<lparr>sy_tasking := entered r (sy_tasking s)\<rparr>)"
proof -
  have "unat (sr_rax r) < length syscall_table" if "sr_rax r < 2"
    using that by (simp add: word_less_nat_alt syscall_table_def)
  then show ?thesis
    using assms by (simp add: entered_def Let_def syscall_fast_handler_def bindS_apply thenS_apply on_tasking_Inr [where p = "getsS f" for f]
        on_tasking_Inr [where p = "modifyS f" for f] set_thread_ok thread_at_def non_null_def syscall_count_word cpu_push_def)
qed


text \<open>
  Property C38: the entry compares the number of the call with eight bytes where the count has four. If the four bytes
  behind it are not all zero, a number from 2 to \<open>2 ^ 32 - 1\<close> is not rejected and the address of the call is
  read from beyond the table.
\<close>

theorem syscall_count_too_wide:
  assumes "ts_gs_base (sy_tasking s) \<noteq> 0" "behind \<noteq> 0" "2 \<le> sr_rax r" "sr_rax r < 2 ^ 32"
  shows "syscall_fast_handler m fuel site rax high behind r s = Inl Out_Of_Bounds"
proof -
  have "2 ^ 32 \<le> (ucast syscall_count OR push_bit 32 (ucast behind) :: u64)"
  proof -
    have z: "drop_bit 32 (2 :: u64) = 0" by simp
    have "drop_bit 32 (push_bit 32 (ucast behind) :: u64) = ucast behind"
    proof (rule bit_word_eqI)
      fix n assume "n < LENGTH(64)"
      show "bit (drop_bit 32 (push_bit 32 (ucast behind) :: u64)) n = bit (ucast behind :: u64) n"
        using bit_imp_le_length [of behind n] by (auto simp: bit_simps)
    qed
    then have "drop_bit 32 (ucast syscall_count OR push_bit 32 (ucast behind) :: u64) = ucast behind"
      by (simp only: syscall_count_word drop_bit_or z or.left_neutral)
    moreover have "(ucast behind :: u64) \<noteq> 0"
    proof
      assume "(ucast behind :: u64) = 0"
      then have "(ucast (ucast behind :: u64) :: u32) = 0" by simp
      moreover have "(ucast (ucast behind :: u64) :: u32) = behind" by (rule bit_word_eqI) (simp add: bit_simps)
      ultimately show False using assms(2) by simp
    qed
    moreover have "drop_bit 32 x = 0" if "\<not> 2 ^ 32 \<le> x" for x :: u64
    proof (rule word_unat_eq_iff [THEN iffD2])
      have "unat x < 2 ^ 32" using that by (simp add: word_le_nat_alt)
      then show "unat (drop_bit 32 x) = unat (0 :: u64)" by (simp add: drop_bit_eq_div unat_div)
    qed
    ultimately show ?thesis by metis
  qed
  then have "sr_rax r < ucast syscall_count OR push_bit 32 (ucast behind)" using assms(4) by (rule order_less_le_trans [rotated])
  moreover have "\<not> unat (sr_rax r) < 2" using assms(3) by (simp add: word_le_nat_alt)
  ultimately show ?thesis using assms(1)
    by (simp add: syscall_fast_handler_def bindS_apply thenS_apply on_tasking_def set_thread_def thread_at_def
        non_null_def cpu_push_def syscall_table_def)
qed


theorem syscall_count_too_wide_witness:
  "syscall_fast_handler (\<lambda>_. 0) 3 \<lparr>cs_call = 0x2000, cs_frames = [7, 8, 9], cs_saved = [], cs_sys_ret = 0, cs_ret = 0\<rparr> 0 0 1
     \<lparr>sr_rax = 2, sr_rdi = 0, sr_rsi = 0, sr_rdx = 0, sr_r10 = 0, sr_r8 = 0, sr_r9 = 0, sr_rcx = 0, sr_r11 = 0\<rparr>
     example_system = Inl Out_Of_Bounds"
  by (rule syscall_count_too_wide) (simp_all add: example_system_def)

section \<open>The running kernel\<close>

text \<open>
  What happens to the kernel once it runs: a thread works on its stacks and registers, the timer interrupts it, or it
  calls the kernel by one of the two ways. An event is served by the whole of its handler.
\<close>

datatype event =
    Work "tasking \<Rightarrow> tasking"
  | Timer u64
  | Int_Call mem call_site u64 u32 "u64 list" addr
  | Fast_Call mem call_site u64 u32 u32 syscall_regs

fun serve :: "nat \<Rightarrow> event \<Rightarrow> unit system_proc" where
  "serve fuel (Work f) = on_tasking (modifyS f)"
| "serve fuel (Timer ret) = pit_handler fuel ret"
| "serve fuel (Int_Call m site rax high rest regs) = syscall_int_handler m fuel site rax high rest regs"
| "serve fuel (Fast_Call m site rax high behind r) = thenS (syscall_fast_handler m fuel site rax high behind r) (returnS ())"

text \<open>
  What is asked of an event. \<open>m\<close> is the memory that the kernel prints from: a format must end, and it and its arguments must
  have a text (the kernel checks neither); the four bytes behind \<open>syscall_count\<close> must be zero.
\<close>

definition call_text :: "mem \<Rightarrow> u32 \<Rightarrow> u64 \<Rightarrow> u64 list \<Rightarrow> u8 list option" where
  "call_text m high n args =
     (if n = 0 then Some []
      else if n = 1 then (case c_string (2 ^ 64) m (hd args) of Inl e \<Rightarrow> None | Inr fmt \<Rightarrow> format_text m fmt False False (tl args))
      else format_text m (map of_char (''WARNING non-existent syscall #%ld called'' @ [CHR 0x0A])) False False
        [ucast (ucast n :: u32) OR push_bit 32 (ucast high)])"

fun legal :: "event \<Rightarrow> system \<Rightarrow> bool" where
  "legal (Work f) s \<longleftrightarrow> thread_activity f"
| "legal (Timer ret) s \<longleftrightarrow> True"
| "legal (Int_Call m site rax high rest regs) s \<longleftrightarrow>
     (let reg = (\<lambda>k. ts_stack (sy_tasking s) (regs + 8 * of_nat k)) in call_text m high (reg 0) ([reg 5, reg 4, reg 3] @ rest) \<noteq> None)"
| "legal (Fast_Call m site rax high behind r) s \<longleftrightarrow>
     behind = 0 \<and> call_text m high (sr_rax r) [sr_rdi r, sr_rsi r, sr_rdx r, sr_r10 r, sr_r8 r, sr_r9 r] \<noteq> None"

inductive kernel_step :: "nat \<Rightarrow> system \<Rightarrow> system \<Rightarrow> bool" for fuel where
  event: "legal e s \<Longrightarrow> serve fuel e s = Inr ((), s') \<Longrightarrow> kernel_step fuel s s'"

inductive_cases kernel_stepE: "kernel_step fuel s s'"

text \<open>The scheduler is consistent, the fast entry finds the current thread, and the terminal works.\<close>

definition well_scheduled :: "nat \<Rightarrow> system \<Rightarrow> bool" where
  "well_scheduled fuel s \<longleftrightarrow> (\<exists>a. sched_rel fuel (sy_tasking s) a \<and> spaces_ok (sy_tasking s) (sc_tasks a)) \<and>
     ts_current_thread (sy_tasking s) \<noteq> 0 \<and> ts_gs_base (sy_tasking s) = ts_current_thread (sy_tasking s) \<and>
     (\<exists>a. tty_rel (con_tty (iq_console (sy_irq s))) a)"

lemma well_scheduledI:
  assumes "sched_rel fuel t a" "spaces_ok t (sc_tasks a)" "ts_current_thread t \<noteq> 0" "ts_gs_base t = ts_current_thread t"
    and "well_scheduled fuel s"
  shows "well_scheduled fuel (s\<lparr>sy_tasking := t\<rparr>)"
  using assms by (auto simp: well_scheduled_def)

lemma cpu_push_fields:
  "same_but_stacks s (cpu_push v s)"
  by (simp add: same_but_stacks_def cpu_push_def)

lemma same_but_stacks_refl: "same_but_stacks s s"
  by (simp add: same_but_stacks_def)

lemma same_but_stacks_trans:
  assumes "same_but_stacks s1 s2" "same_but_stacks s2 s3"
  shows "same_but_stacks s1 s3"
proof -
  define over where "over a b = b\<lparr>ts_threads := ts_threads a, ts_stack := ts_stack a, cpu_rsp := cpu_rsp a, cpu_rbp := cpu_rbp a,
      cpu_rip := cpu_rip a\<rparr>" for a b :: tasking
  have "over s1 s2 = s1" "over s2 s3 = s2" using assms by (simp_all add: same_but_stacks_def over_def)
  moreover have "over s1 (over s2 s3) = over s1 s3" by (simp add: over_def)
  ultimately have "over s1 s3 = s1" by simp
  moreover have "(ts_threads s3 x)\<lparr>th_rsp := th_rsp (ts_threads s1 x)\<rparr> = ts_threads s1 x" for x
  proof -
    have "(ts_threads s3 x)\<lparr>th_rsp := th_rsp (ts_threads s2 x)\<rparr> = ts_threads s2 x"
        "(ts_threads s2 x)\<lparr>th_rsp := th_rsp (ts_threads s1 x)\<rparr> = ts_threads s1 x"
      using assms by (simp_all add: same_but_stacks_def)
    then have "((ts_threads s3 x)\<lparr>th_rsp := th_rsp (ts_threads s2 x)\<rparr>)\<lparr>th_rsp := th_rsp (ts_threads s1 x)\<rparr> = ts_threads s1 x" by simp
    then show ?thesis by simp
  qed
  ultimately show ?thesis by (simp add: same_but_stacks_def over_def)
qed

lemma well_scheduled_int:
  assumes "well_scheduled fuel s"
  shows "\<exists>t. preempt_int fuel ret (sy_tasking s) = Inr ((), t) \<and> well_scheduled fuel (s\<lparr>sy_tasking := t\<rparr>)"
proof -
  obtain a where "sched_rel fuel (sy_tasking s) a" "spaces_ok (sy_tasking s) (sc_tasks a)" "ts_current_thread (sy_tasking s) \<noteq> 0"
    using assms by (auto simp: well_scheduled_def)
  moreover have "ts_gs_base (sy_tasking s) = ts_current_thread (sy_tasking s)" using assms by (simp add: well_scheduled_def)
  ultimately show ?thesis using preempt_int_ok [of fuel "sy_tasking s" a ret] assms by (auto intro!: well_scheduledI)
qed

lemma same_but_stacks_pushes: "same_but_stacks s (fold cpu_push vs s)"
  by (induction vs arbitrary: s) (auto simp: same_but_stacks_refl intro: same_but_stacks_trans [OF cpu_push_fields])

lemma switch_task_sys_same:
  assumes "old \<noteq> 0"
  shows "\<exists>r t. switch_task_sys saved sys_ret ret old rsp s = Inr (r, t) \<and> same_but_stacks s t"
proof -
  define p where "p = fold cpu_push saved (cpu_push ret s)"
  have p: "same_but_stacks s p"
    unfolding p_def by (rule same_but_stacks_trans [OF cpu_push_fields same_but_stacks_pushes])
  obtain q where q: "switch_task_int sys_ret old rsp p = Inr ((), q)" by (simp add: switch_task_int_ok [OF assms])
  have sq: "same_but_stacks s q" by (rule same_but_stacks_trans [OF p same_but_stacks_switch [OF assms q]])
  obtain regs t where t: "sys_return q = (regs, t)" by fastforce
  have "same_but_stacks q t" using t by (auto simp: sys_return_def cpu_pop_def same_but_stacks_def Let_def)
  then have "same_but_stacks s t" by (rule same_but_stacks_trans [OF sq])
  then show ?thesis using sq q t unfolding switch_task_sys_def
    by (cases "cpu_rip q = sys_ret") (simp_all add: thenS_apply bindS_apply flip: p_def)
qed

lemma well_scheduled_sys:
  assumes "well_scheduled fuel s"
  shows "\<exists>r t. preempt_syscall fuel saved sys_ret ret (sy_tasking s) = Inr (r, t) \<and> well_scheduled fuel (s\<lparr>sy_tasking := t\<rparr>)"
proof -
  let ?s = "sy_tasking s"
  obtain a where a: "sched_rel fuel ?s a" "spaces_ok ?s (sc_tasks a)" "ts_current_thread ?s \<noteq> 0"
      "ts_gs_base ?s = ts_current_thread ?s"
    using assms by (auto simp: well_scheduled_def)
  let ?r = "schedule_spec (can_run ?s) (ts_idle_thread ?s) (idle_task ?s) a"
  obtain s3 where s3: "choose_thread fuel ?s = Inr ((ts_current_thread ?s, th_rsp (ts_threads ?s (fst ?r))), s3)"
      "ts_current_thread s3 \<noteq> 0" "sched_rel fuel s3 (snd ?r)" "spaces_ok s3 (sc_tasks (snd ?r))" "ts_gs_base s3 = ts_current_thread s3"
    using choose_thread_ok [OF a(1-3)] a(4) by auto
  obtain r t where t: "switch_task_sys saved sys_ret ret (ts_current_thread ?s) (th_rsp (ts_threads ?s (fst ?r))) s3 = Inr (r, t)"
      "same_but_stacks s3 t"
    using switch_task_sys_same [OF a(3)] by blast
  have "well_scheduled fuel (s\<lparr>sy_tasking := t\<rparr>)"
    by (rule well_scheduledI [OF _ _ _ _ assms, where a = "snd ?r"])
      (simp_all add: same_but_stacks_rel [OF t(2)] same_but_stacks_fields(8) [OF t(2)] s3(2-5))
  then show ?thesis using s3(1) t(1) by (simp add: preempt_choose)
qed

lemma sys_yield_ok:
  assumes "well_scheduled fuel s"
    "th_syscall_type (ts_threads (sy_tasking s) (ts_current_thread (sy_tasking s))) \<in> {SYSCALL_BY_INTERRUPT, SYSCALL_BY_SYSCALL}"
  shows "\<exists>r t. sys_yield fuel site (sy_tasking s) = Inr (r, t) \<and> well_scheduled fuel (s\<lparr>sy_tasking := t\<rparr>)"
proof -
  have cur: "ts_current_thread (sy_tasking s) \<noteq> 0" using assms(1) by (simp add: well_scheduled_def)
  have ne: "SYSCALL_BY_SYSCALL \<noteq> SYSCALL_BY_INTERRUPT" by (simp add: SYSCALL_BY_INTERRUPT_def SYSCALL_BY_SYSCALL_def)
  have "thread_at (ts_current_thread (sy_tasking s)) (sy_tasking s) =
      Inr (ts_threads (sy_tasking s) (ts_current_thread (sy_tasking s)), sy_tasking s)"
    using cur by (simp add: thread_at_def non_null_def thenS_apply)
  then show ?thesis
    using assms(2) ne well_scheduled_int [OF assms(1), of "cs_ret site"]
      well_scheduled_sys [OF assms(1), of "cs_saved site" "cs_sys_ret site" "cs_ret site"]
    by (auto simp: sys_yield_def bindS_apply thenS_apply)
qed

text \<open>The parts of the handlers keep a well scheduled state.\<close>

lemma well_scheduled_same:
  assumes "well_scheduled fuel s" "same_but_stacks (sy_tasking s) t"
  shows "well_scheduled fuel (s\<lparr>sy_tasking := t\<rparr>)"
  using assms(1) by (simp add: well_scheduled_def same_but_stacks_rel [OF assms(2)] same_but_stacks_fields(8) [OF assms(2)])

lemma well_scheduled_threads:
  assumes "well_scheduled fuel s" "sy_tasking s = t"
    and "\<And>x. th_state (thr x) = th_state (ts_threads t x)" "\<And>x. th_task (thr x) = th_task (ts_threads t x)"
  shows "well_scheduled fuel (s\<lparr>sy_tasking := t\<lparr>ts_threads := thr\<rparr>\<rparr>)"
proof -
  have "sched_rel fuel (t\<lparr>ts_threads := thr\<rparr>) a = sched_rel fuel t a" for a
    by (simp add: sched_rel_def ring_of_def assms(3,4))
  moreover have "spaces_ok (t\<lparr>ts_threads := thr\<rparr>) ts = spaces_ok t ts" for ts by (simp add: spaces_ok_def)
  ultimately show ?thesis using assms(1) unfolding well_scheduled_def assms(2) by simp
qed

lemma well_scheduled_activity:
  assumes "well_scheduled fuel s" "thread_activity f"
  shows "well_scheduled fuel (s\<lparr>sy_tasking := f (sy_tasking s)\<rparr>)"
proof -
  obtain stk rsp rbp rip where "f (sy_tasking s) = (sy_tasking s)\<lparr>ts_stack := stk, cpu_rsp := rsp, cpu_rbp := rbp, cpu_rip := rip\<rparr>"
    using assms(2) unfolding thread_activity_def by blast
  then have "ts_gs_base (f (sy_tasking s)) = ts_gs_base (sy_tasking s)" by simp
  then show ?thesis using assms by (simp add: well_scheduled_def activity_rel)
qed

text \<open>A procedure returns with a result and a state of which something holds.\<close>

definition returns_with :: "'a system_proc \<Rightarrow> system \<Rightarrow> ('a \<Rightarrow> system \<Rightarrow> bool) \<Rightarrow> bool" where
  "returns_with p s Q \<longleftrightarrow> (\<exists>x s'. p s = Inr (x, s') \<and> Q x s')"

lemma returns_with_bind:
  assumes "returns_with p s R" "\<And>x s'. R x s' \<Longrightarrow> returns_with (q x) s' Q"
  shows "returns_with (bindS p q) s Q"
proof -
  obtain x s1 where "p s = Inr (x, s1)" "R x s1" using assms(1) by (auto simp: returns_with_def)
  moreover obtain y s2 where "q x s1 = Inr (y, s2)" "Q y s2" using assms(2) [OF calculation(2)] by (auto simp: returns_with_def)
  ultimately show ?thesis by (auto simp: returns_with_def bindS_apply)
qed

lemma returns_with_then:
  "returns_with p s R \<Longrightarrow> (\<And>x s'. R x s' \<Longrightarrow> returns_with q s' Q) \<Longrightarrow> returns_with (thenS p q) s Q"
  using returns_with_bind [of p s R "\<lambda>_. q" Q] by (simp add: returns_with_def bindS_apply thenS_apply)

lemma returns_with_return: "Q x s \<Longrightarrow> returns_with (returnS x) s Q"
  by (simp add: returns_with_def)

lemma returns_with_tasking: "p (sy_tasking s) = Inr (x, t) \<Longrightarrow> Q x (s\<lparr>sy_tasking := t\<rparr>) \<Longrightarrow> returns_with (on_tasking p) s Q"
  by (simp add: returns_with_def)

lemma activity_stack: "thread_activity (\<lambda>s. s\<lparr>ts_stack := g s\<rparr>)"
  unfolding thread_activity_def
proof
  fix s show "\<exists>stk rsp rbp rip. s\<lparr>ts_stack := g s\<rparr> = s\<lparr>ts_stack := stk, cpu_rsp := rsp, cpu_rbp := rbp, cpu_rip := rip\<rparr>"
    by (intro exI [of _ "g s"] exI [of _ "cpu_rsp s"] exI [of _ "cpu_rbp s"] exI [of _ "cpu_rip s"]) simp
qed

lemma activity_rsp: "thread_activity (\<lambda>s. s\<lparr>cpu_rsp := f s\<rparr>)"
  unfolding thread_activity_def
proof
  fix s show "\<exists>stk rsp rbp rip. s\<lparr>cpu_rsp := f s\<rparr> = s\<lparr>ts_stack := stk, cpu_rsp := rsp, cpu_rbp := rbp, cpu_rip := rip\<rparr>"
    by (intro exI [of _ "ts_stack s"] exI [of _ "f s"] exI [of _ "cpu_rbp s"] exI [of _ "cpu_rip s"]) simp
qed

text \<open>The parts of the handlers.\<close>

definition current_type :: "system \<Rightarrow> u64" where
  "current_type s = th_syscall_type (ts_threads (sy_tasking s) (ts_current_thread (sy_tasking s)))"

lemma moves_rsp:
  assumes "well_scheduled fuel s"
  shows "returns_with (on_tasking (modifyS (\<lambda>t. t\<lparr>cpu_rsp := f t\<rparr>))) s (\<lambda>_. well_scheduled fuel)"
  by (rule returns_with_tasking) (use well_scheduled_activity [OF assms activity_rsp [of f]] in auto)

lemma stores_result:
  assumes "well_scheduled fuel s"
  shows "returns_with (on_tasking (modifyS (\<lambda>t. t\<lparr>ts_stack := g t\<rparr>))) s (\<lambda>_. well_scheduled fuel)"
  by (rule returns_with_tasking) (use well_scheduled_activity [OF assms activity_stack [of g]] in auto)

lemma enters_c:
  assumes "well_scheduled fuel s"
  shows "returns_with (on_tasking (c_enter site)) s (\<lambda>_ s'. well_scheduled fuel s' \<and> current_type s' = current_type s \<and>
    ts_gs_base (sy_tasking s') = ts_gs_base (sy_tasking s))"
proof (rule returns_with_tasking [OF c_enter_run])
  have "well_scheduled fuel (s\<lparr>sy_tasking := fold cpu_push (cs_call site # cs_frames site) (sy_tasking s)\<rparr>)"
    by (rule well_scheduled_same [OF assms same_but_stacks_pushes])
  from this [unfolded cpu_pushes length_Cons] show "well_scheduled fuel (s\<lparr>sy_tasking := (sy_tasking s)\<lparr>ts_stack := push_cells (cpu_rsp (sy_tasking s))
      (cs_call site # cs_frames site) (ts_stack (sy_tasking s)), cpu_rsp := cpu_rsp (sy_tasking s) - 8 * of_nat (Suc (length (cs_frames site)))\<rparr>\<rparr>) \<and>
    current_type (s\<lparr>sy_tasking := (sy_tasking s)\<lparr>ts_stack := push_cells (cpu_rsp (sy_tasking s))
      (cs_call site # cs_frames site) (ts_stack (sy_tasking s)), cpu_rsp := cpu_rsp (sy_tasking s) - 8 * of_nat (Suc (length (cs_frames site)))\<rparr>\<rparr>) =
      current_type s \<and>
    ts_gs_base (sy_tasking (s\<lparr>sy_tasking := (sy_tasking s)\<lparr>ts_stack := push_cells (cpu_rsp (sy_tasking s))
      (cs_call site # cs_frames site) (ts_stack (sy_tasking s)), cpu_rsp := cpu_rsp (sy_tasking s) - 8 * of_nat (Suc (length (cs_frames site)))\<rparr>\<rparr>)) =
      ts_gs_base (sy_tasking s)"
    by (simp add: current_type_def del: push_cells.simps of_nat_Suc)
qed

lemma leaves_c: "well_scheduled fuel s \<Longrightarrow> returns_with (on_tasking (c_leave site)) s (\<lambda>_. well_scheduled fuel)"
  unfolding c_leave_def by (rule moves_rsp)

lemma notes_type:
  assumes "well_scheduled fuel s" "th = ts_current_thread (sy_tasking s)"
  shows "returns_with (on_tasking (set_thread th (\<lambda>t. t\<lparr>th_syscall_type := w\<rparr>))) s
    (\<lambda>_ s'. well_scheduled fuel s' \<and> current_type s' = w)"
proof (rule returns_with_tasking)
  show "set_thread th (\<lambda>t. t\<lparr>th_syscall_type := w\<rparr>) (sy_tasking s) = Inr ((), (sy_tasking s)\<lparr>ts_threads :=
      (ts_threads (sy_tasking s))(th := (ts_threads (sy_tasking s) th)\<lparr>th_syscall_type := w\<rparr>)\<rparr>)"
    using assms by (intro set_thread_ok) (simp add: well_scheduled_def)
  show "well_scheduled fuel (s\<lparr>sy_tasking := (sy_tasking s)\<lparr>ts_threads :=
      (ts_threads (sy_tasking s))(th := (ts_threads (sy_tasking s) th)\<lparr>th_syscall_type := w\<rparr>)\<rparr>\<rparr>) \<and>
    current_type (s\<lparr>sy_tasking := (sy_tasking s)\<lparr>ts_threads :=
      (ts_threads (sy_tasking s))(th := (ts_threads (sy_tasking s) th)\<lparr>th_syscall_type := w\<rparr>)\<rparr>\<rparr>) = w"
    using well_scheduled_threads [OF assms(1) refl] assms(2) by (simp add: current_type_def)
qed

lemma prints:
  assumes "well_scheduled fuel s" "shows_text p t"
  shows "returns_with (on_irq (on_console p)) s (\<lambda>_. well_scheduled fuel)"
proof -
  obtain a where "tty_rel (con_tty (iq_console (sy_irq s))) a" using assms(1) by (auto simp: well_scheduled_def)
  then obtain t' a' where "p (iq_console (sy_irq s)) = Inr ((), (iq_console (sy_irq s))\<lparr>con_tty := t',
      con_port := con_port (iq_console (sy_irq s)) @ map (Pair 0xE9) t\<rparr>)" "tty_rel t' a'"
    using assms(2) unfolding shows_text_def by blast
  then show ?thesis using assms(1)
    by (auto simp: returns_with_def on_irq_def on_console_def well_scheduled_def)
qed

lemma call_output_shown:
  "call_text m high n args = Some t \<Longrightarrow> n \<noteq> 0 \<Longrightarrow> shows_text (call_output m high n args) t"
  by (auto simp: call_text_def call_output_def sys_printk_def print_def shows_format split: if_splits sum.splits
      simp del: format_text.simps c_string.simps of_char_def)

lemma serves_call:
  assumes "well_scheduled fuel s" "n < 2" "call_text m high n args \<noteq> None" "current_type s \<in> {SYSCALL_BY_INTERRUPT, SYSCALL_BY_SYSCALL}"
  shows "returns_with (run_syscall m fuel site rax (syscall_table ! unat n) args) s (\<lambda>_. well_scheduled fuel)"
proof (cases rule: syscall_number_cases [of n])
  case 1
  obtain x t where "sys_yield fuel site (sy_tasking s) = Inr (x, t)" "well_scheduled fuel (s\<lparr>sy_tasking := t\<rparr>)"
    using sys_yield_ok [OF assms(1)] assms(4) unfolding current_type_def by blast
  then show ?thesis using 1 by (simp add: syscall_table_def returns_with_def thenS_apply)
next
  case 2
  obtain t where "shows_text (sys_printk m (hd args) (tl args)) t"
    using assms(3) call_output_shown [of m high n args] 2 by (auto simp: call_output_def)
  then show ?thesis using prints [OF assms(1)] 2
    by (auto simp: syscall_table_def intro!: returns_with_then returns_with_return)
qed (use assms(2) in simp)

lemma warns:
  assumes "well_scheduled fuel s" "\<not> n < 2" "call_text m high n args \<noteq> None"
  shows "returns_with (bad_syscall m high (ucast n)) s (\<lambda>_. well_scheduled fuel)"
proof -
  have "n \<noteq> 0" "n \<noteq> 1" using assms(2) by auto
  then obtain t where "shows_text (call_output m high n args) t" using assms(3) call_output_shown by blast
  then show ?thesis using \<open>n \<noteq> 1\<close> prints [OF assms(1)] by (simp add: call_output_def bad_syscall_def)
qed

text \<open>The two handlers.\<close>

lemma finishes_int_call:
  "well_scheduled fuel s \<Longrightarrow> returns_with (case result of None \<Rightarrow> returnS ()
     | Some v \<Rightarrow> thenS (on_tasking (modifyS (\<lambda>s. s\<lparr>ts_stack := (ts_stack s)(regs := v)\<rparr>))) (on_tasking (c_leave site)))
   s (\<lambda>_. well_scheduled fuel)"
  by (auto split: option.split intro: returns_with_return returns_with_then [OF stores_result leaves_c])

lemma reads_tasking: "(\<And>x. x = f (sy_tasking s) \<Longrightarrow> returns_with (q x) s Q) \<Longrightarrow> returns_with (bindS (on_tasking (getsS f)) q) s Q"
  by (simp add: returns_with_def bindS_apply on_tasking_def)

lemma serves_int_call:
  assumes "well_scheduled fuel s" "legal (Int_Call m site rax high rest regs) s"
  shows "returns_with (syscall_int_handler m fuel site rax high rest regs) s (\<lambda>_. well_scheduled fuel)"
  unfolding syscall_int_handler_def Let_def
proof (intro reads_tasking returns_with_then [OF enters_c [OF assms(1)]])
  fix stk :: "addr \<Rightarrow> u64" and x s'
  assume stk: "stk = ts_stack (sy_tasking s)"
    and "well_scheduled fuel s' \<and> current_type s' = current_type s \<and> ts_gs_base (sy_tasking s') = ts_gs_base (sy_tasking s)"
  then have s': "well_scheduled fuel s'" by simp
  let ?reg = "\<lambda>k :: nat. stk (regs + 8 * of_nat k)"
  let ?args = "[?reg 5, ?reg 4, ?reg 3] @ rest"
  have known: "call_text m high (?reg 0) ?args \<noteq> None" using assms(2) by (simp add: stk Let_def)
  let ?done = "\<lambda>result. case result of None \<Rightarrow> returnS ()
     | Some v \<Rightarrow> thenS (on_tasking (modifyS (\<lambda>s. s\<lparr>ts_stack := (ts_stack s)(regs := v)\<rparr>))) (on_tasking (c_leave site))"
  let ?run = "bindS (run_syscall m fuel site rax (syscall_table ! unat (?reg 0)) ?args) ?done"
  let ?call = "\<lambda>th. thenS (on_tasking (set_thread th (\<lambda>t. t\<lparr>th_syscall_type := SYSCALL_BY_INTERRUPT\<rparr>))) ?run"
  let ?warn = "thenS (bad_syscall m high (ucast (?reg 0))) (on_tasking (c_leave site))"
  have warn: "returns_with ?warn s' (\<lambda>_. well_scheduled fuel)" if "\<not> ?reg 0 < 2"
    using returns_with_then [OF warns [OF s' that known] leaves_c] by blast
  have run: "returns_with ?run q (\<lambda>_. well_scheduled fuel)"
    if "?reg 0 < 2" "well_scheduled fuel q \<and> current_type q = SYSCALL_BY_INTERRUPT" for q
    using that(2) by (intro returns_with_bind [OF serves_call [OF _ that(1) known] finishes_int_call]) simp_all
  have "returns_with (bindS (on_tasking (getsS ts_current_thread)) ?call) s' (\<lambda>_. well_scheduled fuel)" if "?reg 0 < 2"
    by (intro reads_tasking returns_with_then [OF notes_type [OF s']] run [OF that])
  then show "returns_with (if ucast syscall_count \<le> ?reg 0 then ?warn else bindS (on_tasking (getsS ts_current_thread)) ?call) s'
      (\<lambda>_. well_scheduled fuel)"
    using warn unfolding syscall_count_word not_less [symmetric] by (simp only: split: if_split) blast
qed

lemma leaves_kernel: "th \<noteq> 0 \<Longrightarrow> well_scheduled fuel s \<Longrightarrow> returns_with (on_tasking (syscall_exit th)) s (\<lambda>_. well_scheduled fuel)"
proof (rule returns_with_tasking)
  assume "th \<noteq> 0"
  then show "syscall_exit th (sy_tasking s) = Inr (Some (ts_stack (sy_tasking s) (cpu_rsp (sy_tasking s) + 8), ts_stack (sy_tasking s) (cpu_rsp (sy_tasking s))),
      (sy_tasking s)\<lparr>cpu_rsp := th_user_rsp (ts_threads (sy_tasking s) th)\<rparr>)"
    by (simp add: syscall_exit_def bindS_apply thenS_apply cpu_pop_def thread_at_def non_null_def)
  assume "well_scheduled fuel s"
  then show "well_scheduled fuel (s\<lparr>sy_tasking := (sy_tasking s)\<lparr>cpu_rsp := th_user_rsp (ts_threads (sy_tasking s) th)\<rparr>\<rparr>)"
    by (rule well_scheduled_activity [OF _ activity_rsp])
qed

lemma enters_fast:
  assumes "well_scheduled fuel s"
  shows "well_scheduled fuel (s\<lparr>sy_tasking := entered r (sy_tasking s)\<rparr>) \<and>
    current_type (s\<lparr>sy_tasking := entered r (sy_tasking s)\<rparr>) = SYSCALL_BY_SYSCALL"
proof -
  let ?t = "sy_tasking s" and ?th = "ts_gs_base (sy_tasking s)"
  define t1 where "t1 = ?t\<lparr>ts_threads := (ts_threads ?t)(?th := (ts_threads ?t ?th)\<lparr>th_user_rsp := cpu_rsp ?t, th_syscall_type := SYSCALL_BY_SYSCALL\<rparr>)\<rparr>"
  define t2 where "t2 = t1\<lparr>cpu_rsp := th_stack_top (ts_threads ?t ?th) - 16\<rparr>"
  have "well_scheduled fuel (s\<lparr>sy_tasking := t1\<rparr>)" unfolding t1_def by (rule well_scheduled_threads [OF assms refl]) simp_all
  then have "well_scheduled fuel (s\<lparr>sy_tasking := t2\<rparr>)"
    using well_scheduled_activity [OF _ activity_rsp, of fuel "s\<lparr>sy_tasking := t1\<rparr>"] by (simp add: t2_def)
  moreover have "entered r ?t = t2\<lparr>ts_stack := push_cells (th_stack_top (ts_threads ?t ?th)) [sr_rcx r, sr_r11 r] (ts_stack ?t)\<rparr>"
    by (simp add: entered_def Let_def t2_def t1_def)
  ultimately have "well_scheduled fuel (s\<lparr>sy_tasking := entered r ?t\<rparr>)"
    using well_scheduled_activity [OF _ activity_stack, of fuel "s\<lparr>sy_tasking := t2\<rparr>"] by simp
  moreover have "?th = ts_current_thread ?t" using assms by (simp add: well_scheduled_def)
  ultimately show ?thesis by (simp add: current_type_def entered_def Let_def)
qed

lemma finishes_fast_call:
  "th \<noteq> 0 \<Longrightarrow> well_scheduled fuel s \<Longrightarrow> returns_with (case result of None \<Rightarrow> returnS None
     | Some v \<Rightarrow> thenS (on_tasking (c_leave site)) (on_tasking (syscall_exit th))) s (\<lambda>_. well_scheduled fuel)"
  by (auto split: option.split intro: returns_with_return returns_with_then [OF leaves_c leaves_kernel])

lemma serves_fast_call:
  assumes "well_scheduled fuel s" "legal (Fast_Call m site rax high behind r) s"
  shows "returns_with (syscall_fast_handler m fuel site rax high behind r) s (\<lambda>_. well_scheduled fuel)"
proof -
  let ?n = "sr_rax r" and ?args = "[sr_rdi r, sr_rsi r, sr_rdx r, sr_r10 r, sr_r8 r, sr_r9 r]"
  let ?th = "ts_gs_base (sy_tasking s)" and ?s = "s\<lparr>sy_tasking := entered r (sy_tasking s)\<rparr>"
  have th: "?th \<noteq> 0" using assms(1) by (simp add: well_scheduled_def)
  have behind: "behind = 0" and known: "call_text m high ?n ?args \<noteq> None" using assms(2) by simp_all
  have in_c: "returns_with (on_tasking (c_enter site)) ?s (\<lambda>_ q. well_scheduled fuel q \<and> current_type q = SYSCALL_BY_SYSCALL)"
    using enters_c [of fuel ?s site] enters_fast [OF assms(1), of r] by (auto simp: returns_with_def)
  have call: "returns_with (thenS (on_tasking (c_enter site)) (bindS (run_syscall m fuel site rax (syscall_table ! unat ?n) ?args) (\<lambda>result.
      case result of None \<Rightarrow> returnS None | Some v \<Rightarrow> thenS (on_tasking (c_leave site)) (on_tasking (syscall_exit ?th))))) ?s
    (\<lambda>_. well_scheduled fuel)" if "?n < 2"
    by (intro returns_with_then [OF in_c] returns_with_bind [OF serves_call [OF _ that known] finishes_fast_call [OF th]]) simp_all
  have warn: "returns_with (thenS (on_tasking (c_enter site)) (thenS (bad_syscall m high (ucast ?n))
      (thenS (on_tasking (c_leave site)) (on_tasking (syscall_exit ?th))))) ?s (\<lambda>_. well_scheduled fuel)" if "\<not> ?n < 2"
    by (intro returns_with_then [OF in_c] returns_with_then [OF warns [OF _ that known]] returns_with_then [OF leaves_c] leaves_kernel [OF th]) simp_all
  show ?thesis using call warn unfolding returns_with_def behind syscall_fast_entered [OF th] by presburger
qed

lemma serves_event:
  assumes "well_scheduled fuel s" "legal e s"
  shows "\<exists>s'. serve fuel e s = Inr ((), s') \<and> well_scheduled fuel s'"
proof (cases e)
  case (Work f)
  then show ?thesis using well_scheduled_activity [OF assms(1)] assms(2) by (auto simp: on_tasking_def)
next
  case (Timer ret)
  obtain t where t: "preempt_int fuel ret (sy_tasking s) = Inr ((), t)" "well_scheduled fuel (s\<lparr>sy_tasking := t\<rparr>)"
    using well_scheduled_int [OF assms(1)] by blast
  then show ?thesis using Timer pit_handler_run [OF t(1)] by (auto simp: well_scheduled_def after_eoi_def)
next
  case (Int_Call m site rax high rest regs)
  then show ?thesis using serves_int_call [OF assms(1)] assms(2) by (auto simp: returns_with_def simp del: legal.simps)
next
  case (Fast_Call m site rax high behind r)
  then show ?thesis using serves_fast_call [OF assms(1)] assms(2)
    by (fastforce simp: returns_with_def thenS_apply simp del: legal.simps)
qed

lemma kernel_step_keeps: "kernel_step fuel s s' \<Longrightarrow> well_scheduled fuel s \<Longrightarrow> well_scheduled fuel s'"
  using serves_event by (fastforce elim: kernel_stepE)

text \<open>
  Property C29: the kernel keeps running. Start in a state where the scheduler is consistent, the GS base is that of
  the current thread and the terminal works, and let any events come: activity of threads, timer interrupts, and calls
  of the kernel by interrupt and by the instruction \<open>syscall\<close>, each served by the whole of its handler. Then the handler
  of every next event returns and leaves such a state again; and that of a timer interrupt has counted the tick and
  acknowledged the interrupt. A call must have a text where it prints (the kernel does not check the pointers it is given),
  and the four bytes behind \<open>syscall_count\<close> must be zero.
\<close>

theorem kernel_keeps_running:
  assumes "(kernel_step fuel)\<^sup>*\<^sup>* s s'" "well_scheduled fuel s"
  shows "well_scheduled fuel s' \<and>
    (\<forall>e. legal e s' \<longrightarrow> (\<exists>s''. serve fuel e s' = Inr ((), s'') \<and> well_scheduled fuel s'')) \<and>
    (\<exists>s''. pit_handler fuel ret s' = Inr ((), s'') \<and> sy_pit_ticks s'' = sy_pit_ticks s' + 1 \<and>
      sy_irq s'' = after_eoi (sy_irq s') \<and> ts_current_thread (sy_tasking s'') \<noteq> 0)"
proof -
  have keep: "well_scheduled fuel s'" using assms by (induction rule: rtranclp_induct) (auto intro: kernel_step_keeps)
  then obtain t where t: "preempt_int fuel ret (sy_tasking s') = Inr ((), t)" "well_scheduled fuel (s'\<lparr>sy_tasking := t\<rparr>)"
    using well_scheduled_int by blast
  then show ?thesis using keep serves_event [OF keep] pit_handler_run [OF t(1)] by (auto simp: well_scheduled_def)
qed

definition example_running :: "tty \<Rightarrow> system" where
  "example_running t = example_system\<lparr>sy_irq := (sy_irq example_system)\<lparr>iq_console := \<lparr>con_tty = t, con_port = []\<rparr>\<rparr>\<rparr>"

lemma example_well_scheduled: "tty_rel t a \<Longrightarrow> well_scheduled 3 (example_running t)"
proof -
  let ?t = "example_tasking THREAD_RUNNING"
  have "sched_rel 3 (?t\<lparr>ts_gs_base := 0x280\<rparr>) example_rings"
    using example_sched_rel [of THREAD_RUNNING] by (simp add: sched_rel_def ring_of_def)
  moreover have "spaces_ok (?t\<lparr>ts_gs_base := 0x280\<rparr>) (sc_tasks example_rings)"
    using example_spaces [of THREAD_RUNNING] by (simp add: spaces_ok_def example_rings_def)
  moreover have "ts_current_thread ?t = 0x280" by (simp add: example_tasking_def)
  moreover assume "tty_rel t a"
  ultimately show ?thesis
    unfolding well_scheduled_def example_running_def example_system_def by auto
qed

text \<open>A program that prints the character at \<open>0x100000\<close> and then yields.\<close>

definition example_call :: "u64 \<Rightarrow> event" where
  "example_call n = Fast_Call ((\<lambda>_. 0)(0x100000 := 65))
     \<lparr>cs_call = 0x2000, cs_frames = [7, 8, 9], cs_saved = [1, 2, 3, 4, 5], cs_sys_ret = 0x2100, cs_ret = 0x2200\<rparr> 0 0 0
     \<lparr>sr_rax = n, sr_rdi = 0x100000, sr_rsi = 0, sr_rdx = 0, sr_r10 = 0, sr_r8 = 0, sr_r9 = 0, sr_rcx = 0x100080, sr_r11 = 0x202\<rparr>"

lemma example_legal: "legal (example_call 0) s" "legal (example_call 1) s"
proof -
  obtain n :: nat where n: "2 ^ 64 = Suc (Suc n)" by (rule that [of "2 ^ 64 - 2"]) simp
  have "c_string (2 ^ 64) ((\<lambda>_. 0)(0x100000 := 65)) 0x100000 = Inr [65]" unfolding n by simp
  then show "legal (example_call 1) s" by (simp add: example_call_def call_text_def del: power_numeral)
qed (simp add: example_call_def call_text_def)

theorem kernel_keeps_running_witness:
  "\<exists>t s1 s2 s3. tty_rel t term_init \<and> serve 3 (example_call 1) (example_running t) = Inr ((), s1) \<and>
     serve 3 (example_call 0) s1 = Inr ((), s2) \<and> pit_handler 3 0x5678 s2 = Inr ((), s3) \<and> sy_pit_ticks s3 = sy_pit_ticks s2 + 1"
proof -
  obtain t where t: "tty_rel t term_init" using tty_initialize_ok by blast
  note start = example_well_scheduled [OF t]
  obtain s1 where s1: "serve 3 (example_call 1) (example_running t) = Inr ((), s1)"
    using kernel_keeps_running [OF rtranclp.rtrancl_refl start] example_legal(2) by blast
  then have r1: "(kernel_step 3)\<^sup>*\<^sup>* (example_running t) s1" using kernel_step.event [OF example_legal(2)] by blast
  obtain s2 where s2: "serve 3 (example_call 0) s1 = Inr ((), s2)"
    using kernel_keeps_running [OF r1 start] example_legal(1) by blast
  then have "(kernel_step 3)\<^sup>*\<^sup>* (example_running t) s2"
    using r1 kernel_step.event [OF example_legal(1)] by (meson rtranclp.rtrancl_into_rtrancl)
  from kernel_keeps_running [OF this start, of "0x5678"] show ?thesis using t s1 s2 by blast
qed

end
