(* ===== verification/Pages_Spec.thy ===== *)
theory Pages_Spec imports Pages begin

text \<open>
  What the page table code of \<open>mm/pages.c\<close> promises when its frames come from the allocator of
  \<open>mm/frame.c\<close>: the interpretation \<open>frames\<close> of the contract of \<open>Frame_Contract\<close> supplies the lemmas of \<open>Pages\<close>.
\<close>

section \<open>Entries\<close>

lemma page_addr_flags:
  assumes "page_addr p"
  shows "p AND PG_PRESENT = 0" "p AND PG_RW = 0"
proof -
  have "PHYS_ADDR_MASK AND PG_PRESENT = 0" "PHYS_ADDR_MASK AND PG_RW = 0"
    by (simp_all add: PHYS_ADDR_MASK_def PG_PRESENT_def PG_RW_def)
  then have "(p AND PHYS_ADDR_MASK) AND PG_PRESENT = 0" "(p AND PHYS_ADDR_MASK) AND PG_RW = 0" by (simp_all only: and.assoc and_zero_eq)
  then show "p AND PG_PRESENT = 0" "p AND PG_RW = 0" using assms by (simp_all only: page_addr_def)
qed

lemma leaf_entry:
  assumes "page_addr p" "flags AND PHYS_ADDR_MASK = 0"
  shows "(p OR flags) AND PHYS_ADDR_MASK = p" "(p OR flags) AND PG_PRESENT = flags AND PG_PRESENT"
    "(p OR flags) AND PG_RW = flags AND PG_RW"
  using assms page_addr_flags [OF assms(1)] by (simp_all add: bit.conj_disj_distrib2 page_addr_def)

lemma bit_flag:
  "bit PG_PRESENT n \<longleftrightarrow> n = 0" "bit PG_RW n \<longleftrightarrow> n = 1" "bit PG_USER n \<longleftrightarrow> n = 2" "bit PG_LAZY n \<longleftrightarrow> n = 9"
  "bit PG_NX n \<longleftrightarrow> n = 63" "bit MAP_IMMEDIATE n \<longleftrightarrow> n = 12"
proof -
  show "bit PG_RW n \<longleftrightarrow> n = 1" using bit_exp_iff [where 'a = "64 word", of 1 n] by (auto simp: PG_RW_def)
  show "bit PG_USER n \<longleftrightarrow> n = 2" using bit_exp_iff [where 'a = "64 word", of 2 n] by (auto simp: PG_USER_def)
  show "bit PG_LAZY n \<longleftrightarrow> n = 9" using bit_exp_iff [where 'a = "64 word", of 9 n] by (auto simp: PG_LAZY_def)
  show "bit PG_NX n \<longleftrightarrow> n = 63" using bit_exp_iff [where 'a = "64 word", of 63 n] by (auto simp: PG_NX_def)
  show "bit PG_PRESENT n \<longleftrightarrow> n = 0" by (auto simp: PG_PRESENT_def bit_1_iff)
  show "bit MAP_IMMEDIATE n \<longleftrightarrow> n = 12" using bit_exp_iff [where 'a = "64 word", of 12 n] by (auto simp: MAP_IMMEDIATE_def)
qed

lemma flag_set:
  assumes "\<And>n. bit (f :: u64) n = (n = (k :: nat))"
  shows "w AND f \<noteq> 0 \<longleftrightarrow> bit w k"
proof -
  have "bit (w AND f) n \<longleftrightarrow> n = k \<and> bit w k" for n using assms by (auto simp: bit_and_iff)
  then show ?thesis by (cases "bit w k") (metis bit_0_eq bot_apply bot_bool_def, rule iffI, metis bit_word_eqI bit_0_eq bot_apply bot_bool_def, simp)
qed

lemmas flag_bits = flag_set [OF bit_flag(1)] flag_set [OF bit_flag(2)] flag_set [OF bit_flag(3)]
  flag_set [OF bit_flag(4)] flag_set [OF bit_flag(5)] flag_set [OF bit_flag(6)]

lemma convert_flags_bits:
  "convert_flags fl AND PG_PRESENT \<noteq> 0" "(convert_flags fl AND PG_NX \<noteq> 0) = (fl AND MAP_EXE = 0)"
  "(convert_flags fl AND PG_USER \<noteq> 0) = (fl AND MAP_USER \<noteq> 0)"
  "(convert_flags fl AND PG_RW \<noteq> 0) = (fl AND MAP_RW \<noteq> 0 \<and> fl AND MAP_IMMEDIATE \<noteq> 0)"
  "(convert_flags fl AND PG_LAZY \<noteq> 0) = (fl AND MAP_RW \<noteq> 0 \<and> fl AND MAP_IMMEDIATE = 0)"
  "convert_flags fl AND PHYS_ADDR_MASK = 0"
proof -
  note simps = convert_flags_def MAP_EXE_def MAP_USER_def MAP_RW_def Let_def
  have imm: "fl AND MAP_IMMEDIATE = 0 \<longleftrightarrow> \<not> bit fl 12" and exe: "fl AND PG_NX = 0 \<longleftrightarrow> \<not> bit fl 63"
    using flag_set [OF bit_flag(6), of fl] flag_set [OF bit_flag(5), of fl] by auto
  show "convert_flags fl AND PG_PRESENT \<noteq> 0" "(convert_flags fl AND PG_NX \<noteq> 0) = (fl AND MAP_EXE = 0)"
    "(convert_flags fl AND PG_USER \<noteq> 0) = (fl AND MAP_USER \<noteq> 0)"
    "(convert_flags fl AND PG_RW \<noteq> 0) = (fl AND MAP_RW \<noteq> 0 \<and> fl AND MAP_IMMEDIATE \<noteq> 0)"
    "(convert_flags fl AND PG_LAZY \<noteq> 0) = (fl AND MAP_RW \<noteq> 0 \<and> fl AND MAP_IMMEDIATE = 0)"
    unfolding simps flag_bits exe imm by (auto simp: bit_simps bit_flag)
  show "convert_flags fl AND PHYS_ADDR_MASK = 0"
    unfolding simps flag_bits phys_addr_mask_alt
    by (rule bit_word_eqI) (auto simp: bit_simps bit_flag)
qed

text \<open>
  The hardware flags of \<open>convert_flags\<close>. Every mapping is present; it is executable exactly
  with \<open>MAP_EXE\<close> and open to user code exactly with \<open>MAP_USER\<close>; it is writable at once only with \<open>MAP_RW\<close>
  and \<open>MAP_IMMEDIATE\<close>, lazy only with \<open>MAP_RW\<close> alone, never both; and no bit of the physical address is set.
\<close>

theorem convert_flags_correct:
  "convert_flags fl AND PG_PRESENT \<noteq> 0 \<and> (convert_flags fl AND PG_NX \<noteq> 0) = (fl AND MAP_EXE = 0) \<and>
   (convert_flags fl AND PG_USER \<noteq> 0) = (fl AND MAP_USER \<noteq> 0) \<and>
   (convert_flags fl AND PG_RW \<noteq> 0) = (fl AND MAP_RW \<noteq> 0 \<and> fl AND MAP_IMMEDIATE \<noteq> 0) \<and>
   (convert_flags fl AND PG_LAZY \<noteq> 0) = (fl AND MAP_RW \<noteq> 0 \<and> fl AND MAP_IMMEDIATE = 0) \<and>
   convert_flags fl AND PHYS_ADDR_MASK = 0"
  using convert_flags_bits [of fl] by blast

section \<open>Mapping a page\<close>

text \<open>
  Property C17: \<open>map_page\<close> maps the page. With tables for \<open>va\<close> down to some level and enough free frames
  for the missing ones, it succeeds, takes exactly those frames from the allocator and keeps the
  allocator's invariant; every address of the page then translates to the frame, writable as the flags say;
  and every other mapped address whose walk reads no free frame, no window entry and not the leaf that is
  replaced keeps its translation.
\<close>

theorem map_page_correct:
  assumes "frames_avail s fs" "pt_path (window_cells s \<union> frame_cells fs) s n va" "3 - n \<le> length fs"
    and "page_addr physical" "va AND 0xFFF = 0" "flags AND PHYS_ADDR_MASK = 0" "flags AND PG_PRESENT \<noteq> 0"
    and "n = 4 \<longrightarrow> cell_at s 3 va \<notin> window_tables s"
  shows "\<exists>s'. map_page va physical flags s = Inr ((), s') \<and> frames_avail s' (drop (3 - n) fs) \<and>
    (\<forall>off < 4096. translate s' (va + off) = Some (physical + off, flags AND PG_RW \<noteq> 0)) \<and>
    (\<forall>a. translate s a \<noteq> None \<longrightarrow> path_of s a \<inter> (window_cells s \<union> frame_cells fs) = {} \<longrightarrow>
      (n = 4 \<longrightarrow> cell_at s 3 va \<notin> path_of s a) \<longrightarrow> translate s' a = translate s a)"
proof -
  let ?X = "window_cells s \<union> frame_cells (take (3 - n) fs) \<union> {cell_at s (min n 3) va}"
  obtain s' where s': "map_page_from get_frame va physical flags s = Inr ((), s')" "frames_avail s' (drop (3 - n) fs)"
      "tables_ok s' 3 va" "entry_at s' 3 va = physical OR flags" "preserves ?X s s'"
    using frames.map_page_from_ok [OF assms(1-3,5) page_addr_page [OF assms(4)], of flags] assms(8) by blast
  note leaf = leaf_entry [OF assms(4,6), folded s'(4)]
  have "translate s' (va + off) = Some (physical + off, flags AND PG_RW \<noteq> 0)" if "off < 4096" for off
    using translate_in_page [OF s'(3) _ assms(5) that] leaf assms(7) by simp
  moreover have "translate s' a = translate s a"
    if a: "translate s a \<noteq> None" "path_of s a \<inter> (window_cells s \<union> frame_cells fs) = {}"
      "n = 4 \<longrightarrow> cell_at s 3 va \<notin> path_of s a" for a
  proof (rule translate_preserved [OF s'(5) a(1)])
    fix p assume p: "p \<in> path_of s a" "p \<in> ?X"
    have "frame_cells (take (3 - n) fs) \<subseteq> frame_cells fs" by (rule frame_cells_mono) (rule set_take_subset)
    then have "p = cell_at s (min n 3) va" using p a(2) by blast
    then have "n \<noteq> 4" and pe: "p = cell_at s (min n 3) va" using a(3) p(1) by auto
    then show "phys s p AND PG_PRESENT = 0"
      using assms(2) by (auto simp: pt_path_iff present_levels_def entry_at_def)
  qed
  ultimately show ?thesis using s'(1,2) by (intro exI [of _ s']) (simp add: map_page_def)
qed

section \<open>Writes to lazy pages\<close>

text \<open>
  Property C19: a write fault on a lazy page gives the page a cleared frame of its own. The handler takes
  the next free frame, puts it into the entry with write access and without the lazy mark, and returns
  without the general exception handler; the page reads as zeros afterwards, and the allocator's invariant
  holds with that frame taken.
\<close>

theorem lazy_page_fault_correct:
  assumes "frames_avail s (f # fs)" "pt_path (window_cells s \<union> frame_cells (f # fs)) s 4 va"
    and "cell_at s 3 va \<notin> window_tables s" "entry_at s 3 va AND PG_LAZY \<noteq> 0"
    and "error_code AND PF_PROT_VIOLATION \<noteq> 0" "error_code AND PF_WRITE \<noteq> 0"
  shows "\<exists>s'. page_fault_handler get_frame generic va error_code s = Inr ((), s') \<and> frames_avail s' fs \<and>
    translate s' va = Some (f + (va AND 0xFFF), True) \<and> entry_at s' 3 va AND PG_LAZY = 0 \<and>
    (\<forall>p. in_frame f p \<longrightarrow> phys s' p = 0)"
proof -
  obtain s' where s': "page_fault_handler get_frame generic va error_code s = Inr ((), s')" "frames_avail s' fs"
      "tables_ok s' 3 va" "entry_at s' 3 va = f OR ((entry_at s 3 va AND NOT (PHYS_ADDR_MASK OR PG_LAZY)) OR PG_RW)"
      "\<forall>p. in_frame f p \<longrightarrow> phys s' p = 0"
    using frames.lazy_fault_ok [OF assms] by blast
  have f: "page_addr f" using frames.avail_frame [OF assms(1)] by simp
  have "entry_at s 3 va AND PG_PRESENT \<noteq> 0"
    using assms(2) present_levels_below [of s 4 va 3] by (simp add: pt_path_iff)
  note leaf = unlazy_entry [OF f this, folded s'(4)]
  have "translate s' va = Some (f + (va AND 0xFFF), True)"
    using translate_page [OF s'(3) leaf(2)] leaf(1,3) by simp
  then show ?thesis using s' leaf(4) by blast
qed

section \<open>Unmapping\<close>

lemma refcount_mask: "PG_REFCOUNT_MASK = push_bit 52 (mask 10)"
  by (simp add: PG_REFCOUNT_MASK_def mask_eq_exp_minus_1)

lemma decrease_counter_eq:
  assumes "self_mapped s" "tables_ok s k va" "k \<le> 3"
    and self: "cell_at s k va \<noteq> self_cell s" "\<And>j. j < k \<Longrightarrow> cell_at s j va \<noteq> cell_at s k va"
  shows "decrease_counter (pte_ptr k va) s
    = Inr (drop_bit PG_REFCOUNT_OFFSET ((entry_at s k va - push_bit PG_REFCOUNT_OFFSET 1) AND PG_REFCOUNT_MASK),
        s\<lparr>phys := (phys s)(cell_at s k va := entry_at s k va - push_bit PG_REFCOUNT_OFFSET 1)\<rparr>)"
proof -
  define v where "v = entry_at s k va - push_bit PG_REFCOUNT_OFFSET 1"
  define s1 where "s1 = s\<lparr>phys := (phys s)(cell_at s k va := v)\<rparr>"
  have p: "preserves {} s s1" using same_entry_counter(2) by (simp add: preserves_def s1_def v_def entry_at_def)
  have c: "cell_at s1 k va = cell_at s k va" by (rule cells_preserved [OF p]) simp
  have ok: "self_mapped s1" "tables_ok s1 k va"
    using self_mapped_preserved [OF p] tables_ok_preserved [OF p, of k va] assms(1,2) by auto
  have "entry_at s1 k va = v" unfolding entry_at_def c by (simp add: s1_def)
  then have load1: "vload (pte_ptr k va) s1 = Inr (v, s1)" using vload_pte_ptr [OF ok assms(3)] by simp
  have load: "vload (pte_ptr k va) s = Inr (entry_at s k va, s)" by (rule vload_pte_ptr [OF assms(1-3)])
  have store: "vstore (pte_ptr k va) v s = Inr ((), s1)" using vstore_pte_ptr [OF assms(1-3)] by (simp add: s1_def)
  show ?thesis
    by (simp only: decrease_counter_def bindS_apply thenS_apply load v_def [symmetric] store bindE_Inr prod.case load1
        s1_def [symmetric] returnS_apply)
qed

text \<open>
  The bits 52 to 61 hold the count, bit 63 forbids the execution of code. Counting up and down keeps that bit, but
  counting down from 0 borrows from the bits above and sets it.
\<close>

lemma nx_unat: "e AND PG_NX = 0 \<longleftrightarrow> unat e < 2 ^ 63"
proof -
  have "bit e 63 \<longleftrightarrow> bit (unat e) 63" by (simp add: bit_unsigned_iff)
  then have "bit e 63 \<longleftrightarrow> odd (unat e div 2 ^ 63)" by (simp only: bit_iff_odd)
  moreover have "unat e div 2 ^ 63 < 2" using unat_less_u64 [of e] by (simp add: div_less_iff_less_mult)
  then have "odd (unat e div 2 ^ 63) \<longleftrightarrow> 2 ^ 63 \<le> unat e" by (cases "unat e div 2 ^ 63 = 0") (auto simp: div_eq_0_iff not_less)
  moreover have "e AND PG_NX = 0 \<longleftrightarrow> \<not> bit e 63" using flag_bits(5) [of e] by blast
  ultimately show ?thesis by auto
qed

lemma nx_same: "e AND PG_NX = e' AND PG_NX \<longleftrightarrow> (unat e < 2 ^ 63 \<longleftrightarrow> unat e' < 2 ^ 63)"
proof -
  have "w AND PG_NX = (if bit w 63 then PG_NX else 0)" for w
    by (rule bit_word_eqI) (auto simp: bit_and_iff bit_flag(5))
  then have "e AND PG_NX = e' AND PG_NX \<longleftrightarrow> (e AND PG_NX = 0 \<longleftrightarrow> e' AND PG_NX = 0)" by (auto simp: PG_NX_def)
  then show ?thesis by (simp only: nx_unat)
qed

lemma unat_count: "unat (push_bit PG_REFCOUNT_OFFSET 1 :: u64) = 2 ^ 52"
  by (simp add: PG_REFCOUNT_OFFSET_def)

lemma count_up_executable:
  assumes "unat e + c * 2 ^ 52 < 2 ^ 63"
  shows "(e + of_nat c * push_bit PG_REFCOUNT_OFFSET 1) AND PG_NX = 0"
proof -
  have c: "c < 2 ^ 11" using assms by simp
  then have "unat (of_nat c :: u64) = c" by (intro unat_of_nat_u64) simp
  then have "unat (e + of_nat c * push_bit PG_REFCOUNT_OFFSET 1) = (unat e + c * 2 ^ 52 mod 2 ^ 64) mod 2 ^ 64"
    by (simp only: unat_word_ariths unat_count) simp
  also have "\<dots> = unat e + c * 2 ^ 52" using assms by simp
  finally show ?thesis using assms by (simp only: nx_unat)
qed

lemma count_down_unat:
  fixes e :: u64
  assumes "2 ^ 52 \<le> unat e"
  shows "unat (e - push_bit PG_REFCOUNT_OFFSET 1) = unat e - 2 ^ 52"
proof -
  have "push_bit PG_REFCOUNT_OFFSET 1 \<le> e" using assms by (simp only: word_le_nat_alt unat_count)
  then show ?thesis by (simp only: unat_sub unat_count)
qed

lemma refcount_zero: "e AND PG_REFCOUNT_MASK = 0 \<longleftrightarrow> unat e div 2 ^ 52 mod 1024 = 0"
proof -
  have mask: "e AND PG_REFCOUNT_MASK = push_bit 52 (take_bit 10 (drop_bit 52 e))"
    unfolding refcount_mask by (rule bit_word_eqI) (auto simp: bit_simps)
  have "unat (take_bit 10 (drop_bit 52 e)) = unat e div 2 ^ 52 mod 1024"
    by (simp add: unsigned_take_bit_eq take_bit_nat_def unat_drop_bit_eq drop_bit_nat_def)
  moreover have "drop_bit 52 (push_bit 52 (take_bit 10 x)) = take_bit 10 x" for x :: u64
    by (rule bit_word_eqI) (auto simp: bit_simps)
  then have "push_bit 52 (take_bit 10 (drop_bit 52 e)) = 0 \<longleftrightarrow> take_bit 10 (drop_bit 52 e) = 0"
    by (metis drop_bit_of_0 push_bit_of_0)
  ultimately show ?thesis unfolding mask by (metis unat_eq_zero)
qed

lemma count_down_executable:
  assumes "e AND PG_REFCOUNT_MASK \<noteq> 0"
  shows "(e - push_bit PG_REFCOUNT_OFFSET 1) AND PG_NX = e AND PG_NX"
proof -
  define q where "q = unat e div 2 ^ 52"
  have q: "q mod 1024 \<noteq> 0" using assms unfolding refcount_zero q_def .
  then have "1 \<le> q" "q \<noteq> 2048" by (cases "q = 0"; auto)+
  moreover from this have "2 ^ 52 \<le> unat e" unfolding q_def by (metis div_less less_one not_less)
  moreover have "unat e < 2 ^ 63 \<longleftrightarrow> q < 2048" unfolding q_def by (simp add: div_less_iff_less_mult)
  moreover have "unat e - 2 ^ 52 < 2 ^ 63 \<longleftrightarrow> unat e < 2049 * 2 ^ 52" using calculation(3) by auto
  moreover have "unat e < 2049 * 2 ^ 52 \<longleftrightarrow> q < 2049" unfolding q_def by (simp add: div_less_iff_less_mult)
  ultimately show ?thesis by (simp only: nx_same count_down_unat) linarith
qed

lemma count_borrow:
  assumes "unat e < 2 ^ 52"
  shows "(e - push_bit PG_REFCOUNT_OFFSET 1) AND PG_NX \<noteq> 0"
proof -
  have "e - push_bit PG_REFCOUNT_OFFSET 1 = e + of_nat (2 ^ 64 - 2 ^ 52)" by (simp add: PG_REFCOUNT_OFFSET_def)
  moreover have "unat (e + of_nat (2 ^ 64 - 2 ^ 52)) = (unat e + (2 ^ 64 - 2 ^ 52)) mod 2 ^ 64"
    by (simp add: unat_word_ariths)
  moreover have "\<dots> = unat e + (2 ^ 64 - 2 ^ 52)" using assms by simp
  ultimately have "unat (e - push_bit PG_REFCOUNT_OFFSET 1) = unat e + (2 ^ 64 - 2 ^ 52)" by (simp only:)
  then show ?thesis by (simp only: nx_unat) simp
qed

lemma entries_without_leaf: "(map (\<lambda>k. pte_ptr k va) [0..<4])[3 := 0] ! 2 = pte_ptr 2 va"
  using entries_nth [of va] by simp

text \<open>
  \<open>unmap_page\<close> while other pages use the same page table: it returns the frame of the leaf and lowers the
  count of the table, nothing else.
\<close>

lemma unmap_page_counted:
  assumes path: "pt_path {} s n va" "3 \<le> n" and va: "va AND 0xFFF = 0"
    and count: "(entry_at s 2 va - push_bit PG_REFCOUNT_OFFSET 1) AND PG_REFCOUNT_MASK \<noteq> 0"
  shows "unmap_page va fl s = Inr (entry_at s 3 va AND PHYS_ADDR_MASK,
    s\<lparr>phys := (phys s)(cell_at s 2 va := entry_at s 2 va - push_bit PG_REFCOUNT_OFFSET 1)\<rparr>)"
proof -
  have "min n 3 = 3" using path(2) by simp
  then have pre: "self_mapped s" "present_levels s n va" "tables_ok s 3 va" "cell_at s 2 va \<noteq> self_cell s"
      "\<And>j. j < 2 \<Longrightarrow> cell_at s j va \<noteq> cell_at s 2 va"
    using path(1) by (auto simp: pt_path_iff present_levels_def)
  have "tables_ok s 2 va" using pre(3) by (simp add: tables_ok_def)
  note dec = decrease_counter_eq [OF pre(1) this _ pre(4,5), simplified]
  define w where "w = entry_at s 2 va - push_bit PG_REFCOUNT_OFFSET 1"
  have "drop_bit PG_REFCOUNT_OFFSET (w AND PG_REFCOUNT_MASK) \<noteq> 0"
  proof
    assume zero: "drop_bit PG_REFCOUNT_OFFSET (w AND PG_REFCOUNT_MASK) = 0"
    have "w AND PG_REFCOUNT_MASK = push_bit 52 (drop_bit 52 (w AND PG_REFCOUNT_MASK))"
      unfolding refcount_mask by (rule bit_word_eqI) (auto simp: bit_simps)
    also have "drop_bit 52 (w AND PG_REFCOUNT_MASK) = 0" using zero by (simp only: PG_REFCOUNT_OFFSET_def)
    finally show False using count by (simp only: w_def push_bit_of_0 simp_thms)
  qed
  then have clean: "clean_pts e s = Inr ((), s\<lparr>phys := (phys s)(cell_at s 2 va := w)\<rparr>)"
    if "entries e ! 2 = pte_ptr 2 va" for e
    using dec that by (simp only: w_def clean_pts_def clean_pts_from.simps bindS_apply bindE_Inr prod.case if_True returnS_apply)
      simp
  have "entries e ! 2 = pte_ptr 2 va" if "entries e = (map (\<lambda>k. pte_ptr k va) [0..<4])[3 := 0]" for e
    using that entries_without_leaf [of va] by (simp only:)
  note clean = clean [OF this]
  have "map (\<lambda>k. pte_ptr k va) [0..<4] ! 3 = pte_ptr 3 va" by simp
  then show ?thesis
    using ptes_result [OF pre(1,2)] vload_pte_ptr [OF pre(1,3)] va
    by (simp add: unmap_page_def bindS_apply thenS_apply Let_def mod_4096 clean w_def del: upt_Suc)
qed

text \<open>
  Property C20: unmapping is the inverse of mapping as far as the frame and the count of the page table
  go, but the page stays mapped. \<open>map_page\<close> followed by \<open>unmap_page\<close> on a page whose table exists and has
  other users returns the frame that was mapped and leaves memory as it was before both, except for the
  leaf entry, which \<open>unmap_page\<close> does not clear.
\<close>

theorem map_unmap_page:
  assumes "pt_path {} s 3 va" "va AND 0xFFF = 0" "page_addr physical" "flags AND PHYS_ADDR_MASK = 0"
    and "entry_at s 2 va AND PG_REFCOUNT_MASK \<noteq> 0"
  shows "thenS (map_page va physical flags) (unmap_page va 0) s
    = Inr (physical, s\<lparr>phys := (phys s)(cell_at s 3 va := physical OR flags)\<rparr>)"
proof -
  let ?c = "\<lambda>k. cell_at s k va" and ?one = "push_bit PG_REFCOUNT_OFFSET 1 :: u64"
  have pre: "self_mapped s" "present_levels s 3 va" "tables_ok s 3 va" "\<And>k. k \<le> 3 \<Longrightarrow> ?c k \<noteq> self_cell s"
      "\<And>j k. j < k \<Longrightarrow> k \<le> 3 \<Longrightarrow> ?c j \<noteq> ?c k"
    using assms(1) by (auto simp: pt_path_iff present_levels_def)
  have tab2: "tables_ok s 2 va" using pre(3) by (simp add: tables_ok_def)
  define s1 where "s1 = s\<lparr>phys := (phys s)(?c 2 := entry_at s 2 va + ?one)\<rparr>"
  define s2 where "s2 = s1\<lparr>phys := (phys s1)(?c 3 := physical OR flags)\<rparr>"
  have p1: "preserves {} s s1" using same_entry_counter(1) by (simp add: preserves_def s1_def entry_at_def)
  have c1: "cell_at s1 k va = ?c k" for k by (rule cells_preserved [OF p1]) simp
  have ok1: "self_mapped s1" "tables_ok s1 3 va"
    using self_mapped_preserved [OF p1] tables_ok_preserved [OF p1, of 3 va] pre(1,3) by auto
  have inc: "increase_counter (pte_ptr 2 va) s = Inr ((), s1)"
    using increase_counter_eq [OF pre(1) tab2] by (simp add: s1_def)
  have store: "vstore (pte_ptr 3 va) (physical OR flags) s1 = Inr ((), s2)"
    using vstore_pte_ptr [OF ok1] by (simp add: c1 s2_def)
  have p2: "preserves {?c 3} s1 s2" by (simp add: preserves_def s2_def)
  have c2: "cell_at s2 k va = ?c k" if "k \<le> 3" for k
    using cells_preserved [OF p2, of k va] pre(5) that by (simp add: c1)
  have "cr3 s1 = cr3 s" by (simp add: s1_def)
  then have ok2: "self_mapped s2" "tables_ok s2 3 va"
    using self_mapped_preserved [OF p2] tables_ok_preserved [OF p2, of 3 va] ok1 pre(4) [of 3] pre(5)
    by (auto simp: c1 [unfolded \<open>cr3 s1 = cr3 s\<close>])
  have run: "map_page va physical flags s = Inr ((), s2)"
    using ptes_result [OF pre(1,2)] inc store assms(2) page_addr_page [OF assms(3)] mask_bit [of 3 2] mask_bit [of 3 3]
    by (simp add: map_page_def map_page_from_def bindS_apply thenS_apply mod_4096 entries_nth del: upt_Suc)
  define n where "n = (if (physical OR flags) AND PG_PRESENT = 0 then 3 else 4 :: nat)"
  have leaf: "entry_at s2 3 va = physical OR flags" and e2: "entry_at s2 2 va = entry_at s 2 va + ?one"
    unfolding entry_at_def by (simp_all add: c2) (simp_all add: s2_def s1_def entry_at_def pre(5))
  have "present_levels s2 n va" using ok2(2) leaf by (simp add: present_levels_def n_def)
  moreover have "min n 3 = 3" "3 \<le> n" by (simp_all add: n_def)
  moreover have "cr3 s2 = cr3 s" by (simp add: s2_def s1_def)
  ultimately have path2: "pt_path {} s2 n va" using ok2(1) pre(4,5) by (simp add: pt_path_iff c2 [unfolded \<open>cr3 s2 = cr3 s\<close>])
  have "(physical OR flags) AND PHYS_ADDR_MASK = physical" by (rule leaf_entry [OF assms(3,4)])
  moreover have "(phys s2)(?c 2 := entry_at s 2 va) = (phys s)(?c 3 := physical OR flags)"
    using pre(5) [of 2 3] by (simp add: s2_def s1_def fun_eq_iff entry_at_def)
  moreover have "s2\<lparr>phys := m\<rparr> = s\<lparr>phys := m\<rparr>" for m by (simp add: s2_def s1_def)
  ultimately show ?thesis
    using run unmap_page_counted [OF path2 \<open>3 \<le> n\<close> assms(2)] assms(5) by (simp add: thenS_apply leaf e2 c2)
qed

section \<open>Examples\<close>

text \<open>The example kernel after the initialisation of the allocator; the window entries are the first two leaves.\<close>

lemma example_paging:
  obtains s fs where "frames_avail s fs" "length fs = 4" "set fs = {0x101000, 0x102000, 0x103000, 0x104000}"
    "phys s = (phys example_kernel)(0x4000 := 3)" "cr3 s = 0x1000" "window_cells s = {0x4000, 0x4008}"
    "window_tables s = {0x1FF0, 0x1FF8, 0x2FF0, 0x3000}" "k_zero_page s = 0"
proof -
  obtain s fs where s: "frames_inv s [] fs {}" "set fs = {0x101000, 0x102000, 0x103000, 0x104000}"
      "s = example_kernel\<lparr>phys := (phys example_kernel)(window_cell example_kernel := 3), k_fa := k_fa s\<rparr>"
    using initialize_frame_allocation_ok [OF example_windows(1) example_map(2,3) example_init_prems]
    by (auto simp: example_map(5) example_frames)
  have "distinct fs" using s(1) by (simp add: frames_inv_def owner_inv_def)
  then have len: "length fs = 4" using distinct_card [of fs] s(2) by simp
  have phys: "phys s = (phys example_kernel)(0x4000 := 3)" and cr3: "cr3 s = 0x1000"
    by (subst s(3), simp add: example_windows(2) example_phys)+
  have zero: "k_zero_page s = 0" by (subst s(3), simp add: example_kernel_def)
  have "windows_ok example_kernel" by (rule example_windows)
  have "window_cells s = {0x4000, 0x4008}"
    by (simp add: window_cells_def zero_cell_eq window_cell_def phys cr3 entry_cell_simps example_kernel_def pt_index_def
        PHYS_ADDR_MASK_def FRAME_WINDOW_def)
  moreover have "window_tables s = {0x1FF0, 0x1FF8, 0x2FF0, 0x3000}"
    by (simp add: window_tables_alt phys cr3 entry_cell_simps example_kernel_def pt_index_def
        PHYS_ADDR_MASK_def FRAME_WINDOW_def)
  moreover have "frames_avail s fs" using s(1) by (force simp: frames_avail_def)
  ultimately show thesis using that len s(2) phys cr3 zero by blast
qed

lemma in_frame_low: "in_frame f p \<Longrightarrow> f \<le> p"
proof -
  assume "in_frame f p"
  moreover have "p AND NOT 0xFFF \<le> p" by (rule word_and_le2)
  ultimately show ?thesis by (simp only: in_frame_def)
qed

lemma example_frame_cells:
  assumes "set fs \<subseteq> {0x101000, 0x102000, 0x103000, 0x104000}" "p < 0x101000"
  shows "p \<notin> frame_cells fs"
proof
  assume "p \<in> frame_cells fs"
  then obtain f where f: "f \<in> {0x101000, 0x102000, 0x103000, 0x104000}" "f \<le> p"
    using assms(1) in_frame_low [of _ p] unfolding frame_cells_def by blast
  then have "(0x101000 :: u64) \<le> f" by auto
  then show False using f(2) assms(2) by (meson less_le_not_le order_trans)
qed

text \<open>The cells of the page \<open>0xFFFFFFFF80002000\<close>, whose tables exist, and of the page at 0, without any.\<close>

lemma example_leaf_cells:
  assumes "phys s = (phys example_kernel)(0x4000 := 3, 0x4010 := e)" "cr3 s = 0x1000"
  shows "cell_at s 0 0xFFFFFFFF80002000 = 0x1FF8" "cell_at s (Suc 0) 0xFFFFFFFF80002000 = 0x2FF0"
    "cell_at s 2 0xFFFFFFFF80002000 = 0x3000" "cell_at s 3 0xFFFFFFFF80002000 = 0x4010"
    "cell_at s 0 0 = 0x1000" "entry_at s 0 0 = 0" "self_mapped s" "tables_ok s 3 0xFFFFFFFF80002000"
    "entry_at s 3 0xFFFFFFFF80002000 = e"
proof -
  note simps = assms entry_cell_simps example_kernel_def pt_index_def PHYS_ADDR_MASK_def
  show cells: "cell_at s 0 0xFFFFFFFF80002000 = 0x1FF8" "cell_at s (Suc 0) 0xFFFFFFFF80002000 = 0x2FF0"
    "cell_at s 2 0xFFFFFFFF80002000 = 0x3000" "cell_at s 3 0xFFFFFFFF80002000 = 0x4010" "cell_at s 0 0 = 0x1000"
    by (simp_all add: simps)
  note flags = table_entry_def PG_PRESENT_def PG_RW_def PG_HUGE_def
  show "self_mapped s" by (simp add: self_mapped_def flags simps)
  show "tables_ok s 3 0xFFFFFFFF80002000" unfolding tables_ok_3 entry_at_def cells by (simp add: assms example_kernel_def flags)
  show "entry_at s 0 0 = 0" "entry_at s 3 0xFFFFFFFF80002000 = e"
    unfolding entry_at_def cells by (simp_all add: assms example_kernel_def)
qed

lemma le_3:
  fixes k :: nat
  shows "k \<le> 3 \<longleftrightarrow> k = 0 \<or> k = Suc 0 \<or> k = 2 \<or> k = 3" "k < 3 \<longleftrightarrow> k = 0 \<or> k = Suc 0 \<or> k = 2"
    "k < 2 \<longleftrightarrow> k = 0 \<or> k = Suc 0"
  by auto

lemma example_pt_path:
  assumes "phys s = (phys example_kernel)(0x4000 := 3, 0x4010 := e)" "cr3 s = 0x1000"
    and "set fs \<subseteq> {0x101000, 0x102000, 0x103000, 0x104000}" "window_cells s = {0x4000, 0x4008}"
    and "n = (if e AND PG_PRESENT = 0 then 3 else 4)"
  shows "pt_path (window_cells s \<union> frame_cells fs) s n 0xFFFFFFFF80002000"
proof -
  note ex = example_leaf_cells [OF assms(1,2)]
  have "present_levels s n 0xFFFFFFFF80002000" using ex(8,9) assms(5) by (simp add: present_levels_def)
  moreover have "min n 3 = 3" using assms(5) by simp
  ultimately show ?thesis
    using ex(7) example_frame_cells [OF assms(3)]
    unfolding pt_path_iff by (auto simp: le_3 assms(2,4) ex [unfolded assms(2)])
qed

theorem map_page_correct_witness:
  "\<exists>s fs s'. frames_avail s fs \<and> length fs = 4 \<and> map_page 0 0x7000 (PG_PRESENT OR PG_RW) s = Inr ((), s') \<and>
    frames_avail s' (drop 3 fs) \<and> translate s' 0xFF8 = Some (0x7FF8, True)"
proof -
  obtain s fs where s: "frames_avail s fs" "length fs = 4" "set fs = {0x101000, 0x102000, 0x103000, 0x104000}"
    "phys s = (phys example_kernel)(0x4000 := 3)" "cr3 s = 0x1000" "window_cells s = {0x4000, 0x4008}"
    by (rule example_paging)
  have "phys s = (phys example_kernel)(0x4000 := 3, 0x4010 := 0)" by (simp add: s(4) example_kernel_def fun_eq_iff)
  note ex = example_leaf_cells [OF this s(5)]
  have "pt_path (window_cells s \<union> frame_cells fs) s 0 0"
    using ex example_frame_cells [of fs] by (auto simp: pt_path_iff present_levels_def tables_ok_def s ex [unfolded s(5)])
  from map_page_correct [OF s(1) this, of "0x7000" "PG_PRESENT OR PG_RW"] s(2)
  obtain s' where s': "map_page 0 0x7000 (PG_PRESENT OR PG_RW) s = Inr ((), s')" "frames_avail s' (drop 3 fs)"
      "\<forall>off < 4096. translate s' (0 + off) = Some (0x7000 + off, True)"
    by (auto simp: page_addr_def PHYS_ADDR_MASK_def PG_PRESENT_def PG_RW_def)
  then have "translate s' 0xFF8 = Some (0x7FF8, True)" using s'(3) [THEN spec, of "0xFF8"] by simp
  then show ?thesis using s(1,2) s'(1,2) by blast
qed

theorem lazy_page_fault_correct_witness:
  "\<exists>s f s'. page_fault_handler get_frame (failS Diverges) 0xFFFFFFFF80002000 3 s = Inr ((), s') \<and>
    translate s 0xFFFFFFFF80002000 = Some (0x9000, False) \<and> translate s' 0xFFFFFFFF80002000 = Some (f, True) \<and>
    phys s' f = 0"
proof -
  obtain s fs where s: "frames_avail s fs" "length fs = 4" "set fs = {0x101000, 0x102000, 0x103000, 0x104000}"
    "phys s = (phys example_kernel)(0x4000 := 3)" "cr3 s = 0x1000" "window_cells s = {0x4000, 0x4008}"
    "window_tables s = {0x1FF0, 0x1FF8, 0x2FF0, 0x3000}"
    by (rule example_paging)
  obtain f rest where fs: "fs = f # rest" using s(2) by (cases fs) auto
  let ?s = "s\<lparr>phys := (phys s)(0x4010 := 0x9201)\<rparr>" and ?page = "0xFFFFFFFF80002000 :: u64"
  have free: "0x4010 \<notin> frame_cells fs" by (rule example_frame_cells) (simp_all add: s(3))
  have av: "frames_avail ?s fs" "window_cells ?s = {0x4000, 0x4008}" "window_tables ?s = {0x1FF0, 0x1FF8, 0x2FF0, 0x3000}"
    using frames.avail_store [OF s(1), of "0x4010" "0x9201"] free by (simp_all add: s(6,7))
  have mem: "phys ?s = (phys example_kernel)(0x4000 := 3, 0x4010 := 0x9201)" "cr3 ?s = 0x1000" by (simp_all add: s(4,5))
  note ex = example_leaf_cells [OF mem]
  have flags: "(0x9201 :: u64) AND PG_PRESENT \<noteq> 0" "(0x9201 :: u64) AND PG_LAZY \<noteq> 0" "(0x9201 :: u64) AND PG_RW = 0"
    by (simp_all add: PG_PRESENT_def PG_LAZY_def PG_RW_def)
  have path: "pt_path (window_cells ?s \<union> frame_cells fs) ?s 4 ?page"
    by (rule example_pt_path [OF mem _ av(2)]) (simp_all add: s(3) flags)
  have before: "translate ?s ?page = Some (0x9000, False)"
    using translate_page [OF ex(8)] unfolding ex(9) using flags by (simp add: PHYS_ADDR_MASK_def)
  have leaf: "cell_at ?s 3 ?page \<notin> window_tables ?s" "entry_at ?s 3 ?page AND PG_LAZY \<noteq> 0"
    unfolding av(3) ex(4,9) using flags by simp_all
  have code: "(3 :: u64) AND PF_PROT_VIOLATION \<noteq> 0" "(3 :: u64) AND PF_WRITE \<noteq> 0"
    by (simp_all add: PF_PROT_VIOLATION_def PF_WRITE_def)
  obtain s' where s': "page_fault_handler get_frame (failS Diverges) ?page 3 ?s = Inr ((), s')"
      "translate s' ?page = Some (f + (?page AND 0xFFF), True)" "\<forall>p. in_frame f p \<longrightarrow> phys s' p = 0"
    using lazy_page_fault_correct [OF av(1)[unfolded fs] path[unfolded fs] leaf code] by blast
  have "page_addr f" using frames.avail_frame [OF s(1), of f] by (simp add: fs)
  then have "in_frame f (f + 0)" by (intro in_frame_add page_addr_page) simp_all
  then have "phys s' f = 0" using s'(3) by simp
  moreover have "translate s' ?page = Some (f, True)" using s'(2) by simp
  ultimately show ?thesis using s'(1) before by blast
qed

lemma example_counted:
  assumes "phys s = (phys example_kernel)(0x3000 := 0x10000000004003, 0x4010 := e)" "cr3 s = 0x1000"
  shows "cell_at s 0 0xFFFFFFFF80002000 = 0x1FF8" "cell_at s (Suc 0) 0xFFFFFFFF80002000 = 0x2FF0"
    "cell_at s 2 0xFFFFFFFF80002000 = 0x3000" "cell_at s 3 0xFFFFFFFF80002000 = 0x4010"
    "self_mapped s" "tables_ok s 3 0xFFFFFFFF80002000" "entry_at s 2 0xFFFFFFFF80002000 = 0x10000000004003"
    "entry_at s 3 0xFFFFFFFF80002000 = e"
proof -
  note simps = assms entry_cell_simps example_kernel_def pt_index_def PHYS_ADDR_MASK_def
  show cells: "cell_at s 0 0xFFFFFFFF80002000 = 0x1FF8" "cell_at s (Suc 0) 0xFFFFFFFF80002000 = 0x2FF0"
    "cell_at s 2 0xFFFFFFFF80002000 = 0x3000" "cell_at s 3 0xFFFFFFFF80002000 = 0x4010"
    by (simp_all add: simps)
  note flags = table_entry_def PG_PRESENT_def PG_RW_def PG_HUGE_def
  show "self_mapped s" by (simp add: self_mapped_def flags simps)
  show "tables_ok s 3 0xFFFFFFFF80002000" unfolding tables_ok_3 entry_at_def cells by (simp add: assms example_kernel_def flags)
  show "entry_at s 2 0xFFFFFFFF80002000 = 0x10000000004003" "entry_at s 3 0xFFFFFFFF80002000 = e"
    unfolding entry_at_def cells by (simp_all add: assms)
qed

theorem map_unmap_page_witness:
  "\<exists>s s'. thenS (map_page 0xFFFFFFFF80002000 0x7000 3) (unmap_page 0xFFFFFFFF80002000 0) s = Inr (0x7000, s') \<and>
    translate s' 0xFFFFFFFF80002000 = Some (0x7000, True)"
proof -
  let ?va = "0xFFFFFFFF80002000 :: u64" and ?m = "(phys example_kernel)(0x3000 := 0x10000000004003)"
  define s where "s = example_kernel\<lparr>phys := ?m\<rparr>"
  have "?m = ?m(0x4010 := 0)" by (simp add: example_kernel_def fun_eq_iff)
  then have mem: "phys s = (phys example_kernel)(0x3000 := 0x10000000004003, 0x4010 := 0)" "cr3 s = 0x1000"
    by (simp_all add: s_def example_phys)
  note ex = example_counted [OF mem]
  have path: "pt_path {} s 3 ?va"
    using ex(5,6,8) unfolding pt_path_iff present_levels_def by (auto simp: le_3 mem(2) ex [unfolded mem(2)])
  have count: "entry_at s 2 ?va AND PG_REFCOUNT_MASK \<noteq> 0" unfolding ex(7) by (simp add: PG_REFCOUNT_MASK_def)
  let ?s = "s\<lparr>phys := (phys s)(0x4010 := 0x7003)\<rparr>"
  have run: "thenS (map_page ?va 0x7000 3) (unmap_page ?va 0) s = Inr (0x7000, ?s)"
    using map_unmap_page [OF path _ _ _ count, of "0x7000" 3] unfolding ex(4)
    by (simp add: page_addr_def PHYS_ADDR_MASK_def)
  have "phys ?s = (phys example_kernel)(0x3000 := 0x10000000004003, 0x4010 := 0x7003)" "cr3 ?s = 0x1000"
    by (simp_all add: mem)
  note ex' = example_counted [OF this]
  have "translate ?s ?va = Some (0x7000, True)"
    using translate_page [OF ex'(6)] unfolding ex'(8) by (simp add: PHYS_ADDR_MASK_def PG_PRESENT_def PG_RW_def)
  then show ?thesis using run by blast
qed

end
