(* ===== verification/Map_Range.thy ===== *)
theory Map_Range imports Pages_Spec begin

text \<open>
  Mapping a range of pages, \<open>map_range\<close> of \<open>mm/pages.c\<close>. The page tables of a set of pages form a tree: two pages
  share an entry exactly when they agree in the indices down to it. A new table extends the tree for all the pages
  below it at once, so the frames a range needs are counted by the tables that are missing, not by its pages.
\<close>

section \<open>Pages that share tables\<close>

text \<open>The indices of the first \<open>k\<close> steps of the walk for an address.\<close>

definition indices :: "nat \<Rightarrow> addr \<Rightarrow> u64 list" where
  "indices k va = map (\<lambda>j. pt_index (4 - j) va) [0..<k]"

lemma indices_Suc: "indices (Suc k) va = indices k va @ [pt_index (4 - k) va]"
  by (simp add: indices_def)

lemma length_indices [simp]: "length (indices k va) = k"
  by (simp add: indices_def)

lemma indices_length: "indices j va = indices k vb \<Longrightarrow> j = k"
  by (metis length_indices)

lemma take_indices: "j \<le> k \<Longrightarrow> take j (indices k va) = indices j va"
  by (simp add: indices_def take_map)

lemma indices_below: "indices k va = indices k vb \<Longrightarrow> j \<le> k \<Longrightarrow> indices j va = indices j vb"
  by (metis take_indices)

lemma cell_indices: "indices (Suc k) va = indices (Suc k) vb \<Longrightarrow> entry_cell m c k va = entry_cell m c k vb"
proof (induction k)
  case 0
  then show ?case by (simp add: indices_def entry_cell_def)
next
  case (Suc k)
  then have "entry_cell m c k va = entry_cell m c k vb" "pt_index (4 - Suc k) va = pt_index (4 - Suc k) vb"
    by (auto simp: indices_Suc)
  then show ?case by (simp only: entry_cell_Suc)
qed

lemma pt_index_inj: "8 * pt_index l va = 8 * pt_index l vb \<Longrightarrow> pt_index l va = pt_index l vb"
proof -
  have less: "unat (pt_index l v) < 512" for v
    using take_bit_nat_less_exp [of 9] by (simp add: pt_index_alt unsigned_take_bit_eq)
  have "unat (8 * pt_index l v) = 8 * unat (pt_index l v)" for v
    using unat_mult_u64 [of 8 "pt_index l v"] less [of v] by simp
  then show "8 * pt_index l va = 8 * pt_index l vb \<Longrightarrow> pt_index l va = pt_index l vb"
    by (metis mult_left_cancel numeral_eq_iff unat_eq_zero word_unat_eq_iff zero_neq_numeral)
qed

text \<open>
  \<open>lev\<close> gives for each page of \<open>V\<close> how many of its entries are present. All entries on the way lie outside \<open>X\<close>,
  and no two of them coincide but those that the pages share by their indices.
\<close>

definition page_tree :: "u64 set \<Rightarrow> kernel \<Rightarrow> (addr \<Rightarrow> nat) \<Rightarrow> addr set \<Rightarrow> bool" where
  "page_tree X s lev V \<longleftrightarrow> (\<forall>v \<in> V. pt_path X s (lev v) v) \<and>
     (\<forall>v \<in> V. \<forall>w \<in> V. \<forall>j \<le> min (lev v) 3. \<forall>k \<le> min (lev w) 3.
        cell_at s j v = cell_at s k w \<longrightarrow> indices (Suc j) v = indices (Suc k) w)"

definition tree_cells :: "kernel \<Rightarrow> (addr \<Rightarrow> nat) \<Rightarrow> addr set \<Rightarrow> u64 set" where
  "tree_cells s lev V = {cell_at s k v | k v. v \<in> V \<and> k \<le> min (lev v) 3}"

text \<open>The number of tables that are missing.\<close>

definition missing :: "(addr \<Rightarrow> nat) \<Rightarrow> addr set \<Rightarrow> nat" where
  "missing lev V = card {indices k v | k v. v \<in> V \<and> lev v < k \<and> k \<le> 3}"

lemma page_treeD:
  assumes "page_tree X s lev V"
  shows "v \<in> V \<Longrightarrow> pt_path X s (lev v) v"
    "v \<in> V \<Longrightarrow> w \<in> V \<Longrightarrow> j \<le> min (lev v) 3 \<Longrightarrow> k \<le> min (lev w) 3 \<Longrightarrow> cell_at s j v = cell_at s k w \<Longrightarrow>
      indices (Suc j) v = indices (Suc k) w"
  using assms unfolding page_tree_def by blast+

lemma page_tree_cells: "page_tree X s lev V \<Longrightarrow> tree_cells s lev V \<inter> X = {}"
  by (auto simp: page_tree_def tree_cells_def pt_path_iff)

lemma finite_missing: "finite V \<Longrightarrow> finite {indices k v | k v. v \<in> V \<and> lev v < k \<and> k \<le> 3}"
proof -
  assume "finite V"
  then have "finite ((\<lambda>(k, v). indices k v) ` ({..3} \<times> V))" by simp
  then show ?thesis by (rule rev_finite_subset) auto
qed

lemma pt_path_insert:
  assumes "pt_path X s n va" "self_cell s \<noteq> c" "\<And>k. k \<le> min n 3 \<Longrightarrow> cell_at s k va \<noteq> c"
  shows "pt_path (insert c X) s n va"
  using assms unfolding pt_path_iff by blast

lemma pt_path_extend:
  assumes "i < 3" "self_mapped s" "present_levels s (Suc i) v" "self_cell s \<notin> X"
    "\<And>k. k \<le> i \<Longrightarrow> cell_at s k v \<notin> X \<and> cell_at s k v \<noteq> self_cell s"
    "\<And>j k. j < k \<Longrightarrow> k \<le> i \<Longrightarrow> cell_at s j v \<noteq> cell_at s k v"
    "cell_at s (Suc i) v \<notin> X" "self_cell s \<noteq> cell_at s (Suc i) v" "\<And>k. k \<le> i \<Longrightarrow> cell_at s k v \<noteq> cell_at s (Suc i) v"
  shows "pt_path X s (Suc i) v"
proof -
  have "min (Suc i) 3 = Suc i" using assms(1) by simp
  moreover have "cell_at s k v \<notin> X \<and> cell_at s k v \<noteq> self_cell s" if "k \<le> Suc i" for k
    using assms(5,7,8) that by (cases "k = Suc i") auto
  moreover have "cell_at s j v \<noteq> cell_at s k v" if "j < k" "k \<le> Suc i" for j k
    using assms(6,9) that by (cases "k = Suc i") auto
  ultimately show ?thesis using assms(2-4) unfolding pt_path_iff by presburger
qed

section \<open>Growth of the tree\<close>

text \<open>
  What an operation may do: it takes the frames \<open>gs\<close>, changes the tree's entries and cells of \<open>R\<close>, keeps present
  entries as the walk sees them, and only the pages of \<open>M\<close> become mapped. The counts in the upper two levels grow by
  the number of the frames at most.
\<close>

definition table_counts :: "addr set \<Rightarrow> kernel \<Rightarrow> (addr \<Rightarrow> nat) \<Rightarrow> kernel \<Rightarrow> nat \<Rightarrow> bool" where
  "table_counts V s lev s' n \<longleftrightarrow> (\<forall>v \<in> V. \<forall>k < 2. k < lev v \<longrightarrow> cell_at s' k v = cell_at s k v \<and>
     (\<exists>c \<le> n. phys s' (cell_at s k v) = phys s (cell_at s k v) + of_nat c * push_bit PG_REFCOUNT_OFFSET 1))"

lemma table_counts_refl [simp]: "table_counts V s lev s n"
  unfolding table_counts_def by (auto intro: exI [of _ 0])

lemma table_countsI:
  assumes "\<And>v k. v \<in> V \<Longrightarrow> k < 2 \<Longrightarrow> k < lev v \<Longrightarrow> cell_at s' k v = cell_at s k v \<and> phys s' (cell_at s k v) = phys s (cell_at s k v)"
  shows "table_counts V s lev s' n"
  unfolding table_counts_def using assms by (auto intro: exI [of _ 0])

lemma table_counts_trans:
  assumes "table_counts V s lev s1 n" "table_counts V s1 lev1 s2 m" "\<And>v. v \<in> V \<Longrightarrow> lev v \<le> lev1 v"
  shows "table_counts V s lev s2 (n + m)"
  unfolding table_counts_def
proof (intro ballI allI impI)
  fix v and k :: nat
  assume v: "v \<in> V" "k < 2" "k < lev v"
  let ?p = "cell_at s k v"
  obtain c where c: "cell_at s1 k v = ?p" "c \<le> n" "phys s1 ?p = phys s ?p + of_nat c * push_bit PG_REFCOUNT_OFFSET 1"
    using assms(1) v unfolding table_counts_def by blast
  have "k < lev1 v" using assms(3) [OF v(1)] v(3) by simp
  then obtain d where d: "cell_at s2 k v = ?p" "d \<le> m" "phys s2 ?p = phys s1 ?p + of_nat d * push_bit PG_REFCOUNT_OFFSET 1"
    using assms(2) v(1,2) c(1) unfolding table_counts_def by metis
  show "cell_at s2 k v = ?p \<and> (\<exists>c \<le> n + m. phys s2 ?p = phys s ?p + of_nat c * push_bit PG_REFCOUNT_OFFSET 1)"
    using c d by (intro conjI exI [of _ "c + d"]) (simp_all add: algebra_simps)
qed

definition grows :: "u64 set \<Rightarrow> u64 list \<Rightarrow> addr set \<Rightarrow> addr set \<Rightarrow> kernel \<Rightarrow> (addr \<Rightarrow> nat) \<Rightarrow> kernel \<Rightarrow> (addr \<Rightarrow> nat) \<Rightarrow> bool" where
  "grows R gs V M s lev s' lev' \<longleftrightarrow> cr3 s' = cr3 s \<and>
     (\<forall>v \<in> V. lev v \<le> lev' v \<and> (v \<notin> M \<longrightarrow> lev v \<le> 3 \<longrightarrow> lev' v \<le> 3)) \<and>
     (\<forall>p. p \<notin> R \<union> frame_cells gs \<union> tree_cells s lev V \<longrightarrow> phys s' p = phys s p) \<and>
     tree_cells s' lev' V \<subseteq> tree_cells s lev V \<union> frame_cells gs \<and>
     (\<forall>p. p \<notin> R \<union> frame_cells gs \<longrightarrow> phys s p AND PG_PRESENT \<noteq> 0 \<longrightarrow> same_entry (phys s' p) (phys s p)) \<and>
     table_counts V s lev s' (length gs)"

lemma grows_refl [simp]: "grows R [] V {} s lev s lev"
  by (simp add: grows_def)

lemma frame_cells_append [simp]: "frame_cells (fs @ gs) = frame_cells fs \<union> frame_cells gs"
  by (auto simp: frame_cells_def)

lemma grows_trans:
  assumes "grows R gs V M s lev s1 lev1" "grows R gs' V M' s1 lev1 s2 lev2"
  shows "grows R (gs @ gs') V (M \<union> M') s lev s2 lev2"
proof -
  note a = assms [unfolded grows_def]
  have "phys s2 p = phys s p" if p: "p \<notin> R \<union> frame_cells (gs @ gs') \<union> tree_cells s lev V" for p
  proof -
    have "p \<notin> R \<union> frame_cells gs \<union> tree_cells s lev V" using p by auto
    then have "phys s1 p = phys s p" using a(1) by blast
    moreover have "p \<notin> R \<union> frame_cells gs' \<union> tree_cells s1 lev1 V" using p a(1) by auto
    then have "phys s2 p = phys s1 p" using a(2) by blast
    ultimately show ?thesis by simp
  qed
  moreover have "same_entry (phys s2 p) (phys s p)"
    if p: "p \<notin> R \<union> frame_cells (gs @ gs')" "phys s p AND PG_PRESENT \<noteq> 0" for p
  proof -
    have 1: "same_entry (phys s1 p) (phys s p)" using a(1) p by auto
    then have "phys s1 p AND PG_PRESENT \<noteq> 0" using p(2) same_entry_flags(2) [OF 1] by simp
    then have "same_entry (phys s2 p) (phys s1 p)" using a(2) p(1) by auto
    then show ?thesis using 1 by (rule same_entry_trans)
  qed
  moreover have "\<forall>v \<in> V. lev v \<le> lev2 v \<and> (v \<notin> M \<union> M' \<longrightarrow> lev v \<le> 3 \<longrightarrow> lev2 v \<le> 3)"
    using a by (meson UnI1 UnI2 le_trans)
  moreover have "tree_cells s2 lev2 V \<subseteq> tree_cells s lev V \<union> frame_cells (gs @ gs')" using a by auto
  moreover have "table_counts V s lev s2 (length (gs @ gs'))"
    using table_counts_trans [of V s lev s1 "length gs" lev1 s2 "length gs'"] a by simp
  ultimately show ?thesis using a unfolding grows_def by simp
qed

lemma grows_translate:
  assumes "grows R gs V M s lev s' lev'" "translate s a \<noteq> None" "path_of s a \<inter> (R \<union> frame_cells gs) = {}"
  shows "translate s' a = translate s a" "path_of s' a = path_of s a"
proof -
  have cr: "cr3 s' = cr3 s" using assms(1) by (simp add: grows_def)
  have same: "same_entry (phys s' p) (phys s p)" if "p \<in> path_of s a" for p
    using path_present [OF assms(2) that] assms(1,3) that by (auto simp: grows_def)
  show "translate s' a = translate s a" by (rule translate_stable(1) [OF cr]; rule same)
  show "path_of s' a = path_of s a" by (rule translate_stable(2) [OF cr]; rule same)
qed

lemma grows_unchanged:
  assumes "grows R gs V M s lev s' lev'"
  shows "cr3 s' = cr3 s" "tree_cells s' lev' V \<subseteq> tree_cells s lev V \<union> frame_cells gs"
    "p \<notin> R \<union> frame_cells gs \<union> tree_cells s lev V \<Longrightarrow> phys s' p = phys s p"
  using assms unfolding grows_def by blast+

section \<open>A new table\<close>

text \<open>The level of the pages below the new table of level \<open>i\<close> for \<open>va\<close>.\<close>

definition advance :: "nat \<Rightarrow> addr \<Rightarrow> (addr \<Rightarrow> nat) \<Rightarrow> addr \<Rightarrow> nat" where
  "advance i va lev v = (if lev v = i \<and> indices (Suc i) v = indices (Suc i) va then Suc i else lev v)"

lemma missing_advance:
  assumes "finite V" "va \<in> V" "lev va = i" "i < 3"
    and tree: "\<And>v. v \<in> V \<Longrightarrow> indices (Suc i) v = indices (Suc i) va \<Longrightarrow> lev v = i"
  shows "missing lev V = Suc (missing (advance i va lev) V)"
proof -
  let ?S = "{indices k v | k v. v \<in> V \<and> lev v < k \<and> k \<le> 3}"
  let ?S' = "{indices k v | k v. v \<in> V \<and> advance i va lev v < k \<and> k \<le> 3}"
  have "?S = insert (indices (Suc i) va) ?S'"
  proof (intro equalityI subsetI)
    fix x assume "x \<in> ?S"
    then obtain k v where x: "x = indices k v" "v \<in> V" "lev v < k" "k \<le> 3" by blast
    show "x \<in> insert (indices (Suc i) va) ?S'"
    proof (cases "advance i va lev v < k")
      case True
      then show ?thesis using x by blast
    next
      case False
      then have "k = Suc i" "indices (Suc i) v = indices (Suc i) va" using x(3) by (auto simp: advance_def split: if_splits)
      then show ?thesis using x(1) by simp
    qed
  next
    fix x assume x: "x \<in> insert (indices (Suc i) va) ?S'"
    have "lev v \<le> advance i va lev v" for v by (simp add: advance_def)
    then have "?S' \<subseteq> ?S" by (blast intro: le_less_trans)
    moreover have "lev va < Suc i" "Suc i \<le> 3" using assms(3,4) by simp_all
    then have "indices (Suc i) va \<in> ?S" using assms(2) by blast
    ultimately show "x \<in> ?S" using x by blast
  qed
  moreover have "indices (Suc i) va \<notin> ?S'"
  proof
    assume "indices (Suc i) va \<in> ?S'"
    then obtain k v where x: "indices (Suc i) va = indices k v" "v \<in> V" "advance i va lev v < k" by blast
    then have k: "k = Suc i" using indices_length by metis
    then have "lev v = i" using tree x by metis
    then show False using x k by (simp add: advance_def split: if_splits)
  qed
  moreover have "finite ?S'" using finite_missing assms(1) by blast
  ultimately show ?thesis by (simp add: missing_def)
qed

text \<open>What \<open>create_pt\<close> does for a page of the tree: it puts the cleared frame \<open>f\<close> under its entry of level \<open>i\<close>.\<close>

definition new_table :: "u64 set \<Rightarrow> u64 \<Rightarrow> u64 list \<Rightarrow> nat \<Rightarrow> addr \<Rightarrow> kernel \<Rightarrow> kernel \<Rightarrow> bool" where
  "new_table R f fs i va s s' \<longleftrightarrow> pt_path (R \<union> frame_cells fs) s' (Suc i) va \<and>
     (\<forall>k \<le> i. cell_at s' k va = cell_at s k va) \<and> in_frame f (cell_at s' (Suc i) va) \<and>
     preserves (insert (cell_at s i va) (R \<union> frame_cells [f])) s s' \<and> (\<forall>p. in_frame f p \<longrightarrow> phys s' p = 0) \<and>
     (\<forall>p. p \<notin> R \<union> frame_cells [f] \<union> (\<lambda>k. cell_at s k va) ` {..i} \<longrightarrow> phys s' p = phys s p) \<and>
     (\<forall>k < i. phys s' (cell_at s k va) = phys s (cell_at s k va) + (if Suc k = i then push_bit PG_REFCOUNT_OFFSET 1 else 0)) \<and>
     page_addr f \<and> (\<forall>p \<in> R \<union> frame_cells fs. \<not> in_frame f p)"

lemma new_tableD:
  assumes "new_table R f fs i va s s'"
  shows "pt_path (R \<union> frame_cells fs) s' (Suc i) va" "k \<le> i \<Longrightarrow> cell_at s' k va = cell_at s k va"
    "in_frame f (cell_at s' (Suc i) va)" "preserves (insert (cell_at s i va) (R \<union> frame_cells [f])) s s'"
    "in_frame f p \<Longrightarrow> phys s' p = 0" "page_addr f" "p \<in> R \<union> frame_cells fs \<Longrightarrow> \<not> in_frame f p" "cr3 s' = cr3 s"
    "p \<notin> R \<union> frame_cells [f] \<union> (\<lambda>k. cell_at s k va) ` {..i} \<Longrightarrow> phys s' p = phys s p"
    "k < i \<Longrightarrow> phys s' (cell_at s k va) = phys s (cell_at s k va) + (if Suc k = i then push_bit PG_REFCOUNT_OFFSET 1 else 0)"
  using assms by (auto simp: new_table_def preserves_def)

text \<open>The pages at the entry, of all pages of the tree.\<close>

lemma tree_at_entry:
  assumes tree: "page_tree X s lev V" and va: "va \<in> V" "lev va = i" "i < 3"
    and v: "v \<in> V" "k \<le> min (lev v) 3" "cell_at s k v = cell_at s i va"
  shows "k = i \<and> lev v = i \<and> indices (Suc i) v = indices (Suc i) va"
proof -
  have path: "pt_path X s i va" using page_treeD(1) [OF tree va(1)] va(2) by simp
  have idx: "indices (Suc k) v = indices (Suc i) va"
    using page_treeD(2) [OF tree v(1) va(1), of k i] v(2,3) va(2,3) by auto
  then have k: "k = i" using indices_length by blast
  have "\<not> i < lev v"
  proof
    assume "i < lev v"
    moreover have "pt_path X s (lev v) v" by (rule page_treeD(1) [OF tree v(1)])
    ultimately have "entry_at s i v AND PG_PRESENT \<noteq> 0"
      using present_levels_below [of s "lev v" v i] va(3) by (simp add: pt_path_iff)
    moreover have "entry_at s i va AND PG_PRESENT = 0" using path va(3) by (simp add: pt_path_iff present_levels_def)
    ultimately show False using v(3) k by (simp add: entry_at_def)
  qed
  then show ?thesis using k idx v(2) by auto
qed

lemma tree_same_level:
  assumes tree: "page_tree X s lev V" and va: "va \<in> V" "lev va = i" "i < 3"
    and v: "v \<in> V" "indices (Suc i) v = indices (Suc i) va"
  shows "lev v = i"
proof -
  have path: "pt_path X s i va" using page_treeD(1) [OF tree va(1)] va(2) by simp
  have c: "cell_at s k v = cell_at s k va" if "k \<le> i" for k using that by (intro cell_indices indices_below [OF v(2)]) simp
  have "i \<le> lev v"
  proof (rule ccontr)
    assume "\<not> i \<le> lev v"
    then have l: "lev v < i" "lev v < 3" using va(3) by simp_all
    have "entry_at s (lev v) v AND PG_PRESENT = 0"
      using page_treeD(1) [OF tree v(1)] l(2) by (auto simp: pt_path_iff present_levels_def)
    moreover have "entry_at s (lev v) va AND PG_PRESENT \<noteq> 0"
      using path present_levels_below [of s i va "lev v"] l by (simp add: pt_path_iff)
    ultimately show False using c [of "lev v"] l(1) by (simp add: entry_at_def)
  qed
  then show ?thesis using tree_at_entry [OF tree va v(1), of i] c [of i] va(3) by simp
qed

text \<open>The pages elsewhere keep their entries; those below the new table reach it.\<close>

lemma new_table_other:
  assumes tree: "page_tree (R \<union> frame_cells (f # fs)) s lev V" and va: "va \<in> V" "lev va = i" "i < 3"
    and new: "new_table R f fs i va s s'" and v: "v \<in> V" "advance i va lev v = lev v"
  shows "pt_path (R \<union> frame_cells (f # fs)) s' (lev v) v" "k \<le> min (lev v) 3 \<Longrightarrow> cell_at s' k v = cell_at s k v"
proof -
  let ?X = "R \<union> frame_cells (f # fs)" and ?c = "cell_at s i va"
  have "self_cell s \<noteq> ?c" using page_treeD(1) [OF tree va(1)] va(2,3) by (auto simp: pt_path_iff)
  moreover have "cell_at s k v \<noteq> ?c" if "k \<le> min (lev v) 3" for k
    using tree_at_entry [OF tree va v(1) that] v(2) by (auto simp: advance_def split: if_splits)
  ultimately have p: "pt_path (insert ?c ?X) s (lev v) v" using page_treeD(1) [OF tree v(1)] by (intro pt_path_insert)
  have sub: "insert ?c (R \<union> frame_cells [f]) \<subseteq> insert ?c ?X" by auto
  show "pt_path ?X s' (lev v) v"
    using pt_path_preserved(1) [OF p new_tableD(4) [OF new] sub] subset_insertI by (rule pt_path_mono)
  show "k \<le> min (lev v) 3 \<Longrightarrow> cell_at s' k v = cell_at s k v"
    by (rule pt_path_preserved(2) [OF p new_tableD(4) [OF new] sub])
qed

lemma new_table_below:
  assumes path: "pt_path (R \<union> frame_cells (f # fs)) s i va" and i: "i < 3" and new: "new_table R f fs i va s s'"
    and v: "indices (Suc i) v = indices (Suc i) va"
  shows "k \<le> i \<Longrightarrow> cell_at s' k v = cell_at s k v" "cell_at s' (Suc i) v = f + 8 * pt_index (4 - Suc i) v"
    "in_frame f (cell_at s' (Suc i) v)" "pt_path (R \<union> frame_cells fs) s' (Suc i) v"
proof -
  note n = new_tableD [OF new]
  have min_i: "min i 3 = i" "min (Suc i) 3 = Suc i" using i by auto
  have same: "cell_at t k v = cell_at t k va" if "k \<le> i" for k t
    using that by (intro cell_indices indices_below [OF v]) simp
  then show old: "k \<le> i \<Longrightarrow> cell_at s' k v = cell_at s k v" for k using n(2) by simp
  have "page_addr (table_at (phys s') (cr3 s') (Suc i) va)" using n(1) by (intro page_addr_table_at) (simp add: pt_path_iff)
  then have "in_frame (table_at (phys s') (cr3 s') (Suc i) va) (cell_at s' (Suc i) va)"
    unfolding entry_cell_def by (intro in_frame_add page_addr_page pt_index_offset)
  then have "table_at (phys s') (cr3 s') (Suc i) va = f" using n(3) in_frame_unique by blast
  then have tab: "table_at (phys s') (cr3 s') (Suc i) v = f" using same [of i s'] by (simp only: table_at_Suc)
  then show "cell_at s' (Suc i) v = f + 8 * pt_index (4 - Suc i) v" by (simp only: entry_cell_def)
  then show in_f: "in_frame f (cell_at s' (Suc i) v)" using in_frame_add [OF page_addr_page [OF n(6)] pt_index_offset] by simp
  have "tables_ok s' (Suc i) va" using n(1) min_i by (simp add: pt_path_iff present_levels_def)
  then have "tables_ok s' (Suc i) v" using same by (simp add: tables_ok_def entry_at_def less_Suc_eq_le)
  moreover have "entry_at s' (Suc i) v = 0" using n(5) [OF in_f] by (simp add: entry_at_def)
  ultimately have "present_levels s' (Suc i) v" using i by (simp add: present_levels_def)
  moreover have "self_cell s' \<noteq> cell_at s' (Suc i) v" using path in_f by (auto simp: pt_path_iff n(8))
  moreover have "cell_at s' k v \<noteq> cell_at s' (Suc i) v" if "k \<le> i" for k
  proof -
    have "cell_at s k va \<notin> frame_cells (f # fs)" using path that min_i by (simp add: pt_path_iff)
    then show ?thesis using in_f n(2) [OF that] same [OF that, of s'] by auto
  qed
  moreover have "cell_at s' (Suc i) v \<notin> R \<union> frame_cells fs" using in_f n(7) by blast
  moreover have "self_mapped s'" "self_cell s' \<notin> R \<union> frame_cells fs"
      "\<And>k. k \<le> i \<Longrightarrow> cell_at s' k v \<notin> R \<union> frame_cells fs \<and> cell_at s' k v \<noteq> self_cell s'"
      "\<And>j k. j < k \<Longrightarrow> k \<le> i \<Longrightarrow> cell_at s' j v \<noteq> cell_at s' k v"
    using n(1) unfolding pt_path_iff min_i by (simp_all add: same)
  ultimately show "pt_path (R \<union> frame_cells fs) s' (Suc i) v" by (intro pt_path_extend [OF i])
qed

lemma advance_shared: "advance i va lev v \<noteq> lev v \<Longrightarrow>
    lev v = i \<and> advance i va lev v = Suc i \<and> indices (Suc i) v = indices (Suc i) va"
  by (auto simp: advance_def split: if_splits)

lemma new_table_cell:
  assumes tree: "page_tree (R \<union> frame_cells (f # fs)) s lev V" and va: "va \<in> V" "lev va = i" "i < 3"
    and new: "new_table R f fs i va s s'" and v: "v \<in> V" "k \<le> min (advance i va lev v) 3"
  shows "k \<le> min (lev v) 3 \<and> cell_at s' k v = cell_at s k v \<or>
    k = Suc i \<and> indices (Suc i) v = indices (Suc i) va \<and> in_frame f (cell_at s' k v) \<and> cell_at s' k v = f + 8 * pt_index (4 - k) v"
proof (cases "advance i va lev v = lev v")
  case True
  then show ?thesis using new_table_other(2) [OF tree va new v(1) True] v(2) by simp
next
  case False
  have "pt_path (R \<union> frame_cells (f # fs)) s i va" using page_treeD(1) [OF tree va(1)] va(2) by simp
  note below = new_table_below [OF this va(3) new]
  show ?thesis using advance_shared [OF False] below v(2) va(3) by (cases "k = Suc i") auto
qed

lemma new_table_tree:
  assumes tree: "page_tree (R \<union> frame_cells (f # fs)) s lev V" and va: "va \<in> V" "lev va = i" "i < 3"
    and new: "new_table R f fs i va s s'"
  shows "page_tree (R \<union> frame_cells fs) s' (advance i va lev) V"
  unfolding page_tree_def
proof (intro conjI ballI allI impI)
  let ?X = "R \<union> frame_cells (f # fs)" and ?lev = "advance i va lev"
  have path: "pt_path ?X s i va" using page_treeD(1) [OF tree va(1)] va(2) by simp
  note kind = new_table_cell [OF tree va new]
  fix v assume v: "v \<in> V"
  show "pt_path (R \<union> frame_cells fs) s' (?lev v) v"
  proof (cases "?lev v = lev v")
    case True
    have "R \<union> frame_cells fs \<subseteq> ?X" by auto
    then show ?thesis using new_table_other(1) [OF tree va new v True] True pt_path_mono by auto
  next
    case False
    then show ?thesis using advance_shared [OF False] new_table_below(4) [OF path va(3) new] by auto
  qed
  have old: "\<not> in_frame f (cell_at s k v)" if "v \<in> V" "k \<le> min (lev v) 3" for v k
    using page_treeD(1) [OF tree that(1)] that(2) by (auto simp: pt_path_iff)
  fix w j k
  assume w: "w \<in> V" "j \<le> min (?lev v) 3" "k \<le> min (?lev w) 3" "cell_at s' j v = cell_at s' k w"
  show "indices (Suc j) v = indices (Suc k) w"
  proof (cases "j \<le> min (lev v) 3 \<and> cell_at s' j v = cell_at s j v")
    case True
    then have "\<not> in_frame f (cell_at s' k w)" using old [OF v, of j] w(4) by simp
    then have "k \<le> min (lev w) 3" "cell_at s' k w = cell_at s k w" using kind [OF w(1,3)] by blast+
    then show ?thesis using page_treeD(2) [OF tree v w(1)] True w(4) by metis
  next
    case False
    then have j: "j = Suc i" "indices (Suc i) v = indices (Suc i) va" "in_frame f (cell_at s' j v)"
        "cell_at s' j v = f + 8 * pt_index (4 - j) v" using kind [OF v w(2)] by blast+
    have "\<not> (k \<le> min (lev w) 3 \<and> cell_at s' k w = cell_at s k w)" using old [OF w(1), of k] j(3) w(4) by auto
    then have k: "k = Suc i" "indices (Suc i) w = indices (Suc i) va" "cell_at s' k w = f + 8 * pt_index (4 - k) w"
      using kind [OF w(1,3)] by blast+
    have "8 * pt_index (4 - j) v = 8 * pt_index (4 - k) w" using j(4) k(3) w(4) by (metis add_left_cancel)
    then have "pt_index (4 - j) v = pt_index (4 - j) w" using pt_index_inj j(1) k(1) by metis
    then show ?thesis unfolding indices_Suc [of j] indices_Suc [of k] using j(1,2) k(1,2) by metis
  qed
qed

lemma new_table_counts:
  assumes tree: "page_tree (R \<union> frame_cells (f # fs)) s lev V" and va: "va \<in> V" "lev va = i" "i < 3"
    and new: "new_table R f fs i va s s'"
  shows "table_counts V s lev s' 1"
  unfolding table_counts_def
proof (intro ballI allI impI)
  fix v and k :: nat
  assume v: "v \<in> V" "k < 2" "k < lev v"
  let ?p = "cell_at s k v"
  have k: "k \<le> min (lev v) 3" using v by simp
  have path: "pt_path (R \<union> frame_cells (f # fs)) s i va" using page_treeD(1) [OF tree va(1)] va(2) by simp
  have cell: "cell_at s' k v = ?p"
  proof (cases "advance i va lev v = lev v")
    case True
    then show ?thesis using new_table_other(2) [OF tree va new v(1) True] k by simp
  next
    case False
    then show ?thesis using advance_shared [OF False] new_table_below(1) [OF path va(3) new] v(3) by simp
  qed
  show "cell_at s' k v = ?p \<and> (\<exists>c \<le> 1. phys s' ?p = phys s ?p + of_nat c * push_bit PG_REFCOUNT_OFFSET 1)"
  proof (cases "?p \<in> (\<lambda>j. cell_at s j va) ` {..i}")
    case True
    then obtain j where j: "j \<le> i" "?p = cell_at s j va" by auto
    have "j \<noteq> i"
    proof
      assume "j = i"
      then have "?p = cell_at s i va" using j(2) by simp
      then show False using tree_at_entry [OF tree va v(1) k] v(3) by simp
    qed
    then have "phys s' ?p = phys s ?p + (if Suc j = i then push_bit PG_REFCOUNT_OFFSET 1 else 0)"
      using new_tableD(10) [OF new, of j] j by simp
    then show ?thesis using cell by (intro conjI exI [of _ "if Suc j = i then 1 else 0"]) simp_all
  next
    case False
    have "?p \<notin> R \<union> frame_cells (f # fs)" using page_treeD(1) [OF tree v(1)] k by (simp add: pt_path_iff)
    then have "phys s' ?p = phys s ?p" using new_tableD(9) [OF new] False by auto
    then show ?thesis using cell by (intro conjI exI [of _ 0]) simp_all
  qed
qed

lemma new_table_grows:
  assumes tree: "page_tree (R \<union> frame_cells (f # fs)) s lev V" and va: "va \<in> V" "lev va = i" "i < 3"
    and new: "new_table R f fs i va s s'"
  shows "grows R [f] V {} s lev s' (advance i va lev)"
proof -
  let ?lev = "advance i va lev"
  have path: "pt_path (R \<union> frame_cells (f # fs)) s i va" using page_treeD(1) [OF tree va(1)] va(2) by simp
  have "tree_cells s' ?lev V \<subseteq> tree_cells s lev V \<union> frame_cells [f]"
  proof
    fix p assume "p \<in> tree_cells s' ?lev V"
    then obtain v k where p: "v \<in> V" "k \<le> min (?lev v) 3" "p = cell_at s' k v" unfolding tree_cells_def by blast
    show "p \<in> tree_cells s lev V \<union> frame_cells [f]"
      using new_table_cell [OF tree va new p(1,2)] p(1,3) unfolding tree_cells_def by auto
  qed
  moreover have "phys s' p = phys s p" if p: "p \<notin> R \<union> frame_cells [f] \<union> tree_cells s lev V" for p
  proof (rule new_tableD(9) [OF new])
    have "cell_at s k va \<in> tree_cells s lev V" if "k \<le> i" for k
      unfolding tree_cells_def using va that by (intro CollectI exI [of _ k] exI [of _ va]) simp
    then show "p \<notin> R \<union> frame_cells [f] \<union> (\<lambda>k. cell_at s k va) ` {..i}" using p by auto
  qed
  moreover have "same_entry (phys s' p) (phys s p)" if "p \<notin> R \<union> frame_cells [f]" "phys s p AND PG_PRESENT \<noteq> 0" for p
  proof -
    have "entry_at s i va AND PG_PRESENT = 0" using path va(3) by (simp add: pt_path_iff present_levels_def)
    then have "p \<noteq> cell_at s i va" using that(2) by (auto simp: entry_at_def)
    then show ?thesis using new_tableD(4) [OF new] that(1) by (auto simp: preserves_def)
  qed
  moreover have "lev v \<le> ?lev v" "lev v \<le> 3 \<longrightarrow> ?lev v \<le> 3" for v using va(3) by (auto simp: advance_def)
  moreover have "table_counts V s lev s' (length [f])" using new_table_counts [OF tree va new] by simp
  ultimately show ?thesis unfolding grows_def using new_tableD(8) [OF new] by blast
qed

context frame_source
begin

lemma create_pt_tree:
  assumes av: "avail s (f # fs)" and tree: "page_tree (reserved s \<union> frame_cells (f # fs)) s lev V"
    and va: "va \<in> V" "lev va = i" "i < 3" and es: "entries es = map (\<lambda>k. pte_ptr k va) [0..<4]" and fin: "finite V"
  shows "\<exists>s'. create_pt get es i s = Inr ((), s') \<and> avail s' fs \<and> reserved s' = reserved s \<and>
    page_tree (reserved s \<union> frame_cells fs) s' (advance i va lev) V \<and>
    grows (reserved s) [f] V {} s lev s' (advance i va lev) \<and> missing lev V = Suc (missing (advance i va lev) V)"
proof -
  have path: "pt_path (reserved s \<union> frame_cells (f # fs)) s i va" using page_treeD(1) [OF tree va(1)] va(2) by simp
  have f: "page_addr f" "\<forall>p \<in> reserved s \<union> frame_cells fs. \<not> in_frame f p"
    using avail_frame [OF av, of f] avail_distinct [OF av] in_frame_unique by (auto simp: frame_cells_def)
  obtain s' where s': "create_pt get es i s = Inr ((), s')" "avail s' fs" "reserved s' = reserved s"
      "new_table (reserved s) f fs i va s s'"
    using create_pt_ok [OF av path va(3) es] f unfolding new_table_def by blast
  moreover have "missing lev V = Suc (missing (advance i va lev) V)"
    using fin va tree_same_level [OF tree va] by (rule missing_advance)
  ultimately show ?thesis using new_table_tree [OF tree va s'(4)] new_table_grows [OF tree va s'(4)] by blast
qed

lemma create_pts_tree:
  assumes "avail s fs" "page_tree (reserved s \<union> frame_cells fs) s lev V" "va \<in> V" "lev va = i" "i \<le> 3" "3 - i \<le> length fs"
    and "entries es = map (\<lambda>k. pte_ptr k va) [0..<4]" "finite V"
    and "\<And>k. i \<le> k \<Longrightarrow> k < 3 \<Longrightarrow> present_mask es AND push_bit k 1 = 0"
  shows "\<exists>s' lev'. create_pts get es [i..<3] s = Inr ((), s') \<and> avail s' (drop (3 - i) fs) \<and> reserved s' = reserved s \<and>
    page_tree (reserved s \<union> frame_cells (drop (3 - i) fs)) s' lev' V \<and> lev' va = 3 \<and>
    grows (reserved s) (take (3 - i) fs) V {} s lev s' lev' \<and> missing lev V = 3 - i + missing lev' V"
  using assms
proof (induction "3 - i" arbitrary: i s fs lev)
  case 0
  then have "i = 3" by simp
  then show ?case using 0 by (intro exI [of _ s] exI [of _ lev]) simp
next
  case (Suc d)
  then have i: "i < 3" and d: "d = 3 - Suc i" "3 - i = Suc (3 - Suc i)" by auto
  obtain f rest where fs: "fs = f # rest" using Suc.prems(6) i by (cases fs) auto
  let ?lev = "advance i va lev"
  obtain s1 where s1: "create_pt get es i s = Inr ((), s1)" "avail s1 rest" "reserved s1 = reserved s"
      "page_tree (reserved s \<union> frame_cells rest) s1 ?lev V" "grows (reserved s) [f] V {} s lev s1 ?lev"
      "missing lev V = Suc (missing ?lev V)"
    using create_pt_tree [OF Suc.prems(1,2)[unfolded fs] Suc.prems(3,4) i Suc.prems(7,8)] by blast
  have lev1: "?lev va = Suc i" using Suc.prems(4) by (simp add: advance_def)
  have len: "3 - Suc i \<le> length rest" using Suc.prems(6) d fs by simp
  have mask: "present_mask es AND push_bit k 1 = 0" if "Suc i \<le> k" "k < 3" for k using Suc.prems(9) [of k] that by simp
  have tree1: "page_tree (reserved s1 \<union> frame_cells rest) s1 ?lev V" using s1(3,4) by simp
  obtain s2 lev2 where s2: "create_pts get es [Suc i..<3] s1 = Inr ((), s2)" "avail s2 (drop (3 - Suc i) rest)"
      "reserved s2 = reserved s1" "page_tree (reserved s1 \<union> frame_cells (drop (3 - Suc i) rest)) s2 lev2 V" "lev2 va = 3"
      "grows (reserved s1) (take (3 - Suc i) rest) V {} s1 ?lev s2 lev2" "missing ?lev V = 3 - Suc i + missing lev2 V"
    using Suc.hyps(1) [OF d(1) s1(2) tree1 Suc.prems(3) lev1 Suc_leI [OF i] len Suc.prems(7,8) mask] by blast
  have list: "[i..<3] = i # [Suc i..<3]" using i by (simp add: upt_conv_Cons)
  have "create_pts get es [i..<3] s = Inr ((), s2)"
    unfolding list using Suc.prems(9) [of i] i s1(1) s2(1) by (simp add: thenS_apply)
  moreover have "grows (reserved s) (take (3 - i) fs) V {} s lev s2 lev2"
    using grows_trans [OF s1(5) s2(6) [unfolded s1(3)]] by (simp add: d(2) fs)
  ultimately show ?case using s1(3,6) s2(2-5,7) by (intro exI [of _ s2] exI [of _ lev2]) (simp add: d(2) fs)
qed

end

section \<open>Stores into the tree\<close>

lemma page_tree_preserved:
  assumes "page_tree X s lev V" "preserves Y s s'" "Y \<subseteq> X"
  shows "page_tree X s' lev V" "tree_cells s' lev V = tree_cells s lev V"
proof -
  have cells: "cell_at s' k v = cell_at s k v" if "v \<in> V" "k \<le> min (lev v) 3" for v k
    using pt_path_preserved(2) [OF page_treeD(1) [OF assms(1) that(1)] assms(2,3) that(2)] .
  show "page_tree X s' lev V"
    unfolding page_tree_def
  proof (intro conjI ballI allI impI)
    show "pt_path X s' (lev v) v" if "v \<in> V" for v
      by (rule pt_path_preserved(1) [OF page_treeD(1) [OF assms(1) that] assms(2,3)])
    show "indices (Suc j) v = indices (Suc k) w"
      if "v \<in> V" "w \<in> V" "j \<le> min (lev v) 3" "k \<le> min (lev w) 3" "cell_at s' j v = cell_at s' k w" for v w j k
      using page_treeD(2) [OF assms(1) that(1-4)] that(5) cells [OF that(1,3)] cells [OF that(2,4)] by simp
  qed
  show "tree_cells s' lev V = tree_cells s lev V" unfolding tree_cells_def using cells by metis
qed

lemma page_tree_mono: "page_tree X s lev V \<Longrightarrow> Y \<subseteq> X \<Longrightarrow> page_tree Y s lev V"
  unfolding page_tree_def using pt_path_mono by blast

lemma tree_cellsI: "v \<in> V \<Longrightarrow> k \<le> min (lev v) 3 \<Longrightarrow> cell_at s k v \<in> tree_cells s lev V"
  unfolding tree_cells_def by blast

text \<open>The count of a table.\<close>

lemma counted_tree:
  assumes "page_tree X s lev V" "va \<in> V" "k \<le> min (lev va) 3" "same_entry e (entry_at s k va)" "2 \<le> k"
  defines "s' \<equiv> s\<lparr>phys := (phys s)(cell_at s k va := e)\<rparr>"
  shows "page_tree X s' lev V" "grows R [] V {} s lev s' lev" "preserves {} s s'"
proof -
  show p: "preserves {} s s'" using assms(4) by (simp add: preserves_def s'_def entry_at_def)
  show "page_tree X s' lev V" by (rule page_tree_preserved(1) [OF assms(1) p]) simp
  have "table_counts V s lev s' (length [])"
  proof (rule table_countsI)
    fix w and j :: nat assume w: "w \<in> V" "j < 2" "j < lev w"
    have "cell_at s j w \<noteq> cell_at s k va"
    proof
      assume "cell_at s j w = cell_at s k va"
      then have "indices (Suc j) w = indices (Suc k) va" using w page_treeD(2) [OF assms(1) w(1) assms(2) _ assms(3)] by simp
      then show False using indices_length w(2) assms(5) by fastforce
    qed
    moreover have "cell_at s' j w = cell_at s j w" by (rule cells_preserved [OF p]) simp
    ultimately show "cell_at s' j w = cell_at s j w \<and> phys s' (cell_at s j w) = phys s (cell_at s j w)" by (simp add: s'_def)
  qed
  then show "grows R [] V {} s lev s' lev"
    unfolding grows_def page_tree_preserved(2) [OF assms(1) p empty_subsetI]
    using p tree_cellsI [where lev = lev, OF assms(2,3), of s] by (auto simp: s'_def preserves_def)
qed

text \<open>The leaf of a page.\<close>

lemma leaf_tree:
  assumes tree: "page_tree X s lev V" and va: "va \<in> V" "lev va = 3" and e: "e AND PG_PRESENT \<noteq> 0"
    and uniq: "\<And>w. w \<in> V \<Longrightarrow> indices 4 w = indices 4 va \<Longrightarrow> w = va"
  defines "s' \<equiv> s\<lparr>phys := (phys s)(cell_at s 3 va := e)\<rparr>"
  shows "page_tree X s' (lev(va := 4)) V" "grows R [] V {va} s lev s' (lev(va := 4))" "entry_at s' 3 va = e" "tables_ok s' 3 va"
proof -
  let ?c = "cell_at s 3 va" and ?lev = "lev(va := 4)"
  have path: "pt_path X s 3 va" using page_treeD(1) [OF tree va(1)] va(2) by simp
  have pre: "self_mapped s" "tables_ok s 3 va" "entry_at s 3 va AND PG_PRESENT = 0" "self_cell s \<notin> X" "self_cell s \<noteq> ?c"
      "\<And>k. k \<le> 3 \<Longrightarrow> cell_at s k va \<notin> X \<and> cell_at s k va \<noteq> self_cell s"
      "\<And>j k. j < k \<Longrightarrow> k \<le> 3 \<Longrightarrow> cell_at s j va \<noteq> cell_at s k va"
    using path by (auto simp: pt_path_iff present_levels_def)
  have p: "preserves {?c} s s'" by (simp add: preserves_def s'_def)
  have cva: "cell_at s' k va = cell_at s k va" if "k \<le> 3" for k
    by (rule cells_preserved [OF p]) (use pre(7) [of _ 3] that in auto)
  have other: "cell_at s k w \<noteq> ?c" if w: "w \<in> V" "w \<noteq> va" "k \<le> min (lev w) 3" for w k
  proof
    assume c: "cell_at s k w = ?c"
    have "indices (Suc k) w = indices (Suc 3) va" using page_treeD(2) [OF tree w(1) va(1) w(3) _ c] va(2) by simp
    moreover from this have "k = 3" using indices_length by blast
    ultimately show False using uniq w(1,2) by (simp add: eval_nat_numeral)
  qed
  have ins: "pt_path (insert ?c X) s (lev w) w" if "w \<in> V" "w \<noteq> va" for w
    using page_treeD(1) [OF tree that(1)] pre(5) other [OF that] by (rule pt_path_insert)
  have sub: "{?c} \<subseteq> insert ?c X" by simp
  have cells: "cell_at s' k w = cell_at s k w" if "w \<in> V" "k \<le> min (?lev w) 3" for w k
  proof (cases "w = va")
    case True
    then show ?thesis using cva that(2) by simp
  next
    case False
    then show ?thesis using pt_path_preserved(2) [OF ins [OF that(1) False] p sub] that(2) by simp
  qed
  show leaf: "entry_at s' 3 va = e" unfolding entry_at_def cva [OF order_refl] by (simp add: s'_def)
  show tab: "tables_ok s' 3 va" using tables_ok_preserved [OF p, of 3 va] pre(2,7) by auto
  have cr3: "cr3 s' = cr3 s" by (simp add: s'_def)
  have self': "self_mapped s'" using self_mapped_preserved [OF p] pre(1,5) by auto
  have "present_levels s' 4 va" using tab leaf e by (simp add: present_levels_def)
  then have path': "pt_path X s' 4 va" using self' pre(4,6,7) by (simp add: pt_path_iff cr3 cva [unfolded cr3])
  have low: "min (?lev w) 3 = min (lev w) 3" for w using va(2) by simp
  show "page_tree X s' ?lev V"
    unfolding page_tree_def
  proof (intro conjI ballI allI impI)
    show "pt_path X s' (?lev w) w" if "w \<in> V" for w
    proof (cases "w = va")
      case False
      have "pt_path X s' (lev w) w" using pt_path_preserved(1) [OF ins [OF that False] p sub] subset_insertI by (rule pt_path_mono)
      then show ?thesis using False by simp
    qed (simp add: path')
    show "indices (Suc j) v = indices (Suc k) w"
      if "v \<in> V" "w \<in> V" "j \<le> min (?lev v) 3" "k \<le> min (?lev w) 3" "cell_at s' j v = cell_at s' k w" for v w j k
      using page_treeD(2) [OF tree that(1,2) that(3,4)[unfolded low]] that(5) cells [OF that(1,3)] cells [OF that(2,4)] by simp
  qed
  have "tree_cells s' ?lev V \<subseteq> tree_cells s lev V"
  proof
    fix q assume "q \<in> tree_cells s' ?lev V"
    then obtain w k where q: "w \<in> V" "k \<le> min (?lev w) 3" "q = cell_at s' k w" unfolding tree_cells_def by blast
    have "k \<le> min (lev w) 3" using q(2) low by metis
    then show "q \<in> tree_cells s lev V" using q tree_cellsI [where lev = lev and V = V, OF q(1)] cells [OF q(1,2)] by metis
  qed
  moreover have "?c \<in> tree_cells s lev V" by (rule tree_cellsI [OF va(1)]) (simp add: va(2))
  moreover have "p \<noteq> ?c" if "phys s p AND PG_PRESENT \<noteq> 0" for p using that pre(3) by (auto simp: entry_at_def)
  moreover have "table_counts V s lev s' (length [])"
  proof (rule table_countsI)
    fix w and k :: nat assume w: "w \<in> V" "k < 2" "k < lev w"
    then have k: "k \<le> min (lev w) 3" "k \<le> min (?lev w) 3" by (simp_all add: va(2))
    have "cell_at s k w \<noteq> ?c" using other [OF w(1) _ k(1)] pre(7) [of k 3] w(2) by (cases "w = va") simp_all
    then show "cell_at s' k w = cell_at s k w \<and> phys s' (cell_at s k w) = phys s (cell_at s k w)"
      using cells [OF w(1) k(2)] by (simp add: s'_def)
  qed
  ultimately show "grows R [] V {va} s lev s' ?lev"
    using va(2) unfolding grows_def by (auto simp: s'_def)
qed

lemma missing_leaf: "lev va = 3 \<Longrightarrow> missing (lev(va := 4)) V = missing lev V"
proof -
  assume "lev va = 3"
  then have "(lev(va := 4)) v < k \<and> k \<le> 3 \<longleftrightarrow> lev v < k \<and> k \<le> 3" for v k by auto
  then show ?thesis by (simp add: missing_def)
qed

lemma missing_ge:
  assumes "finite V" "va \<in> V"
  shows "3 - lev va \<le> missing lev V"
proof -
  have "inj_on (\<lambda>k. indices k va) {lev va<..3}" by (rule inj_onI) (rule indices_length)
  then have "card ((\<lambda>k. indices k va) ` {lev va<..3}) = 3 - lev va" by (simp add: card_image)
  moreover have "(\<lambda>k. indices k va) ` {lev va<..3} \<subseteq> {indices k v | k v. v \<in> V \<and> lev v < k \<and> k \<le> 3}"
  proof
    fix x assume "x \<in> (\<lambda>k. indices k va) ` {lev va<..3}"
    then obtain k where "x = indices k va" "lev va < k" "k \<le> 3" by auto
    then show "x \<in> {indices k v | k v. v \<in> V \<and> lev v < k \<and> k \<le> 3}"
      using assms(2) by (intro CollectI exI [of _ k] exI [of _ va] conjI)
  qed
  then have "card ((\<lambda>k. indices k va) ` {lev va<..3}) \<le> missing lev V"
    unfolding missing_def by (rule card_mono [OF finite_missing [OF assms(1)]])
  ultimately show ?thesis by simp
qed

section \<open>Mapping a page of the tree\<close>

context frame_source
begin

lemma ensure_pt_exists_tree:
  assumes "avail s fs" "page_tree (reserved s \<union> frame_cells fs) s lev V" "va \<in> V" "lev va \<le> 3" "3 - lev va \<le> length fs"
    and es: "entries es = map (\<lambda>k. pte_ptr k va) [0..<4]" "present_mask es = mask (lev va)" and "finite V"
  shows "\<exists>s' lev'. (if present_mask es AND push_bit 2 1 = 0 then ensure_pt_exists get es else returnS ()) s = Inr ((), s') \<and>
    avail s' (drop (3 - lev va) fs) \<and> reserved s' = reserved s \<and>
    page_tree (reserved s \<union> frame_cells (drop (3 - lev va) fs)) s' lev' V \<and> lev' va = 3 \<and>
    grows (reserved s) (take (3 - lev va) fs) V {} s lev s' lev' \<and> missing lev V = 3 - lev va + missing lev' V"
proof (cases "lev va = 3")
  case True
  then show ?thesis using assms mask_bit [of 3 2] by (intro exI [of _ s] exI [of _ lev]) simp
next
  case False
  then have n: "lev va < 3" using assms(4) by simp
  have "[0..<3] = [0..<lev va] @ [lev va..<3]" using n upt_add_eq_append [of 0 "lev va" "3 - lev va"] by simp
  moreover have "create_pts get es ([0..<lev va] @ [lev va..<3]) = create_pts get es [lev va..<3]"
    by (rule create_pts_append) (use n es(2) mask_bit in auto)
  ultimately have "ensure_pt_exists get es = create_pts get es [lev va..<3]" by (simp only: ensure_pt_exists_def)
  moreover have "present_mask es AND push_bit k 1 = 0" if "lev va \<le> k" "k < 3" for k
    using mask_bit [of "lev va" k] that es(2) by auto
  moreover have "present_mask es AND push_bit 2 1 = 0" using n mask_bit [of "lev va" 2] es(2) by simp
  ultimately show ?thesis
    using create_pts_tree [OF assms(1-3) refl assms(4,5) es(1) assms(8)] by simp
qed

lemma map_page_tree:
  assumes av: "avail s fs" and tree: "page_tree (reserved s \<union> frame_cells fs) s lev V" and va: "va \<in> V" "lev va \<le> 3" "va AND 0xFFF = 0"
    and fin: "finite V" and len: "missing lev V \<le> length fs"
    and pa: "physical AND 0xFFF = 0" "(physical OR flags) AND PG_PRESENT \<noteq> 0"
    and uniq: "\<And>w. w \<in> V \<Longrightarrow> indices 4 w = indices 4 va \<Longrightarrow> w = va"
  shows "\<exists>s' lev' n. map_page_from get va physical flags s = Inr ((), s') \<and> avail s' (drop n fs) \<and> reserved s' = reserved s \<and>
    page_tree (reserved s \<union> frame_cells (drop n fs)) s' lev' V \<and> lev' va = 4 \<and> entry_at s' 3 va = physical OR flags \<and>
    grows (reserved s) (take n fs) V {va} s lev s' lev' \<and> missing lev V = n + missing lev' V"
proof -
  let ?R = "reserved s" and ?n = "3 - lev va" and ?fs = "drop (3 - lev va) fs"
  let ?e = "\<lparr>entries = map (\<lambda>k. pte_ptr k va) [0..<4], present_mask = mask (lev va)\<rparr>"
  have path: "pt_path (?R \<union> frame_cells fs) s (lev va) va" by (rule page_treeD(1) [OF tree va(1)])
  have ptes: "ptes va s = Inr (?e, s)" using path by (intro ptes_result) (auto simp: pt_path_iff)
  have "?n \<le> length fs" using missing_ge [OF fin va(1), of lev] len by simp
  from ensure_pt_exists_tree [OF av tree va(1,2) this _ _ fin, of ?e]
  obtain s1 lev1 where s1: "(if present_mask ?e AND push_bit 2 1 = 0 then ensure_pt_exists get ?e else returnS ()) s = Inr ((), s1)"
      "avail s1 ?fs" "reserved s1 = ?R" "page_tree (?R \<union> frame_cells ?fs) s1 lev1 V" "lev1 va = 3"
      "grows ?R (take ?n fs) V {} s lev s1 lev1" "missing lev V = ?n + missing lev1 V"
    by auto
  have path1: "pt_path (?R \<union> frame_cells ?fs) s1 3 va" using page_treeD(1) [OF s1(4) va(1)] s1(5) by simp
  have p1: "self_mapped s1" "tables_ok s1 3 va" "\<And>k. k \<le> 3 \<Longrightarrow> cell_at s1 k va \<notin> ?R \<union> frame_cells ?fs"
      "entry_at s1 3 va AND PG_PRESENT = 0"
    using path1 by (auto simp: pt_path_iff present_levels_def)
  (* the count of the page table *)
  let ?d = "cell_at s1 2 va" and ?v = "entry_at s1 2 va + push_bit PG_REFCOUNT_OFFSET 1"
  define s2 where "s2 = s1\<lparr>phys := (phys s1)(?d := ?v)\<rparr>"
  have "2 \<le> min (lev1 va) 3" using s1(5) by simp
  note c = counted_tree [OF s1(4) va(1) this same_entry_counter(1) order_refl, folded s2_def]
  have d: "?d \<notin> reserved s1" "?d \<notin> frame_cells ?fs" using p1(3) [of 2] s1(3) by auto
  have "same_entry ?v (phys s1 ?d)" using same_entry_counter(1) by (simp add: entry_at_def)
  note av2 = avail_store [OF s1(2) d this, folded s2_def]
  have "tables_ok s1 2 va" using p1(2) by (auto simp: tables_ok_def)
  then have inc: "increase_counter (entries ?e ! 2) s1 = Inr ((), s2)"
    using increase_counter_eq [OF p1(1), of 2 va] by (simp only: pt_entries.select_convs entries_nth s2_def)
  have c2: "cell_at s2 k va = cell_at s1 k va" for k by (rule cells_preserved [OF c(3)]) simp
  (* the leaf *)
  define s3 where "s3 = s2\<lparr>phys := (phys s2)(cell_at s2 3 va := physical OR flags)\<rparr>"
  note l = leaf_tree [OF c(1) va(1) s1(5) pa(2) uniq, folded s3_def]
  have p2: "self_mapped s2" "tables_ok s2 3 va"
    using self_mapped_preserved [OF c(3)] tables_ok_preserved [OF c(3), of 3 va] p1(1,2) by auto
  have store: "vstore (entries ?e ! 3) (physical OR flags) s2 = Inr ((), s3)"
    using vstore_pte_ptr [OF p2, of "physical OR flags"] by (simp add: s3_def)
  have "cell_at s1 3 va \<notin> roots s1" using p1(4) roots_present [OF s1(2), of "cell_at s1 3 va"] by (auto simp: entry_at_def)
  then have "cell_at s2 3 va \<notin> roots s2" using av2(3) by (simp add: c2)
  moreover have "cell_at s2 3 va \<notin> reserved s2" "cell_at s2 3 va \<notin> frame_cells ?fs" using p1(3) [of 3] by (auto simp: av2(2) s1(3) c2)
  ultimately have av3: "avail s3 ?fs" "reserved s3 = reserved s2" using avail_store [OF av2(1), of "cell_at s2 3 va"] unfolding s3_def by blast+
  have "grows ?R (take ?n fs) V {va} s lev s3 (lev1(va := 4))"
    using grows_trans [OF grows_trans [OF s1(6) c(2)] l(2)] by simp
  moreover have "map_page_from get va physical flags s = Inr ((), s3)"
    using va(2,3) pa(1) ptes s1(1) inc store mask_bit [of "lev va" 3] by (simp add: map_page_from_def thenS_apply bindS_apply mod_4096)
  ultimately show ?thesis
    using av3 av2(2) s1(3,5,7) l(1,3) missing_leaf [of lev1 va V, OF s1(5)]
    by (intro exI [of _ s3] exI [of _ "lev1(va := 4)"] exI [of _ ?n]) simp
qed

text \<open>A frame for a page.\<close>

lemma get_tree:
  assumes "avail s (f # fs)" "page_tree (reserved s \<union> frame_cells (f # fs)) s lev V"
  shows "\<exists>s'. get s = Inr (f, s') \<and> avail s' fs \<and> reserved s' = reserved s \<and>
    page_tree (reserved s \<union> frame_cells (f # fs)) s' lev V \<and> grows (reserved s) [f] V {} s lev s' lev \<and> (\<forall>p. in_frame f p \<longrightarrow> phys s' p = 0)"
proof -
  obtain s' where s': "get s = Inr (f, s')" "avail s' fs" "reserved s' = reserved s" "\<forall>p. in_frame f p \<longrightarrow> phys s' p = 0"
      "preserves (reserved s \<union> frame_cells [f]) s s'" "\<forall>p. p \<notin> reserved s \<union> frame_cells [f] \<longrightarrow> phys s' p = phys s p"
    using get_preserves [OF assms(1)] by blast
  have "reserved s \<union> frame_cells [f] \<subseteq> reserved s \<union> frame_cells (f # fs)" by auto
  note t = page_tree_preserved [OF assms(2) s'(5) this]
  have "table_counts V s lev s' (length [f])"
  proof (rule table_countsI)
    fix v and k :: nat assume v: "v \<in> V" "k < 2" "k < lev v"
    have k: "k \<le> min (lev v) 3" using v by simp
    note path = page_treeD(1) [OF assms(2) v(1)]
    have "cell_at s' k v = cell_at s k v"
      by (rule pt_path_preserved(2) [OF path s'(5) \<open>reserved s \<union> frame_cells [f] \<subseteq> reserved s \<union> frame_cells (f # fs)\<close> k])
    moreover have "cell_at s k v \<notin> reserved s \<union> frame_cells [f]" using path k by (simp add: pt_path_iff)
    then have "phys s' (cell_at s k v) = phys s (cell_at s k v)" using s'(6) by blast
    ultimately show "cell_at s' k v = cell_at s k v \<and> phys s' (cell_at s k v) = phys s (cell_at s k v)" by blast
  qed
  then have "grows (reserved s) [f] V {} s lev s' lev" unfolding grows_def using s'(5,6) t(2) by (auto simp: preserves_def)
  then show ?thesis using s'(1-4) t(1) by blast
qed

end

section \<open>Mapping pages one after the other\<close>

lemma grows_mapped:
  assumes g: "grows R gs V M s lev s' lev'" and tree: "page_tree X s lev V" "page_tree Y s' lev' V" and sub: "R \<union> frame_cells gs \<subseteq> X"
    and v: "v \<in> V" "lev v = 4"
  shows "lev' v = 4" "same_entry (entry_at s' 3 v) (entry_at s 3 v)"
proof -
  let ?Y = "{p. \<not> same_entry (phys s' p) (phys s p)}"
  have p: "preserves ?Y s s'" using g by (simp add: preserves_def grows_def)
  have path: "pt_path X s 4 v" using page_treeD(1) [OF tree(1) v(1)] v(2) by simp
  have "cell_at s k v \<notin> ?Y" if k: "k \<le> 3" for k
  proof -
    have "entry_at s k v AND PG_PRESENT \<noteq> 0" using path k present_levels_below [of s 4 v k] by (simp add: pt_path_iff)
    moreover have "cell_at s k v \<notin> R \<union> frame_cells gs" using path k sub by (auto simp: pt_path_iff)
    ultimately show ?thesis using g by (simp add: grows_def entry_at_def)
  qed
  then show "same_entry (entry_at s' 3 v) (entry_at s 3 v)" by (intro entry_preserved [OF p]) auto
  have "lev' v \<le> 4" using page_treeD(1) [OF tree(2) v(1)] by (simp add: pt_path_iff present_levels_def)
  moreover have "lev v \<le> lev' v" using g v(1) by (auto simp: grows_def)
  ultimately show "lev' v = 4" using v(2) by simp
qed

text \<open>The loop of \<open>map_range\<close>, over the addresses of the pages.\<close>

definition map_next :: "(kernel, u64) kproc \<Rightarrow> bool \<Rightarrow> u64 \<Rightarrow> u64 \<Rightarrow> addr \<Rightarrow> (kernel, unit) kproc" where
  "map_next get imm zero_page flags va =
     bindS (if imm then get else returnS zero_page) (\<lambda>physical. map_page_from get va physical flags)"

text \<open>How many frames the pages themselves take.\<close>

abbreviation own_frames :: "bool \<Rightarrow> nat \<Rightarrow> nat" where "own_frames imm n \<equiv> if imm then n else 0"

context frame_source
begin

lemma map_next_tree:
  assumes av: "avail s fs" and tree: "page_tree (reserved s \<union> frame_cells fs) s lev V"
    and va: "va \<in> V" "lev va \<le> 3" "va AND 0xFFF = 0" and fin: "finite V" "inj_on (indices 4) V"
    and len: "missing lev V + own_frames imm 1 \<le> length fs"
    and flags: "page_addr zero_page" "flags AND PHYS_ADDR_MASK = 0" "flags AND PG_PRESENT \<noteq> 0"
  shows "\<exists>s' lev' n pg. map_next get imm zero_page flags va s = Inr ((), s') \<and> avail s' (drop n fs) \<and> reserved s' = reserved s \<and>
    page_tree (reserved s \<union> frame_cells (drop n fs)) s' lev' V \<and> grows (reserved s) (take n fs) V {va} s lev s' lev' \<and>
    n + missing lev' V = missing lev V + own_frames imm 1 \<and> lev' va = 4 \<and> entry_at s' 3 va = pg OR flags \<and>
    (if imm then pg \<in> set (take n fs) \<and> (\<forall>p. in_frame pg p \<longrightarrow> phys s' p = 0 \<and> p \<notin> tree_cells s' lev' V) else pg = zero_page)"
proof -
  have uniq: "\<And>w. w \<in> V \<Longrightarrow> indices 4 w = indices 4 va \<Longrightarrow> w = va" using fin(2) va(1) by (auto dest: inj_onD)
  have pa: "pg AND 0xFFF = 0" "(pg OR flags) AND PG_PRESENT \<noteq> 0" if "page_addr pg" for pg
    using page_addr_page [OF that] leaf_entry(2) [OF that flags(2)] flags(3) by simp_all
  show ?thesis
  proof (cases imm)
    case False
    then have "missing lev V \<le> length fs" using len by simp
    from map_page_tree [OF av tree va fin(1) this pa [OF flags(1)] uniq]
    obtain s2 lev2 n where s2: "map_page_from get va zero_page flags s = Inr ((), s2)" "avail s2 (drop n fs)" "reserved s2 = reserved s"
        "page_tree (reserved s \<union> frame_cells (drop n fs)) s2 lev2 V" "lev2 va = 4" "entry_at s2 3 va = zero_page OR flags"
        "grows (reserved s) (take n fs) V {va} s lev s2 lev2" "missing lev V = n + missing lev2 V"
      by blast
    then show ?thesis
      using False by (intro exI [of _ s2] exI [of _ lev2] exI [of _ n] exI [of _ zero_page]) (simp add: map_next_def bindS_apply)
  next
    case True
    obtain f rest where fs: "fs = f # rest" using len True by (cases fs) auto
    have f: "page_addr f" "\<And>p. p \<in> reserved s \<Longrightarrow> \<not> in_frame f p" "f \<notin> set rest"
      using avail_frame [OF av, of f] avail_distinct [OF av] by (auto simp: fs)
    obtain s1 where s1: "get s = Inr (f, s1)" "avail s1 rest" "reserved s1 = reserved s"
        "page_tree (reserved s \<union> frame_cells (f # rest)) s1 lev V" "grows (reserved s) [f] V {} s lev s1 lev"
        "\<And>p. in_frame f p \<Longrightarrow> phys s1 p = 0"
      using get_tree [OF av [unfolded fs] tree [unfolded fs]] by blast
    have tree1: "page_tree (reserved s1 \<union> frame_cells rest) s1 lev V" by (rule page_tree_mono [OF s1(4)]) (auto simp: s1(3))
    have "missing lev V \<le> length rest" using len True by (simp add: fs)
    from map_page_tree [OF s1(2) tree1 va fin(1) this pa [OF f(1)] uniq]
    obtain s2 lev2 n where s2: "map_page_from get va f flags s1 = Inr ((), s2)" "avail s2 (drop n rest)" "reserved s2 = reserved s1"
        "page_tree (reserved s1 \<union> frame_cells (drop n rest)) s2 lev2 V" "lev2 va = 4" "entry_at s2 3 va = f OR flags"
        "grows (reserved s1) (take n rest) V {va} s1 lev s2 lev2" "missing lev V = n + missing lev2 V"
      by blast
    have "phys s2 p = 0 \<and> p \<notin> tree_cells s2 lev2 V" if p: "in_frame f p" for p
    proof -
      have out: "p \<notin> reserved s1" using f(2) p s1(3) by auto
      moreover have "p \<notin> frame_cells rest" using f(3) p in_frame_unique by (auto simp: frame_cells_def)
      then have out2: "p \<notin> frame_cells (take n rest)" using frame_cells_mono [OF set_take_subset] by blast
      moreover have out3: "p \<notin> tree_cells s1 lev V" using page_tree_cells [OF s1(4)] p by auto
      ultimately have "phys s2 p = phys s1 p" using s2(7) by (simp add: grows_def)
      moreover have "tree_cells s2 lev2 V \<subseteq> tree_cells s1 lev V \<union> frame_cells (take n rest)" using s2(7) by (simp add: grows_def)
      ultimately show ?thesis using s1(6) [OF p] out2 out3 by auto
    qed
    moreover have "grows (reserved s) (f # take n rest) V {va} s lev s2 lev2"
      using grows_trans [OF s1(5) s2(7) [unfolded s1(3)]] by simp
    moreover have "map_next get imm zero_page flags va s = Inr ((), s2)" using s1(1) s2(1) True by (simp add: map_next_def bindS_apply)
    ultimately show ?thesis
      using s2(2-6,8) s1(3) True by (intro exI [of _ s2] exI [of _ lev2] exI [of _ "Suc n"] exI [of _ f]) (simp add: fs)
  qed
qed

lemma map_pages_tree:
  assumes "avail s fs" "page_tree (reserved s \<union> frame_cells fs) s lev V" "finite V" "inj_on (indices 4) V"
    "set vas \<subseteq> V" "distinct vas" "\<And>va. va \<in> set vas \<Longrightarrow> lev va \<le> 3 \<and> va AND 0xFFF = 0"
    "missing lev V + own_frames imm (length vas) \<le> length fs"
    "page_addr zero_page" "flags AND PHYS_ADDR_MASK = 0" "flags AND PG_PRESENT \<noteq> 0"
  shows "\<exists>s' lev' n ps. for_each vas (map_next get imm zero_page flags) s = Inr ((), s') \<and> avail s' (drop n fs) \<and> reserved s' = reserved s \<and>
    page_tree (reserved s \<union> frame_cells (drop n fs)) s' lev' V \<and> grows (reserved s) (take n fs) V (set vas) s lev s' lev' \<and>
    n + missing lev' V = missing lev V + own_frames imm (length vas) \<and> length ps = length vas \<and>
    (\<forall>i < length vas. lev' (vas ! i) = 4 \<and> same_entry (entry_at s' 3 (vas ! i)) (ps ! i OR flags)) \<and>
    (if imm then distinct ps \<and> set ps \<subseteq> set (take n fs) \<and> (\<forall>p \<in> frame_cells ps. phys s' p = 0) else set ps \<subseteq> {zero_page})"
  using assms
proof (induction vas arbitrary: s fs lev)
  case Nil
  then show ?case by (intro exI [of _ s] exI [of _ lev] exI [of _ 0] exI [of _ "[]"]) simp
next
  case (Cons va vas)
  let ?R = "reserved s"
  have va: "va \<in> V" "lev va \<le> 3" "va AND 0xFFF = 0" using Cons.prems(5,7) by auto
  have len: "missing lev V + own_frames imm 1 \<le> length fs" using Cons.prems(8) by (auto split: if_splits)
  obtain s1 lev1 n pg where s1: "map_next get imm zero_page flags va s = Inr ((), s1)" "avail s1 (drop n fs)" "reserved s1 = ?R"
      "page_tree (?R \<union> frame_cells (drop n fs)) s1 lev1 V" "grows ?R (take n fs) V {va} s lev s1 lev1"
      "n + missing lev1 V = missing lev V + own_frames imm 1" "lev1 va = 4" "entry_at s1 3 va = pg OR flags"
      "if imm then pg \<in> set (take n fs) \<and> (\<forall>p. in_frame pg p \<longrightarrow> phys s1 p = 0 \<and> p \<notin> tree_cells s1 lev1 V) else pg = zero_page"
    using map_next_tree [OF Cons.prems(1,2) va Cons.prems(3,4) len Cons.prems(9-11)] by blast
  have lev1: "lev1 w \<le> 3 \<and> w AND 0xFFF = 0" if "w \<in> set vas" for w
    using Cons.prems(5-7) s1(5) that unfolding grows_def by (metis distinct.simps(2) list.set_intros(2) singletonD subsetD)
  have len1: "missing lev1 V + own_frames imm (length vas) \<le> length (drop n fs)"
    using Cons.prems(8) s1(6) by (simp split: if_splits)
  have sub: "set vas \<subseteq> V" "distinct vas" using Cons.prems(5,6) by auto
  obtain s2 lev2 m ps where s2: "for_each vas (map_next get imm zero_page flags) s1 = Inr ((), s2)" "avail s2 (drop m (drop n fs))"
      "reserved s2 = reserved s1" "page_tree (reserved s1 \<union> frame_cells (drop m (drop n fs))) s2 lev2 V"
      "grows (reserved s1) (take m (drop n fs)) V (set vas) s1 lev1 s2 lev2"
      "m + missing lev2 V = missing lev1 V + own_frames imm (length vas)" "length ps = length vas"
      "\<forall>i < length vas. lev2 (vas ! i) = 4 \<and> same_entry (entry_at s2 3 (vas ! i)) (ps ! i OR flags)"
      "if imm then distinct ps \<and> set ps \<subseteq> set (take m (drop n fs)) \<and> (\<forall>p \<in> frame_cells ps. phys s2 p = 0) else set ps \<subseteq> {zero_page}"
    using Cons.IH [OF s1(2) s1(4)[folded s1(3)] Cons.prems(3,4) sub lev1 len1 Cons.prems(9-11)] by blast
  have g: "grows ?R (take (n + m) fs) V (set (va # vas)) s lev s2 lev2"
    using grows_trans [OF s1(5) s2(5)[unfolded s1(3)]] by (simp add: take_add)
  have "reserved s1 \<union> frame_cells (take m (drop n fs)) \<subseteq> ?R \<union> frame_cells (drop n fs)"
    using frame_cells_mono [OF set_take_subset, of m "drop n fs"] s1(3) by auto
  note head = grows_mapped [OF s2(5) s1(4) s2(4) this va(1) s1(7)]
  have "\<forall>i < length (va # vas). lev2 ((va # vas) ! i) = 4 \<and> same_entry (entry_at s2 3 ((va # vas) ! i)) ((pg # ps) ! i OR flags)"
    using head s1(8) s2(8) by (auto simp: less_Suc_eq_0_disj)
  moreover have "if imm then distinct (pg # ps) \<and> set (pg # ps) \<subseteq> set (take (n + m) fs) \<and> (\<forall>p \<in> frame_cells (pg # ps). phys s2 p = 0)
      else set (pg # ps) \<subseteq> {zero_page}"
  proof (cases imm)
    case True
    have dist: "distinct (take n fs @ drop n fs)" using avail_distinct [OF Cons.prems(1)] by simp
    have pg: "pg \<in> set (take n fs)" "\<And>p. in_frame pg p \<Longrightarrow> phys s1 p = 0 \<and> p \<notin> tree_cells s1 lev1 V" using s1(9) True by auto
    have not: "pg \<notin> set (take m (drop n fs))" using dist pg(1) set_take_subset [of m "drop n fs"] unfolding distinct_append by blast
    have "phys s2 p = 0" if p: "in_frame pg p" for p
    proof -
      have "pg \<in> set fs" using pg(1) by (rule in_set_takeD)
      then have "p \<notin> ?R" using avail_frame [OF Cons.prems(1), of pg] p by blast
      moreover have "p \<notin> frame_cells (take m (drop n fs))" using not p in_frame_unique by (auto simp: frame_cells_def)
      ultimately have "phys s2 p = phys s1 p" using s2(5) pg(2) [OF p] s1(3) by (simp add: grows_def)
      then show ?thesis using pg(2) [OF p] by simp
    qed
    then show ?thesis using True s2(9) pg(1) not by (auto simp: take_add)
  qed (use s1(9) s2(9) in auto)
  moreover have "for_each (va # vas) (map_next get imm zero_page flags) s = Inr ((), s2)" using s1(1) s2(1) by (simp add: thenS_apply)
  moreover have "drop m (drop n fs) = drop (n + m) fs" by (simp add: add.commute)
  ultimately show ?case
    using s1(3,6) s2(2-4,6,7) g
    by (intro exI [of _ s2] exI [of _ lev2] exI [of _ "n + m"] exI [of _ "pg # ps"]) (simp split: if_splits)
qed

end

section \<open>Ranges\<close>

definition range_pages :: "addr \<Rightarrow> u64 \<Rightarrow> addr list" where
  "range_pages start sz = map (\<lambda>i. start + i) (page_offsets sz)"

lemma length_range_pages: "length (range_pages start sz) = (unat sz + 4095) div 4096"
  by (simp add: range_pages_def page_offsets_def)

lemma nth_range_pages: "i < (unat sz + 4095) div 4096 \<Longrightarrow> range_pages start sz ! i = start + 4096 * of_nat i"
  by (simp add: range_pages_def page_offsets_def)

lemma set_range_pages: "set (range_pages start sz) = {start + 4096 * of_nat i | i. i < (unat sz + 4095) div 4096}"
  by (auto simp: range_pages_def page_offsets_def)

lemma for_each_map: "for_each (map g xs) f = for_each xs (\<lambda>x. f (g x))"
  by (induction xs) simp_all

lemma map_range_pages:
  "sz \<le> - 4096 \<Longrightarrow> map_range start sz flags s =
    for_each (range_pages start sz) (map_next get_frame (flags AND MAP_IMMEDIATE \<noteq> 0) (k_zero_page s) (convert_flags flags)) s"
  by (simp add: map_range_def bindS_apply for_pages_def range_pages_def for_each_map map_next_def map_page_def Let_def)

text \<open>Pages of a range of at most \<open>2 ^ 48\<close> bytes differ in the 36 bits that the walk reads.\<close>

lemma indices_bits: "indices 4 v = indices 4 w \<Longrightarrow> k < 36 \<Longrightarrow> bit v (12 + k) = bit w (12 + k)"
proof -
  assume i: "indices 4 v = indices 4 w" and k: "k < 36"
  have idx: "pt_index (Suc l) v = pt_index (Suc l) w" if "l < 4" for l
  proof -
    have "3 - l < 4" by simp
    then have nth: "indices 4 x ! (3 - l) = pt_index (4 - (3 - l)) x" for x by (simp add: indices_def del: upt_Suc)
    have "4 - (3 - l) = Suc l" using that by simp
    then show ?thesis using i nth [of v] nth [of w] by simp
  qed
  have "bit (pt_index (Suc (k div 9)) x) (k mod 9) = bit x (12 + k)" for x
    unfolding pt_index_alt by (simp add: bit_simps add.commute)
  moreover have "pt_index (Suc (k div 9)) v = pt_index (Suc (k div 9)) w" by (rule idx) (use k in linarith)
  ultimately show ?thesis by metis
qed

lemma take_48: "(v :: addr) AND 0xFFF = 0 \<Longrightarrow> w AND 0xFFF = 0 \<Longrightarrow> indices 4 v = indices 4 w \<Longrightarrow> take_bit 48 v = take_bit 48 w"
proof (rule bit_word_eqI)
  fix n assume v: "v AND 0xFFF = 0" "w AND 0xFFF = 0" "indices 4 v = indices 4 w"
  have low: "\<not> bit x n" if "x AND 0xFFF = 0" "n < 12" for x :: addr
    using arg_cong [OF that(1) [unfolded low12], of "\<lambda>y. bit y n"] that(2) by (simp add: bit_simps)
  show "bit (take_bit 48 v) n = bit (take_bit 48 w) n"
  proof (cases "n < 12")
    case True
    then show ?thesis using low [OF v(1)] low [OF v(2)] by (simp add: bit_simps)
  next
    case False
    then obtain k where n: "n = 12 + k" using le_Suc_ex not_less by blast
    show ?thesis using indices_bits [OF v(3), of k] by (auto simp: n bit_simps)
  qed
qed

lemma unat_page_start: "m \<le> 64 \<Longrightarrow> unat (start + 4096 * of_nat k :: u64) mod 2 ^ m = (unat start + 4096 * k) mod 2 ^ m"
proof -
  assume m: "m \<le> 64"
  have "start + 4096 * of_nat k = (of_nat (unat start + 4096 * k) :: u64)" by simp
  then have "unat (start + 4096 * of_nat k) = (unat start + 4096 * k) mod 2 ^ 64" by (simp only: unat_of_nat) simp
  moreover have "(2 :: nat) ^ m dvd 2 ^ 64" using m by (rule le_imp_power_dvd)
  ultimately show ?thesis by (simp only: mod_mod_cancel)
qed

lemma page_aligned: "start AND 0xFFF = 0 \<Longrightarrow> (start + 4096 * of_nat k :: u64) AND 0xFFF = 0"
proof -
  have al: "x AND 0xFFF = 0 \<longleftrightarrow> unat x mod 2 ^ 12 = 0" for x :: u64
    using unat_mod [of x 4096] by (simp add: mod_4096 [symmetric] word_unat_eq_iff)
  assume "start AND 0xFFF = 0"
  then have "unat start mod 2 ^ 12 = 0" by (simp only: al)
  then have "(unat start + 4096 * k) mod 2 ^ 12 = 0" by (auto simp: mod_eq_0_iff_dvd)
  then show ?thesis unfolding al using unat_page_start [of 12 start k] by simp
qed

lemma range_inj:
  assumes "i < 2 ^ 36" "j < 2 ^ 36" "start AND 0xFFF = 0"
    and "indices 4 (start + 4096 * of_nat i) = indices 4 (start + 4096 * of_nat j)"
  shows "i = j"
proof -
  have "take_bit 48 (start + 4096 * of_nat i) = take_bit 48 (start + 4096 * of_nat j :: u64)"
    using take_48 [OF page_aligned page_aligned assms(4)] assms(3) by blast
  moreover have "unat (take_bit 48 x) = unat x mod 2 ^ 48" for x :: u64
  proof -
    have "unat (take_bit 48 x) = take_bit 48 (unat x)" by (rule unsigned_take_bit_eq)
    then show ?thesis by (simp only: take_bit_nat_def)
  qed
  ultimately have "unat (start + 4096 * of_nat i) mod 2 ^ 48 = unat (start + 4096 * of_nat j) mod 2 ^ 48" by metis
  moreover have "(48 :: nat) \<le> 64" by simp
  ultimately have "(unat start + 4096 * i) mod 2 ^ 48 = (unat start + 4096 * j) mod 2 ^ 48" by (simp only: unat_page_start)
  then have "int ((unat start + 4096 * i) mod 2 ^ 48) = int ((unat start + 4096 * j) mod 2 ^ 48)" by (rule arg_cong)
  then have "(int (unat start) + 4096 * int i) mod 2 ^ 48 = (int (unat start) + 4096 * int j) mod 2 ^ 48"
    by (simp only: zmod_int of_nat_add of_nat_mult of_nat_power of_nat_numeral)
  then have "(2 :: int) ^ 48 dvd (int (unat start) + 4096 * int i) - (int (unat start) + 4096 * int j)"
    by (simp only: mod_eq_dvd_iff)
  then have "(2 :: int) ^ 48 dvd 4096 * (int i - int j)" by (simp only: algebra_simps) simp
  moreover have "\<bar>4096 * (int i - int j)\<bar> < 2 ^ 48" using assms(1,2) by simp
  ultimately have "4096 * (int i - int j) = 0" using dvd_imp_le_int [of "4096 * (int i - int j)" "2 ^ 48"] by force
  then show ?thesis by simp
qed

lemma range_pages_inj:
  assumes "start AND 0xFFF = 0" "sz \<le> 2 ^ 48"
  shows "inj_on (indices 4) (set (range_pages start sz))" "distinct (range_pages start sz)"
proof -
  have n: "(unat sz + 4095) div 4096 \<le> 2 ^ 36" using assms(2) by (simp add: word_le_nat_alt)
  have eq: "i = j" if "i < (unat sz + 4095) div 4096" "j < (unat sz + 4095) div 4096"
      "indices 4 (start + 4096 * of_nat i) = indices 4 (start + 4096 * of_nat j)" for i j
    using range_inj [OF _ _ assms(1) that(3)] that(1,2) n by linarith
  then show "inj_on (indices 4) (set (range_pages start sz))"
    unfolding set_range_pages by (intro inj_onI) blast
  have "i = j" if "i < length (range_pages start sz)" "j < length (range_pages start sz)" "range_pages start sz ! i = range_pages start sz ! j" for i j
    using eq [of i j] that by (simp add: length_range_pages nth_range_pages)
  then show "distinct (range_pages start sz)" by (auto simp: distinct_conv_nth)
qed

section \<open>The address of the zero page\<close>

text \<open>Nothing but the initialisation writes the variable \<open>zero_page\<close>.\<close>

definition keeps :: "('s \<Rightarrow> 'v) \<Rightarrow> ('s, 'a) kproc \<Rightarrow> bool" where
  "keeps f p \<longleftrightarrow> (\<forall>s r s'. p s = Inr (r, s') \<longrightarrow> f s' = f s)"

named_theorems keeps_intros

lemma keeps_basic [keeps_intros]:
  "keeps f (returnS x)" "keeps f (getsS g)" "keeps f (failS e)" "keeps f (assertS b)"
  by (auto simp: keeps_def returnS_def getsS_def failS_def assertS_def)

lemma keeps_bindS [keeps_intros]: "keeps f p \<Longrightarrow> (\<And>x. keeps f (q x)) \<Longrightarrow> keeps f (bindS p q)"
  unfolding keeps_def bindS_apply by (auto split: sum.splits simp: bindE_def)

lemma keeps_thenS [keeps_intros]: "keeps f p \<Longrightarrow> keeps f q \<Longrightarrow> keeps f (thenS p q)"
  unfolding keeps_def thenS_apply by (auto split: sum.splits simp: bindE_def)

lemma keeps_if [keeps_intros]: "(b \<Longrightarrow> keeps f p) \<Longrightarrow> (\<not> b \<Longrightarrow> keeps f q) \<Longrightarrow> keeps f (if b then p else q)"
  by simp

lemma keeps_machine [keeps_intros]:
  "keeps k_zero_page (vload a)" "keeps k_zero_page (vstore a v)" "keeps k_zero_page (vzero_page a)"
  "keeps k_zero_page (modify_fa g)" "keeps k_zero_page (area_at i)"
  by (auto simp: keeps_def vload_def vstore_def vzero_page_def modify_fa_def modifyS_def area_at_def split: option.splits if_splits)

lemma keeps_scan: "keeps k_zero_page (scan_present ps i msk)"
  by (induction ps arbitrary: i msk) (auto intro!: keeps_intros)

lemma keeps_create_pts: "keeps k_zero_page get \<Longrightarrow> keeps k_zero_page (create_pts get es is)"
  by (induction "is") (auto simp: create_pt_def increase_counter_def intro!: keeps_intros)

lemma keeps_get_frame: "keeps k_zero_page get_frame"
  unfolding get_frame_def alloc_frame_def pick_frame_def Frame.extend_def current_node_def map_node_def zero_frame_def
  by (intro keeps_intros)

lemma keeps_map_page: "keeps k_zero_page get \<Longrightarrow> keeps k_zero_page (map_page_from get va pa flags)"
  unfolding map_page_from_def ptes_def ensure_pt_exists_def increase_counter_def Let_def
  by (intro keeps_intros keeps_scan keeps_create_pts)

lemma keeps_map_pages: "keeps k_zero_page (for_each vas (map_next get_frame imm zero_page flags))"
proof (induction vas)
  case Nil
  show ?case unfolding for_each.simps by (rule keeps_basic)
next
  case (Cons va vas)
  then show ?case unfolding for_each.simps map_next_def by (intro keeps_intros keeps_get_frame keeps_map_page)
qed

section \<open>What \<open>map_range\<close> does\<close>

text \<open>The pages of a tree that holds the range and possibly more.\<close>

lemma map_range_tree:
  assumes av: "frames_avail s fs" and tree: "page_tree (window_cells s \<union> frame_cells fs) s lev V"
    and fin: "finite V" "inj_on (indices 4) V" and start: "start AND 0xFFF = 0" and sz: "sz \<le> 2 ^ 48"
    and sub: "set (range_pages start sz) \<subseteq> V" "\<And>v. v \<in> set (range_pages start sz) \<Longrightarrow> lev v \<le> 3"
    and len: "missing lev V + own_frames (flags AND MAP_IMMEDIATE \<noteq> 0) (length (range_pages start sz)) \<le> length fs"
    and zero: "page_addr (k_zero_page s)"
  shows "\<exists>s' lev' m ps. map_range start sz flags s = Inr ((), s') \<and> frames_avail s' (drop m fs) \<and> window_cells s' = window_cells s \<and>
    k_zero_page s' = k_zero_page s \<and> page_tree (window_cells s \<union> frame_cells (drop m fs)) s' lev' V \<and>
    grows (window_cells s) (take m fs) V (set (range_pages start sz)) s lev s' lev' \<and>
    m + missing lev' V = missing lev V + own_frames (flags AND MAP_IMMEDIATE \<noteq> 0) (length (range_pages start sz)) \<and>
    length ps = length (range_pages start sz) \<and>
    (\<forall>i < length ps. lev' (range_pages start sz ! i) = 4 \<and>
       same_entry (entry_at s' 3 (range_pages start sz ! i)) (ps ! i OR convert_flags flags) \<and> page_addr (ps ! i)) \<and>
    (if flags AND MAP_IMMEDIATE \<noteq> 0 then distinct ps \<and> set ps \<subseteq> set (take m fs) \<and> (\<forall>p \<in> frame_cells ps. phys s' p = 0)
     else set ps \<subseteq> {k_zero_page s})"
proof -
  let ?vas = "range_pages start sz" and ?imm = "flags AND MAP_IMMEDIATE \<noteq> 0"
  have "distinct ?vas" by (rule range_pages_inj(2) [OF start sz])
  moreover have "lev v \<le> 3 \<and> v AND 0xFFF = 0" if "v \<in> set ?vas" for v
    using sub(2) [OF that] that page_aligned [OF start] by (auto simp: set_range_pages)
  ultimately obtain s' lev' m ps where r: "for_each ?vas (map_next get_frame ?imm (k_zero_page s) (convert_flags flags)) s = Inr ((), s')"
      "frames_avail s' (drop m fs)" "window_cells s' = window_cells s"
      "page_tree (window_cells s \<union> frame_cells (drop m fs)) s' lev' V" "grows (window_cells s) (take m fs) V (set ?vas) s lev s' lev'"
      "m + missing lev' V = missing lev V + own_frames ?imm (length ?vas)" "length ps = length ?vas"
      "\<forall>i < length ?vas. lev' (?vas ! i) = 4 \<and> same_entry (entry_at s' 3 (?vas ! i)) (ps ! i OR convert_flags flags)"
      "if ?imm then distinct ps \<and> set ps \<subseteq> set (take m fs) \<and> (\<forall>p \<in> frame_cells ps. phys s' p = 0) else set ps \<subseteq> {k_zero_page s}"
    using frames.map_pages_tree [OF av tree fin sub(1) _ _ len zero convert_flags_bits(6,1)] by blast
  have "sz \<le> - 4096" using sz by (simp add: word_le_nat_alt)
  then have "map_range start sz flags s = Inr ((), s')" using map_range_pages r(1) by simp
  moreover have "page_addr (ps ! i)" if "i < length ps" for i
  proof -
    have "ps ! i \<in> set (take m fs) \<or> ps ! i = k_zero_page s" using r(9) nth_mem [OF that] by (auto split: if_splits)
    then show ?thesis using frames.avail_frame [OF av] zero in_set_takeD by metis
  qed
  moreover have "k_zero_page s' = k_zero_page s" using keeps_map_pages r(1) unfolding keeps_def by blast
  ultimately show ?thesis using r(2-9) by (intro exI [of _ s'] exI [of _ lev'] exI [of _ m] exI [of _ ps]) simp
qed

text \<open>A mapped page of the tree.\<close>

lemma page_tree_translate:
  assumes tree: "page_tree X s lev V" and v: "v \<in> V" "lev v = 4" "v AND 0xFFF = 0" "off < 4096"
    and e: "same_entry (entry_at s 3 v) (pg OR flags)" "page_addr pg" "flags AND PHYS_ADDR_MASK = 0"
  shows "translate s (v + off) = Some (pg + off, flags AND PG_RW \<noteq> 0)"
proof -
  have "present_levels s 4 v" using page_treeD(1) [OF tree v(1)] v(2) by (simp add: pt_path_iff)
  then have t: "tables_ok s 3 v" "entry_at s 3 v AND PG_PRESENT \<noteq> 0" by (simp_all add: present_levels_def)
  show ?thesis
    using translate_in_page [OF t v(3,4)] same_entry_flags(1,3) [OF e(1)] leaf_entry [OF e(2,3)] by simp
qed

lemma range_translate:
  assumes tree: "page_tree X s lev V" and sub: "set (range_pages start sz) \<subseteq> V" and start: "start AND 0xFFF = 0"
    and i: "i < length (range_pages start sz)" "off < 4096"
    and page: "lev (range_pages start sz ! i) = 4 \<and> same_entry (entry_at s 3 (range_pages start sz ! i)) (pg OR convert_flags flags) \<and>
      page_addr pg"
  shows "translate s (start + 4096 * of_nat i + off) = Some (pg + off, flags AND MAP_RW \<noteq> 0 \<and> flags AND MAP_IMMEDIATE \<noteq> 0)"
proof -
  let ?v = "range_pages start sz ! i"
  have v: "?v = start + 4096 * of_nat i" using i(1) by (simp add: nth_range_pages length_range_pages)
  have mem: "?v \<in> V" using i(1) by (intro subsetD [OF sub] nth_mem)
  have "?v AND 0xFFF = 0" unfolding v by (rule page_aligned [OF start])
  then have "translate s (?v + off) = Some (pg + off, convert_flags flags AND PG_RW \<noteq> 0)"
    using page_tree_translate [OF tree mem] i(2) page convert_flags_bits(6) by blast
  then show ?thesis using convert_flags_bits(4) v by simp
qed

lemma missing_mapped: "(\<And>v. v \<in> V \<Longrightarrow> lev v = 4) \<Longrightarrow> missing lev V = 0"
proof -
  assume "\<And>v. v \<in> V \<Longrightarrow> lev v = 4"
  then have "{indices k v | k v. v \<in> V \<and> lev v < k \<and> k \<le> 3} = {}" by auto
  then show ?thesis unfolding missing_def by (simp only: card.empty)
qed

text \<open>
  Property C18: \<open>map_range\<close> maps the range. The page tables of its pages form a tree in which none is mapped, and there are
  frames for the tables that are missing and, for an immediate mapping, one for each page. Then it succeeds and takes
  exactly that many frames. Every page of an immediate mapping gets a cleared frame of its own, with write access as
  asked for; every page of any other mapping shows the zero page without write access. Other mapped addresses whose
  walk reads no free frame and no window entry keep their translation.
\<close>

theorem map_range_correct:
  fixes sz :: u64
  defines "n \<equiv> (unat sz + 4095) div 4096"
  assumes "frames_avail s fs" "page_tree (window_cells s \<union> frame_cells fs) s lev (set (range_pages start sz))"
    and "\<forall>v \<in> set (range_pages start sz). lev v \<le> 3" "start AND 0xFFF = 0" "sz \<le> 2 ^ 48" "page_addr (k_zero_page s)"
    and "missing lev (set (range_pages start sz)) + own_frames (flags AND MAP_IMMEDIATE \<noteq> 0) n \<le> length fs"
  shows "\<exists>s' ps. map_range start sz flags s = Inr ((), s') \<and>
    frames_avail s' (drop (missing lev (set (range_pages start sz)) + own_frames (flags AND MAP_IMMEDIATE \<noteq> 0) n) fs) \<and>
    length ps = n \<and> (\<forall>i < n. \<forall>off < 4096. translate s' (start + 4096 * of_nat i + off)
       = Some (ps ! i + off, flags AND MAP_RW \<noteq> 0 \<and> flags AND MAP_IMMEDIATE \<noteq> 0)) \<and>
    (if flags AND MAP_IMMEDIATE \<noteq> 0 then distinct ps \<and> set ps \<subseteq> set fs \<and> (\<forall>p \<in> frame_cells ps. phys s' p = 0)
     else set ps \<subseteq> {k_zero_page s}) \<and>
    (\<forall>a. translate s a \<noteq> None \<longrightarrow> path_of s a \<inter> (window_cells s \<union> frame_cells fs) = {} \<longrightarrow> translate s' a = translate s a)"
proof -
  let ?vas = "range_pages start sz" and ?imm = "flags AND MAP_IMMEDIATE \<noteq> 0" and ?R = "window_cells s"
  have n: "length ?vas = n" by (simp add: length_range_pages n_def)
  have inj: "inj_on (indices 4) (set ?vas)" by (rule range_pages_inj(1) [OF assms(5,6)])
  obtain s' lev' m ps where r: "map_range start sz flags s = Inr ((), s')" "frames_avail s' (drop m fs)"
      "page_tree (?R \<union> frame_cells (drop m fs)) s' lev' (set ?vas)" "grows ?R (take m fs) (set ?vas) (set ?vas) s lev s' lev'"
      "m + missing lev' (set ?vas) = missing lev (set ?vas) + own_frames ?imm n" "length ps = n"
      "\<forall>i < n. lev' (?vas ! i) = 4 \<and> same_entry (entry_at s' 3 (?vas ! i)) (ps ! i OR convert_flags flags) \<and> page_addr (ps ! i)"
      "if ?imm then distinct ps \<and> set ps \<subseteq> set (take m fs) \<and> (\<forall>p \<in> frame_cells ps. phys s' p = 0) else set ps \<subseteq> {k_zero_page s}"
    using map_range_tree [OF assms(2,3) finite_set inj assms(5,6) subset_refl _ _ assms(7)] assms(4,8) n by metis
  have "lev' v = 4" if "v \<in> set ?vas" for v using r(7) that n by (metis in_set_conv_nth)
  then have "missing lev' (set ?vas) = 0" by (rule missing_mapped)
  then have m: "m = missing lev (set ?vas) + own_frames ?imm n" using r(5) by simp
  have "translate s' (start + 4096 * of_nat i + off) = Some (ps ! i + off, flags AND MAP_RW \<noteq> 0 \<and> ?imm)" if i: "i < n" "off < 4096" for i off
    using range_translate [OF r(3) subset_refl assms(5)] r(7) i n by blast
  moreover have "translate s' a = translate s a"
    if "translate s a \<noteq> None" "path_of s a \<inter> (?R \<union> frame_cells fs) = {}" for a
    using grows_translate [OF r(4) that(1)] that(2) frame_cells_mono [OF set_take_subset, of m fs] by blast
  moreover have "set ps \<subseteq> set fs" if ?imm using r(8) that set_take_subset by (meson order_trans)
  ultimately show ?thesis using r(1,2,6,8) unfolding m by (intro exI [of _ s'] exI [of _ ps]) simp
qed

section \<open>Pages under one directory\<close>

text \<open>The common case: the page directory exists, and none of the page tables.\<close>

lemma page_tree_directory:
  assumes path: "\<And>v. v \<in> V \<Longrightarrow> pt_path X s 2 v" and same: "\<And>v w. v \<in> V \<Longrightarrow> w \<in> V \<Longrightarrow> indices 2 v = indices 2 w"
  shows "page_tree X s (\<lambda>_. 2) V"
  unfolding page_tree_def
proof (intro conjI ballI allI impI path)
  fix v w j k :: nat
  fix v w assume v: "v \<in> V" "w \<in> V"
  assume jk: "j \<le> min 2 3" "k \<le> min 2 3" "cell_at s j v = cell_at s k w"
  have up: "indices (Suc i) v = indices (Suc i) w" if "i < 2" for i
    using indices_below [OF same [OF v], of "Suc i"] that by simp
  have cells: "cell_at s i v = cell_at s i w" if "i < 2" for i by (rule cell_indices [OF up [OF that]])
  have ne: "cell_at s i u \<noteq> cell_at s i' u" if "u \<in> V" "i < i'" "i' \<le> 2" for u i i'
    using path [OF that(1)] that(2,3) by (auto simp: pt_path_iff)
  have "j = k"
  proof (rule ccontr)
    assume "j \<noteq> k"
    then consider "j < k" | "k < j" by linarith
    then show False using jk cells [of j] cells [of k] ne [OF v(1), of k j] ne [OF v(2), of j k] by cases simp_all
  qed
  show "indices (Suc j) v = indices (Suc k) w"
  proof (cases "j = 2")
    case True
    have "table_at (phys s) (cr3 s) 2 v = table_at (phys s) (cr3 s) 2 w"
      using cells [of 1] table_at_Suc [of "phys s" "cr3 s" 1] by (simp add: numeral_2_eq_2 del: table_at.simps)
    then have "8 * pt_index (4 - 2) v = 8 * pt_index (4 - 2) w" using jk(3) True \<open>j = k\<close> by (simp add: entry_cell_def)
    then have "pt_index (4 - 2) v = pt_index (4 - 2) w" by (rule pt_index_inj)
    then have "indices (Suc 2) v = indices (Suc 2) w" unfolding indices_Suc [of 2] using same [OF v] by (simp only:)
    then show ?thesis using True \<open>j = k\<close> by (simp only:)
  next
    case False
    then show ?thesis using jk(1) \<open>j = k\<close> up [of j] by simp
  qed
qed

lemma pt_path_directory:
  assumes "self_mapped s" "tables_ok s 2 v" "entry_at s 2 v AND PG_PRESENT = 0"
    "distinct [self_cell s, cell_at s 0 v, cell_at s (Suc 0) v, cell_at s 2 v]"
    "set [self_cell s, cell_at s 0 v, cell_at s (Suc 0) v, cell_at s 2 v] \<inter> X = {}"
  shows "pt_path X s 2 v"
proof -
  have "[0..<Suc (min 2 3)] = [0, Suc 0, 2]" by (simp add: upt_rec)
  then show ?thesis using assms unfolding pt_path_def present_levels_def Let_def by (simp only: list.map) simp
qed

lemma missing_directory: "missing (\<lambda>_. 2) V = card (indices 3 ` V)"
proof -
  have "{indices k v | k v. v \<in> V \<and> 2 < k \<and> k \<le> 3} = indices 3 ` V"
  proof (intro equalityI subsetI)
    fix x assume "x \<in> {indices k v | k v. v \<in> V \<and> 2 < k \<and> k \<le> 3}"
    then obtain k v where "x = indices k v" "v \<in> V" "2 < k" "k \<le> 3" by blast
    moreover from this have "k = 3" by simp
    ultimately show "x \<in> indices 3 ` V" by (simp only: imageI)
  qed fastforce
  then show ?thesis by (simp add: missing_def)
qed

lemma unat_pt_index: "unat (pt_index (Suc l) v) = unat v div 2 ^ (12 + 9 * l) mod 512"
proof -
  have "unat (take_bit 9 w) = take_bit 9 (unat w)" for w :: u64 by (rule unsigned_take_bit_eq)
  moreover have "unat (drop_bit n v) = drop_bit n (unat v)" for n by (rule unat_drop_bit_eq)
  ultimately have "unat (pt_index (Suc l) v) = take_bit 9 (drop_bit (12 + 9 * l) (unat v))" by (simp only: pt_index_alt diff_Suc_1)
  then show ?thesis by (simp only: take_bit_nat_def drop_bit_nat_def) simp
qed

section \<open>An example\<close>

text \<open>Two pages of the example kernel whose page table is missing.\<close>

lemma example_directory:
  assumes "phys s = (phys example_kernel)(0x4000 := 3)" "cr3 s = 0x1000" and v: "v \<in> {0xFFFFFFFF80200000, 0xFFFFFFFF80201000}"
  shows "cell_at s 0 v = 0x1FF8" "cell_at s (Suc 0) v = 0x2FF0" "cell_at s 2 v = 0x3008" "self_mapped s" "tables_ok s 2 v"
    "entry_at s 2 v = 0"
proof -
  note simps = assms(1,2) entry_cell_simps example_kernel_def pt_index_def PHYS_ADDR_MASK_def
  show cells: "cell_at s 0 v = 0x1FF8" "cell_at s (Suc 0) v = 0x2FF0" "cell_at s 2 v = 0x3008"
    using v by (elim insertE emptyE; simp add: simps)+
  note flags = table_entry_def PG_PRESENT_def PG_RW_def PG_HUGE_def
  show "self_mapped s" by (simp add: self_mapped_def flags simps)
  have "tables_ok s 2 v \<longleftrightarrow> table_entry (entry_at s 0 v) \<and> table_entry (entry_at s (Suc 0) v)"
    by (auto simp: tables_ok_def numeral_2_eq_2 less_Suc_eq)
  then show "tables_ok s 2 v" unfolding entry_at_def cells by (simp add: assms(1) example_kernel_def flags)
  show "entry_at s 2 v = 0" unfolding entry_at_def cells by (simp add: assms(1) example_kernel_def)
qed

theorem map_range_correct_witness:
  "\<exists>s fs s' f. frames_avail s fs \<and> map_range 0xFFFFFFFF80200000 0x2000 (MAP_RW OR MAP_IMMEDIATE) s = Inr ((), s') \<and>
    f \<in> set fs \<and> translate s' 0xFFFFFFFF80201008 = Some (f + 8, True) \<and> phys s' (f + 8) = 0"
proof -
  let ?start = "0xFFFFFFFF80200000 :: u64" and ?fl = "MAP_RW OR MAP_IMMEDIATE"
  obtain s fs where s: "frames_avail s fs" "length fs = 4" "set fs = {0x101000, 0x102000, 0x103000, 0x104000}"
    "phys s = (phys example_kernel)(0x4000 := 3)" "cr3 s = 0x1000" "window_cells s = {0x4000, 0x4008}" and zero: "k_zero_page s = 0"
    by (rule example_paging)
  have V: "set (range_pages ?start 0x2000) = {0xFFFFFFFF80200000, 0xFFFFFFFF80201000}"
    by (auto simp: range_pages_def page_offsets_def upt_rec)
  note ex = example_directory [OF s(4,5)]
  have path: "pt_path (window_cells s \<union> frame_cells fs) s 2 v" if v: "v \<in> {0xFFFFFFFF80200000, 0xFFFFFFFF80201000}" for v
  proof (rule pt_path_directory)
    have "set fs \<subseteq> {0x101000, 0x102000, 0x103000, 0x104000}" using s(3) by simp
    note low = example_frame_cells [OF this]
    show "distinct [self_cell s, cell_at s 0 v, cell_at s (Suc 0) v, cell_at s 2 v]" unfolding ex(1-3) [OF v, unfolded s(5)] s(5) by simp
    show "set [self_cell s, cell_at s 0 v, cell_at s (Suc 0) v, cell_at s 2 v] \<inter> (window_cells s \<union> frame_cells fs) = {}"
      unfolding ex(1-3) [OF v, unfolded s(5)] s(5,6) using low by simp
    show "entry_at s 2 v AND PG_PRESENT = 0" unfolding ex(6) [OF v] by simp
  qed (rule ex(4,5) [OF v])+
  have idx: "indices 3 v = [511, 510, 1]" if "v \<in> {0xFFFFFFFF80200000, 0xFFFFFFFF80201000}" for v
    using that by (auto simp: indices_def upt_rec pt_index_def)
  have tree: "page_tree (window_cells s \<union> frame_cells fs) s (\<lambda>_. 2) (set (range_pages ?start 0x2000))"
    unfolding V
  proof (rule page_tree_directory [OF path])
    fix v w :: addr
    assume "v \<in> {0xFFFFFFFF80200000, 0xFFFFFFFF80201000}" "w \<in> {0xFFFFFFFF80200000, 0xFFFFFFFF80201000}"
    then have "indices 3 v = indices 3 w" using idx [of v] idx [of w] by (simp only:)
    then show "indices 2 v = indices 2 w" by (rule indices_below) simp
  qed
  have "indices 3 ` set (range_pages ?start 0x2000) = {[511, 510, 1]}" unfolding V using idx by auto
  then have miss: "missing (\<lambda>_. 2) (set (range_pages ?start 0x2000)) = 1" by (simp add: missing_directory)
  have fl: "?fl AND MAP_IMMEDIATE \<noteq> 0" "?fl AND MAP_RW \<noteq> 0" by (simp_all add: MAP_RW_def MAP_IMMEDIATE_def PG_RW_def)
  obtain s' ps where s': "map_range ?start 0x2000 ?fl s = Inr ((), s')" "length ps = 2"
      "\<forall>i < 2. \<forall>off < 4096. translate s' (?start + 4096 * of_nat i + off) = Some (ps ! i + off, True)"
      "set ps \<subseteq> set fs" "\<forall>p \<in> frame_cells ps. phys s' p = 0"
    using map_range_correct [OF s(1) tree, of ?fl] miss fl s(2) zero by auto
  have f: "ps ! 1 \<in> set ps" using s'(2) by (intro nth_mem) simp
  then have "page_addr (ps ! 1)" using frames.avail_frame [OF s(1), of "ps ! 1"] s'(4) by blast
  then have "in_frame (ps ! 1) (ps ! 1 + 8)" by (intro in_frame_add page_addr_page) simp_all
  then have "phys s' (ps ! 1 + 8) = 0" using s'(5) f by (auto simp: frame_cells_def)
  moreover have "\<forall>off < 4096. translate s' (?start + 4096 * of_nat 1 + off) = Some (ps ! 1 + off, True)"
    using s'(3) [THEN spec, of 1] by simp
  then have "translate s' (?start + 4096 * of_nat 1 + 8) = Some (ps ! 1 + 8, True)" by (rule allE [of _ 8]) simp
  then have "translate s' 0xFFFFFFFF80201008 = Some (ps ! 1 + 8, True)" by simp
  ultimately show ?thesis using s(1) s'(1,4) f by blast
qed

end
