(* ===== verification/Heap_Boot.thy ===== *)
theory Heap_Boot imports Heap Map_Range begin

text \<open>
  The heap at boot, on the page tables: \<open>initialize_kernel_heap\<close> of \<open>mm/alloc.c\<close> maps the bitmaps at once and the heap
  lazily, with 64 frames for the pages of the bitmaps and 5 for page tables, and then sets the allocator up.
\<close>

section \<open>The pages of the heap\<close>

text \<open>The bitmaps and, behind them, the heap: 2112 pages under one page directory.\<close>

definition heap_pages :: "addr set" where
  "heap_pages = {kernel_heap + 4096 * of_nat i | i. i < 2112}"

lemma range_bitmaps: "set (range_pages kernel_heap 0x40000) = {kernel_heap + 4096 * of_nat i | i. i < 64}"
  by (simp add: set_range_pages)

lemma range_heap: "set (range_pages 0xFFFFFFFF81040000 0x800000) = {kernel_heap + 4096 * of_nat i | i. 64 \<le> i \<and> i < 2112}"
proof -
  have shift: "(0xFFFFFFFF81040000 :: addr) + 4096 * of_nat i = kernel_heap + 4096 * of_nat (64 + i)" for i
    by (simp add: kernel_heap_def)
  show ?thesis
  proof (intro equalityI subsetI)
    fix v assume "v \<in> set (range_pages 0xFFFFFFFF81040000 0x800000)"
    then obtain i where "i < 2048" "v = 0xFFFFFFFF81040000 + 4096 * of_nat i" by (auto simp: set_range_pages)
    then have "v = kernel_heap + 4096 * of_nat (64 + i)" "64 \<le> 64 + i" "64 + i < 2112" using shift by simp_all
    then show "v \<in> {kernel_heap + 4096 * of_nat i | i. 64 \<le> i \<and> i < 2112}" by blast
  next
    fix v assume "v \<in> {kernel_heap + 4096 * of_nat i | i. 64 \<le> i \<and> i < 2112}"
    then obtain i where "64 \<le> i" "i < 2112" "v = kernel_heap + 4096 * of_nat i" by blast
    then have "v = 0xFFFFFFFF81040000 + 4096 * of_nat (i - 64)" "i - 64 < 2048" using shift [of "i - 64"] by simp_all
    then show "v \<in> set (range_pages 0xFFFFFFFF81040000 0x800000)" by (auto simp: set_range_pages)
  qed
qed

lemma heap_pages_split: "heap_pages = set (range_pages kernel_heap 0x40000) \<union> set (range_pages 0xFFFFFFFF81040000 0x800000)"
proof -
  have "i < 2112 \<longleftrightarrow> i < 64 \<or> 64 \<le> i \<and> i < 2112" for i :: nat by auto
  then show ?thesis unfolding range_bitmaps range_heap heap_pages_def by blast
qed

lemma heap_pages_range: "heap_pages = set (range_pages kernel_heap 0x840000)"
  by (simp add: heap_pages_def set_range_pages)

lemma heap_pages_inj: "finite heap_pages" "inj_on (indices 4) heap_pages" "kernel_heap AND 0xFFF = 0"
proof -
  show a: "kernel_heap AND 0xFFF = 0" by (simp add: kernel_heap_def)
  show "finite heap_pages" by (simp add: heap_pages_range)
  show "inj_on (indices 4) heap_pages" unfolding heap_pages_range by (rule range_pages_inj(1) [OF a]) simp
qed

lemma unat_heap_page: "i < 2112 \<Longrightarrow> unat (kernel_heap + 4096 * of_nat i) = 0xFFFFFFFF81000000 + 4096 * i"
proof -
  assume i: "i < 2112"
  have "kernel_heap + 4096 * of_nat i = (of_nat (0xFFFFFFFF81000000 + 4096 * i) :: u64)" by (simp add: kernel_heap_def)
  then show ?thesis using i unat_of_nat_u64 [of "0xFFFFFFFF81000000 + 4096 * i"] by simp
qed

lemma heap_page_indices:
  assumes "i < 2112"
  shows "indices 2 (kernel_heap + 4096 * of_nat i) = [511, 510]"
    "indices 3 (kernel_heap + 4096 * of_nat i) = [511, 510, of_nat (8 + i div 512)]"
proof -
  let ?v = "kernel_heap + 4096 * of_nat i :: addr"
  have list: "[0..<2] = [0, Suc 0]" "[0..<3] = [0, Suc 0, 2]" by (simp_all add: upt_rec)
  have u: "unat ?v = 0xFFFFFFFF81000000 + 4096 * i" by (rule unat_heap_page [OF assms])
  have d: "(0xFFFFFFFF81000000 + 4096 * i) div 2 ^ 39 = 33554431" "(0xFFFFFFFF81000000 + 4096 * i) div 2 ^ 30 = 17179869182"
    by (rule div_nat_eqI; use assms in simp)+
  have e: "(0xFFFFFFFF81000000 + 4096 * i) div 2 ^ 21 = 8796093021192 + i div 512"
  proof -
    obtain q r where i: "i = 512 * q + r" "r < 512" using mod_less_divisor [of 512 i] by (metis div_mod_decomp mult.commute zero_less_numeral)
    have "(0xFFFFFFFF81000000 + 4096 * i) div 2 ^ 21 = 8796093021192 + q" by (rule div_nat_eqI; use i in simp)
    moreover have "i div 512 = q" by (rule div_nat_eqI; use i in simp)
    ultimately show ?thesis by simp
  qed
  have i4: "pt_index 4 ?v = 511" using unat_pt_index [of 3 ?v] d(1) by (simp add: u word_unat_eq_iff)
  have i3: "pt_index 3 ?v = 510" using unat_pt_index [of 2 ?v] d(2) by (simp add: u word_unat_eq_iff)
  have "8796093021192 + i div 512 = (8 + i div 512) + 512 * 17179869182" by simp
  then have "(8796093021192 + i div 512) mod 512 = (8 + i div 512) mod 512" by (simp only: mod_mult_self2)
  also have "\<dots> = 8 + i div 512" using assms by (intro mod_less) simp
  finally have "unat (pt_index 2 ?v) = 8 + i div 512" using unat_pt_index [of 1 ?v] e by (simp add: u numeral_2_eq_2)
  moreover have "unat (of_nat (8 + i div 512) :: u64) = 8 + i div 512" by (rule unat_of_nat_u64) (use assms in simp)
  ultimately have i2: "pt_index 2 ?v = of_nat (8 + i div 512)" by (simp only: word_unat_eq_iff)
  show "indices 2 ?v = [511, 510]" "indices 3 ?v = [511, 510, of_nat (8 + i div 512)]"
    unfolding indices_def list using i2 i3 i4 by simp_all
qed

text \<open>Five page tables are missing.\<close>

lemma heap_page_tables: "missing (\<lambda>_. 2) heap_pages = 5"
proof -
  have "indices 3 ` heap_pages = (\<lambda>j. [511, 510, of_nat (8 + j)]) ` {..<5}"
  proof (intro equalityI subsetI)
    fix x assume "x \<in> indices 3 ` heap_pages"
    then obtain i where i: "i < 2112" "x = indices 3 (kernel_heap + 4096 * of_nat i)" unfolding heap_pages_def by blast
    then have "x = [511, 510, of_nat (8 + i div 512)]" using heap_page_indices(2) by simp
    moreover have "i div 512 < 5" using i(1) by linarith
    ultimately show "x \<in> (\<lambda>j. [511, 510, of_nat (8 + j)]) ` {..<5}" by blast
  next
    fix x :: "u64 list" assume "x \<in> (\<lambda>j. [511, 510, of_nat (8 + j)]) ` {..<5}"
    then obtain j where j: "j < 5" "x = [511, 510, of_nat (8 + j)]" by blast
    have "512 * j < 2112" using j(1) by simp
    moreover from this have "x = indices 3 (kernel_heap + 4096 * of_nat (512 * j))" using heap_page_indices(2) [of "512 * j"] j(2) by simp
    ultimately show "x \<in> indices 3 ` heap_pages" unfolding heap_pages_def by blast
  qed
  moreover have "inj_on (\<lambda>j. [511, 510, of_nat (8 + j)] :: u64 list) {..<5}"
  proof (rule inj_onI)
    fix j k :: nat assume jk: "j \<in> {..<5}" "k \<in> {..<5}" "[511, 510, of_nat (8 + j)] = ([511, 510, of_nat (8 + k)] :: u64 list)"
    then have "unat (of_nat (8 + j) :: u64) = unat (of_nat (8 + k) :: u64)" by simp
    then show "j = k" using jk(1,2) unat_of_nat_u64 [of "8 + j"] unat_of_nat_u64 [of "8 + k"] by simp
  qed
  ultimately show ?thesis by (simp add: missing_directory card_image)
qed

lemma heap_page_tree:
  assumes "\<forall>v \<in> heap_pages. pt_path X k 2 v"
  shows "page_tree X k (\<lambda>_. 2) heap_pages"
proof (rule page_tree_directory)
  show "pt_path X k 2 v" if "v \<in> heap_pages" for v using assms that by blast
  show "indices 2 v = indices 2 w" if "v \<in> heap_pages" "w \<in> heap_pages" for v w
    using that heap_page_indices(1) unfolding heap_pages_def by auto
qed

section \<open>The two mappings\<close>

lemma bitmaps_not_heap: "v \<in> set (range_pages kernel_heap 0x40000) \<Longrightarrow> v \<notin> set (range_pages 0xFFFFFFFF81040000 0x800000)"
proof
  assume "v \<in> set (range_pages kernel_heap 0x40000)" "v \<in> set (range_pages 0xFFFFFFFF81040000 0x800000)"
  then obtain i j where ij: "i < 64" "v = kernel_heap + 4096 * of_nat i" "64 \<le> j" "j < 2112" "v = kernel_heap + 4096 * of_nat j"
    unfolding range_bitmaps range_heap by blast
  then have "i < 2112" by simp
  then show False using unat_heap_page [of i] unat_heap_page [of j] ij by simp
qed

lemma map_kernel_heap_ok:
  assumes av: "frames_avail k fs" "69 \<le> length fs" and zero: "page_addr (k_zero_page k)"
    and path: "\<forall>v \<in> heap_pages. pt_path (window_cells k \<union> frame_cells fs) k 2 v"
  shows "\<exists>k' ps. map_kernel_heap k = Inr ((), k') \<and> frames_avail k' (drop 69 fs) \<and>
    length ps = 64 \<and> distinct ps \<and> set ps \<subseteq> set fs \<and>
    (\<forall>i < 64. \<forall>off < 4096. translate k' (kernel_heap + 4096 * of_nat i + off) = Some (ps ! i + off, True)) \<and>
    (\<forall>i < 2048. \<forall>off < 4096. translate k' (0xFFFFFFFF81040000 + 4096 * of_nat i + off) = Some (k_zero_page k + off, False)) \<and>
    cr3 k' = cr3 k \<and> k_zero_page k' = k_zero_page k \<and>
    (\<forall>p. p \<notin> window_cells k \<union> frame_cells fs \<union> tree_cells k (\<lambda>_. 2) heap_pages \<longrightarrow> phys k' p = phys k p) \<and>
    (\<forall>a. translate k a \<noteq> None \<longrightarrow> path_of k a \<inter> (window_cells k \<union> frame_cells fs) = {} \<longrightarrow> translate k' a = translate k a) \<and>
    table_counts heap_pages k (\<lambda>_. 2) k' 69"
proof -
  let ?A = "range_pages kernel_heap 0x40000" and ?B = "range_pages 0xFFFFFFFF81040000 0x800000" and ?R = "window_cells k"
  let ?imm = "MAP_RW OR MAP_IMMEDIATE"
  have fl: "?imm AND MAP_IMMEDIATE \<noteq> 0" "?imm AND MAP_RW \<noteq> 0" "\<not> MAP_RW AND MAP_IMMEDIATE \<noteq> 0"
    by (simp_all add: MAP_RW_def MAP_IMMEDIATE_def PG_RW_def)
  note tree = heap_page_tree [OF path] and V = heap_pages_split and inj = heap_pages_inj
  have len: "length ?A = 64" "length ?B = 2048" by (simp_all add: length_range_pages)
  have sub: "set ?A \<subseteq> heap_pages" "set ?B \<subseteq> heap_pages" using V by blast+
  have sz: "(0x40000 :: u64) \<le> 2 ^ 48" "(0x800000 :: u64) \<le> 2 ^ 48" by simp_all
  have start: "(0xFFFFFFFF81040000 :: addr) AND 0xFFF = 0" by simp
  (* the bitmaps *)
  have two: "(2 :: nat) \<le> 3" by simp
  have "missing (\<lambda>_. 2) heap_pages + own_frames (?imm AND MAP_IMMEDIATE \<noteq> 0) (length ?A) \<le> length fs"
    using heap_page_tables len(1) av(2) by simp
  from map_range_tree [OF av(1) tree inj sz(1) sub(1) two this zero]
  obtain k1 lev1 m1 ps where k1: "map_range kernel_heap 0x40000 ?imm k = Inr ((), k1)" "frames_avail k1 (drop m1 fs)" "window_cells k1 = ?R"
      "k_zero_page k1 = k_zero_page k" "page_tree (?R \<union> frame_cells (drop m1 fs)) k1 lev1 heap_pages"
      "grows ?R (take m1 fs) heap_pages (set ?A) k (\<lambda>_. 2) k1 lev1"
      "m1 + missing lev1 heap_pages = missing (\<lambda>_. 2) heap_pages + own_frames (?imm AND MAP_IMMEDIATE \<noteq> 0) (length ?A)" "length ps = length ?A"
      "\<forall>i < length ps. lev1 (?A ! i) = 4 \<and> same_entry (entry_at k1 3 (?A ! i)) (ps ! i OR convert_flags ?imm) \<and> page_addr (ps ! i)"
      "if ?imm AND MAP_IMMEDIATE \<noteq> 0 then distinct ps \<and> set ps \<subseteq> set (take m1 fs) \<and> (\<forall>p \<in> frame_cells ps. phys k1 p = 0)
       else set ps \<subseteq> {k_zero_page k}"
    by blast
  have m1: "m1 + missing lev1 heap_pages = 69" using k1(7) fl(1) len(1) heap_page_tables by simp
  have ps: "length ps = 64" "distinct ps" "set ps \<subseteq> set (take m1 fs)" using k1(8,10) fl(1) len(1) by simp_all
  (* the heap *)
  have lev1: "lev1 v \<le> 3" if vB: "v \<in> set ?B" for v
  proof -
    have "v \<notin> set ?A" using vB bitmaps_not_heap by blast
    moreover have "v \<in> heap_pages" using vB sub(2) by blast
    ultimately show ?thesis using k1(6) two unfolding grows_def by blast
  qed
  have zero1: "page_addr (k_zero_page k1)" using zero k1(4) by simp
  have "missing lev1 heap_pages + own_frames (MAP_RW AND MAP_IMMEDIATE \<noteq> 0) (length ?B) \<le> length (drop m1 fs)"
    using m1 av(2) fl(3) by simp
  from map_range_tree [OF k1(2) k1(5)[folded k1(3)] inj(1,2) start sz(2) sub(2) lev1 this zero1]
  obtain k2 lev2 m2 qs where k2: "map_range 0xFFFFFFFF81040000 0x800000 MAP_RW k1 = Inr ((), k2)" "frames_avail k2 (drop m2 (drop m1 fs))"
      "k_zero_page k2 = k_zero_page k1" "page_tree (window_cells k1 \<union> frame_cells (drop m2 (drop m1 fs))) k2 lev2 heap_pages"
      "grows (window_cells k1) (take m2 (drop m1 fs)) heap_pages (set ?B) k1 lev1 k2 lev2"
      "m2 + missing lev2 heap_pages = missing lev1 heap_pages + own_frames (MAP_RW AND MAP_IMMEDIATE \<noteq> 0) (length ?B)" "length qs = length ?B"
      "\<forall>i < length qs. lev2 (?B ! i) = 4 \<and> same_entry (entry_at k2 3 (?B ! i)) (qs ! i OR convert_flags MAP_RW) \<and> page_addr (qs ! i)"
      "if MAP_RW AND MAP_IMMEDIATE \<noteq> 0 then distinct qs \<and> set qs \<subseteq> set (take m2 (drop m1 fs)) \<and> (\<forall>p \<in> frame_cells qs. phys k2 p = 0)
       else set qs \<subseteq> {k_zero_page k1}"
    by blast
  have qs: "qs ! i = k_zero_page k" if "i < 2048" for i
  proof -
    have "qs ! i \<in> set qs" using k2(7) len(2) that by simp
    then show ?thesis using k2(9) fl(3) k1(4) by auto
  qed
  (* what is mapped *)
  have frames: "window_cells k1 \<union> frame_cells (take m2 (drop m1 fs)) \<subseteq> ?R \<union> frame_cells (drop m1 fs)"
    using frame_cells_mono [OF set_take_subset, of m2 "drop m1 fs"] k1(3) by blast
  have A: "lev2 (?A ! i) = 4 \<and> same_entry (entry_at k2 3 (?A ! i)) (ps ! i OR convert_flags ?imm) \<and> page_addr (ps ! i)" if i: "i < 64" for i
  proof -
    have v: "?A ! i \<in> heap_pages" using i len(1) by (intro subsetD [OF sub(1)] nth_mem) simp
    have l: "lev1 (?A ! i) = 4" and e: "same_entry (entry_at k1 3 (?A ! i)) (ps ! i OR convert_flags ?imm)"
      and p: "page_addr (ps ! i)" using k1(9) [unfolded ps(1)] i by blast+
    note g = grows_mapped [OF k2(5) k1(5) k2(4) frames v l]
    show ?thesis using g(1) same_entry_trans [OF g(2) e] p by (intro conjI)
  qed
  have "lev2 v = 4" if vV: "v \<in> heap_pages" for v
  proof -
    consider i where "i < 64" "v = ?A ! i" | i where "i < length qs" "v = ?B ! i"
      using vV len k2(7) unfolding V Un_iff in_set_conv_nth by metis
    then show ?thesis using A k2(8) by cases blast+
  qed
  then have "missing lev2 heap_pages = 0" by (rule missing_mapped)
  then have m: "drop m2 (drop m1 fs) = drop 69 fs" using k2(6) m1 fl(3) by (simp add: add.commute)
  have tA: "translate k2 (kernel_heap + 4096 * of_nat i + off) = Some (ps ! i + off, True)" if i: "i < 64" "off < 4096" for i off
    using range_translate [OF k2(4) sub(1) inj(3) _ i(2) A [OF i(1)]] i(1) len(1) fl by simp
  have tB: "translate k2 (0xFFFFFFFF81040000 + 4096 * of_nat i + off) = Some (k_zero_page k + off, False)" if i: "i < 2048" "off < 4096" for i off
  proof -
    have "i < length ?B" "i < length qs" using i(1) k2(7) len(2) by simp_all
    then show ?thesis
      using range_translate [OF k2(4) sub(2) start _ i(2) spec [OF k2(8), THEN mp]] fl(3) qs [OF i(1)] by simp
  qed
  have other: "translate k2 a = translate k a"
    if a: "translate k a \<noteq> None" "path_of k a \<inter> (?R \<union> frame_cells fs) = {}" for a
  proof -
    have "frame_cells (take m1 fs) \<subseteq> frame_cells fs" by (rule frame_cells_mono [OF set_take_subset])
    then have "path_of k a \<inter> (?R \<union> frame_cells (take m1 fs)) = {}" using a(2) by blast
    note 1 = grows_translate [OF k1(6) a(1) this]
    have "frame_cells (take m2 (drop m1 fs)) \<subseteq> frame_cells fs"
      by (rule frame_cells_mono [OF order_trans [OF set_take_subset set_drop_subset]])
    then have "path_of k1 a \<inter> (window_cells k1 \<union> frame_cells (take m2 (drop m1 fs))) = {}" using a(2) k1(3) 1(2) by blast
    moreover have "translate k1 a \<noteq> None" using 1(1) a(1) by simp
    ultimately show ?thesis using grows_translate(1) [OF k2(5)] 1(1) by simp
  qed
  note u1 = grows_unchanged [OF k1(6)] and u2 = grows_unchanged [OF k2(5)]
  have cr: "cr3 k2 = cr3 k" using u1(1) u2(1) by simp
  have same: "phys k2 p = phys k p" if p: "p \<notin> ?R \<union> frame_cells fs \<union> tree_cells k (\<lambda>_. 2) heap_pages" for p
  proof -
    have f: "frame_cells (take m1 fs) \<subseteq> frame_cells fs" "frame_cells (take m2 (drop m1 fs)) \<subseteq> frame_cells fs"
      by (rule frame_cells_mono [OF set_take_subset], rule frame_cells_mono [OF order_trans [OF set_take_subset set_drop_subset]])
    have "p \<notin> ?R \<union> frame_cells (take m1 fs) \<union> tree_cells k (\<lambda>_. 2) heap_pages" using p f(1) by blast
    then have "phys k1 p = phys k p" by (rule u1(3))
    moreover have "p \<notin> window_cells k1 \<union> frame_cells (take m2 (drop m1 fs)) \<union> tree_cells k1 lev1 heap_pages"
      using p f u1(2) k1(3) by blast
    then have "phys k2 p = phys k1 p" by (rule u2(3))
    ultimately show ?thesis by simp
  qed
  have counts: "table_counts heap_pages k (\<lambda>_. 2) k2 69"
  proof -
    have "m1 + m2 = 69" using m1 k2(6) fl(3) \<open>missing lev2 heap_pages = 0\<close> by simp
    then have "length (take m1 fs @ take m2 (drop m1 fs)) = 69" using av(2) by simp
    moreover have "table_counts heap_pages k (\<lambda>_. 2) k2 (length (take m1 fs @ take m2 (drop m1 fs)))"
      using grows_trans [OF k1(6) k2(5)[unfolded k1(3)]] by (simp add: grows_def)
    ultimately show ?thesis by simp
  qed
  have "map_kernel_heap k = Inr ((), k2)" using k1(1) k2(1) by (simp add: map_kernel_heap_def thenS_apply)
  moreover have "set ps \<subseteq> set fs" using ps(3) set_take_subset by (rule order_trans)
  ultimately show ?thesis using k1(4) k2(2,3) m ps(1,2) tA tB cr same other counts by (intro exI [of _ k2] exI [of _ ps]) simp
qed

section \<open>Initialisation\<close>

text \<open>
  \<open>initialize_kernel_heap\<close>. With the page directory of the heap in place, none of its page tables, and 69
  frames, it returns: 64 frames become the pages of the bitmaps, writable at once, and 5 the page tables; every page of
  the heap shows the zero page without write access, until it is first written. When the first page of the heap reads as
  zeros, the allocator's invariant holds for a heap of 8 MiB at \<open>0xFFFFFFFF81040000\<close>, in blocks of 64 bytes or more,
  that is one free block; its bitmaps lie in front of it. Memory other than the window entries, the free frames and the
  table cells above the heap is as before, the counts in the upper two of these have grown by 69 at most, and mapped addresses whose walk reads no free frame and no window
  entry keep their translation.
\<close>

lemma initialize_kernel_heap_ok:
  assumes "load_u64 (hp_mem (ms_heap s)) 0xFFFFFFFF81040000 = 0" "load_u64 (hp_mem (ms_heap s)) 0xFFFFFFFF81040008 = 0"
    and "frames_avail (ms_kernel s) fs" "69 \<le> length fs" "page_addr (k_zero_page (ms_kernel s))"
    and "\<forall>v \<in> heap_pages. pt_path (window_cells (ms_kernel s) \<union> frame_cells fs) (ms_kernel s) 2 v"
  shows "\<exists>k h ps. initialize_kernel_heap s = Inr ((), s\<lparr>ms_kernel := k, ms_heap := h\<rparr>) \<and>
    heap_ok 23 17 fresh_tree h \<and> links_ok 17 h \<and> al_memory h = 0xFFFFFFFF81040000 \<and> meta 17 h \<subseteq> area_of kernel_heap 0x40000 \<and>
    frames_avail k (drop 69 fs) \<and> length ps = 64 \<and> distinct ps \<and> set ps \<subseteq> set fs \<and>
    (\<forall>i < 64. \<forall>off < 4096. translate k (kernel_heap + 4096 * of_nat i + off) = Some (ps ! i + off, True)) \<and>
    (\<forall>i < 2048. \<forall>off < 4096. translate k (0xFFFFFFFF81040000 + 4096 * of_nat i + off)
       = Some (k_zero_page (ms_kernel s) + off, False)) \<and>
    cr3 k = cr3 (ms_kernel s) \<and> k_zero_page k = k_zero_page (ms_kernel s) \<and>
    (\<forall>p. p \<notin> window_cells (ms_kernel s) \<union> frame_cells fs \<union> tree_cells (ms_kernel s) (\<lambda>_. 2) heap_pages \<longrightarrow>
       phys k p = phys (ms_kernel s) p) \<and>
    (\<forall>a. translate (ms_kernel s) a \<noteq> None \<longrightarrow> path_of (ms_kernel s) a \<inter> (window_cells (ms_kernel s) \<union> frame_cells fs) = {} \<longrightarrow>
       translate k a = translate (ms_kernel s) a) \<and>
    table_counts heap_pages (ms_kernel s) (\<lambda>_. 2) k 69"
proof -
  obtain k ps where k: "map_kernel_heap (ms_kernel s) = Inr ((), k)" "frames_avail k (drop 69 fs)" "length ps = 64" "distinct ps" "set ps \<subseteq> set fs"
      "\<forall>i < 64. \<forall>off < 4096. translate k (kernel_heap + 4096 * of_nat i + off) = Some (ps ! i + off, True)"
      "\<forall>i < 2048. \<forall>off < 4096. translate k (0xFFFFFFFF81040000 + 4096 * of_nat i + off) = Some (k_zero_page (ms_kernel s) + off, False)"
      "cr3 k = cr3 (ms_kernel s)" "k_zero_page k = k_zero_page (ms_kernel s)"
      "\<forall>p. p \<notin> window_cells (ms_kernel s) \<union> frame_cells fs \<union> tree_cells (ms_kernel s) (\<lambda>_. 2) heap_pages \<longrightarrow> phys k p = phys (ms_kernel s) p"
      "\<forall>a. translate (ms_kernel s) a \<noteq> None \<longrightarrow> path_of (ms_kernel s) a \<inter> (window_cells (ms_kernel s) \<union> frame_cells fs) = {} \<longrightarrow>
       translate k a = translate (ms_kernel s) a"
      "table_counts heap_pages (ms_kernel s) (\<lambda>_. 2) k 69"
    using map_kernel_heap_ok [OF assms(3-6)] by blast
  obtain h where h: "initialize_kernel_heap s = mapE (\<lambda>(u, k). (u, s\<lparr>ms_kernel := k, ms_heap := h\<rparr>)) (map_kernel_heap (ms_kernel s))"
      "heap_ok 23 17 fresh_tree h" "links_ok 17 h" "al_memory h = 0xFFFFFFFF81040000" "meta 17 h \<subseteq> area_of kernel_heap 0x40000"
    using initialize_kernel_heap_run [OF assms(1,2)] by blast
  have "initialize_kernel_heap s = Inr ((), s\<lparr>ms_kernel := k, ms_heap := h\<rparr>)" using h(1) k(1) by simp
  then show ?thesis using h(2-5) k(2-12) by blast
qed

end
