(* ===== verification/Vm_Init.thy ===== *)
theory Vm_Init imports Pages_Spec begin

text \<open>
  \<open>initialize_virtual_memory\<close> of \<open>mm/pages.c\<close>: the zero page is taken and cleared through the window of the frame
  allocator, and the identity mapping of the boot code goes.
\<close>

section \<open>Changes of the memory\<close>

text \<open>Two states that differ in the memory only, there only in the cells of \<open>X\<close>.\<close>

definition touches :: "u64 set \<Rightarrow> kernel \<Rightarrow> kernel \<Rightarrow> bool" where
  "touches X s s' \<longleftrightarrow> s' = s\<lparr>phys := phys s'\<rparr> \<and> (\<forall>p. p \<notin> X \<longrightarrow> phys s' p = phys s p)"

lemma touches_refl [simp]: "touches X s s"
  by (simp add: touches_def)

lemma touches_trans:
  assumes "touches X s s'" "touches Y s' s''" "X \<subseteq> Z" "Y \<subseteq> Z"
  shows "touches Z s s''"
proof -
  have "s'' = s'\<lparr>phys := phys s''\<rparr>" using assms(2) by (simp only: touches_def)
  also have "\<dots> = s\<lparr>phys := phys s''\<rparr>"
  proof -
    have "s' = s\<lparr>phys := phys s'\<rparr>" using assms(1) by (simp only: touches_def)
    then show ?thesis by (metis kernel.surjective kernel.update_convs(1))
  qed
  finally have "s'' = s\<lparr>phys := phys s''\<rparr>" .
  moreover have "phys s'' p = phys s p" if "p \<notin> Z" for p
    using assms that unfolding touches_def by (metis subsetD)
  ultimately show ?thesis by (simp add: touches_def)
qed

lemma touches_store: "p \<in> X \<Longrightarrow> touches X s (s\<lparr>phys := (phys s)(p := v)\<rparr>)"
  by (auto simp: touches_def)

lemma touches_cr3: "touches X s s' \<Longrightarrow> cr3 s' = cr3 s"
  unfolding touches_def by (metis kernel.select_convs(2) kernel.surjective kernel.update_convs(1))

lemma touches_preserves: "touches X s s' \<Longrightarrow> preserves X s s'"
  unfolding preserves_def
proof (intro conjI allI impI)
  assume t: "touches X s s'"
  then show "cr3 s' = cr3 s" by (rule touches_cr3)
  show "same_entry (phys s' p) (phys s p)" if "p \<notin> X" for p using t that by (simp add: touches_def)
qed

lemma zero_page_windows [simp]:
  "windows_ok (s\<lparr>k_zero_page := z\<rparr>) = windows_ok s" "window_cell (s\<lparr>k_zero_page := z\<rparr>) = window_cell s"
  "zero_cell (s\<lparr>k_zero_page := z\<rparr>) = zero_cell s" "window_tables (s\<lparr>k_zero_page := z\<rparr>) = window_tables s"
  "window_node (s\<lparr>k_zero_page := z\<rparr>) = window_node s" "window_cells (s\<lparr>k_zero_page := z\<rparr>) = window_cells s"
  by (simp_all add: windows_ok_def self_mapped_def tables_ok_def entry_at_def window_cell_def zero_cell_def
      window_tables_def window_node_def window_cells_def)

lemma zero_page_avail [simp]: "frames_avail (s\<lparr>k_zero_page := z\<rparr>) fs = frames_avail s fs"
proof -
  have "managed (s\<lparr>k_zero_page := z\<rparr>) f = managed s f" for f by (simp only: managed_def zero_page_windows)
  moreover have "phys (s\<lparr>k_zero_page := z\<rparr>) = phys s" "k_fa (s\<lparr>k_zero_page := z\<rparr>) = k_fa s"
      "k_mem_map (s\<lparr>k_zero_page := z\<rparr>) = k_mem_map s" by simp_all
  ultimately have "frames_inv (s\<lparr>k_zero_page := z\<rparr>) stack fresh used = frames_inv s stack fresh used" for stack fresh used
    by (simp only: frames_inv_def stack_inv_def fresh_inv_def owner_inv_def zero_page_windows)
  then show ?thesis by (simp only: frames_avail_def)
qed

text \<open>The allocator does not depend on what the window of \<open>zero_frame\<close> shows.\<close>

lemma avail_touched:
  assumes av: "frames_avail s fs" and t: "touches X s s'"
    and tab: "\<And>p. p \<in> window_tables s \<Longrightarrow> same_entry (phys s' p) (phys s p)"
    and X: "window_cell s \<notin> X" "frame_cells fs \<inter> X = {}"
  shows "frames_avail s' fs" "window_cells s' = window_cells s" "window_tables s' = window_tables s"
proof -
  obtain stack fresh used where inv: "frames_inv s stack fresh used" and fs: "fs = stack @ fresh"
    using av by (auto simp: frames_avail_def)
  have s': "s' = s\<lparr>phys := phys s'\<rparr>" and keep: "\<And>p. p \<notin> X \<Longrightarrow> phys s' p = phys s p" using t by (auto simp: touches_def)
  have "phys s' p = phys s p" if "f \<in> set stack" "in_frame f p" for f p
  proof -
    have "p \<in> frame_cells fs" unfolding frame_cells_def fs using that by auto
    then show ?thesis using X(2) by (intro keep) auto
  qed
  then have stable: "frames_inv s' stack fresh used" "window_cell s' = window_cell s" "zero_cell s' = zero_cell s"
      "window_tables s' = window_tables s"
    using frames_inv_stable [OF inv tab keep [OF X(1)]] s' by metis+
  show "frames_avail s' fs" unfolding frames_avail_def using stable(1) fs by blast
  show "window_cells s' = window_cells s" "window_tables s' = window_tables s" by (simp_all add: window_cells_def stable)
qed

section \<open>The steps\<close>

text \<open>\<open>ptes\<close> for an address whose second table exists; what comes below may be a large page.\<close>

lemma translate_below_huge:
  assumes "self_mapped s" "tables_ok s 2 va" "entry_at s 2 va AND PG_PRESENT \<noteq> 0"
  shows "translate s (pte_ptr 3 va) = Some (cell_at s 3 va, entry_at s 2 va AND PG_RW \<noteq> 0)"
proof -
  have self: "table_entry (phys s (cr3 s + 4080))" "phys s (cr3 s + 4080) AND PHYS_ADDR_MASK = cr3 s"
    using assms(1) by (auto simp: self_mapped_def)
  have tab: "table_entry (entry_at s 0 va)" "table_entry (entry_at s (Suc 0) va)"
    using assms(2) by (simp_all add: tables_ok_def)
  note simps = translate_def walk_tables walk_leaf pte_ptr_simps pt_index_pte_step page_offset_pte_step
    entry_cell_simps entry_at_def
  show ?thesis using self tab assms(3) by (simp add: simps)
qed

lemma ptes_upper:
  assumes "self_mapped s" "tables_ok s 2 va"
  shows "\<exists>msk. ptes va s = Inr (\<lparr>entries = map (\<lambda>k. pte_ptr k va) [0..<4], present_mask = msk\<rparr>, s)"
proof -
  have list: "[0..<4] = [0, Suc 0, 2, 3]" by (simp add: upt_rec)
  have t: "tables_ok s 0 va" "tables_ok s (Suc 0) va" using assms(2) by (simp_all add: tables_ok_def)
  have load: "vload (pte_ptr 0 va) s = Inr (entry_at s 0 va, s)" "vload (pte_ptr (Suc 0) va) s = Inr (entry_at s (Suc 0) va, s)"
      "vload (pte_ptr 2 va) s = Inr (entry_at s 2 va, s)"
    using vload_pte_ptr [OF assms(1)] t assms(2) by simp_all
  have last: "vload (pte_ptr 3 va) s = Inr (phys s (cell_at s 3 va), s)" if "entry_at s 2 va AND PG_PRESENT \<noteq> 0"
    using translate_below_huge [OF assms that] by (simp add: vload_def)
  have pres: "entry_at s 0 va AND PG_PRESENT \<noteq> 0" "entry_at s (Suc 0) va AND PG_PRESENT \<noteq> 0"
    using assms(2) by (simp_all add: tables_ok_def table_entry_def)
  have "\<exists>msk. scan_present (map (\<lambda>k. pte_ptr k va) [0..<4]) 0 0 s = Inr (msk, s)"
    unfolding list using load last pres by (cases "entry_at s 2 va AND PG_PRESENT = 0") (simp_all add: bindS_apply)
  then show ?thesis by (auto simp: ptes_def bindS_apply Let_def pte_ptrs_eq simp del: upt_Suc)
qed

lemma disable_identity_paging_ok:
  assumes "self_mapped s" "tables_ok s 2 0" "cell_at s (Suc 0) 0 \<noteq> self_cell s"
  shows "disable_identity_paging s = Inr ((), s\<lparr>phys := (phys s)(cell_at s (Suc 0) 0 := 0, cell_at s 0 0 := 0)\<rparr>)"
proof -
  have list: "[0..<4] = [0, Suc 0, 2, 3]" by (simp add: upt_rec)
  obtain msk where p: "ptes 0 s = Inr (\<lparr>entries = map (\<lambda>k. pte_ptr k 0) [0..<4], present_mask = msk\<rparr>, s)"
    using ptes_upper [OF assms(1,2)] by blast
  define s1 where "s1 = s\<lparr>phys := (phys s)(cell_at s (Suc 0) 0 := 0)\<rparr>"
  have t: "tables_ok s (Suc 0) 0" using assms(2) by (simp add: tables_ok_def)
  have 1: "vstore (pte_ptr (Suc 0) 0) 0 s = Inr ((), s1)" using vstore_pte_ptr [OF assms(1) t] by (simp add: s1_def)
  have pr: "preserves {cell_at s (Suc 0) 0} s s1" by (simp add: preserves_def s1_def)
  have "self_mapped s1" using self_mapped_preserved [OF pr] assms(1,3) by simp
  moreover have "cell_at s1 0 0 = cell_at s 0 0" by (simp add: entry_cell_simps s1_def)
  ultimately have 2: "vstore (pte_ptr 0 0) 0 s1 = Inr ((), s1\<lparr>phys := (phys s1)(cell_at s 0 0 := 0)\<rparr>)"
    using vstore_pte_ptr [of s1 0 0] by (simp add: tables_ok_def)
  show ?thesis
    unfolding disable_identity_paging_def bindS_apply p bindE_Inr prod.case pt_entries.simps list
    by (simp add: thenS_apply 1 2) (simp add: s1_def)
qed

text \<open>An address with a page table; whether the page itself is mapped does not matter.\<close>

definition table_path :: "kernel \<Rightarrow> addr \<Rightarrow> bool" where
  "table_path s va \<longleftrightarrow> self_mapped s \<and> tables_ok s 3 va \<and> distinct [self_cell s, cell_at s 0 va, cell_at s (Suc 0) va, cell_at s 2 va, cell_at s 3 va]"

definition table_cells :: "kernel \<Rightarrow> addr \<Rightarrow> u64 set" where
  "table_cells s va = {self_cell s, cell_at s 0 va, cell_at s (Suc 0) va, cell_at s 2 va}"

lemma table_path_pt:
  assumes "table_path s va"
  shows "\<exists>n. 3 \<le> n \<and> pt_path {} s n va"
proof -
  have list: "map (\<lambda>k. cell_at s k va) [0..<Suc (min n 3)] = [cell_at s 0 va, cell_at s (Suc 0) va, cell_at s 2 va, cell_at s 3 va]"
    if "3 \<le> n" for n
  proof -
    have "Suc (min n 3) = 4" "[0..<4] = [0, Suc 0, 2, 3]" using that by (simp_all add: upt_rec)
    then show ?thesis by (simp only: list.map)
  qed
  have *: "present_levels s n va \<Longrightarrow> 3 \<le> n \<Longrightarrow> pt_path {} s n va" for n
    unfolding pt_path_def Let_def using assms by (simp only: list table_path_def Int_empty_right simp_thms)
  show ?thesis
  proof (cases "entry_at s 3 va AND PG_PRESENT = 0")
    case True
    then have "present_levels s 3 va" using assms by (simp add: present_levels_def table_path_def)
    then show ?thesis using * by blast
  next
    case False
    then have "present_levels s 4 va" using assms by (simp add: present_levels_def table_path_def)
    then show ?thesis using * [of 4] by (intro exI [of _ 4]) simp
  qed
qed

lemma table_path_same:
  assumes t: "table_path s va" and same: "\<And>p. p \<in> table_cells s va \<Longrightarrow> same_entry (phys s' p) (phys s p)" and cr: "cr3 s' = cr3 s"
  shows "table_path s' va" "k \<le> 3 \<Longrightarrow> cell_at s' k va = cell_at s k va" "table_cells s' va = table_cells s va"
proof -
  have p: "preserves (- table_cells s va) s s'" using same cr by (simp add: preserves_def)
  have out: "cell_at s j va \<notin> - table_cells s va" if "j < 3" for j
  proof -
    have "j = 0 \<or> j = Suc 0 \<or> j = 2" using that by linarith
    then show ?thesis by (auto simp: table_cells_def)
  qed
  show c: "cell_at s' k va = cell_at s k va" if "k \<le> 3" for k
    by (rule cells_preserved [OF p]) (use out that in simp)
  show "table_cells s' va = table_cells s va"
    unfolding table_cells_def using c [of 0] c [of "Suc 0"] c [of 2] cr by simp
  have "self_mapped s'" using self_mapped_preserved [OF p] t by (simp add: table_path_def table_cells_def)
  moreover have "tables_ok s' 3 va" using tables_ok_preserved [OF p out] t by (simp add: table_path_def)
  ultimately show "table_path s' va"
    using t c [of 0] c [of "Suc 0"] c [of 2] c [of 3] cr by (simp add: table_path_def)
qed

lemma map_page_leaf:
  assumes t: "table_path s va" and va: "va AND 0xFFF = 0" and ph: "page_addr physical"
  shows "\<exists>s'. map_page va physical flags s = Inr ((), s') \<and> touches {cell_at s 2 va, cell_at s 3 va} s s' \<and>
    same_entry (phys s' (cell_at s 2 va)) (phys s (cell_at s 2 va)) \<and> phys s' (cell_at s 3 va) = physical OR flags \<and>
    phys s' (cell_at s 2 va) = (if entry_at s 3 va AND PG_PRESENT = 0 then entry_at s 2 va + push_bit PG_REFCOUNT_OFFSET 1 else entry_at s 2 va)"
proof -
  obtain n where n: "3 \<le> n" "pt_path {} s n va" using table_path_pt [OF t] by blast
  then have pre: "self_mapped s" "present_levels s n va" "tables_ok s 3 va" by (simp_all add: pt_path_iff present_levels_def)
  have tab2: "tables_ok s 2 va" using pre(3) by (simp add: tables_ok_def)
  have dist: "cell_at s 2 va \<noteq> cell_at s 3 va" "self_cell s \<noteq> cell_at s 2 va" using t by (auto simp: table_path_def)
  define s1 where "s1 = (if n = 3 then s\<lparr>phys := (phys s)(cell_at s 2 va := entry_at s 2 va + push_bit PG_REFCOUNT_OFFSET 1)\<rparr> else s)"
  have e: "same_entry (phys s1 (cell_at s 2 va)) (phys s (cell_at s 2 va))"
    using same_entry_counter(1) by (simp add: s1_def entry_at_def)
  have tou: "touches {cell_at s 2 va} s s1" by (simp add: s1_def touches_store)
  have "same_entry (phys s1 p) (phys s p)" for p
    using e tou by (cases "p = cell_at s 2 va") (simp_all add: touches_def)
  note s1 = table_path_same [OF t this touches_cr3 [OF tou]]
  have n4: "n \<noteq> 3 \<Longrightarrow> n = 4" using n(1) pre(2) by (simp add: present_levels_def)
  have msk: "mask n AND push_bit 3 1 = (0 :: u32) \<longleftrightarrow> n = 3" using mask_bit [of n 3] n4 n(1) by auto
  have inc: "(if n = 3 then increase_counter (pte_ptr 2 va) else returnS ()) s = Inr ((), s1)"
    using increase_counter_eq [OF pre(1) tab2] by (simp add: s1_def)
  define s2 where "s2 = s1\<lparr>phys := (phys s1)(cell_at s 3 va := physical OR flags)\<rparr>"
  have store: "vstore (pte_ptr 3 va) (physical OR flags) s1 = Inr ((), s2)"
    using vstore_pte_ptr [of s1 3 va] s1(1,2) by (simp add: table_path_def s2_def)
  have "map_page va physical flags s = Inr ((), s2)"
  proof -
    have "mask n AND push_bit 2 1 \<noteq> (0 :: u32)" using mask_bit [of n 2] n(1) by simp
    moreover have "map (\<lambda>k. pte_ptr k va) [0..<4] ! 3 = pte_ptr 3 va" by simp
    moreover have "va mod 4096 = 0" "physical mod 4096 = 0" using va page_addr_page [OF ph] by (simp_all add: mod_4096)
    ultimately show ?thesis
      by (simp only: map_page_def map_page_from_def bindS_apply thenS_apply ptes_result [OF pre(1,2)] pt_entries.simps msk if_False if_True inc bindE_Inr prod.case store entries_nth simp_thms returnS_apply assertS_apply assertE_True)
  qed
  moreover have "touches {cell_at s 3 va} s1 s2" by (simp add: s2_def touches_store)
  then have "touches {cell_at s 2 va, cell_at s 3 va} s s2" by (rule touches_trans [OF tou]) simp_all
  moreover have "phys s2 (cell_at s 2 va) = phys s1 (cell_at s 2 va)" using dist(1) by (simp add: s2_def)
  moreover have "n = 3 \<longleftrightarrow> entry_at s 3 va AND PG_PRESENT = 0"
    using n4 pre(2) by (cases "n = 3") (simp_all add: present_levels_def)
  then have "phys s1 (cell_at s 2 va) =
      (if entry_at s 3 va AND PG_PRESENT = 0 then entry_at s 2 va + push_bit PG_REFCOUNT_OFFSET 1 else entry_at s 2 va)"
    by (simp add: s1_def) (simp add: entry_at_def)
  ultimately show ?thesis using e by (intro exI [of _ s2]) (simp add: s2_def)
qed

lemma unmap_page_leaf:
  assumes t: "table_path s va" and va: "va AND 0xFFF = 0"
    and count: "(entry_at s 2 va - push_bit PG_REFCOUNT_OFFSET 1) AND PG_REFCOUNT_MASK \<noteq> 0"
  shows "\<exists>s'. unmap_page va fl s = Inr (entry_at s 3 va AND PHYS_ADDR_MASK, s') \<and> touches {cell_at s 2 va} s s' \<and>
    (\<forall>p. same_entry (phys s' p) (phys s p)) \<and> phys s' (cell_at s 2 va) = entry_at s 2 va - push_bit PG_REFCOUNT_OFFSET 1"
proof -
  obtain n where n: "3 \<le> n" "pt_path {} s n va" using table_path_pt [OF t] by blast
  let ?s = "s\<lparr>phys := (phys s)(cell_at s 2 va := entry_at s 2 va - push_bit PG_REFCOUNT_OFFSET 1)\<rparr>"
  have "same_entry (phys ?s p) (phys s p)" for p using same_entry_counter(2) by (simp add: entry_at_def)
  moreover have "phys ?s (cell_at s 2 va) = entry_at s 2 va - push_bit PG_REFCOUNT_OFFSET 1" by simp
  ultimately show ?thesis using unmap_page_counted [OF n(2,1) va count] touches_store [of "cell_at s 2 va"] by blast
qed

section \<open>The whole initialisation\<close>

definition identity_cells :: "kernel \<Rightarrow> u64 set" where
  "identity_cells s = {cell_at s 0 0, cell_at s (Suc 0) 0}"

lemma window_table_cells: "table_cells s ZERO_WINDOW = window_tables s" "cell_at s 3 ZERO_WINDOW = zero_cell s"
  unfolding table_cells_def window_tables_alt by (simp_all add: zero_window_tables zero_cell_def)

lemma page_addr_masked: "page_addr (x AND PHYS_ADDR_MASK)"
  unfolding page_addr_def by (simp add: and.assoc)

text \<open>The window of \<open>zero_frame\<close> is taken down, shows the frame to clear it, and is put back.\<close>

lemma zero_page_cleared:
  assumes t: "table_path s ZERO_WINDOW" and f: "page_addr f"
    and out: "\<And>p. in_frame f p \<Longrightarrow> p \<notin> window_tables s" and zero_in: "\<not> in_frame f (zero_cell s)"
    and count: "(entry_at s 2 ZERO_WINDOW - push_bit PG_REFCOUNT_OFFSET 1) AND PG_REFCOUNT_MASK \<noteq> 0"
  shows "\<exists>s'. bindS (unmap_page ZERO_WINDOW 0) (\<lambda>old_addr. thenS (map_page ZERO_WINDOW f (PG_PRESENT OR PG_RW))
      (thenS (vzero_page ZERO_WINDOW) (map_page ZERO_WINDOW old_addr (PG_PRESENT OR PG_RW)))) s = Inr ((), s') \<and>
    touches ({cell_at s 2 ZERO_WINDOW, zero_cell s} \<union> frame_cells [f]) s s' \<and>
    (\<forall>p \<in> window_tables s. same_entry (phys s' p) (phys s p)) \<and> (\<forall>p. in_frame f p \<longrightarrow> p \<noteq> zero_cell s \<longrightarrow> phys s' p = 0) \<and>
    phys s' (cell_at s 2 ZERO_WINDOW) = (if entry_at s 3 ZERO_WINDOW AND PG_PRESENT = 0 then entry_at s 2 ZERO_WINDOW
      else entry_at s 2 ZERO_WINDOW - push_bit PG_REFCOUNT_OFFSET 1)"
proof -
  let ?v = ZERO_WINDOW and ?T = "window_tables s" and ?X = "{cell_at s 2 ZERO_WINDOW, zero_cell s}"
  have al: "?v AND 0xFFF = 0" by (rule window_aligned)
  have "cell_at s 3 ?v \<notin> table_cells s ?v" using t by (auto simp: table_path_def table_cells_def)
  then have zT: "zero_cell s \<notin> ?T" unfolding window_table_cells .
  have cT: "cell_at s 2 ?v \<in> ?T" unfolding window_table_cells(1) [symmetric] by (simp add: table_cells_def)
  have path: "table_path s' ?v \<and> cell_at s' 2 ?v = cell_at s 2 ?v \<and> cell_at s' 3 ?v = zero_cell s"
    if "cr3 s' = cr3 s" "\<forall>p \<in> ?T. same_entry (phys s' p) (phys s p)" for s'
  proof -
    have "same_entry (phys s' p) (phys s p)" if "p \<in> table_cells s ?v" for p
      using that \<open>\<forall>p \<in> ?T. same_entry (phys s' p) (phys s p)\<close> by (simp add: window_table_cells)
    note same = table_path_same [OF t this \<open>cr3 s' = cr3 s\<close>]
    show ?thesis using same(1) same(2) [of 2] same(2) [of 3] by (simp add: window_table_cells)
  qed
  obtain s1 where s1: "unmap_page ?v 0 s = Inr (entry_at s 3 ?v AND PHYS_ADDR_MASK, s1)" "touches {cell_at s 2 ?v} s s1"
      "\<forall>p. same_entry (phys s1 p) (phys s p)" "phys s1 (cell_at s 2 ?v) = entry_at s 2 ?v - push_bit PG_REFCOUNT_OFFSET 1"
    using unmap_page_leaf [OF t al count] by blast
  have p1: "table_path s1 ?v" "cell_at s1 2 ?v = cell_at s 2 ?v" "cell_at s1 3 ?v = zero_cell s"
    using path [OF touches_cr3 [OF s1(2)]] s1(3) by blast+
  obtain s2 where s2: "map_page ?v f (PG_PRESENT OR PG_RW) s1 = Inr ((), s2)" "touches ?X s1 s2"
      "same_entry (phys s2 (cell_at s 2 ?v)) (phys s1 (cell_at s 2 ?v))" "phys s2 (zero_cell s) = f OR (PG_PRESENT OR PG_RW)"
      "phys s2 (cell_at s 2 ?v) = (if entry_at s1 3 ?v AND PG_PRESENT = 0 then entry_at s1 2 ?v + push_bit PG_REFCOUNT_OFFSET 1 else entry_at s1 2 ?v)"
    using map_page_leaf [OF p1(1) al f, of "PG_PRESENT OR PG_RW", unfolded p1(2,3)] by blast
  have cr2: "cr3 s2 = cr3 s" using touches_cr3 [OF s2(2)] touches_cr3 [OF s1(2)] by simp
  have same2: "same_entry (phys s2 p) (phys s p)" if p: "p \<in> ?T" for p
  proof (cases "p = cell_at s 2 ?v")
    case True
    then show ?thesis using same_entry_trans [OF s2(3)] s1(3) by blast
  next
    case False
    then have "phys s2 p = phys s1 p" using s2(2) p zT by (auto simp: touches_def)
    then show ?thesis using s1(3) by simp
  qed
  have p2: "table_path s2 ?v" "cell_at s2 3 ?v = zero_cell s" using path [OF cr2] same2 by blast+
  define s3 where "s3 = s2\<lparr>phys := (\<lambda>p. if in_frame f p then 0 else phys s2 p)\<rparr>"
  have "entry_at s2 3 ?v = f OR 3" unfolding entry_at_def p2(2) s2(4) by (simp add: PG_PRESENT_def PG_RW_def)
  then have "translate s2 (?v + 0) = Some (f + 0, True)"
    using translate_in_page [of s2 ?v 0] al frame_pte [OF f] p2(1) by (simp add: table_path_def)
  moreover have "f AND NOT 0xFFF = f" using page_offset(2) [OF page_addr_page [OF f], of 0] by simp
  ultimately have s3: "vzero_page ?v s2 = Inr ((), s3)" by (simp add: vzero_page_def s3_def)
  have t3: "touches (frame_cells [f]) s2 s3" by (auto simp: touches_def s3_def)
  have same3: "same_entry (phys s3 p) (phys s p)" if p: "p \<in> ?T" for p using same2 [OF p] out p by (auto simp: s3_def)
  have cr3: "cr3 s3 = cr3 s" using cr2 by (simp add: s3_def)
  have p3: "table_path s3 ?v" "cell_at s3 2 ?v = cell_at s 2 ?v" "cell_at s3 3 ?v = zero_cell s"
    using path [OF cr3] same3 by blast+
  obtain s4 where s4: "map_page ?v (entry_at s 3 ?v AND PHYS_ADDR_MASK) (PG_PRESENT OR PG_RW) s3 = Inr ((), s4)" "touches ?X s3 s4"
      "same_entry (phys s4 (cell_at s 2 ?v)) (phys s3 (cell_at s 2 ?v))"
      "phys s4 (cell_at s 2 ?v) = (if entry_at s3 3 ?v AND PG_PRESENT = 0 then entry_at s3 2 ?v + push_bit PG_REFCOUNT_OFFSET 1 else entry_at s3 2 ?v)"
    using map_page_leaf [OF p3(1) al page_addr_masked [of "entry_at s 3 ?v"], of "PG_PRESENT OR PG_RW", unfolded p3(2,3)] by blast
  have same4: "same_entry (phys s4 p) (phys s p)" if p: "p \<in> ?T" for p
  proof (cases "p = cell_at s 2 ?v")
    case True
    then show ?thesis using same_entry_trans [OF s4(3)] same3 [OF p] by blast
  next
    case False
    then have "phys s4 p = phys s3 p" using s4(2) p zT by (auto simp: touches_def)
    then show ?thesis using same3 [OF p] by simp
  qed
  have zero: "phys s4 p = 0" if p: "in_frame f p" "p \<noteq> zero_cell s" for p
  proof -
    have "p \<noteq> cell_at s 2 ?v" using out [OF p(1)] cT by blast
    then have "phys s4 p = phys s3 p" using s4(2) p(2) by (auto simp: touches_def)
    then show ?thesis using p(1) by (simp add: s3_def)
  qed
  have count4: "phys s4 (cell_at s 2 ?v) = (if entry_at s 3 ?v AND PG_PRESENT = 0 then entry_at s 2 ?v
      else entry_at s 2 ?v - push_bit PG_REFCOUNT_OFFSET 1)"
  proof -
    have zf: "\<not> in_frame f (cell_at s 2 ?v)" using out cT by blast
    have ne: "zero_cell s \<noteq> cell_at s 2 ?v" using zT cT by metis
    have "phys s1 (zero_cell s) = phys s (zero_cell s)" using s1(2) ne by (simp add: touches_def)
    moreover have "zero_cell s1 = zero_cell s" using p1(3) unfolding window_table_cells(2) .
    ultimately have e1: "entry_at s1 3 ?v = entry_at s 3 ?v" unfolding entry_at_def window_table_cells(2) by simp
    have "entry_at s3 3 ?v AND PG_PRESENT \<noteq> 0"
    proof (cases "in_frame f (zero_cell s)")
      case True
      then show ?thesis using zero_in by blast
    next
      case False
      then have "entry_at s3 3 ?v = f OR (PG_PRESENT OR PG_RW)" unfolding entry_at_def p3(3) using s2(4) by (simp add: s3_def)
      then show ?thesis using leaf_entry(2) [OF f, of "PG_PRESENT OR PG_RW"] by (simp add: PG_PRESENT_def PG_RW_def PHYS_ADDR_MASK_def)
    qed
    then have "phys s4 (cell_at s 2 ?v) = phys s3 (cell_at s 2 ?v)" using s4(4) p3(2) by (simp add: entry_at_def)
    also have "\<dots> = phys s2 (cell_at s 2 ?v)" using zf by (simp add: s3_def)
    also have "\<dots> = (if entry_at s 3 ?v AND PG_PRESENT = 0 then entry_at s 2 ?v else entry_at s 2 ?v - push_bit PG_REFCOUNT_OFFSET 1)"
      using s2(5) s1(4) unfolding e1 by (simp add: entry_at_def p1(2))
    finally show ?thesis .
  qed
  have "touches (?X \<union> frame_cells [f]) s s2" by (rule touches_trans [OF s1(2) s2(2)]) auto
  then have "touches (?X \<union> frame_cells [f]) s s3" by (rule touches_trans [OF _ t3]) auto
  then have "touches (?X \<union> frame_cells [f]) s s4" by (rule touches_trans [OF _ s4(2)]) auto
  moreover have "bindS (unmap_page ?v 0) (\<lambda>old_addr. thenS (map_page ?v f (PG_PRESENT OR PG_RW))
      (thenS (vzero_page ?v) (map_page ?v old_addr (PG_PRESENT OR PG_RW)))) s = Inr ((), s4)"
    by (simp add: bindS_apply thenS_apply s1(1) s2(1) s3 s4(1))
  ultimately show ?thesis using same4 zero count4 by blast
qed

lemma get_frame_runs:
  assumes "frames_avail s (f # fs)"
  shows "\<exists>s1. get_frame s = Inr (f, s1) \<and> frames_avail s1 fs \<and> window_cells s1 = window_cells s \<and> window_tables s1 = window_tables s \<and>
    cr3 s1 = cr3 s \<and> (\<forall>p. p \<notin> window_cells s \<longrightarrow> \<not> in_frame f p \<longrightarrow> phys s1 p = phys s p)"
  using frames.get_next [OF assms] by blast

text \<open>The frame was cleared through the window, whose entry is present afterwards.\<close>

lemma get_frame_window:
  assumes "frames_avail s (f # fs)" "get_frame s = Inr (f, s1)"
  shows "phys s1 (zero_cell s) AND PG_PRESENT \<noteq> 0"
proof -
  obtain stack fresh used where "frames_inv s stack fresh used" "stack @ fresh = f # fs"
    using assms(1) unfolding frames_avail_def by auto
  then have "phys s1 (zero_cell s) = f OR 3" using alloc_frame_some [of s stack fresh used f fs] assms(2) by (auto simp: get_frame_def)
  then show ?thesis by (simp add: bit.conj_disj_distrib2 PG_PRESENT_def)
qed

lemma windows_distinct: "windows_ok s \<Longrightarrow> window_cells s \<inter> window_tables s = {}" "window_cell s \<noteq> zero_cell s"
  by (auto simp: windows_ok_def window_cells_def zero_cell_eq)

lemma initialize_virtual_memory_run:
  assumes av: "frames_avail s (f # fs)" and t: "table_path s ZERO_WINDOW" and id: "tables_ok s 2 0"
    and count: "(entry_at s 2 ZERO_WINDOW - push_bit PG_REFCOUNT_OFFSET 1) AND PG_REFCOUNT_MASK \<noteq> 0"
    and out: "identity_cells s \<inter> (window_tables s \<union> window_cells s \<union> frame_cells (f # fs)) = {}"
  shows "\<exists>s'. initialize_virtual_memory s = Inr ((), s') \<and> k_zero_page s' = f \<and> (\<forall>p. in_frame f p \<longrightarrow> phys s' p = 0) \<and>
    frames_avail s' fs \<and> window_cells s' = window_cells s \<and> phys s' (cr3 s') = 0 \<and>
    preserves (window_cells s \<union> frame_cells [f] \<union> identity_cells s) s s' \<and>
    (\<forall>p. p \<notin> window_cells s \<union> frame_cells [f] \<union> identity_cells s \<longrightarrow> p \<noteq> cell_at s 2 ZERO_WINDOW \<longrightarrow> phys s' p = phys s p) \<and>
    phys s' (cell_at s 2 ZERO_WINDOW) = entry_at s 2 ZERO_WINDOW - push_bit PG_REFCOUNT_OFFSET 1"
proof -
  let ?v = ZERO_WINDOW and ?T = "window_tables s" and ?c2 = "cell_at s 2 ZERO_WINDOW" and ?F = "frame_cells [f]"
  obtain s1 where s1: "get_frame s = Inr (f, s1)" "frames_avail s1 fs" "window_cells s1 = window_cells s" "window_tables s1 = ?T"
      "cr3 s1 = cr3 s" "\<forall>p. p \<notin> window_cells s \<longrightarrow> \<not> in_frame f p \<longrightarrow> phys s1 p = phys s p"
    using get_frame_runs [OF av] by blast
  have f: "page_addr f" "\<forall>p \<in> window_cells s \<union> ?T. \<not> in_frame f p" using frames.avail_frame [OF av, of f] by simp_all
  have "windows_ok s" using av by (auto simp: frames_avail_def frames_inv_def)
  note win = windows_distinct(1) [OF this] windows_distinct(2) [of s]
  have same1: "phys s1 p = phys s p" if "p \<in> ?T" for p
  proof -
    have "p \<notin> window_cells s" "\<not> in_frame f p" using that win(1) f(2) by auto
    then show ?thesis using s1(6) by blast
  qed
  define s2 where "s2 = s1\<lparr>k_zero_page := f\<rparr>"
  have s2: "frames_avail s2 fs" "window_cells s2 = window_cells s" "window_tables s2 = ?T" "phys s2 = phys s1" "cr3 s2 = cr3 s"
    using s1(2-5) by (simp_all add: s2_def)
  have same2: "same_entry (phys s2 p) (phys s p)" if "p \<in> table_cells s ?v" for p
    using same1 that by (simp add: s2(4) window_table_cells)
  note p2 = table_path_same [OF t same2 s2(5)]
  have c2: "cell_at s2 2 ?v = ?c2" "zero_cell s2 = zero_cell s"
    using p2(2) [of 2] p2(2) [of 3] by (simp_all add: window_table_cells)
  have c2T: "?c2 \<in> ?T" unfolding window_table_cells(1) [symmetric] by (simp add: table_cells_def)
  have e2: "entry_at s2 2 ?v = entry_at s 2 ?v" unfolding entry_at_def c2(1) using same1 [OF c2T] by (simp add: s2(4))
  have leaf: "entry_at s2 3 ?v AND PG_PRESENT \<noteq> 0"
    using get_frame_window [OF av s1(1)] unfolding entry_at_def window_table_cells(2) c2(2) by (simp only: s2(4) simp_thms)
  have zin: "\<not> in_frame f (zero_cell s2)" using f(2) unfolding c2(2) by (simp add: window_cells_def)
  obtain s3 where s3: "bindS (unmap_page ?v 0) (\<lambda>old_addr. thenS (map_page ?v f (PG_PRESENT OR PG_RW))
      (thenS (vzero_page ?v) (map_page ?v old_addr (PG_PRESENT OR PG_RW)))) s2 = Inr ((), s3)"
      "touches ({?c2, zero_cell s} \<union> ?F) s2 s3" "\<forall>p \<in> ?T. same_entry (phys s3 p) (phys s2 p)"
      "\<forall>p. in_frame f p \<longrightarrow> p \<noteq> zero_cell s \<longrightarrow> phys s3 p = 0"
      "phys s3 ?c2 = entry_at s 2 ?v - push_bit PG_REFCOUNT_OFFSET 1"
    using zero_page_cleared [OF p2(1) f(1) _ zin] f(2) count leaf unfolding e2 c2 s2(3) by auto
  have zc: "zero_cell s \<in> window_cells s" by (simp add: window_cells_def)
  (* the identity mapping *)
  have pr3: "preserves (window_cells s \<union> ?F) s s3"
    unfolding preserves_def
  proof (intro conjI allI impI)
    show "cr3 s3 = cr3 s" using touches_cr3 [OF s3(2)] s2(5) by simp
    fix p assume p: "p \<notin> window_cells s \<union> ?F"
    then have 1: "phys s2 p = phys s p" using s1(6) by (simp add: s2(4))
    show "same_entry (phys s3 p) (phys s p)"
    proof (cases "p = ?c2")
      case True
      then show ?thesis using s3(3) c2T 1 by metis
    next
      case False
      then have "phys s3 p = phys s2 p" using s3(2) p zc by (auto simp: touches_def)
      then show ?thesis using 1 by simp
    qed
  qed
  have idc: "cell_at s j 0 \<notin> window_cells s \<union> ?F" if "j < 2" for j
  proof -
    have "j = 0 \<or> j = Suc 0" using that by linarith
    then show ?thesis using out by (auto simp: identity_cells_def)
  qed
  have id3: "cell_at s3 0 0 = cell_at s 0 0" "cell_at s3 (Suc 0) 0 = cell_at s (Suc 0) 0"
    using cells_preserved [OF pr3, of 0 0] cells_preserved [OF pr3, of "Suc 0" 0] idc by simp_all
  have cr: "cr3 s3 = cr3 s" using pr3 by (simp add: preserves_def)
  have "self_mapped s3" using table_path_same(1) [OF p2(1), of s3] s3(3) touches_cr3 [OF s3(2)]
    by (simp add: window_table_cells s2(3) table_path_def)
  moreover have "tables_ok s3 2 0" using tables_ok_preserved [OF pr3 idc] id by simp
  moreover have "cell_at s (Suc 0) 0 \<noteq> self_cell s"
    using out by (auto simp: identity_cells_def window_tables_def)
  then have "cell_at s3 (Suc 0) 0 \<noteq> self_cell s3" unfolding id3 by (simp only: cr simp_thms not_False_eq_True)
  ultimately have dis: "disable_identity_paging s3 = Inr ((), s3\<lparr>phys := (phys s3)(cell_at s (Suc 0) 0 := 0, cell_at s 0 0 := 0)\<rparr>)"
    unfolding id3 [symmetric] by (rule disable_identity_paging_ok)
  define s4 where "s4 = s3\<lparr>phys := (phys s3)(cell_at s (Suc 0) 0 := 0, cell_at s 0 0 := 0)\<rparr>"
  have t4: "touches ({?c2, zero_cell s} \<union> ?F \<union> identity_cells s) s2 s4"
  proof (rule touches_trans [OF s3(2)])
    show "touches (identity_cells s) s3 s4" by (auto simp: touches_def s4_def identity_cells_def)
  qed auto
  have run: "initialize_virtual_memory s = Inr ((), s4)"
  proof -
    obtain old s5 where old: "unmap_page ?v 0 s2 = Inr (old, s5)" "thenS (map_page ?v f (PG_PRESENT OR PG_RW))
        (thenS (vzero_page ?v) (map_page ?v old (PG_PRESENT OR PG_RW))) s5 = Inr ((), s3)"
      using s3(1) by (auto simp: bindS_apply bindE_eq_Inr)
    obtain s6 where s6: "map_page ?v f (PG_PRESENT OR PG_RW) s5 = Inr ((), s6)"
        "thenS (vzero_page ?v) (map_page ?v old (PG_PRESENT OR PG_RW)) s6 = Inr ((), s3)"
      using old(2) by (auto simp: thenS_apply bindE_eq_Inr)
    obtain s7 where s7: "vzero_page ?v s6 = Inr ((), s7)" "map_page ?v old (PG_PRESENT OR PG_RW) s7 = Inr ((), s3)"
      using s6(2) by (auto simp: thenS_apply bindE_eq_Inr)
    show ?thesis
      by (simp add: initialize_virtual_memory_def bindS_apply thenS_apply s1(1) s2_def [symmetric] old(1) s6(1) s7 dis s4_def)
  qed
  have X: "window_cell s \<notin> {?c2, zero_cell s} \<union> ?F \<union> identity_cells s"
    using win c2T f(2) out by (auto simp: window_cells_def)
  have fF: "frame_cells fs \<inter> ({?c2, zero_cell s} \<union> ?F \<union> identity_cells s) = {}"
  proof (intro equals0I)
    fix p assume p: "p \<in> frame_cells fs \<inter> ({?c2, zero_cell s} \<union> ?F \<union> identity_cells s)"
    then obtain g where g: "g \<in> set fs" "in_frame g p" by (auto simp: frame_cells_def)
    then have "\<forall>p \<in> window_cells s \<union> ?T. \<not> in_frame g p" using frames.avail_frame [OF av, of g] by simp
    then have "p \<notin> {?c2, zero_cell s}" using g(2) c2T zc by auto
    moreover have "p \<notin> identity_cells s" using out g by (auto simp: frame_cells_def)
    moreover have "g \<noteq> f" using frames.avail_distinct [OF av] g(1) by auto
    then have "\<not> in_frame f p" using in_frame_unique g(2) by blast
    ultimately show False using p by simp
  qed
  have idT: "p \<notin> identity_cells s" if "p \<in> ?T \<or> in_frame f p" for p using out that by auto
  have eq4: "phys s4 p = phys s3 p" if "p \<notin> identity_cells s" for p using that by (simp add: s4_def identity_cells_def)
  have tab4: "same_entry (phys s4 p) (phys s2 p)" if "p \<in> window_tables s2" for p
    using s3(3) that eq4 [of p] idT [of p] s2(3) by simp
  have wc: "window_cell s2 = window_cell s"
  proof -
    have "zero_cell s2 = zero_cell s" by (rule c2(2))
    then show ?thesis by (simp add: zero_cell_eq)
  qed
  note av4 = avail_touched [OF s2(1) t4 tab4 X [folded wc] fF]
  show ?thesis
  proof (intro exI [of _ s4] conjI run)
    have "s4 = s2\<lparr>phys := phys s4\<rparr>" using t4 by (simp only: touches_def)
    then have "k_zero_page s4 = k_zero_page (s2\<lparr>phys := phys s4\<rparr>)" by (rule arg_cong)
    then show "k_zero_page s4 = f" by (simp add: s2_def)
    show "\<forall>p. in_frame f p \<longrightarrow> phys s4 p = 0"
    proof (intro allI impI)
      fix p assume p: "in_frame f p"
      then have "p \<noteq> zero_cell s" using f(2) zc by auto
      then show "phys s4 p = 0" using s3(4) p eq4 [of p] idT [of p] by simp
    qed
    show "frames_avail s4 fs" by (rule av4(1))
    show "window_cells s4 = window_cells s" using av4(2) s2(2) by simp
    have "cell_at s 0 0 = cr3 s" by (simp add: entry_cell_simps pt_index_def)
    then show "phys s4 (cr3 s4) = 0" by (simp add: s4_def cr)
    have eq3: "phys s3 p = phys s p" if p: "p \<notin> window_cells s \<union> ?F" "p \<noteq> ?c2" for p
    proof -
      have "phys s3 p = phys s2 p" using s3(2) p zc by (auto simp: touches_def)
      then show ?thesis using s1(6) p(1) by (simp add: s2(4))
    qed
    show "\<forall>p. p \<notin> window_cells s \<union> ?F \<union> identity_cells s \<longrightarrow> p \<noteq> ?c2 \<longrightarrow> phys s4 p = phys s p"
      using eq3 eq4 by simp
    show "phys s4 ?c2 = entry_at s 2 ?v - push_bit PG_REFCOUNT_OFFSET 1" using eq4 [OF idT] c2T s3(5) by simp
    show "preserves (window_cells s \<union> ?F \<union> identity_cells s) s s4"
    proof (rule preserves_trans [OF pr3])
      show "preserves (identity_cells s) s3 s4" by (auto simp: preserves_def s4_def identity_cells_def)
    qed simp
  qed
qed

end
