(* ===== verification/Paging_Init.thy ===== *)
theory Paging_Init imports Pages begin

text \<open>
  The first page tables, \<open>arch/x64/paging_init32.c\<close>. The function runs in 32-bit mode before paging is on, so it
  works on physical memory: pointers have 32 bits and a store of a table entry goes to the 8-byte cell at its
  address. The addresses that the linker assigns are the fields of \<open>boot_symbols\<close>.
\<close>

section \<open>The function\<close>

definition PG_SIZE :: u64 where "PG_SIZE = 4096"
definition PT_ENTRY_COUNT :: u64 where "PT_ENTRY_COUNT = 512"

record boot_symbols =
  sym_pml4t :: u32
  sym_pdpt :: u32
  sym_kernel_pd :: u32
  sym_identity_pd :: u32
  KERNEL_TEXT_PHYS :: u32
  KERNEL_RODATA_PHYS :: u32
  KERNEL_DATA_PHYS :: u32
  KERNEL_BSS_PHYS :: u32
  KERNEL_END_PHYS :: u32

type_synonym cells = "u64 \<Rightarrow> u64"

text \<open>\<open>table[i] = v\<close>\<close>

definition put_entry :: "u32 \<Rightarrow> u32 \<Rightarrow> u64 \<Rightarrow> cells \<Rightarrow> cells" where
  "put_entry table i v m = m(ucast (table + 8 * i) := v)"

definition get_entry :: "u32 \<Rightarrow> u32 \<Rightarrow> cells \<Rightarrow> u64" where
  "get_entry table i m = m (ucast (table + 8 * i))"

lemma unat_ucast_32: "unat (ucast (x :: u32) :: u64) = unat x"
proof -
  have "unat x < 2 ^ LENGTH(32)" by (rule unsigned_less)
  then have "unat x < 2 ^ 64" by simp
  then show ?thesis by (simp add: unsigned_ucast_eq take_bit_nat_eq_self)
qed

text \<open>The five loops that fill the kernel's page tables, with the pointer and the page they have reached.\<close>

function fill_ptes :: "u32 \<Rightarrow> u64 \<Rightarrow> u32 \<times> u64 \<times> cells \<Rightarrow> u32 \<times> u64 \<times> cells" where
  "fill_ptes limit flags (current_pte, current_page, m) =
     (if current_page < ucast limit
      then fill_ptes limit flags (current_pte + 8, current_page + PG_SIZE, m(ucast current_pte := current_page OR flags))
      else (current_pte, current_page, m))"
  by pat_completeness auto
termination
proof (relation "measure (\<lambda>(limit, flags, p, page, m). unat (ucast limit :: u64) - unat page)")
  fix limit :: u32 and flags :: u64 and p :: u32 and page :: u64 and m :: cells
  assume less: "page < ucast limit"
  have "unat (ucast limit :: u64) = unat limit" by (rule unat_ucast_32)
  then have "unat (ucast limit :: u64) < 2 ^ 32" using unsigned_less [of limit] by simp
  moreover have "unat page < unat (ucast limit :: u64)" using less by (simp add: word_less_nat_alt)
  ultimately have "unat (page + PG_SIZE) = unat page + 4096"
    by (subst unat_add_u64) (simp_all add: PG_SIZE_def)
  then show "((limit, flags, p + 8, page + PG_SIZE, m(ucast p := page OR flags)), limit, flags, p, page, m)
      \<in> measure (\<lambda>(limit, flags, p, page, m). unat (ucast limit :: u64) - unat page)"
    using less by (simp add: word_less_nat_alt)
qed simp

text \<open>
  The loop that clears the rest of the last page table, with fuel. It is less than a table of 512 entries,
  which \<open>initialize_paging_correct\<close> shows to be enough.
\<close>

fun clear_ptes :: "nat \<Rightarrow> u32 \<Rightarrow> u32 \<times> cells \<Rightarrow> (u32 \<times> cells) res" where
  "clear_ptes 0 end_of_page_tables r = Inl Diverges"
| "clear_ptes (Suc fuel) end_of_page_tables (current_pte, m) =
     (if current_pte < end_of_page_tables then clear_ptes fuel end_of_page_tables (current_pte + 8, m(ucast current_pte := 0))
      else Inr (current_pte, m))"

declare fill_ptes.simps [simp del]

text \<open>The loop over the entries of the kernel's page directory.\<close>

fun fill_pd :: "u32 \<Rightarrow> u32 \<Rightarrow> u64 \<Rightarrow> nat list \<Rightarrow> cells \<Rightarrow> cells" where
  "fill_pd kernel_pd kernel_end flags [] m = m"
| "fill_pd kernel_pd kernel_end flags (i # is) m =
     fill_pd kernel_pd kernel_end flags is
       (put_entry kernel_pd (of_nat i) (ucast (kernel_end + of_nat i * ucast PG_SIZE) OR flags) m)"

text \<open>The result is the memory and \<open>__kernel_end_phys\<close>.\<close>

definition initialize_paging :: "boot_symbols \<Rightarrow> cells \<Rightarrow> (u32 \<times> cells) res" where
  "initialize_paging b m =
     (let RW = PG_PRESENT OR PG_RW; KERNEL_END = KERNEL_END_PHYS b;
          entry = ucast (sym_pdpt b) OR RW OR push_bit PG_REFCOUNT_OFFSET 1;
          m = put_entry (sym_pml4t b) 0 entry m;
          m = put_entry (sym_pml4t b) 511 entry m;
          m = put_entry (sym_pml4t b) (ucast PG_SELF) (ucast (sym_pml4t b) OR RW) m;
          m = put_entry (sym_pdpt b) 0 (ucast (sym_identity_pd b) OR RW) m;
          m = put_entry (sym_pdpt b) 510 (ucast (sym_kernel_pd b) OR RW) m;
          pt_range = ucast (PT_ENTRY_COUNT * PG_SIZE);
          full_kernel_pages = KERNEL_END div pt_range;
          bytes_remaining_in_last_pt = KERNEL_END mod pt_range;
          page_tables_for_kernel = (if bytes_remaining_in_last_pt \<noteq> 0 then full_kernel_pages + 1 else full_kernel_pages);
          m = put_entry (sym_pdpt b) 510 (get_entry (sym_pdpt b) 510 m OR push_bit PG_REFCOUNT_OFFSET (ucast page_tables_for_kernel)) m;
          m = fill_pd (sym_kernel_pd b) KERNEL_END RW [0..<unat page_tables_for_kernel] m;
          entries_in_last_pt = ucast (bytes_remaining_in_last_pt div ucast PG_SIZE);
          m = put_entry (sym_kernel_pd b) (page_tables_for_kernel - 1)
            (get_entry (sym_kernel_pd b) (page_tables_for_kernel - 1) m OR push_bit PG_REFCOUNT_OFFSET entries_in_last_pt) m;
          r = (KERNEL_END_PHYS b, 0, m);
          r = fill_ptes (KERNEL_TEXT_PHYS b) (RW OR PG_GLOBAL OR PG_NX) r;
          r = fill_ptes (KERNEL_RODATA_PHYS b) (PG_PRESENT OR PG_GLOBAL) r;
          r = fill_ptes (KERNEL_DATA_PHYS b) (PG_PRESENT OR PG_GLOBAL OR PG_NX) r;
          r = fill_ptes (KERNEL_BSS_PHYS b) (RW OR PG_GLOBAL OR PG_NX) r;
          (current_pte, current_page, m) = fill_ptes (KERNEL_END_PHYS b) (RW OR PG_GLOBAL OR PG_NX) r;
          end_of_page_tables = page_tables_for_kernel * ucast PG_SIZE + KERNEL_END
      in clear_ptes 513 end_of_page_tables (current_pte, m))"

section \<open>The loops\<close>

lemma ucast_of_nat_32: "n < 2 ^ 32 \<Longrightarrow> (ucast (of_nat n :: u32) :: u64) = of_nat n"
  by (simp add: word_unat_eq_iff unat_ucast_32 unat_of_nat)

text \<open>What a loop that writes the cells \<open>i\<close> to \<open>k - 1\<close> of the tables at \<open>b\<close> leaves.\<close>

definition cells_set :: "nat \<Rightarrow> nat \<Rightarrow> nat \<Rightarrow> (nat \<Rightarrow> u64) \<Rightarrow> cells \<Rightarrow> cells \<Rightarrow> bool" where
  "cells_set b i k f m m' \<longleftrightarrow> (\<forall>j. i \<le> j \<and> j < k \<longrightarrow> m' (of_nat (b + 8 * j)) = f j) \<and>
     (\<forall>a. (\<forall>j. i \<le> j \<and> j < k \<longrightarrow> a \<noteq> of_nat (b + 8 * j)) \<longrightarrow> m' a = m a)"

lemma cells_setD: "cells_set b i k f m m' \<Longrightarrow> i \<le> j \<Longrightarrow> j < k \<Longrightarrow> m' (of_nat (b + 8 * j)) = f j"
  unfolding cells_set_def by blast

lemma split_512: obtains u v :: nat where "j = 512 * u + v" "v < 512"
  using that [of "j div 512" "j mod 512"] by simp

lemma cell_inj:
  assumes "b + 8 * i < 2 ^ 64" "b + 8 * j < 2 ^ 64"
  shows "(of_nat (b + 8 * i) :: u64) = of_nat (b + 8 * j) \<longleftrightarrow> i = j"
  using assms by (simp add: of_nat_eq_iff word_of_nat_eq_iff take_bit_nat_eq_self del: of_nat_add of_nat_mult)

lemma cells_set_step:
  assumes "cells_set b (Suc i) k f (m(of_nat (b + 8 * i) := f i)) m'" "i < k" "b + 8 * k < 2 ^ 64"
  shows "cells_set b i k f m m'"
proof -
  have new: "m' (of_nat (b + 8 * j)) = f j" if "Suc i \<le> j" "j < k" for j
    using assms(1) that unfolding cells_set_def by blast
  have old: "m' a = (m(of_nat (b + 8 * i) := f i)) a" if "\<And>j. Suc i \<le> j \<Longrightarrow> j < k \<Longrightarrow> a \<noteq> of_nat (b + 8 * j)" for a
    using assms(1) that unfolding cells_set_def by blast
  have first: "m' (of_nat (b + 8 * i)) = f i"
  proof (subst old)
    fix j assume "Suc i \<le> j" "j < k"
    then have "i \<noteq> j" "b + 8 * i < 2 ^ 64" "b + 8 * j < 2 ^ 64" using assms(2,3) by auto
    then show "(of_nat (b + 8 * i) :: u64) \<noteq> of_nat (b + 8 * j)" using cell_inj by blast
  qed (rule fun_upd_same)
  show ?thesis unfolding cells_set_def
  proof (intro conjI allI impI)
    fix j assume j: "i \<le> j \<and> j < k"
    show "m' (of_nat (b + 8 * j)) = f j"
    proof (cases "j = i")
      case False
      then show ?thesis using j new by simp
    qed (simp only: first)
  next
    fix a :: u64 assume a: "\<forall>j. i \<le> j \<and> j < k \<longrightarrow> a \<noteq> of_nat (b + 8 * j)"
    then have "a \<noteq> of_nat (b + 8 * i)" using assms(2) by blast
    moreover have "m' a = (m(of_nat (b + 8 * i) := f i)) a" by (rule old) (use a in auto)
    ultimately show "m' a = m a" by (simp del: of_nat_add of_nat_mult)
  qed
qed

lemma cells_set_empty: "cells_set b i i f m m"
  by (auto simp: cells_set_def)

lemma fill_ptes_ok:
  assumes "i \<le> k" "4096 * k < 2 ^ 32" "b + 8 * k < 2 ^ 32"
  shows "\<exists>m'. fill_ptes (of_nat (4096 * k)) flags (of_nat (b + 8 * i), of_nat (4096 * i), m) =
    (of_nat (b + 8 * k), of_nat (4096 * k), m') \<and> cells_set b i k (\<lambda>j. of_nat (4096 * j) OR flags) m m'"
  using assms
proof (induction "k - i" arbitrary: i m)
  case 0
  then have "i = k" by simp
  then show ?case using 0 cells_set_empty by (subst fill_ptes.simps) (simp add: ucast_of_nat_32 del: of_nat_mult of_nat_add)
next
  case (Suc n)
  then have i: "i < k" by simp
  have less: "(of_nat (4096 * i) :: u64) < ucast (of_nat (4096 * k) :: u32)"
    using i Suc.prems(2) by (simp add: ucast_of_nat_32 word_less_nat_alt unat_of_nat_u64 del: of_nat_mult)
  have next_cell: "of_nat (b + 8 * i) + 8 = (of_nat (b + 8 * Suc i) :: u32)" "of_nat (4096 * i) + PG_SIZE = (of_nat (4096 * Suc i) :: u64)"
    by (simp_all add: PG_SIZE_def)
  have cell: "ucast (of_nat (b + 8 * i) :: u32) = (of_nat (b + 8 * i) :: u64)"
    by (rule ucast_of_nat_32) (use i Suc.prems(3) in linarith)
  have "n = k - Suc i" "Suc i \<le> k" using Suc.hyps(2) i by simp_all
  then obtain m' where m': "fill_ptes (of_nat (4096 * k)) flags (of_nat (b + 8 * Suc i), of_nat (4096 * Suc i),
        m(of_nat (b + 8 * i) := of_nat (4096 * i) OR flags)) = (of_nat (b + 8 * k), of_nat (4096 * k), m')"
      "cells_set b (Suc i) k (\<lambda>j. of_nat (4096 * j) OR flags) (m(of_nat (b + 8 * i) := of_nat (4096 * i) OR flags)) m'"
    using Suc.hyps(1) [of "Suc i"] Suc.prems(2,3) by blast
  have "cells_set b i k (\<lambda>j. of_nat (4096 * j) OR flags) m m'"
    by (rule cells_set_step [OF m'(2) i]) (use Suc.prems(3) in simp)
  moreover have "fill_ptes (of_nat (4096 * k)) flags (of_nat (b + 8 * i), of_nat (4096 * i), m) = (of_nat (b + 8 * k), of_nat (4096 * k), m')"
    unfolding fill_ptes.simps [of _ _ "of_nat (b + 8 * i)"] if_P [OF less] next_cell cell m'(1) ..
  ultimately show ?case by blast
qed

lemma clear_ptes_ok:
  assumes "i \<le> k" "b + 8 * k < 2 ^ 32" "k - i < fuel"
  shows "\<exists>m'. clear_ptes fuel (of_nat (b + 8 * k)) (of_nat (b + 8 * i), m) = Inr (of_nat (b + 8 * k), m') \<and> cells_set b i k (\<lambda>j. 0) m m'"
  using assms
proof (induction fuel arbitrary: i m)
  case (Suc fuel)
  have less: "(of_nat (b + 8 * i) :: u32) < of_nat (b + 8 * k) \<longleftrightarrow> i < k"
    using Suc.prems(1,2) by (simp add: word_less_nat_alt unat_of_nat del: of_nat_mult of_nat_add)
  show ?case
  proof (cases "i < k")
    case True
    have cell: "ucast (of_nat (b + 8 * i) :: u32) = (of_nat (b + 8 * i) :: u64)"
      by (rule ucast_of_nat_32) (use True Suc.prems(2) in linarith)
    have next_cell: "of_nat (b + 8 * i) + 8 = (of_nat (b + 8 * Suc i) :: u32)" by simp
    have "Suc i \<le> k" "k - Suc i < fuel" using True Suc.prems(3) by simp_all
    then obtain m' where m': "clear_ptes fuel (of_nat (b + 8 * k)) (of_nat (b + 8 * Suc i), m(of_nat (b + 8 * i) := 0)) = Inr (of_nat (b + 8 * k), m')"
        "cells_set b (Suc i) k (\<lambda>j. 0) (m(of_nat (b + 8 * i) := 0)) m'"
      using Suc.IH [of "Suc i"] Suc.prems(2) by blast
    have "cells_set b i k (\<lambda>j. 0) m m'" by (rule cells_set_step [OF m'(2) True]) (use Suc.prems(2) in simp)
    moreover have "clear_ptes (Suc fuel) (of_nat (b + 8 * k)) (of_nat (b + 8 * i), m) = Inr (of_nat (b + 8 * k), m')"
      unfolding clear_ptes.simps less if_P [OF True] next_cell cell m'(1) ..
    ultimately show ?thesis by blast
  next
    case False
    then show ?thesis using less Suc.prems(1) cells_set_empty by (simp del: of_nat_mult of_nat_add)
  qed
qed simp

lemma fill_pd_ok:
  assumes "i \<le> n" "4096 * e + 4096 * n < 2 ^ 32" "4096 * p + 8 * n < 2 ^ 32"
  shows "cells_set (4096 * p) i n (\<lambda>i. of_nat (4096 * (e + i)) OR flags) m
    (fill_pd (of_nat (4096 * p)) (of_nat (4096 * e)) flags [i..<n] m)"
  using assms
proof (induction "n - i" arbitrary: i m)
  case 0
  then show ?case using cells_set_empty by simp
next
  case (Suc l)
  then have i: "i < n" by simp
  have up: "[i..<n] = i # [Suc i..<n]" using i by (rule upt_conv_Cons)
  have pg: "ucast PG_SIZE = (4096 :: u32)" by (simp add: PG_SIZE_def)
  have "of_nat (4096 * p) + 8 * of_nat i = (of_nat (4096 * p + 8 * i) :: u32)"
      "of_nat (4096 * e) + of_nat i * ucast PG_SIZE = (of_nat (4096 * (e + i)) :: u32)"
    by (simp_all add: pg distrib_left mult.commute)
  moreover have "4096 * p + 8 * i < 2 ^ 32" using i Suc.prems(3) by linarith
  moreover have "4096 * (e + i) < 2 ^ 32" using i Suc.prems(2) unfolding distrib_left by linarith
  ultimately have cell: "ucast (of_nat (4096 * p) + 8 * of_nat i :: u32) = (of_nat (4096 * p + 8 * i) :: u64)"
    and val: "ucast (of_nat (4096 * e) + of_nat i * ucast PG_SIZE :: u32) = (of_nat (4096 * (e + i)) :: u64)"
    by (simp_all only: ucast_of_nat_32)
  have "l = n - Suc i" "Suc i \<le> n" using Suc.hyps(2) i by simp_all
  then have "cells_set (4096 * p) (Suc i) n (\<lambda>i. of_nat (4096 * (e + i)) OR flags)
      (m(of_nat (4096 * p + 8 * i) := of_nat (4096 * (e + i)) OR flags))
      (fill_pd (of_nat (4096 * p)) (of_nat (4096 * e)) flags [Suc i..<n] (m(of_nat (4096 * p + 8 * i) := of_nat (4096 * (e + i)) OR flags)))"
    using Suc.hyps(1) [of "Suc i"] Suc.prems(2,3) by blast
  then show ?case
    unfolding up fill_pd.simps put_entry_def cell val by (rule cells_set_step [OF _ i]) (use Suc.prems(3) in simp)
qed

section \<open>Entries and indices\<close>

abbreviation page :: "nat \<Rightarrow> u64" where "page q \<equiv> of_nat (4096 * q)"
abbreviation cell_of :: "nat \<Rightarrow> nat \<Rightarrow> u64" where "cell_of p i \<equiv> of_nat (4096 * p + 8 * i)"

lemma cell_of_eq:
  assumes "p < 2 ^ 40" "q < 2 ^ 40" "i < 512" "j < 512"
  shows "cell_of p i = cell_of q j \<longleftrightarrow> p = q \<and> i = j"
proof -
  have "cell_of p i = cell_of q j \<longleftrightarrow> 4096 * p + 8 * i = 4096 * q + 8 * j"
    using assms by (simp add: word_of_nat_eq_iff take_bit_nat_eq_self del: of_nat_add of_nat_mult)
  also have "\<dots> \<longleftrightarrow> 512 * p + i = 512 * q + j" by linarith
  also have "\<dots> \<longleftrightarrow> p = q \<and> i = j"
  proof
    assume e: "512 * p + i = 512 * q + j"
    have "(512 * p + i) div 512 = p" "(512 * q + j) div 512 = q" using assms by simp_all
    then show "p = q \<and> i = j" using e by simp
  qed simp
  finally show ?thesis .
qed

lemma phys_mask: "PHYS_ADDR_MASK = push_bit 12 (mask 40)"
  by (simp add: PHYS_ADDR_MASK_def mask_eq_exp_minus_1)

lemma page_masked:
  assumes "q < 2 ^ 40"
  shows "page q AND PHYS_ADDR_MASK = page q"
proof -
  have p: "page q = push_bit 12 (of_nat q)" by (simp add: push_bit_eq_mult)
  have "unat (of_nat q :: u64) < 2 ^ 40" using assms by (simp add: unat_of_nat_u64)
  then have "take_bit 40 (of_nat q :: u64) = of_nat q"
    by (simp add: word_unat_eq_iff unsigned_take_bit_eq take_bit_nat_eq_self)
  then show ?thesis
    unfolding p phys_mask by (simp add: push_bit_and [symmetric] take_bit_eq_mask)
qed

lemma page_entry:
  assumes "q < 2 ^ 40" "f AND PHYS_ADDR_MASK = 0"
  shows "(page q OR f) AND PHYS_ADDR_MASK = page q"
    and "g AND PHYS_ADDR_MASK = 0 \<Longrightarrow> (page q OR f) AND g = f AND g"
proof -
  show "(page q OR f) AND PHYS_ADDR_MASK = page q"
    by (simp only: bit.conj_disj_distrib2 page_masked [OF assms(1)] assms(2) or.right_neutral)
  assume g: "g AND PHYS_ADDR_MASK = 0"
  have "page q AND g = (page q AND PHYS_ADDR_MASK) AND g" by (simp only: page_masked [OF assms(1)])
  also have "\<dots> = page q AND (g AND PHYS_ADDR_MASK)" by (simp only: and.assoc and.commute and.left_commute)
  finally have "page q AND g = 0" by (simp add: g)
  then show "(page q OR f) AND g = f AND g" by (simp only: bit.conj_disj_distrib2 or.left_neutral)
qed

lemma drop_bit_of_nat: "n < 2 ^ 64 \<Longrightarrow> drop_bit k (of_nat n :: u64) = of_nat (n div 2 ^ k)"
proof (rule word_unat_eq_iff [THEN iffD2])
  assume n: "n < 2 ^ 64"
  have "unat (of_nat (n div 2 ^ k) :: u64) = n div 2 ^ k"
    by (rule unat_of_nat_u64, rule le_less_trans [OF div_le_dividend]) (use n in simp)
  moreover have "unat (drop_bit k (of_nat n :: u64)) = n div 2 ^ k"
    unfolding unsigned_drop_bit_eq using n by (simp add: unat_of_nat_u64 drop_bit_eq_div [where 'a = nat] take_bit_nat_eq_self)
  ultimately show "unat (drop_bit k (of_nat n :: u64)) = unat (of_nat (n div 2 ^ k) :: u64)" by simp
qed

lemma pt_index_of_nat: "n < 2 ^ 64 \<Longrightarrow> pt_index l (of_nat n) = of_nat (n div 2 ^ (12 + 9 * (l - 1)) mod 512)"
  unfolding pt_index_alt by (simp add: drop_bit_of_nat take_bit_of_nat take_bit_eq_mod [where 'a = nat])

definition KERNEL_VMA :: addr where "KERNEL_VMA = 0xFFFFFFFF80000000"

lemma pt_index_kernel:
  assumes "j < 2 ^ 18" "off < 4096"
  shows "pt_index 4 (KERNEL_VMA + page j + off) = 511" "pt_index 3 (KERNEL_VMA + page j + off) = 510"
    "pt_index 2 (KERNEL_VMA + page j + off) = of_nat (j div 512)" "pt_index (Suc 0) (KERNEL_VMA + page j + off) = of_nat (j mod 512)"
    "(KERNEL_VMA + page j + off) AND 0xFFF = off"
proof -
  define N where "N = 0xFFFFFFFF80000000 + 4096 * j"
  have v: "KERNEL_VMA + page j = of_nat N" by (simp add: KERNEL_VMA_def N_def)
  have N: "N < 2 ^ 64" using assms(1) by (simp add: N_def)
  have low: "(of_nat N :: u64) AND 0xFFF = 0"
  proof -
    have "(of_nat N :: u64) AND 0xFFF = take_bit 12 (of_nat N)" by (simp add: take_bit_eq_mask mask_eq_exp_minus_1)
    also have "\<dots> = of_nat (N mod 4096)" by (simp add: take_bit_of_nat take_bit_eq_mod [where 'a = nat])
    also have "N mod 4096 = 0" by (simp add: N_def)
    finally show ?thesis by simp
  qed
  have idx: "pt_index l (KERNEL_VMA + page j + off) = of_nat (N div 2 ^ (12 + 9 * (l - 1)) mod 512)" for l
    unfolding v pt_index_page [OF low assms(2)] by (rule pt_index_of_nat [OF N])
  have "N div 2 ^ 39 = 0x1FFFFFF" "N div 2 ^ 30 = 0x3FFFFFFFE"
    using assms(1) by (intro div_nat_eqI; simp add: N_def)+
  then show "pt_index 4 (KERNEL_VMA + page j + off) = 511" "pt_index 3 (KERNEL_VMA + page j + off) = 510"
    unfolding idx by simp_all
  have N12: "N div 4096 = 0xFFFFFFFF80000 + j" by (simp add: N_def)
  have "N div 2 ^ 21 = (0xFFFFFFFF80000 + j) div 512" using div_mult2_eq [of N 4096 512] N12 by simp
  moreover have "(j + 0x7FFFFFFFC00 * 512) div 512 = 0x7FFFFFFFC00 + j div 512" by (rule div_mult_self1) simp
  ultimately have "N div 2 ^ 21 = 0x7FFFFFFFC00 + j div 512" by (simp add: add.commute)
  moreover have "j div 512 < 512" using assms(1) by simp
  ultimately show "pt_index 2 (KERNEL_VMA + page j + off) = of_nat (j div 512)" "pt_index (Suc 0) (KERNEL_VMA + page j + off) = of_nat (j mod 512)"
    unfolding idx using N12 mod_mult_self1 [of "j div 512" "0x3FFFFFFFE" 512] mod_mult_self1 [of j "0x7FFFFFFFC00" 512]
    by (simp_all add: add.commute)
  show "(KERNEL_VMA + page j + off) AND 0xFFF = off" unfolding v by (rule page_offset(1) [OF low assms(2)])
qed

section \<open>The mappings\<close>

text \<open>
  The symbols of a kernel of \<open>e\<close> pages: page numbers of the tables and of the sections, in the order of the linker
  script; the tables are pages of the kernel's image.
\<close>

definition image_ok :: "boot_symbols \<Rightarrow> nat \<Rightarrow> nat \<Rightarrow> nat \<Rightarrow> nat \<Rightarrow> nat \<Rightarrow> nat \<Rightarrow> nat \<Rightarrow> nat \<Rightarrow> nat \<Rightarrow> bool" where
  "image_ok b p4 pp pk ip t r d s e \<longleftrightarrow>
     b = \<lparr>sym_pml4t = of_nat (4096 * p4), sym_pdpt = of_nat (4096 * pp), sym_kernel_pd = of_nat (4096 * pk),
       sym_identity_pd = of_nat (4096 * ip), KERNEL_TEXT_PHYS = of_nat (4096 * t), KERNEL_RODATA_PHYS = of_nat (4096 * r),
       KERNEL_DATA_PHYS = of_nat (4096 * d), KERNEL_BSS_PHYS = of_nat (4096 * s), KERNEL_END_PHYS = of_nat (4096 * e)\<rparr> \<and>
     distinct [p4, pp, pk] \<and> p4 < e \<and> pp < e \<and> pk < e \<and> ip < e \<and>
     t \<le> r \<and> r \<le> d \<and> d \<le> s \<and> s \<le> e \<and> 0 < e \<and> e \<le> 2 ^ 18"

definition section_flags :: "nat \<Rightarrow> nat \<Rightarrow> nat \<Rightarrow> nat \<Rightarrow> u64" where
  "section_flags t r d j = (if j < t \<or> d \<le> j then PG_PRESENT OR PG_RW OR PG_GLOBAL OR PG_NX
     else if j < r then PG_PRESENT OR PG_GLOBAL else PG_PRESENT OR PG_GLOBAL OR PG_NX)"

definition tables_needed :: "nat \<Rightarrow> nat" where "tables_needed e = (e + 511) div 512"

lemma cells_set_trans:
  assumes "cells_set b i k f m m'" "cells_set b k n g m' m''" "i \<le> k" "k \<le> n" "b + 8 * n < 2 ^ 64"
  shows "cells_set b i n (\<lambda>j. if j < k then f j else g j) m m''"
  unfolding cells_set_def
proof (intro conjI allI impI)
  fix j assume j: "i \<le> j \<and> j < n"
  show "m'' (of_nat (b + 8 * j)) = (if j < k then f j else g j)"
  proof (cases "j < k")
    case True
    have "(of_nat (b + 8 * j) :: u64) \<noteq> of_nat (b + 8 * l)" if "k \<le> l \<and> l < n" for l
    proof -
      have "j \<noteq> l" "b + 8 * j < 2 ^ 64" "b + 8 * l < 2 ^ 64" using that True j assms(5) by auto
      then show ?thesis using cell_inj by blast
    qed
    then have "m'' (of_nat (b + 8 * j)) = m' (of_nat (b + 8 * j))" using assms(2) unfolding cells_set_def by blast
    then show ?thesis using assms(1) True j unfolding cells_set_def by simp
  next
    case False
    then show ?thesis using assms(2) j unfolding cells_set_def by simp
  qed
next
  fix a :: u64 assume a: "\<forall>j. i \<le> j \<and> j < n \<longrightarrow> a \<noteq> of_nat (b + 8 * j)"
  have "m'' a = m' a" using assms(2) a assms(3) unfolding cells_set_def by (meson le_trans)
  moreover have "m' a = m a" using assms(1) a assms(4) unfolding cells_set_def by (meson less_le_trans)
  ultimately show "m'' a = m a" by simp
qed

lemma cells_set_cong: "cells_set b i k f m m' \<Longrightarrow> (\<And>j. i \<le> j \<Longrightarrow> j < k \<Longrightarrow> f j = g j) \<Longrightarrow> cells_set b i k g m m'"
  by (simp add: cells_set_def)

text \<open>The five loops and the last one together fill the tables.\<close>

lemma tables_filled:
  assumes "t \<le> r" "r \<le> d" "d \<le> s" "s \<le> e" "e \<le> 2 ^ 18" "e \<le> 512 * n" "512 * n < e + 512"
  defines "b \<equiv> 4096 * e"
  shows "\<exists>m'. (let q = fill_ptes (of_nat (4096 * t)) (PG_PRESENT OR PG_RW OR PG_GLOBAL OR PG_NX) (of_nat b, 0, m);
      q = fill_ptes (of_nat (4096 * r)) (PG_PRESENT OR PG_GLOBAL) q;
      q = fill_ptes (of_nat (4096 * d)) (PG_PRESENT OR PG_GLOBAL OR PG_NX) q;
      q = fill_ptes (of_nat (4096 * s)) (PG_PRESENT OR PG_RW OR PG_GLOBAL OR PG_NX) q;
      (p, page, m) = fill_ptes (of_nat (4096 * e)) (PG_PRESENT OR PG_RW OR PG_GLOBAL OR PG_NX) q
      in clear_ptes 513 (of_nat (b + 4096 * n)) (p, m)) = Inr (of_nat (b + 4096 * n), m') \<and>
    cells_set b 0 (512 * n) (\<lambda>j. if j < e then page j OR section_flags t r d j else 0) m m'"
proof -
  have lim: "4096 * t < 2 ^ 32" "4096 * r < 2 ^ 32" "4096 * d < 2 ^ 32" "4096 * s < 2 ^ 32" "4096 * e < 2 ^ 32"
      "b + 8 * t < 2 ^ 32" "b + 8 * r < 2 ^ 32" "b + 8 * d < 2 ^ 32" "b + 8 * s < 2 ^ 32" "b + 8 * e < 2 ^ 32"
      "b + 8 * (512 * n) < 2 ^ 32"
    using assms(1-7) by (simp_all add: b_def)
  obtain m1 where 1: "fill_ptes (of_nat (4096 * t)) (PG_PRESENT OR PG_RW OR PG_GLOBAL OR PG_NX) (of_nat (b + 8 * 0), of_nat (4096 * 0), m) =
      (of_nat (b + 8 * t), page t, m1)" "cells_set b 0 t (\<lambda>j. page j OR (PG_PRESENT OR PG_RW OR PG_GLOBAL OR PG_NX)) m m1"
    using fill_ptes_ok [OF le0 lim(1,6)] by blast
  obtain m2 where 2: "fill_ptes (of_nat (4096 * r)) (PG_PRESENT OR PG_GLOBAL) (of_nat (b + 8 * t), page t, m1) =
      (of_nat (b + 8 * r), page r, m2)" "cells_set b t r (\<lambda>j. page j OR (PG_PRESENT OR PG_GLOBAL)) m1 m2"
    using fill_ptes_ok [OF assms(1) lim(2,7)] by blast
  obtain m3 where 3: "fill_ptes (of_nat (4096 * d)) (PG_PRESENT OR PG_GLOBAL OR PG_NX) (of_nat (b + 8 * r), page r, m2) =
      (of_nat (b + 8 * d), page d, m3)" "cells_set b r d (\<lambda>j. page j OR (PG_PRESENT OR PG_GLOBAL OR PG_NX)) m2 m3"
    using fill_ptes_ok [OF assms(2) lim(3,8)] by blast
  obtain m4 where 4: "fill_ptes (of_nat (4096 * s)) (PG_PRESENT OR PG_RW OR PG_GLOBAL OR PG_NX) (of_nat (b + 8 * d), page d, m3) =
      (of_nat (b + 8 * s), page s, m4)" "cells_set b d s (\<lambda>j. page j OR (PG_PRESENT OR PG_RW OR PG_GLOBAL OR PG_NX)) m3 m4"
    using fill_ptes_ok [OF assms(3) lim(4,9)] by blast
  obtain m5 where 5: "fill_ptes (of_nat (4096 * e)) (PG_PRESENT OR PG_RW OR PG_GLOBAL OR PG_NX) (of_nat (b + 8 * s), page s, m4) =
      (of_nat (b + 8 * e), page e, m5)" "cells_set b s e (\<lambda>j. page j OR (PG_PRESENT OR PG_RW OR PG_GLOBAL OR PG_NX)) m4 m5"
    using fill_ptes_ok [OF assms(4) lim(5,10)] by blast
  have fuel: "512 * n - e < 513" using assms(7) by linarith
  obtain m6 where 6: "clear_ptes 513 (of_nat (b + 8 * (512 * n))) (of_nat (b + 8 * e), m5) = Inr (of_nat (b + 8 * (512 * n)), m6)"
      "cells_set b e (512 * n) (\<lambda>j. 0) m5 m6"
    using clear_ptes_ok [OF assms(6) lim(11) fuel] by blast
  have big: "b + 8 * k < 2 ^ 64" if "b + 8 * k < 2 ^ 32" for k using that by simp
  note c = cells_set_trans [OF cells_set_trans [OF cells_set_trans [OF cells_set_trans [OF cells_set_trans
        [OF 1(2) 2(2) _ assms(1)] 3(2) _ assms(2)] 4(2) _ assms(3)] 5(2) _ assms(4)] 6(2) _ assms(6)]
  have "cells_set b 0 (512 * n) (\<lambda>j. if j < e then page j OR section_flags t r d j else 0) m m6"
    by (rule cells_set_cong [OF c]) (use big lim assms(1-4) in \<open>auto simp: section_flags_def\<close>)
  moreover have "b + 8 * (512 * n) = b + 4096 * n" by simp
  ultimately show ?thesis
    using 1(1) 2(1) 3(1) 4(1) 5(1) 6(1) by (intro exI [of _ m6]) (simp only: Let_def mult_0_right add_0_right semiring_1_class.of_nat_0 prod.case simp_thms)
qed

lemma low_flags:
  "PG_PRESENT AND PHYS_ADDR_MASK = 0" "PG_RW AND PHYS_ADDR_MASK = 0" "PG_HUGE AND PHYS_ADDR_MASK = 0" "PG_NX AND PHYS_ADDR_MASK = 0"
  "section_flags t r d j AND PHYS_ADDR_MASK = 0" "(PG_PRESENT OR PG_RW) AND PHYS_ADDR_MASK = 0"
  by (simp_all add: PG_PRESENT_def PG_RW_def PG_HUGE_def PG_NX_def PG_GLOBAL_def PHYS_ADDR_MASK_def section_flags_def)

lemma count_masked: "push_bit 52 c AND PHYS_ADDR_MASK = 0" "push_bit 52 c AND PG_PRESENT = 0" "push_bit 52 c AND PG_RW = 0"
    "push_bit 52 c AND PG_HUGE = 0"
proof -
  have low: "push_bit 52 c AND g = 0" if "g AND mask 52 = g" for g :: u64
  proof -
    have "push_bit 52 c AND mask 52 = 0" by (rule bit_word_eqI) (simp add: bit_simps)
    then have "(push_bit 52 c AND mask 52) AND g = 0" by simp
    then have "push_bit 52 c AND (g AND mask 52) = 0" by (simp only: and.assoc and.commute and.left_commute)
    then show ?thesis by (simp only: that)
  qed
  have "g AND mask 52 = g" if "g \<in> {PHYS_ADDR_MASK, PG_PRESENT, PG_RW, PG_HUGE}" for g
    using that by (auto simp: PG_PRESENT_def PG_RW_def PG_HUGE_def PHYS_ADDR_MASK_def mask_eq_exp_minus_1)
  then show "push_bit 52 c AND PHYS_ADDR_MASK = 0" "push_bit 52 c AND PG_PRESENT = 0" "push_bit 52 c AND PG_RW = 0"
      "push_bit 52 c AND PG_HUGE = 0"
    by (auto intro!: low)
qed

text \<open>An entry of the upper levels: a table with a count.\<close>

lemma upper_entry:
  assumes "q < 2 ^ 40"
  shows "table_entry (page q OR (PG_PRESENT OR PG_RW) OR push_bit 52 c)"
    "(page q OR (PG_PRESENT OR PG_RW) OR push_bit 52 c) AND PHYS_ADDR_MASK = page q"
proof -
  let ?f = "(PG_PRESENT OR PG_RW) OR push_bit 52 c"
  have f: "?f AND PHYS_ADDR_MASK = 0" "?f AND PG_PRESENT = PG_PRESENT" "?f AND PG_RW = PG_RW" "?f AND PG_HUGE = 0"
    by (simp_all only: bit.conj_disj_distrib2 count_masked low_flags or.right_neutral)
      (simp_all add: PG_PRESENT_def PG_RW_def PG_HUGE_def)
  show "table_entry (page q OR (PG_PRESENT OR PG_RW) OR push_bit 52 c)"
    unfolding table_entry_def
    by (simp only: page_entry(2) [OF assms f(1)] low_flags f) (simp add: PG_PRESENT_def PG_RW_def)
  show "(page q OR (PG_PRESENT OR PG_RW) OR push_bit 52 c) AND PHYS_ADDR_MASK = page q"
    by (rule page_entry(1) [OF assms f(1)])
qed

lemma put_entry_cell:
  assumes "p < 2 ^ 18" "i < 512"
  shows "put_entry (of_nat (4096 * p)) (of_nat i) v m = m(cell_of p i := v)" "get_entry (of_nat (4096 * p)) (of_nat i) m = m (cell_of p i)"
proof -
  have "of_nat (4096 * p) + 8 * of_nat i = (of_nat (4096 * p + 8 * i) :: u32)" by simp
  moreover have "4096 * p + 8 * i < 2 ^ 32" using assms by simp
  ultimately have "ucast (of_nat (4096 * p) + 8 * of_nat i :: u32) = cell_of p i" by (simp only: ucast_of_nat_32)
  then show "put_entry (of_nat (4096 * p)) (of_nat i) v m = m(cell_of p i := v)" "get_entry (of_nat (4096 * p)) (of_nat i) m = m (cell_of p i)"
    by (simp_all only: put_entry_def get_entry_def)
qed

lemma cells_set_keeps:
  assumes "cells_set (4096 * q) i k f m m'" "p < q \<or> q + (k + 511) div 512 \<le> p" "p < 2 ^ 20" "q < 2 ^ 20" "k < 2 ^ 20" "l < 512"
  shows "m' (cell_of p l) = m (cell_of p l)"
proof -
  have "cell_of p l \<noteq> of_nat (4096 * q + 8 * j)" if "j < k" for j
  proof -
    obtain u v where j: "j = 512 * u + v" "v < 512" by (rule split_512)
    have eq: "4096 * q + 8 * j = 4096 * (q + u) + 8 * v" by (simp add: j)
    have "p \<noteq> q + u"
    proof
      assume "p = q + u"
      then have "(k + 511) div 512 \<le> u" using assms(2) by auto
      moreover have "k + 511 < 512 * ((k + 511) div 512) + 512" by (simp add: dividend_less_div_times mult.commute)
      ultimately show False using that j(1) by linarith
    qed
    moreover have "q + u < 2 ^ 40" "p < 2 ^ 40" using assms(3-5) that j(1) by auto
    ultimately show ?thesis unfolding eq using cell_of_eq [of p "q + u" l v] assms(6) j(2) by simp
  qed
  then show ?thesis using assms(1) unfolding cells_set_def by blast
qed

text \<open>The entries of the upper levels before the page tables are filled.\<close>

lemma upper_levels:
  fixes m :: cells and ident :: u64 and r :: nat
  assumes "distinct [p4, pp, pk]" "p4 < 2 ^ 18" "pp < 2 ^ 18" "pk < 2 ^ 18" "e \<le> 2 ^ 18" "0 < n" "n \<le> 512"
  defines "RW \<equiv> PG_PRESENT OR PG_RW"
  defines "m1 \<equiv> m(cell_of p4 0 := page pp OR RW OR push_bit 52 1, cell_of p4 511 := page pp OR RW OR push_bit 52 1,
    cell_of p4 510 := page p4 OR RW, cell_of pp 0 := ident, cell_of pp 510 := (page pk OR RW) OR push_bit 52 (of_nat n))"
  defines "m2 \<equiv> fill_pd (of_nat (4096 * pk)) (of_nat (4096 * e)) RW [0..<n] m1"
  defines "m3 \<equiv> m2(cell_of pk (n - 1) := m2 (cell_of pk (n - 1)) OR push_bit 52 (of_nat r))"
  shows "m3 (cell_of p4 511) = page pp OR RW OR push_bit 52 1" "m3 (cell_of p4 510) = page p4 OR RW OR push_bit 52 0"
    "m3 (cell_of pp 510) = page pk OR RW OR push_bit 52 (of_nat n)"
    "m3 (cell_of p4 0) = page pp OR RW OR push_bit 52 1" "m3 (cell_of pp 0) = ident"
    "n \<le> i \<Longrightarrow> i < 512 \<Longrightarrow> m3 (cell_of pk i) = m (cell_of pk i)"
    "i < n \<Longrightarrow> m3 (cell_of pk i) = page (e + i) OR RW OR push_bit 52 (if i = n - 1 then of_nat r else 0)"
proof -
  have eq: "cell_of p i = cell_of q j \<longleftrightarrow> p = q \<and> i = j" if "p < 2 ^ 18" "q < 2 ^ 18" "i < 512" "j < 512" for p q i j
    by (rule cell_of_eq) (use that in simp_all)
  have pd: "cells_set (4096 * pk) 0 n (\<lambda>i. page (e + i) OR RW) m1 m2"
    unfolding m2_def by (rule fill_pd_ok) (use assms(4,5,7) in simp_all)
  have one: "(n + 511) div 512 = 1" using assms(6,7) by (simp add: div_nat_eqI)
  have keep: "m2 (cell_of p i) = m1 (cell_of p i)" if "p \<noteq> pk" "p < 2 ^ 18" "i < 512" for p i
    by (rule cells_set_keeps [OF pd]) (use that assms(4,7) one in auto)
  have keep3: "m3 (cell_of p i) = m1 (cell_of p i)" if "p \<noteq> pk" "p < 2 ^ 18" "i < 512" for p i
    unfolding m3_def using keep [OF that] eq [of p pk i "n - 1"] that assms(4,6,7) by (simp del: of_nat_add of_nat_mult)
  have distinct: "p4 \<noteq> pp" "p4 \<noteq> pk" "pp \<noteq> pk" using assms(1) by auto
  show "m3 (cell_of p4 511) = page pp OR RW OR push_bit 52 1"
    using keep3 [of p4 511] distinct assms(2-4) eq [of p4 pp 511 510] eq [of p4 pp 511 0] eq [of p4 p4 511 510]
    unfolding m1_def by (simp del: of_nat_add of_nat_mult)
  show "m3 (cell_of p4 510) = page p4 OR RW OR push_bit 52 0"
    using keep3 [of p4 510] distinct assms(2-4) eq [of p4 pp 510 510] eq [of p4 pp 510 0]
    unfolding m1_def by (simp del: of_nat_add of_nat_mult)
  show "m3 (cell_of pp 510) = page pk OR RW OR push_bit 52 (of_nat n)"
    using keep3 [of pp 510] distinct assms(2-4) unfolding m1_def or.assoc by (simp del: of_nat_add of_nat_mult)
  show "m3 (cell_of p4 0) = page pp OR RW OR push_bit 52 1"
    using keep3 [of p4 0] distinct assms(2-4) eq [of p4 pp 0 510] eq [of p4 pp 0 0] eq [of p4 p4 0 510] eq [of p4 p4 0 511]
    unfolding m1_def by (simp del: of_nat_add of_nat_mult)
  show "m3 (cell_of pp 0) = ident"
    using keep3 [of pp 0] distinct assms(2-4) eq [of pp pp 0 510] unfolding m1_def by (simp del: of_nat_add of_nat_mult)
  have rest: "m3 (cell_of pk i) = m (cell_of pk i)" if i: "n \<le> i" "i < 512"
  proof -
    have "cell_of pk i \<noteq> of_nat (4096 * pk + 8 * j)" if "j < n" for j
      using eq [of pk pk i j] i that assms(4,7) by (simp del: of_nat_add of_nat_mult)
    then have "m2 (cell_of pk i) = m1 (cell_of pk i)" using pd unfolding cells_set_def by blast
    moreover have "m3 (cell_of pk i) = m2 (cell_of pk i)"
      unfolding m3_def using eq [of pk pk i "n - 1"] i assms(4,6,7) by (simp del: of_nat_add of_nat_mult)
    moreover have "m1 (cell_of pk i) = m (cell_of pk i)"
      unfolding m1_def using eq [of pk p4 i 0] eq [of pk p4 i 511] eq [of pk p4 i 510] eq [of pk pp i 0] eq [of pk pp i 510] distinct
        assms(2-4) i by (simp del: of_nat_add of_nat_mult)
    ultimately show ?thesis by simp
  qed
  then show "n \<le> i \<Longrightarrow> i < 512 \<Longrightarrow> m3 (cell_of pk i) = m (cell_of pk i)" .
  assume i: "i < n"
  have pdi: "m2 (cell_of pk l) = page (e + l) OR RW" if "l < n" for l using pd that unfolding cells_set_def by blast
  show "m3 (cell_of pk i) = page (e + i) OR RW OR push_bit 52 (if i = n - 1 then of_nat r else 0)"
  proof (cases "i = n - 1")
    case True
    then have last: "m3 (cell_of pk i) = m2 (cell_of pk i) OR push_bit 52 (of_nat r)" unfolding m3_def by (simp only: fun_upd_same)
    show ?thesis unfolding if_P [OF True] last pdi [OF i] or.assoc ..
  next
    case False
    then have "m3 (cell_of pk i) = m2 (cell_of pk i)"
      using eq [of pk pk i "n - 1"] i assms(4,6,7) unfolding m3_def by (simp del: of_nat_add of_nat_mult)
    then show ?thesis using False by (simp add: pdi [OF i] del: of_nat_add of_nat_mult)
  qed
qed

lemma unat_of_nat_u32: "x < 2 ^ 32 \<Longrightarrow> unat (of_nat x :: u32) = x"
  by (simp add: unat_of_nat)

lemma of_nat_div_u32:
  assumes "x < 2 ^ 32" "y < 2 ^ 32"
  shows "(of_nat x :: u32) div of_nat y = of_nat (x div y)"
proof -
  have "x div y < 2 ^ 32" using assms(1) div_le_dividend [of x y] by linarith
  then show ?thesis using assms by (simp only: word_unat_eq_iff unat_div unat_of_nat_u32)
qed

lemma of_nat_mod_u32:
  assumes "x < 2 ^ 32" "y < 2 ^ 32"
  shows "(of_nat x :: u32) mod of_nat y = of_nat (x mod y)"
proof -
  have "x mod y < 2 ^ 32" using assms(1) mod_less_eq_dividend [of x y] by linarith
  then show ?thesis using assms by (simp only: word_unat_eq_iff unat_mod unat_of_nat_u32)
qed

text \<open>The number of tables and the count of the last one, as the code computes them.\<close>

lemma table_count:
  assumes "0 < e" "e \<le> 2 ^ 18"
  defines "R \<equiv> (of_nat (4096 * e) :: u32) mod ucast (PT_ENTRY_COUNT * PG_SIZE)"
    and "D \<equiv> (of_nat (4096 * e) :: u32) div ucast (PT_ENTRY_COUNT * PG_SIZE)"
  shows "(if R \<noteq> 0 then D + 1 else D) = of_nat (tables_needed e)" "ucast (R div ucast PG_SIZE) = (of_nat (e mod 512) :: u64)"
proof -
  have c: "(ucast (PT_ENTRY_COUNT * PG_SIZE) :: u32) = of_nat (4096 * 512)" "(ucast PG_SIZE :: u32) = of_nat 4096"
    by (simp_all add: PT_ENTRY_COUNT_def PG_SIZE_def)
  have R: "R = of_nat (4096 * (e mod 512))"
    unfolding R_def c by (subst of_nat_mod_u32) (use assms(2) in \<open>simp_all only: mult_mod_right [symmetric], simp_all\<close>)
  have D: "D = of_nat (e div 512)"
    unfolding D_def c by (subst of_nat_div_u32) (use assms(2) in \<open>simp_all\<close>)
  have "R = 0 \<longleftrightarrow> e mod 512 = 0"
  proof -
    have "unat R = 4096 * (e mod 512)" unfolding R by (rule unat_of_nat_u32) (simp add: less_trans [OF mod_less_divisor])
    moreover have "R = 0 \<longleftrightarrow> unat R = 0" by (simp add: unat_eq_0)
    ultimately show ?thesis by simp
  qed
  moreover have "tables_needed e = (if e mod 512 \<noteq> 0 then e div 512 + 1 else e div 512)"
  proof -
    obtain u v where e: "e = 512 * u + v" "v < 512" by (rule split_512)
    have "(512 * u + v + 511) div 512 = (if v \<noteq> 0 then u + 1 else u)"
      using e(2) by (auto intro!: div_nat_eqI)
    then show ?thesis using e(2) by (simp add: tables_needed_def e(1))
  qed
  ultimately show "(if R \<noteq> 0 then D + 1 else D) = of_nat (tables_needed e)" by (simp add: D)
  have "R div ucast PG_SIZE = of_nat (e mod 512)"
    unfolding R c by (subst of_nat_div_u32) simp_all
  then show "ucast (R div ucast PG_SIZE) = (of_nat (e mod 512) :: u64)"
    using ucast_of_nat_32 [of "e mod 512"] by simp
qed

lemma walk_absent: "(mem :: cells) (table + 8 * pt_index (Suc 0) va) = 0 \<Longrightarrow> walk mem (Suc 0) table va = None"
  by (simp add: walk.simps Let_def)

text \<open>
  The tables that \<open>initialize_paging\<close> builds: the top-level table with its self entry, the page directory pointers for
  the first addresses and for the kernel's, the kernel's page directory, and \<open>tables_needed e\<close> page tables from page
  \<open>e\<close> on.
\<close>

definition kernel_tables :: "nat \<Rightarrow> nat \<Rightarrow> nat \<Rightarrow> nat \<Rightarrow> nat \<Rightarrow> nat \<Rightarrow> nat \<Rightarrow> nat \<Rightarrow> cells \<Rightarrow> bool" where
  "kernel_tables p4 pp pk ip t r d e m \<longleftrightarrow>
     m (cell_of p4 0) = page pp OR (PG_PRESENT OR PG_RW) OR push_bit 52 1 \<and>
     m (cell_of pp 0) = page ip OR (PG_PRESENT OR PG_RW) \<and>
     m (cell_of p4 511) = page pp OR (PG_PRESENT OR PG_RW) OR push_bit 52 1 \<and>
     m (cell_of p4 510) = page p4 OR (PG_PRESENT OR PG_RW) OR push_bit 52 0 \<and>
     m (cell_of pp 510) = page pk OR (PG_PRESENT OR PG_RW) OR push_bit 52 (of_nat (tables_needed e)) \<and>
     (\<forall>i < tables_needed e. m (cell_of pk i) = page (e + i) OR (PG_PRESENT OR PG_RW) OR
        push_bit 52 (if i = tables_needed e - 1 then of_nat (e mod 512) else 0)) \<and>
     (\<forall>j < 512 * tables_needed e. m (cell_of (e + j div 512) (j mod 512)) = (if j < e then page j OR section_flags t r d j else 0))"

lemma tables_needed_bounds: "0 < e \<Longrightarrow> e \<le> 2 ^ 18 \<Longrightarrow> 0 < tables_needed e \<and> tables_needed e \<le> 512 \<and>
    e \<le> 512 * tables_needed e \<and> 512 * tables_needed e < e + 512"
  unfolding tables_needed_def by auto

lemma cell_of_split: "cell_of (e + j div 512) (j mod 512) = of_nat (4096 * e + 8 * j)"
proof -
  obtain u v where "j = 512 * u + v" "v < 512" by (rule split_512)
  then have "4096 * (e + j div 512) + 8 * (j mod 512) = 4096 * e + 8 * j" by simp
  then show ?thesis by (rule arg_cong)
qed

lemma kernel_tablesI:
  assumes up: "m3 (cell_of p4 511) = page pp OR (PG_PRESENT OR PG_RW) OR push_bit 52 1"
      "m3 (cell_of p4 510) = page p4 OR (PG_PRESENT OR PG_RW) OR push_bit 52 0"
      "m3 (cell_of pp 510) = page pk OR (PG_PRESENT OR PG_RW) OR push_bit 52 (of_nat (tables_needed e))"
      "m3 (cell_of p4 0) = page pp OR (PG_PRESENT OR PG_RW) OR push_bit 52 1" "m3 (cell_of pp 0) = page ip OR (PG_PRESENT OR PG_RW)"
      "\<And>i. i < tables_needed e \<Longrightarrow> m3 (cell_of pk i) = page (e + i) OR (PG_PRESENT OR PG_RW) OR
         push_bit 52 (if i = tables_needed e - 1 then of_nat (e mod 512) else 0)"
    and tabs: "p4 < e" "pp < e" "pk < e" "e \<le> 2 ^ 18"
    and cells: "cells_set (4096 * e) 0 (512 * tables_needed e) (\<lambda>j. if j < e then page j OR section_flags t r d j else 0) m3 m'"
  shows "kernel_tables p4 pp pk ip t r d e m'"
proof -
  have n: "tables_needed e \<le> 512" using tables_needed_bounds [of e] tabs(1,4) by simp
  have keep: "m' (cell_of q i) = m3 (cell_of q i)" if "q < e" "i < 512" for q i
    by (rule cells_set_keeps [OF cells]) (use that tabs(4) n in auto)
  have leaf: "m' (cell_of (e + j div 512) (j mod 512)) = (if j < e then page j OR section_flags t r d j else 0)"
    if "j < 512 * tables_needed e" for j
    unfolding cell_of_split by (rule cells_setD [OF cells le0 that])
  have dir: "m' (cell_of pk i) = page (e + i) OR (PG_PRESENT OR PG_RW) OR
      push_bit 52 (if i = tables_needed e - 1 then of_nat (e mod 512) else 0)" if i: "i < tables_needed e" for i
  proof -
    have "m' (cell_of pk i) = m3 (cell_of pk i)" by (rule keep [OF tabs(3)]) (use i n in simp)
    then show ?thesis using up(6) [OF i] by (rule trans)
  qed
  have "m' (cell_of p4 511) = m3 (cell_of p4 511)" "m' (cell_of p4 510) = m3 (cell_of p4 510)" "m' (cell_of pp 510) = m3 (cell_of pp 510)"
      "m' (cell_of p4 0) = m3 (cell_of p4 0)" "m' (cell_of pp 0) = m3 (cell_of pp 0)"
    by (rule keep; use tabs(1,2) in simp)+
  then show ?thesis unfolding kernel_tables_def using up(1-5) by (intro conjI allI impI leaf dir) (simp_all only:)
qed

lemma initialize_paging_run:
  assumes "image_ok b p4 pp pk ip t r d s e"
  shows "\<exists>m'. initialize_paging b m = Inr (of_nat (4096 * (e + tables_needed e)), m') \<and> kernel_tables p4 pp pk ip t r d e m' \<and>
    (\<forall>i. tables_needed e \<le> i \<longrightarrow> i < 512 \<longrightarrow> m' (cell_of pk i) = m (cell_of pk i))"
proof -
  let ?n = "tables_needed e" and ?RW = "PG_PRESENT OR PG_RW"
  have b: "b = \<lparr>sym_pml4t = of_nat (4096 * p4), sym_pdpt = of_nat (4096 * pp), sym_kernel_pd = of_nat (4096 * pk),
       sym_identity_pd = of_nat (4096 * ip), KERNEL_TEXT_PHYS = of_nat (4096 * t), KERNEL_RODATA_PHYS = of_nat (4096 * r),
       KERNEL_DATA_PHYS = of_nat (4096 * d), KERNEL_BSS_PHYS = of_nat (4096 * s), KERNEL_END_PHYS = of_nat (4096 * e)\<rparr>"
    and dist: "distinct [p4, pp, pk]" and tabs: "p4 < e" "pp < e" "pk < e" "ip < e"
    and ord: "t \<le> r" "r \<le> d" "d \<le> s" "s \<le> e" "0 < e" "e \<le> 2 ^ 18"
    using assms unfolding image_ok_def by blast+
  have n: "0 < ?n" "?n \<le> 512" "e \<le> 512 * ?n" "512 * ?n < e + 512" unfolding tables_needed_def using ord(5,6) by auto
  have small: "p4 < 2 ^ 18" "pp < 2 ^ 18" "pk < 2 ^ 18" "ip < 2 ^ 18" using tabs ord(6) by simp_all
  define m1 where "m1 = m(cell_of p4 0 := page pp OR ?RW OR push_bit 52 1, cell_of p4 511 := page pp OR ?RW OR push_bit 52 1,
    cell_of p4 510 := page p4 OR ?RW, cell_of pp 0 := page ip OR ?RW, cell_of pp 510 := (page pk OR ?RW) OR push_bit 52 (of_nat ?n))"
  define m2 where "m2 = fill_pd (of_nat (4096 * pk)) (of_nat (4096 * e)) ?RW [0..<?n] m1"
  define m3 where "m3 = m2(cell_of pk (?n - 1) := m2 (cell_of pk (?n - 1)) OR push_bit 52 (of_nat (e mod 512)))"
  note up = upper_levels [OF dist small(1-3) ord(6) n(1,2), where m = m and ident = "page ip OR ?RW" and r = "e mod 512",
      folded m1_def, folded m2_def, folded m3_def]
  obtain m' where m': "(let q = fill_ptes (of_nat (4096 * t)) (PG_PRESENT OR PG_RW OR PG_GLOBAL OR PG_NX) (of_nat (4096 * e), 0, m3);
      q = fill_ptes (of_nat (4096 * r)) (PG_PRESENT OR PG_GLOBAL) q;
      q = fill_ptes (of_nat (4096 * d)) (PG_PRESENT OR PG_GLOBAL OR PG_NX) q;
      q = fill_ptes (of_nat (4096 * s)) (PG_PRESENT OR PG_RW OR PG_GLOBAL OR PG_NX) q;
      (p, page, m) = fill_ptes (of_nat (4096 * e)) (PG_PRESENT OR PG_RW OR PG_GLOBAL OR PG_NX) q
      in clear_ptes 513 (of_nat (4096 * e + 4096 * ?n)) (p, m)) = Inr (of_nat (4096 * e + 4096 * ?n), m')"
    and cells: "cells_set (4096 * e) 0 (512 * ?n) (\<lambda>j. if j < e then page j OR section_flags t r d j else 0) m3 m'"
    using tables_filled [OF ord(1-4,6) n(3,4), of m3] by blast
  have pages: "ucast (of_nat (4096 * q) :: u32) = page q" if "q < 2 ^ 18" for q
    by (rule ucast_of_nat_32) (use that in simp)
  have self: "ucast PG_SELF = (510 :: u32)" by (simp add: PG_SELF_def)
  have nword: "ucast (of_nat ?n :: u32) = (of_nat ?n :: u64)" "unat (of_nat ?n :: u32) = ?n" "(of_nat ?n :: u32) - 1 = of_nat (?n - 1)"
    using n(1,2) by (simp_all add: ucast_of_nat_32 unat_of_nat_u32)
  have en: "of_nat ?n * ucast PG_SIZE + of_nat (4096 * e) = (of_nat (4096 * e + 4096 * ?n) :: u32)"
    by (simp add: PG_SIZE_def)
  have put: "put_entry (of_nat (4096 * q)) 0 v x = x(cell_of q 0 := v)" "put_entry (of_nat (4096 * q)) 511 v x = x(cell_of q 511 := v)"
      "put_entry (of_nat (4096 * q)) 510 v x = x(cell_of q 510 := v)" "get_entry (of_nat (4096 * q)) 510 x = x (cell_of q 510)"
      if "q < 2 ^ 18" for q v x
    using put_entry_cell(1) [OF that, of 0] put_entry_cell [OF that, of 511] put_entry_cell [OF that, of 510] by simp_all
  have last: "put_entry (of_nat (4096 * pk)) (of_nat (?n - 1)) v x = x(cell_of pk (?n - 1) := v)"
      "get_entry (of_nat (4096 * pk)) (of_nat (?n - 1)) x = x (cell_of pk (?n - 1))" for v x
    using put_entry_cell [OF small(3), of "?n - 1"] n(1,2) by simp_all
  have upd: "m(cell_of p4 0 := page pp OR ?RW OR push_bit 52 1, cell_of p4 511 := page pp OR ?RW OR push_bit 52 1,
    cell_of p4 510 := page p4 OR ?RW, cell_of pp 0 := page ip OR ?RW, cell_of pp 510 := page pk OR ?RW,
    cell_of pp 510 := (page pk OR ?RW) OR push_bit 52 (of_nat ?n)) = m1"
    unfolding m1_def by (simp only: fun_upd_upd)
  have assoc: "(PG_PRESENT OR PG_RW) OR PG_GLOBAL OR PG_NX = PG_PRESENT OR PG_RW OR PG_GLOBAL OR PG_NX" by (rule or.assoc)
  have run: "initialize_paging b m = Inr (of_nat (4096 * (e + ?n)), m')"
    using m' unfolding initialize_paging_def b boot_symbols.simps PG_REFCOUNT_OFFSET_def Let_def
    by (simp only: table_count [OF ord(5,6)] nword self pages [OF small(1)] pages [OF small(2)] pages [OF small(3)] pages [OF small(4)]
        put [OF small(1)] put [OF small(2)] last fun_upd_same upd assoc m2_def [symmetric] m3_def [symmetric] en distrib_left)
  have "kernel_tables p4 pp pk ip t r d e m'"
    by (rule kernel_tablesI [OF up(1-5,7) tabs(1-3) ord(6) cells])
  moreover have "m' (cell_of pk i) = m (cell_of pk i)" if i: "?n \<le> i" "i < 512" for i
  proof -
    have "m' (cell_of pk i) = m3 (cell_of pk i)" by (rule cells_set_keeps [OF cells]) (use i tabs ord(6) n(2) in auto)
    then show ?thesis using up(6) [OF i] by (rule trans)
  qed
  ultimately show ?thesis using run by blast
qed

lemma kernel_tables_walk:
  assumes kt: "kernel_tables p4 pp pk ip t r d e (phys k)" and k: "cr3 k = page p4" and tabs: "p4 < e" "pp < e" "pk < e" "e \<le> 2 ^ 18"
    and j: "j < 512 * tables_needed e" and off: "off < 4096"
  shows "translate k (KERNEL_VMA + page j + off) = (if j < e then Some (page j + off, j < t \<or> d \<le> j) else None)"
proof -
  let ?va = "KERNEL_VMA + page j + off" and ?RW = "PG_PRESENT OR PG_RW" and ?m = "phys k"
  have n: "tables_needed e \<le> 512" using tables_needed_bounds [of e] tabs(1,4) by simp
  have j18: "j < 2 ^ 18" "j div 512 < tables_needed e" "j mod 512 < 512" using j n by (auto simp: less_mult_imp_div_less mult.commute)
  note idx = pt_index_kernel [OF j18(1) off]
  obtain c where c: "?m (cell_of pk (j div 512)) = page (e + j div 512) OR ?RW OR push_bit 52 c"
    using kt j18(2) unfolding kernel_tables_def by blast
  have e4: "?m (page p4 + 8 * pt_index 4 ?va) = page pp OR ?RW OR push_bit 52 1"
    and e3: "?m (page pp + 8 * pt_index 3 ?va) = page pk OR ?RW OR push_bit 52 (of_nat (tables_needed e))"
    using kt unfolding kernel_tables_def idx by simp_all
  have e2: "?m (page pk + 8 * pt_index 2 ?va) = page (e + j div 512) OR ?RW OR push_bit 52 c"
    using c unfolding idx by simp
  have leaf: "?m (cell_of (e + j div 512) (j mod 512)) = (if j < e then page j OR section_flags t r d j else 0)"
    using kt j unfolding kernel_tables_def by blast
  have e1: "?m (page (e + j div 512) + 8 * pt_index (Suc 0) ?va) = (if j < e then page j OR section_flags t r d j else 0)"
    using leaf unfolding idx by simp
  have lim: "pp < 2 ^ 40" "pk < 2 ^ 40" "e + j div 512 < 2 ^ 40" "j < 2 ^ 40" using tabs j18 n by auto
  have "translate k ?va = walk ?m (Suc 0) (page (e + j div 512)) ?va"
    unfolding translate_def k
    by (simp only: walk_tables e4 e3 e2 upper_entry [OF lim(1)] upper_entry [OF lim(2)] upper_entry [OF lim(3)])
  also have "\<dots> = (if j < e then Some (page j + off, j < t \<or> d \<le> j) else None)"
  proof (cases "j < e")
    case True
    let ?f = "section_flags t r d j"
    have l: "?m (page (e + j div 512) + 8 * pt_index (Suc 0) ?va) = page j OR ?f" using e1 True by simp
    have "?f AND PG_PRESENT \<noteq> 0" "?f AND PG_RW \<noteq> 0 \<longleftrightarrow> j < t \<or> d \<le> j"
      by (auto simp: section_flags_def PG_PRESENT_def PG_RW_def PG_GLOBAL_def PG_NX_def)
    then show ?thesis
      using walk_leaf [of ?m "page (e + j div 512)" ?va] True
      by (simp only: l page_entry [OF lim(4) low_flags(5)] low_flags(1,2) idx(5) if_True simp_thms)
  next
    case False
    then have "?m (page (e + j div 512) + 8 * pt_index (Suc 0) ?va) = 0" using e1 by simp
    then show ?thesis using False by (simp only: walk_absent if_False)
  qed
  finally show ?thesis .
qed

lemma kernel_tables_self:
  assumes "kernel_tables p4 pp pk ip t r d e (phys k)" "cr3 k = page p4" "p4 < 2 ^ 40"
  shows "self_mapped k"
proof -
  have "phys k (page p4 + 8 * 510) = page p4 OR (PG_PRESENT OR PG_RW) OR push_bit 52 0"
    using assms(1) unfolding kernel_tables_def by simp
  then show ?thesis unfolding self_mapped_def assms(2) by (simp only: upper_entry [OF assms(3)] simp_thms)
qed

lemma kernel_tables_nx:
  assumes "kernel_tables p4 pp pk ip t r d e m" "j < e" "e \<le> 2 ^ 18" "t \<le> r" "r \<le> d"
  shows "m (cell_of (e + j div 512) (j mod 512)) AND PG_NX = 0 \<longleftrightarrow> t \<le> j \<and> j < r"
proof -
  have "j < 512 * tables_needed e" "j < 2 ^ 40" using tables_needed_bounds [of e] assms(2,3) by auto
  then have "m (cell_of (e + j div 512) (j mod 512)) AND PG_NX = section_flags t r d j AND PG_NX"
    using assms(1,2) unfolding kernel_tables_def by (simp only: if_True page_entry(2) [OF _ low_flags(5) low_flags(4)])
  also have "\<dots> = 0 \<longleftrightarrow> t \<le> j \<and> j < r"
    using assms(4,5) by (auto simp: section_flags_def PG_PRESENT_def PG_RW_def PG_GLOBAL_def PG_NX_def)
  finally show ?thesis .
qed

text \<open>
  Property C16: the first page tables. For a kernel image laid out as the linker script does it, of at most
  1 GiB, \<open>initialize_paging\<close> returns; with the result as physical memory and the top-level table in \<open>cr3\<close>, the
  kernel's virtual addresses are translated to its physical pages, no page of it is both writable and executable, the rest of the last
  page table is not mapped, and the self entry that \<open>mm/pages.c\<close> relies on is in place.
\<close>

theorem initialize_paging_correct:
  assumes "image_ok b p4 pp pk ip t r d s e"
  shows "\<exists>m'. initialize_paging b m = Inr (of_nat (4096 * (e + tables_needed e)), m') \<and>
    (\<forall>k. phys k = m' \<longrightarrow> cr3 k = page p4 \<longrightarrow> self_mapped k \<and>
      (\<forall>j off. j < e \<longrightarrow> off < 4096 \<longrightarrow> translate k (KERNEL_VMA + page j + off) = Some (page j + off, j < t \<or> d \<le> j)) \<and>
      (\<forall>j off. e \<le> j \<longrightarrow> j < 512 * tables_needed e \<longrightarrow> off < 4096 \<longrightarrow> translate k (KERNEL_VMA + page j + off) = None) \<and>
      (\<forall>j. j < e \<longrightarrow> (m' (cell_of (e + j div 512) (j mod 512)) AND PG_NX = 0 \<longleftrightarrow> t \<le> j \<and> j < r)))"
proof -
  have ord: "p4 < e" "pp < e" "pk < e" "e \<le> 2 ^ 18" "t \<le> r" "r \<le> d" using assms unfolding image_ok_def by blast+
  obtain m' where m': "initialize_paging b m = Inr (of_nat (4096 * (e + tables_needed e)), m')" and kt: "kernel_tables p4 pp pk ip t r d e m'"
    using initialize_paging_run [OF assms] by blast
  have n: "e \<le> 512 * tables_needed e" using tables_needed_bounds [of e] ord(1,4) by simp
  show ?thesis
  proof (intro exI [of _ m'] conjI m' allI impI)
    fix k :: kernel and j and off :: u64
    assume k: "phys k = m'" "cr3 k = page p4"
    have kt': "kernel_tables p4 pp pk ip t r d e (phys k)" using kt k(1) by simp
    note walk = kernel_tables_walk [OF kt' k(2) ord(1-4)]
    show "self_mapped k" by (rule kernel_tables_self [OF kt' k(2)]) (use ord(1,4) in simp)
    show "j < e \<Longrightarrow> off < 4096 \<Longrightarrow> translate k (KERNEL_VMA + page j + off) = Some (page j + off, j < t \<or> d \<le> j)"
      using walk [of j off] n by simp
    show "e \<le> j \<Longrightarrow> j < 512 * tables_needed e \<Longrightarrow> off < 4096 \<Longrightarrow> translate k (KERNEL_VMA + page j + off) = None"
      using walk [of j off] by simp
  qed (rule kernel_tables_nx [OF kt _ ord(4-6)])
qed

text \<open>A kernel of 600 pages from 1 MiB on, with its tables in the first pages of the image.\<close>

definition example_symbols :: boot_symbols where
  "example_symbols = \<lparr>sym_pml4t = of_nat (4096 * 257), sym_pdpt = of_nat (4096 * 258), sym_kernel_pd = of_nat (4096 * 259),
     sym_identity_pd = of_nat (4096 * 260), KERNEL_TEXT_PHYS = of_nat (4096 * 270), KERNEL_RODATA_PHYS = of_nat (4096 * 300),
     KERNEL_DATA_PHYS = of_nat (4096 * 310), KERNEL_BSS_PHYS = of_nat (4096 * 320), KERNEL_END_PHYS = of_nat (4096 * 600)\<rparr>"

theorem initialize_paging_correct_witness:
  "\<exists>m'. initialize_paging example_symbols (\<lambda>_. 0) = Inr (of_nat (4096 * 602), m') \<and>
     translate (example_kernel\<lparr>phys := m', cr3 := page 257\<rparr>) (KERNEL_VMA + page 280 + 8) = Some (page 280 + 8, False)"
proof -
  have ok: "image_ok example_symbols 257 258 259 260 270 300 310 320 600" by (simp add: image_ok_def example_symbols_def)
  have n: "tables_needed 600 = 2" by (simp add: tables_needed_def)
  obtain m' where m': "initialize_paging example_symbols (\<lambda>_. 0) = Inr (of_nat (4096 * 602), m')"
    and all: "\<forall>k. phys k = m' \<longrightarrow> cr3 k = page 257 \<longrightarrow> self_mapped k \<and>
      (\<forall>j off. j < 600 \<longrightarrow> off < 4096 \<longrightarrow> translate k (KERNEL_VMA + page j + off) = Some (page j + off, j < 270 \<or> 310 \<le> j))"
    using initialize_paging_correct [OF ok, of "\<lambda>_. 0"] unfolding n by auto
  define k where "k = example_kernel\<lparr>phys := m', cr3 := page 257\<rparr>"
  have "phys k = m'" "cr3 k = page 257" by (simp_all add: k_def)
  with all have "\<forall>j off. j < 600 \<longrightarrow> off < 4096 \<longrightarrow> translate k (KERNEL_VMA + page j + off) = Some (page j + off, j < 270 \<or> 310 \<le> j)"
    by blast
  from this [rule_format, of 280 8] have "translate k (KERNEL_VMA + page 280 + 8) = Some (page 280 + 8, False)" by simp
  then show ?thesis using m' unfolding k_def by blast
qed

end
