(* ===== verification/Memory_Boot.thy ===== *)
theory Memory_Boot imports Heap_Boot Vm_Init Paging_Init begin

text \<open>
  The memory at boot, from the page tables of \<open>arch/x64/paging_init32.c\<close> to the heap: the calls of
  \<open>initialize_frame_allocation\<close>, \<open>initialize_virtual_memory\<close> and \<open>initialize_kernel_heap\<close> in \<open>arch/x64/init.c\<close>.
\<close>

definition initialize_memory :: "(memory_state, unit) kproc" where
  "initialize_memory =
     thenS (on_pages initialize_frame_allocation)
    (thenS (on_pages initialize_virtual_memory)
     initialize_kernel_heap)"

section \<open>The tables the kernel starts with\<close>

text \<open>
  A kernel image of \<open>e\<close> pages, its page tables as \<open>initialize_paging\<close> leaves them in memory, right behind it; the upper
  half of the page directory is empty.
\<close>

definition started :: "nat \<Rightarrow> nat \<Rightarrow> nat \<Rightarrow> nat \<Rightarrow> nat \<Rightarrow> nat \<Rightarrow> nat \<Rightarrow> nat \<Rightarrow> kernel \<Rightarrow> bool" where
  "started p4 pp pk ip t r d e k \<longleftrightarrow> kernel_tables p4 pp pk ip t r d e (phys k) \<and> cr3 k = page p4 \<and>
     k_kernel_end k = page (e + tables_needed e) \<and> distinct [p4, pp, pk] \<and> p4 < e \<and> pp < e \<and> pk < e \<and> ip < e \<and> e \<le> 4096 \<and>
     t \<le> r \<and> r \<le> d \<and> (\<forall>i. tables_needed e \<le> i \<longrightarrow> i < 512 \<longrightarrow> phys k (cell_of pk i) = 0)"

lemma tables_at_most_8: "e \<le> 4096 \<Longrightarrow> tables_needed e \<le> 8"
  unfolding tables_needed_def by auto

lemma low_entry: "q < 2 ^ 40 \<Longrightarrow> table_entry (page q OR (PG_PRESENT OR PG_RW))"
    "q < 2 ^ 40 \<Longrightarrow> (page q OR (PG_PRESENT OR PG_RW)) AND PHYS_ADDR_MASK = page q"
  using upper_entry [of q 0] by simp_all

lemma startedD:
  assumes "started p4 pp pk ip t r d e k"
  shows "p4 < 4096" "pp < 4096" "pk < 4096" "ip < 4096" "e \<le> 4096" "3 \<le> e" "0 < tables_needed e" "tables_needed e \<le> 8"
    "p4 \<noteq> pp" "p4 \<noteq> pk" "pp \<noteq> pk" "cr3 k = page p4"
proof -
  have d: "distinct [p4, pp, pk]" "p4 < e" "pp < e" "pk < e" "ip < e" "e \<le> 4096" "cr3 k = page p4" using assms unfolding started_def by blast+
  show "p4 < 4096" "pp < 4096" "pk < 4096" "ip < 4096" "e \<le> 4096" "p4 \<noteq> pp" "p4 \<noteq> pk" "pp \<noteq> pk" "cr3 k = page p4" using d by auto
  show "3 \<le> e" using d(1-4) by auto
  show "0 < tables_needed e" using tables_needed_bounds [of e] d(2,6) by simp
  show "tables_needed e \<le> 8" by (rule tables_at_most_8 [OF d(6)])
qed

text \<open>Cells of the tables are the same only when both numbers are.\<close>

definition cell_no :: "nat \<Rightarrow> nat \<Rightarrow> u64" where
  "cell_no p i = cell_of p i"

lemma cell_no_eq: "p \<le> 8192 \<Longrightarrow> q \<le> 8192 \<Longrightarrow> i < 512 \<Longrightarrow> j < 512 \<Longrightarrow> cell_no p i = cell_no q j \<longleftrightarrow> p = q \<and> i = j"
  unfolding cell_no_def by (rule cell_of_eq) simp_all

text \<open>The entries on the way to an address of the last 2 GiB.\<close>

lemma upper_cells:
  assumes s: "started p4 pp pk ip t r d e k" and v: "pt_index 4 v = 511" "pt_index 3 v = 510" "pt_index 2 v = of_nat i"
  shows "cell_at k 0 v = cell_of p4 511" "cell_at k (Suc 0) v = cell_of pp 510" "cell_at k 2 v = cell_of pk i" "tables_ok k 2 v"
proof -
  note d = startedD [OF s]
  have kt: "phys k (cell_of p4 511) = page pp OR (PG_PRESENT OR PG_RW) OR push_bit 52 1"
      "phys k (cell_of pp 510) = page pk OR (PG_PRESENT OR PG_RW) OR push_bit 52 (of_nat (tables_needed e))"
    using s unfolding started_def kernel_tables_def by blast+
  have lim: "pp < 2 ^ 40" "pk < 2 ^ 40" using d(2,3) by simp_all
  show c0: "cell_at k 0 v = cell_of p4 511" by (simp add: entry_cell_simps d(12) v)
  show c1: "cell_at k (Suc 0) v = cell_of pp 510" unfolding entry_cell_simps(2) c0 kt(1) upper_entry(2) [OF lim(1)] v(2) by simp
  show "cell_at k 2 v = cell_of pk i" unfolding entry_cell_simps(3) c1 kt(2) upper_entry(2) [OF lim(2)] v(3) by simp
  have "table_entry (entry_at k 0 v)" "table_entry (entry_at k (Suc 0) v)"
    unfolding entry_at_def c0 c1 kt by (rule upper_entry(1) [OF lim(1)], rule upper_entry(1) [OF lim(2)])
  then show "tables_ok k 2 v" unfolding tables_ok_def numeral_2_eq_2 less_Suc_eq by auto
qed

lemma started_self: "started p4 pp pk ip t r d e k \<Longrightarrow> self_mapped k" "started p4 pp pk ip t r d e k \<Longrightarrow> self_cell k = cell_of p4 510"
proof -
  assume s: "started p4 pp pk ip t r d e k"
  show "self_mapped k" by (rule kernel_tables_self) (use s startedD [OF s] in \<open>auto simp: started_def\<close>)
  show "self_cell k = cell_of p4 510" by (simp add: startedD [OF s])
qed

text \<open>The two windows of the frame allocator, the first two pages.\<close>

lemma started_windows:
  assumes s: "started p4 pp pk ip t r d e k"
  shows "cell_at k 0 ZERO_WINDOW = cell_of p4 511" "cell_at k (Suc 0) ZERO_WINDOW = cell_of pp 510" "cell_at k 2 ZERO_WINDOW = cell_of pk 0"
    "window_cell k = cell_of e 0" "zero_cell k = cell_of e 1" "table_path k ZERO_WINDOW" "windows_ok k"
    "window_tables k = {cell_of p4 510, cell_of p4 511, cell_of pp 510, cell_of pk 0}"
proof -
  note d = startedD [OF s]
  have v: "pt_index 4 ZERO_WINDOW = 511" "pt_index 3 ZERO_WINDOW = 510" "pt_index 2 ZERO_WINDOW = of_nat 0" "pt_index (Suc 0) ZERO_WINDOW = of_nat 1"
    by (simp_all add: ZERO_WINDOW_def pt_index_def)
  note c = upper_cells [OF s v(1-3)]
  show "cell_at k 0 ZERO_WINDOW = cell_of p4 511" "cell_at k (Suc 0) ZERO_WINDOW = cell_of pp 510" "cell_at k 2 ZERO_WINDOW = cell_of pk 0"
    by (rule c)+
  define x where "x = push_bit 52 (if 0 = tables_needed e - 1 then of_nat (e mod 512) else 0 :: u64)"
  have pd: "phys k (cell_of pk 0) = page e OR (PG_PRESENT OR PG_RW) OR x"
    using s d(7) unfolding started_def kernel_tables_def x_def by auto
  have lim: "e < 2 ^ 40" using d(5) by simp
  have z: "cell_at k 3 ZERO_WINDOW = cell_of e 1"
    unfolding entry_cell_simps(4) c(3) pd x_def upper_entry(2) [OF lim] v(4) by simp
  then show zc: "zero_cell k = cell_of e 1" by (simp only: window_table_cells)
  then show wc: "window_cell k = cell_of e 0" using zero_cell_eq [of k] by simp
  have ne: "p4 \<noteq> e" "pp \<noteq> e" "pk \<noteq> e" using s by (auto simp: started_def)
  have "table_entry (entry_at k 2 ZERO_WINDOW)" unfolding entry_at_def c(3) pd x_def by (rule upper_entry(1) [OF lim])
  then have t3: "tables_ok k 3 ZERO_WINDOW"
    using c(4) unfolding tables_ok_def numeral_3_eq_3 numeral_2_eq_2 less_Suc_eq by auto
  show tp: "table_path k ZERO_WINDOW"
    unfolding table_path_def z c(1-3) started_self(2) [OF s] cell_no_def [symmetric]
    using started_self(1) [OF s] t3 d ne by (simp add: cell_no_eq)
  show wt: "window_tables k = {cell_of p4 510, cell_of p4 511, cell_of pp 510, cell_of pk 0}"
    unfolding window_table_cells(1) [symmetric] table_cells_def c(1-3) started_self(2) [OF s] ..
  have "cell_of e i \<notin> window_tables k" if "i < 2" for i
    unfolding wt cell_no_def [symmetric] using d ne that by (simp add: cell_no_eq)
  from this [of 0] this [of 1] show "windows_ok k"
    unfolding windows_ok_def wc zc using tp t3 by (simp add: table_path_def tables_ok_zero_window del: of_nat_add of_nat_mult)
qed

text \<open>The directory of the heap is there, its page tables are not.\<close>

lemma started_heap:
  assumes s: "started p4 pp pk ip t r d e k" and v: "v \<in> heap_pages"
  shows "\<exists>q < 5. cell_at k 0 v = cell_of p4 511 \<and> cell_at k (Suc 0) v = cell_of pp 510 \<and> cell_at k 2 v = cell_of pk (8 + q) \<and>
    tables_ok k 2 v \<and> entry_at k 2 v = 0"
proof -
  obtain i where i: "i < 2112" "v = kernel_heap + 4096 * of_nat i" using v unfolding heap_pages_def by blast
  have "[pt_index 4 v, pt_index 3 v, pt_index 2 v] = [511, 510, of_nat (8 + i div 512)]"
    using heap_page_indices(2) [OF i(1)] i(2) by (simp add: indices_def upt_rec)
  then have idx: "pt_index 4 v = 511" "pt_index 3 v = 510" "pt_index 2 v = of_nat (8 + i div 512)" by simp_all
  have q: "i div 512 < 5" using i(1) by linarith
  note c = upper_cells [OF s idx]
  have all: "\<forall>i. tables_needed e \<le> i \<longrightarrow> i < 512 \<longrightarrow> phys k (cell_of pk i) = 0" using s unfolding started_def by blast
  have "tables_needed e \<le> 8 + i div 512" "8 + i div 512 < 512" using startedD(8) [OF s] q by linarith+
  then have "phys k (cell_of pk (8 + i div 512)) = 0" using all [rule_format, of "8 + i div 512"] by (simp only:)
  then have "entry_at k 2 v = 0" unfolding entry_at_def c(3) .
  then show ?thesis using c q by (intro exI [of _ "i div 512"] conjI)
qed

text \<open>The identity mapping.\<close>

lemma started_identity:
  assumes s: "started p4 pp pk ip t r d e k"
  shows "identity_cells k = {cell_of p4 0, cell_of pp 0}" "tables_ok k 2 0"
proof -
  note d = startedD [OF s]
  have kt: "phys k (cell_of p4 0) = page pp OR (PG_PRESENT OR PG_RW) OR push_bit 52 1"
      "phys k (cell_of pp 0) = page ip OR (PG_PRESENT OR PG_RW)"
    using s unfolding started_def kernel_tables_def by blast+
  have lim: "pp < 2 ^ 40" "ip < 2 ^ 40" using d(2,4) by simp_all
  have v: "pt_index l 0 = 0" for l by (simp add: pt_index_def)
  have c0: "cell_at k 0 0 = cell_of p4 0" by (simp add: entry_cell_simps d(12) v)
  have c1: "cell_at k (Suc 0) 0 = cell_of pp 0" unfolding entry_cell_simps(2) c0 kt(1) upper_entry(2) [OF lim(1)] v by simp
  show "identity_cells k = {cell_of p4 0, cell_of pp 0}" unfolding identity_cells_def c0 c1 ..
  have "table_entry (entry_at k 0 0)" "table_entry (entry_at k (Suc 0) 0)"
    unfolding entry_at_def c0 c1 kt by (rule upper_entry(1) [OF lim(1)], rule low_entry(1) [OF lim(2)])
  then show "tables_ok k 2 0" unfolding tables_ok_def numeral_2_eq_2 less_Suc_eq by auto
qed

text \<open>The frames behind the kernel hold none of these cells.\<close>

lemma started_frame:
  assumes s: "started p4 pp pk ip t r d e k" and f: "k_kernel_end k \<le> f" "in_frame f (cell_of q i)" "i < 512" "q < e + tables_needed e"
  shows False
proof -
  note d = startedD [OF s]
  have "page (e + tables_needed e) \<le> cell_of q i"
    using s f(1) in_frame_low [OF f(2)] unfolding started_def by (metis order_trans)
  moreover have "unat (page (e + tables_needed e)) = 4096 * (e + tables_needed e)" "unat (cell_of q i) = 4096 * q + 8 * i"
    by (rule unat_of_nat_u64; use d f(3,4) in simp)+
  ultimately have "4096 * (e + tables_needed e) \<le> 4096 * q + 8 * i" by (simp only: word_le_nat_alt)
  then have "512 * (e + tables_needed e) \<le> 512 * q + i" by simp
  then have "512 * (e + tables_needed e) < 512 * (q + 1)" using f(3) by simp
  then show False using f(4) by simp
qed

lemma page_addr_dvd:
  assumes "4096 dvd unat f" "unat f < 2 ^ 52"
  shows "page_addr f"
proof -
  have "unat (take_bit 12 f) = take_bit 12 (unat f)" "unat (take_bit 52 f) = take_bit 52 (unat f)" by (rule unsigned_take_bit_eq)+
  then have "take_bit 12 f = 0" "take_bit 52 f = f" using assms by (simp_all add: word_unat_eq_iff take_bit_nat_def)
  then have b: "12 \<le> n \<and> n < 52" if "bit f n" for n using that by (metis bit_0_eq bit_take_bit_iff bot_apply bot_bool_def not_le)
  have "n - 12 < 40" if "bit f n" for n using b [OF that] by linarith
  then show ?thesis unfolding page_addr_def phys_addr_mask_alt using b by (intro bit_word_eqI) (auto simp: bit_simps)
qed

lemma started_managed:
  assumes s: "started p4 pp pk ip t r d e k" and f: "k_kernel_end k \<le> f" "4096 dvd unat f" "unat f < 2 ^ 52"
  shows "managed k f"
proof -
  note d = startedD [OF s]
  have out: "\<not> in_frame f (cell_of q i)" if "i < 512" "q \<le> e" for q i
  proof
    assume "in_frame f (cell_of q i)"
    then show False using started_frame [OF s f(1) _ that(1)] that(2) d(7) by (metis trans_less_add1 le_neq_implies_less less_add_same_cancel1)
  qed
  have le: "p4 \<le> e" "pp \<le> e" "pk \<le> e" using s by (auto simp: started_def)
  have "f \<noteq> 0"
  proof
    assume "f = 0"
    then have "page (e + tables_needed e) = 0" using f(1) s by (simp add: started_def)
    moreover have "unat (page (e + tables_needed e)) = 4096 * (e + tables_needed e)" by (rule unat_of_nat_u64) (use d in simp)
    ultimately show False using d(6) by simp
  qed
  moreover have "page_addr f" by (rule page_addr_dvd [OF f(2,3)])
  ultimately show ?thesis
    unfolding managed_def started_windows(4,5,8) [OF s]
    using out [of 510 p4] out [of 511 p4] out [of 510 pp] out [of 0 pk] out [of 0 e] out [of 1 e] le
    by (simp del: of_nat_add of_nat_mult)
qed

text \<open>
  The count of the table of the windows. It is not 1, so taking a window down does not free the table. For an image of less than
  2 MiB it is the number of the pages of the image, for a larger one it is 0.
\<close>

lemma counted_unat:
  fixes x c :: u64
  assumes "take_bit 52 x = x" "unat c < 1024"
  shows "unat (x OR push_bit 52 c) div 2 ^ 52 = unat c"
proof -
  have "drop_bit 52 (x OR push_bit 52 c) = c"
  proof (rule bit_word_eqI)
    have x: "n < 52" if "bit x n" for n
      using that assms(1) by (metis bit_take_bit_iff)
    have "take_bit 10 c = c" using assms(2) by (simp add: word_unat_eq_iff unsigned_take_bit_eq take_bit_nat_def)
    then have c: "n < 10" if "bit c n" for n
      using that by (metis bit_take_bit_iff)
    show "bit (drop_bit 52 (x OR push_bit 52 c)) n = bit c n" for n
      using x [of "52 + n"] c [of n] by (auto simp: bit_simps)
  qed
  then show ?thesis by (metis unat_drop_bit_eq drop_bit_nat_def)
qed

lemma entry_low: "q < 2 ^ 40 \<Longrightarrow> take_bit 52 (page q OR (PG_PRESENT OR PG_RW)) = page q OR (PG_PRESENT OR PG_RW)"
proof -
  assume q: "q < 2 ^ 40"
  then have u: "unat (page q) = 4096 * q" by (intro unat_of_nat_u64) simp
  have "take_bit 52 (page q) = page q"
    using q by (simp only: word_unat_eq_iff unsigned_take_bit_eq take_bit_nat_def u) simp
  moreover have "take_bit 52 (PG_PRESENT OR PG_RW) = PG_PRESENT OR PG_RW" by (simp add: PG_PRESENT_def PG_RW_def)
  ultimately show ?thesis by (simp only: take_bit_or)
qed

lemma count_not_one:
  assumes "unat E div 2 ^ 52 < 1024" "unat E div 2 ^ 52 \<noteq> 1"
  shows "(E - push_bit PG_REFCOUNT_OFFSET 1) AND PG_REFCOUNT_MASK \<noteq> 0"
proof (cases "unat E div 2 ^ 52 = 0")
  case True
  then have E: "unat E < 2 ^ 52" by (simp add: div_eq_0_iff)
  have "E - push_bit PG_REFCOUNT_OFFSET 1 = E + of_nat (2 ^ 64 - 2 ^ 52)" by (simp add: PG_REFCOUNT_OFFSET_def)
  moreover have "unat (E + of_nat (2 ^ 64 - 2 ^ 52)) = unat E + 4095 * 2 ^ 52" using E by (simp add: unat_word_ariths)
  ultimately have "unat (E - push_bit PG_REFCOUNT_OFFSET 1) = unat E + 4095 * 2 ^ 52" by (simp only:)
  moreover have "(unat E + 4095 * 2 ^ 52) div 2 ^ 52 = unat E div 2 ^ 52 + 4095" by simp
  ultimately have "unat (E - push_bit PG_REFCOUNT_OFFSET 1) div 2 ^ 52 = unat E div 2 ^ 52 + 4095" by (simp only:)
  then have "unat (E - push_bit PG_REFCOUNT_OFFSET 1) div 2 ^ 52 mod 1024 = 1023" using True by simp
  then show ?thesis by (simp only: refcount_zero)
next
  case False
  define q where "q = unat E div 2 ^ 52"
  have q: "1 < q" "q < 1024" using False assms by (simp_all add: q_def)
  then have "2 ^ 52 \<le> unat E" unfolding q_def by (metis div_less not_less not_less_zero)
  moreover from this have "q = Suc ((unat E - 2 ^ 52) div 2 ^ 52)" unfolding q_def by (intro le_div_geq) simp_all
  then have "(unat E - 2 ^ 52) div 2 ^ 52 = q - 1" by simp
  ultimately show ?thesis using q by (simp only: refcount_zero count_down_unat) simp
qed

lemma started_entry:
  assumes s: "started p4 pp pk ip t r d e k"
  defines "E \<equiv> entry_at k 2 ZERO_WINDOW"
  shows "E = phys k (cell_of pk 0)" "unat E div 2 ^ 52 = (if e < 512 then e else 0)"
proof -
  note dd = startedD [OF s]
  show cell: "E = phys k (cell_of pk 0)" unfolding E_def entry_at_def started_windows(3) [OF s] ..
  define c where "c = (if 0 = tables_needed e - 1 then of_nat (e mod 512) else 0 :: u64)"
  have "phys k (cell_of pk 0) = page e OR (PG_PRESENT OR PG_RW) OR push_bit 52 c"
    using s dd(7) unfolding started_def kernel_tables_def c_def by auto
  then have eq: "E = (page e OR (PG_PRESENT OR PG_RW)) OR push_bit 52 c" unfolding cell by (simp only: or.assoc)
  have u: "unat (of_nat (e mod 512) :: u64) = e mod 512" by (rule unat_of_nat_u64) (simp add: less_trans [OF mod_less_divisor])
  have one: "tables_needed e = 1" if "e < 512" unfolding tables_needed_def using that dd(6) by simp
  have "unat c = (if e < 512 then e else 0)"
  proof (cases "e < 512")
    case True
    then show ?thesis using one u by (simp add: c_def)
  next
    case False
    have "e mod 512 = 0" if "tables_needed e = 1"
    proof -
      have "e \<le> 512" using that unfolding tables_needed_def by linarith
      then show ?thesis using False by simp
    qed
    then show ?thesis using False dd(7) u by (auto simp: c_def)
  qed
  moreover have "unat E div 2 ^ 52 = unat c"
    unfolding eq by (rule counted_unat [OF entry_low]) (use dd(5) calculation in \<open>auto split: if_splits\<close>)
  ultimately show "unat E div 2 ^ 52 = (if e < 512 then e else 0)" by simp
qed

lemma started_count:
  assumes s: "started p4 pp pk ip t r d e k"
  shows "(entry_at k 2 ZERO_WINDOW - push_bit PG_REFCOUNT_OFFSET 1) AND PG_REFCOUNT_MASK \<noteq> 0"
  by (rule count_not_one) (use started_entry(2) [OF s] startedD(6) [OF s] in auto)

section \<open>The walk of a kernel page\<close>

lemma path_of_cells: "path_of s a \<subseteq> {cell_at s 0 a, cell_at s (Suc 0) a, cell_at s 2 a, cell_at s 3 a}"
proof -
  have w: "set (walk_path m (Suc l) c a) \<subseteq> insert (c + 8 * pt_index (Suc l) a)
      (set (walk_path m l (m (c + 8 * pt_index (Suc l) a) AND PHYS_ADDR_MASK) a))" for m l c
    by (auto simp: walk_path.simps(2) Let_def)
  let ?t = "\<lambda>k. phys s (cell_at s k a) AND PHYS_ADDR_MASK"
  have "path_of s a \<subseteq> insert (cell_at s 0 a) (set (walk_path (phys s) 3 (?t 0) a))"
    using w [of "phys s" 3 "cr3 s"] by (simp add: path_of_def entry_cell_simps)
  moreover have "set (walk_path (phys s) 3 (?t 0) a) \<subseteq> insert (cell_at s (Suc 0) a) (set (walk_path (phys s) 2 (?t (Suc 0)) a))"
    using w [of "phys s" 2 "?t 0"] by (simp add: entry_cell_simps)
  moreover have "set (walk_path (phys s) 2 (?t (Suc 0)) a) \<subseteq> insert (cell_at s 2 a) (set (walk_path (phys s) (Suc 0) (?t 2) a))"
    using w [of "phys s" "Suc 0" "?t (Suc 0)", folded numeral_2_eq_2] by (simp add: entry_cell_simps)
  moreover have "set (walk_path (phys s) (Suc 0) (?t 2) a) \<subseteq> {cell_at s 3 a}"
    using w [of "phys s" 0 "?t 2"] by (simp add: entry_cell_simps)
  ultimately show ?thesis by blast
qed

lemma walk_path_table:
  assumes "table_entry (m (c + 8 * pt_index (Suc l) a))" "0 < l"
  shows "walk_path m (Suc l) c a = (c + 8 * pt_index (Suc l) a) # walk_path m l (m (c + 8 * pt_index (Suc l) a) AND PHYS_ADDR_MASK) a"
  using assms by (simp add: walk_path.simps(2) Let_def table_entry_def)

lemma path_of_tables:
  assumes "tables_ok s 3 a"
  shows "path_of s a = {cell_at s 0 a, cell_at s (Suc 0) a, cell_at s 2 a, cell_at s 3 a}"
proof -
  have t: "table_entry (phys s (cell_at s 0 a))" "table_entry (phys s (cell_at s (Suc 0) a))" "table_entry (phys s (cell_at s 2 a))"
    using assms by (simp_all add: tables_ok_def entry_at_def)
  let ?t = "\<lambda>k. phys s (cell_at s k a) AND PHYS_ADDR_MASK"
  have "walk_path (phys s) 4 (cr3 s) a = cell_at s 0 a # walk_path (phys s) 3 (?t 0) a"
    using walk_path_table [of "phys s" "cr3 s" 3 a] t(1) by (simp add: entry_cell_simps)
  moreover have "walk_path (phys s) 3 (?t 0) a = cell_at s (Suc 0) a # walk_path (phys s) 2 (?t (Suc 0)) a"
    using walk_path_table [of "phys s" "?t 0" 2 a] t(2) by (simp add: entry_cell_simps)
  moreover have "walk_path (phys s) 2 (?t (Suc 0)) a = cell_at s 2 a # walk_path (phys s) (Suc 0) (?t 2) a"
    using walk_path_table [of "phys s" "?t (Suc 0)" "Suc 0" a, folded numeral_2_eq_2] t(3) by (simp add: entry_cell_simps)
  moreover have "walk_path (phys s) (Suc 0) (?t 2) a = [cell_at s 3 a]"
    by (simp add: walk_path.simps(2) Let_def entry_cell_simps)
  ultimately show ?thesis unfolding path_of_def by simp
qed

text \<open>The cells that the initialisation of the memory may change.\<close>

definition boot_cells :: "kernel \<Rightarrow> u64 list \<Rightarrow> u64 set" where
  "boot_cells k fs = window_cells k \<union> frame_cells fs \<union> identity_cells k"

lemma started_free:
  assumes s: "started p4 pp pk ip t r d e k" and fs: "\<forall>f \<in> set fs. k_kernel_end k \<le> f"
    and q: "i < 512" "q < e + tables_needed e" "(q, i) \<notin> {(e, 0), (e, 1), (p4, 0), (pp, 0)}"
  shows "cell_of q i \<notin> boot_cells k fs"
proof -
  note d = startedD [OF s]
  have "q \<le> 8192" "e \<le> 8192" "p4 \<le> 8192" "pp \<le> 8192" using d q(2) by simp_all
  then have "cell_of q i \<notin> window_cells k \<union> identity_cells k"
    unfolding window_cells_def started_windows(4,5) [OF s] started_identity(1) [OF s] cell_no_def [symmetric]
    using q by (simp add: cell_no_eq)
  moreover have "cell_of q i \<notin> frame_cells fs"
    using started_frame [OF s _ _ q(1,2)] fs unfolding frame_cells_def by blast
  ultimately show ?thesis unfolding boot_cells_def by blast
qed

lemma started_kernel_page:
  assumes s: "started p4 pp pk ip t r d e k" and fs: "\<forall>f \<in> set fs. k_kernel_end k \<le> f" and j: "2 \<le> j" "j < e" and off: "off < 4096"
  shows "translate k (KERNEL_VMA + page j + off) = Some (page j + off, j < t \<or> d \<le> j)"
    "path_of k (KERNEL_VMA + page j + off) \<inter> boot_cells k fs = {}"
    "path_of k (KERNEL_VMA + page j + off) = {cell_of p4 511, cell_of pp 510, cell_of pk (j div 512), cell_of (e + j div 512) (j mod 512)}"
proof -
  note dd = startedD [OF s]
  let ?a = "KERNEL_VMA + page j + off"
  have b: "e \<le> 2 ^ 18" "p4 < e" "pp < e" "pk < e" using s by (auto simp: started_def)
  have jn: "j < 512 * tables_needed e" using tables_needed_bounds [of e] b(1,2) j(2) by simp
  then have q: "j div 512 < tables_needed e" "j mod 512 < 512" by (simp_all add: less_mult_imp_div_less mult.commute)
  have kt: "kernel_tables p4 pp pk ip t r d e (phys k)" using s by (simp add: started_def)
  show "translate k ?a = Some (page j + off, j < t \<or> d \<le> j)"
    using kernel_tables_walk [OF kt dd(12) b(2-4,1) jn off] j(2) by simp
  have "j < 2 ^ 18" using j(2) b(1) by simp
  note idx = pt_index_kernel [OF this off]
  note c = upper_cells [OF s idx(1-3)]
  obtain x where pd: "phys k (cell_of pk (j div 512)) = page (e + j div 512) OR (PG_PRESENT OR PG_RW) OR push_bit 52 x"
    using kt q(1) unfolding kernel_tables_def by blast
  have lim: "e + j div 512 < 2 ^ 40" using dd q(1) by simp
  have c3: "cell_at k 3 ?a = cell_of (e + j div 512) (j mod 512)"
    unfolding entry_cell_simps(4) c(3) pd upper_entry(2) [OF lim] idx(4) by simp
  have "(e + j div 512, j mod 512) \<notin> {(e, 0), (e, 1)}"
  proof
    assume "(e + j div 512, j mod 512) \<in> {(e, 0), (e, 1)}"
    then have "j div 512 = 0" "j mod 512 < 2" by auto
    then show False using j(1) by (metis div_mult_mod_eq add_0 mult_0 not_le)
  qed
  moreover have "p4 \<noteq> e + j div 512" "pp \<noteq> e + j div 512" using b by simp_all
  ultimately have "cell_of (e + j div 512) (j mod 512) \<notin> boot_cells k fs"
    by (intro started_free [OF s fs q(2)]) (use q(1) in auto)
  moreover have "cell_of p4 511 \<notin> boot_cells k fs" "cell_of pp 510 \<notin> boot_cells k fs" "cell_of pk (j div 512) \<notin> boot_cells k fs"
    by (rule started_free [OF s fs]; use b dd q in auto)+
  ultimately have "{cell_at k 0 ?a, cell_at k (Suc 0) ?a, cell_at k 2 ?a, cell_at k 3 ?a} \<inter> boot_cells k fs = {}"
    unfolding c(1-3) c3 by blast
  then show "path_of k ?a \<inter> boot_cells k fs = {}" using path_of_cells [of k ?a] by blast
  have "table_entry (entry_at k 2 ?a)" unfolding entry_at_def c(3) pd by (rule upper_entry(1) [OF lim])
  then have t3: "tables_ok k 3 ?a" using c(4) unfolding tables_ok_def numeral_3_eq_3 numeral_2_eq_2 less_Suc_eq by auto
  show "path_of k ?a = {cell_of p4 511, cell_of pp 510, cell_of pk (j div 512), cell_of (e + j div 512) (j mod 512)}"
    unfolding path_of_tables [OF t3] c(1-3) c3 ..
qed

text \<open>The way to the heap.\<close>

lemma started_heap_path:
  assumes s: "started p4 pp pk ip t r d e k" and fs: "\<forall>f \<in> set fs. k_kernel_end k \<le> f" and v: "v \<in> heap_pages"
  shows "pt_path (boot_cells k fs) k 2 v" "i \<le> 2 \<Longrightarrow> \<exists>q j. j < 512 \<and> q < e \<and> cell_at k i v = cell_of q j \<and> (q, j) \<notin> {(p4, 0), (pp, 0)}"
proof -
  note dd = startedD [OF s]
  obtain q where q: "q < 5" "cell_at k 0 v = cell_of p4 511" "cell_at k (Suc 0) v = cell_of pp 510" "cell_at k 2 v = cell_of pk (8 + q)"
      "tables_ok k 2 v" "entry_at k 2 v = 0"
    using started_heap [OF s v] by blast
  have b: "p4 < e" "pp < e" "pk < e" using s by (auto simp: started_def)
  show "pt_path (boot_cells k fs) k 2 v"
  proof (rule pt_path_directory [OF started_self(1) [OF s] q(5)])
    show "entry_at k 2 v AND PG_PRESENT = 0" by (simp add: q(6))
    show "distinct [self_cell k, cell_at k 0 v, cell_at k (Suc 0) v, cell_at k 2 v]"
      unfolding started_self(2) [OF s] q(2-4) cell_no_def [symmetric] using dd q(1) by (simp add: cell_no_eq)
    have "cell_of p4 510 \<notin> boot_cells k fs" "cell_of p4 511 \<notin> boot_cells k fs" "cell_of pp 510 \<notin> boot_cells k fs"
        "cell_of pk (8 + q) \<notin> boot_cells k fs"
      by (rule started_free [OF s fs]; use b dd q(1) in auto)+
    then show "set [self_cell k, cell_at k 0 v, cell_at k (Suc 0) v, cell_at k 2 v] \<inter> boot_cells k fs = {}"
      unfolding started_self(2) [OF s] q(2-4) by simp
  qed
  assume "i \<le> 2"
  then consider "i = 0" | "i = Suc 0" | "i = 2" by linarith
  then show "\<exists>q j. j < 512 \<and> q < e \<and> cell_at k i v = cell_of q j \<and> (q, j) \<notin> {(p4, 0), (pp, 0)}"
  proof cases
    case 1
    then show ?thesis using q(2) b dd by (intro exI [of _ p4] exI [of _ 511]) simp
  next
    case 2
    then show ?thesis using q(3) b dd by (intro exI [of _ pp] exI [of _ 510]) simp
  next
    case 3
    then show ?thesis using q(1,4) b dd by (intro exI [of _ pk] exI [of _ "8 + q"]) simp
  qed
qed

section \<open>The calls\<close>

definition boot_frames :: "kernel \<Rightarrow> u64 set" where
  "boot_frames k = {f. k_kernel_end k \<le> f \<and> unat f \<in> usable_pages (k_mem_map k)}"

lemma boot_frames_managed:
  assumes s: "started p4 pp pk ip t r d e k" and "phys_bounded (k_mem_map k)" "f \<in> boot_frames k"
  shows "managed k f"
proof -
  obtain a where a: "a \<in> set (areas (k_mem_map k))" "4096 dvd unat f" "unat f + 4096 \<le> unat (area_end a)"
    using assms(3) by (auto simp: boot_frames_def usable_pages_def area_pages_def)
  then have "unat f < 2 ^ 52" using assms(2) by (fastforce simp: phys_bounded_def)
  then show ?thesis using started_managed [OF s _ a(2)] assms(3) by (simp add: boot_frames_def)
qed

lemma boot_allocation:
  assumes s: "started p4 pp pk ip t r d e k" and mm: "mem_map_clean (k_mem_map k)" "phys_bounded (k_mem_map k)"
    and fit: "k_kernel_end k < mm_physical_end (k_mem_map k)"
  shows "\<exists>k1 fs. initialize_frame_allocation k = Inr ((), k1) \<and> frames_avail k1 fs \<and> set fs = boot_frames k \<and> length fs = card (boot_frames k) \<and>
    window_cells k1 = window_cells k \<and> window_tables k1 = window_tables k \<and> preserves {window_cell k} k k1 \<and>
    (\<forall>p. p \<noteq> window_cell k \<longrightarrow> phys k1 p = phys k p)"
proof -
  note d = startedD [OF s]
  have "unat (page (e + tables_needed e)) = 4096 * (e + tables_needed e)" by (rule unat_of_nat_u64) (use d in simp)
  then have "unat (k_kernel_end k) = 4096 * (e + tables_needed e)" using s by (simp only: started_def)
  then have dvd: "4096 dvd unat (k_kernel_end k)" by simp
  have "\<forall>f. k_kernel_end k \<le> f \<and> unat f \<in> usable_pages (k_mem_map k) \<longrightarrow> managed k f"
    using boot_frames_managed [OF s mm(2)] by (simp add: boot_frames_def)
  then obtain k1 fs where k1: "initialize_frame_allocation k = Inr ((), k1)" "frames_inv k1 [] fs {}" "set fs = boot_frames k"
      "k1 = k\<lparr>phys := (phys k)(window_cell k := 3), k_fa := k_fa k1\<rparr>"
    using initialize_frame_allocation_ok [OF started_windows(7) [OF s] mm dvd fit] by (auto simp: boot_frames_def)
  have av: "frames_avail k1 fs" unfolding frames_avail_def using k1(2) by blast
  have len: "length fs = card (boot_frames k)"
    using distinct_card [OF frames.avail_distinct [OF av]] k1(3) by simp
  have cr: "cr3 k1 = cr3 k" by (subst k1(4)) simp
  have ph: "phys k1 p = phys k p" if "p \<noteq> window_cell k" for p by (subst k1(4)) (simp add: that)
  have out: "window_cell k \<notin> window_tables k" using started_windows(7) [OF s] by (simp add: windows_ok_def)
  have "same_entry (phys k1 p) (phys k p)" if p: "p \<in> window_tables k" for p
  proof -
    have "p \<noteq> window_cell k" using p out by blast
    then show ?thesis using ph by simp
  qed
  note st = windows_cells_stable [OF cr this]
  have "window_cells k1 = window_cells k" by (simp add: window_cells_def st(3,4))
  moreover have "preserves {window_cell k} k k1" using cr ph by (simp add: preserves_def)
  ultimately show ?thesis using k1(1,3) av len st(2) ph by blast
qed

lemma boot_window_ready:
  assumes s: "started p4 pp pk ip t r d e k"
    and sub: "set (f # fs) \<subseteq> boot_frames k"
    and win: "window_cells k1 = window_cells k" "window_tables k1 = window_tables k"
    and pr: "preserves {window_cell k} k k1" and ph: "\<forall>p. p \<noteq> window_cell k \<longrightarrow> phys k1 p = phys k p"
  shows "table_path k1 ZERO_WINDOW" "tables_ok k1 2 0"
    "(entry_at k1 2 ZERO_WINDOW - push_bit PG_REFCOUNT_OFFSET 1) AND PG_REFCOUNT_MASK \<noteq> 0"
    "identity_cells k1 \<inter> (window_tables k1 \<union> window_cells k1 \<union> frame_cells (f # fs)) = {}" "identity_cells k1 = identity_cells k"
    "cell_at k1 2 ZERO_WINDOW = cell_at k 2 ZERO_WINDOW" "entry_at k1 2 ZERO_WINDOW = entry_at k 2 ZERO_WINDOW"
proof -
  note w = started_windows [OF s] and dd = startedD [OF s]
  have b: "p4 < e" "pp < e" "pk < e" using s by (auto simp: started_def)
  have cr: "cr3 k1 = cr3 k" using pr by (simp add: preserves_def)
  have tab: "p \<noteq> window_cell k" if "p \<in> table_cells k ZERO_WINDOW" for p
    using that w(7) unfolding window_table_cells(1) windows_ok_def by blast
  have same: "same_entry (phys k1 p) (phys k p)" if "p \<in> table_cells k ZERO_WINDOW" for p
    using ph tab [OF that] by simp
  note tp = table_path_same [OF w(6) same cr]
  show "table_path k1 ZERO_WINDOW" by (rule tp(1))
  show "cell_at k1 2 ZERO_WINDOW = cell_at k 2 ZERO_WINDOW" by (rule tp(2)) simp_all
  show "entry_at k1 2 ZERO_WINDOW = entry_at k 2 ZERO_WINDOW"
  proof -
    have "cell_at k 2 ZERO_WINDOW \<noteq> window_cell k" by (rule tab) (simp add: table_cells_def)
    then show ?thesis unfolding entry_at_def using tp(2) [of 2] ph by simp
  qed
  then show "(entry_at k1 2 ZERO_WINDOW - push_bit PG_REFCOUNT_OFFSET 1) AND PG_REFCOUNT_MASK \<noteq> 0"
    using started_count [OF s] by simp
  have idk: "window_cell k \<notin> identity_cells k"
    unfolding w(4) started_identity(1) [OF s] cell_no_def [symmetric] using dd b by (simp add: cell_no_eq)
  then have idc: "cell_at k j 0 \<notin> {window_cell k}" if "j < 2" for j
  proof -
    have "j = 0 \<or> j = Suc 0" using that by linarith
    then show ?thesis using idk by (auto simp: identity_cells_def)
  qed
  show id1: "identity_cells k1 = identity_cells k"
    unfolding identity_cells_def using cells_preserved [OF pr, of 0 0] cells_preserved [OF pr, of "Suc 0" 0] idc by simp
  show "tables_ok k1 2 0" using tables_ok_preserved [OF pr idc] started_identity(2) [OF s] by simp
  have low: "\<forall>g \<in> set (f # fs). k_kernel_end k \<le> g" using sub by (auto simp: boot_frames_def)
  show "identity_cells k1 \<inter> (window_tables k1 \<union> window_cells k1 \<union> frame_cells (f # fs)) = {}"
  proof -
    have "cell_of q 0 \<notin> frame_cells (f # fs)" if "q < e" for q
    proof
      assume "cell_of q 0 \<in> frame_cells (f # fs)"
      then obtain g where g: "g \<in> set (f # fs)" "in_frame g (cell_of q 0)" unfolding frame_cells_def by blast
      show False using started_frame [OF s bspec [OF low g(1)] g(2)] that by simp
    qed
    from this [OF b(1)] this [OF b(2)] have "identity_cells k \<inter> frame_cells (f # fs) = {}"
      unfolding started_identity(1) [OF s] by blast
    moreover have "identity_cells k \<inter> (window_tables k \<union> window_cells k) = {}"
      unfolding window_cells_def w(4,5,8) started_identity(1) [OF s] cell_no_def [symmetric] using dd b by (simp add: cell_no_eq)
    ultimately show ?thesis unfolding id1 win by blast
  qed
qed

lemma boot_virtual_memory:
  assumes s: "started p4 pp pk ip t r d e k"
    and av: "frames_avail k1 (f # fs)" and sub: "set (f # fs) \<subseteq> boot_frames k"
    and win: "window_cells k1 = window_cells k" "window_tables k1 = window_tables k"
    and pr: "preserves {window_cell k} k k1" and ph: "\<forall>p. p \<noteq> window_cell k \<longrightarrow> phys k1 p = phys k p"
  shows "\<exists>k2. initialize_virtual_memory k1 = Inr ((), k2) \<and> k_zero_page k2 = f \<and> (\<forall>p. in_frame f p \<longrightarrow> phys k2 p = 0) \<and>
    frames_avail k2 fs \<and> window_cells k2 = window_cells k \<and> phys k2 (cr3 k2) = 0 \<and> preserves (boot_cells k [f]) k k2 \<and>
    (\<forall>p. p \<notin> boot_cells k [f] \<longrightarrow> p \<noteq> cell_at k 2 ZERO_WINDOW \<longrightarrow> phys k2 p = phys k p) \<and>
    phys k2 (cell_at k 2 ZERO_WINDOW) = entry_at k 2 ZERO_WINDOW - push_bit PG_REFCOUNT_OFFSET 1"
proof -
  note ready = boot_window_ready [OF s sub win pr ph]
  obtain k2 where k2: "initialize_virtual_memory k1 = Inr ((), k2)" "k_zero_page k2 = f" "\<forall>p. in_frame f p \<longrightarrow> phys k2 p = 0"
      "frames_avail k2 fs" "window_cells k2 = window_cells k1" "phys k2 (cr3 k2) = 0"
      "preserves (window_cells k1 \<union> frame_cells [f] \<union> identity_cells k1) k1 k2"
      "\<forall>p. p \<notin> window_cells k1 \<union> frame_cells [f] \<union> identity_cells k1 \<longrightarrow> p \<noteq> cell_at k1 2 ZERO_WINDOW \<longrightarrow> phys k2 p = phys k1 p"
      "phys k2 (cell_at k1 2 ZERO_WINDOW) = entry_at k1 2 ZERO_WINDOW - push_bit PG_REFCOUNT_OFFSET 1"
    using initialize_virtual_memory_run [OF av ready(1-4)] by blast
  have "preserves (boot_cells k [f]) k k2"
  proof (rule preserves_trans [OF pr k2(7)])
    show "{window_cell k} \<union> (window_cells k1 \<union> frame_cells [f] \<union> identity_cells k1) \<subseteq> boot_cells k [f]"
      unfolding ready(5) win(1) boot_cells_def by (auto simp: window_cells_def)
  qed
  moreover have "phys k2 p = phys k p" if p: "p \<notin> boot_cells k [f]" "p \<noteq> cell_at k 2 ZERO_WINDOW" for p
  proof -
    have "p \<noteq> window_cell k" using p(1) by (auto simp: boot_cells_def window_cells_def)
    then show ?thesis using k2(8) ph p unfolding ready(5,6) win(1) boot_cells_def by simp
  qed
  moreover have "phys k2 (cell_at k 2 ZERO_WINDOW) = entry_at k 2 ZERO_WINDOW - push_bit PG_REFCOUNT_OFFSET 1"
    using k2(9) unfolding ready(6,7) .
  ultimately show ?thesis using k2(1-6) win(1) by (intro exI [of _ k2]) simp
qed

text \<open>What the two calls before the heap leave.\<close>

lemma boot_before_heap:
  assumes s: "started p4 pp pk ip t r d e k" and mm: "mem_map_clean (k_mem_map k)" "phys_bounded (k_mem_map k)"
    and fit: "k_kernel_end k < mm_physical_end (k_mem_map k)" and many: "0 < card (boot_frames k)"
  shows "\<exists>k2 f fs. thenS initialize_frame_allocation initialize_virtual_memory k = Inr ((), k2) \<and> set (f # fs) = boot_frames k \<and>
    Suc (length fs) = card (boot_frames k) \<and> k_zero_page k2 = f \<and> page_addr f \<and> f \<notin> set fs \<and> (\<forall>p. in_frame f p \<longrightarrow> phys k2 p = 0) \<and>
    frames_avail k2 fs \<and> window_cells k2 = window_cells k \<and> phys k2 (cr3 k2) = 0 \<and> preserves (boot_cells k (f # fs)) k k2 \<and>
    (\<forall>p. p \<notin> boot_cells k (f # fs) \<longrightarrow> p \<noteq> cell_at k 2 ZERO_WINDOW \<longrightarrow> phys k2 p = phys k p) \<and>
    phys k2 (cell_at k 2 ZERO_WINDOW) = entry_at k 2 ZERO_WINDOW - push_bit PG_REFCOUNT_OFFSET 1"
proof -
  obtain k1 gs where k1: "initialize_frame_allocation k = Inr ((), k1)" "frames_avail k1 gs" "set gs = boot_frames k"
      "length gs = card (boot_frames k)" "window_cells k1 = window_cells k" "window_tables k1 = window_tables k"
      "preserves {window_cell k} k k1" "\<forall>p. p \<noteq> window_cell k \<longrightarrow> phys k1 p = phys k p"
    using boot_allocation [OF s mm fit] by blast
  obtain f fs where gs: "gs = f # fs" using k1(4) many by (cases gs) auto
  have av: "frames_avail k1 (f # fs)" and sub: "set (f # fs) \<subseteq> boot_frames k" using k1(2,3) gs by simp_all
  obtain k2 where k2: "initialize_virtual_memory k1 = Inr ((), k2)" "k_zero_page k2 = f" "\<forall>p. in_frame f p \<longrightarrow> phys k2 p = 0"
      "frames_avail k2 fs" "window_cells k2 = window_cells k" "phys k2 (cr3 k2) = 0" "preserves (boot_cells k [f]) k k2"
      "\<forall>p. p \<notin> boot_cells k [f] \<longrightarrow> p \<noteq> cell_at k 2 ZERO_WINDOW \<longrightarrow> phys k2 p = phys k p"
      "phys k2 (cell_at k 2 ZERO_WINDOW) = entry_at k 2 ZERO_WINDOW - push_bit PG_REFCOUNT_OFFSET 1"
    using boot_virtual_memory [OF s av sub k1(5-8)] by blast
  have "frame_cells [f] \<subseteq> frame_cells (f # fs)" by (rule frame_cells_mono) simp
  then have "boot_cells k [f] \<subseteq> boot_cells k (f # fs)" unfolding boot_cells_def by blast
  then have "preserves (boot_cells k (f # fs)) k k2" and
      "\<forall>p. p \<notin> boot_cells k (f # fs) \<longrightarrow> p \<noteq> cell_at k 2 ZERO_WINDOW \<longrightarrow> phys k2 p = phys k p"
    using preserves_mono [OF k2(7)] k2(8) by blast+
  moreover have "page_addr f" "f \<notin> set fs" using frames.avail_frame [OF av, of f] frames.avail_distinct [OF av] by simp_all
  moreover have "set (f # fs) = boot_frames k" "Suc (length fs) = card (boot_frames k)" using k1(3,4) gs by simp_all
  moreover have "thenS initialize_frame_allocation initialize_virtual_memory k = Inr ((), k2)"
    by (simp add: thenS_apply k1(1) k2(1))
  ultimately show ?thesis using k2(2-6,9) by blast
qed

text \<open>The tables above the heap lie in the kernel image.\<close>

lemma started_tree_cells:
  assumes s: "started p4 pp pk ip t r d e k" and fs: "\<forall>f \<in> set fs. k_kernel_end k \<le> f" and pr: "preserves (boot_cells k fs) k k2"
    and p: "p \<in> tree_cells k2 (\<lambda>_. 2) heap_pages"
  shows "p \<notin> frame_cells fs" "p \<noteq> cr3 k2"
proof -
  note dd = startedD [OF s]
  obtain i v where v: "v \<in> heap_pages" "i \<le> 2" "p = cell_at k2 i v" using p by (auto simp: tree_cells_def)
  note path = started_heap_path [OF s fs v(1)]
  have "i \<le> min 2 3" using v(2) by simp
  then have "cell_at k2 i v = cell_at k i v" by (rule pt_path_preserved(2) [OF path(1) pr subset_refl])
  then obtain q j where q: "j < 512" "q < e" "p = cell_of q j" "(q, j) \<notin> {(p4, 0), (pp, 0)}" using path(2) [OF v(2)] v(3) by metis
  show "p \<notin> frame_cells fs"
  proof
    assume "p \<in> frame_cells fs"
    then obtain f where f: "f \<in> set fs" "in_frame f (cell_of q j)" unfolding frame_cells_def q(3) by blast
    show False using started_frame [OF s bspec [OF fs f(1)] f(2) q(1)] q(2) by simp
  qed
  have "cr3 k2 = cell_of p4 0" using pr dd(12) by (simp add: preserves_def)
  moreover have "cell_of q j \<noteq> cell_of p4 0"
    unfolding cell_no_def [symmetric] using q dd by (simp add: cell_no_eq)
  ultimately show "p \<noteq> cr3 k2" using q(3) by simp
qed

lemma identity_gone: "phys k (cr3 k) = 0 \<Longrightarrow> pt_index 4 a = 0 \<Longrightarrow> translate k a = None"
proof -
  have "walk (phys k) (Suc 3) (cr3 k) a = None" if "phys k (cr3 k) = 0" "pt_index 4 a = 0"
    unfolding walk.simps(2) Let_def using that by simp
  then show "phys k (cr3 k) = 0 \<Longrightarrow> pt_index 4 a = 0 \<Longrightarrow> translate k a = None" by (simp add: translate_def)
qed

text \<open>
  Property C12: \<open>initialize_virtual_memory\<close>. When the window of \<open>zero_frame\<close> has a page table with other users, whose count
  is not 0, and the entries of the identity mapping are neither the allocator's nor in a free frame, it takes one frame as the
  zero page, leaves it cleared and the other frames with the allocator, and takes the identity mapping away. A mapped address
  whose walk reads none of the window entries, the zero page and the entries of the identity mapping keeps its translation,
  and code can be fetched from it exactly when it could before.
\<close>

theorem initialize_virtual_memory_correct:
  assumes "frames_avail s (f # fs)" "table_path s ZERO_WINDOW" "tables_ok s 2 0"
    and "entry_at s 2 ZERO_WINDOW AND PG_REFCOUNT_MASK \<noteq> 0"
    and "(entry_at s 2 ZERO_WINDOW - push_bit PG_REFCOUNT_OFFSET 1) AND PG_REFCOUNT_MASK \<noteq> 0"
    and "identity_cells s \<inter> (window_tables s \<union> window_cells s \<union> frame_cells (f # fs)) = {}"
  shows "\<exists>s'. initialize_virtual_memory s = Inr ((), s') \<and> k_zero_page s' = f \<and> (\<forall>p. in_frame f p \<longrightarrow> phys s' p = 0) \<and>
    frames_avail s' fs \<and> (\<forall>a. pt_index 4 a = 0 \<longrightarrow> translate s' a = None) \<and>
    (\<forall>a. translate s a \<noteq> None \<longrightarrow> path_of s a \<inter> (window_cells s \<union> frame_cells [f] \<union> identity_cells s) = {} \<longrightarrow>
       translate s' a = translate s a \<and> (executable s' a \<longleftrightarrow> executable s a))"
proof -
  let ?X = "window_cells s \<union> frame_cells [f] \<union> identity_cells s" and ?c = "cell_at s 2 ZERO_WINDOW"
  obtain s' where s': "initialize_virtual_memory s = Inr ((), s')" "k_zero_page s' = f" "\<forall>p. in_frame f p \<longrightarrow> phys s' p = 0"
      "frames_avail s' fs" "phys s' (cr3 s') = 0" "preserves ?X s s'"
      "\<forall>p. p \<notin> ?X \<longrightarrow> p \<noteq> ?c \<longrightarrow> phys s' p = phys s p" "phys s' ?c = entry_at s 2 ZERO_WINDOW - push_bit PG_REFCOUNT_OFFSET 1"
    using initialize_virtual_memory_run [OF assms(1-3,5,6)] by blast
  have nx: "phys s' p AND PG_NX = phys s p AND PG_NX" if "p \<notin> ?X" for p
  proof (cases "p = ?c")
    case True
    then show ?thesis using s'(8) count_down_executable [OF assms(4)] by (simp add: entry_at_def)
  next
    case False
    then show ?thesis using s'(7) that by simp
  qed
  have "translate s' a = translate s a \<and> (executable s' a \<longleftrightarrow> executable s a)" if a: "path_of s a \<inter> ?X = {}" for a
  proof -
    have cr: "cr3 s' = cr3 s" using s'(6) by (simp add: preserves_def)
    have same: "same_entry (phys s' p) (phys s p)" if "p \<in> path_of s a" for p
      using s'(6) that a unfolding preserves_def by blast
    have "phys s' p AND PG_NX = phys s p AND PG_NX" if "p \<in> path_of s a" for p
    proof -
      have "p \<notin> ?X" using that a by blast
      then show ?thesis by (rule nx)
    qed
    then show ?thesis using translate_stable(1) [OF cr same] executable_stable [OF cr same] by blast
  qed
  then show ?thesis using s'(1-4) identity_gone [OF s'(5)] by blast
qed

text \<open>What becomes of the walk of a kernel page.\<close>

lemma started_leaf_nx:
  assumes s: "started p4 pp pk ip t r d e k" and j: "j < e"
  shows "phys k (cell_of (e + j div 512) (j mod 512)) AND PG_NX = 0 \<longleftrightarrow> t \<le> j \<and> j < r"
  by (rule kernel_tables_nx) (use s j startedD [OF s] in \<open>auto simp: started_def\<close>)

lemma field_bound: "unat (x :: u64) div 2 ^ 52 < 1024 \<Longrightarrow> unat x < 2 ^ 62"
  by (simp add: div_less_iff_less_mult)

lemma started_upper_unat:
  assumes s: "started p4 pp pk ip t r d e k"
  shows "unat (phys k (cell_of p4 511)) < 2 ^ 62" "unat (phys k (cell_of pp 510)) < 2 ^ 62"
    "i < tables_needed e \<Longrightarrow> unat (phys k (cell_of pk i)) < 2 ^ 62"
proof -
  note dd = startedD [OF s]
  have kt: "phys k (cell_of p4 511) = (page pp OR (PG_PRESENT OR PG_RW)) OR push_bit 52 1"
      "phys k (cell_of pp 510) = (page pk OR (PG_PRESENT OR PG_RW)) OR push_bit 52 (of_nat (tables_needed e))"
    using s unfolding started_def kernel_tables_def by (simp_all only: or.assoc)
  have u: "unat (of_nat n :: u64) = n" if "n < 1024" for n by (rule unat_of_nat_u64) (use that in simp)
  have field: "unat ((page q OR (PG_PRESENT OR PG_RW)) OR push_bit 52 c) < 2 ^ 62" if "q < 2 ^ 40" "unat c < 1024" for q c
    by (rule field_bound) (use counted_unat [OF entry_low [OF that(1)] that(2)] that(2) in simp)
  show "unat (phys k (cell_of p4 511)) < 2 ^ 62" unfolding kt by (rule field) (use dd in simp_all)
  show "unat (phys k (cell_of pp 510)) < 2 ^ 62" unfolding kt by (rule field) (use dd u in simp_all)
  assume i: "i < tables_needed e"
  have "phys k (cell_of pk i) = (page (e + i) OR (PG_PRESENT OR PG_RW)) OR push_bit 52 (if i = tables_needed e - 1 then of_nat (e mod 512) else 0)"
    using s i unfolding started_def kernel_tables_def by (simp only: or.assoc)
  moreover have "e mod 512 < 1024" using mod_less_divisor [of 512 e] by simp
  ultimately show "unat (phys k (cell_of pk i)) < 2 ^ 62" using field [of "e + i"] dd i u by simp
qed

lemma nx_clear: "unat e < 2 ^ 62 \<Longrightarrow> e AND PG_NX = 0"
  by (simp add: nx_unat)

lemma started_executable:
  assumes s: "started p4 pp pk ip t r d e k" and fs: "\<forall>f \<in> set fs. k_kernel_end k \<le> f" and j: "2 \<le> j" "j < e" and off: "off < 4096"
    and a: "a = KERNEL_VMA + page j + off" and cr: "cr3 k' = cr3 k"
    and same: "\<And>p. p \<in> path_of k a \<Longrightarrow> same_entry (phys k' p) (phys k p)"
    and nx: "phys k' (cell_of p4 511) AND PG_NX = 0" "phys k' (cell_of pp 510) AND PG_NX = 0"
    and leaf: "phys k' (cell_of (e + j div 512) (j mod 512)) = phys k (cell_of (e + j div 512) (j mod 512))"
  shows "executable k' a \<longleftrightarrow> phys k' (cell_of pk (j div 512)) AND PG_NX = 0 \<and> t \<le> j \<and> j < r"
proof -
  have "path_of k' a = path_of k a" by (rule translate_stable(2) [OF cr same])
  then have "path_of k' a = {cell_of p4 511, cell_of pp 510, cell_of pk (j div 512), cell_of (e + j div 512) (j mod 512)}"
    unfolding a using started_kernel_page(3) [OF s fs j off] by simp
  then show ?thesis using nx leaf started_leaf_nx [OF s j(2)] by (simp add: executable_def)
qed

lemma started_table:
  assumes s: "started p4 pp pk ip t r d e k" and j: "j < e"
  shows "j div 512 < tables_needed e"
proof -
  have "j < 512 * tables_needed e" using tables_needed_bounds [of e] startedD [OF s] j by simp
  then show ?thesis by (simp add: less_mult_imp_div_less mult.commute)
qed

lemma started_executable_before:
  assumes s: "started p4 pp pk ip t r d e k" and j: "2 \<le> j" "j < e" and off: "off < 4096"
  shows "executable k (KERNEL_VMA + page j + off) \<longleftrightarrow> t \<le> j \<and> j < r"
proof -
  note u = started_upper_unat [OF s]
  have "j div 512 < tables_needed e" by (rule started_table [OF s j(2)])
  then show ?thesis
    using started_executable [OF s _ j off refl refl, of "[]"] nx_clear [OF u(1)] nx_clear [OF u(2)] nx_clear [OF u(3)] by simp
qed

text \<open>
  A kernel image that ends at 2 MiB or above has a count of 0 in its first page directory entry, since
  \<open>initialize_paging\<close> sets the count of the last table only (to the number of its remaining pages). Then
  taking down the window borrows from the bits above the count: the first 2 MiB of the kernel stay mapped, but no code can be
  fetched from them any more.
\<close>

theorem kernel_text_not_executable:
  assumes "started p4 pp pk ip t r d e k" "mem_map_clean (k_mem_map k)" "phys_bounded (k_mem_map k)"
    and "k_kernel_end k < mm_physical_end (k_mem_map k)" "0 < card (boot_frames k)" "512 \<le> e"
  shows "\<exists>k'. thenS initialize_frame_allocation initialize_virtual_memory k = Inr ((), k') \<and>
    (\<forall>j off. 2 \<le> j \<longrightarrow> j < 512 \<longrightarrow> off < 4096 \<longrightarrow>
      translate k' (KERNEL_VMA + page j + off) = Some (page j + off, j < t \<or> d \<le> j) \<and>
      (executable k (KERNEL_VMA + page j + off) \<longleftrightarrow> t \<le> j \<and> j < r) \<and> \<not> executable k' (KERNEL_VMA + page j + off))"
proof -
  note st = assms(1)
  obtain k2 f fs where k2: "thenS initialize_frame_allocation initialize_virtual_memory k = Inr ((), k2)" "set (f # fs) = boot_frames k"
      "preserves (boot_cells k (f # fs)) k k2"
      "phys k2 (cell_at k 2 ZERO_WINDOW) = entry_at k 2 ZERO_WINDOW - push_bit PG_REFCOUNT_OFFSET 1"
    using boot_before_heap [OF assms(1-5)] by blast
  have low: "\<forall>g \<in> set (f # fs). k_kernel_end k \<le> g" unfolding k2(2) by (simp add: boot_frames_def)
  have "unat (entry_at k 2 ZERO_WINDOW) < 2 ^ 52"
    using started_entry(2) [OF st] assms(6) by (simp add: div_eq_0_iff)
  from count_borrow [OF this] have nx: "phys k2 (cell_of pk 0) AND PG_NX \<noteq> 0"
    unfolding k2(4) [symmetric] started_windows(3) [OF st] .
  have cr: "cr3 k2 = cr3 k" using k2(3) by (simp add: preserves_def)
  have "translate k2 a = Some (page j + off, j < t \<or> d \<le> j) \<and> (executable k a \<longleftrightarrow> t \<le> j \<and> j < r) \<and> \<not> executable k2 a"
    if j: "2 \<le> j" "j < 512" "off < 4096" and a: "a = KERNEL_VMA + page j + off" for j off a
  proof -
    have je: "j < e" using j(2) assms(6) by simp
    note kp = started_kernel_page [OF st low j(1) je j(3), folded a]
    have same: "same_entry (phys k2 p) (phys k p)" if "p \<in> path_of k a" for p
      using k2(3) kp(2) that unfolding preserves_def by blast
    have eq: "translate k2 a = translate k a" "path_of k2 a = path_of k a"
      by (rule translate_stable [OF cr]; rule same; assumption)+
    have "cell_of pk 0 \<in> path_of k2 a" unfolding eq kp(3) using j(2) by simp
    then have "\<not> executable k2 a" using nx unfolding executable_def by blast
    then show ?thesis using eq(1) kp(1) started_executable_before [OF st j(1) je j(3)] a by simp
  qed
  then show ?thesis using k2(1) by blast
qed

lemma same_entry_counts: "same_entry (e + of_nat c * push_bit PG_REFCOUNT_OFFSET 1) e"
proof (induction c)
  case (Suc c)
  have "e + of_nat (Suc c) * push_bit PG_REFCOUNT_OFFSET 1 = (e + of_nat c * push_bit PG_REFCOUNT_OFFSET 1) + push_bit PG_REFCOUNT_OFFSET 1"
    by (simp add: algebra_simps)
  then show ?case using same_entry_trans [OF same_entry_counter(1) Suc.IH] by (simp only:)
qed simp

text \<open>Cells of the kernel image that are none above the heap.\<close>

lemma started_tree_kernel:
  assumes s: "started p4 pp pk ip t r d e k" and fs: "\<forall>f \<in> set fs. k_kernel_end k \<le> f" and pr: "preserves (boot_cells k fs) k k2"
    and q: "i < 512" "q < e + tables_needed e" "(q, i) \<notin> {(p4, 511), (pp, 510)}" "q = pk \<Longrightarrow> i < 8"
  shows "cell_of q i \<notin> tree_cells k2 (\<lambda>_. 2) heap_pages"
proof
  note dd = startedD [OF s]
  assume "cell_of q i \<in> tree_cells k2 (\<lambda>_. 2) heap_pages"
  then obtain l v where v: "v \<in> heap_pages" "l \<le> 2" "cell_of q i = cell_at k2 l v" by (auto simp: tree_cells_def)
  have "l \<le> min 2 3" using v(2) by simp
  then have at: "cell_at k2 l v = cell_at k l v" by (rule pt_path_preserved(2) [OF started_heap_path(1) [OF s fs v(1)] pr subset_refl])
  obtain j where j: "j < 5" "cell_at k 0 v = cell_of p4 511" "cell_at k (Suc 0) v = cell_of pp 510" "cell_at k 2 v = cell_of pk (8 + j)"
    using started_heap [OF s v(1)] by blast
  have "l = 0 \<or> l = Suc 0 \<or> l = 2" using v(2) by linarith
  then have "cell_no q i = cell_no p4 511 \<or> cell_no q i = cell_no pp 510 \<or> cell_no q i = cell_no pk (8 + j)"
    using v(3) at j(2-4) unfolding cell_no_def by metis
  then show False using q dd j(1) by (auto simp: cell_no_eq)
qed

text \<open>
  The entries for a kernel page after the three calls: the counts in the upper two levels have grown by 69 at most, that of
  the first page table has gone down by 1, the other tables and the leaf are as before.
\<close>

lemma started_upper_counts:
  assumes st: "started p4 pp pk ip t r d e k" and low: "\<forall>g \<in> set gs. k_kernel_end k \<le> g"
    and k2: "preserves (boot_cells k gs) k k2" "\<forall>p. p \<notin> boot_cells k gs \<longrightarrow> p \<noteq> cell_at k 2 ZERO_WINDOW \<longrightarrow> phys k2 p = phys k p"
    and k3: "table_counts heap_pages k2 (\<lambda>_. 2) k3 69" and p: "p \<in> {cell_of p4 511, cell_of pp 510}"
  shows "\<exists>c \<le> 69. phys k3 p = phys k p + of_nat c * push_bit PG_REFCOUNT_OFFSET 1"
proof -
  note dd = startedD [OF st]
  have b: "p4 < e" "pp < e" "pk < e" using st by (auto simp: started_def)
  have pz: "cell_at k 2 ZERO_WINDOW = cell_of pk 0" by (rule started_windows(3) [OF st])
  have v: "kernel_heap \<in> heap_pages" unfolding heap_pages_def by (intro CollectI exI [of _ 0]) simp
  have at: "cell_at k2 0 kernel_heap = cell_of p4 511" "cell_at k2 (Suc 0) kernel_heap = cell_of pp 510"
    using pt_path_preserved(2) [OF started_heap_path(1) [OF st low v] k2(1) subset_refl, of 0]
      pt_path_preserved(2) [OF started_heap_path(1) [OF st low v] k2(1) subset_refl, of "Suc 0"] started_heap [OF st v] by auto
  have counted: "\<exists>c \<le> 69. phys k3 (cell_at k2 i kernel_heap) = phys k2 (cell_at k2 i kernel_heap) + of_nat c * push_bit PG_REFCOUNT_OFFSET 1"
    if "i < 2" for i
    using k3 v that unfolding table_counts_def by blast
  obtain c where "c \<le> 69" "phys k3 p = phys k2 p + of_nat c * push_bit PG_REFCOUNT_OFFSET 1"
    using counted [of 0] counted [of "Suc 0"] p unfolding at by auto
  moreover have "cell_of p4 511 \<notin> boot_cells k gs" "cell_of pp 510 \<notin> boot_cells k gs"
    by (rule started_free [OF st low]; use b dd in auto)+
  moreover have "cell_of p4 511 \<noteq> cell_of pk 0" "cell_of pp 510 \<noteq> cell_of pk 0"
    unfolding cell_no_def [symmetric] using dd by (simp_all add: cell_no_eq)
  ultimately show ?thesis using k2(2) p unfolding pz by auto
qed

lemma started_directory_nx:
  assumes st: "started p4 pp pk ip t r d e k" and i: "i < tables_needed e"
    and e': "e' = (if i = 0 then phys k (cell_of pk 0) - push_bit PG_REFCOUNT_OFFSET 1 else phys k (cell_of pk i))"
  shows "e' AND PG_NX = 0 \<longleftrightarrow> e < 512 \<or> 0 < i"
proof (cases "i = 0")
  case True
  have b: "unat (phys k (cell_of pk 0)) < 2 ^ 62" using started_upper_unat(3) [OF st i] True by simp
  show ?thesis
  proof (cases "e < 512")
    case small: True
    have "unat (phys k (cell_of pk 0)) - 2 ^ 52 < 2 ^ 63" using b by simp
    moreover have "2 ^ 52 \<le> unat (phys k (cell_of pk 0))"
      using started_entry [OF st] small startedD(6) [OF st] by (metis div_less not_less not_numeral_le_zero)
    ultimately have "(phys k (cell_of pk 0) - push_bit PG_REFCOUNT_OFFSET 1) AND PG_NX = 0" by (simp only: nx_unat count_down_unat)
    then show ?thesis using small True e' by simp
  next
    case False
    then have "unat (entry_at k 2 ZERO_WINDOW) < 2 ^ 52" using started_entry(2) [OF st] by (simp add: div_eq_0_iff)
    from count_borrow [OF this] show ?thesis using False True e' started_windows(3) [OF st] by (simp add: entry_at_def)
  qed
next
  case False
  then show ?thesis using nx_clear [OF started_upper_unat(3) [OF st i]] e' by simp
qed

lemma started_code:
  assumes st: "started p4 pp pk ip t r d e k" and low: "\<forall>g \<in> set gs. k_kernel_end k \<le> g"
    and k2: "preserves (boot_cells k gs) k k2"
      "\<forall>p. p \<notin> boot_cells k gs \<longrightarrow> p \<noteq> cell_at k 2 ZERO_WINDOW \<longrightarrow> phys k2 p = phys k p"
      "phys k2 (cell_at k 2 ZERO_WINDOW) = entry_at k 2 ZERO_WINDOW - push_bit PG_REFCOUNT_OFFSET 1"
    and X: "X \<subseteq> boot_cells k gs"
    and k3: "cr3 k3 = cr3 k2" "\<And>p. p \<notin> X \<union> tree_cells k2 (\<lambda>_. 2) heap_pages \<Longrightarrow> phys k3 p = phys k2 p"
      "table_counts heap_pages k2 (\<lambda>_. 2) k3 69"
    and j: "2 \<le> j" "j < e" "off < 4096"
  shows "executable k3 (KERNEL_VMA + page j + off) \<longleftrightarrow> t \<le> j \<and> j < r \<and> (e < 512 \<or> 512 \<le> j)"
proof -
  let ?a = "KERNEL_VMA + page j + off" and ?i = "j div 512" and ?leaf = "cell_of (e + j div 512) (j mod 512)"
  note u = started_upper_unat [OF st] and dd = startedD [OF st] and i = started_table [OF st j(2)]
  have b: "p4 < e" "pp < e" "pk < e" using st by (auto simp: started_def)
  have pz: "cell_at k 2 ZERO_WINDOW = cell_of pk 0" by (rule started_windows(3) [OF st])
  have kept: "phys k3 (cell_of q n) = phys k2 (cell_of q n) \<and> (cell_of q n \<noteq> cell_of pk 0 \<longrightarrow> phys k2 (cell_of q n) = phys k (cell_of q n))"
    if q: "n < 512" "q < e + tables_needed e" "(q, n) \<notin> {(e, 0), (e, 1), (p4, 0), (pp, 0)}" "(q, n) \<notin> {(p4, 511), (pp, 510)}"
      "q = pk \<Longrightarrow> n < 8" for q n
  proof -
    have "cell_of q n \<notin> boot_cells k gs" by (rule started_free [OF st low q(1-3)])
    moreover from this have "cell_of q n \<notin> X \<union> tree_cells k2 (\<lambda>_. 2) heap_pages"
      using X started_tree_kernel [OF st low k2(1) q(1,2,4,5)] by blast
    ultimately show ?thesis using k3(2) k2(2) unfolding pz by blast
  qed
  have up: "\<exists>c \<le> 69. phys k3 p = phys k p + of_nat c * push_bit PG_REFCOUNT_OFFSET 1" if p: "p \<in> {cell_of p4 511, cell_of pp 510}" for p
    using started_upper_counts [OF st low k2(1,2) k3(3) p] .
  have up_nx: "phys k3 p AND PG_NX = 0" if p: "p \<in> {cell_of p4 511, cell_of pp 510}" for p
  proof -
    obtain c where c: "c \<le> 69" "phys k3 p = phys k p + of_nat c * push_bit PG_REFCOUNT_OFFSET 1" using up [OF p] by blast
    have "unat (phys k p) < 2 ^ 62" using p u(1,2) by auto
    then have "unat (phys k p) + c * 2 ^ 52 < 2 ^ 63" using c(1) by simp
    then show ?thesis unfolding c(2) by (rule count_up_executable)
  qed
  have pd: "phys k3 (cell_of pk ?i) = (if ?i = 0 then phys k (cell_of pk 0) - push_bit PG_REFCOUNT_OFFSET 1 else phys k (cell_of pk ?i))"
  proof (cases "?i = 0")
    case True
    then show ?thesis using kept [of 0 pk] b dd k2(3) unfolding pz entry_at_def by simp
  next
    case False
    have "cell_of pk ?i \<noteq> cell_of pk 0" unfolding cell_no_def [symmetric] using dd i False by (simp add: cell_no_eq)
    then show ?thesis using kept [of ?i pk] b dd i False by simp
  qed
  have leaf: "phys k3 ?leaf = phys k ?leaf"
  proof -
    have "(e + ?i, j mod 512) \<notin> {(e, 0), (e, 1)}" using j(1) by auto
    then have "phys k3 ?leaf = phys k2 ?leaf \<and> (?leaf \<noteq> cell_of pk 0 \<longrightarrow> phys k2 ?leaf = phys k ?leaf)"
      by (intro kept) (use i b in auto)
    moreover have "?leaf \<noteq> cell_of pk 0" unfolding cell_no_def [symmetric] using dd b i by (simp add: cell_no_eq)
    ultimately show ?thesis by simp
  qed
  note path = started_kernel_page(3) [OF st low j]
  have same: "same_entry (phys k3 p) (phys k p)" if p: "p \<in> path_of k ?a" for p
  proof -
    have "p \<in> {cell_of p4 511, cell_of pp 510} \<or> p = cell_of pk ?i \<or> p = ?leaf" using p unfolding path by auto
    then show ?thesis
    proof (elim disjE)
      assume "p \<in> {cell_of p4 511, cell_of pp 510}"
      then show ?thesis using up same_entry_counts by metis
    next
      assume "p = cell_of pk ?i"
      then show ?thesis using pd same_entry_counter(2) same_entry_refl by (cases "?i = 0") simp_all
    next
      assume "p = ?leaf"
      then show ?thesis using leaf same_entry_refl by (simp only:)
    qed
  qed
  have cr: "cr3 k3 = cr3 k" using k2(1) k3(1) by (simp add: preserves_def)
  have "executable k3 ?a \<longleftrightarrow> phys k3 (cell_of pk ?i) AND PG_NX = 0 \<and> t \<le> j \<and> j < r"
    by (rule started_executable [OF st low j refl cr same]) (use up_nx leaf in simp_all)
  moreover have "0 < ?i \<longleftrightarrow> 512 \<le> j" by (simp add: div_greater_zero_iff)
  ultimately show ?thesis using started_directory_nx [OF st i pd] by metis
qed

text \<open>
  A kernel \<open>k\<close>, the kernel \<open>k2\<close> that the frame allocator and the virtual memory leave, with \<open>f\<close> as the zero page and the frames
  \<open>fs\<close> free, and the kernel \<open>k3\<close> after the heap.
\<close>

definition booted_by :: "kernel \<Rightarrow> kernel \<Rightarrow> u64 \<Rightarrow> u64 list \<Rightarrow> kernel \<Rightarrow> bool" where
  "booted_by k k2 f fs k3 \<longleftrightarrow>
     (set (f # fs) = boot_frames k \<and> f \<notin> set fs \<and> page_addr f \<and> (\<forall>p. in_frame f p \<longrightarrow> phys k2 p = 0) \<and> phys k2 (cr3 k2) = 0 \<and>
      window_cells k2 = window_cells k \<and> preserves (boot_cells k (f # fs)) k k2 \<and>
      (\<forall>p. p \<notin> boot_cells k (f # fs) \<longrightarrow> p \<noteq> cell_at k 2 ZERO_WINDOW \<longrightarrow> phys k2 p = phys k p) \<and>
      phys k2 (cell_at k 2 ZERO_WINDOW) = entry_at k 2 ZERO_WINDOW - push_bit PG_REFCOUNT_OFFSET 1) \<and>
     cr3 k3 = cr3 k2 \<and> k_zero_page k3 = f \<and>
     (\<forall>p. p \<notin> window_cells k2 \<union> frame_cells fs \<union> tree_cells k2 (\<lambda>_. 2) heap_pages \<longrightarrow> phys k3 p = phys k2 p) \<and>
     (\<forall>a. translate k2 a \<noteq> None \<longrightarrow> path_of k2 a \<inter> (window_cells k2 \<union> frame_cells fs) = {} \<longrightarrow> translate k3 a = translate k2 a) \<and>
     table_counts heap_pages k2 (\<lambda>_. 2) k3 69"

lemma booted_byD:
  assumes "booted_by k k2 f fs k3"
  shows "set (f # fs) = boot_frames k" "f \<notin> set fs" "\<forall>p. in_frame f p \<longrightarrow> phys k2 p = 0" "phys k2 (cr3 k2) = 0"
    "window_cells k2 = window_cells k" "preserves (boot_cells k (f # fs)) k k2" "cr3 k3 = cr3 k2"
    "\<forall>p. p \<notin> window_cells k2 \<union> frame_cells fs \<union> tree_cells k2 (\<lambda>_. 2) heap_pages \<longrightarrow> phys k3 p = phys k2 p"
    "\<forall>g \<in> set (f # fs). k_kernel_end k \<le> g" "window_cells k2 \<union> frame_cells fs \<subseteq> boot_cells k (f # fs)"
proof -
  note d = assms [unfolded booted_by_def]
  show eq: "set (f # fs) = boot_frames k" and "f \<notin> set fs" and "\<forall>p. in_frame f p \<longrightarrow> phys k2 p = 0" and "phys k2 (cr3 k2) = 0"
    and win: "window_cells k2 = window_cells k" and "preserves (boot_cells k (f # fs)) k k2" and "cr3 k3 = cr3 k2"
    and "\<forall>p. p \<notin> window_cells k2 \<union> frame_cells fs \<union> tree_cells k2 (\<lambda>_. 2) heap_pages \<longrightarrow> phys k3 p = phys k2 p"
    using d by - (elim conjE, assumption)+
  show "\<forall>g \<in> set (f # fs). k_kernel_end k \<le> g" unfolding eq by (simp add: boot_frames_def)
  show "window_cells k2 \<union> frame_cells fs \<subseteq> boot_cells k (f # fs)" unfolding win boot_cells_def by auto
qed

lemma initialize_memory_run:
  fixes s :: memory_state
  defines "k \<equiv> ms_kernel s"
  assumes st: "started p4 pp pk ip t r d e k" and mm: "mem_map_clean (k_mem_map k)" "phys_bounded (k_mem_map k)"
      "k_kernel_end k < mm_physical_end (k_mem_map k)" and room: "70 \<le> card (boot_frames k)"
    and zeros: "load_u64 (hp_mem (ms_heap s)) 0xFFFFFFFF81040000 = 0" "load_u64 (hp_mem (ms_heap s)) 0xFFFFFFFF81040008 = 0"
  obtains k2 f fs k3 h ps where "booted_by k k2 f fs k3" "initialize_memory s = Inr ((), s\<lparr>ms_kernel := k3, ms_heap := h\<rparr>)"
    "heap_ok 23 17 fresh_tree h" "links_ok 17 h" "al_memory h = 0xFFFFFFFF81040000" "meta 17 h \<subseteq> area_of kernel_heap 0x40000"
    "frames_avail k3 (drop 69 fs)" "length (drop 69 fs) + 70 = card (boot_frames k)" "length ps = 64" "distinct ps" "set ps \<subseteq> boot_frames k"
    "\<forall>i < 64. \<forall>off < 4096. translate k3 (kernel_heap + 4096 * of_nat i + off) = Some (ps ! i + off, True)"
    "\<forall>i < 2048. \<forall>off < 4096. translate k3 (0xFFFFFFFF81040000 + 4096 * of_nat i + off) = Some (f + off, False)"
proof -
  have "0 < card (boot_frames k)" using room by linarith
  then obtain k2 f fs where k2: "thenS initialize_frame_allocation initialize_virtual_memory k = Inr ((), k2)" "set (f # fs) = boot_frames k"
      "Suc (length fs) = card (boot_frames k)" "k_zero_page k2 = f" "page_addr f" "f \<notin> set fs" "\<forall>p. in_frame f p \<longrightarrow> phys k2 p = 0"
      "frames_avail k2 fs" "window_cells k2 = window_cells k" "phys k2 (cr3 k2) = 0" "preserves (boot_cells k (f # fs)) k k2"
      "\<forall>p. p \<notin> boot_cells k (f # fs) \<longrightarrow> p \<noteq> cell_at k 2 ZERO_WINDOW \<longrightarrow> phys k2 p = phys k p"
      "phys k2 (cell_at k 2 ZERO_WINDOW) = entry_at k 2 ZERO_WINDOW - push_bit PG_REFCOUNT_OFFSET 1"
    using boot_before_heap [OF st mm] by blast
  have low: "\<forall>g \<in> set (f # fs). k_kernel_end k \<le> g" unfolding k2(2) by (simp add: boot_frames_def)
  have own: "window_cells k2 \<union> frame_cells fs \<subseteq> boot_cells k (f # fs)" unfolding k2(9) boot_cells_def by auto
  have path: "\<forall>v \<in> heap_pages. pt_path (window_cells k2 \<union> frame_cells fs) k2 2 v"
    using pt_path_mono [OF pt_path_preserved(1) [OF started_heap_path(1) [OF st low] k2(11) subset_refl] own] by blast
  define s2 where "s2 = s\<lparr>ms_kernel := k2\<rparr>"
  have len: "69 \<le> length fs" using k2(3) room by linarith
  have zero: "page_addr (k_zero_page k2)" using k2(4,5) by simp
  have z: "load_u64 (hp_mem (ms_heap s2)) 0xFFFFFFFF81040000 = 0" "load_u64 (hp_mem (ms_heap s2)) 0xFFFFFFFF81040008 = 0" "ms_kernel s2 = k2"
    using zeros by (simp_all add: s2_def)
  obtain k3 h ps where k3: "initialize_kernel_heap s2 = Inr ((), s2\<lparr>ms_kernel := k3, ms_heap := h\<rparr>)"
      "heap_ok 23 17 fresh_tree h" "links_ok 17 h" "al_memory h = 0xFFFFFFFF81040000" "meta 17 h \<subseteq> area_of kernel_heap 0x40000"
      "frames_avail k3 (drop 69 fs)" "length ps = 64" "distinct ps" "set ps \<subseteq> set fs"
      "\<forall>i < 64. \<forall>off < 4096. translate k3 (kernel_heap + 4096 * of_nat i + off) = Some (ps ! i + off, True)"
      "\<forall>i < 2048. \<forall>off < 4096. translate k3 (0xFFFFFFFF81040000 + 4096 * of_nat i + off) = Some (k_zero_page k2 + off, False)"
      "cr3 k3 = cr3 k2" "k_zero_page k3 = k_zero_page k2"
      "\<forall>p. p \<notin> window_cells k2 \<union> frame_cells fs \<union> tree_cells k2 (\<lambda>_. 2) heap_pages \<longrightarrow> phys k3 p = phys k2 p"
      "\<forall>a. translate k2 a \<noteq> None \<longrightarrow> path_of k2 a \<inter> (window_cells k2 \<union> frame_cells fs) = {} \<longrightarrow> translate k3 a = translate k2 a"
      "table_counts heap_pages k2 (\<lambda>_. 2) k3 69"
    using initialize_kernel_heap_ok [OF z(1,2), unfolded z(3), OF k2(8) len zero path] by blast
  obtain k1 where k1: "initialize_frame_allocation k = Inr ((), k1)" "initialize_virtual_memory k1 = Inr ((), k2)"
    using k2(1) by (auto simp: thenS_apply bindE_eq_Inr)
  have "on_pages initialize_frame_allocation s = Inr ((), s\<lparr>ms_kernel := k1\<rparr>)" using k1(1) by (simp add: on_pages_def k_def)
  moreover have "on_pages initialize_virtual_memory (s\<lparr>ms_kernel := k1\<rparr>) = Inr ((), s2)" using k1(2) by (simp add: on_pages_def s2_def)
  ultimately have "initialize_memory s = initialize_kernel_heap s2" by (simp add: initialize_memory_def thenS_apply)
  then have run: "initialize_memory s = Inr ((), s\<lparr>ms_kernel := k3, ms_heap := h\<rparr>)" using k3(1) by (simp add: s2_def)
  have bt: "booted_by k k2 f fs k3"
    unfolding booted_by_def by (intro conjI k2(2,5-7,9-13) k3(12,14-16)) (simp add: k3(13) k2(4))
  have "length (drop 69 fs) + 70 = card (boot_frames k)" using k2(3) len by simp
  moreover have "set ps \<subseteq> boot_frames k" using k3(9) k2(2) by auto
  ultimately show thesis by (rule that [OF bt run k3(2-6) _ k3(7,8) _ k3(10) k3(11) [unfolded k2(4)]])
qed

lemma booted_cleared:
  assumes st: "started p4 pp pk ip t r d e k" and mb: "phys_bounded (k_mem_map k)" and bt: "booted_by k k2 f fs k3" and p: "in_frame f p"
  shows "phys k3 p = 0"
proof -
  note d = booted_byD [OF bt]
  have f: "f \<in> boot_frames k" using d(1) by auto
  have "p \<notin> window_cells k2"
    using boot_frames_managed [OF st mb f] p d(5) by (auto simp: managed_def window_cells_def)
  moreover have "p \<notin> tree_cells k2 (\<lambda>_. 2) heap_pages"
  proof -
    have "p \<in> frame_cells (f # fs)" using p by simp
    then show ?thesis using started_tree_cells(1) [OF st d(9,6)] by blast
  qed
  moreover have "p \<notin> frame_cells fs" using in_frame_unique p d(2) unfolding frame_cells_def by blast
  ultimately show ?thesis using d(8,3) p by simp
qed

lemma booted_identity:
  assumes st: "started p4 pp pk ip t r d e k" and bt: "booted_by k k2 f fs k3"
  shows "phys k3 (cr3 k3) = 0"
proof -
  note d = booted_byD [OF bt]
  have c: "cr3 k2 = cell_of p4 0" using d(6) startedD(12) [OF st] by (simp add: preserves_def)
  have b: "p4 < e" using st by (simp add: started_def)
  have "cell_of p4 0 \<notin> window_cells k2"
    unfolding d(5) unfolding window_cells_def started_windows(4,5) [OF st] cell_no_def [symmetric] using b startedD [OF st] by (simp add: cell_no_eq)
  moreover have "cell_of p4 0 \<notin> frame_cells fs"
  proof
    assume "cell_of p4 0 \<in> frame_cells fs"
    then obtain g where g: "g \<in> set fs" "in_frame g (cell_of p4 0)" unfolding frame_cells_def by blast
    have "k_kernel_end k \<le> g" using d(9) g(1) by simp
    then show False using started_frame [OF st _ g(2)] b by simp
  qed
  ultimately have "phys k3 (cr3 k2) = phys k2 (cr3 k2)"
    using d(8) started_tree_cells(2) [OF st d(9,6)] unfolding c by blast
  then show ?thesis using d(4,7) by simp
qed

lemma booted_kernel_page:
  assumes st: "started p4 pp pk ip t r d e k" and bt: "booted_by k k2 f fs k3" and j: "2 \<le> j" "j < e" "off < 4096"
  shows "translate k3 (KERNEL_VMA + page j + off) = Some (page j + off, j < t \<or> d \<le> j)"
    "executable k3 (KERNEL_VMA + page j + off) \<longleftrightarrow> t \<le> j \<and> j < r \<and> (e < 512 \<or> 512 \<le> j)"
proof -
  let ?a = "KERNEL_VMA + page j + off"
  note dd = booted_byD [OF bt]
  note kp = started_kernel_page [OF st dd(9) j]
  have cr: "cr3 k2 = cr3 k" using dd(6) by (simp add: preserves_def)
  have same: "same_entry (phys k2 p) (phys k p)" if "p \<in> path_of k ?a" for p
    using dd(6) kp(2) that unfolding preserves_def by blast
  have eq: "translate k2 ?a = translate k ?a" "path_of k2 ?a = path_of k ?a"
    by (rule translate_stable [OF cr]; rule same; assumption)+
  have "path_of k2 ?a \<inter> (window_cells k2 \<union> frame_cells fs) = {}" unfolding eq(2) using kp(2) dd(10) by blast
  moreover have "translate k2 ?a \<noteq> None" unfolding eq(1) kp(1) by simp
  ultimately have "translate k3 ?a = translate k2 ?a" using bt unfolding booted_by_def by blast
  then show "translate k3 ?a = Some (page j + off, j < t \<or> d \<le> j)" using eq(1) kp(1) by simp
  have "phys k2 (cell_at k 2 ZERO_WINDOW) = entry_at k 2 ZERO_WINDOW - push_bit PG_REFCOUNT_OFFSET 1"
      "\<forall>p. p \<notin> boot_cells k (f # fs) \<longrightarrow> p \<noteq> cell_at k 2 ZERO_WINDOW \<longrightarrow> phys k2 p = phys k p"
      "table_counts heap_pages k2 (\<lambda>_. 2) k3 69"
    using bt unfolding booted_by_def by blast+
  from started_code [OF st dd(9,6) this(2,1) dd(10,7) _ this(3) j] dd(8)
  show "executable k3 ?a \<longleftrightarrow> t \<le> j \<and> j < r \<and> (e < 512 \<or> 512 \<le> j)" by blast
qed

text \<open>
  Property C11: the memory comes up. From the page tables that \<open>initialize_paging\<close> leaves for a kernel image,
  with a sanitized memory map that holds at least 70 pages behind the kernel and zeros at the start of the heap,
  the three calls of \<open>initialize\<close> return. One frame becomes the zero page, 64 the bitmaps of the heap and 5 its page
  tables, the others stay with the frame allocator; the heap is one free block; every page of it reads as zeros and has no
  write access yet; the identity mapping is gone, and from its third page on the kernel is mapped as before, without
  write access to its text and read-only data. Code can be fetched from its text section and nowhere else in it, but when the
  image ends at 2 MiB or above, its first 2 MiB have lost that right (the borrow of \<open>decrease_counter\<close>).
\<close>

theorem initialize_memory_correct:
  fixes s :: memory_state
  defines "k \<equiv> ms_kernel s"
  assumes "started p4 pp pk ip t r d e k" "mem_map_clean (k_mem_map k)" "phys_bounded (k_mem_map k)"
    and "k_kernel_end k < mm_physical_end (k_mem_map k)" "70 \<le> card (boot_frames k)"
    and "load_u64 (hp_mem (ms_heap s)) 0xFFFFFFFF81040000 = 0" "load_u64 (hp_mem (ms_heap s)) 0xFFFFFFFF81040008 = 0"
  shows "\<exists>k' h fs ps. initialize_memory s = Inr ((), s\<lparr>ms_kernel := k', ms_heap := h\<rparr>) \<and>
    frames_avail k' fs \<and> set fs \<subseteq> boot_frames k \<and> length fs + 70 = card (boot_frames k) \<and>
    heap_ok 23 17 fresh_tree h \<and> links_ok 17 h \<and> al_memory h = 0xFFFFFFFF81040000 \<and> meta 17 h \<subseteq> area_of kernel_heap 0x40000 \<and>
    length ps = 64 \<and> distinct ps \<and> set ps \<subseteq> boot_frames k \<and>
    (\<forall>i < 64. \<forall>off < 4096. translate k' (kernel_heap + 4096 * of_nat i + off) = Some (ps ! i + off, True)) \<and>
    (\<forall>i < 2048. \<forall>off < 4096. translate k' (0xFFFFFFFF81040000 + 4096 * of_nat i + off) = Some (k_zero_page k' + off, False) \<and>
       vload (0xFFFFFFFF81040000 + 4096 * of_nat i + off) k' = Inr (0, k')) \<and>
    (\<forall>a. pt_index 4 a = 0 \<longrightarrow> translate k' a = None) \<and>
    (\<forall>j off. 2 \<le> j \<longrightarrow> j < e \<longrightarrow> off < 4096 \<longrightarrow>
       translate k' (KERNEL_VMA + page j + off) = Some (page j + off, j < t \<or> d \<le> j) \<and>
       (executable k' (KERNEL_VMA + page j + off) \<longleftrightarrow> t \<le> j \<and> j < r \<and> (e < 512 \<or> 512 \<le> j)))"
proof -
  note st = assms(2)
  obtain k2 f fs k3 h ps where k3: "booted_by k k2 f fs k3" "initialize_memory s = Inr ((), s\<lparr>ms_kernel := k3, ms_heap := h\<rparr>)"
      "heap_ok 23 17 fresh_tree h" "links_ok 17 h" "al_memory h = 0xFFFFFFFF81040000" "meta 17 h \<subseteq> area_of kernel_heap 0x40000"
      "frames_avail k3 (drop 69 fs)" "length (drop 69 fs) + 70 = card (boot_frames k)" "length ps = 64" "distinct ps" "set ps \<subseteq> boot_frames k"
      "\<forall>i < 64. \<forall>off < 4096. translate k3 (kernel_heap + 4096 * of_nat i + off) = Some (ps ! i + off, True)"
      "\<forall>i < 2048. \<forall>off < 4096. translate k3 (0xFFFFFFFF81040000 + 4096 * of_nat i + off) = Some (f + off, False)"
    by (rule initialize_memory_run [of p4 pp pk ip t r d e s, folded k_def, OF assms(2-8)])
  have f: "page_addr f" "k_zero_page k3 = f" using k3(1) unfolding booted_by_def by blast+
  have lazy: "translate k3 v = Some (k_zero_page k3 + off, False) \<and> vload v k3 = Inr (0, k3)"
    if v: "v = 0xFFFFFFFF81040000 + 4096 * of_nat i + off" "i < 2048" "off < 4096" for i off v
  proof -
    have t: "translate k3 v = Some (f + off, False)" using k3(13) v by simp
    have "in_frame f (f + off)" by (rule in_frame_add [OF page_addr_page [OF f(1)] v(3)])
    then have "phys k3 (f + off) = 0" by (rule booted_cleared [OF st assms(4) k3(1)])
    then show ?thesis using t f(2) by (simp add: vload_def)
  qed
  have "set (drop 69 fs) \<subseteq> boot_frames k" using booted_byD(1) [OF k3(1)] set_drop_subset [of 69 fs] by auto
  then show ?thesis
    using k3(2-12) lazy identity_gone [OF booted_identity [OF st k3(1)]] booted_kernel_page [OF st k3(1)] by blast
qed

section \<open>An example\<close>

text \<open>
  The image of \<open>Paging_Init\<close> and one that ends below 2 MiB, with their tables, and 4 MiB of memory, of which the first is not
  usable.
\<close>

definition small_symbols :: boot_symbols where
  "small_symbols = example_symbols\<lparr>KERNEL_END_PHYS := of_nat (4096 * 400)\<rparr>"

definition booted_kernel :: "nat \<Rightarrow> cells \<Rightarrow> kernel" where
  "booted_kernel kend m = example_kernel\<lparr>phys := m, cr3 := page 257, k_kernel_end := page kend,
     k_mem_map := (one_area_map 0x100000 0x400000)\<lparr>mm_physical_end := 0x400000\<rparr>\<rparr>"

lemma booted_map:
  assumes n: "kend \<in> {401, 602}"
  shows "mem_map_clean (k_mem_map (booted_kernel kend m))" "phys_bounded (k_mem_map (booted_kernel kend m))"
    "k_kernel_end (booted_kernel kend m) < mm_physical_end (k_mem_map (booted_kernel kend m))"
    "70 \<le> card (boot_frames (booted_kernel kend m))"
proof -
  let ?k = "booted_kernel kend m"
  have a: "areas (k_mem_map ?k) = [\<lparr>area_begin = 0x100000, area_end = 0x400000\<rparr>]"
    using areas_one_area_map [of "0x100000" "0x400000"] by (simp add: booted_kernel_def areas_def)
  show "mem_map_clean (k_mem_map ?k)"
    by (simp add: mem_map_clean_def booted_kernel_def one_area_map_def mem_map_zero_def MAP_MAX_def)
  show "phys_bounded (k_mem_map ?k)" by (simp add: phys_bounded_def a)
  show "k_kernel_end ?k < mm_physical_end (k_mem_map ?k)" using n by (auto simp: booted_kernel_def)
  let ?g = "\<lambda>q. of_nat (4096 * q) :: u64"
  have u: "unat (?g q) = 4096 * q" if "q < 1024" for q using that unat_of_nat_u64 [of "4096 * q"] by simp
  have "inj_on ?g {602..<1024}"
  proof (rule inj_onI)
    fix a b assume ab: "a \<in> {602..<1024}" "b \<in> {602..<1024}" "?g a = ?g b"
    then have "4096 * a = 4096 * b" using u [of a] u [of b] by (metis atLeastLessThan_iff)
    then show "a = b" by simp
  qed
  then have c: "card (?g ` {602..<1024}) = 422" by (simp add: card_image)
  have "?g ` {602..<1024} \<subseteq> boot_frames ?k"
  proof (rule image_subsetI)
    fix q :: nat assume q: "q \<in> {602..<1024}"
    then have v: "unat (?g q) = 4096 * q" by (intro u) simp
    have "k_kernel_end ?k \<le> ?g q" unfolding word_le_nat_alt v using q n by (auto simp: booted_kernel_def)
    moreover have "unat (?g q) \<in> usable_pages (k_mem_map ?k)" unfolding v using q by (simp add: usable_pages_def a area_pages_def)
    ultimately show "?g q \<in> boot_frames ?k" by (simp add: boot_frames_def)
  qed
  then have "card (?g ` {602..<1024}) \<le> card (boot_frames ?k)" by (rule card_mono [OF finite])
  then show "70 \<le> card (boot_frames ?k)" using c by simp
qed

lemma booted_started:
  assumes "e = 400 \<and> b = small_symbols \<and> kend = 401 \<or> e = 600 \<and> b = example_symbols \<and> kend = 602"
  obtains m where "initialize_paging b (\<lambda>_. 0) = Inr (of_nat (4096 * kend), m)" "started 257 258 259 260 270 300 310 e (booted_kernel kend m)"
proof -
  have ok: "image_ok b 257 258 259 260 270 300 310 320 e" using assms by (auto simp: image_ok_def example_symbols_def small_symbols_def)
  have n: "e + tables_needed e = kend" "257 < e" "e \<le> 4096" using assms by (auto simp: tables_needed_def)
  obtain m where m: "initialize_paging b (\<lambda>_. 0) = Inr (of_nat (4096 * (e + tables_needed e)), m)"
      "kernel_tables 257 258 259 260 270 300 310 e m" "\<forall>i. tables_needed e \<le> i \<longrightarrow> i < 512 \<longrightarrow> m (cell_of 259 i) = 0"
    using initialize_paging_run [OF ok, of "\<lambda>_. 0"] by blast
  have "phys (booted_kernel kend m) = m" "cr3 (booted_kernel kend m) = page 257" "k_kernel_end (booted_kernel kend m) = page (e + tables_needed e)"
    by (simp_all add: booted_kernel_def n)
  then have "started 257 258 259 260 270 300 310 e (booted_kernel kend m)"
    unfolding started_def using m(2,3) assms by (simp only:) auto
  then show thesis using that m(1) n by simp
qed

theorem initialize_memory_correct_witness:
  "\<exists>m k h. initialize_paging small_symbols (\<lambda>_. 0) = Inr (of_nat (4096 * 401), m) \<and>
    initialize_memory \<lparr>ms_kernel = booted_kernel 401 m, ms_heap = blank_heap\<rparr> = Inr ((), \<lparr>ms_kernel = k, ms_heap = h\<rparr>) \<and>
    heap_ok 23 17 fresh_tree h \<and> vload 0xFFFFFFFF81041234 k = Inr (0, k) \<and> translate k 0x1000 = None \<and>
    translate k (KERNEL_VMA + page 280 + 8) = Some (page 280 + 8, False) \<and> executable k (KERNEL_VMA + page 280 + 8)"
proof -
  obtain m where m: "initialize_paging small_symbols (\<lambda>_. 0) = Inr (of_nat (4096 * 401), m)"
      "started 257 258 259 260 270 300 310 400 (booted_kernel 401 m)"
    by (rule booted_started [of 400 small_symbols 401]) simp_all
  let ?s = "\<lparr>ms_kernel = booted_kernel 401 m, ms_heap = blank_heap\<rparr>"
  have z: "load_u64 (hp_mem (ms_heap ?s)) a = 0" for a by (simp add: blank_heap_def load_u64_def)
  have st: "started 257 258 259 260 270 300 310 400 (ms_kernel ?s)" using m(2) by simp
  have mm: "mem_map_clean (k_mem_map (ms_kernel ?s))" "phys_bounded (k_mem_map (ms_kernel ?s))"
      "k_kernel_end (ms_kernel ?s) < mm_physical_end (k_mem_map (ms_kernel ?s))" "70 \<le> card (boot_frames (ms_kernel ?s))"
    using booted_map [of 401 m] by simp_all
  from initialize_memory_correct [OF st mm z z]
  obtain k h where r: "initialize_memory ?s = Inr ((), ?s\<lparr>ms_kernel := k, ms_heap := h\<rparr>)" "heap_ok 23 17 fresh_tree h"
      "\<forall>i < 2048. \<forall>off < 4096. translate k (0xFFFFFFFF81040000 + 4096 * of_nat i + off) = Some (k_zero_page k + off, False) \<and>
         vload (0xFFFFFFFF81040000 + 4096 * of_nat i + off) k = Inr (0, k)"
      "\<forall>a. pt_index 4 a = 0 \<longrightarrow> translate k a = None"
      "\<forall>j off. 2 \<le> j \<longrightarrow> j < 400 \<longrightarrow> off < 4096 \<longrightarrow> translate k (KERNEL_VMA + page j + off) = Some (page j + off, j < 270 \<or> 310 \<le> j) \<and>
         (executable k (KERNEL_VMA + page j + off) \<longleftrightarrow> 270 \<le> j \<and> j < 300 \<and> (400 < (512 :: nat) \<or> 512 \<le> j))"
    by blast
  have "vload (0xFFFFFFFF81040000 + 4096 * of_nat 1 + 0x234) k = Inr (0, k)"
    using r(3) [rule_format, of 1 "0x234"] by simp
  then have "vload 0xFFFFFFFF81041234 k = Inr (0, k)" by simp
  moreover have "translate k 0x1000 = None" using r(4) by (simp add: pt_index_def)
  moreover have "translate k (KERNEL_VMA + page 280 + 8) = Some (page 280 + 8, False)" "executable k (KERNEL_VMA + page 280 + 8)"
    using r(5) [rule_format, of 280 8] by simp_all
  ultimately show ?thesis using m(1) r(1,2) by auto
qed

theorem initialize_virtual_memory_correct_witness:
  "\<exists>k k'. initialize_virtual_memory k = Inr ((), k') \<and> translate k' 0x1000 = None \<and> k_zero_page k' \<noteq> 0"
proof -
  obtain m where m: "started 257 258 259 260 270 300 310 400 (booted_kernel 401 m)"
    by (rule booted_started [of 400 small_symbols 401]) simp_all
  let ?k = "booted_kernel 401 m"
  have mm: "mem_map_clean (k_mem_map ?k)" "phys_bounded (k_mem_map ?k)" "k_kernel_end ?k < mm_physical_end (k_mem_map ?k)"
      "70 \<le> card (boot_frames ?k)"
    using booted_map [of 401 m] by simp_all
  obtain k1 gs where k1: "frames_avail k1 gs" "set gs = boot_frames ?k" "length gs = card (boot_frames ?k)"
      "window_cells k1 = window_cells ?k" "window_tables k1 = window_tables ?k" "preserves {window_cell ?k} ?k k1"
      "\<forall>p. p \<noteq> window_cell ?k \<longrightarrow> phys k1 p = phys ?k p"
    using boot_allocation [OF m mm(1-3)] by blast
  have "0 < length gs" using mm(4) k1(3) by simp
  then obtain f fs where gs: "gs = f # fs" by (cases gs) auto
  then have av: "frames_avail k1 (f # fs)" and sub: "set (f # fs) \<subseteq> boot_frames ?k" using k1(1,2) by simp_all
  note ready = boot_window_ready [OF m sub k1(4-7)]
  have "entry_at k1 2 ZERO_WINDOW AND PG_REFCOUNT_MASK \<noteq> 0"
    unfolding ready(7) refcount_zero started_entry(2) [OF m] by simp
  from initialize_virtual_memory_correct [OF av ready(1,2) this ready(3,4)]
  obtain k' where k': "initialize_virtual_memory k1 = Inr ((), k')" "k_zero_page k' = f" "\<forall>a. pt_index 4 a = 0 \<longrightarrow> translate k' a = None"
    by blast
  moreover have "f \<noteq> 0" using frames.avail_frame [OF av, of f] by simp
  moreover have "translate k' 0x1000 = None" using k'(3) by (simp add: pt_index_def)
  ultimately show ?thesis by blast
qed

theorem kernel_text_not_executable_witness:
  "\<exists>m k'. initialize_paging example_symbols (\<lambda>_. 0) = Inr (of_nat (4096 * 602), m) \<and>
    thenS initialize_frame_allocation initialize_virtual_memory (booted_kernel 602 m) = Inr ((), k') \<and>
    executable (booted_kernel 602 m) (KERNEL_VMA + page 280 + 8) \<and> \<not> executable k' (KERNEL_VMA + page 280 + 8)"
proof -
  obtain m where m: "initialize_paging example_symbols (\<lambda>_. 0) = Inr (of_nat (4096 * 602), m)"
      "started 257 258 259 260 270 300 310 600 (booted_kernel 602 m)"
    by (rule booted_started [of 600 example_symbols 602]) simp_all
  have mm: "mem_map_clean (k_mem_map (booted_kernel 602 m))" "phys_bounded (k_mem_map (booted_kernel 602 m))"
      "k_kernel_end (booted_kernel 602 m) < mm_physical_end (k_mem_map (booted_kernel 602 m))" "0 < card (boot_frames (booted_kernel 602 m))"
    using booted_map [of 602 m] by simp_all
  have e: "512 \<le> (600 :: nat)" by simp
  obtain k' where k': "thenS initialize_frame_allocation initialize_virtual_memory (booted_kernel 602 m) = Inr ((), k')"
      "\<forall>j off. 2 \<le> j \<longrightarrow> j < 512 \<longrightarrow> off < 4096 \<longrightarrow>
        translate k' (KERNEL_VMA + page j + off) = Some (page j + off, j < 270 \<or> 310 \<le> j) \<and>
        (executable (booted_kernel 602 m) (KERNEL_VMA + page j + off) \<longleftrightarrow> 270 \<le> j \<and> j < 300) \<and> \<not> executable k' (KERNEL_VMA + page j + off)"
    using kernel_text_not_executable [OF m(2) mm e] by blast
  from k'(2) [rule_format, of 280 8] show ?thesis using m(1) k'(1) by auto
qed

end
