(* ===== verification/Spec2Isabelle.thy ===== *)
theory Spec2Isabelle imports Libc Bits Multiboot Syscall Memory_Boot begin

text \<open>
  A verification library of the lasagne kernel, a small kernel for amd64 in C and assembly under
  \<open>src/kernel/\<close>.

  \<^bold>\<open>How the kernel works.\<close> The boot loader leaves a description of the memory, which \<open>arch/x64/multiboot.c\<close>
  turns into the memory map of \<open>mm/memory_map.c\<close>. The frame allocator (\<open>mm/frame.c\<close>) hands out the frames of the
  map; the page table code (\<open>mm/pages.c\<close>) takes its tables and pages from it and serves page faults. The heap
  (\<open>mm/alloc.c\<close> over the buddy allocator \<open>mm/buddy.c\<close>) lies in pages mapped by it, and threads and tasks
  (\<open>core/task.c\<close>) take their structures from the heap. Interrupts (\<open>arch/x64/irq.c\<close>) drive the timer
  (\<open>arch/x64/io/pit.c\<close>), which preempts threads; system calls (\<open>core/syscall.c\<close>) yield or print; all output goes
  through \<open>core/printk.c\<close> to the terminal \<open>arch/x64/io/tty.c\<close>.

  \<^bold>\<open>How it is modelled.\<close> A C function is a procedure \<open>('s, 'a) kproc\<close> on the state of its component, a record
  with the source's variables: it returns a value and the new state, or one of the errors \<open>kerror\<close> of \<open>Prelude\<close>
  (a failed assertion, a page fault, behaviour C leaves undefined, an access outside an array, a loop that never
  ends). \<open>uint\<close> types are words, which wrap; an \<open>int\<close> is an integer whose overflow is an error; pointers are
  64-bit addresses into a byte memory (\<open>Memory\<close>), or into the 8-byte cells of physical memory where the page tables
  are concerned (\<open>Machine\<close>). Loops are structural recursion, \<open>function\<close> with a termination proof, or have fuel.

  \<^bold>\<open>The theories.\<close>
  \<^item> \<open>Prelude\<close>: words, errors, procedures, C arithmetic. \<open>Memory\<close>: the byte store.
  \<^item> \<open>Libc\<close> (\<open>libc/\<close>), \<open>Bits\<close> (\<open>include/util/\<close>; the locale \<open>bit_array\<close> is the interface of a bitmap), \<open>Ds\<close>
    (\<open>include/ds.h\<close>; the locale \<open>ring_list\<close> is the interface of the cyclic lists).
  \<^item> \<open>Memory_Map\<close>, \<open>Multiboot\<close>: the memory map and the boot information.
  \<^item> \<open>Machine\<close>, \<open>Page_Tables\<close>: the page walk of the processor and the recursive mapping.
  \<^item> \<open>Frame\<close>, \<open>Frame_Init\<close>, \<open>Frame_Spec\<close>: \<open>mm/frame.c\<close>, its initialisation, its invariant and its refinement of a
    free list; \<open>Frame_Contract\<close>: the locale \<open>frame_source\<close>, what the page code relies on, interpreted in \<open>Frame_Spec\<close>.
  \<^item> \<open>Pages\<close>, \<open>Pages_Spec\<close>: \<open>mm/pages.c\<close> and what mapping, unmapping and page faults do; \<open>Map_Range\<close>: the tree of
    page tables above a set of pages, how it grows, and \<open>map_range\<close>.
  \<^item> \<open>Paging_Init\<close>: \<open>arch/x64/paging_init32.c\<close>, the tables the kernel starts with. \<open>Vm_Init\<close>: \<open>initialize_virtual_memory\<close>,
    which takes down the identity mapping and makes the zero page.
  \<^item> \<open>Buddy\<close>: the operations of \<open>mm/buddy.c\<close>. \<open>Buddy_Lists\<close>: its lists in memory; \<open>Buddy_Tree\<close>, \<open>Buddy_Blocks\<close>,
    \<open>Buddy_Index\<close>: the tree of blocks the heap is divided into, where the blocks lie and which bits belong to them;
    \<open>Buddy_Inv\<close>: the invariant that ties lists, bits and sizes to that tree; \<open>Buddy_Steps\<close>, \<open>Buddy_Alloc\<close>,
    \<open>Buddy_Free\<close>, \<open>Buddy_Spec\<close>: what the steps, allocation and deallocation do to the tree, and the properties.
  \<^item> \<open>Block_Contract\<close>: the locale \<open>block_allocator\<close>, what the heap relies on, interpreted in \<open>Buddy_Client\<close>; \<open>Heap\<close>:
    \<open>mm/alloc.c\<close>; \<open>Heap_Boot\<close>: the heap at boot on the page tables, with the frames it takes and what its pages show.
  \<^item> \<open>Memory_Boot\<close>: the three calls of \<open>arch/x64/init.c\<close> that set up the memory, run one after the other on the tables
    that \<open>Paging_Init\<close> leaves.
  \<^item> \<open>Tty\<close>, \<open>Printk\<close>, \<open>Console\<close>: the terminal and its specification, formatted output, and both together.
  \<^item> \<open>Task\<close>, \<open>Scheduler\<close>, \<open>Threads\<close>: \<open>core/task.c\<close> with \<open>core/task_asm.asm\<close>; preemption against an abstract
    round-robin scheduler; how threads start and resume.
  \<^item> \<open>Irq\<close>, \<open>Exceptions\<close>: \<open>arch/x64/irq.c\<close> and its exception report. \<open>System\<close>: \<open>core/assert.c\<close> and the timer.
    \<open>Syscall\<close>: \<open>core/syscall.c\<close>, \<open>core/syscall_asm.asm\<close>, and the steps of the running kernel.

  \<^bold>\<open>Bounds and fuel.\<close> \<open>parse_tags\<close> takes fuel that the property of termination bounds by the number of tags; the
  scheduler's loops take fuel that must cover the lengths of the rings; \<open>c_string\<close> reads at most \<open>2 ^ 64\<close> bytes,
  that is all of the memory; \<open>clear_ptes\<close> has fuel for the 512 entries of a page table, the most that are left to
  clear. The loops of the buddy allocator terminate by their level.

  \<^bold>\<open>Not modelled.\<close> The translation cache of the processor (\<open>invlpg\<close> and the reload of \<open>cr3\<close> have no effect on
  the model, which walks the tables at every access), accessed and dirty bits, timing and the interleaving of an
  interrupt with a single C statement; the boot code before long mode (\<open>arch/x64/boot.asm\<close>); of \<open>arch/x64/init.c\<close>
  the calls other than those that set up the memory, each of which is modelled with its component, as they work on
  separate states; the demonstration programs \<open>do_sth\<close>, \<open>usermode_function\<close> and \<open>usermode_function2\<close>; functions that
  only print statistics (\<open>print_frame_allocation_info\<close>, \<open>allocator_print_status\<close>). The threads, tasks and stacks
  whose addresses \<open>kalloc\<close> returns, the bytes of the heap and the cells of physical memory are separate parts of the
  state; that the first page of the heap reads as zeros when
  \<open>initialize_kernel_heap\<close> starts is a hypothesis there.
\<close>

end
